(* ===== verification/Xv6_Prelude.thy ===== *)
theory Xv6_Prelude
  imports Main "HOL-Library.Word"
begin

text \<open>
  Shared material of the development: the names of C's integer types, the result type of a
  kernel routine, the scan loops over a fixed table, and little-endian access to a byte
  buffer.

  A kernel routine takes the kernel state last and returns \<^typ>\<open>'e + 'a\<close>: \<^term>\<open>Inr\<close> holds the
  returned value together with the new state, and \<^term>\<open>Inl\<close> holds the reason why the routine
  never returns to its caller.
\<close>

unbundle bit_operations_syntax

section \<open>C integer types\<close>

type_synonym u8 = "8 word"
type_synonym u16 = "16 word"
type_synonym u32 = "32 word"
type_synonym u64 = "64 word"

section \<open>Results of kernel routines\<close>

text \<open>The shared theorem collections: simplification rules for results, frame rules
  (which fields a routine leaves alone) and invariant preservation rules.\<close>

named_theorems kres_simps
named_theorems frame_simps
named_theorems inv_intros

text \<open>
  The kernel's locks and wait channels are addresses of global objects; the model names
  each object. Sleep locks live in buffers and in inode table entries; a process, a pipe, a
  buffer and the fixed globals serve as wait channels.
\<close>

datatype slock = BufLock nat | InodeLock nat

datatype lockid = PidLock | WaitLock | SchedLock | ProcLock nat | KmemLock | TicksLock
  | SyscallLock | BcacheLock | ItableLock | FtableLock | LogLock | PipeLock u64 | ConsLock
  | UartLock | PrLock | VdiskLock | SleepLk slock

datatype chan = ChanProc nat | ChanTicks | ChanLog | ChanSleeplock slock | ChanPipeRead u64
  | ChanPipeWrite u64 | ChanCons | ChanUart | ChanDisk | ChanBuf nat

text \<open>
  What stops a routine: \<^term>\<open>Panic\<close> is a call of \<open>panic\<close> with its message; \<^term>\<open>Block\<close> is a
  call of \<open>sleep\<close> that gives the processor away before the routine is done; \<^term>\<open>Fault\<close> is an
  access outside an object (undefined behaviour in C); \<^term>\<open>Diverge\<close> is a loop that does not
  end (a spin on a lock that stays taken, or fuel that ran out).
\<close>

datatype kerr = Panic string | Block chan | Fault | Diverge

fun bindr :: "'e + 'a \<Rightarrow> ('a \<Rightarrow> 'e + 'b) \<Rightarrow> 'e + 'b" where
  "bindr (Inl e) f = Inl e"
| "bindr (Inr x) f = f x"

lemma bindr_cong [fundef_cong]:
  "m = m' \<Longrightarrow> (\<And>x. m' = Inr x \<Longrightarrow> f x = g x) \<Longrightarrow> bindr m f = bindr m' g"
  by (cases m') auto

lemma bindr_eq_Inr [kres_simps]:
  "bindr m f = Inr y \<longleftrightarrow> (\<exists>x. m = Inr x \<and> f x = Inr y)"
  by (cases m) auto

lemma bindr_eq_Inl [kres_simps]:
  "bindr m f = Inl e \<longleftrightarrow> m = Inl e \<or> (\<exists>x. m = Inr x \<and> f x = Inl e)"
  by (cases m) auto

lemma bindr_assoc: "bindr (bindr m f) g = bindr m (\<lambda>x. bindr (f x) g)"
  by (cases m) auto

lemma bindr_Inr_right [simp]: "bindr m Inr = m"
  by (cases m) auto

text \<open>\<open>assertr c e\<close> goes on when \<open>c\<close> holds and stops with \<open>e\<close> otherwise.\<close>

definition assertr :: "bool \<Rightarrow> 'e \<Rightarrow> 'e + unit" where
  "assertr c e = (if c then Inr () else Inl e)"

lemma assertr_simps [simp]:
  "assertr True e = Inr ()" "assertr False e = Inl e"
  by (simp_all add: assertr_def)

lemma assertr_eq_Inr [kres_simps]: "assertr c e = Inr u \<longleftrightarrow> c"
  by (simp add: assertr_def)

section \<open>Scanning a table\<close>

text \<open>
  \<open>for(i = lo; i < hi; i++) if(P(i)) goto found;\<close>, the loop with which the kernel looks for a
  process slot, a file, a descriptor or an inode: the least index that satisfies \<open>P\<close>.
\<close>

function scan :: "(nat \<Rightarrow> bool) \<Rightarrow> nat \<Rightarrow> nat \<Rightarrow> nat option" where
  "scan P lo hi = (if lo < hi then (if P lo then Some lo else scan P (Suc lo) hi) else None)"
  by pat_completeness auto
termination
  by (relation "measure (\<lambda>(P, lo, hi). hi - lo)") auto

declare scan.simps [simp del]

lemma scan_step: "lo < hi \<Longrightarrow> \<not> P lo \<Longrightarrow> scan P lo hi = scan P (Suc lo) hi"
  by (simp add: scan.simps [of P lo hi])

lemma scan_None: "scan P lo hi = None \<longleftrightarrow> (\<forall>i \<in> {lo..<hi}. \<not> P i)"
proof (induction P lo hi rule: scan.induct)
  case (1 P lo hi)
  show ?case
  proof (cases "lo < hi \<and> \<not> P lo")
    case True
    then have "{lo..<hi} = insert lo {Suc lo..<hi}" by auto
    with 1 True show ?thesis by (simp add: scan_step)
  next
    case False
    then show ?thesis by (auto simp: scan.simps [of P lo hi])
  qed
qed

lemma scan_SomeD:
  "scan P lo hi = Some i \<Longrightarrow> lo \<le> i \<and> i < hi \<and> P i \<and> (\<forall>j \<in> {lo..<i}. \<not> P j)"
proof (induction P lo hi rule: scan.induct)
  case (1 P lo hi)
  show ?case
  proof (cases "lo < hi \<and> \<not> P lo")
    case True
    with 1 have ih: "Suc lo \<le> i \<and> i < hi \<and> P i \<and> (\<forall>j \<in> {Suc lo..<i}. \<not> P j)"
      by (simp add: scan_step)
    then have "{lo..<i} = insert lo {Suc lo..<i}" by auto
    with ih True show ?thesis by simp
  next
    case False
    with "1.prems" show ?thesis by (auto simp: scan.simps [of P lo hi] split: if_splits)
  qed
qed

lemma scan_SomeI:
  assumes "lo \<le> i" "i < hi" "P i" "\<forall>j \<in> {lo..<i}. \<not> P j"
  shows "scan P lo hi = Some i"
proof -
  have "scan P lo hi \<noteq> None" using assms by (auto simp: scan_None)
  then obtain k where k: "scan P lo hi = Some k" by auto
  note scan_SomeD [OF this]
  with assms have "k = i" by (metis atLeastLessThan_iff linorder_neqE_nat)
  with k show ?thesis by simp
qed

lemma scan_Some:
  "scan P lo hi = Some i \<longleftrightarrow> lo \<le> i \<and> i < hi \<and> P i \<and> (\<forall>j \<in> {lo..<i}. \<not> P j)"
  using scan_SomeD scan_SomeI by blast

lemma scan_cong [fundef_cong]:
  "lo = lo' \<Longrightarrow> hi = hi' \<Longrightarrow> (\<And>i. i < hi' \<Longrightarrow> P i = Q i) \<Longrightarrow> scan P lo hi = scan Q lo' hi'"
proof -
  assume eqs: "lo = lo'" "hi = hi'" and PQ: "\<And>i. i < hi' \<Longrightarrow> P i = Q i"
  have "scan P lo' hi' = scan Q lo' hi'"
  proof (cases "scan Q lo' hi'")
    case None
    with PQ have "scan P lo' hi' = None" by (simp add: scan_None)
    with None show ?thesis by simp
  next
    case (Some i)
    with PQ have "scan P lo' hi' = Some i" by (auto simp: scan_Some)
    with Some show ?thesis by simp
  qed
  with eqs show ?thesis by simp
qed

section \<open>Little-endian fields of a byte buffer\<close>

text \<open>
  A disk block or an on-disk structure is a list of bytes. RISC-V is little-endian, so a C
  field of 2, 4 or 8 bytes at offset \<open>o\<close> is read and written as follows.
\<close>

fun le_bytes :: "nat \<Rightarrow> nat \<Rightarrow> u8 list" where
  "le_bytes 0 v = []"
| "le_bytes (Suc k) v = of_nat (v mod 256) # le_bytes k (v div 256)"

fun le_nat :: "u8 list \<Rightarrow> nat" where
  "le_nat [] = 0"
| "le_nat (b # bs) = unat b + 256 * le_nat bs"

lemma length_le_bytes [simp]: "length (le_bytes k v) = k"
  by (induction k arbitrary: v) auto

lemma le_nat_le_bytes: "le_nat (le_bytes k v) = v mod 256 ^ k"
proof (induction k arbitrary: v)
  case 0
  then show ?case by simp
next
  case (Suc k)
  have "v mod 256 + 256 * (v div 256 mod 256 ^ k) = v mod (256 * 256 ^ k)"
    by (simp add: mod_mult2_eq)
  with Suc show ?case by (simp add: unat_of_nat take_bit_eq_mod)
qed

lemma le_nat_bound: "le_nat bs < 256 ^ length bs"
proof (induction bs)
  case Nil
  then show ?case by simp
next
  case (Cons b bs)
  have "unat b < 256" using unsigned_less [of b] by simp
  moreover have "256 * (le_nat bs + 1) \<le> 256 * 256 ^ length bs"
    using Cons by (intro mult_le_mono) auto
  ultimately show ?case by simp
qed

lemma le_bytes_le_nat: "le_bytes (length bs) (le_nat bs) = bs"
proof (induction bs)
  case Nil
  then show ?case by simp
next
  case (Cons b bs)
  have b: "unat b < 256" using unsigned_less [of b] by simp
  then have "(unat b + 256 * le_nat bs) mod 256 = unat b"
    and "(unat b + 256 * le_nat bs) div 256 = le_nat bs" by simp_all
  with Cons show ?case by simp
qed

text \<open>\<open>overlay d o bs\<close> overwrites the bytes of \<open>d\<close> from offset \<open>o\<close> with \<open>bs\<close>;
  \<open>segment d o k\<close> reads \<open>k\<close> bytes.\<close>

definition segment :: "'a list \<Rightarrow> nat \<Rightarrow> nat \<Rightarrow> 'a list" where
  "segment d p k = take k (drop p d)"

definition overlay :: "'a list \<Rightarrow> nat \<Rightarrow> 'a list \<Rightarrow> 'a list" where
  "overlay d p bs = take p d @ bs @ drop (p + length bs) d"

lemma length_segment [simp]: "p + k \<le> length d \<Longrightarrow> length (segment d p k) = k"
  by (simp add: segment_def)

lemma length_overlay [simp]: "p + length bs \<le> length d \<Longrightarrow> length (overlay d p bs) = length d"
  by (simp add: overlay_def)

lemma segment_overlay_same [simp]:
  "p + length bs \<le> length d \<Longrightarrow> k = length bs \<Longrightarrow> segment (overlay d p bs) p k = bs"
  by (simp add: segment_def overlay_def)

lemma nth_overlay:
  "p + length bs \<le> length d \<Longrightarrow> i < length d \<Longrightarrow>
   overlay d p bs ! i = (if p \<le> i \<and> i < p + length bs then bs ! (i - p) else d ! i)"
  by (auto simp: overlay_def nth_append min_def)

lemma nth_segment: "p + k \<le> length d \<Longrightarrow> i < k \<Longrightarrow> segment d p k ! i = d ! (p + i)"
  by (simp add: segment_def)

lemma segment_overlay_other:
  assumes "p + length bs \<le> length d" "q + k \<le> length d" "q + k \<le> p \<or> p + length bs \<le> q"
  shows "segment (overlay d p bs) q k = segment d q k"
proof (rule nth_equalityI)
  show "length (segment (overlay d p bs) q k) = length (segment d q k)" using assms by simp
next
  fix i
  assume "i < length (segment (overlay d p bs) q k)"
  with assms have "i < k" by simp
  with assms show "segment (overlay d p bs) q k ! i = segment d q k ! i"
    by (auto simp: nth_segment nth_overlay)
qed

definition get_le :: "nat \<Rightarrow> u8 list \<Rightarrow> nat \<Rightarrow> nat" where
  "get_le k d p = le_nat (segment d p k)"

definition put_le :: "nat \<Rightarrow> u8 list \<Rightarrow> nat \<Rightarrow> nat \<Rightarrow> u8 list" where
  "put_le k d p v = overlay d p (le_bytes k v)"

lemma length_put_le [simp]: "p + k \<le> length d \<Longrightarrow> length (put_le k d p v) = length d"
  by (simp add: put_le_def)

lemma get_put_le_same [simp]:
  "p + k \<le> length d \<Longrightarrow> v < 256 ^ k \<Longrightarrow> get_le k (put_le k d p v) p = v"
  by (simp add: get_le_def put_le_def le_nat_le_bytes)

lemma get_put_le_other [simp]:
  "p + k \<le> length d \<Longrightarrow> q + j \<le> length d \<Longrightarrow> q + j \<le> p \<or> p + k \<le> q \<Longrightarrow>
   get_le j (put_le k d p v) q = get_le j d q"
  by (simp add: get_le_def put_le_def segment_overlay_other)

end
