(* ===== verification/Spinlock.thy ===== *)
theory Spinlock
  imports Xv6_Prelude
begin

text \<open>
  Spin locks and interrupt nesting (\<open>kernel/spinlock.c\<close>, \<open>kernel/spinlock.h\<close>, the fields
  \<open>noff\<close> and \<open>intena\<close> of \<open>struct cpu\<close>).

  The first part models each routine for one hart on the state of all harts. The second
  part lets any number of harts take and release locks in any interleaving, at the grain of
  the atomic swap, and proves mutual exclusion and that a hart that holds a spin lock runs
  with interrupts off. The last part states the contract of a lock as a locale and
  interprets it on these routines.
\<close>

section \<open>State\<close>

record spinlock =
  locked :: u32
  lname :: string
  lcpu :: "nat option"

record cpu =
  noff :: int
  intena :: bool

text \<open>\<open>sie h\<close> is the interrupt-enable bit of hart \<open>h\<close>'s \<open>sstatus\<close>.\<close>

record mach =
  locks :: "lockid \<Rightarrow> spinlock"
  cpus :: "nat \<Rightarrow> cpu"
  sie :: "nat \<Rightarrow> bool"

section \<open>The routines\<close>

definition initlock :: "lockid \<Rightarrow> string \<Rightarrow> mach \<Rightarrow> mach" where
  "initlock l nm s = s\<lparr>locks := (locks s)(l := \<lparr>locked = 0, lname = nm, lcpu = None\<rparr>)\<rparr>"

definition intr_get :: "nat \<Rightarrow> mach \<Rightarrow> bool" where
  "intr_get h s = sie s h"

definition intr_off :: "nat \<Rightarrow> mach \<Rightarrow> mach" where
  "intr_off h s = s\<lparr>sie := (sie s)(h := False)\<rparr>"

definition intr_on :: "nat \<Rightarrow> mach \<Rightarrow> mach" where
  "intr_on h s = s\<lparr>sie := (sie s)(h := True)\<rparr>"

definition upd_cpu :: "nat \<Rightarrow> (cpu \<Rightarrow> cpu) \<Rightarrow> mach \<Rightarrow> mach" where
  "upd_cpu h f s = s\<lparr>cpus := (cpus s)(h := f (cpus s h))\<rparr>"

definition upd_lock :: "lockid \<Rightarrow> (spinlock \<Rightarrow> spinlock) \<Rightarrow> mach \<Rightarrow> mach" where
  "upd_lock l f s = s\<lparr>locks := (locks s)(l := f (locks s l))\<rparr>"

definition holding :: "lockid \<Rightarrow> nat \<Rightarrow> mach \<Rightarrow> bool" where
  "holding l h s \<longleftrightarrow> locked (locks s l) \<noteq> 0 \<and> lcpu (locks s l) = Some h"

definition push_off :: "nat \<Rightarrow> mach \<Rightarrow> mach" where
  "push_off h s =
     (let old = intr_get h s;
          s1 = intr_off h s;
          s2 = (if noff (cpus s1 h) = 0 then upd_cpu h (\<lambda>c. c\<lparr>intena := old\<rparr>) s1 else s1)
      in upd_cpu h (\<lambda>c. c\<lparr>noff := noff c + 1\<rparr>) s2)"

definition pop_off :: "nat \<Rightarrow> mach \<Rightarrow> kerr + mach" where
  "pop_off h s =
     (if intr_get h s then Inl (Panic ''pop_off - interruptible'')
      else if noff (cpus s h) < 1 then Inl (Panic ''pop_off'')
      else let s1 = upd_cpu h (\<lambda>c. c\<lparr>noff := noff c - 1\<rparr>) s
           in Inr (if noff (cpus s1 h) = 0 \<and> intena (cpus s1 h) then intr_on h s1 else s1))"

text \<open>\<open>acquire\<close> up to its loop, one atomic swap of the loop, and the store after it. On
  its own a hart that finds the lock taken spins for ever.\<close>

definition acquire_enter :: "lockid \<Rightarrow> nat \<Rightarrow> mach \<Rightarrow> kerr + mach" where
  "acquire_enter l h s =
     (let s1 = push_off h s in
      if holding l h s1 then Inl (Panic ''acquire'') else Inr s1)"

definition test_and_set :: "lockid \<Rightarrow> mach \<Rightarrow> u32 \<times> mach" where
  "test_and_set l s = (locked (locks s l), upd_lock l (\<lambda>k. k\<lparr>locked := 1\<rparr>) s)"

definition set_owner :: "lockid \<Rightarrow> nat \<Rightarrow> mach \<Rightarrow> mach" where
  "set_owner l h s = upd_lock l (\<lambda>k. k\<lparr>lcpu := Some h\<rparr>) s"

definition acquire :: "lockid \<Rightarrow> nat \<Rightarrow> mach \<Rightarrow> kerr + mach" where
  "acquire l h s =
     bindr (acquire_enter l h s) (\<lambda>s1.
     case test_and_set l s1 of (old, s2) \<Rightarrow>
       if old \<noteq> 0 then Inl Diverge else Inr (set_owner l h s2))"

text \<open>\<open>release\<close> clears \<open>lk->cpu\<close>, then \<open>lk->locked\<close>, then undoes \<open>push_off\<close>.\<close>

definition release_enter :: "lockid \<Rightarrow> nat \<Rightarrow> mach \<Rightarrow> kerr + mach" where
  "release_enter l h s =
     (if \<not> holding l h s then Inl (Panic ''release'')
      else Inr (upd_lock l (\<lambda>k. k\<lparr>lcpu := None\<rparr>) s))"

definition release_exit :: "lockid \<Rightarrow> nat \<Rightarrow> mach \<Rightarrow> kerr + mach" where
  "release_exit l h s = pop_off h (upd_lock l (\<lambda>k. k\<lparr>locked := 0\<rparr>) s)"

definition release :: "lockid \<Rightarrow> nat \<Rightarrow> mach \<Rightarrow> kerr + mach" where
  "release l h s = bindr (release_enter l h s) (release_exit l h)"

lemmas spin_defs = initlock_def intr_get_def intr_off_def intr_on_def upd_cpu_def upd_lock_def
  holding_def push_off_def pop_off_def acquire_enter_def test_and_set_def set_owner_def
  release_enter_def release_exit_def Let_def

section \<open>Harts interleaved\<close>

text \<open>
  Each hart is between lock operations, spinning for a lock, past the successful swap but
  not yet recorded as the owner, or past the clearing of \<open>lk->cpu\<close> but not yet past the
  store to \<open>lk->locked\<close>.
\<close>

datatype hpc = Running | Spinning lockid | Taken lockid | Releasing lockid

record sys =
  mch :: mach
  hpcs :: "nat \<Rightarrow> hpc"

definition set_pc :: "nat \<Rightarrow> hpc \<Rightarrow> mach \<Rightarrow> sys \<Rightarrow> sys" where
  "set_pc h c m \<sigma> = \<lparr>mch = m, hpcs = (hpcs \<sigma>)(h := c)\<rparr>"

inductive spin_step :: "sys \<Rightarrow> sys \<Rightarrow> bool" where
  enter: "hpcs \<sigma> h = Running \<Longrightarrow> acquire_enter l h (mch \<sigma>) = Inr m \<Longrightarrow>
    spin_step \<sigma> (set_pc h (Spinning l) m \<sigma>)"
| swap: "hpcs \<sigma> h = Spinning l \<Longrightarrow> test_and_set l (mch \<sigma>) = (old, m) \<Longrightarrow>
    spin_step \<sigma> (set_pc h (if old \<noteq> 0 then Spinning l else Taken l) m \<sigma>)"
| own: "hpcs \<sigma> h = Taken l \<Longrightarrow>
    spin_step \<sigma> (set_pc h Running (set_owner l h (mch \<sigma>)) \<sigma>)"
| leave: "hpcs \<sigma> h = Running \<Longrightarrow> release_enter l h (mch \<sigma>) = Inr m \<Longrightarrow>
    spin_step \<sigma> (set_pc h (Releasing l) m \<sigma>)"
| unlock: "hpcs \<sigma> h = Releasing l \<Longrightarrow> release_exit l h (mch \<sigma>) = Inr m \<Longrightarrow>
    spin_step \<sigma> (set_pc h Running m \<sigma>)"

text \<open>At boot every lock is free, no hart is nested and the interrupt bits are arbitrary.\<close>

definition boot :: "sys \<Rightarrow> bool" where
  "boot \<sigma> \<longleftrightarrow> (\<forall>h. hpcs \<sigma> h = Running \<and> noff (cpus (mch \<sigma>) h) = 0) \<and>
     (\<forall>l. locked (locks (mch \<sigma>) l) = 0 \<and> lcpu (locks (mch \<sigma>) l) = None)"

inductive spin_reachable :: "sys \<Rightarrow> bool" where
  start: "boot \<sigma> \<Longrightarrow> spin_reachable \<sigma>"
| more: "spin_reachable \<sigma> \<Longrightarrow> spin_step \<sigma> \<tau> \<Longrightarrow> spin_reachable \<tau>"

definition owns :: "sys \<Rightarrow> nat \<Rightarrow> lockid \<Rightarrow> bool" where
  "owns \<sigma> h l \<longleftrightarrow> hpcs \<sigma> h = Taken l \<or> hpcs \<sigma> h = Releasing l \<or> holding l h (mch \<sigma>)"

definition owned :: "sys \<Rightarrow> nat \<Rightarrow> lockid set" where
  "owned \<sigma> h = {l. owns \<sigma> h l}"

definition waiting :: "sys \<Rightarrow> nat \<Rightarrow> int" where
  "waiting \<sigma> h = (case hpcs \<sigma> h of Spinning l \<Rightarrow> 1 | _ \<Rightarrow> 0)"

text \<open>
  Between the swap and the store of the owner the lock belongs to nobody on paper, and the
  same holds between the two stores of \<open>release\<close>: the invariant therefore speaks of \<open>owns\<close>,
  which covers those two windows, and not of \<open>holding\<close>.
\<close>

definition spin_inv :: "sys \<Rightarrow> bool" where
  "spin_inv \<sigma> \<longleftrightarrow>
     (\<forall>h l. owns \<sigma> h l \<longrightarrow> locked (locks (mch \<sigma>) l) \<noteq> 0) \<and>
     (\<forall>h h' l. owns \<sigma> h l \<longrightarrow> owns \<sigma> h' l \<longrightarrow> h = h') \<and>
     (\<forall>l. locked (locks (mch \<sigma>) l) = 0 \<longrightarrow> lcpu (locks (mch \<sigma>) l) = None) \<and>
     (\<forall>h l. hpcs \<sigma> h = Taken l \<or> hpcs \<sigma> h = Releasing l \<longrightarrow> lcpu (locks (mch \<sigma>) l) = None)"

definition nest_inv :: "sys \<Rightarrow> bool" where
  "nest_inv \<sigma> \<longleftrightarrow> (\<forall>h. finite (owned \<sigma> h) \<and>
     noff (cpus (mch \<sigma>) h) = int (card (owned \<sigma> h)) + waiting \<sigma> h \<and>
     (noff (cpus (mch \<sigma>) h) > 0 \<longrightarrow> \<not> sie (mch \<sigma>) h))"

lemma mach_frames [simp]:
  "locks (upd_cpu h f s) = locks s" "sie (upd_cpu h f s) = sie s"
  "cpus (upd_lock l g s) = cpus s" "sie (upd_lock l g s) = sie s"
  "locks (push_off h s) = locks s"
  by (simp_all add: spin_defs)

lemma push_off_simps [simp]:
  "noff (cpus (push_off h s) h') = (if h' = h then noff (cpus s h) + 1 else noff (cpus s h'))"
  "sie (push_off h s) h' = (h' \<noteq> h \<and> sie s h')"
  by (simp_all add: spin_defs)

lemma pop_off_Inr:
  assumes "pop_off h s = Inr s'"
  shows "locks s' = locks s" "noff (cpus s h) \<ge> 1"
    "noff (cpus s' h') = (if h' = h then noff (cpus s h) - 1 else noff (cpus s h'))"
    "sie s' h' \<Longrightarrow> h' = h \<and> noff (cpus s h) = 1 \<or> sie s h'"
  using assms by (auto simp: spin_defs split: if_splits)

lemma spin_inv_boot: "boot \<sigma> \<Longrightarrow> spin_inv \<sigma>"
  by (simp add: boot_def spin_inv_def owns_def holding_def)

lemma nest_inv_boot: "boot \<sigma> \<Longrightarrow> nest_inv \<sigma>"
  by (simp add: boot_def nest_inv_def owned_def owns_def holding_def waiting_def)

text \<open>How each kind of step changes who owns what: only a successful swap and the final
  store of \<open>release\<close> change it.\<close>

lemmas owns_defs = owns_def set_pc_def acquire_enter_def test_and_set_def set_owner_def
  release_enter_def upd_lock_def holding_def Let_def

lemma owns_enter:
  "hpcs \<sigma> h = Running \<Longrightarrow> acquire_enter l h (mch \<sigma>) = Inr m \<Longrightarrow>
   owns (set_pc h (Spinning l) m \<sigma>) h' l' = owns \<sigma> h' l'"
  by (auto simp: owns_defs split: if_splits)

lemma owns_swap_busy:
  "hpcs \<sigma> h = Spinning l \<Longrightarrow> locked (locks (mch \<sigma>) l) \<noteq> 0 \<Longrightarrow>
   owns (set_pc h (Spinning l) (snd (test_and_set l (mch \<sigma>))) \<sigma>) h' l' = owns \<sigma> h' l'"
  by (auto simp: owns_defs)

lemma owns_swap_free:
  "spin_inv \<sigma> \<Longrightarrow> hpcs \<sigma> h = Spinning l \<Longrightarrow> locked (locks (mch \<sigma>) l) = 0 \<Longrightarrow>
   owns (set_pc h (Taken l) (snd (test_and_set l (mch \<sigma>))) \<sigma>) h' l' =
     (h' = h \<and> l' = l \<or> owns \<sigma> h' l')"
  by (auto simp: owns_defs spin_inv_def)

lemma owns_own:
  assumes "spin_inv \<sigma>" "hpcs \<sigma> h = Taken l"
  shows "owns (set_pc h Running (set_owner l h (mch \<sigma>)) \<sigma>) h' l' = owns \<sigma> h' l'"
proof -
  from assms have "owns \<sigma> h l" by (simp add: owns_def)
  with assms(1) have "locked (locks (mch \<sigma>) l) \<noteq> 0" "\<And>g. owns \<sigma> g l \<Longrightarrow> g = h"
    by (auto simp: spin_inv_def)
  with assms show ?thesis by (auto simp: owns_defs)
qed

lemma owns_leave:
  "hpcs \<sigma> h = Running \<Longrightarrow> release_enter l h (mch \<sigma>) = Inr m \<Longrightarrow>
   owns (set_pc h (Releasing l) m \<sigma>) h' l' = owns \<sigma> h' l'"
  by (auto simp: owns_defs split: if_splits)

lemma owns_unlock:
  assumes "spin_inv \<sigma>" "hpcs \<sigma> h = Releasing l" "release_exit l h (mch \<sigma>) = Inr m"
  shows "owns (set_pc h Running m \<sigma>) h' l' = (owns \<sigma> h' l' \<and> \<not> (h' = h \<and> l' = l))"
proof -
  have m: "locks m = (locks (mch \<sigma>))(l := (locks (mch \<sigma>) l)\<lparr>locked := 0\<rparr>)"
    using pop_off_Inr(1) [OF assms(3) [unfolded release_exit_def]] by (simp add: upd_lock_def)
  from assms have "owns \<sigma> h l" by (simp add: owns_def)
  with assms(1) have "\<And>g. owns \<sigma> g l \<Longrightarrow> g = h" by (auto simp: spin_inv_def)
  with assms m show ?thesis by (auto simp: owns_def set_pc_def holding_def)
qed

lemma spin_step_inv: "spin_step \<sigma> \<tau> \<Longrightarrow> spin_inv \<sigma> \<Longrightarrow> spin_inv \<tau>"
proof (induction rule: spin_step.induct)
  case (enter \<sigma> h l m)
  note o = owns_enter [OF enter.hyps]
  have "locks m = locks (mch \<sigma>)"
    using enter.hyps by (auto simp: acquire_enter_def Let_def split: if_splits)
  with enter show ?case unfolding spin_inv_def o by (auto simp: set_pc_def)
next
  case (swap \<sigma> h l old m)
  then have m: "m = snd (test_and_set l (mch \<sigma>))" and old: "old = locked (locks (mch \<sigma>) l)"
    by (auto simp: test_and_set_def)
  show ?case
  proof (cases "old = 0")
    case True
    note o = owns_swap_free [OF swap.prems swap.hyps(1), folded old, OF True, folded m]
    from swap.prems True old have "\<And>g. \<not> owns \<sigma> g l" by (auto simp: spin_inv_def)
    with swap True show ?thesis unfolding spin_inv_def
      by (auto simp: o) (auto simp: m set_pc_def test_and_set_def upd_lock_def split: if_splits)
  next
    case False
    note o = owns_swap_busy [OF swap.hyps(1), folded old, OF False, folded m]
    from swap False show ?thesis unfolding spin_inv_def
      by (auto simp: o) (auto simp: m set_pc_def test_and_set_def upd_lock_def split: if_splits)
  qed
next
  case (own \<sigma> h l)
  note o = owns_own [OF own.prems own.hyps]
  from own have "owns \<sigma> h l" by (simp add: owns_def)
  with own.prems have "locked (locks (mch \<sigma>) l) \<noteq> 0"
    "\<And>g. g \<noteq> h \<Longrightarrow> hpcs \<sigma> g \<noteq> Taken l \<and> hpcs \<sigma> g \<noteq> Releasing l"
    by (auto simp: spin_inv_def owns_def)
  with own show ?case unfolding spin_inv_def o
    by (auto simp: set_pc_def set_owner_def upd_lock_def split: if_splits)
next
  case (leave \<sigma> h l m)
  note o = owns_leave [OF leave.hyps]
  have "m = upd_lock l (\<lambda>k. k\<lparr>lcpu := None\<rparr>) (mch \<sigma>)"
    using leave.hyps by (auto simp: release_enter_def split: if_splits)
  with leave show ?case unfolding spin_inv_def o
    by (auto simp: set_pc_def upd_lock_def split: if_splits)
next
  case (unlock \<sigma> h l m)
  note o = owns_unlock [OF unlock.prems unlock.hyps]
  have "locks m = (locks (mch \<sigma>))(l := (locks (mch \<sigma>) l)\<lparr>locked := 0\<rparr>)"
    using pop_off_Inr(1) [OF unlock.hyps(2) [unfolded release_exit_def]]
    by (simp add: upd_lock_def)
  moreover from unlock have "owns \<sigma> h l" by (simp add: owns_def)
  moreover from this unlock have "\<And>g. owns \<sigma> g l \<Longrightarrow> g = h" by (auto simp: spin_inv_def)
  ultimately show ?case using unlock unfolding spin_inv_def
    by (auto simp: o) (auto simp: set_pc_def split: if_splits)
qed

lemma waiting_simps [simp]:
  "waiting (set_pc h c m \<sigma>) h' =
     (if h' = h then (case c of Spinning l \<Rightarrow> 1 | _ \<Rightarrow> 0) else waiting \<sigma> h')"
  by (simp add: waiting_def set_pc_def)

lemma mch_set_pc [simp]: "mch (set_pc h c m \<sigma>) = m"
  by (simp add: set_pc_def)

lemma spin_step_nest:
  "spin_step \<sigma> \<tau> \<Longrightarrow> spin_inv \<sigma> \<Longrightarrow> nest_inv \<sigma> \<Longrightarrow> nest_inv \<tau>"
proof (induction rule: spin_step.induct)
  case (enter \<sigma> h l m)
  have m: "m = push_off h (mch \<sigma>)"
    using enter.hyps by (auto simp: acquire_enter_def Let_def split: if_splits)
  have fr: "noff (cpus m h') = (if h' = h then noff (cpus (mch \<sigma>) h) + 1 else noff (cpus (mch \<sigma>) h'))"
    "sie m h' = (h' \<noteq> h \<and> sie (mch \<sigma>) h')" for h' by (simp_all add: m)
  have "waiting \<sigma> h = 0" using enter.hyps by (simp add: waiting_def)
  with enter.prems show ?case
    by (auto simp: nest_inv_def owned_def owns_enter [OF enter.hyps] fr)
next
  case (swap \<sigma> h l old m)
  then have m: "m = snd (test_and_set l (mch \<sigma>))" and old: "old = locked (locks (mch \<sigma>) l)"
    by (auto simp: test_and_set_def)
  have w: "waiting \<sigma> h = 1" using swap.hyps by (simp add: waiting_def)
  have fr: "cpus m = cpus (mch \<sigma>)" "sie m = sie (mch \<sigma>)" by (simp_all add: m test_and_set_def)
  show ?case
  proof (cases "old = 0")
    case True
    note o = owns_swap_free [OF swap.prems(1) swap.hyps(1), folded old, OF True, folded m]
    have new: "owned (set_pc h (Taken l) m \<sigma>) h' = (if h' = h then insert l (owned \<sigma> h) else owned \<sigma> h')"
      for h' by (auto simp: owned_def o)
    have "l \<notin> owned \<sigma> h" using swap.prems(1) True old by (auto simp: spin_inv_def owned_def)
    with swap.prems True w show ?thesis by (auto simp: nest_inv_def new fr)
  next
    case False
    note o = owns_swap_busy [OF swap.hyps(1), folded old, OF False, folded m]
    from swap.prems False w show ?thesis by (auto simp: nest_inv_def owned_def o fr)
  qed
next
  case (own \<sigma> h l)
  have fr: "cpus (set_owner l h (mch \<sigma>)) = cpus (mch \<sigma>)"
    "sie (set_owner l h (mch \<sigma>)) = sie (mch \<sigma>)" by (simp_all add: set_owner_def)
  have "waiting \<sigma> h = 0" using own.hyps by (simp add: waiting_def)
  with own.prems show ?case
    by (auto simp: nest_inv_def owned_def owns_own [OF own.prems(1) own.hyps] fr)
next
  case (leave \<sigma> h l m)
  have m: "m = upd_lock l (\<lambda>k. k\<lparr>lcpu := None\<rparr>) (mch \<sigma>)"
    using leave.hyps by (auto simp: release_enter_def split: if_splits)
  have fr: "cpus m = cpus (mch \<sigma>)" "sie m = sie (mch \<sigma>)" by (simp_all add: m)
  have "waiting \<sigma> h = 0" using leave.hyps by (simp add: waiting_def)
  with leave.prems show ?case
    by (auto simp: nest_inv_def owned_def owns_leave [OF leave.hyps] fr)
next
  case (unlock \<sigma> h l m)
  note p = pop_off_Inr [OF unlock.hyps(2) [unfolded release_exit_def], simplified]
  have new: "owned (set_pc h Running m \<sigma>) h' = (if h' = h then owned \<sigma> h - {l} else owned \<sigma> h')"
    for h' by (auto simp: owned_def owns_unlock [OF unlock.prems(1) unlock.hyps])
  have w: "waiting \<sigma> h = 0" and in_o: "l \<in> owned \<sigma> h"
    using unlock.hyps by (simp_all add: waiting_def owned_def owns_def)
  with unlock.prems(2) have "card (owned \<sigma> h) \<ge> 1"
    by (auto simp: nest_inv_def card_gt_0_iff Suc_le_eq)
  with unlock.prems(2) w in_o p(2) show ?case
    by (auto simp: nest_inv_def new p(3) of_nat_diff dest: p(4))
qed

lemma spin_reachable_inv: "spin_reachable \<sigma> \<Longrightarrow> spin_inv \<sigma> \<and> nest_inv \<sigma>"
  by (induction rule: spin_reachable.induct)
    (auto intro: spin_inv_boot nest_inv_boot spin_step_inv spin_step_nest)

section \<open>The contract of a lock\<close>

text \<open>
  What a client of a lock relies on: \<open>holds s\<close> is the set of locks the running thread has,
  \<open>free l s\<close> says that nobody has \<open>l\<close>. Taking a lock twice and releasing a lock that is not
  held panic; every other use succeeds and changes \<open>holds\<close> as expected. From it follows that
  a critical section whose body keeps the set of held locks keeps it as a whole.
\<close>

locale mutex =
  fixes acq :: "'l \<Rightarrow> 's \<Rightarrow> kerr + 's"
    and rel :: "'l \<Rightarrow> 's \<Rightarrow> kerr + 's"
    and holds :: "'s \<Rightarrow> 'l set"
    and free :: "'l \<Rightarrow> 's \<Rightarrow> bool"
    and ok :: "'s \<Rightarrow> bool"
  assumes acq_free: "ok s \<Longrightarrow> l \<notin> holds s \<Longrightarrow> free l s \<Longrightarrow>
      \<exists>s'. acq l s = Inr s' \<and> ok s' \<and> holds s' = insert l (holds s)"
    and acq_held: "ok s \<Longrightarrow> l \<in> holds s \<Longrightarrow> acq l s = Inl (Panic ''acquire'')"
    and rel_held: "ok s \<Longrightarrow> l \<in> holds s \<Longrightarrow>
      \<exists>s'. rel l s = Inr s' \<and> ok s' \<and> holds s' = holds s - {l}"
    and rel_free: "ok s \<Longrightarrow> l \<notin> holds s \<Longrightarrow> rel l s = Inl (Panic ''release'')"
begin

lemma critical_section:
  assumes "ok s" "l \<notin> holds s" "free l s"
    and body: "\<And>t. ok t \<Longrightarrow> holds t = insert l (holds s) \<Longrightarrow>
      \<exists>t'. body t = Inr t' \<and> ok t' \<and> holds t' = insert l (holds s)"
  shows "\<exists>s'. bindr (acq l s) (\<lambda>t. bindr (body t) (rel l)) = Inr s' \<and> ok s' \<and> holds s' = holds s"
proof -
  obtain t where t: "acq l s = Inr t" "ok t" "holds t = insert l (holds s)"
    using acq_free assms(1-3) by blast
  obtain t' where t': "body t = Inr t'" "ok t'" "holds t' = insert l (holds s)"
    using body t(2,3) by blast
  obtain u where "rel l t' = Inr u" "ok u" "holds u = insert l (holds s) - {l}"
    using rel_held [of t' l] t' by auto
  with t t' assms(2) show ?thesis by auto
qed

end

definition hart_holds :: "nat \<Rightarrow> mach \<Rightarrow> lockid set" where
  "hart_holds h s = {l. holding l h s}"

definition hart_ok :: "nat \<Rightarrow> mach \<Rightarrow> bool" where
  "hart_ok h s \<longleftrightarrow> finite (hart_holds h s) \<and> noff (cpus s h) = int (card (hart_holds h s)) \<and>
     (noff (cpus s h) > 0 \<longrightarrow> \<not> sie s h)"

lemma hart_holds_push_off [simp]: "hart_holds h (push_off h s) = hart_holds h s"
  by (simp add: hart_holds_def holding_def)

lemma acquire_hart:
  assumes "hart_ok h s" "l \<notin> hart_holds h s" "locked (locks s l) = 0"
  shows "\<exists>s'. acquire l h s = Inr s' \<and> hart_ok h s' \<and> hart_holds h s' = insert l (hart_holds h s)"
proof -
  let ?s' = "set_owner l h (upd_lock l (\<lambda>k. k\<lparr>locked := 1\<rparr>) (push_off h s))"
  have "acquire l h s = Inr ?s'"
    using assms by (simp add: acquire_def acquire_enter_def test_and_set_def hart_holds_def
        holding_def Let_def)
  moreover have hh: "hart_holds h ?s' = insert l (hart_holds h s)"
    by (auto simp: hart_holds_def holding_def set_owner_def upd_lock_def split: if_splits)
  moreover have "hart_ok h ?s'"
    using assms unfolding hart_ok_def hh by (simp add: set_owner_def)
  ultimately show ?thesis by blast
qed

lemma release_hart:
  assumes "hart_ok h s" "l \<in> hart_holds h s"
  shows "\<exists>s'. release l h s = Inr s' \<and> hart_ok h s' \<and> hart_holds h s' = hart_holds h s - {l}"
proof -
  let ?t = "upd_lock l (\<lambda>k. k\<lparr>locked := 0\<rparr>) (upd_lock l (\<lambda>k. k\<lparr>lcpu := None\<rparr>) s)"
  have pos: "card (hart_holds h s) \<ge> 1"
    using assms by (auto simp: hart_ok_def card_gt_0_iff Suc_le_eq)
  have "release l h s = pop_off h ?t"
    using assms by (simp add: release_def release_enter_def release_exit_def hart_holds_def)
  moreover have "\<exists>s'. pop_off h ?t = Inr s'"
    using assms pos by (auto simp: pop_off_def hart_ok_def intr_get_def Let_def)
  ultimately obtain s' where s': "release l h s = Inr s'" "pop_off h ?t = Inr s'" by auto
  note p = pop_off_Inr [OF s'(2), simplified]
  have hh: "hart_holds h s' = hart_holds h s - {l}"
    by (auto simp: hart_holds_def holding_def p(1) upd_lock_def split: if_splits)
  have "hart_ok h s'"
    using assms pos p(2) unfolding hart_ok_def hh by (auto simp: p(3) of_nat_diff dest: p(4))
  with s'(1) hh show ?thesis by blast
qed

interpretation hart_lock: mutex "\<lambda>l. acquire l h" "\<lambda>l. release l h" "hart_holds h"
  "\<lambda>l s. locked (locks s l) = 0" "hart_ok h" for h :: nat
proof
  show "hart_ok h s \<Longrightarrow> l \<notin> hart_holds h s \<Longrightarrow> locked (locks s l) = 0 \<Longrightarrow>
      \<exists>s'. acquire l h s = Inr s' \<and> hart_ok h s' \<and> hart_holds h s' = insert l (hart_holds h s)" for s l
    by (rule acquire_hart)
  show "hart_ok h s \<Longrightarrow> l \<in> hart_holds h s \<Longrightarrow> acquire l h s = Inl (Panic ''acquire'')" for s l
    by (simp add: acquire_def acquire_enter_def hart_holds_def holding_def Let_def)
  show "hart_ok h s \<Longrightarrow> l \<in> hart_holds h s \<Longrightarrow>
      \<exists>s'. release l h s = Inr s' \<and> hart_ok h s' \<and> hart_holds h s' = hart_holds h s - {l}" for s l
    by (rule release_hart)
  show "hart_ok h s \<Longrightarrow> l \<notin> hart_holds h s \<Longrightarrow> release l h s = Inl (Panic ''release'')" for s l
    by (simp add: release_def release_enter_def hart_holds_def)
qed

text \<open>A concrete run of two harts: hart 0 takes \<open>kmem.lock\<close>, and hart 1 spins for it.\<close>

definition boot_sys :: sys where
  "boot_sys = \<lparr>mch = \<lparr>locks = \<lambda>_. \<lparr>locked = 0, lname = ''kmem'', lcpu = None\<rparr>,
      cpus = \<lambda>_. \<lparr>noff = 0, intena = False\<rparr>, sie = \<lambda>_. True\<rparr>, hpcs = \<lambda>_. Running\<rparr>"

definition held_sys :: sys where
  "held_sys =
     (let s1 = set_pc 0 (Spinning KmemLock) (push_off 0 (mch boot_sys)) boot_sys;
          s2 = set_pc 0 (Taken KmemLock) (snd (test_and_set KmemLock (mch s1))) s1;
          s3 = set_pc 0 Running (set_owner KmemLock 0 (mch s2)) s2
      in set_pc 1 (Spinning KmemLock) (push_off 1 (mch s3)) s3)"

lemmas held_sys_defs = held_sys_def boot_sys_def set_pc_def spin_defs

lemma spin_reachable_held: "spin_reachable held_sys"
proof -
  let ?s1 = "set_pc 0 (Spinning KmemLock) (push_off 0 (mch boot_sys)) boot_sys"
  let ?s2 = "set_pc 0 (Taken KmemLock) (snd (test_and_set KmemLock (mch ?s1))) ?s1"
  let ?s3 = "set_pc 0 Running (set_owner KmemLock 0 (mch ?s2)) ?s2"
  have "spin_reachable boot_sys" by (rule start) (simp add: boot_def boot_sys_def)
  moreover have "spin_step boot_sys ?s1"
    by (rule spin_step.enter) (simp_all add: boot_sys_def spin_defs)
  moreover have "spin_step ?s1 ?s2"
    using spin_step.swap [of ?s1 0 KmemLock 0 "snd (test_and_set KmemLock (mch ?s1))"]
    by (simp add: set_pc_def boot_sys_def test_and_set_def)
  moreover have "spin_step ?s2 ?s3"
    by (rule spin_step.own) (simp add: set_pc_def)
  moreover have "spin_step ?s3 held_sys"
    unfolding held_sys_def Let_def
    by (rule spin_step.enter) (simp_all add: boot_sys_def set_pc_def spin_defs)
  ultimately show ?thesis by (blast intro: spin_reachable.more)
qed

section \<open>Properties\<close>

text \<open>
  C37. In every state that any number of harts can reach by taking and releasing spin locks
  in any interleaving, two harts never own the same lock, where a hart owns a lock from its
  successful atomic swap to its final store to \<open>lk->locked\<close>.
\<close>

theorem spin_mutual_exclusion:
  assumes "spin_reachable \<sigma>" "owns \<sigma> h l" "owns \<sigma> h' l"
  shows "h = h'"
  using spin_reachable_inv [OF assms(1)] assms(2,3) by (auto simp: spin_inv_def)

theorem spin_mutual_exclusion_witness:
  "owns held_sys 0 KmemLock \<and> \<not> owns held_sys 1 KmemLock"
proof -
  have "owns held_sys 0 KmemLock" by (simp add: owns_def held_sys_defs)
  with spin_mutual_exclusion [OF spin_reachable_held, of 0 KmemLock 1] show ?thesis by auto
qed

text \<open>
  C38. In every such state a hart that owns a spin lock runs with interrupts disabled, its
  nesting depth counts the locks it owns plus the one it spins for, and \<open>release\<close> of a
  lock that it holds returns without a panic.
\<close>

theorem spin_interrupts_off:
  assumes "spin_reachable \<sigma>" "owns \<sigma> h l"
  shows "\<not> sie (mch \<sigma>) h \<and> noff (cpus (mch \<sigma>) h) = int (card (owned \<sigma> h)) + waiting \<sigma> h \<and>
    (holding l h (mch \<sigma>) \<longrightarrow> (\<exists>m. release l h (mch \<sigma>) = Inr m))"
proof -
  from spin_reachable_inv [OF assms(1)] have n: "nest_inv \<sigma>" ..
  from assms(2) have "l \<in> owned \<sigma> h" by (simp add: owned_def)
  with n have "card (owned \<sigma> h) \<ge> 1" by (auto simp: nest_inv_def card_gt_0_iff Suc_le_eq)
  moreover have "waiting \<sigma> h \<ge> 0" by (simp add: waiting_def split: hpc.split)
  moreover have "noff (cpus (mch \<sigma>) h) = int (card (owned \<sigma> h)) + waiting \<sigma> h"
    using n by (simp add: nest_inv_def)
  ultimately have pos: "noff (cpus (mch \<sigma>) h) \<ge> 1" by linarith
  with n show ?thesis
    by (auto simp: nest_inv_def release_def release_enter_def release_exit_def pop_off_def
        intr_get_def Let_def)
qed

theorem spin_interrupts_off_witness:
  "\<not> sie (mch held_sys) 0 \<and> holding KmemLock 0 (mch held_sys) \<and>
   (\<exists>m. release KmemLock 0 (mch held_sys) = Inr m)"
proof -
  have h: "holding KmemLock 0 (mch held_sys)" by (simp add: held_sys_defs)
  then have "owns held_sys 0 KmemLock" by (simp add: owns_def)
  from spin_interrupts_off [OF spin_reachable_held this] h show ?thesis by simp
qed

end
