(* ===== verification/Klock.thy ===== *)
theory Klock
  imports Spinlock
begin

text \<open>
  The view a kernel thread has of its locks. The state of every other component extends the
  record \<open>kst\<close>, whose only field is the set of spin locks that the running thread holds: a
  routine that takes a lock it already has, or releases one it does not have, panics as
  \<open>acquire\<close> and \<open>release\<close> do. The simulation lemmas relate this view to the lock words and
  nesting counters of theory \<open>Spinlock\<close>.
\<close>

record kst =
  held :: "lockid set"

definition acquire_lk :: "lockid \<Rightarrow> 'a kst_scheme \<Rightarrow> kerr + 'a kst_scheme" where
  "acquire_lk l s = (if l \<in> held s then Inl (Panic ''acquire'') else Inr (s\<lparr>held := insert l (held s)\<rparr>))"

definition release_lk :: "lockid \<Rightarrow> 'a kst_scheme \<Rightarrow> kerr + 'a kst_scheme" where
  "release_lk l s = (if l \<notin> held s then Inl (Panic ''release'') else Inr (s\<lparr>held := held s - {l}\<rparr>))"

interpretation thread_lock: mutex acquire_lk release_lk held "\<lambda>l s. l \<notin> held s" "\<lambda>s. True"
  by unfold_locales (auto simp: acquire_lk_def release_lk_def)

lemma acquire_lk_eq [kres_simps]: "l \<notin> held s \<Longrightarrow> acquire_lk l s = Inr (s\<lparr>held := insert l (held s)\<rparr>)"
  by (simp add: acquire_lk_def)

lemma release_lk_eq [kres_simps]: "l \<in> held s \<Longrightarrow> release_lk l s = Inr (s\<lparr>held := held s - {l}\<rparr>)"
  by (simp add: release_lk_def)

section \<open>Simulation by the spin locks\<close>

definition lock_sim :: "nat \<Rightarrow> 'a kst_scheme \<Rightarrow> mach \<Rightarrow> bool" where
  "lock_sim h s m \<longleftrightarrow> hart_ok h m \<and> held s = hart_holds h m"

lemma acquire_sim:
  assumes "lock_sim h s m" "acquire l h m = Inr m'"
  shows "\<exists>s'. acquire_lk l s = Inr s' \<and> lock_sim h s' m'"
proof -
  from assms have ok: "hart_ok h m" and eq: "held s = hart_holds h m" by (simp_all add: lock_sim_def)
  have nh: "l \<notin> held s" using hart_lock.acq_held [OF ok, of l] assms(2) eq by auto
  have "locked (locks m l) = 0"
    using assms(2) by (auto simp: acquire_def acquire_enter_def test_and_set_def Let_def
        bindr_eq_Inr split: if_splits)
  then obtain m2 where "acquire l h m = Inr m2" "hart_ok h m2" "hart_holds h m2 = insert l (hart_holds h m)"
    using hart_lock.acq_free [OF ok, of l] nh eq by blast
  with nh eq assms(2) show ?thesis by (simp add: acquire_lk_def lock_sim_def)
qed

lemma release_sim:
  assumes "lock_sim h s m" "release l h m = Inr m'"
  shows "\<exists>s'. release_lk l s = Inr s' \<and> lock_sim h s' m'"
proof -
  from assms have ok: "hart_ok h m" and eq: "held s = hart_holds h m" by (simp_all add: lock_sim_def)
  have "l \<in> held s" using hart_lock.rel_free [OF ok, of l] assms(2) eq by auto
  moreover from this obtain m2 where "release l h m = Inr m2" "hart_ok h m2" "hart_holds h m2 = hart_holds h m - {l}"
    using hart_lock.rel_held [OF ok, of l] eq by blast
  ultimately show ?thesis using eq assms(2) by (simp add: release_lk_def lock_sim_def)
qed

end
