(* ===== verification/Kstring.thy ===== *)
theory Kstring
  imports Xv6_Prelude
begin

text \<open>
  The byte routines of \<open>kernel/string.c\<close> on a byte-addressed memory. Each loop is a
  recursion over the number of bytes left, in the order in which the code touches them; the
  lemmas give the closed form of the memory it leaves behind. \<open>strlen\<close> has no bound of its
  own and is a partial function.
\<close>

type_synonym mem = "u64 \<Rightarrow> u8"

section \<open>The routines\<close>

primrec memset_loop :: "nat \<Rightarrow> u64 \<Rightarrow> u8 \<Rightarrow> mem \<Rightarrow> mem" where
  "memset_loop 0 d c m = m"
| "memset_loop (Suc n) d c m = memset_loop n (d + 1) c (m(d := c))"

definition memset :: "u64 \<Rightarrow> u32 \<Rightarrow> u32 \<Rightarrow> mem \<Rightarrow> mem" where
  "memset d c n m = memset_loop (unat n) d (ucast c) m"

primrec memcmp_loop :: "nat \<Rightarrow> u64 \<Rightarrow> u64 \<Rightarrow> mem \<Rightarrow> int" where
  "memcmp_loop 0 p q m = 0"
| "memcmp_loop (Suc n) p q m =
     (if m p \<noteq> m q then uint (m p) - uint (m q) else memcmp_loop n (p + 1) (q + 1) m)"

definition memcmp :: "u64 \<Rightarrow> u64 \<Rightarrow> u32 \<Rightarrow> mem \<Rightarrow> int" where
  "memcmp p q n m = memcmp_loop (unat n) p q m"

primrec copy_forw :: "nat \<Rightarrow> u64 \<Rightarrow> u64 \<Rightarrow> mem \<Rightarrow> mem" where
  "copy_forw 0 d s m = m"
| "copy_forw (Suc n) d s m = copy_forw n (d + 1) (s + 1) (m(d := m s))"

primrec copy_back :: "nat \<Rightarrow> u64 \<Rightarrow> u64 \<Rightarrow> mem \<Rightarrow> mem" where
  "copy_back 0 d s m = m"
| "copy_back (Suc n) d s m = copy_back n (d - 1) (s - 1) (m(d - 1 := m (s - 1)))"

definition memmove :: "u64 \<Rightarrow> u64 \<Rightarrow> u32 \<Rightarrow> mem \<Rightarrow> mem" where
  "memmove d s n m =
     (if n = 0 then m
      else if s < d \<and> s + ucast n > d
      then copy_back (unat n) (d + ucast n) (s + ucast n) m
      else copy_forw (unat n) d s m)"

definition memcpy :: "u64 \<Rightarrow> u64 \<Rightarrow> u32 \<Rightarrow> mem \<Rightarrow> mem" where
  "memcpy d s n m = memmove d s n m"

primrec strncmp_loop :: "nat \<Rightarrow> u64 \<Rightarrow> u64 \<Rightarrow> mem \<Rightarrow> int" where
  "strncmp_loop 0 p q m = 0"
| "strncmp_loop (Suc n) p q m =
     (if m p \<noteq> 0 \<and> m p = m q then strncmp_loop n (p + 1) (q + 1) m
      else uint (m p) - uint (m q))"

definition strncmp :: "u64 \<Rightarrow> u64 \<Rightarrow> u32 \<Rightarrow> mem \<Rightarrow> int" where
  "strncmp p q n m = strncmp_loop (unat n) p q m"

text \<open>A signed count that is not positive copies nothing, as \<open>nat n = 0\<close>.\<close>

primrec strncpy_loop :: "nat \<Rightarrow> u64 \<Rightarrow> u64 \<Rightarrow> mem \<Rightarrow> mem" where
  "strncpy_loop 0 s t m = m"
| "strncpy_loop (Suc n) s t m =
     (let m1 = m(s := m t) in
      if m t \<noteq> 0 then strncpy_loop n (s + 1) (t + 1) m1 else memset_loop n (s + 1) 0 m1)"

definition strncpy :: "u64 \<Rightarrow> u64 \<Rightarrow> int \<Rightarrow> mem \<Rightarrow> mem" where
  "strncpy s t n m = strncpy_loop (nat n) s t m"

primrec safestrcpy_loop :: "nat \<Rightarrow> u64 \<Rightarrow> u64 \<Rightarrow> mem \<Rightarrow> mem" where
  "safestrcpy_loop 0 s t m = m(s := 0)"
| "safestrcpy_loop (Suc n) s t m =
     (let m1 = m(s := m t) in
      if m t \<noteq> 0 then safestrcpy_loop n (s + 1) (t + 1) m1 else m1(s + 1 := 0))"

definition safestrcpy :: "u64 \<Rightarrow> u64 \<Rightarrow> int \<Rightarrow> mem \<Rightarrow> mem" where
  "safestrcpy s t n m = (if n \<le> 0 then m else safestrcpy_loop (nat n - 1) s t m)"

partial_function (option) strlen_loop :: "u64 \<Rightarrow> nat \<Rightarrow> mem \<Rightarrow> nat option" where
  "strlen_loop s n m = (if m (s + of_nat n) = 0 then Some n else strlen_loop s (n + 1) m)"

definition strlen :: "u64 \<Rightarrow> mem \<Rightarrow> nat option" where
  "strlen s m = strlen_loop s 0 m"

section \<open>Closed forms\<close>

text \<open>\<open>within a n x\<close>: the address \<open>x\<close> is one of the \<open>n\<close> bytes from \<open>a\<close> on.\<close>

definition within :: "u64 \<Rightarrow> nat \<Rightarrow> u64 \<Rightarrow> bool" where
  "within a n x \<longleftrightarrow> unat (x - a) < n"

lemma unat_minus_one_pos: "x \<noteq> 0 \<Longrightarrow> unat (x - 1 :: u64) = unat x - 1"
  by (simp add: unat_sub_if' unat_1 ) (metis One_nat_def Suc_leI unat_gt_0)

lemma unat_of_nat_u64: "n < 2 ^ 64 \<Longrightarrow> unat (of_nat n :: u64) = n"
  by (simp add: unat_of_nat take_bit_nat_eq_self)

lemma eq_of_nat_u64: "n < 2 ^ 64 \<Longrightarrow> y = (of_nat n :: u64) \<longleftrightarrow> unat y = n"
  using unat_of_nat_u64 [of n] by (auto intro: word_unat_eq_iff [THEN iffD2])

lemma unat_of_nat_minus_le:
  fixes y :: u64
  assumes "n < 2 ^ 64" "unat y < n"
  shows "unat (of_nat n - y) \<le> n"
  using assms by (simp add: unat_sub_if' unat_of_nat_u64)

lemma within_0 [simp]: "\<not> within a 0 x"
  by (simp add: within_def)

lemma within_Suc:
  assumes "n < 2 ^ 64"
  shows "within a (Suc n) x \<longleftrightarrow> x = a \<or> within (a + 1) n x"
proof (cases "x = a")
  case False
  then have "unat (x - (a + 1)) = unat (x - a) - 1"
    using unat_minus_one_pos [of "x - a"] by (simp add: algebra_simps)
  moreover have "unat (x - a) > 0" using False by (simp add: unat_gt_0)
  ultimately show ?thesis using False by (auto simp: within_def)
qed (simp add: within_def)

lemma within_Suc_last:
  assumes "n < 2 ^ 64"
  shows "within (d - of_nat (Suc n)) (Suc n) x \<longleftrightarrow> x = d - 1 \<or> within (d - 1 - of_nat n) n x"
proof -
  let ?y = "x - (d - of_nat (Suc n))"
  have "x = d - 1 \<longleftrightarrow> ?y = of_nat n" by (auto simp: algebra_simps)
  moreover have "?y = of_nat n \<longleftrightarrow> unat ?y = n"
    using assms by (rule eq_of_nat_u64)
  ultimately show ?thesis by (auto simp: within_def algebra_simps less_Suc_eq)
qed

lemma memset_loop_closed:
  assumes "n < 2 ^ 64"
  shows "memset_loop n d c m = (\<lambda>x. if within d n x then c else m x)"
  using assms
proof (induction n arbitrary: d m)
  case (Suc n)
  then show ?case using within_Suc [of n d] by (auto simp: fun_eq_iff)
qed simp

lemma copy_forw_closed:
  assumes "n < 2 ^ 64" "d = s \<or> \<not> within s n d"
  shows "copy_forw n d s m = (\<lambda>x. if within d n x then m (s + (x - d)) else m x)"
  using assms
proof (induction n arbitrary: d s m)
  case (Suc n)
  have n: "n < 2 ^ 64" using Suc.prems by simp
  have "d + 1 = s + 1 \<or> \<not> within (s + 1) n (d + 1)"
    using Suc.prems by (auto simp: within_def)
  note IH = Suc.IH [OF n this, of "m(d := m s)"]
  show ?case
  proof (cases "d = s")
    case False
    have "s + (x - d) \<noteq> d" if "within (d + 1) n x" for x
    proof
      assume "s + (x - d) = d"
      then have eq: "d - s = x - d" by (simp add: algebra_simps)
      have "within d (Suc n) x" using that within_Suc [OF n] by simp
      then have "within s (Suc n) d" unfolding within_def eq .
      with Suc.prems False show False by simp
    qed
    then show ?thesis unfolding copy_forw.simps IH
      using within_Suc [OF n, of d] False by (auto simp: fun_eq_iff within_def)
  qed (use IH in \<open>auto simp: fun_eq_iff\<close>)
qed simp

lemma copy_back_closed:
  assumes "n < 2 ^ 63" "d = s \<or> \<not> within (d - of_nat n) n (s - of_nat n)"
  shows "copy_back n d s m = (\<lambda>x. if within (d - of_nat n) n x then m (s + (x - d)) else m x)"
  using assms
proof (induction n arbitrary: d s m)
  case (Suc n)
  have n: "n < 2 ^ 63" "n < 2 ^ 64" using Suc.prems by simp_all
  have ns: "d = s \<or> \<not> unat (s - d) < Suc n" using Suc.prems by (simp add: within_def)
  then have "d - 1 = s - 1 \<or> \<not> within (d - 1 - of_nat n) n (s - 1 - of_nat n)"
    by (auto simp: within_def)
  note IH = Suc.IH [OF n(1) this, of "m(d - 1 := m (s - 1))"]
  show ?case
  proof (cases "d = s")
    case False
    have "s + (x - d) \<noteq> d - 1" if "within (d - 1 - of_nat n) n x" for x
    proof
      assume "s + (x - d) = d - 1"
      then have eq: "s - d = of_nat n - (x - (d - 1 - of_nat n))" by (simp add: algebra_simps)
      have "unat (of_nat n - (x - (d - 1 - of_nat n))) \<le> n"
        using that n by (intro unat_of_nat_minus_le) (simp_all only: within_def)
      then have "unat (s - d) \<le> n" unfolding eq .
      then show False using ns False by simp
    qed
    then show ?thesis unfolding copy_back.simps IH
      using within_Suc_last [OF n(2), of d] by (auto simp: fun_eq_iff algebra_simps)
  qed (use IH in \<open>auto simp: fun_eq_iff\<close>)
qed simp

lemma unat_ucast_u32 [simp]: "unat (ucast (n :: u32) :: u64) = unat n"
  by (simp add: unsigned_ucast_eq take_bit_nat_eq_self unsigned_less [THEN less_trans])

lemma memset_closed:
  "memset d c n m = (\<lambda>x. if within d (unat n) x then ucast c else m x)"
  unfolding memset_def using unsigned_less [of n, where ?'a = nat]
  by (intro memset_loop_closed) simp

lemma memmove_closed:
  assumes "unat s + unat n < 2 ^ 64"
  shows "memmove d s n m = (\<lambda>x. if within d (unat n) x then m (s + (x - d)) else m x)"
proof -
  have n32: "unat n < 2 ^ 32" using unsigned_less [of n, where ?'a = nat] by simp
  have n_of: "ucast n = (of_nat (unat n) :: u64)" by simp
  have sn: "unat (s + ucast n) = unat s + unat n"
    using assms by (simp add: unat_add_lem [THEN iffD1])
  have lt: "within s (unat n) d \<longleftrightarrow> s \<le> d \<and> d < s + ucast n"
    unfolding within_def word_le_nat_alt word_less_nat_alt sn
    using assms unsigned_less [of d, where ?'a = nat] by (auto simp: unat_sub_if')
  consider "n = 0" | "n \<noteq> 0" "s < d" "d < s + ucast n" | "n \<noteq> 0" "\<not> (s < d \<and> d < s + ucast n)" by blast
  then show ?thesis
  proof cases
    case 2
    then have "unat (d - s) < unat n" using lt by (simp add: within_def)
    moreover have "unat s < unat d" using 2 by (simp add: word_less_nat_alt)
    moreover have "unat d < 2 ^ 64" using unsigned_less [of d, where ?'a = nat] by simp
    ultimately have "\<not> within d (unat n) s"
      using n32 unfolding within_def by (simp add: unat_sub_if')
    then have "copy_back (unat n) (d + of_nat (unat n)) (s + of_nat (unat n)) m =
        (\<lambda>x. if within d (unat n) x then m (s + (x - d)) else m x)"
      using n32 by (subst copy_back_closed) (auto simp: algebra_simps)
    with 2 show ?thesis by (simp add: memmove_def)
  next
    case 3
    then have "d = s \<or> \<not> within s (unat n) d" using lt by auto
    then have "copy_forw (unat n) d s m = (\<lambda>x. if within d (unat n) x then m (s + (x - d)) else m x)"
      using n32 by (simp add: copy_forw_closed)
    with 3 show ?thesis by (auto simp: memmove_def)
  qed (simp add: memmove_def)
qed

lemma strncmp_loop_0_iff:
  "strncmp_loop n p q m = 0 \<longleftrightarrow>
     (\<forall>i<n. (\<forall>j<i. m (p + of_nat j) \<noteq> 0) \<longrightarrow> m (p + of_nat i) = m (q + of_nat i))"
proof (induction n arbitrary: p q)
  case (Suc n)
  show ?case
  proof (cases "m p \<noteq> 0 \<and> m p = m q")
    case True
    then show ?thesis using Suc.IH [of "p + 1" "q + 1"]
      by (simp add: All_less_Suc2 algebra_simps)
  next
    case False
    then show ?thesis by (auto simp: All_less_Suc2 word_uint_eq_iff)
  qed
qed simp

lemma safestrcpy_loop_frame:
  assumes "n < 2 ^ 32" "\<not> within s (Suc n) x"
  shows "safestrcpy_loop n s t m x = m x"
  using assms
proof (induction n arbitrary: s t m)
  case (Suc n)
  then have "x \<noteq> s" "\<not> within (s + 1) (Suc n) x" using within_Suc [of "Suc n" s x] by auto
  moreover from this have "x \<noteq> s + 1" using within_Suc [of n "s + 1" x] Suc.prems by auto
  ultimately show ?case using Suc by (simp add: Let_def)
qed (simp add: within_Suc)

lemma safestrcpy_loop_spec:
  assumes "n < 2 ^ 32" "\<forall>i\<le>n. \<not> within s (Suc n) (t + of_nat i)"
  shows "\<exists>k\<le>n. (\<forall>i<k. safestrcpy_loop n s t m (s + of_nat i) = m (t + of_nat i) \<and> m (t + of_nat i) \<noteq> 0)
    \<and> safestrcpy_loop n s t m (s + of_nat k) = 0 \<and> (k = n \<or> m (t + of_nat k) = 0)"
  using assms
proof (induction n arbitrary: s t m)
  case (Suc n)
  show ?case
  proof (cases "m t = 0")
    case False
    let ?m = "m(s := m t)"
    have src: "\<not> within s (Suc (Suc n)) (t + 1 + of_nat i)" if "i \<le> n" for i
      using Suc.prems(2) [rule_format, of "Suc i"] that by (simp add: algebra_simps)
    then have "\<forall>i\<le>n. \<not> within (s + 1) (Suc n) (t + 1 + of_nat i)"
      using within_Suc [of "Suc n" s] Suc.prems(1) by simp
    moreover have "n < 2 ^ 32" using Suc.prems(1) by simp
    ultimately obtain k where k: "k \<le> n"
      "\<forall>i<k. safestrcpy_loop n (s + 1) (t + 1) ?m (s + 1 + of_nat i) = ?m (t + 1 + of_nat i) \<and> ?m (t + 1 + of_nat i) \<noteq> 0"
      "safestrcpy_loop n (s + 1) (t + 1) ?m (s + 1 + of_nat k) = 0" "k = n \<or> ?m (t + 1 + of_nat k) = 0"
      using Suc.IH [of "s + 1" "t + 1" ?m] by blast
    have ne: "t + 1 + of_nat i \<noteq> s" if "i \<le> n" for i
      using src [OF that] within_Suc [of "Suc n" s] Suc.prems(1) by auto
    have "\<not> within (s + 1) (Suc n) s" 
      using Suc.prems(1) by (simp add: within_def unsigned_minus_1_eq_mask mask_eq_exp_minus_1)
    then have "safestrcpy_loop n (s + 1) (t + 1) ?m s = m t"
      using safestrcpy_loop_frame [of n "s + 1" s "t + 1" ?m] Suc.prems(1) by simp
    with k ne False show ?thesis
      by (intro exI [of _ "Suc k"]) (auto simp: Let_def All_less_Suc2 algebra_simps)
  next
    case True
    then show ?thesis by (intro exI [of _ 0]) (simp add: Let_def)
  qed
qed simp

lemma strlen_loop_spec:
  "\<lbrakk>m (s + of_nat (n + k)) = 0; \<forall>i<k. m (s + of_nat (n + i)) \<noteq> 0\<rbrakk> \<Longrightarrow> strlen_loop s n m = Some (n + k)"
proof (induction k arbitrary: n)
  case (Suc k)
  have "\<forall>i<k. m (s + of_nat (Suc n + i)) \<noteq> 0"
    using Suc.prems(2) [rule_format, of "Suc i" for i] by simp
  with Suc.IH [of "Suc n"] Suc.prems(1) have "strlen_loop s (Suc n) m = Some (n + Suc k)" by simp
  with Suc.prems(2) [rule_format, of 0] show ?case by (subst strlen_loop.simps) simp
qed (subst strlen_loop.simps, simp)

lemma strlen_spec:
  "m (s + of_nat k) = 0 \<Longrightarrow> \<forall>i<k. m (s + of_nat i) \<noteq> 0 \<Longrightarrow> strlen s m = Some k"
  using strlen_loop_spec [of m s 0 k] by (simp add: strlen_def)

section \<open>Properties\<close>

text \<open>
  C39. \<open>memmove\<close> copies the \<open>n\<close> bytes that the source held before the call to the
  destination and changes no other byte, however the two ranges overlap, as long as the
  source does not run past the end of the address space.
\<close>

theorem memmove_correct:
  assumes "unat s + unat n < 2 ^ 64"
  shows "memmove d s n m x = (if unat (x - d) < unat n then m (s + (x - d)) else m x)"
  using memmove_closed [OF assms, of d m] by (simp add: within_def)

theorem memmove_correct_witness:
  "memmove 101 100 3 (\<lambda>a. ucast a) 103 = 102 \<and> memmove 100 101 3 (\<lambda>a. ucast a) 100 = 101"
  using memmove_correct [of 100 3 101 "\<lambda>a. ucast a" 103] memmove_correct [of 101 3 100 "\<lambda>a. ucast a" 100]
  by simp

text \<open>
  For a positive size and a source that does not overlap the destination, \<open>safestrcpy\<close>
  leaves in the destination the bytes of the source up to its first NUL, cut to \<open>n - 1\<close>
  bytes, followed by a NUL within the first \<open>n\<close> bytes, and writes nothing beyond them.
\<close>

theorem safestrcpy_correct:
  assumes "0 < n" "n < 2 ^ 31" "\<forall>i<nat n. \<not> within s (nat n) (t + of_nat i)"
  shows "(\<exists>k<nat n. (\<forall>i<k. safestrcpy s t n m (s + of_nat i) = m (t + of_nat i) \<and> m (t + of_nat i) \<noteq> 0) \<and>
      safestrcpy s t n m (s + of_nat k) = 0 \<and> (k = nat n - 1 \<or> m (t + of_nat k) = 0)) \<and>
    (\<forall>x. \<not> within s (nat n) x \<longrightarrow> safestrcpy s t n m x = m x)"
proof
  let ?n = "nat n - 1"
  have n: "nat n = Suc ?n" "?n < 2 ^ 32" using assms(1,2) by auto
  have sf: "safestrcpy s t n m = safestrcpy_loop ?n s t m" using assms(1) by (simp add: safestrcpy_def)
  have "\<forall>i\<le>?n. \<not> within s (Suc ?n) (t + of_nat i)"
    using assms(3) n(1) by (metis le_imp_less_Suc)
  from safestrcpy_loop_spec [OF n(2) this, of m] obtain k where "k \<le> ?n"
    "\<forall>i<k. safestrcpy_loop ?n s t m (s + of_nat i) = m (t + of_nat i) \<and> m (t + of_nat i) \<noteq> 0"
    "safestrcpy_loop ?n s t m (s + of_nat k) = 0" "k = ?n \<or> m (t + of_nat k) = 0" by blast
  moreover from this(1) n(1) have "k < nat n" by linarith
  ultimately show "\<exists>k<nat n. (\<forall>i<k. safestrcpy s t n m (s + of_nat i) = m (t + of_nat i) \<and>
      m (t + of_nat i) \<noteq> 0) \<and> safestrcpy s t n m (s + of_nat k) = 0 \<and>
      (k = nat n - 1 \<or> m (t + of_nat k) = 0)"
    unfolding sf by blast
  show "\<forall>x. \<not> within s (nat n) x \<longrightarrow> safestrcpy s t n m x = m x"
    using safestrcpy_loop_frame [OF n(2), of s] unfolding sf n(1) [symmetric] by blast
qed

theorem safestrcpy_correct_witness:
  "safestrcpy 0 100 2 (\<lambda>a. if a < 50 then 9 else 7) 5 = 9"
proof -
  have "\<forall>i<nat 2. \<not> within 0 (nat 2) (100 + of_nat i)"
  proof (intro allI impI)
    fix i :: nat assume "i < nat 2"
    then have "i = 0 \<or> i = 1" by auto
    then show "\<not> within 0 (nat 2) (100 + of_nat i)" by (auto simp: within_def)
  qed
  from safestrcpy_correct [of 2 0 100 "\<lambda>a. if a < 50 then 9 else 7", OF _ _ this]
  show ?thesis by (simp add: within_def)
qed

end
