(* ===== verification/Physmem.thy ===== *)
theory Physmem
  imports Klock Kstring
begin

text \<open>
  Physical memory as bytes, 64-bit loads and stores, and the page and page-table-entry
  macros of \<open>kernel/riscv.h\<close> and \<open>kernel/memlayout.h\<close>, with the arithmetic facts about them
  that the allocator and the page tables use.
\<close>

section \<open>Constants and macros\<close>

definition PGSIZE :: u64 where "PGSIZE = 4096"
definition KERNBASE :: u64 where "KERNBASE = 0x80000000"
definition PHYSTOP :: u64 where "PHYSTOP = KERNBASE + 128 * 1024 * 1024"
definition MAXVA :: u64 where "MAXVA = push_bit (9 + 9 + 9 + 12 - 1) 1"
definition TRAMPOLINE :: u64 where "TRAMPOLINE = MAXVA - PGSIZE"
definition TRAPFRAME :: u64 where "TRAPFRAME = TRAMPOLINE - PGSIZE"
definition KSTACK :: "u64 \<Rightarrow> u64" where "KSTACK p = TRAMPOLINE - (p + 1) * 2 * PGSIZE"
definition UART0 :: u64 where "UART0 = 0x10000000"
definition VIRTIO0 :: u64 where "VIRTIO0 = 0x10001000"
definition PLIC :: u64 where "PLIC = 0x0c000000"

definition PGROUNDUP :: "u64 \<Rightarrow> u64" where
  "PGROUNDUP sz = (sz + PGSIZE - 1) AND NOT (PGSIZE - 1)"

definition PGROUNDDOWN :: "u64 \<Rightarrow> u64" where
  "PGROUNDDOWN a = a AND NOT (PGSIZE - 1)"

definition PTE_V :: u64 where "PTE_V = push_bit 0 1"
definition PTE_R :: u64 where "PTE_R = push_bit 1 1"
definition PTE_W :: u64 where "PTE_W = push_bit 2 1"
definition PTE_X :: u64 where "PTE_X = push_bit 3 1"
definition PTE_U :: u64 where "PTE_U = push_bit 4 1"

definition PA2PTE :: "u64 \<Rightarrow> u64" where "PA2PTE pa = push_bit 10 (drop_bit 12 pa)"
definition PTE2PA :: "u64 \<Rightarrow> u64" where "PTE2PA pte = push_bit 12 (drop_bit 10 pte)"
definition PTE_FLAGS :: "u64 \<Rightarrow> u64" where "PTE_FLAGS pte = pte AND 0x3FF"
definition PXSHIFT :: "nat \<Rightarrow> nat" where "PXSHIFT level = 12 + 9 * level"
definition PX :: "nat \<Rightarrow> u64 \<Rightarrow> u64" where "PX level va = drop_bit (PXSHIFT level) va AND 0x1FF"

section \<open>Pages\<close>

definition aligned :: "u64 \<Rightarrow> bool" where
  "aligned a \<longleftrightarrow> a mod PGSIZE = 0"

lemma PGSIZE_mask: "PGSIZE - 1 = mask 12"
  by (simp add: PGSIZE_def mask_eq_exp_minus_1)

lemma unat_PGSIZE [simp]: "unat PGSIZE = 4096"
  by (simp add: PGSIZE_def)

lemma and_not_mask_eq: "(x :: u64) AND NOT (mask n) = x - take_bit n x"
proof -
  have "(x AND NOT (mask n)) + (x AND mask n) = x"
    by (simp add: disjunctive_add bit_simps flip: bit.conj_disj_distrib)
  then show ?thesis by (simp add: take_bit_eq_mask eq_diff_eq)
qed

lemma unat_take_bit_u64: "unat (take_bit n (x :: u64)) = unat x mod 2 ^ n"
  by (subst unsigned_take_bit_eq) (simp add: take_bit_eq_mod)

lemma unat_PGROUNDDOWN: "unat (PGROUNDDOWN a) = unat a div 4096 * 4096"
proof -
  have "unat (PGROUNDDOWN a) = unat a - unat a mod 4096"
    unfolding PGROUNDDOWN_def PGSIZE_mask and_not_mask_eq
    by (subst unat_sub) (simp_all add: unat_take_bit_u64 word_le_nat_alt)
  then show ?thesis by (simp add: minus_mod_eq_div_mult)
qed

lemma aligned_unat: "aligned a \<longleftrightarrow> unat a mod 4096 = 0"
  by (simp add: aligned_def word_unat_eq_iff unat_mod_distrib)

lemma aligned_PGROUNDDOWN [simp]: "aligned (PGROUNDDOWN a)"
  by (simp add: aligned_unat unat_PGROUNDDOWN)

lemma PGROUNDDOWN_aligned [simp]: "aligned a \<Longrightarrow> PGROUNDDOWN a = a"
  by (simp add: aligned_unat word_unat_eq_iff unat_PGROUNDDOWN) (metis div_mult_mod_eq add_0_right)

lemma within_page:
  assumes "aligned p"
  shows "within p 4096 x \<longleftrightarrow> PGROUNDDOWN x = p"
proof -
  have x: "unat x < 2 ^ 64" and p: "unat p < 2 ^ 64"
    using unsigned_less [of x, where ?'a = nat] unsigned_less [of p, where ?'a = nat] by simp_all
  obtain k where k: "unat p = 4096 * k" using assms by (auto simp: aligned_unat)
  then have "k < 2 ^ 52" using p by simp
  then show ?thesis using x k
    unfolding within_def word_unat_eq_iff unat_PGROUNDDOWN
    by (auto simp: unat_sub_if' k)
qed

section \<open>Words in memory\<close>

definition load64 :: "mem \<Rightarrow> u64 \<Rightarrow> u64" where
  "load64 m a = of_nat (le_nat (map (\<lambda>i. m (a + of_nat i)) [0..<8]))"

definition store64 :: "u64 \<Rightarrow> u64 \<Rightarrow> mem \<Rightarrow> mem" where
  "store64 a v m = (\<lambda>x. if within a 8 x then le_bytes 8 (unat v) ! unat (x - a) else m x)"

lemma load64_cong: "(\<And>x. within a 8 x \<Longrightarrow> m x = m' x) \<Longrightarrow> load64 m a = load64 m' a"
  unfolding load64_def
  by (intro arg_cong [where f = of_nat] arg_cong [where f = le_nat] map_cong)
    (auto simp: within_def unat_of_nat_u64)

lemma load64_store64_same [simp]: "load64 (store64 a v m) a = v"
proof -
  have "map (\<lambda>i. store64 a v m (a + of_nat i)) [0..<8] = le_bytes 8 (unat v)"
    by (rule nth_equalityI) (auto simp: store64_def within_def unat_of_nat_u64)
  moreover have "unat v < 256 ^ 8" using unsigned_less [of v, where ?'a = nat] by simp
  ultimately show ?thesis by (simp add: load64_def le_nat_le_bytes)
qed

lemma load64_store64_other:
  assumes "\<And>x. within b 8 x \<Longrightarrow> \<not> within a 8 x"
  shows "load64 (store64 a v m) b = load64 m b"
  by (rule load64_cong) (use assms in \<open>auto simp: store64_def\<close>)

lemma load64_zero: "load64 (\<lambda>_. 0) a = 0"
proof -
  have "le_nat (map (\<lambda>i. 0) (is :: nat list)) = 0" for "is" by (induction "is") simp_all
  then show ?thesis by (simp add: load64_def)
qed

definition aligned8 :: "u64 \<Rightarrow> bool" where
  "aligned8 a \<longleftrightarrow> unat a mod 8 = 0"

lemma within_8_unique:
  assumes "aligned8 a" "within a 8 x"
  shows "unat a = unat x div 8 * 8"
proof -
  obtain k where k: "unat a = 8 * k" using assms(1) by (auto simp: aligned8_def)
  have "k < 2 ^ 61" using unsigned_less [of a, where ?'a = nat] k by simp
  with k assms(2) unsigned_less [of x, where ?'a = nat] show ?thesis
    by (auto simp: within_def unat_sub_if' split: if_splits)
qed

lemma load64_store64:
  assumes "aligned8 a" "aligned8 b"
  shows "load64 (store64 a v m) b = (if a = b then v else load64 m b)"
proof (cases "a = b")
  case False
  have "\<not> within a 8 x" if "within b 8 x" for x
    using within_8_unique [OF assms(2) that] within_8_unique [OF assms(1), of x] False
    by (auto simp: word_unat_eq_iff)
  with False show ?thesis by (simp add: load64_store64_other)
qed simp

text \<open>The bytes of a page, and bytes moved between a page and a kernel buffer.\<close>

definition peek :: "mem \<Rightarrow> u64 \<Rightarrow> nat \<Rightarrow> u8 list" where
  "peek m a n = map (\<lambda>i. m (a + of_nat i)) [0..<n]"

definition poke :: "u64 \<Rightarrow> u8 list \<Rightarrow> mem \<Rightarrow> mem" where
  "poke a bs m = (\<lambda>x. if within a (length bs) x then bs ! unat (x - a) else m x)"

lemma length_peek [simp]: "length (peek m a n) = n"
  by (simp add: peek_def)

lemma nth_peek [simp]: "i < n \<Longrightarrow> peek m a n ! i = m (a + of_nat i)"
  by (simp add: peek_def)

lemma peek_poke: "length bs < 2 ^ 64 \<Longrightarrow> n = length bs \<Longrightarrow> peek (poke a bs m) a n = bs"
  by (rule nth_equalityI) (auto simp: poke_def within_def unat_of_nat_u64)

text \<open>A kernel buffer is a list of bytes; \<open>memmove\<close> between two addresses is a \<open>peek\<close> followed
  by a \<open>poke\<close>.\<close>

lemma memmove_peek_poke:
  assumes "unat s + unat n < 2 ^ 64"
  shows "memmove d s n m = poke d (peek m s (unat n)) m"
  by (auto simp: memmove_closed [OF assms] poke_def fun_eq_iff within_def)

end
