(* ===== verification/Kalloc.thy ===== *)
theory Kalloc
  imports Physmem
begin

text \<open>
  The page allocator (\<open>kernel/kalloc.c\<close>). The free list is threaded through the free pages
  themselves: the first eight bytes of a free page hold the address of the next one. The
  lemmas relate it to a list of pages, and the locale \<open>page_allocator\<close> states what the
  page-table code relies on.
\<close>

record kmem = kst +
  pmem :: mem
  freelist :: u64
  kend :: u64

definition kfree :: "u64 \<Rightarrow> 'a kmem_scheme \<Rightarrow> kerr + 'a kmem_scheme" where
  "kfree pa s =
     (if pa mod PGSIZE \<noteq> 0 \<or> pa < kend s \<or> pa \<ge> PHYSTOP then Inl (Panic ''kfree'')
      else
        let s1 = s\<lparr>pmem := memset pa 1 4096 (pmem s)\<rparr> in
        bindr (acquire_lk KmemLock s1) (\<lambda>s2.
        let s3 = s2\<lparr>pmem := store64 pa (freelist s2) (pmem s2)\<rparr>;
            s4 = s3\<lparr>freelist := pa\<rparr>
        in release_lk KmemLock s4))"

definition kalloc :: "'a kmem_scheme \<Rightarrow> kerr + (u64 \<times> 'a kmem_scheme)" where
  "kalloc s =
     bindr (acquire_lk KmemLock s) (\<lambda>s1.
     let r = freelist s1;
         s2 = (if r \<noteq> 0 then s1\<lparr>freelist := load64 (pmem s1) r\<rparr> else s1)
     in bindr (release_lk KmemLock s2) (\<lambda>s3.
        Inr (r, if r \<noteq> 0 then s3\<lparr>pmem := memset r 5 4096 (pmem s3)\<rparr> else s3)))"

text \<open>The loop of \<open>freerange\<close> frees one page per round; its fuel is the number of pages
  between the two bounds plus one.\<close>

primrec freerange_loop :: "nat \<Rightarrow> u64 \<Rightarrow> u64 \<Rightarrow> 'a kmem_scheme \<Rightarrow> kerr + 'a kmem_scheme" where
  "freerange_loop 0 p pa_end s = Inl Diverge"
| "freerange_loop (Suc k) p pa_end s =
     (if p + PGSIZE \<le> pa_end
      then bindr (kfree p s) (freerange_loop k (p + PGSIZE) pa_end)
      else Inr s)"

definition freerange :: "u64 \<Rightarrow> u64 \<Rightarrow> 'a kmem_scheme \<Rightarrow> kerr + 'a kmem_scheme" where
  "freerange pa_start pa_end s =
     freerange_loop (unat (pa_end - PGROUNDUP pa_start) div 4096 + 1) (PGROUNDUP pa_start) pa_end s"

text \<open>\<open>kinit\<close> starts from the zeroed \<open>kmem\<close> of the kernel's bss.\<close>

definition kinit :: "'a kmem_scheme \<Rightarrow> kerr + 'a kmem_scheme" where
  "kinit s = freerange (kend s) PHYSTOP s"

section \<open>The free list as a list of pages\<close>

primrec flist :: "mem \<Rightarrow> u64 \<Rightarrow> u64 list \<Rightarrow> bool" where
  "flist m p [] \<longleftrightarrow> p = 0"
| "flist m p (x # xs) \<longleftrightarrow> p = x \<and> x \<noteq> 0 \<and> flist m (load64 m x) xs"

definition ram_page :: "'a kmem_scheme \<Rightarrow> u64 \<Rightarrow> bool" where
  "ram_page s x \<longleftrightarrow> aligned x \<and> kend s \<le> x \<and> x < PHYSTOP"

definition free_pages :: "'a kmem_scheme \<Rightarrow> u64 list \<Rightarrow> bool" where
  "free_pages s xs \<longleftrightarrow> flist (pmem s) (freelist s) xs \<and> distinct xs \<and>
     (\<forall>x\<in>set xs. ram_page s x) \<and> 0 < kend s"

text \<open>\<open>same_outside P s s'\<close>: the two memories agree outside the pages in \<open>P\<close>.\<close>

definition agree_outside :: "u64 set \<Rightarrow> mem \<Rightarrow> mem \<Rightarrow> bool" where
  "agree_outside P m m' \<longleftrightarrow> (\<forall>x. PGROUNDDOWN x \<notin> P \<longrightarrow> m' x = m x)"

lemma flist_fun: "flist m p xs \<Longrightarrow> flist m p ys \<Longrightarrow> xs = ys"
  by (induction xs arbitrary: p ys) (case_tac ys; auto)+

lemma load64_page:
  assumes "aligned x" "agree_outside P m m'" "x \<notin> P"
  shows "load64 m' x = load64 m x"
proof (rule load64_cong)
  fix y assume "within x 8 y"
  then have "within x 4096 y" by (simp add: within_def)
  with assms show "m' y = m y" by (simp add: within_page agree_outside_def)
qed

lemma flist_agree:
  "\<lbrakk>flist m p xs; agree_outside P m m'; \<forall>x\<in>set xs. aligned x \<and> x \<notin> P\<rbrakk> \<Longrightarrow> flist m' p xs"
  by (induction xs arbitrary: p) (auto simp: load64_page)

lemma agree_outside_refl [simp]: "agree_outside P m m"
  by (simp add: agree_outside_def)

lemma agree_outside_trans:
  "agree_outside P m m' \<Longrightarrow> agree_outside P m' m'' \<Longrightarrow> agree_outside P m m''"
  by (simp add: agree_outside_def)

lemma agree_outside_mono: "agree_outside P m m' \<Longrightarrow> P \<subseteq> Q \<Longrightarrow> agree_outside Q m m'"
  by (auto simp: agree_outside_def)

lemma agree_outside_memset:
  "aligned p \<Longrightarrow> agree_outside {p} m (memset p c 4096 m)"
  by (simp add: agree_outside_def memset_closed within_page)

lemma div_8_512: "(n :: nat) div 8 div 512 = n div 4096"
  by (simp flip: div_mult2_eq)

lemma agree_outside_store64:
  "PGROUNDDOWN a = p \<Longrightarrow> aligned8 a \<Longrightarrow> agree_outside {p} m (store64 a v m)"
  by (auto simp: agree_outside_def store64_def word_unat_eq_iff unat_PGROUNDDOWN
      div_8_512 dest!: within_8_unique)

section \<open>The operations on the list\<close>

lemma aligned_aligned8: "aligned p \<Longrightarrow> aligned8 p"
proof -
  assume "aligned p"
  then obtain k where "unat p = 4096 * k" by (auto simp: aligned_unat)
  then have "unat p = 8 * (512 * k)" by simp
  then show ?thesis by (simp only: aligned8_def mod_mult_self1_is_0)
qed

lemma ram_page_nonzero: "free_pages s xs \<Longrightarrow> ram_page s x \<Longrightarrow> x \<noteq> 0"
  by (auto simp: free_pages_def ram_page_def)

lemma kalloc_Nil:
  "free_pages s [] \<Longrightarrow> KmemLock \<notin> held s \<Longrightarrow> kalloc s = Inr (0, s)"
  by (simp add: kalloc_def free_pages_def kres_simps Let_def)

lemma kalloc_Cons:
  assumes "free_pages s (x # xs)" "KmemLock \<notin> held s"
  shows "kalloc s = Inr (x, s\<lparr>pmem := memset x 5 4096 (pmem s), freelist := load64 (pmem s) x\<rparr>)"
    and "free_pages (s\<lparr>pmem := memset x 5 4096 (pmem s), freelist := load64 (pmem s) x\<rparr>) xs"
proof -
  have x: "x \<noteq> 0" "freelist s = x" "aligned x" "x \<notin> set xs" "flist (pmem s) (load64 (pmem s) x) xs"
    using assms(1) by (auto simp: free_pages_def ram_page_def)
  with assms(2) show "kalloc s = Inr (x, s\<lparr>pmem := memset x 5 4096 (pmem s), freelist := load64 (pmem s) x\<rparr>)"
    by (simp add: kalloc_def kres_simps Let_def)
  have "flist (memset x 5 4096 (pmem s)) (load64 (pmem s) x) xs"
    using assms(1) x by (intro flist_agree [OF _ agree_outside_memset])
      (auto simp: free_pages_def ram_page_def)
  with assms(1) show "free_pages (s\<lparr>pmem := memset x 5 4096 (pmem s), freelist := load64 (pmem s) x\<rparr>) xs"
    by (simp add: free_pages_def ram_page_def)
qed

lemma kfree_ok:
  assumes "free_pages s xs" "ram_page s p" "p \<notin> set xs" "KmemLock \<notin> held s"
  shows "\<exists>m. kfree p s = Inr (s\<lparr>pmem := m, freelist := p\<rparr>) \<and>
    free_pages (s\<lparr>pmem := m, freelist := p\<rparr>) (p # xs) \<and> agree_outside {p} (pmem s) m"
proof (intro exI conjI)
  let ?m = "store64 p (freelist s) (memset p 1 4096 (pmem s))"
  have p: "aligned p" "p \<noteq> 0" using assms ram_page_nonzero by (auto simp: ram_page_def)
  show "kfree p s = Inr (s\<lparr>pmem := ?m, freelist := p\<rparr>)"
    using assms by (auto simp: kfree_def ram_page_def aligned_def kres_simps Let_def)
  show ag: "agree_outside {p} (pmem s) ?m"
    using p by (intro agree_outside_trans [OF agree_outside_memset agree_outside_store64])
      (simp_all add: aligned_aligned8)
  have "flist ?m (freelist s) xs"
    using assms(1,3) by (intro flist_agree [OF _ ag]) (auto simp: free_pages_def ram_page_def)
  with assms p show "free_pages (s\<lparr>pmem := ?m, freelist := p\<rparr>) (p # xs)"
    by (simp add: free_pages_def ram_page_def)
qed

lemma kfree_bad:
  assumes "\<not> ram_page s p"
  shows "kfree p s = Inl (Panic ''kfree'')"
proof -
  have "p mod PGSIZE \<noteq> 0 \<or> p < kend s \<or> p \<ge> PHYSTOP"
    using assms unfolding ram_page_def aligned_def not_less [symmetric] by argo
  then show ?thesis unfolding kfree_def by (rule if_P)
qed

section \<open>The contract of the allocator\<close>

primrec alloc_n :: "('s \<Rightarrow> kerr + (u64 \<times> 's)) \<Rightarrow> nat \<Rightarrow> 's \<Rightarrow> kerr + (u64 list \<times> 's)" where
  "alloc_n alloc 0 s = Inr ([], s)"
| "alloc_n alloc (Suc n) s =
     bindr (alloc s) (\<lambda>(p, s1). bindr (alloc_n alloc n s1) (\<lambda>(ps, s2). Inr (p # ps, s2)))"

locale page_allocator =
  fixes alloc :: "'s \<Rightarrow> kerr + (u64 \<times> 's)"
    and dealloc :: "u64 \<Rightarrow> 's \<Rightarrow> kerr + 's"
    and avail :: "'s \<Rightarrow> u64 list \<Rightarrow> bool"
    and page :: "'s \<Rightarrow> u64 \<Rightarrow> bool"
    and bytes :: "'s \<Rightarrow> mem"
    and ready :: "'s \<Rightarrow> bool"
  assumes alloc_some: "\<lbrakk>avail s (x # xs); ready s\<rbrakk> \<Longrightarrow> \<exists>s'. alloc s = Inr (x, s') \<and> avail s' xs \<and>
      ready s' \<and> page s' = page s \<and> agree_outside {x} (bytes s) (bytes s')"
    and alloc_none: "\<lbrakk>avail s []; ready s\<rbrakk> \<Longrightarrow> alloc s = Inr (0, s)"
    and dealloc_page: "\<lbrakk>avail s xs; ready s; page s p; p \<notin> set xs\<rbrakk> \<Longrightarrow> \<exists>s'. dealloc p s = Inr s' \<and>
      avail s' (p # xs) \<and> ready s' \<and> page s' = page s \<and> agree_outside {p} (bytes s) (bytes s')"
    and dealloc_bad: "\<not> page s p \<Longrightarrow> \<exists>e. dealloc p s = Inl e"
    and avail_pages: "avail s xs \<Longrightarrow> distinct xs \<and> (\<forall>x\<in>set xs. page s x \<and> x \<noteq> 0)"
begin

lemma alloc_n_take:
  "\<lbrakk>avail s xs; ready s; n \<le> length xs\<rbrakk> \<Longrightarrow> \<exists>s'. alloc_n alloc n s = Inr (take n xs, s') \<and>
     avail s' (drop n xs) \<and> ready s' \<and> page s' = page s \<and> agree_outside (set (take n xs)) (bytes s) (bytes s')"
proof (induction n arbitrary: s xs)
  case (Suc n)
  then obtain x ys where xs: "xs = x # ys" by (cases xs) auto
  with alloc_some Suc.prems obtain s1 where s1: "alloc s = Inr (x, s1)" "avail s1 ys" "ready s1"
    "page s1 = page s" "agree_outside {x} (bytes s) (bytes s1)" by blast
  moreover obtain s2 where s2: "alloc_n alloc n s1 = Inr (take n ys, s2)" "avail s2 (drop n ys)"
    "ready s2" "page s2 = page s1" "agree_outside (set (take n ys)) (bytes s1) (bytes s2)"
    using Suc.IH [OF s1(2,3)] Suc.prems(3) xs by auto
  moreover have "agree_outside (insert x (set (take n ys))) (bytes s) (bytes s2)"
    using s1(5) s2(5) by (auto simp: agree_outside_def)
  ultimately show ?case using xs by simp
qed simp

lemma alloc_n_exhaust:
  assumes "avail s xs" "ready s"
  shows "\<exists>s'. alloc_n alloc (Suc (length xs)) s = Inr (xs @ [0], s')"
  using assms
proof (induction xs arbitrary: s)
  case Nil
  then show ?case using alloc_none by simp
next
  case (Cons x xs)
  then obtain s1 where "alloc s = Inr (x, s1)" "avail s1 xs" "ready s1" using alloc_some by blast
  with Cons.IH [of s1] show ?case by auto
qed

lemma alloc_dealloc:
  assumes "avail s (x # xs)" "ready s"
  shows "\<exists>s1 s2. alloc s = Inr (x, s1) \<and> dealloc x s1 = Inr s2 \<and> avail s2 (x # xs)"
proof -
  obtain s1 where s1: "alloc s = Inr (x, s1)" "avail s1 xs" "ready s1" "page s1 = page s"
    using alloc_some assms by blast
  have "page s x" "x \<notin> set xs" using avail_pages [OF assms(1)] by auto
  with dealloc_page [OF s1(2,3), of x] s1 show ?thesis by auto
qed

end

interpretation pages: page_allocator kalloc kfree free_pages ram_page pmem "\<lambda>s. KmemLock \<notin> held s"
proof
  fix s :: "'a kmem_scheme" and x xs
  assume a: "free_pages s (x # xs)" "KmemLock \<notin> held s"
  then have "aligned x" by (simp add: free_pages_def ram_page_def)
  with kalloc_Cons [OF a] a show "\<exists>s'. kalloc s = Inr (x, s') \<and> free_pages s' xs \<and> KmemLock \<notin> held s' \<and>
      ram_page s' = ram_page s \<and> agree_outside {x} (pmem s) (pmem s')"
    by (simp add: agree_outside_memset ram_page_def [abs_def])
next
  fix s :: "'a kmem_scheme" and p xs
  assume a: "free_pages s xs" "KmemLock \<notin> held s" "ram_page s p" "p \<notin> set xs"
  from kfree_ok [OF a(1,3,4,2)] a(2) show "\<exists>s'. kfree p s = Inr s' \<and> free_pages s' (p # xs) \<and>
      KmemLock \<notin> held s' \<and> ram_page s' = ram_page s \<and> agree_outside {p} (pmem s) (pmem s')"
    by (auto simp: ram_page_def [abs_def])
qed (auto simp: kalloc_Nil kfree_bad free_pages_def dest: ram_page_nonzero [rotated] simp: ram_page_def)

lemma kalloc_held: "kalloc s = Inr (p, s') \<Longrightarrow> KmemLock \<notin> held s \<Longrightarrow> held s' = held s"
  by (auto simp: kalloc_def kres_simps Let_def bindr_eq_Inr release_lk_def split: if_splits)

lemma alloc_n_held:
  "KmemLock \<notin> held s \<Longrightarrow> alloc_n kalloc n s = Inr (ps, s') \<Longrightarrow> held s' = held s"
proof (induction n arbitrary: s ps)
  case (Suc n)
  then obtain p s1 qs where "kalloc s = Inr (p, s1)" "alloc_n kalloc n s1 = Inr (qs, s')"
    by (auto simp: bindr_eq_Inr)
  with Suc.IH [of s1 qs] Suc.prems(1) kalloc_held [of s p s1] show ?case by simp
qed simp

section \<open>Initialisation\<close>

lemma unat_PHYSTOP [simp]: "unat PHYSTOP = 2281701376"
  by (simp add: PHYSTOP_def KERNBASE_def)

lemma unat_PGROUNDUP:
  assumes "unat a + 4095 < 2 ^ 64"
  shows "unat (PGROUNDUP a) = (unat a + 4095) div 4096 * 4096"
proof -
  have "unat (a + PGSIZE - 1) = unat a + 4095"
    using assms by (simp add: PGSIZE_def unat_word_ariths)
  then show ?thesis
    using unat_PGROUNDDOWN [of "a + PGSIZE - 1"] by (simp add: PGROUNDUP_def PGROUNDDOWN_def)
qed

lemma freerange_loop_ok:
  assumes "free_pages s xs" "KmemLock \<notin> held s" "aligned p" "kend s \<le> p" "p \<le> PHYSTOP"
    and "set xs = {x. aligned x \<and> kend s \<le> x \<and> x < p}" "unat (PHYSTOP - p) div 4096 < k"
  shows "\<exists>s' ys. freerange_loop k p PHYSTOP s = Inr s' \<and> free_pages s' ys \<and> set ys = {x. ram_page s x}"
  using assms
proof (induction k arbitrary: s xs p)
  case (Suc k)
  obtain i where i: "unat p = 4096 * i" using Suc.prems(3) by (auto simp: aligned_unat)
  have ip: "i \<le> 557056" using Suc.prems(5) i by (simp add: word_le_nat_alt)
  have u: "unat (PHYSTOP - p) = 2281701376 - unat p" using Suc.prems(5) by (simp add: unat_sub)
  have step: "unat (p + PGSIZE) = 4096 * (i + 1)" using ip i by (simp add: unat_word_ariths)
  have inb: "p + PGSIZE \<le> PHYSTOP \<longleftrightarrow> i < 557056" using ip by (auto simp: word_le_nat_alt step)
  show ?case
  proof (cases "i < 557056")
    case True
    then have pg: "ram_page s p" using Suc.prems i by (simp add: ram_page_def word_less_nat_alt)
    have "p \<notin> set xs" using Suc.prems(6) by simp
    from kfree_ok [OF Suc.prems(1) pg this Suc.prems(2)] obtain m where
      m: "kfree p s = Inr (s\<lparr>pmem := m, freelist := p\<rparr>)" "free_pages (s\<lparr>pmem := m, freelist := p\<rparr>) (p # xs)"
      by blast
    have al: "aligned x \<and> x < p + PGSIZE \<longleftrightarrow> aligned x \<and> (x = p \<or> x < p)" for x
      by (auto simp: aligned_unat word_less_nat_alt step i word_unat_eq_iff)
    have "set (p # xs) = {x. aligned x \<and> kend s \<le> x \<and> x < p + PGSIZE}"
      using Suc.prems(3,4,6) al by auto
    with Suc.IH [OF m(2), of "p + PGSIZE"] Suc.prems True inb u step i
    have "\<exists>s' ys. freerange_loop k (p + PGSIZE) PHYSTOP (s\<lparr>pmem := m, freelist := p\<rparr>) = Inr s' \<and>
        free_pages s' ys \<and> set ys = {x. ram_page s x}"
      by (auto simp: aligned_unat word_le_nat_alt unat_sub ram_page_def)
    with m(1) inb True show ?thesis by simp
  next
    case False
    then have "p = PHYSTOP" using ip i by (simp add: word_unat_eq_iff)
    with Suc.prems False inb show ?thesis by (auto simp: ram_page_def)
  qed
qed simp

lemma kinit_ok:
  assumes "freelist s = 0" "KmemLock \<notin> held s" "0 < kend s" "kend s \<le> PHYSTOP"
  shows "\<exists>s' xs. kinit s = Inr s' \<and> free_pages s' xs \<and> set xs = {x. ram_page s x}"
proof -
  let ?p = "PGROUNDUP (kend s)"
  have k: "unat (kend s) \<le> 2281701376" using assms(4) by (simp add: word_le_nat_alt)
  then have p: "unat ?p = (unat (kend s) + 4095) div 4096 * 4096" by (simp add: unat_PGROUNDUP)
  have "free_pages s []" using assms by (simp add: free_pages_def)
  moreover have "aligned ?p" "kend s \<le> ?p" "?p \<le> PHYSTOP"
    using p k by (auto simp: aligned_unat word_le_nat_alt)
  moreover have "set [] = {x. aligned x \<and> kend s \<le> x \<and> x < ?p}"
    using p by (auto simp: aligned_unat word_le_nat_alt word_less_nat_alt)
  ultimately show ?thesis
    unfolding kinit_def freerange_def using assms(2) by (intro freerange_loop_ok) auto
qed

lemma free_pages_single:
  "free_pages \<lparr>held = {}, pmem = (\<lambda>_. 0), freelist = 0x87FFF000, kend = 0x87FFF000\<rparr> [0x87FFF000]"
proof -
  have "load64 (\<lambda>_. 0) 0x87FFF000 = 0" by (rule load64_zero)
  then show ?thesis
    by (simp add: free_pages_def ram_page_def aligned_unat PHYSTOP_def KERNBASE_def)
qed

section \<open>Properties\<close>

text \<open>
  C16. Starting from the zeroed free list of the kernel's bss, \<open>kinit\<close> returns without a panic
  and leaves on the free list, each exactly once, all the whole pages between the end of the
  kernel and \<open>PHYSTOP\<close>.
\<close>

theorem kinit_frees_all:
  assumes "freelist s = 0" "KmemLock \<notin> held s" "0 < kend s" "kend s \<le> PHYSTOP"
  shows "\<exists>s' xs. kinit s = Inr s' \<and> free_pages s' xs \<and> distinct xs \<and>
    set xs = {x. aligned x \<and> kend s \<le> x \<and> x < PHYSTOP}"
proof -
  obtain s' xs where "kinit s = Inr s'" "free_pages s' xs" "set xs = {x. ram_page s x}"
    using kinit_ok [OF assms] by blast
  then show ?thesis using pages.avail_pages unfolding ram_page_def by blast
qed

theorem kinit_frees_all_witness:
  "\<exists>s' xs. kinit \<lparr>held = {}, pmem = (\<lambda>_. 0), freelist = 0, kend = 0x87FFF000\<rparr> = Inr s' \<and>
    free_pages s' xs \<and> 0x87FFF000 \<in> set xs"
  using kinit_frees_all [of "\<lparr>held = {}, pmem = (\<lambda>_. 0), freelist = 0, kend = 0x87FFF000\<rparr>"]
  by (force simp: PHYSTOP_def KERNBASE_def aligned_unat)

text \<open>
  C17. As long as pages are free, consecutive calls of \<open>kalloc\<close> return distinct RAM pages, the
  first \<open>n\<close> of the free list, keep the rest of the list intact and change no byte outside the
  pages they return; one call more than there are pages returns 0.
\<close>

theorem kalloc_distinct_pages:
  assumes "free_pages s xs" "KmemLock \<notin> held s" "n \<le> length xs"
  shows "(\<exists>s'. alloc_n kalloc n s = Inr (take n xs, s') \<and> free_pages s' (drop n xs) \<and>
      held s' = held s \<and> agree_outside (set (take n xs)) (pmem s) (pmem s')) \<and>
    distinct (take n xs) \<and> (\<forall>x\<in>set (take n xs). ram_page s x) \<and>
    (\<exists>s'. alloc_n kalloc (Suc (length xs)) s = Inr (xs @ [0], s'))"
proof -
  have "distinct (take n xs) \<and> (\<forall>x\<in>set (take n xs). ram_page s x)"
    using pages.avail_pages [OF assms(1)] by (auto dest: in_set_takeD)
  moreover obtain s' where "alloc_n kalloc n s = Inr (take n xs, s')" "free_pages s' (drop n xs)"
      "agree_outside (set (take n xs)) (pmem s) (pmem s')"
    using pages.alloc_n_take [OF assms] by blast
  moreover have "held s' = held s" if "alloc_n kalloc n s = Inr (ps, s')" for s' ps
    using that by (rule alloc_n_held [OF assms(2)])
  ultimately show ?thesis using pages.alloc_n_exhaust [OF assms(1,2)] by blast
qed

theorem kalloc_distinct_pages_witness:
  "\<exists>s'. alloc_n kalloc 1 \<lparr>held = {}, pmem = (\<lambda>_. 0), freelist = 0x87FFF000, kend = 0x87FFF000\<rparr>
     = Inr ([0x87FFF000], s') \<and> free_pages s' []"
  using kalloc_distinct_pages [OF free_pages_single, of 1] by auto

text \<open>
  C18. Freeing a RAM page that is not free puts it at the head of the free list, changes no
  byte outside that page and makes it the result of the next \<open>kalloc\<close>; freeing any other
  address, one that is not page-aligned or lies outside the RAM behind the kernel, panics.
\<close>

theorem kfree_then_kalloc:
  assumes "free_pages s xs" "KmemLock \<notin> held s" "p \<notin> set xs"
  shows "if ram_page s p
    then \<exists>s1 s2. kfree p s = Inr s1 \<and> free_pages s1 (p # xs) \<and> agree_outside {p} (pmem s) (pmem s1) \<and>
      kalloc s1 = Inr (p, s2) \<and> free_pages s2 xs
    else kfree p s = Inl (Panic ''kfree'')"
proof (cases "ram_page s p")
  case True
  then obtain s1 where "kfree p s = Inr s1" "free_pages s1 (p # xs)" "KmemLock \<notin> held s1"
      "agree_outside {p} (pmem s) (pmem s1)"
    using pages.dealloc_page [OF assms(1,2)] assms(3) by blast
  moreover from this(2,3) obtain s2 where "kalloc s1 = Inr (p, s2)" "free_pages s2 xs"
    using pages.alloc_some by blast
  ultimately show ?thesis using True by auto
qed (simp add: kfree_bad)

theorem kfree_then_kalloc_witness:
  "kfree 0x87FFF001 \<lparr>held = {}, pmem = (\<lambda>_. 0), freelist = 0x87FFF000, kend = 0x87FFF000\<rparr>
     = Inl (Panic ''kfree'')"
  using kfree_then_kalloc [OF free_pages_single, where p = "0x87FFF001"]
  by (simp add: ram_page_def aligned_unat)

end
