(* ===== verification/Pagetable.thy ===== *)
theory Pagetable
  imports Kalloc
begin

text \<open>
  Page tables: the part of \<open>kernel/vm.c\<close> that walks and extends them, and \<open>proc_mapstacks\<close>
  of \<open>kernel/proc.c\<close>, which only maps. Page-table pages live in physical memory and are read
  and written as the code does it. The linker's symbols \<open>etext\<close> and \<open>trampoline\<close> are arguments.
  Loops carry fuel that their bounds make sufficient; \<open>Diverge\<close> is the result of running out
  of it. The lemmas view a table as a tree of pages and give, for \<open>walk\<close> and \<open>mappages\<close>, the
  leaf entry of every virtual address afterwards.
\<close>

section \<open>Walking and mapping\<close>

primrec walk_loop :: "nat \<Rightarrow> u64 \<Rightarrow> u64 \<Rightarrow> bool \<Rightarrow> 'a kmem_scheme \<Rightarrow> kerr + (u64 \<times> 'a kmem_scheme)" where
  "walk_loop 0 pagetable va alloc s = Inr (pagetable + 8 * PX 0 va, s)"
| "walk_loop (Suc level) pagetable va alloc s =
     (let pte = pagetable + 8 * PX (Suc level) va;
          e = load64 (pmem s) pte
      in if e AND PTE_V \<noteq> 0 then walk_loop level (PTE2PA e) va alloc s
         else if \<not> alloc then Inr (0, s)
         else bindr (kalloc s) (\<lambda>(page, s1).
           if page = 0 then Inr (0, s1)
           else let s2 = s1\<lparr>pmem := memset page 0 4096 (pmem s1)\<rparr>;
                    s3 = s2\<lparr>pmem := store64 pte (PA2PTE page OR PTE_V) (pmem s2)\<rparr>
                in walk_loop level page va alloc s3))"

definition walk :: "u64 \<Rightarrow> u64 \<Rightarrow> bool \<Rightarrow> 'a kmem_scheme \<Rightarrow> kerr + (u64 \<times> 'a kmem_scheme)" where
  "walk pagetable va alloc s =
     (if va \<ge> MAXVA then Inl (Panic ''walk'') else walk_loop 2 pagetable va alloc s)"

definition walkaddr :: "u64 \<Rightarrow> u64 \<Rightarrow> 'a kmem_scheme \<Rightarrow> kerr + (u64 \<times> 'a kmem_scheme)" where
  "walkaddr pagetable va s =
     (if va \<ge> MAXVA then Inr (0, s)
      else bindr (walk pagetable va False s) (\<lambda>(pte, s1).
        if pte = 0 then Inr (0, s1)
        else let e = load64 (pmem s1) pte in
          if e AND PTE_V = 0 then Inr (0, s1)
          else if e AND PTE_U = 0 then Inr (0, s1)
          else Inr (PTE2PA e, s1)))"

primrec mappages_loop ::
    "nat \<Rightarrow> u64 \<Rightarrow> u64 \<Rightarrow> u64 \<Rightarrow> u64 \<Rightarrow> u64 \<Rightarrow> 'a kmem_scheme \<Rightarrow> kerr + (int \<times> 'a kmem_scheme)" where
  "mappages_loop 0 pagetable a last_a pa perm s = Inl Diverge"
| "mappages_loop (Suc k) pagetable a last_a pa perm s =
     bindr (walk pagetable a True s) (\<lambda>(pte, s1).
     if pte = 0 then Inr (-1, s1)
     else if load64 (pmem s1) pte AND PTE_V \<noteq> 0 then Inl (Panic ''mappages: remap'')
     else let s2 = s1\<lparr>pmem := store64 pte (PA2PTE pa OR perm OR PTE_V) (pmem s1)\<rparr> in
       if a = last_a then Inr (0, s2)
       else mappages_loop k pagetable (a + PGSIZE) last_a (pa + PGSIZE) perm s2)"

definition mappages ::
    "u64 \<Rightarrow> u64 \<Rightarrow> u64 \<Rightarrow> u64 \<Rightarrow> u64 \<Rightarrow> 'a kmem_scheme \<Rightarrow> kerr + (int \<times> 'a kmem_scheme)" where
  "mappages pagetable va sz pa perm s =
     (if va mod PGSIZE \<noteq> 0 then Inl (Panic ''mappages: va not aligned'')
      else if sz mod PGSIZE \<noteq> 0 then Inl (Panic ''mappages: size not aligned'')
      else if sz = 0 then Inl (Panic ''mappages: size'')
      else mappages_loop (unat sz div 4096) pagetable va (va + sz - PGSIZE) pa perm s)"

definition kvmmap :: "u64 \<Rightarrow> u64 \<Rightarrow> u64 \<Rightarrow> u64 \<Rightarrow> u64 \<Rightarrow> 'a kmem_scheme \<Rightarrow> kerr + 'a kmem_scheme" where
  "kvmmap kpgtbl va pa sz perm s =
     bindr (mappages kpgtbl va sz pa perm s) (\<lambda>(r, s1).
     if r \<noteq> 0 then Inl (Panic ''kvmmap'') else Inr s1)"

primrec mapstacks_loop :: "nat \<Rightarrow> nat \<Rightarrow> u64 \<Rightarrow> 'a kmem_scheme \<Rightarrow> kerr + 'a kmem_scheme" where
  "mapstacks_loop 0 i kpgtbl s = Inr s"
| "mapstacks_loop (Suc k) i kpgtbl s =
     bindr (kalloc s) (\<lambda>(pa, s1).
     if pa = 0 then Inl (Panic ''kalloc'')
     else bindr (kvmmap kpgtbl (KSTACK (of_nat i)) pa PGSIZE (PTE_R OR PTE_W) s1)
       (mapstacks_loop k (i + 1) kpgtbl))"

definition NPROC :: nat where "NPROC = 64"

definition proc_mapstacks :: "u64 \<Rightarrow> 'a kmem_scheme \<Rightarrow> kerr + 'a kmem_scheme" where
  "proc_mapstacks kpgtbl s = mapstacks_loop NPROC 0 kpgtbl s"

definition kvmmake :: "u64 \<Rightarrow> u64 \<Rightarrow> 'a kmem_scheme \<Rightarrow> kerr + (u64 \<times> 'a kmem_scheme)" where
  "kvmmake etext trampoline s =
     bindr (kalloc s) (\<lambda>(kpgtbl, s0).
     if kpgtbl = 0 then Inl Fault else
     let s1 = s0\<lparr>pmem := memset kpgtbl 0 4096 (pmem s0)\<rparr> in
     bindr (kvmmap kpgtbl UART0 UART0 PGSIZE (PTE_R OR PTE_W) s1) (\<lambda>s2.
     bindr (kvmmap kpgtbl VIRTIO0 VIRTIO0 PGSIZE (PTE_R OR PTE_W) s2) (\<lambda>s3.
     bindr (kvmmap kpgtbl PLIC PLIC 0x4000000 (PTE_R OR PTE_W) s3) (\<lambda>s4.
     bindr (kvmmap kpgtbl KERNBASE KERNBASE (etext - KERNBASE) (PTE_R OR PTE_X) s4) (\<lambda>s5.
     bindr (kvmmap kpgtbl etext etext (PHYSTOP - etext) (PTE_R OR PTE_W) s5) (\<lambda>s6.
     bindr (kvmmap kpgtbl TRAMPOLINE trampoline PGSIZE (PTE_R OR PTE_X) s6) (\<lambda>s7.
     bindr (kvmmap kpgtbl 0x100000 0x100000 PGSIZE (PTE_R OR PTE_W) s7) (\<lambda>s8.
     let clint_mtime_page = 0x0200bff8 AND NOT 0xfff in
     bindr (kvmmap kpgtbl clint_mtime_page clint_mtime_page PGSIZE (PTE_R OR PTE_W) s8) (\<lambda>s9.
     bindr (proc_mapstacks kpgtbl s9) (\<lambda>s10. Inr (kpgtbl, s10)))))))))))"

section \<open>Entries and indices\<close>

lemma and_PTE_V: "e AND PTE_V \<noteq> 0 \<longleftrightarrow> bit e 0"
  by (simp add: PTE_V_def bit_iff_and_push_bit_not_eq_0)

lemma bit_beyond_u64: "unat (x :: u64) < 2 ^ n \<Longrightarrow> n \<le> k \<Longrightarrow> \<not> bit x k"
proof -
  assume a: "unat x < 2 ^ n" "n \<le> k"
  then have "unat x < 2 ^ k" by (meson less_le_trans power_increasing one_le_numeral)
  then have "\<not> bit (unat x) k" by (simp add: bit_iff_odd)
  then show "\<not> bit x k" using bit_imp_le_length [of x k] by (auto simp: bit_unsigned_iff)
qed

lemma unat_drop_bit_u64: "unat (drop_bit n (x :: u64)) = unat x div 2 ^ n"
  by (subst unat_drop_bit_eq) (simp add: drop_bit_eq_div)

lemma unat_PX: "unat (PX level va) = unat va div 2 ^ (12 + 9 * level) mod 512"
proof -
  have "PX level va = take_bit 9 (drop_bit (PXSHIFT level) va)"
    by (simp add: PX_def take_bit_eq_mask mask_eq_exp_minus_1)
  then show ?thesis by (simp only: unat_take_bit_u64 unat_drop_bit_u64 PXSHIFT_def) simp
qed

lemma PX_less: "unat (PX level va) < 512"
  by (simp add: unat_PX)

lemma unat_MAXVA [simp]: "unat MAXVA = 2 ^ 38"
  by (simp add: MAXVA_def push_bit_eq_mult)

text \<open>The number of the page of an address.\<close>

definition pn :: "u64 \<Rightarrow> nat" where
  "pn va = unat va div 4096"

lemma pn_PX: "va < MAXVA \<Longrightarrow> pn va = unat (PX 2 va) * 262144 + unat (PX 1 va) * 512 + unat (PX 0 va)"
proof -
  assume "va < MAXVA"
  then have v: "unat va < 274877906944" by (simp add: word_less_nat_alt)
  define x where "x = unat va div 4096"
  have x: "x < 67108864" using v by (simp add: x_def div_less_iff_less_mult)
  have e: "unat (PX 0 va) = x mod 512" "unat (PX 1 va) = x div 512 mod 512" "unat (PX 2 va) = x div 262144 mod 512"
    by (simp_all add: unat_PX x_def div_mult2_eq [symmetric])
  have "x div 262144 mod 512 = x div 262144" using x by (intro mod_less) (simp add: div_less_iff_less_mult)
  moreover have "x div 262144 = x div 512 div 512" by (simp add: div_mult2_eq [symmetric])
  moreover have "x = x div 512 * 512 + x mod 512" by simp
  moreover have "x div 512 = x div 512 div 512 * 512 + x div 512 mod 512" by simp
  ultimately show ?thesis unfolding e pn_def x_def [symmetric] by linarith
qed

lemma PX_eq_iff:
  assumes "va < MAXVA" "vb < MAXVA"
  shows "PX 2 va = PX 2 vb \<and> PX 1 va = PX 1 vb \<and> PX 0 va = PX 0 vb \<longleftrightarrow> pn va = pn vb"
proof
  assume "pn va = pn vb"
  then have "unat (PX l va) = unat (PX l vb)" for l
    by (simp add: unat_PX pn_def power_add div_mult2_eq)
  then show "PX 2 va = PX 2 vb \<and> PX 1 va = PX 1 vb \<and> PX 0 va = PX 0 vb" by (simp add: word_unat_eq_iff)
qed (use assms in \<open>simp add: pn_PX\<close>)

text \<open>Round trip of addresses through page-table entries.\<close>

lemma PTE2PA_PA2PTE:
  assumes "aligned pa" "unat pa < 2 ^ 56" "unat fl < 1024"
  shows "PTE2PA (PA2PTE pa OR fl) = pa"
proof (rule bit_word_eqI)
  fix n :: nat assume n: "n < LENGTH(64)"
  have fl: "\<not> bit fl k" if "k \<ge> 10" for k
    using assms(3) bit_beyond_u64 [of fl 10 k] that by simp
  have hi: "\<not> bit pa k" if "k \<ge> 56" for k using bit_beyond_u64 [OF assms(2) that] .
  have "take_bit 12 pa = 0"
    using assms(1) by (simp add: aligned_unat word_unat_eq_iff unat_take_bit_u64)
  then have lo: "\<not> bit pa k" if "k < 12" for k using that by (metis bit_0_eq bit_take_bit_iff bot_apply bot_bool_def)
  show "bit (PTE2PA (PA2PTE pa OR fl)) n = bit pa n"
  proof (cases "n < 12")
    case False
    then obtain k where "n = 12 + k" using le_Suc_ex not_less by blast
    with n fl [of "10 + k"] hi [of n] show ?thesis
      by (auto simp: PTE2PA_def PA2PTE_def bit_simps)
  qed (simp add: lo PTE2PA_def bit_simps)
qed

section \<open>Page tables as trees\<close>

text \<open>\<open>ent m t i\<close> is entry \<open>i\<close> of the page-table page \<open>t\<close>. A path of at most two indices leads
  from the root to a page-table page, \<open>node m r\<close>, if every entry on it is valid. \<open>pte_of m r va\<close>
  is the leaf entry for \<open>va\<close>, or 0 if there is no level-0 page for it.\<close>

definition ent :: "mem \<Rightarrow> u64 \<Rightarrow> u64 \<Rightarrow> u64" where
  "ent m t i = load64 m (t + 8 * i)"

primrec node :: "mem \<Rightarrow> u64 \<Rightarrow> u64 list \<Rightarrow> u64 option" where
  "node m r [] = Some r"
| "node m r (i # is) = (if bit (ent m r i) 0 then node m (PTE2PA (ent m r i)) is else None)"

definition paths :: "u64 list set" where
  "paths = {p. length p \<le> 2 \<and> (\<forall>i\<in>set p. unat i < 512)}"

definition nodes :: "mem \<Rightarrow> u64 \<Rightarrow> u64 set" where
  "nodes m r = {t. \<exists>p\<in>paths. node m r p = Some t}"

definition pte_of :: "mem \<Rightarrow> u64 \<Rightarrow> u64 \<Rightarrow> u64" where
  "pte_of m r va = (case node m r [PX 2 va, PX 1 va] of None \<Rightarrow> 0 | Some t \<Rightarrow> ent m t (PX 0 va))"

text \<open>A table is well formed if its pages are pages of RAM and no page is reached by two
  paths; the invariant of the code adds that none of them is free.\<close>

definition pt_wf :: "'a kmem_scheme \<Rightarrow> u64 \<Rightarrow> bool" where
  "pt_wf s r \<longleftrightarrow> (\<forall>t\<in>nodes (pmem s) r. ram_page s t) \<and>
     (\<forall>p\<in>paths. \<forall>q\<in>paths. \<forall>t. node (pmem s) r p = Some t \<longrightarrow> node (pmem s) r q = Some t \<longrightarrow> p = q)"

definition vm_inv :: "'a kmem_scheme \<Rightarrow> u64 \<Rightarrow> u64 list \<Rightarrow> bool" where
  "vm_inv s r xs \<longleftrightarrow> free_pages s xs \<and> KmemLock \<notin> held s \<and> pt_wf s r \<and> nodes (pmem s) r \<inter> set xs = {}"

lemma node_append: "node m r (p @ q) = (case node m r p of None \<Rightarrow> None | Some t \<Rightarrow> node m t q)"
  by (induction p arbitrary: r) auto

lemma node_cong:
  assumes "\<And>p i q t. is = p @ i # q \<Longrightarrow> node m r p = Some t \<Longrightarrow> ent m' t i = ent m t i"
  shows "node m' r is = node m r is"
  using assms
proof (induction "is" arbitrary: r)
  case (Cons i "is")
  have e: "ent m' r i = ent m r i" using Cons.prems [of "[]" i "is" r] by simp
  have "node m' (PTE2PA (ent m r i)) is = node m (PTE2PA (ent m r i)) is" if "bit (ent m r i) 0"
  proof (rule Cons.IH)
    fix p j q t assume "is = p @ j # q" "node m (PTE2PA (ent m r i)) p = Some t"
    then show "ent m' t j = ent m t j" using Cons.prems [of "i # p" j q t] that by simp
  qed
  with e show ?case by simp
qed simp

lemma paths_prefix: "p @ q \<in> paths \<Longrightarrow> p \<in> paths"
  by (auto simp: paths_def)

lemma entry_addr:
  assumes "aligned t" "unat i < 512"
  shows "unat (t + 8 * i) = unat t + 8 * unat i" "PGROUNDDOWN (t + 8 * i) = t" "aligned8 (t + 8 * i)"
proof -
  obtain k where k: "unat t = 4096 * k" using assms(1) by (auto simp: aligned_unat)
  have k2: "k < 2 ^ 52" using unsigned_less [of t, where ?'a = nat] k by simp
  have e: "unat (8 * i) = 8 * unat i" using assms(2) by (simp add: unat_word_ariths)
  show a: "unat (t + 8 * i) = unat t + 8 * unat i" using k k2 assms(2) by (simp add: unat_word_ariths)
  show "PGROUNDDOWN (t + 8 * i) = t"
    unfolding word_unat_eq_iff unat_PGROUNDDOWN a k using assms(2) by simp
  show "aligned8 (t + 8 * i)" unfolding aligned8_def a k by simp
qed

lemma entry_addr_inj:
  assumes "aligned t" "unat i < 512" "aligned u" "unat j < 512" "t + 8 * i = u + 8 * j"
  shows "t = u \<and> i = j"
proof -
  have "t = u" using entry_addr(2) [OF assms(1,2)] entry_addr(2) [OF assms(3,4)] assms(5) by simp
  with entry_addr(1) [OF assms(1,2)] entry_addr(1) [OF assms(3,4)] assms(5) show ?thesis
    by (simp add: word_unat_eq_iff)
qed

lemma ent_store64:
  assumes "aligned t" "unat i < 512" "aligned u" "unat j < 512"
  shows "ent (store64 (t + 8 * i) v m) u j = (if t = u \<and> i = j then v else ent m u j)"
  unfolding ent_def using assms entry_addr_inj [OF assms]
  by (auto simp: load64_store64 entry_addr)

lemma ent_agree:
  assumes "agree_outside P m m'" "aligned t" "t \<notin> P" "unat i < 512"
  shows "ent m' t i = ent m t i"
  unfolding ent_def
proof (rule load64_cong)
  fix x assume "within (t + 8 * i) 8 x"
  from within_8_unique [OF entry_addr(3) [OF assms(2,4)] this]
  have "PGROUNDDOWN x = PGROUNDDOWN (t + 8 * i)"
    by (simp add: word_unat_eq_iff unat_PGROUNDDOWN div_8_512)
  then show "m' x = m x" using assms entry_addr(2) [OF assms(2,4)] by (simp add: agree_outside_def)
qed

lemma ent_zero_page:
  assumes "aligned t" "unat i < 512"
  shows "ent (memset t 0 4096 m) t i = 0"
proof -
  have "memset t 0 4096 m x = 0" if "within (t + 8 * i) 8 x" for x
  proof -
    from within_8_unique [OF entry_addr(3) [OF assms] that] have "PGROUNDDOWN x = PGROUNDDOWN (t + 8 * i)"
      by (simp add: word_unat_eq_iff unat_PGROUNDDOWN div_8_512)
    then show ?thesis using assms entry_addr(2) [OF assms] by (simp add: memset_closed within_page)
  qed
  then have "load64 (memset t 0 4096 m) (t + 8 * i) = load64 (\<lambda>_. 0) (t + 8 * i)" by (rule load64_cong)
  also have "\<dots> = 0" by (rule load64_zero)
  finally show ?thesis by (simp add: ent_def)
qed

lemma pt_wf_aligned: "pt_wf s r \<Longrightarrow> t \<in> nodes (pmem s) r \<Longrightarrow> aligned t"
  by (auto simp: pt_wf_def ram_page_def)

lemma nodes_I: "q \<in> paths \<Longrightarrow> node m r q = Some t \<Longrightarrow> t \<in> nodes m r"
  by (auto simp: nodes_def)

lemma path_index: "p @ i # q \<in> paths \<Longrightarrow> p \<in> paths \<and> unat i < 512"
  by (auto simp: paths_def)

lemma node_store64:
  assumes "pt_wf s r" "p \<in> paths" "node (pmem s) r p = Some t" "unat i < 512"
    and "q \<in> paths" "\<And>q'. q \<noteq> p @ i # q'"
  shows "node (store64 (t + 8 * i) v (pmem s)) r q = node (pmem s) r q"
proof (rule node_cong)
  fix p' j q' u assume q: "q = p' @ j # q'" "node (pmem s) r p' = Some u"
  have pj: "p' \<in> paths" "unat j < 512" using assms(5) q(1) path_index by auto
  have "\<not> (t = u \<and> i = j)" using assms(1,2,3,6) q pj unfolding pt_wf_def by metis
  then show "ent (store64 (t + 8 * i) v (pmem s)) u j = ent (pmem s) u j"
    using assms pj q(2) by (subst ent_store64) (auto intro: pt_wf_aligned nodes_I)
qed

lemma node_agree:
  assumes "pt_wf s r" "agree_outside P (pmem s) m'" "nodes (pmem s) r \<inter> P = {}" "q \<in> paths"
  shows "node m' r q = node (pmem s) r q"
proof (rule node_cong)
  fix p i q' t assume q: "q = p @ i # q'" "node (pmem s) r p = Some t"
  have p: "p \<in> paths" "unat i < 512" using assms(4) q(1) path_index by auto
  then have "t \<in> nodes (pmem s) r" using q(2) nodes_I by blast
  with assms p show "ent m' t i = ent (pmem s) t i"
    by (intro ent_agree) (auto intro: pt_wf_aligned)
qed

lemma PX_path: "[PX 2 va, PX 1 va] \<in> paths"
  by (simp add: paths_def PX_less)

lemma pte_of_agree:
  assumes "pt_wf s r" "agree_outside P (pmem s) m'" "nodes (pmem s) r \<inter> P = {}"
  shows "pte_of m' r va = pte_of (pmem s) r va"
proof (cases "node (pmem s) r [PX 2 va, PX 1 va]")
  case (Some t)
  then have t: "t \<in> nodes (pmem s) r" using PX_path nodes_I by blast
  then have "ent m' t (PX 0 va) = ent (pmem s) t (PX 0 va)"
    using assms PX_less by (intro ent_agree) (auto intro: pt_wf_aligned)
  with Some show ?thesis using node_agree [OF assms PX_path] by (simp add: pte_of_def)
qed (use node_agree [OF assms PX_path] in \<open>simp add: pte_of_def\<close>)

lemma pt_wf_cong:
  "(\<And>q. q \<in> paths \<Longrightarrow> node m' r q = node (pmem s) r q) \<Longrightarrow> pt_wf s r \<Longrightarrow>
   nodes m' r = nodes (pmem s) r \<and> pt_wf (s\<lparr>pmem := m'\<rparr>) r"
  by (auto simp: pt_wf_def nodes_def ram_page_def)

text \<open>Writing a leaf entry changes no page-table page and only that one leaf.\<close>

lemma leaf_store:
  fixes v :: u64
  assumes "pt_wf s r" "node (pmem s) r [PX 2 va, PX 1 va] = Some t"
  defines "m' \<equiv> store64 (t + 8 * PX 0 va) v (pmem s)"
  shows "q \<in> paths \<Longrightarrow> node m' r q = node (pmem s) r q"
    and "\<lbrakk>va < MAXVA; vb < MAXVA\<rbrakk> \<Longrightarrow> pte_of m' r vb = (if pn va = pn vb then v else pte_of (pmem s) r vb)"
    and "agree_outside {t} (pmem s) m'"
proof -
  have t: "t \<in> nodes (pmem s) r" "aligned t" using assms PX_path nodes_I pt_wf_aligned by blast+
  show n: "node m' r q = node (pmem s) r q" if "q \<in> paths" for q
    unfolding m'_def by (rule node_store64 [OF assms(1) PX_path assms(2) PX_less that])
      (use that in \<open>auto simp: paths_def\<close>)
  show "agree_outside {t} (pmem s) m'"
    unfolding m'_def using t entry_addr PX_less by (intro agree_outside_store64) auto
  assume v: "va < MAXVA" "vb < MAXVA"
  show "pte_of m' r vb = (if pn va = pn vb then v else pte_of (pmem s) r vb)"
  proof (cases "node (pmem s) r [PX 2 vb, PX 1 vb]")
    case None
    then have "pn va \<noteq> pn vb" using assms(2) PX_eq_iff [OF v] by (metis option.distinct(1))
    with None n [OF PX_path] show ?thesis by (simp add: pte_of_def)
  next
    case (Some u)
    then have u: "aligned u" using assms(1) PX_path nodes_I pt_wf_aligned by blast
    have "t = u \<and> PX 0 va = PX 0 vb \<longleftrightarrow> pn va = pn vb"
      using assms(1,2) Some PX_path PX_eq_iff [OF v] unfolding pt_wf_def
      by (metis list.inject option.inject)
    with Some n [OF PX_path] show ?thesis
      unfolding pte_of_def m'_def by (simp add: ent_store64 t u PX_less)
  qed
qed

text \<open>Hanging a zeroed free page into an invalid entry adds exactly that page to the table
  and changes no leaf.\<close>

lemma node_extend:
  fixes s :: "'a kmem_scheme"
  assumes wf: "pt_wf s r" and p: "p \<in> paths" "length p < 2" "node (pmem s) r p = Some t"
    and i: "unat i < 512" "\<not> bit (ent (pmem s) t i) 0"
    and x: "ram_page s x" "x \<notin> nodes (pmem s) r" "agree_outside {x} (pmem s) m"
  defines "m1 \<equiv> memset x 0 4096 m"
  defines "m2 \<equiv> store64 (t + 8 * i) (PA2PTE x OR PTE_V) m1"
  assumes q: "q \<in> paths"
  shows "node m2 r q = (if q = p @ [i] then Some x else node (pmem s) r q)"
proof -
  have ax: "aligned x" and ux: "unat x < 2 ^ 56" using x(1) by (auto simp: ram_page_def word_less_nat_alt)
  have ag: "agree_outside {x} (pmem s) m1"
    unfolding m1_def using x(3) agree_outside_memset [OF ax] by (rule agree_outside_trans)
  have n1: "node m1 r q = node (pmem s) r q" if "q \<in> paths" for q
    using node_agree [OF wf ag _ that] x(2) by simp
  have wf1: "pt_wf (s\<lparr>pmem := m1\<rparr>) r" using pt_wf_cong [OF n1 wf] by simp
  have n2: "node m2 r q = node m1 r q" if "q \<in> paths" "\<And>q'. q \<noteq> p @ i # q'" for q
    using node_store64 [OF wf1 p(1) _ i(1) that, of t] n1 [OF p(1)] p(3) by (simp add: m2_def)
  show ?thesis
  proof (cases "\<exists>q'. q = p @ i # q'")
    case False
    then show ?thesis using n2 [OF q] n1 [OF q] by auto
  next
    case True
    then obtain q' where q': "q = p @ i # q'" by blast
    have t: "t \<in> nodes (pmem s) r" "aligned t" using p nodes_I pt_wf_aligned wf by blast+
    then have tx: "t \<noteq> x" using x(2) by blast
    have "node m2 r p = Some t" using n2 [OF p(1)] n1 [OF p(1)] p(3) by simp
    moreover have e: "ent m2 t i = PA2PTE x OR PTE_V" by (simp add: m2_def ent_store64 t i)
    moreover have "PTE2PA (PA2PTE x OR PTE_V) = x"
      by (rule PTE2PA_PA2PTE [OF ax ux]) (simp add: PTE_V_def)
    moreover have "bit (PA2PTE x OR PTE_V) 0" by (simp add: PTE_V_def bit_simps)
    ultimately have "node m2 r q = node m2 x q'" by (simp add: q' node_append)
    moreover have "node m2 x q' = None" if ne: "q' \<noteq> []"
    proof -
      obtain j q'' where j: "q' = j # q''" using ne by (cases q') auto
      then have "unat j < 512" using q q' by (auto simp: paths_def)
      then have "ent m2 x j = 0"
        unfolding m2_def m1_def using ax t tx i(1) by (simp add: ent_store64 ent_zero_page)
      then show ?thesis by (simp add: j)
    qed
    moreover have "node (pmem s) r q = None" using p(3) i(2) by (simp add: q' node_append)
    ultimately show ?thesis using q' by (cases "q' = []") auto
  qed
qed

lemma nodes_extend:
  assumes "pt_wf s r" "p \<in> paths" "length p < 2" "node (pmem s) r p = Some t" "unat i < 512"
    and x: "ram_page s x" "x \<notin> nodes (pmem s) r"
    and n: "\<And>q. q \<in> paths \<Longrightarrow> node m2 r q = (if q = p @ [i] then Some x else node (pmem s) r q)"
    and None: "node (pmem s) r (p @ [i]) = None"
  shows "nodes m2 r = insert x (nodes (pmem s) r) \<and> pt_wf (s\<lparr>pmem := m2\<rparr>) r"
proof
  have pi: "p @ [i] \<in> paths" using assms(2,3,5) by (auto simp: paths_def)
  show ns: "nodes m2 r = insert x (nodes (pmem s) r)"
  proof
    show "nodes m2 r \<subseteq> insert x (nodes (pmem s) r)" by (auto simp: nodes_def n split: if_splits)
    have "x \<in> nodes m2 r" using pi n [OF pi] by (auto intro: nodes_I)
    moreover have "u \<in> nodes m2 r" if u: "u \<in> nodes (pmem s) r" for u
    proof -
      obtain q where "q \<in> paths" "node (pmem s) r q = Some u" using u by (auto simp: nodes_def)
      with n [of q] None show ?thesis by (auto intro: nodes_I split: if_splits)
    qed
    ultimately show "insert x (nodes (pmem s) r) \<subseteq> nodes m2 r" by blast
  qed
  have "q = q'" if "q \<in> paths" "q' \<in> paths" "node m2 r q = Some u" "node m2 r q' = Some u" for q q' u
  proof -
    have "node (pmem s) r q' \<noteq> Some x" "node (pmem s) r q \<noteq> Some x"
      using x(2) nodes_I [OF that(1)] nodes_I [OF that(2)] by blast+
    moreover have "q = q'" if "node (pmem s) r q = Some u" "node (pmem s) r q' = Some u"
      using that assms(1) \<open>q \<in> paths\<close> \<open>q' \<in> paths\<close> unfolding pt_wf_def by blast
    ultimately show ?thesis using that n [OF that(1)] n [OF that(2)] by (simp split: if_splits)
  qed
  then show "pt_wf (s\<lparr>pmem := m2\<rparr>) r" unfolding pt_wf_def
    using assms(1) x ns by (auto simp: pt_wf_def ram_page_def)
qed

lemma pte_of_extend:
  fixes v :: u64
  assumes "ram_page s x" "x \<notin> nodes (pmem s) r" "t \<in> nodes (pmem s) r" "pt_wf s r" "unat i < 512"
    and "agree_outside {x} (pmem s) m" "length p < 2" "node (pmem s) r p = Some t" "p \<in> paths"
  defines "m2 \<equiv> store64 (t + 8 * i) v (memset x 0 4096 m)"
  assumes n: "\<And>q. q \<in> paths \<Longrightarrow> node m2 r q = (if q = p @ [i] then Some x else node (pmem s) r q)"
    and None: "node (pmem s) r (p @ [i]) = None"
  shows "pte_of m2 r va = pte_of (pmem s) r va"
proof -
  let ?q = "[PX 2 va, PX 1 va]"
  have ax: "aligned x" using assms(1) by (simp add: ram_page_def)
  have at: "aligned t" using assms(3,4) pt_wf_aligned by blast
  have ex: "ent m2 x j = 0" if "unat j < 512" for j
    unfolding m2_def using that ax at assms(2,3,5) by (auto simp: ent_store64 ent_zero_page)
  have eu: "ent m2 u (PX 0 va) = ent (pmem s) u (PX 0 va)" if u: "node (pmem s) r ?q = Some u" for u
  proof -
    have un: "u \<in> nodes (pmem s) r" using u PX_path nodes_I by blast
    have "p \<noteq> ?q" using assms(7) by auto
    then have "u \<noteq> t" using u assms(4,8,9) PX_path unfolding pt_wf_def by blast
    moreover have "aligned u" "u \<noteq> x" using un assms(2,4) pt_wf_aligned by blast+
    moreover have "ent (memset x 0 4096 m) u (PX 0 va) = ent (pmem s) u (PX 0 va)"
      using ent_agree [OF agree_outside_trans [OF assms(6) agree_outside_memset [OF ax]]] calculation PX_less
      by simp
    ultimately show ?thesis
      unfolding m2_def using at assms(5) PX_less by (simp add: ent_store64)
  qed
  show ?thesis
  proof (cases "?q = p @ [i]")
    case True
    have "node m2 r ?q = Some x" using n [OF PX_path, of va] by (simp only: True if_True simp_thms)
    moreover have "node (pmem s) r ?q = None" unfolding True by (rule None)
    ultimately show ?thesis using ex [OF PX_less] by (simp add: pte_of_def del: node.simps)
  next
    case False
    then have "node m2 r ?q = node (pmem s) r ?q" by (simp only: n [OF PX_path] if_False)
    then show ?thesis using eu by (simp add: pte_of_def del: node.simps split: option.split)
  qed
qed

lemma agree_outside_Un:
  "agree_outside P m m' \<Longrightarrow> agree_outside Q m' m'' \<Longrightarrow> agree_outside (P \<union> Q) m m''"
  by (simp add: agree_outside_def)

section \<open>Walking\<close>

text \<open>\<open>vm_ext r s xs s' xs'\<close>: going from \<open>s\<close> to \<open>s'\<close> the table at \<open>r\<close> may have got pages from the
  free list; the invariant holds again, and memory outside the table and the free pages is
  untouched.\<close>

definition vm_ext :: "u64 \<Rightarrow> 'a kmem_scheme \<Rightarrow> u64 list \<Rightarrow> 'a kmem_scheme \<Rightarrow> u64 list \<Rightarrow> bool" where
  "vm_ext r s xs s' xs' \<longleftrightarrow> vm_inv s' r xs' \<and> (\<exists>n. xs' = drop n xs) \<and>
     (\<exists>m f. s' = s\<lparr>pmem := m, freelist := f\<rparr>) \<and>
     agree_outside (nodes (pmem s) r \<union> set xs) (pmem s) (pmem s') \<and>
     nodes (pmem s) r \<subseteq> nodes (pmem s') r \<and>
     nodes (pmem s') r \<subseteq> nodes (pmem s) r \<union> (set xs - set xs')"

lemma vm_extD:
  assumes "vm_ext r s xs s' xs'"
  shows "vm_inv s' r xs'" "\<exists>n. xs' = drop n xs" "\<exists>m f. s' = s\<lparr>pmem := m, freelist := f\<rparr>"
    "agree_outside (nodes (pmem s) r \<union> set xs) (pmem s) (pmem s')"
    "nodes (pmem s) r \<subseteq> nodes (pmem s') r"
    "nodes (pmem s') r \<subseteq> nodes (pmem s) r \<union> (set xs - set xs')" "set xs' \<subseteq> set xs"
proof -
  from assms show "vm_inv s' r xs'" "\<exists>n. xs' = drop n xs" "\<exists>m f. s' = s\<lparr>pmem := m, freelist := f\<rparr>"
    "agree_outside (nodes (pmem s) r \<union> set xs) (pmem s) (pmem s')"
    "nodes (pmem s) r \<subseteq> nodes (pmem s') r"
    "nodes (pmem s') r \<subseteq> nodes (pmem s) r \<union> (set xs - set xs')"
    unfolding vm_ext_def by iprover+
  from this(2) show "set xs' \<subseteq> set xs" by (auto dest: in_set_dropD)
qed

lemma vm_extI:
  assumes "vm_inv s' r xs'" "xs' = drop n xs" "s' = s\<lparr>pmem := m, freelist := f\<rparr>"
    "agree_outside (nodes (pmem s) r \<union> set xs) (pmem s) (pmem s')"
    "nodes (pmem s) r \<subseteq> nodes (pmem s') r" "nodes (pmem s') r \<subseteq> nodes (pmem s) r \<union> (set xs - set xs')"
  shows "vm_ext r s xs s' xs'"
proof -
  have "\<exists>n. xs' = drop n xs" using assms(2) by (rule exI)
  moreover have "\<exists>m f. s' = s\<lparr>pmem := m, freelist := f\<rparr>" using assms(3) by (intro exI)
  ultimately show ?thesis unfolding vm_ext_def using assms(1,4-6) by (intro conjI)
qed

lemma vm_ext_refl: "vm_inv s r xs \<Longrightarrow> vm_ext r s xs s xs"
  by (rule vm_extI [where n = 0 and m = "pmem s" and f = "freelist s"]) simp_all

lemma vm_ext_trans:
  assumes "vm_ext r s xs s1 xs1" "vm_ext r s1 xs1 s2 xs2"
  shows "vm_ext r s xs s2 xs2"
proof -
  note a = vm_extD [OF assms(1)] and b = vm_extD [OF assms(2)]
  obtain k n where "xs1 = drop k xs" "xs2 = drop n xs1" using a(2) b(2) by blast
  then have xs2: "xs2 = drop (n + k) xs" by simp
  obtain m f m' f' where "s1 = s\<lparr>pmem := m, freelist := f\<rparr>" "s2 = s1\<lparr>pmem := m', freelist := f'\<rparr>"
    using a(3) b(3) by blast
  then have s2: "s2 = s\<lparr>pmem := m', freelist := f'\<rparr>" by simp
  have "nodes (pmem s1) r \<union> set xs1 \<subseteq> nodes (pmem s) r \<union> set xs" using a(6,7) by blast
  from agree_outside_trans [OF a(4) agree_outside_mono [OF b(4) this]]
  show ?thesis by (rule vm_extI [OF b(1) xs2 s2]) (use a(5-7) b(5-7) in blast)+
qed

lemma walk_extend:
  fixes s :: "'a kmem_scheme"
  assumes inv: "vm_inv s r (x # xs)" and p: "p \<in> paths" "length p < 2" "node (pmem s) r p = Some t"
    and i: "unat i < 512" "\<not> bit (ent (pmem s) t i) 0"
  defines "m2 \<equiv> store64 (t + 8 * i) (PA2PTE x OR PTE_V) (memset x 0 4096 (memset x 5 4096 (pmem s)))"
  defines "s2 \<equiv> s\<lparr>freelist := load64 (pmem s) x, pmem := m2\<rparr>"
  shows "vm_ext r s (x # xs) s2 xs \<and> pte_of m2 r va = pte_of (pmem s) r va \<and> node m2 r (p @ [i]) = Some x"
proof -
  have wf: "pt_wf s r" and fp: "free_pages s (x # xs)" and hl: "KmemLock \<notin> held s"
    and dj: "nodes (pmem s) r \<inter> set (x # xs) = {}" using inv by (auto simp: vm_inv_def)
  have x: "ram_page s x" "x \<notin> nodes (pmem s) r" "aligned x" "x \<notin> set xs"
    using fp dj by (auto simp: free_pages_def ram_page_def)
  have t: "t \<in> nodes (pmem s) r" "aligned t" using p nodes_I pt_wf_aligned [OF wf] by blast+
  have ag: "agree_outside {x} (pmem s) (memset x 5 4096 (pmem s))" using x(3) by (rule agree_outside_memset)
  have pi: "p @ [i] \<in> paths" using p(1,2) i(1) by (auto simp: paths_def)
  have None: "node (pmem s) r (p @ [i]) = None" using p(3) i(2) by (simp add: node_append)
  note n = node_extend [OF wf p i x(1,2) ag, folded m2_def]
  have ns: "nodes m2 r = insert x (nodes (pmem s) r)" "pt_wf (s\<lparr>pmem := m2\<rparr>) r"
    using nodes_extend [OF wf p i(1) x(1,2) n None] by simp_all
  have agm: "agree_outside ({x} \<union> {t}) (pmem s) m2"
    unfolding m2_def
    by (rule agree_outside_Un [OF agree_outside_trans [OF ag agree_outside_memset [OF x(3)]]
          agree_outside_store64 [OF entry_addr(2,3) [OF t(2) i(1)]]])
  have fl: "flist m2 (load64 (pmem s) x) xs"
    using fp t dj x(4) by (intro flist_agree [OF _ agm]) (auto simp: free_pages_def ram_page_def)
  have "free_pages s2 xs" using fp fl by (simp add: free_pages_def s2_def ram_page_def)
  then have "vm_inv s2 r xs" using ns dj hl x(4) by (auto simp: vm_inv_def s2_def pt_wf_def ram_page_def)
  moreover have "agree_outside (nodes (pmem s) r \<union> set (x # xs)) (pmem s) m2"
    using t(1) by (intro agree_outside_mono [OF agm]) auto
  moreover have "xs = drop 1 (x # xs)" "s2 = s\<lparr>pmem := m2, freelist := load64 (pmem s) x\<rparr>"
    "pmem s2 = m2" by (simp_all add: s2_def)
  moreover have "nodes (pmem s) r \<subseteq> nodes m2 r" "nodes m2 r \<subseteq> nodes (pmem s) r \<union> (set (x # xs) - set xs)"
    using ns(1) x(4) by auto
  ultimately have "vm_ext r s (x # xs) s2 xs"
    by (intro vm_extI [where n = 1 and m = m2 and f = "load64 (pmem s) x"]) simp_all
  moreover have "pte_of m2 r va = pte_of (pmem s) r va"
    unfolding m2_def by (rule pte_of_extend [OF x(1,2) t(1) wf i(1) ag p(2,3,1) n [unfolded m2_def] None])
  ultimately show ?thesis using n [OF pi] by simp
qed

lemma walk_loop_alloc:
  assumes "vm_inv s r xs" "p @ q = [PX 2 va, PX 1 va]" "length q = l" "node (pmem s) r p = Some t"
  shows "\<exists>a s' xs'. walk_loop l t va True s = Inr (a, s') \<and> vm_ext r s xs s' xs' \<and>
    (\<forall>vb. pte_of (pmem s') r vb = pte_of (pmem s) r vb) \<and>
    (a = 0 \<and> xs' = [] \<or> (\<exists>u. node (pmem s') r [PX 2 va, PX 1 va] = Some u \<and> a = u + 8 * PX 0 va)) \<and>
    length xs \<le> length xs' + l"
  using assms
proof (induction l arbitrary: s xs p q t)
  case 0
  then show ?case using vm_ext_refl [OF 0(1)] by (auto simp del: node.simps)
next
  case (Suc l)
  define i where "i = PX (Suc l) va"
  obtain q' where q: "q = i # q'" "length q' = l" and l: "length p < 2"
    using Suc.prems(2,3) by (cases q; cases p; cases "tl p") (auto simp: i_def numeral_2_eq_2 Cons_eq_append_conv)
  have p: "p \<in> paths" "(p @ [i]) @ q' = [PX 2 va, PX 1 va]"
    using PX_path [of va] Suc.prems(2) q(1) paths_prefix [of p q] by auto
  have i: "unat i < 512" by (simp add: i_def PX_less)
  have e: "load64 (pmem s) (t + 8 * PX (Suc l) va) = ent (pmem s) t i" by (simp add: ent_def i_def)
  show ?case
  proof (cases "bit (ent (pmem s) t i) 0")
    case True
    then have "node (pmem s) r (p @ [i]) = Some (PTE2PA (ent (pmem s) t i))"
      using Suc.prems(4) by (simp add: node_append)
    from Suc.IH [OF Suc.prems(1) p(2) q(2) this]
    obtain a s' xs' where W: "walk_loop l (PTE2PA (ent (pmem s) t i)) va True s = Inr (a, s')"
      "vm_ext r s xs s' xs'" "\<forall>vb. pte_of (pmem s') r vb = pte_of (pmem s) r vb"
      "a = 0 \<and> xs' = [] \<or> (\<exists>u. node (pmem s') r [PX 2 va, PX 1 va] = Some u \<and> a = u + 8 * PX 0 va)"
      "length xs \<le> length xs' + l"
      by blast
    have "walk_loop (Suc l) t va True s = Inr (a, s')"
      using True W(1) by (simp add: e and_PTE_V Let_def)
    moreover have "length xs \<le> length xs' + Suc l" using W(5) by simp
    ultimately show ?thesis using W(2-4) by blast
  next
    case False
    show ?thesis
    proof (cases xs)
      case Nil
      then have "kalloc s = Inr (0, s)" using Suc.prems(1) pages.alloc_none unfolding vm_inv_def by blast
      with False Nil show ?thesis using vm_ext_refl [OF Suc.prems(1)] by (auto simp: e and_PTE_V Let_def)
    next
      case (Cons x ys)
      note inv = Suc.prems(1) [unfolded Cons]
      let ?m = "store64 (t + 8 * i) (PA2PTE x OR PTE_V) (memset x 0 4096 (memset x 5 4096 (pmem s)))"
      let ?s = "s\<lparr>freelist := load64 (pmem s) x, pmem := ?m\<rparr>"
      have x: "x \<noteq> 0" "kalloc s = Inr (x, s\<lparr>pmem := memset x 5 4096 (pmem s), freelist := load64 (pmem s) x\<rparr>)"
        using inv kalloc_Cons(1) by (auto simp: vm_inv_def free_pages_def)
      note w = walk_extend [OF inv p(1) l Suc.prems(4) i False]
      have ext: "vm_ext r s xs ?s ys" using w Cons by simp
      have "node (pmem ?s) r (p @ [i]) = Some x" using w by simp
      from Suc.IH [OF vm_extD(1) [OF ext] p(2) q(2) this]
      obtain a s' xs' where W: "walk_loop l x va True ?s = Inr (a, s')" "vm_ext r ?s ys s' xs'"
        "\<forall>vb. pte_of (pmem s') r vb = pte_of (pmem ?s) r vb"
        "a = 0 \<and> xs' = [] \<or> (\<exists>u. node (pmem s') r [PX 2 va, PX 1 va] = Some u \<and> a = u + 8 * PX 0 va)"
        "length ys \<le> length xs' + l"
        by blast
      have "walk_loop (Suc l) t va True s = Inr (a, s')"
        using False x W(1) by (simp add: e and_PTE_V Let_def i_def)
      moreover have "\<forall>vb. pte_of (pmem s') r vb = pte_of (pmem s) r vb" using w W(3) by simp
      moreover have "length xs \<le> length xs' + Suc l" using W(5) Cons by simp
      ultimately show ?thesis using vm_ext_trans [OF ext W(2)] W(4) by blast
    qed
  qed
qed

lemma walk_alloc:
  assumes "vm_inv s r xs" "va < MAXVA"
  shows "\<exists>a s' xs'. walk r va True s = Inr (a, s') \<and> vm_ext r s xs s' xs' \<and>
    (\<forall>vb. pte_of (pmem s') r vb = pte_of (pmem s) r vb) \<and>
    (a = 0 \<and> xs' = [] \<or> (\<exists>u. node (pmem s') r [PX 2 va, PX 1 va] = Some u \<and> a = u + 8 * PX 0 va)) \<and>
    length xs \<le> length xs' + 2"
  using walk_loop_alloc [OF assms(1), of "[]" "[PX 2 va, PX 1 va]" va 2 r] assms(2)
  by (simp add: walk_def del: walk_loop.simps)

lemma walk_read:
  "va < MAXVA \<Longrightarrow> walk r va False s =
    Inr (case node (pmem s) r [PX 2 va, PX 1 va] of None \<Rightarrow> 0 | Some t \<Rightarrow> t + 8 * PX 0 va, s)"
  by (simp add: walk_def numeral_2_eq_2 and_PTE_V Let_def ent_def)
section \<open>Mapping\<close>

lemma leaf_store_ext:
  assumes inv: "vm_inv s r xs" and n: "node (pmem s) r [PX 2 va, PX 1 va] = Some t"
  shows "vm_ext r s xs (s\<lparr>pmem := store64 (t + 8 * PX 0 va) v (pmem s)\<rparr>) xs"
proof -
  let ?m = "store64 (t + 8 * PX 0 va) v (pmem s)"
  have wf: "pt_wf s r" and fp: "free_pages s xs" and dj: "nodes (pmem s) r \<inter> set xs = {}"
    and hl: "KmemLock \<notin> held s" using inv by (auto simp: vm_inv_def)
  have t: "t \<in> nodes (pmem s) r" using n PX_path nodes_I by blast
  have ag: "agree_outside {t} (pmem s) ?m" by (rule leaf_store(3) [OF wf n])
  have ns: "nodes ?m r = nodes (pmem s) r" "pt_wf (s\<lparr>pmem := ?m\<rparr>) r"
    using pt_wf_cong [OF leaf_store(1) [OF wf n] wf] by blast+
  have "flist ?m (freelist s) xs"
    using fp t dj by (intro flist_agree [OF _ ag]) (auto simp: free_pages_def ram_page_def)
  then have "vm_inv (s\<lparr>pmem := ?m\<rparr>) r xs"
    using fp dj hl ns by (simp add: vm_inv_def free_pages_def ram_page_def)
  moreover have "agree_outside (nodes (pmem s) r \<union> set xs) (pmem s) ?m"
    using t by (intro agree_outside_mono [OF ag]) auto
  ultimately show ?thesis
    by (intro vm_extI [where n = 0 and m = ?m and f = "freelist s"]) (simp_all add: ns)
qed

lemma entry_nonzero:
  assumes "vm_inv s r xs" "node (pmem s) r [PX 2 va, PX 1 va] = Some t"
  shows "t + 8 * PX 0 va \<noteq> 0"
proof -
  have "t \<in> nodes (pmem s) r" using assms(2) PX_path nodes_I by blast
  then have "ram_page s t" "free_pages s xs" using assms(1) by (auto simp: vm_inv_def pt_wf_def)
  then have "t \<noteq> 0" "aligned t" using ram_page_nonzero by (auto simp: ram_page_def)
  then show ?thesis using entry_addr(1) [OF _ PX_less, of t 0 va] by (auto simp: word_unat_eq_iff)
qed

lemma pn_step:
  assumes "unat a + 4096 < 2 ^ 64"
  shows "pn (a + PGSIZE) = pn a + 1" "unat (a + PGSIZE) = unat a + 4096"
proof -
  show u: "unat (a + PGSIZE) = unat a + 4096" using assms by (simp add: unat_word_ariths)
  show "pn (a + PGSIZE) = pn a + 1" unfolding pn_def u by simp
qed

text \<open>The leaf that mapping the pages from \<open>a\<close> on to \<open>pa\<close> gives page number \<open>i\<close>.\<close>

definition leaf_pte :: "u64 \<Rightarrow> u64 \<Rightarrow> u64 \<Rightarrow> nat \<Rightarrow> u64" where
  "leaf_pte a pa perm i = PA2PTE (pa + of_nat (4096 * (i - pn a))) OR perm OR PTE_V"

lemma mappages_step:
  assumes "vm_inv s r xs" "a < MAXVA" "\<not> bit (pte_of (pmem s) r a) 0"
  obtains (full) s1 where "vm_ext r s xs s1 []" "length xs \<le> 2" "\<And>vb. pte_of (pmem s1) r vb = pte_of (pmem s) r vb"
      "\<And>k last_a. mappages_loop (Suc k) r a last_a pa perm s = Inr (-1, s1)"
  | (fits) s1 xs1 where "vm_ext r s xs s1 xs1" "length xs \<le> length xs1 + 2"
      "\<And>k last_a. mappages_loop (Suc k) r a last_a pa perm s =
         (if a = last_a then Inr (0, s1) else mappages_loop k r (a + PGSIZE) last_a (pa + PGSIZE) perm s1)"
      "\<And>vb. vb < MAXVA \<Longrightarrow> pte_of (pmem s1) r vb =
         (if pn a = pn vb then leaf_pte a pa perm (pn a) else pte_of (pmem s) r vb)"
proof -
  from walk_alloc [OF assms(1,2)] obtain pte s1 xs1 where w: "walk r a True s = Inr (pte, s1)"
    "vm_ext r s xs s1 xs1" "\<forall>vb. pte_of (pmem s1) r vb = pte_of (pmem s) r vb"
    "pte = 0 \<and> xs1 = [] \<or> (\<exists>u. node (pmem s1) r [PX 2 a, PX 1 a] = Some u \<and> pte = u + 8 * PX 0 a)"
    "length xs \<le> length xs1 + 2"
    by blast
  note inv1 = vm_extD(1) [OF w(2)]
  show thesis
  proof (cases "pte = 0")
    case True
    then have "xs1 = []" using w(4) entry_nonzero [OF inv1] by auto
    with True w show thesis by (intro full) auto
  next
    case False
    then obtain u where u: "node (pmem s1) r [PX 2 a, PX 1 a] = Some u" "pte = u + 8 * PX 0 a" using w(4) by blast
    have "load64 (pmem s1) pte = pte_of (pmem s) r a"
      unfolding w(3) [rule_format, symmetric] using u by (simp add: pte_of_def ent_def del: node.simps)
    then have nv: "load64 (pmem s1) pte AND PTE_V = 0" using assms(3) and_PTE_V by metis
    let ?v = "PA2PTE pa OR perm OR PTE_V"
    let ?s2 = "s1\<lparr>pmem := store64 pte ?v (pmem s1)\<rparr>"
    have wf1: "pt_wf s1 r" using inv1 by (simp add: vm_inv_def)
    show thesis
    proof (rule fits)
      show "vm_ext r s xs ?s2 xs1" unfolding u(2) by (rule vm_ext_trans [OF w(2) leaf_store_ext [OF inv1 u(1)]])
      show "length xs \<le> length xs1 + 2" by (rule w(5))
      show "mappages_loop (Suc k) r a last_a pa perm s = (if a = last_a then Inr (0, ?s2)
          else mappages_loop k r (a + PGSIZE) last_a (pa + PGSIZE) perm ?s2)" for k last_a
        using False nv w(1) by (simp add: Let_def)
      show "pte_of (pmem ?s2) r vb = (if pn a = pn vb then leaf_pte a pa perm (pn a) else pte_of (pmem s) r vb)"
        if "vb < MAXVA" for vb
        using leaf_store(2) [OF wf1 u(1) assms(2) that, of ?v] w(3) by (simp add: u(2) leaf_pte_def)
    qed
  qed
qed

lemma leaf_pte_shift: "i > pn a \<Longrightarrow> pn b = pn a + 1 \<Longrightarrow> leaf_pte b (pa + PGSIZE) perm i = leaf_pte a pa perm i"
proof -
  assume a: "i > pn a" "pn b = pn a + 1"
  then have "4096 * (i - pn a) = 4096 + 4096 * (i - pn b)" by (simp add: algebra_simps)
  then have "(of_nat (4096 * (i - pn a)) :: u64) = PGSIZE + of_nat (4096 * (i - pn b))"
    by (simp only: of_nat_add) (simp add: PGSIZE_def)
  then show ?thesis by (simp add: leaf_pte_def algebra_simps)
qed

lemma last_page_iff:
  assumes "4096 * k < 2 ^ 64"
  shows "a = (a :: u64) + of_nat (4096 * k) \<longleftrightarrow> k = 0"
proof -
  have "(of_nat (4096 * k) :: u64) = 0 \<longleftrightarrow> 4096 * k = 0"
    using eq_of_nat_u64 [OF assms, of 0] by (metis unat_0)
  then show ?thesis by (simp del: of_nat_mult)
qed

lemma mappages_loop_ok:
  assumes "vm_inv s r xs" "unat a + 4096 * Suc k \<le> 2 ^ 38"
    and "\<And>vb. vb < MAXVA \<Longrightarrow> pn a \<le> pn vb \<Longrightarrow> pn vb \<le> pn a + k \<Longrightarrow> \<not> bit (pte_of (pmem s) r vb) 0"
  shows "\<exists>rv s' xs' j. mappages_loop (Suc k) r a (a + of_nat (4096 * k)) pa perm s = Inr (rv, s') \<and>
    vm_ext r s xs s' xs' \<and> (rv = 0 \<and> j = Suc k \<or> rv = -1 \<and> j \<le> k \<and> xs' = []) \<and>
    (\<forall>vb<MAXVA. pte_of (pmem s') r vb =
       (if pn a \<le> pn vb \<and> pn vb < pn a + j then leaf_pte a pa perm (pn vb) else pte_of (pmem s) r vb)) \<and>
    length xs \<le> length xs' + 2 * Suc k"
  using assms
proof (induction k arbitrary: s xs a pa)
  case 0
  have am: "a < MAXVA" using 0(2) by (simp add: word_less_nat_alt)
  have nb: "\<not> bit (pte_of (pmem s) r a) 0" using 0(3) [OF am] by simp
  from 0(1) am nb show ?case
  proof (rule mappages_step [where pa = pa and perm = perm], goal_cases)
    case (1 s1)
    then show ?case by (intro exI [of _ "-1"] exI [of _ s1] exI [of _ "[]"] exI [of _ 0]) auto
  next
    case (2 s1 xs1)
    then show ?case by (intro exI [of _ 0] exI [of _ s1] exI [of _ xs1] exI [of _ 1]) auto
  qed
next
  case (Suc k)
  have am: "a < MAXVA" using Suc.prems(2) by (simp add: word_less_nat_alt)
  let ?a = "a + PGSIZE" and ?l = "a + of_nat (4096 * Suc k)"
  have st: "pn ?a = pn a + 1" "unat ?a = unat a + 4096" using pn_step [of a] Suc.prems(2) by auto
  have l: "?l = ?a + of_nat (4096 * k)" by (simp add: PGSIZE_def algebra_simps)
  have ne: "a \<noteq> ?l" using last_page_iff [of "Suc k" a] Suc.prems(2) by simp
  have nb: "\<not> bit (pte_of (pmem s) r a) 0" using Suc.prems(3) [OF am] by simp
  from Suc.prems(1) am nb show ?case
  proof (rule mappages_step [where pa = pa and perm = perm], goal_cases)
    case (1 s1)
    then show ?case by (intro exI [of _ "-1"] exI [of _ s1] exI [of _ "[]"] exI [of _ 0]) auto
  next
    case (2 s1 xs1)
    have "\<not> bit (pte_of (pmem s1) r vb) 0" if "vb < MAXVA" "pn ?a \<le> pn vb" "pn vb \<le> pn ?a + k" for vb
      using that Suc.prems(3) [OF that(1)] 2(4) [OF that(1)] st by auto
    then obtain rv s' xs' j where R: "mappages_loop (Suc k) r ?a ?l (pa + PGSIZE) perm s1 = Inr (rv, s')"
      "vm_ext r s1 xs1 s' xs'" "rv = 0 \<and> j = Suc k \<or> rv = -1 \<and> j \<le> k \<and> xs' = []"
      "\<forall>vb<MAXVA. pte_of (pmem s') r vb = (if pn ?a \<le> pn vb \<and> pn vb < pn ?a + j
          then leaf_pte ?a (pa + PGSIZE) perm (pn vb) else pte_of (pmem s1) r vb)"
      "length xs1 \<le> length xs' + 2 * Suc k"
      using Suc.IH [OF vm_extD(1) [OF 2(1)], of ?a "pa + PGSIZE"] Suc.prems(2) st(2) unfolding l by auto
    have "pte_of (pmem s') r vb = (if pn a \<le> pn vb \<and> pn vb < pn a + Suc j
        then leaf_pte a pa perm (pn vb) else pte_of (pmem s) r vb)" if "vb < MAXVA" for vb
      using R(4) that 2(4) [OF that] st leaf_pte_shift [OF _ st(1)] by auto
    moreover have "mappages_loop (Suc (Suc k)) r a ?l pa perm s = Inr (rv, s')" using 2(3) ne R(1) by simp
    moreover have "length xs \<le> length xs' + 2 * Suc (Suc k)" using 2(2) R(5) by simp
    ultimately show ?case using vm_ext_trans [OF 2(1) R(2)] R(3)
      by (intro exI [of _ rv] exI [of _ s'] exI [of _ xs'] exI [of _ "Suc j"]) auto
  qed
qed
lemma walkaddr_eq:
  assumes "vm_inv s r xs"
  shows "walkaddr r va s = Inr (if va < MAXVA \<and> bit (pte_of (pmem s) r va) 0 \<and> bit (pte_of (pmem s) r va) 4
    then PTE2PA (pte_of (pmem s) r va) else 0, s)"
proof (cases "va < MAXVA")
  case True
  have u: "e AND PTE_U = 0 \<longleftrightarrow> \<not> bit e 4" for e :: u64
    by (simp add: PTE_U_def bit_iff_and_push_bit_not_eq_0)
  have v: "e AND PTE_V = 0 \<longleftrightarrow> \<not> bit e 0" for e :: u64 using and_PTE_V by metis
  show ?thesis
  proof (cases "node (pmem s) r [PX 2 va, PX 1 va]")
    case (Some t)
    from entry_nonzero [OF assms Some] Some True show ?thesis
      by (simp add: walkaddr_def walk_read pte_of_def ent_def u v Let_def not_le [THEN iffD2] del: node.simps)
  qed (use True in \<open>simp add: walkaddr_def walk_read pte_of_def del: node.simps\<close>)
qed (simp add: walkaddr_def flip: not_less)

lemma mappages_ok:
  assumes inv: "vm_inv s r xs" and al: "aligned va" "aligned sz" "sz \<noteq> 0" and hi: "unat va + unat sz \<le> 2 ^ 38"
    and fresh: "\<And>vb. vb < MAXVA \<Longrightarrow> pn va \<le> pn vb \<Longrightarrow> pn vb < pn va + pn sz \<Longrightarrow> \<not> bit (pte_of (pmem s) r vb) 0"
  shows "\<exists>rv s' xs' j. mappages r va sz pa perm s = Inr (rv, s') \<and>
    vm_ext r s xs s' xs' \<and> (rv = 0 \<and> j = pn sz \<or> rv = -1 \<and> j < pn sz \<and> xs' = []) \<and>
    (\<forall>vb<MAXVA. pte_of (pmem s') r vb =
       (if pn va \<le> pn vb \<and> pn vb < pn va + j then leaf_pte va pa perm (pn vb) else pte_of (pmem s) r vb)) \<and>
    length xs \<le> length xs' + 2 * pn sz"
proof -
  obtain i where i: "unat sz = 4096 * i" using al(2) by (auto simp: aligned_unat)
  then obtain k where k: "unat sz = 4096 * Suc k" using al(3) by (cases i) (auto simp: word_unat_eq_iff)
  have pk: "pn sz = Suc k" using k by (simp add: pn_def)
  have "sz = of_nat (4096 * Suc k)" by (metis k of_nat_unat ucast_id)
  then have l: "va + sz - PGSIZE = va + of_nat (4096 * k)" by (simp add: PGSIZE_def)
  have "mappages r va sz pa perm s = mappages_loop (Suc k) r va (va + of_nat (4096 * k)) pa perm s"
    unfolding l [symmetric] using al k by (simp add: mappages_def aligned_def del: mappages_loop.simps)
  with mappages_loop_ok [OF inv, of va k pa perm] hi k fresh pk show ?thesis
    by (simp add: less_Suc_eq_le del: mappages_loop.simps)
qed

lemma leaf_pte_bits:
  assumes "aligned va" "aligned pa" "unat pa + 4096 * n \<le> 2 ^ 56" "unat perm < 1024" "pn va \<le> i" "i < pn va + n"
  shows "PTE2PA (leaf_pte va pa perm i) = pa + of_nat (4096 * (i - pn va))"
    "bit (leaf_pte va pa perm i) 0" "bit perm 4 \<Longrightarrow> bit (leaf_pte va pa perm i) 4"
proof -
  let ?d = "4096 * (i - pn va)" let ?pa = "pa + of_nat ?d"
  have d: "unat pa + ?d < 2 ^ 56" using assms(3,5,6) by auto
  then have u: "unat ?pa = unat pa + ?d"
    by (subst unat_add_lem [THEN iffD1]) (simp_all add: unat_of_nat_u64 del: of_nat_mult)
  have "unat ?pa < 2 ^ 56" "aligned ?pa" using d u assms(2) by (simp_all add: aligned_unat del: of_nat_mult)
  moreover have "unat (perm OR PTE_V) < 1024"
  proof -
    have "take_bit 10 perm = perm" using assms(4) by (simp add: word_unat_eq_iff unat_take_bit_u64)
    then have "take_bit 10 (perm OR PTE_V) = perm OR PTE_V" by (simp add: PTE_V_def)
    then have "unat (perm OR PTE_V) = unat (perm OR PTE_V) mod 2 ^ 10" by (metis unat_take_bit_u64)
    also have "\<dots> < 1024" by simp
    finally show ?thesis .
  qed
  ultimately show "PTE2PA (leaf_pte va pa perm i) = ?pa"
    unfolding leaf_pte_def or.assoc by (intro PTE2PA_PA2PTE)
  show "bit (leaf_pte va pa perm i) 0" by (simp add: leaf_pte_def PTE_V_def bit_simps)
  show "bit perm 4 \<Longrightarrow> bit (leaf_pte va pa perm i) 4" by (simp add: leaf_pte_def bit_simps)
qed

text \<open>A machine with an empty page table and two free pages.\<close>

definition demo_kmem :: kmem where
  "demo_kmem = \<lparr>held = {}, pmem = store64 0x87FFD000 0x87FFE000 (\<lambda>_. 0), freelist = 0x87FFD000,
     kend = 0x80100000\<rparr>"

lemma demo_ent: "unat i < 512 \<Longrightarrow> ent (pmem demo_kmem) 0x87FFF000 i = 0"
  using ent_store64 [of "0x87FFD000" 0 "0x87FFF000" i "0x87FFE000" "\<lambda>_. 0"]
  by (simp add: demo_kmem_def aligned_unat) (simp add: ent_def load64_zero)

lemma demo_vm_inv: "vm_inv demo_kmem 0x87FFF000 [0x87FFD000, 0x87FFE000]"
proof -
  have n: "node (pmem demo_kmem) 0x87FFF000 q = (if q = [] then Some 0x87FFF000 else None)" if "q \<in> paths" for q
    using that by (cases q) (auto simp: demo_ent paths_def)
  then have ns: "nodes (pmem demo_kmem) 0x87FFF000 = {0x87FFF000}"
    by (auto simp: nodes_def paths_def split: if_splits)
  have l: "load64 (pmem demo_kmem) 0x87FFE000 = 0" "load64 (pmem demo_kmem) 0x87FFD000 = 0x87FFE000"
    by (simp_all add: demo_kmem_def load64_store64 aligned8_def load64_zero)
  have "free_pages demo_kmem [0x87FFD000, 0x87FFE000]"
    using l by (simp add: free_pages_def demo_kmem_def ram_page_def aligned_unat PHYSTOP_def KERNBASE_def)
  moreover have "pt_wf demo_kmem 0x87FFF000"
    unfolding pt_wf_def ns using n by (auto simp: demo_kmem_def ram_page_def aligned_unat PHYSTOP_def KERNBASE_def split: if_splits)
  ultimately show ?thesis using ns by (simp add: vm_inv_def demo_kmem_def)
qed

section \<open>Properties\<close>

text \<open>
  C6. Mapping a page-aligned range of virtual addresses below \<open>MAXVA\<close> none of which is mapped
  never panics and keeps the page table well formed. If \<open>mappages\<close> returns 0, the leaf entry
  of every page of the range holds the corresponding physical page with the permissions and
  the valid bit, and the leaf of every other address is what it was; it returns -1 only when
  no page is left on the free list. Memory outside the table and the free pages keeps its
  contents.
\<close>

theorem mappages_correct:
  assumes "vm_inv s r xs" "aligned va" "aligned sz" "sz \<noteq> 0" "unat va + unat sz \<le> 2 ^ 38"
    and "\<And>vb. vb < MAXVA \<Longrightarrow> pn va \<le> pn vb \<Longrightarrow> pn vb < pn va + pn sz \<Longrightarrow> \<not> bit (pte_of (pmem s) r vb) 0"
  shows "\<exists>rv s' xs'. mappages r va sz pa perm s = Inr (rv, s') \<and> vm_inv s' r xs' \<and>
    agree_outside (nodes (pmem s) r \<union> set xs) (pmem s) (pmem s') \<and>
    (rv = 0 \<and> (\<forall>vb<MAXVA. pte_of (pmem s') r vb =
        (if pn va \<le> pn vb \<and> pn vb < pn va + pn sz
         then PA2PTE (pa + of_nat (4096 * (pn vb - pn va))) OR perm OR PTE_V else pte_of (pmem s) r vb)) \<or>
     rv = -1 \<and> xs' = [])"
proof -
  obtain rv s' xs' j where m: "mappages r va sz pa perm s = Inr (rv, s')" "vm_ext r s xs s' xs'"
    "rv = 0 \<and> j = pn sz \<or> rv = -1 \<and> j < pn sz \<and> xs' = []"
    "\<forall>vb<MAXVA. pte_of (pmem s') r vb =
       (if pn va \<le> pn vb \<and> pn vb < pn va + j then leaf_pte va pa perm (pn vb) else pte_of (pmem s) r vb)"
    using mappages_ok [OF assms] by blast
  show ?thesis
    using m(3,4) unfolding leaf_pte_def
    by (intro exI [of _ rv] exI [of _ s'] exI [of _ xs'] conjI m(1) vm_extD(1,4) [OF m(2)]) blast
qed

lemma demo_unmapped: "pte_of (pmem demo_kmem) 0x87FFF000 va = 0"
  by (simp add: pte_of_def demo_ent PX_less)

theorem mappages_correct_witness:
  "\<exists>rv s' xs'. mappages 0x87FFF000 0 PGSIZE 0x80000000 (PTE_R OR PTE_U) demo_kmem = Inr (rv, s') \<and>
    vm_inv s' 0x87FFF000 xs'"
proof -
  have "aligned 0" "aligned PGSIZE" "PGSIZE \<noteq> 0" "unat (0 :: u64) + unat PGSIZE \<le> 2 ^ 38"
    by (simp_all add: aligned_unat) (simp add: PGSIZE_def)
  from mappages_correct [OF demo_vm_inv this] show ?thesis using demo_unmapped by fastforce
qed



end
