(* ===== verification/Vm.thy ===== *)
theory Vm
  imports Pagetable
begin

text \<open>
  User address spaces: the rest of \<open>kernel/vm.c\<close>. A kernel buffer is a list of bytes; a routine
  that fills one returns the bytes it wrote.
\<close>

section \<open>User memory\<close>

primrec uvmunmap_loop ::
    "nat \<Rightarrow> u64 \<Rightarrow> u64 \<Rightarrow> u64 \<Rightarrow> bool \<Rightarrow> 'a kmem_scheme \<Rightarrow> kerr + 'a kmem_scheme" where
  "uvmunmap_loop 0 pagetable a last_a do_free s = Inl Diverge"
| "uvmunmap_loop (Suc k) pagetable a last_a do_free s =
     (if a < last_a then
        bindr (walk pagetable a False s) (\<lambda>(pte, s1).
        if pte = 0 then Inl (Panic ''uvmunmap: walk'')
        else let e = load64 (pmem s1) pte in
          if e AND PTE_V = 0 then Inl (Panic ''uvmunmap: not mapped'')
          else if PTE_FLAGS e = PTE_V then Inl (Panic ''uvmunmap: not a leaf'')
          else bindr (if do_free then kfree (PTE2PA e) s1 else Inr s1) (\<lambda>s2.
            uvmunmap_loop k pagetable (a + PGSIZE) last_a do_free (s2\<lparr>pmem := store64 pte 0 (pmem s2)\<rparr>)))
      else Inr s)"

definition uvmunmap :: "u64 \<Rightarrow> u64 \<Rightarrow> u64 \<Rightarrow> bool \<Rightarrow> 'a kmem_scheme \<Rightarrow> kerr + 'a kmem_scheme" where
  "uvmunmap pagetable va npages do_free s =
     (if va mod PGSIZE \<noteq> 0 then Inl (Panic ''uvmunmap: not aligned'')
      else uvmunmap_loop (unat npages + 1) pagetable va (va + npages * PGSIZE) do_free s)"

definition uvmcreate :: "'a kmem_scheme \<Rightarrow> kerr + (u64 \<times> 'a kmem_scheme)" where
  "uvmcreate s =
     bindr (kalloc s) (\<lambda>(pagetable, s1).
     if pagetable = 0 then Inr (0, s1)
     else Inr (pagetable, s1\<lparr>pmem := memset pagetable 0 4096 (pmem s1)\<rparr>))"

text \<open>\<open>uvmfirst\<close> does not test the result of \<open>kalloc\<close> or of \<open>mappages\<close>; a null page faults.\<close>

definition uvmfirst :: "u64 \<Rightarrow> u8 list \<Rightarrow> 'a kmem_scheme \<Rightarrow> kerr + 'a kmem_scheme" where
  "uvmfirst pagetable src s =
     (if length src \<ge> 4096 then Inl (Panic ''uvmfirst: more than a page'')
      else bindr (kalloc s) (\<lambda>(page, s1).
        if page = 0 then Inl Fault
        else let s2 = s1\<lparr>pmem := memset page 0 4096 (pmem s1)\<rparr> in
          bindr (mappages pagetable 0 PGSIZE page (PTE_W OR PTE_R OR PTE_X OR PTE_U) s2) (\<lambda>(r, s3).
          Inr (s3\<lparr>pmem := poke page src (pmem s3)\<rparr>))))"

definition uvmdealloc :: "u64 \<Rightarrow> u64 \<Rightarrow> u64 \<Rightarrow> 'a kmem_scheme \<Rightarrow> kerr + (u64 \<times> 'a kmem_scheme)" where
  "uvmdealloc pagetable oldsz newsz s =
     (if newsz \<ge> oldsz then Inr (oldsz, s)
      else bindr
        (if PGROUNDUP newsz < PGROUNDUP oldsz
         then let npages = (ucast ((PGROUNDUP oldsz - PGROUNDUP newsz) div PGSIZE) :: u32)
              in uvmunmap pagetable (PGROUNDUP newsz) (scast npages) True s
         else Inr s)
        (\<lambda>s1. Inr (newsz, s1)))"

primrec uvmalloc_loop ::
    "nat \<Rightarrow> u64 \<Rightarrow> u64 \<Rightarrow> u64 \<Rightarrow> u64 \<Rightarrow> u64 \<Rightarrow> 'a kmem_scheme \<Rightarrow> kerr + (u64 \<times> 'a kmem_scheme)" where
  "uvmalloc_loop 0 pagetable a oldsz newsz xperm s = Inl Diverge"
| "uvmalloc_loop (Suc k) pagetable a oldsz newsz xperm s =
     (if a < newsz then
        bindr (kalloc s) (\<lambda>(page, s1).
        if page = 0 then bindr (uvmdealloc pagetable a oldsz s1) (\<lambda>(_, s2). Inr (0, s2))
        else let s2 = s1\<lparr>pmem := memset page 0 4096 (pmem s1)\<rparr> in
          bindr (mappages pagetable a PGSIZE page (PTE_R OR PTE_U OR xperm) s2) (\<lambda>(r, s3).
          if r \<noteq> 0 then
            bindr (kfree page s3) (\<lambda>s4.
            bindr (uvmdealloc pagetable a oldsz s4) (\<lambda>(_, s5). Inr (0, s5)))
          else uvmalloc_loop k pagetable (a + PGSIZE) oldsz newsz xperm s3))
      else Inr (newsz, s))"

definition uvmalloc :: "u64 \<Rightarrow> u64 \<Rightarrow> u64 \<Rightarrow> u64 \<Rightarrow> 'a kmem_scheme \<Rightarrow> kerr + (u64 \<times> 'a kmem_scheme)" where
  "uvmalloc pagetable oldsz newsz xperm s =
     (if newsz < oldsz then Inr (oldsz, s)
      else let old = PGROUNDUP oldsz in
        uvmalloc_loop (unat (newsz - old) div 4096 + 2) pagetable old old newsz xperm s)"

text \<open>\<open>freewalk\<close> recurses into the page-table pages below. A chain of distinct pages is shorter
  than the number of pages of RAM, 32768, so this depth is exceeded only by a cyclic table,
  on which the code does not return.\<close>

primrec freewalk_loop ::
    "(u64 \<Rightarrow> 'a kmem_scheme \<Rightarrow> kerr + 'a kmem_scheme) \<Rightarrow> nat \<Rightarrow> u64 \<Rightarrow> 'a kmem_scheme \<Rightarrow> kerr + 'a kmem_scheme" where
  "freewalk_loop rec 0 pagetable s = Inr s"
| "freewalk_loop rec (Suc k) pagetable s =
     (let i = 512 - Suc k;
          pte = load64 (pmem s) (pagetable + 8 * of_nat i)
      in if pte AND PTE_V \<noteq> 0 \<and> pte AND (PTE_R OR PTE_W OR PTE_X) = 0 then
           bindr (rec (PTE2PA pte) s) (\<lambda>s1.
           freewalk_loop rec k pagetable (s1\<lparr>pmem := store64 (pagetable + 8 * of_nat i) 0 (pmem s1)\<rparr>))
         else if pte AND PTE_V \<noteq> 0 then Inl (Panic ''freewalk: leaf'')
         else freewalk_loop rec k pagetable s)"

primrec freewalk_d :: "nat \<Rightarrow> u64 \<Rightarrow> 'a kmem_scheme \<Rightarrow> kerr + 'a kmem_scheme" where
  "freewalk_d 0 pagetable s = Inl Diverge"
| "freewalk_d (Suc d) pagetable s = bindr (freewalk_loop (freewalk_d d) 512 pagetable s) (kfree pagetable)"

definition freewalk :: "u64 \<Rightarrow> 'a kmem_scheme \<Rightarrow> kerr + 'a kmem_scheme" where
  "freewalk pagetable s = freewalk_d 32769 pagetable s"

definition uvmfree :: "u64 \<Rightarrow> u64 \<Rightarrow> 'a kmem_scheme \<Rightarrow> kerr + 'a kmem_scheme" where
  "uvmfree pagetable sz s =
     bindr (if sz > 0 then uvmunmap pagetable 0 (PGROUNDUP sz div PGSIZE) True s else Inr s)
       (freewalk pagetable)"

primrec uvmcopy_loop :: "nat \<Rightarrow> u64 \<Rightarrow> u64 \<Rightarrow> u64 \<Rightarrow> u64 \<Rightarrow> 'a kmem_scheme \<Rightarrow> kerr + (int \<times> 'a kmem_scheme)" where
  "uvmcopy_loop 0 old new sz i s = Inl Diverge"
| "uvmcopy_loop (Suc k) old new sz i s =
     (if i < sz then
        bindr (walk old i False s) (\<lambda>(pte, s1).
        if pte = 0 then Inl (Panic ''uvmcopy: pte should exist'')
        else let e = load64 (pmem s1) pte in
          if e AND PTE_V = 0 then Inl (Panic ''uvmcopy: page not present'')
          else let pa = PTE2PA e; flags = PTE_FLAGS e;
                   err = (\<lambda>t. bindr (uvmunmap new 0 (i div PGSIZE) True t) (\<lambda>t'. Inr (-1, t')))
            in bindr (kalloc s1) (\<lambda>(page, s2).
              if page = 0 then err s2
              else let s3 = s2\<lparr>pmem := memmove page pa 4096 (pmem s2)\<rparr> in
                bindr (mappages new i PGSIZE page flags s3) (\<lambda>(r, s4).
                if r \<noteq> 0 then bindr (kfree page s4) err
                else uvmcopy_loop k old new sz (i + PGSIZE) s4)))
      else Inr (0, s))"

definition uvmcopy :: "u64 \<Rightarrow> u64 \<Rightarrow> u64 \<Rightarrow> 'a kmem_scheme \<Rightarrow> kerr + (int \<times> 'a kmem_scheme)" where
  "uvmcopy old new sz s = uvmcopy_loop (unat sz div 4096 + 2) old new sz 0 s"

definition uvmclear :: "u64 \<Rightarrow> u64 \<Rightarrow> 'a kmem_scheme \<Rightarrow> kerr + 'a kmem_scheme" where
  "uvmclear pagetable va s =
     bindr (walk pagetable va False s) (\<lambda>(pte, s1).
     if pte = 0 then Inl (Panic ''uvmclear'')
     else Inr (s1\<lparr>pmem := store64 pte (load64 (pmem s1) pte AND NOT PTE_U) (pmem s1)\<rparr>))"

section \<open>Moving bytes between the kernel and user memory\<close>

text \<open>The number of bytes from \<open>va\<close> to the end of its page, cut to \<open>len\<close>: at least one as
  long as \<open>len\<close> is.\<close>

definition chunk :: "u64 \<Rightarrow> nat \<Rightarrow> nat" where
  "chunk va len = (let n = unat (PGSIZE - (va - PGROUNDDOWN va)) in if n > len then len else n)"

lemma page_offset: "unat (va - PGROUNDDOWN va) = unat va mod 4096"
  by (subst unat_sub) (simp_all add: unat_PGROUNDDOWN word_le_nat_alt minus_div_mult_eq_mod)

lemma chunk_eq: "chunk va len = min len (4096 - unat va mod 4096)"
proof -
  have "unat (va - PGROUNDDOWN va) \<le> 4096" by (simp add: page_offset)
  then have "unat (PGSIZE - (va - PGROUNDDOWN va)) = 4096 - unat va mod 4096"
    by (subst unat_sub) (simp_all add: word_le_nat_alt page_offset)
  then show ?thesis by (simp add: chunk_def Let_def min_def)
qed

lemma chunk_pos: "0 < len \<Longrightarrow> 0 < chunk va len"
  by (simp add: chunk_eq)

lemma chunk_less: "0 < len \<Longrightarrow> len - chunk va len < len"
  using chunk_pos [of len va] by simp

function copyout :: "u64 \<Rightarrow> u64 \<Rightarrow> u8 list \<Rightarrow> 'a kmem_scheme \<Rightarrow> kerr + (int \<times> 'a kmem_scheme)" where
  "copyout pagetable dstva src s =
     (if src = [] then Inr (0, s)
      else let va0 = PGROUNDDOWN dstva in
        if va0 \<ge> MAXVA then Inr (-1, s)
        else bindr (walk pagetable va0 False s) (\<lambda>(pte, s1).
          let e = load64 (pmem s1) pte in
          if pte = 0 \<or> e AND PTE_V = 0 \<or> e AND PTE_U = 0 \<or> e AND PTE_W = 0 then Inr (-1, s1)
          else let pa0 = PTE2PA e; n = chunk dstva (length src);
                   s2 = s1\<lparr>pmem := poke (pa0 + (dstva - va0)) (take n src) (pmem s1)\<rparr>
            in copyout pagetable (va0 + PGSIZE) (drop n src) s2))"
  by pat_completeness auto
termination
  by (relation "measure (\<lambda>(_, _, src, _). length src)") (auto intro: chunk_less)

declare copyout.simps [simp del]

function copyin :: "u64 \<Rightarrow> u64 \<Rightarrow> nat \<Rightarrow> 'a kmem_scheme \<Rightarrow> kerr + ((int \<times> u8 list) \<times> 'a kmem_scheme)" where
  "copyin pagetable srcva len s =
     (if len = 0 then Inr ((0, []), s)
      else let va0 = PGROUNDDOWN srcva in
        bindr (walkaddr pagetable va0 s) (\<lambda>(pa0, s1).
        if pa0 = 0 then Inr ((-1, []), s1)
        else let n = chunk srcva len;
                 bytes = peek (pmem s1) (pa0 + (srcva - va0)) n
          in bindr (copyin pagetable (va0 + PGSIZE) (len - n) s1) (\<lambda>((r, rest), s2).
             Inr ((r, bytes @ rest), s2))))"
  by pat_completeness auto
termination
  by (relation "measure (\<lambda>(_, _, len, _). len)") (auto intro: chunk_less)

declare copyin.simps [simp del]

text \<open>The inner loop of \<open>copyinstr\<close>: the bytes copied from \<open>p\<close> on and whether a NUL ended them.\<close>

primrec copystr_loop :: "nat \<Rightarrow> u64 \<Rightarrow> mem \<Rightarrow> u8 list \<times> bool" where
  "copystr_loop 0 p m = ([], False)"
| "copystr_loop (Suc n) p m =
     (if m p = 0 then ([0], True)
      else case copystr_loop n (p + 1) m of (bs, got_null) \<Rightarrow> (m p # bs, got_null))"

function copyinstr :: "u64 \<Rightarrow> u64 \<Rightarrow> nat \<Rightarrow> 'a kmem_scheme \<Rightarrow> kerr + ((int \<times> u8 list) \<times> 'a kmem_scheme)" where
  "copyinstr pagetable srcva max_n s =
     (if max_n = 0 then Inr ((-1, []), s)
      else let va0 = PGROUNDDOWN srcva in
        bindr (walkaddr pagetable va0 s) (\<lambda>(pa0, s1).
        if pa0 = 0 then Inr ((-1, []), s1)
        else let n = chunk srcva max_n in
          case copystr_loop n (pa0 + (srcva - va0)) (pmem s1) of (bytes, got_null) \<Rightarrow>
            if got_null then Inr ((0, bytes), s1)
            else bindr (copyinstr pagetable (va0 + PGSIZE) (max_n - n) s1) (\<lambda>((r, rest), s2).
              Inr ((r, bytes @ rest), s2))))"
  by pat_completeness auto
termination
  by (relation "measure (\<lambda>(_, _, max_n, _). max_n)") (auto intro: chunk_less)

declare copyinstr.simps [simp del]

section \<open>User memory as a partial map\<close>

text \<open>\<open>umem m r va\<close> is the byte a user program with page table \<open>r\<close> sees at \<open>va\<close>, if the page is
  mapped for it. The user pages of a table are distinct, are not null, hold no page-table
  page and are not free.\<close>

definition readable :: "mem \<Rightarrow> u64 \<Rightarrow> u64 \<Rightarrow> bool" where
  "readable m r va \<longleftrightarrow> va < MAXVA \<and> bit (pte_of m r va) 0 \<and> bit (pte_of m r va) 4"

definition writable :: "mem \<Rightarrow> u64 \<Rightarrow> u64 \<Rightarrow> bool" where
  "writable m r va \<longleftrightarrow> readable m r va \<and> bit (pte_of m r va) 2"

definition upage :: "mem \<Rightarrow> u64 \<Rightarrow> u64 \<Rightarrow> u64" where
  "upage m r va = PTE2PA (pte_of m r va)"

definition umem :: "mem \<Rightarrow> u64 \<Rightarrow> u64 \<Rightarrow> u8 option" where
  "umem m r va = (if readable m r va then Some (m (upage m r va + (va - PGROUNDDOWN va))) else None)"

definition user_wf :: "'a kmem_scheme \<Rightarrow> u64 \<Rightarrow> u64 list \<Rightarrow> bool" where
  "user_wf s r xs \<longleftrightarrow> (\<forall>va. readable (pmem s) r va \<longrightarrow>
     upage (pmem s) r va \<noteq> 0 \<and> upage (pmem s) r va \<notin> nodes (pmem s) r \<union> set xs \<and>
     (\<forall>vb. readable (pmem s) r vb \<longrightarrow> upage (pmem s) r vb = upage (pmem s) r va \<longrightarrow> pn va = pn vb))"

lemma within_add:
  assumes "n + k \<le> 2 ^ 64"
  shows "within a (n + k) x \<longleftrightarrow> within a n x \<or> within (a + of_nat n) k x"
proof (cases "unat (x - a) < n")
  case False
  then have n: "n < 2 ^ 64" using unsigned_less [of "x - a", where ?'a = nat] by simp
  have "unat (x - a - of_nat n) = unat (x - a) - n"
    using False n by (subst unat_sub) (simp_all add: word_le_nat_alt unat_of_nat_u64)
  then show ?thesis using False by (auto simp: within_def diff_diff_eq)
qed (simp add: within_def)

lemma unat_within_add:
  assumes "\<not> within a n x"
  shows "unat (x - (a + of_nat n)) = unat (x - a) - n"
proof -
  have n: "n < 2 ^ 64" using assms unsigned_less [of "x - a", where ?'a = nat] by (simp add: within_def)
  have "unat (x - a - of_nat n) = unat (x - a) - n"
    using assms n by (subst unat_sub) (simp_all add: word_le_nat_alt unat_of_nat_u64 within_def)
  then show ?thesis by (simp add: diff_diff_eq)
qed

lemma aligned_PTE2PA [simp]: "aligned (PTE2PA e)"
proof -
  have "take_bit 12 (PTE2PA e) = 0" by (simp add: PTE2PA_def take_bit_push_bit)
  then have "unat (PTE2PA e) mod 2 ^ 12 = 0" by (metis unat_take_bit_u64 unat_0)
  then show ?thesis by (simp add: aligned_unat)
qed

lemma page_arith:
  fixes X D i j n :: nat
  assumes "i < 4096" "j < 4096" "n \<le> 4096 - j"
  shows "4096 * D + j \<le> 4096 * X + i \<and> 4096 * X + i - (4096 * D + j) < n \<longleftrightarrow> X = D \<and> j \<le> i \<and> i < j + n"
proof (cases X D rule: linorder_cases)
  case less
  then have "4096 * X + 4096 \<le> 4096 * D" by simp
  with assms show ?thesis by auto
next
  case greater
  then have "4096 * D + 4096 \<le> 4096 * X" by simp
  with assms show ?thesis by auto
qed (use assms in auto)

text \<open>Inside one page, the page offset is the distance to the page.\<close>

lemma page_within:
  assumes "n \<le> 4096 - unat d mod 4096"
  shows "within d n x \<longleftrightarrow> pn x = pn d \<and> unat d mod 4096 \<le> unat x mod 4096 \<and> unat x mod 4096 < unat d mod 4096 + n"
    (is "?l \<longleftrightarrow> ?r")
proof -
  have x: "unat x = 4096 * pn x + unat x mod 4096" and d: "unat d = 4096 * pn d + unat d mod 4096"
    by (simp_all add: pn_def)
  have b: "unat d < 2 ^ 64" using unsigned_less [of d, where ?'a = nat] by simp
  then have "4096 * pn d + 4096 \<le> 2 ^ 64" by (simp add: pn_def)
  moreover have "unat d mod 4096 < 4096" by simp
  ultimately have "unat d + n \<le> 2 ^ 64" using d assms by linarith
  then have "within d n x \<longleftrightarrow> unat d \<le> unat x \<and> unat x - unat d < n"
    by (auto simp: within_def unat_sub_if')
  also have "\<dots> \<longleftrightarrow> ?r"
    using page_arith [of "unat x mod 4096" "unat d mod 4096" n "pn d" "pn x"] x d assms by simp
  finally show ?thesis .
qed

lemma within_offset:
  assumes "pn x = pn d" "unat d mod 4096 \<le> unat x mod 4096"
  shows "unat (x - d) = unat x mod 4096 - unat d mod 4096"
proof -
  have "unat x = 4096 * pn x + unat x mod 4096" "unat d = 4096 * pn d + unat d mod 4096"
    by (simp_all add: pn_def)
  then show ?thesis using assms by (subst unat_sub) (simp_all add: word_le_nat_alt)
qed

lemma pn_eq_PGROUNDDOWN: "PGROUNDDOWN x = PGROUNDDOWN y \<longleftrightarrow> pn x = pn y"
  by (auto simp: word_unat_eq_iff unat_PGROUNDDOWN pn_def)

lemma pn_less_MAXVA: "pn x = pn y \<Longrightarrow> x < MAXVA \<longleftrightarrow> y < MAXVA"
proof -
  have "x < MAXVA \<longleftrightarrow> pn x < 2 ^ 26" for x
    by (auto simp: word_less_nat_alt pn_def div_less_iff_less_mult)
  then show "pn x = pn y \<Longrightarrow> x < MAXVA \<longleftrightarrow> y < MAXVA" by simp
qed

lemma pte_of_page: "pn x = pn y \<Longrightarrow> pte_of m r x = pte_of m r y"
proof -
  assume "pn x = pn y"
  then have "unat (PX l x) = unat (PX l y)" for l
    by (simp add: unat_PX pn_def power_add div_mult2_eq)
  then have "PX l x = PX l y" for l by (simp add: word_unat_eq_iff)
  then show ?thesis by (simp add: pte_of_def)
qed

lemma pn_PGROUNDDOWN [simp]: "pn (PGROUNDDOWN x) = pn x"
  by (simp add: pn_def unat_PGROUNDDOWN)

lemma readable_page: "pn x = pn y \<Longrightarrow> readable m r x \<longleftrightarrow> readable m r y"
  by (simp add: readable_def pte_of_page [of x y] pn_less_MAXVA [of x y])

lemma upage_page: "pn x = pn y \<Longrightarrow> upage m r x = upage m r y"
  by (simp add: upage_def pte_of_page [of x y])

text \<open>A write into a page.\<close>

lemma poke_page:
  assumes "aligned p" "off + length bs \<le> 4096" "k < 4096"
  shows "poke (p + of_nat off) bs m (p + of_nat k) =
    (if off \<le> k \<and> k < off + length bs then bs ! (k - off) else m (p + of_nat k))"
proof -
  obtain i where i: "unat p = 4096 * i" using assms(1) by (auto simp: aligned_unat)
  have "i < 2 ^ 52" using unsigned_less [of p, where ?'a = nat] i by simp
  then have u: "unat (p + of_nat j) = 4096 * i + j" if "j < 4096" for j
    using i that by (subst unat_add_lem [THEN iffD1]) (simp_all add: unat_of_nat_u64)
  show ?thesis
  proof (cases "bs = []")
    case False
    then have o: "off < 4096" using assms(2) by (cases bs) auto
    have r: "pn (p + of_nat j) = i \<and> unat (p + of_nat j) mod 4096 = j" if "j < 4096" for j
      using u [OF that] that by (simp add: pn_def)
    have "within (p + of_nat off) (length bs) (p + of_nat k) \<longleftrightarrow> off \<le> k \<and> k < off + length bs"
      using page_within [of "length bs" "p + of_nat off" "p + of_nat k"] r [OF o] r [OF assms(3)] assms(2) by simp
    moreover have "off \<le> k \<Longrightarrow> unat (p + of_nat k - (p + of_nat off)) = k - off"
      using within_offset [of "p + of_nat k" "p + of_nat off"] r [OF o] r [OF assms(3)] by simp
    ultimately show ?thesis by (simp add: poke_def)
  qed (auto simp: poke_def)
qed

lemma poke_agree:
  assumes "aligned p" "off + length bs \<le> 4096"
  shows "agree_outside {p} m (poke (p + of_nat off) bs m)"
  unfolding agree_outside_def
proof (intro allI impI)
  fix x assume x: "PGROUNDDOWN x \<notin> {p}"
  show "poke (p + of_nat off) bs m x = m x"
  proof (cases "bs = []")
    case False
    then have o: "off < 4096" using assms(2) by (cases bs) auto
    have "within p 4096 (p + of_nat off)" using o by (simp add: within_def unat_of_nat_u64)
    then have p: "PGROUNDDOWN (p + of_nat off) = p" using within_page [OF assms(1)] by simp
    have "unat (p + of_nat off) mod 4096 = off"
      using page_offset [of "p + of_nat off"] p o by (simp add: unat_of_nat_u64)
    then have "\<not> within (p + of_nat off) (length bs) x"
      using page_within [of "length bs" "p + of_nat off" x] assms(2) x p pn_eq_PGROUNDDOWN [of x "p + of_nat off"] by auto
    then show ?thesis by (simp add: poke_def)
  qed (simp add: poke_def)
qed


lemma PGROUNDDOWN_upage: "PGROUNDDOWN (upage m r va + (va - PGROUNDDOWN va)) = upage m r va"
proof (rule iffD1 [OF within_page])
  show "within (upage m r va) 4096 (upage m r va + (va - PGROUNDDOWN va))"
    by (simp add: within_def page_offset)
qed (simp add: upage_def)

text \<open>Writing to a user page changes exactly those bytes of the user memory.\<close>

lemma user_write:
  assumes inv: "vm_inv s r xs" and wf: "user_wf s r xs" and rd: "readable (pmem s) r d"
    and n: "length bs \<le> 4096 - unat d mod 4096"
  defines "m' \<equiv> poke (upage (pmem s) r d + (d - PGROUNDDOWN d)) bs (pmem s)"
  shows "vm_inv (s\<lparr>pmem := m'\<rparr>) r xs" "user_wf (s\<lparr>pmem := m'\<rparr>) r xs"
    "pte_of m' r va = pte_of (pmem s) r va"
    "umem m' r va = (if within d (length bs) va then Some (bs ! unat (va - d)) else umem (pmem s) r va)"
proof -
  let ?p = "upage (pmem s) r d" and ?off = "unat d mod 4096"
  have off: "x - PGROUNDDOWN x = of_nat (unat x mod 4096)" for x
    using page_offset [of x] by (metis of_nat_unat ucast_id)
  have m': "m' = poke (?p + of_nat ?off) bs (pmem s)" by (simp add: m'_def off)
  have o: "?off + length bs \<le> 4096" using n by (simp add: le_diff_conv2 less_imp_le)
  have p: "aligned ?p" "?p \<notin> nodes (pmem s) r" "?p \<notin> set xs" using wf rd by (auto simp: user_wf_def upage_def)
  have ag: "agree_outside {?p} (pmem s) m'" unfolding m' by (rule poke_agree [OF p(1) o])
  have ptw: "pt_wf s r" using inv by (simp add: vm_inv_def)
  have dj: "nodes (pmem s) r \<inter> {?p} = {}" using p(2) by simp
  show pte: "pte_of m' r va = pte_of (pmem s) r va" for va by (rule pte_of_agree [OF ptw ag dj])
  have ns: "nodes m' r = nodes (pmem s) r" "pt_wf (s\<lparr>pmem := m'\<rparr>) r"
    using pt_wf_cong [OF node_agree [OF ptw ag dj] ptw] by blast+
  have "flist m' (freelist s) xs"
    using inv p(3) by (intro flist_agree [OF _ ag]) (auto simp: vm_inv_def free_pages_def ram_page_def)
  then show "vm_inv (s\<lparr>pmem := m'\<rparr>) r xs"
    using inv ns by (simp add: vm_inv_def free_pages_def ram_page_def)
  have rdu: "readable m' r = readable (pmem s) r" "upage m' r = upage (pmem s) r"
    by (simp_all add: fun_eq_iff readable_def upage_def pte)
  show "user_wf (s\<lparr>pmem := m'\<rparr>) r xs" 
  proof -
    have pm: "pmem (s\<lparr>pmem := m'\<rparr>) = m'" by simp
    show ?thesis using wf unfolding user_wf_def pm rdu ns(1) .
  qed
  show "umem m' r va = (if within d (length bs) va then Some (bs ! unat (va - d)) else umem (pmem s) r va)"
  proof (cases "pn va = pn d")
    case True
    have "readable (pmem s) r va" "upage (pmem s) r va = ?p"
      using rd by (simp_all add: readable_page [OF True] upage_page [OF True])
    with True show ?thesis
      using poke_page [OF p(1) o, of "unat va mod 4096" "pmem s", folded m'] page_within [OF n, of va] within_offset [of va d]
      by (simp add: umem_def rdu off)
  next
    case False
    then have w: "\<not> within d (length bs) va" using page_within [OF n, of va] by simp
    have "m' (upage (pmem s) r va + (va - PGROUNDDOWN va)) = pmem s (upage (pmem s) r va + (va - PGROUNDDOWN va))"
      if "readable (pmem s) r va"
    proof -
      have "upage (pmem s) r va \<noteq> ?p" using wf rd that False unfolding user_wf_def by metis
      then show ?thesis using ag by (simp add: agree_outside_def PGROUNDDOWN_upage)
    qed
    with w show ?thesis by (simp add: umem_def rdu)
  qed
qed


section \<open>copyout and copyin\<close>

lemma and_flags: "e AND PTE_V = 0 \<longleftrightarrow> \<not> bit e 0" "e AND PTE_U = 0 \<longleftrightarrow> \<not> bit e 4" "e AND PTE_W = 0 \<longleftrightarrow> \<not> bit e 2"
  unfolding PTE_V_def PTE_U_def PTE_W_def by (simp_all add: bit_iff_and_push_bit_not_eq_0)

lemma walk_pte:
  assumes "vm_inv s r xs" "va < MAXVA"
  obtains a where "walk r va False s = Inr (a, s)" "a = 0 \<Longrightarrow> pte_of (pmem s) r va = 0"
    "a \<noteq> 0 \<Longrightarrow> load64 (pmem s) a = pte_of (pmem s) r va"
  using assms entry_nonzero [OF assms(1)]
  by (cases "node (pmem s) r [PX 2 va, PX 1 va]") (simp_all add: walk_read pte_of_def ent_def del: node.simps)

lemma PGROUNDDOWN_less: "PGROUNDDOWN d < MAXVA \<longleftrightarrow> d < MAXVA"
  by (rule pn_less_MAXVA) simp

lemma copyout_stop:
  assumes "vm_inv s r xs" "src \<noteq> []" "\<not> writable (pmem s) r d"
  shows "copyout r d src s = Inr (-1, s)"
proof (cases "d < MAXVA")
  case True
  then obtain a where "walk r (PGROUNDDOWN d) False s = Inr (a, s)" "a = 0 \<Longrightarrow> pte_of (pmem s) r d = 0"
    "a \<noteq> 0 \<Longrightarrow> load64 (pmem s) a = pte_of (pmem s) r d"
    using walk_pte [OF assms(1), of "PGROUNDDOWN d"] PGROUNDDOWN_less pte_of_page [of "PGROUNDDOWN d" d] by auto
  with True assms show ?thesis
    using PGROUNDDOWN_less [of d]
    by (subst copyout.simps) (auto simp: Let_def and_flags writable_def readable_def not_le)
next
  case False
  with assms(2) PGROUNDDOWN_less [of d] show ?thesis by (subst copyout.simps) (simp add: not_less)
qed

lemma copyout_step:
  assumes "vm_inv s r xs" "src \<noteq> []" "writable (pmem s) r d"
  defines "n \<equiv> chunk d (length src)"
  shows "copyout r d src s = copyout r (PGROUNDDOWN d + PGSIZE) (drop n src)
    (s\<lparr>pmem := poke (upage (pmem s) r d + (d - PGROUNDDOWN d)) (take n src) (pmem s)\<rparr>)"
proof -
  have d: "d < MAXVA" using assms(3) by (simp add: writable_def readable_def)
  then obtain a where a: "walk r (PGROUNDDOWN d) False s = Inr (a, s)" "a = 0 \<Longrightarrow> pte_of (pmem s) r d = 0"
    "a \<noteq> 0 \<Longrightarrow> load64 (pmem s) a = pte_of (pmem s) r d"
    using walk_pte [OF assms(1), of "PGROUNDDOWN d"] PGROUNDDOWN_less pte_of_page [of "PGROUNDDOWN d" d] by auto
  have "a \<noteq> 0" using a(2) assms(3) by (auto simp: writable_def readable_def)
  moreover have "\<not> MAXVA \<le> PGROUNDDOWN d" using PGROUNDDOWN_less [of d] d by (simp add: not_le)
  ultimately show ?thesis using a(1,3) assms(2,3) unfolding n_def
    by (subst copyout.simps) (simp add: Let_def and_flags writable_def readable_def upage_def)
qed


lemma next_page:
  assumes "d < MAXVA"
  shows "PGROUNDDOWN d + PGSIZE = d + of_nat (4096 - unat d mod 4096)"
proof -
  have "PGSIZE - (d - PGROUNDDOWN d) = of_nat (unat (PGSIZE - (d - PGROUNDDOWN d)))" by simp
  moreover have "unat (PGSIZE - (d - PGROUNDDOWN d)) = 4096 - unat d mod 4096"
    by (subst unat_sub) (simp_all add: word_le_nat_alt page_offset less_imp_le)
  ultimately have "PGSIZE - (d - PGROUNDDOWN d) = of_nat (4096 - unat d mod 4096)" by simp
  then show ?thesis by (metis add.commute add_diff_eq diff_add_cancel diff_diff_eq2)
qed

text \<open>\<open>copied_out m r d src n m'\<close>: \<open>m'\<close> is \<open>m\<close> with the first \<open>n\<close> bytes of \<open>src\<close> written to the
  user memory at \<open>d\<close>.\<close>

definition copied_out :: "mem \<Rightarrow> u64 \<Rightarrow> u64 \<Rightarrow> u8 list \<Rightarrow> nat \<Rightarrow> mem \<Rightarrow> bool" where
  "copied_out m r d src n m' \<longleftrightarrow> (\<forall>va. pte_of m' r va = pte_of m r va) \<and>
     (\<forall>va. umem m' r va = (if within d n va then Some (src ! unat (va - d)) else umem m r va))"

lemma within_disjoint:
  assumes "n + k \<le> 2 ^ 64" "within d n x"
  shows "\<not> within (d + of_nat n) k x"
proof (cases "k = 0")
  case False
  have "unat (x - d) < n" "n < 2 ^ 64" using assms False by (auto simp: within_def)
  then have "unat (x - d - of_nat n) = unat (x - d) + 2 ^ 64 - n"
    by (subst unat_sub_if') (simp add: unat_of_nat_u64)
  then have "unat (x - (d + of_nat n)) \<ge> k" using assms(1) by (simp add: diff_diff_eq)
  then show ?thesis by (simp add: within_def)
qed simp

lemma copied_out_trans:
  assumes a: "copied_out m r d src n m1" and b: "copied_out m1 r (d + of_nat n) (drop n src) k m2"
    and n: "n + k \<le> 2 ^ 64" "n \<le> length src"
  shows "copied_out m r d src (n + k) m2"
  unfolding copied_out_def
proof (intro conjI allI)
  fix va
  show "pte_of m2 r va = pte_of m r va" using a b by (simp add: copied_out_def)
  have u: "umem m2 r va = (if within (d + of_nat n) k va then Some (drop n src ! unat (va - (d + of_nat n)))
      else if within d n va then Some (src ! unat (va - d)) else umem m r va)"
    using a b unfolding copied_out_def by simp
  show "umem m2 r va = (if within d (n + k) va then Some (src ! unat (va - d)) else umem m r va)"
  proof (cases "within d n va")
    case False
    then have "n + unat (va - (d + of_nat n)) = unat (va - d)"
      using unat_within_add [OF False] by (simp add: within_def)
    with False show ?thesis unfolding u within_add [OF n(1)] using n(2) by simp
  qed (simp add: u within_add [OF n(1)] within_disjoint [OF n(1)])
qed

lemma copied_out_writable: "copied_out m r d src n m1 \<Longrightarrow> writable m1 r = writable m r"
  by (simp add: fun_eq_iff copied_out_def writable_def readable_def)

lemma copyout_ok:
  assumes "vm_inv s r xs" "user_wf s r xs" "length src < 2 ^ 63"
  shows "\<exists>rv m n. copyout r d src s = Inr (rv, s\<lparr>pmem := m\<rparr>) \<and> n \<le> length src \<and>
    (rv = 0 \<and> n = length src \<or> rv = -1 \<and> n < length src \<and> \<not> writable (pmem s) r (d + of_nat n)) \<and>
    vm_inv (s\<lparr>pmem := m\<rparr>) r xs \<and> user_wf (s\<lparr>pmem := m\<rparr>) r xs \<and> copied_out (pmem s) r d src n m"
  using assms
proof (induction "length src" arbitrary: src s d rule: less_induct)
  case less
  show ?case
  proof (cases "src = [] \<or> \<not> writable (pmem s) r d")
    case True
    then have "copyout r d src s = Inr (if src = [] then 0 else -1, s\<lparr>pmem := pmem s\<rparr>)"
      using copyout_stop [OF less.prems(1)] by (cases "src = []") (auto simp: copyout.simps)
    with True less.prems show ?thesis
      by (intro exI [of _ "if src = [] then 0 else -1"] exI [of _ "pmem s"] exI [of _ 0]) (auto simp: copied_out_def)
  next
    case False
    then have wr: "writable (pmem s) r d" and ne: "src \<noteq> []" and rd: "readable (pmem s) r d"
      by (auto simp: writable_def)
    define n where "n = chunk d (length src)"
    define m1 where "m1 = poke (upage (pmem s) r d + (d - PGROUNDDOWN d)) (take n src) (pmem s)"
    let ?d = "PGROUNDDOWN d + PGSIZE" and ?s = "s\<lparr>pmem := m1\<rparr>"
    have n: "n \<le> length src" "n \<le> 4096 - unat d mod 4096" "n > 0" "n < length src \<Longrightarrow> n = 4096 - unat d mod 4096"
      using ne chunk_pos [of "length src" d] by (auto simp: n_def chunk_eq)
    have l: "length (take n src) = n" using n by simp
    note u = user_write [OF less.prems(1,2) rd, of "take n src", folded m1_def, unfolded l, OF n(2)]
    have c1: "copied_out (pmem s) r d src n m1" unfolding copied_out_def using u(3,4) by (simp add: within_def)
    have lt: "length (drop n src) < length src" "length (drop n src) < 2 ^ 63" using n less.prems(3) by auto
    from less.hyps [OF lt(1) u(1,2) lt(2), of ?d, simplified]
    obtain rv m k where R: "copyout r ?d (drop n src) ?s = Inr (rv, s\<lparr>pmem := m\<rparr>)" "k \<le> length src - n"
      "rv = 0 \<and> k = length src - n \<or> rv = -1 \<and> k < length src - n \<and> \<not> writable m1 r (?d + of_nat k)"
      "vm_inv (s\<lparr>pmem := m\<rparr>) r xs" "user_wf (s\<lparr>pmem := m\<rparr>) r xs" "copied_out m1 r ?d (drop n src) k m"
      by blast
    have d: "?d = d + of_nat n" if "n < length src"
      using next_page [of d] rd n(4) [OF that] by (simp add: readable_def)
    have "copied_out (pmem s) r d src (n + k) m"
    proof (cases "n < length src")
      case True
      with copied_out_trans [OF c1] R(2,6) d n less.prems(3) show ?thesis by simp
    next
      case False
      then have "k = 0" "n = length src" using R(2) n by auto
      with c1 R(6) show ?thesis by (simp add: copied_out_def)
    qed
    moreover have "copyout r d src s = Inr (rv, s\<lparr>pmem := m\<rparr>)"
      using R(1) copyout_step [OF less.prems(1) ne wr] by (simp add: m1_def n_def)
    moreover have "?d + of_nat k = d + of_nat (n + k)" if "k < length src - n"
      using d that by (simp add: add.assoc)
    then have "\<not> writable (pmem s) r (d + of_nat (n + k))" if "\<not> writable m1 r (?d + of_nat k)" "k < length src - n"
      using that copied_out_writable [OF c1] by metis
    ultimately show ?thesis using R(2-5) n(1)
      by (intro exI [of _ rv] exI [of _ m] exI [of _ "n + k"]) auto
  qed
qed


lemma copyin_step:
  assumes "vm_inv s r xs" "user_wf s r xs" "len > 0"
  shows "copyin r d len s = (if readable (pmem s) r d then
     bindr (copyin r (PGROUNDDOWN d + PGSIZE) (len - chunk d len) s) (\<lambda>((rv, rest), s2).
       Inr ((rv, peek (pmem s) (upage (pmem s) r d + (d - PGROUNDDOWN d)) (chunk d len) @ rest), s2))
     else Inr ((-1, []), s))"
proof -
  have "walkaddr r (PGROUNDDOWN d) s = Inr (if readable (pmem s) r d then upage (pmem s) r d else 0, s)"
    unfolding walkaddr_eq [OF assms(1)] readable_def upage_def
    by (simp add: PGROUNDDOWN_less pte_of_page [of "PGROUNDDOWN d" d])
  moreover have "readable (pmem s) r d \<Longrightarrow> upage (pmem s) r d \<noteq> 0" using assms(2) by (auto simp: user_wf_def)
  ultimately show ?thesis using assms(3) by (subst copyin.simps) (simp add: Let_def)
qed

lemma user_read:
  assumes "readable m r d" "n \<le> 4096 - unat d mod 4096" "i < n"
  shows "umem m r (d + of_nat i) = Some (peek m (upage m r d + (d - PGROUNDDOWN d)) n ! i)"
proof -
  have i: "unat (of_nat i :: u64) = i" using assms(2,3) by (simp add: unat_of_nat_u64)
  have "within d n (d + of_nat i)" using assms(3) i by (simp add: within_def)
  then have p: "pn (d + of_nat i) = pn d" using page_within [OF assms(2)] by blast
  then have "PGROUNDDOWN (d + of_nat i) = PGROUNDDOWN d" by (simp add: pn_eq_PGROUNDDOWN)
  then show ?thesis using assms
    by (simp add: umem_def readable_page [OF p] upage_page [OF p] add.assoc diff_add_eq)
qed

lemma copyin_ok:
  assumes "vm_inv s r xs" "user_wf s r xs" "len < 2 ^ 63"
  shows "\<exists>rv bs. copyin r d len s = Inr ((rv, bs), s) \<and>
    (rv = 0 \<and> length bs = len \<or> rv = -1 \<and> length bs < len \<and> umem (pmem s) r (d + of_nat (length bs)) = None) \<and>
    (\<forall>i<length bs. umem (pmem s) r (d + of_nat i) = Some (bs ! i))"
  using assms(3)
proof (induction len arbitrary: d rule: less_induct)
  case (less len)
  show ?case
  proof (cases "len = 0 \<or> \<not> readable (pmem s) r d")
    case True
    then have "copyin r d len s = Inr ((if len = 0 then 0 else -1, []), s)"
      using copyin_step [OF assms(1,2), of len d] by (cases "len = 0") (auto simp: copyin.simps)
    with True show ?thesis by (auto simp: umem_def)
  next
    case False
    then have rd: "readable (pmem s) r d" and pos: "len > 0" by auto
    define n where "n = chunk d len"
    let ?d = "PGROUNDDOWN d + PGSIZE" and ?b = "peek (pmem s) (upage (pmem s) r d + (d - PGROUNDDOWN d)) n"
    have n: "n \<le> len" "n \<le> 4096 - unat d mod 4096" "n > 0" "n < len \<Longrightarrow> n = 4096 - unat d mod 4096"
      using chunk_pos [of len d] pos by (auto simp: n_def chunk_eq)
    have lt: "len - n < len" "len - n < 2 ^ 63" using n(1,3) less.prems by auto
    obtain rv rest where R: "copyin r ?d (len - n) s = Inr ((rv, rest), s)"
      "rv = 0 \<and> length rest = len - n \<or> rv = -1 \<and> length rest < len - n \<and> umem (pmem s) r (?d + of_nat (length rest)) = None"
      "\<forall>i<length rest. umem (pmem s) r (?d + of_nat i) = Some (rest ! i)"
      using less.IH [OF lt, of ?d] by blast
    have d: "?d = d + of_nat n" if "n < len"
      using next_page [of d] rd n(4) [OF that] by (simp add: readable_def)
    have i: "umem (pmem s) r (d + of_nat i) = Some ((?b @ rest) ! i)" if "i < n + length rest" for i
    proof (cases "i < n")
      case True
      then show ?thesis using user_read [OF rd n(2) True] by (simp add: nth_append)
    next
      case False
      then have "n < len" "i - n < length rest" using that R(2) n(1) by auto
      moreover have "?d + of_nat (i - n) = d + of_nat i"
        using False d [OF calculation(1)] by (simp add: of_nat_diff)
      ultimately show ?thesis using R(3) False by (metis length_peek nth_append)
    qed
    have "copyin r d len s = Inr ((rv, ?b @ rest), s)"
      using copyin_step [OF assms(1,2) pos, of d] rd R(1) by (simp add: n_def)
    moreover have "?d + of_nat (length rest) = d + of_nat (n + length rest)" if "length rest < len - n"
      using that d by (simp add: add.assoc)
    ultimately show ?thesis using R(2) i n(1)
      by (intro exI [of _ rv] exI [of _ "?b @ rest"]) (auto simp del: of_nat_add)
  qed
qed

section \<open>Frames\<close>

text \<open>The page-table code changes memory, the free list and the held locks, and no other field
  of the state.\<close>

definition kmem_frame :: "'a kmem_scheme \<Rightarrow> 'a kmem_scheme \<Rightarrow> bool" where
  "kmem_frame s s' \<longleftrightarrow> kend s' = kend s \<and> kmem.more s' = kmem.more s"

lemma kmem_frame_simps [simp]:
  "kmem_frame s s" "kmem_frame s (t\<lparr>pmem := m\<rparr>) \<longleftrightarrow> kmem_frame s t" "kmem_frame s (t\<lparr>freelist := f\<rparr>) \<longleftrightarrow> kmem_frame s t"
  "kmem_frame s (t\<lparr>held := h\<rparr>) \<longleftrightarrow> kmem_frame s t" "kmem_frame (t\<lparr>pmem := m\<rparr>) s \<longleftrightarrow> kmem_frame t s"
  by (simp_all add: kmem_frame_def)

lemma kmem_frame_trans: "kmem_frame s t \<Longrightarrow> kmem_frame t u \<Longrightarrow> kmem_frame s u"
  by (simp add: kmem_frame_def)

lemma lk_frame:
  "acquire_lk l s = Inr s' \<Longrightarrow> kmem_frame s s'" "release_lk l s = Inr s' \<Longrightarrow> kmem_frame s s'"
  by (auto simp: acquire_lk_def release_lk_def split: if_splits)

lemma kalloc_frame: "kalloc s = Inr (p, s') \<Longrightarrow> kmem_frame s s'"
  by (auto simp: kalloc_def acquire_lk_def release_lk_def bindr_eq_Inr Let_def split: if_splits)

lemma kfree_frame: "kfree p s = Inr s' \<Longrightarrow> kmem_frame s s'"
  by (auto simp: kfree_def acquire_lk_def release_lk_def bindr_eq_Inr Let_def split: if_splits)

lemma walk_loop_frame: "walk_loop l pt va al s = Inr (a, s') \<Longrightarrow> kmem_frame s s'"
proof (induction l arbitrary: pt s al)
  case (Suc l)
  let ?e = "load64 (pmem s) (pt + 8 * PX (Suc l) va)"
  consider "?e AND PTE_V \<noteq> 0" | "?e AND PTE_V = 0" "\<not> al" | "?e AND PTE_V = 0" al by blast
  then show ?case
  proof cases
    case 3
    with Suc.prems obtain p s1 where p: "kalloc s = Inr (p, s1)" by (auto simp: bindr_eq_Inr Let_def)
    show ?thesis
    proof (cases "p = 0")
      case False
      with Suc.prems 3 p kalloc_frame [OF p] show ?thesis
        by (auto simp: Let_def dest!: Suc.IH intro: kmem_frame_trans)
    qed (use Suc.prems 3 p kalloc_frame [OF p] in \<open>auto simp: Let_def\<close>)
  qed (use Suc in \<open>auto simp: Let_def\<close>)
qed auto

lemma walk_frame: "walk pt va al s = Inr (a, s') \<Longrightarrow> kmem_frame s s'"
  using walk_loop_frame by (auto simp: walk_def split: if_splits)

lemma mappages_loop_frame: "mappages_loop k pt a l pa perm s = Inr (r, s') \<Longrightarrow> kmem_frame s s'"
proof (induction k arbitrary: a pa s)
  case (Suc k)
  obtain pte s1 where w: "walk pt a True s = Inr (pte, s1)" using Suc.prems by (auto simp: bindr_eq_Inr)
  then show ?case using Suc.prems walk_frame [OF w]
    by (auto simp: Let_def split: if_splits dest!: Suc.IH intro: kmem_frame_trans)
qed simp

lemma mappages_frame: "mappages pt va n pa perm s = Inr (r, s') \<Longrightarrow> kmem_frame s s'"
  using mappages_loop_frame by (auto simp: mappages_def simp del: mappages_loop.simps split: if_splits)

lemma uvmunmap_loop_frame: "uvmunmap_loop k pt a l fr s = Inr s' \<Longrightarrow> kmem_frame s s'"
proof (induction k arbitrary: a s)
  case (Suc k)
  show ?case
  proof (cases "a < l")
    case True
    with Suc.prems obtain pte s1 s2 where w: "walk pt a False s = Inr (pte, s1)"
      and f: "(if fr then kfree (PTE2PA (load64 (pmem s1) pte)) s1 else Inr s1) = Inr s2"
      and r: "uvmunmap_loop k pt (a + PGSIZE) l fr (s2\<lparr>pmem := store64 pte 0 (pmem s2)\<rparr>) = Inr s'"
      by (auto simp: bindr_eq_Inr Let_def split: if_splits)
    have "kmem_frame s1 s2" using f kfree_frame by (auto split: if_splits)
    with walk_frame [OF w] Suc.IH [OF r] show ?thesis by (auto intro: kmem_frame_trans)
  qed (use Suc.prems in simp)
qed simp

lemma uvmunmap_frame: "uvmunmap pt va n fr s = Inr s' \<Longrightarrow> kmem_frame s s'"
  using uvmunmap_loop_frame by (auto simp: uvmunmap_def simp del: uvmunmap_loop.simps split: if_splits)

lemma uvmcreate_frame: "uvmcreate s = Inr (p, s') \<Longrightarrow> kmem_frame s s'"
  using kalloc_frame by (fastforce simp: uvmcreate_def bindr_eq_Inr split: if_splits)

lemma freewalk_loop_frame:
  assumes "\<And>pt s s'. rec pt s = Inr s' \<Longrightarrow> kmem_frame s s'"
  shows "freewalk_loop rec k pt s = Inr s' \<Longrightarrow> kmem_frame s s'"
proof (induction k arbitrary: s)
  case (Suc k)
  from Suc.prems show ?case
    by (auto simp: Let_def bindr_eq_Inr split: if_splits dest!: Suc.IH assms intro: kmem_frame_trans)
qed simp

lemma freewalk_frame: "freewalk pt s = Inr s' \<Longrightarrow> kmem_frame s s'"
proof -
  have "freewalk_d d pt s = Inr s' \<Longrightarrow> kmem_frame s s'" for d
  proof (induction d arbitrary: pt s s')
    case (Suc d)
    from Suc.prems obtain t where t: "freewalk_loop (freewalk_d d) 512 pt s = Inr t" "kfree pt t = Inr s'"
      by (auto simp: bindr_eq_Inr simp del: freewalk_loop.simps)
    from freewalk_loop_frame [OF Suc.IH t(1)] kfree_frame [OF t(2)] show ?case by (rule kmem_frame_trans)
  qed simp
  then show "freewalk pt s = Inr s' \<Longrightarrow> kmem_frame s s'" unfolding freewalk_def by blast
qed

lemma uvmfree_frame: "uvmfree pt n s = Inr s' \<Longrightarrow> kmem_frame s s'"
  unfolding uvmfree_def
  by (auto simp: bindr_eq_Inr split: if_splits dest!: uvmunmap_frame freewalk_frame intro: kmem_frame_trans)

lemma copyout_frame: "copyout pt d src s = Inr (r, s') \<Longrightarrow> kmem_frame s s'"
proof (induction pt d src s arbitrary: r s' rule: copyout.induct)
  case (1 pt d src s)
  show ?case
  proof (cases "src = [] \<or> PGROUNDDOWN d \<ge> MAXVA")
    case False
    from "1.prems" False obtain pte s1 where w: "walk pt (PGROUNDDOWN d) False s = Inr (pte, s1)"
      by (subst (asm) copyout.simps) (auto simp: bindr_eq_Inr Let_def)
    show ?thesis
    proof (cases "pte = 0 \<or> load64 (pmem s1) pte AND PTE_V = 0 \<or> load64 (pmem s1) pte AND PTE_U = 0 \<or>
        load64 (pmem s1) pte AND PTE_W = 0")
      case True
      with "1.prems" False w walk_frame [OF w] show ?thesis by (subst (asm) copyout.simps) (auto simp: Let_def)
    next
      case stop: False
      from "1.prems" False w stop have "copyout pt (PGROUNDDOWN d + PGSIZE) (drop (chunk d (length src)) src)
          (s1\<lparr>pmem := poke (PTE2PA (load64 (pmem s1) pte) + (d - PGROUNDDOWN d)) (take (chunk d (length src)) src) (pmem s1)\<rparr>)
          = Inr (r, s')"
        by (subst (asm) copyout.simps) (simp add: Let_def)
      from "1.IH" [OF _ refl _ w refl refl stop refl refl refl this] False walk_frame [OF w]
      show ?thesis by (auto intro: kmem_frame_trans)
    qed
  qed (use "1.prems" in \<open>subst (asm) copyout.simps, auto simp: Let_def split: if_splits\<close>)
qed

text \<open>A machine whose only user page is mapped at virtual address 0.\<close>

definition demo_user :: kmem where
  "demo_user = \<lparr>held = {}, pmem = store64 (0x87FFF000 + 8 * 0) 0x21FFF801
     (store64 (0x87FFE000 + 8 * 0) 0x21FFF401 (store64 (0x87FFD000 + 8 * 0) 0x21FFF017 (\<lambda>_. 0))),
     freelist = 0, kend = 0x80100000\<rparr>"

lemma demo_user_ent:
  assumes "unat i < 512" "t \<in> {0x87FFF000, 0x87FFE000, 0x87FFD000}"
  shows "ent (pmem demo_user) t i = (if i \<noteq> 0 then 0 else if t = 0x87FFF000 then 0x21FFF801
    else if t = 0x87FFE000 then 0x21FFF401 else 0x21FFF017)"
proof -
  have a: "aligned 0x87FFF000" "aligned 0x87FFE000" "aligned 0x87FFD000" by (simp_all add: aligned_unat)
  have t: "aligned t" using assms(2) a by auto
  have z: "ent (\<lambda>_. 0) t i = 0" "unat (0 :: u64) < 512" by (simp_all add: ent_def load64_zero)
  show ?thesis
    unfolding demo_user_def kmem.select_convs ent_store64 [OF a(1) z(2) t assms(1)]
      ent_store64 [OF a(2) z(2) t assms(1)] ent_store64 [OF a(3) z(2) t assms(1)] z(1)
    using assms(2) by auto
qed

lemma demo_user_PTE2PA: "PTE2PA 0x21FFF801 = 0x87FFE000" "PTE2PA 0x21FFF401 = 0x87FFD000" "PTE2PA 0x21FFF017 = 0x87FFC000"
  by (simp_all add: PTE2PA_def drop_bit_eq_div push_bit_eq_mult)

lemma demo_user_node:
  "q \<in> paths \<Longrightarrow> node (pmem demo_user) 0x87FFF000 q = (if q = [] then Some 0x87FFF000
     else if q = [0] then Some 0x87FFE000 else if q = [0, 0] then Some 0x87FFD000 else None)"
  by (cases q rule: list.exhaust; cases "tl q")
    (auto simp: paths_def demo_user_ent demo_user_PTE2PA)

lemma demo_user_pte:
  "va < MAXVA \<Longrightarrow> pte_of (pmem demo_user) 0x87FFF000 va = (if pn va = 0 then 0x21FFF017 else 0)"
proof -
  assume v: "va < MAXVA"
  have "0 < MAXVA" "pn 0 = 0" "PX l 0 = 0" for l by (simp_all add: MAXVA_def pn_def PX_def)
  then have "pn va = 0 \<longleftrightarrow> PX 2 va = 0 \<and> PX 1 va = 0 \<and> PX 0 va = 0"
    using PX_eq_iff [OF v, of 0] by simp
  moreover have "node (pmem demo_user) 0x87FFF000 [PX 2 va, PX 1 va] =
      (if PX 2 va = 0 \<and> PX 1 va = 0 then Some 0x87FFD000 else None)"
    unfolding demo_user_node [OF PX_path] by simp
  ultimately show ?thesis by (simp add: pte_of_def demo_user_ent PX_less del: node.simps)
qed

lemma demo_user_nodes: "nodes (pmem demo_user) 0x87FFF000 = {0x87FFF000, 0x87FFE000, 0x87FFD000}"
proof
  show "nodes (pmem demo_user) 0x87FFF000 \<subseteq> {0x87FFF000, 0x87FFE000, 0x87FFD000}"
    by (auto simp: nodes_def demo_user_node split: if_splits)
  have "[] \<in> paths" "[0] \<in> paths" "[0, 0] \<in> paths" by (simp_all add: paths_def)
  note p = this [THEN nodes_I]
  show "{0x87FFF000, 0x87FFE000, 0x87FFD000} \<subseteq> nodes (pmem demo_user) 0x87FFF000"
    using p(1) [OF demo_user_node [THEN trans]] p(2) [OF demo_user_node [THEN trans]] p(3) [OF demo_user_node [THEN trans]]
    by (auto simp: paths_def)
qed

lemma demo_user_inv: "vm_inv demo_user 0x87FFF000 []"
proof -
  have "p = q" if "p \<in> paths" "q \<in> paths" "node (pmem demo_user) 0x87FFF000 p = Some t"
      "node (pmem demo_user) 0x87FFF000 q = Some t" for p q t
    using that(3,4) unfolding demo_user_node [OF that(1)] demo_user_node [OF that(2)] by (auto split: if_splits)
  moreover have "\<forall>t\<in>{0x87FFF000, 0x87FFE000, 0x87FFD000}. ram_page demo_user t"
    by (simp add: ram_page_def aligned_unat PHYSTOP_def KERNBASE_def demo_user_def)
  ultimately have "pt_wf demo_user 0x87FFF000" unfolding pt_wf_def demo_user_nodes by blast
  then show ?thesis by (simp add: vm_inv_def free_pages_def demo_user_def)
qed

lemma demo_user_wf: "user_wf demo_user 0x87FFF000 []"
proof -
  have rd: "pn va = 0 \<and> upage (pmem demo_user) 0x87FFF000 va = 0x87FFC000"
    if "readable (pmem demo_user) 0x87FFF000 va" for va
    using that by (auto simp: readable_def upage_def demo_user_pte demo_user_PTE2PA split: if_splits)
  then show ?thesis unfolding user_wf_def demo_user_nodes by auto
qed

lemma demo_user_writable: "unat va < 4096 \<Longrightarrow> writable (pmem demo_user) 0x87FFF000 va"
proof -
  assume v: "unat va < 4096"
  then have "va < MAXVA" "pn va = 0" by (simp_all add: word_less_nat_alt pn_def)
  then show ?thesis by (simp add: writable_def readable_def demo_user_pte bit_iff_odd)
qed

section \<open>Properties\<close>



text \<open>
  C12. Bytes that the kernel copies out to writable user memory are the bytes it gets back when
  it copies the same range in; \<open>copyin\<close> leaves the state unchanged.
\<close>

theorem copyout_copyin:
  assumes "vm_inv s r xs" "user_wf s r xs" "length src < 2 ^ 63"
    and wr: "\<And>i. i < length src \<Longrightarrow> writable (pmem s) r (d + of_nat i)"
  shows "\<exists>m. copyout r d src s = Inr (0, s\<lparr>pmem := m\<rparr>) \<and>
    copyin r d (length src) (s\<lparr>pmem := m\<rparr>) = Inr ((0, src), s\<lparr>pmem := m\<rparr>)"
proof -
  obtain m where m: "copyout r d src s = Inr (0, s\<lparr>pmem := m\<rparr>)" "vm_inv (s\<lparr>pmem := m\<rparr>) r xs"
    "user_wf (s\<lparr>pmem := m\<rparr>) r xs" "copied_out (pmem s) r d src (length src) m"
    using copyout_ok [OF assms(1-3), of d] wr by blast
  have u: "umem m r (d + of_nat i) = Some (src ! i)" if "i < length src" for i
    using m(4) that assms(3) by (simp add: copied_out_def within_def unat_of_nat_u64)
  obtain rv bs where b: "copyin r d (length src) (s\<lparr>pmem := m\<rparr>) = Inr ((rv, bs), s\<lparr>pmem := m\<rparr>)"
    "rv = 0 \<and> length bs = length src \<or> rv = -1 \<and> length bs < length src \<and> umem m r (d + of_nat (length bs)) = None"
    "\<forall>i<length bs. umem m r (d + of_nat i) = Some (bs ! i)"
    using copyin_ok [OF m(2,3) assms(3), of d] by auto
  then have "rv = 0" "bs = src" using u by (auto intro: nth_equalityI)
  with m(1) b(1) show ?thesis by blast
qed

theorem copyout_copyin_witness:
  "\<exists>m. copyout 0x87FFF000 5 [7, 8] demo_user = Inr (0, demo_user\<lparr>pmem := m\<rparr>) \<and>
    copyin 0x87FFF000 5 2 (demo_user\<lparr>pmem := m\<rparr>) = Inr ((0, [7, 8]), demo_user\<lparr>pmem := m\<rparr>)"
proof -
  have "writable (pmem demo_user) 0x87FFF000 (5 + of_nat i)" if "i < length [7 :: u8, 8]" for i
  proof -
    have "i = 0 \<or> i = 1" using that by auto
    then show ?thesis by (auto intro!: demo_user_writable)
  qed
  moreover have "length [7 :: u8, 8] < 2 ^ 63" by simp
  ultimately show ?thesis using copyout_copyin [OF demo_user_inv demo_user_wf, of "[7, 8]" 5] by (simp add: numeral_2_eq_2)
qed

end
