(* ===== verification/Kprintf.thy ===== *)
theory Kprintf
  imports Kalloc
begin

text \<open>
  Console output (\<open>kernel/printf.c\<close>). \<open>cout\<close> is what has been sent to the console so far. The
  variable arguments are a list of typed values; reading an argument of another type, or
  more arguments than there are, is a \<open>Fault\<close>, and so is a write past the 16 bytes that
  \<open>printint\<close> has for the digits.
\<close>

record kout = kmem +
  cout :: string
  locking :: bool

datatype parg = AInt u32 | ALong u64 | AStr "string option"

definition digits :: string where
  "digits = ''0123456789abcdef''"

text \<open>The digits of \<open>x\<close>, lowest first. The callers' bases are 10 and 16.\<close>

function digit_loop :: "nat \<Rightarrow> nat \<Rightarrow> string" where
  "digit_loop base x = digits ! (x mod base) #
     (if base \<ge> 2 \<and> x div base \<noteq> 0 then digit_loop base (x div base) else [])"
  by pat_completeness auto
termination
  by (relation "measure (\<lambda>(base, x). x)") (auto intro: div_less_dividend simp: div_greater_zero_iff)

declare digit_loop.simps [simp del]

definition printint :: "u64 \<Rightarrow> nat \<Rightarrow> bool \<Rightarrow> kerr + string" where
  "printint xx base sign =
     (let neg = (sign \<and> xx <s 0);
          x = (if neg then - xx else xx);
          ds = digit_loop base (unat x);
          buf = (if neg then ds @ ''-'' else ds)
      in if length buf > 16 then Inl Fault else Inr (rev buf))"

definition printptr :: "u64 \<Rightarrow> string" where
  "printptr x = ''0x'' @ map (\<lambda>i. digits ! unat (drop_bit 60 (push_bit (4 * i) x))) [0..<16]"

definition ch_at :: "string \<Rightarrow> nat \<Rightarrow> char" where
  "ch_at cs i = (if i < length cs then cs ! i else CHR 0x00)"

definition va_int :: "parg list \<Rightarrow> kerr + (u64 \<times> parg list)" where
  "va_int args = (case args of AInt v # as \<Rightarrow> Inr (scast v, as) | _ \<Rightarrow> Inl Fault)"

definition va_long :: "parg list \<Rightarrow> kerr + (u64 \<times> parg list)" where
  "va_long args = (case args of ALong v # as \<Rightarrow> Inr (v, as) | _ \<Rightarrow> Inl Fault)"

definition va_str :: "parg list \<Rightarrow> kerr + (string option \<times> parg list)" where
  "va_str args = (case args of AStr v # as \<Rightarrow> Inr (v, as) | _ \<Rightarrow> Inl Fault)"

definition emit :: "kerr + string \<Rightarrow> kerr + string \<Rightarrow> kerr + string" where
  "emit r rest = bindr r (\<lambda>s. bindr rest (\<lambda>t. Inr (s @ t)))"

text \<open>The loop over the format string: what it prints.\<close>

function format_loop :: "string \<Rightarrow> parg list \<Rightarrow> kerr + string" where
  "format_loop [] args = Inr []"
| "format_loop (cx # cs) args =
     (if cx \<noteq> CHR ''%'' then emit (Inr [cx]) (format_loop cs args)
      else
        let c0 = ch_at cs 0;
            c1 = (if c0 \<noteq> CHR 0x00 then ch_at cs 1 else CHR 0x00);
            c2 = (if c1 \<noteq> CHR 0x00 then ch_at cs 2 else CHR 0x00)
        in if c0 = CHR ''d'' then
             bindr (va_int args) (\<lambda>(v, as). emit (printint v 10 True) (format_loop (drop 1 cs) as))
           else if c0 = CHR ''l'' \<and> c1 = CHR ''d'' then
             bindr (va_long args) (\<lambda>(v, as). emit (printint v 10 True) (format_loop (drop 2 cs) as))
           else if c0 = CHR ''l'' \<and> c1 = CHR ''l'' \<and> c2 = CHR ''d'' then
             bindr (va_long args) (\<lambda>(v, as). emit (printint v 10 True) (format_loop (drop 3 cs) as))
           else if c0 = CHR ''u'' then
             bindr (va_int args) (\<lambda>(v, as). emit (printint v 10 False) (format_loop (drop 1 cs) as))
           else if c0 = CHR ''l'' \<and> c1 = CHR ''u'' then
             bindr (va_long args) (\<lambda>(v, as). emit (printint v 10 False) (format_loop (drop 2 cs) as))
           else if c0 = CHR ''l'' \<and> c1 = CHR ''l'' \<and> c2 = CHR ''u'' then
             bindr (va_long args) (\<lambda>(v, as). emit (printint v 10 False) (format_loop (drop 3 cs) as))
           else if c0 = CHR ''x'' then
             bindr (va_int args) (\<lambda>(v, as). emit (printint v 16 False) (format_loop (drop 1 cs) as))
           else if c0 = CHR ''l'' \<and> c1 = CHR ''x'' then
             bindr (va_long args) (\<lambda>(v, as). emit (printint v 16 False) (format_loop (drop 2 cs) as))
           else if c0 = CHR ''l'' \<and> c1 = CHR ''l'' \<and> c2 = CHR ''x'' then
             bindr (va_long args) (\<lambda>(v, as). emit (printint v 16 False) (format_loop (drop 3 cs) as))
           else if c0 = CHR ''p'' then
             bindr (va_long args) (\<lambda>(v, as). emit (Inr (printptr v)) (format_loop (drop 1 cs) as))
           else if c0 = CHR ''s'' then
             bindr (va_str args) (\<lambda>(v, as).
               emit (Inr (case v of None \<Rightarrow> ''(null)'' | Some t \<Rightarrow> t)) (format_loop (drop 1 cs) as))
           else if c0 = CHR ''%'' then emit (Inr ''%'') (format_loop (drop 1 cs) args)
           else if c0 = CHR 0x00 then Inr []
           else emit (Inr [CHR ''%'', c0]) (format_loop (drop 1 cs) args))"
  by pat_completeness auto
termination
  by (relation "measure (\<lambda>(cs, _). length cs)") auto

declare format_loop.simps [simp del]

definition printf :: "string \<Rightarrow> parg list \<Rightarrow> 'a kout_scheme \<Rightarrow> kerr + 'a kout_scheme" where
  "printf fmt args s =
     bindr (if locking s then acquire_lk PrLock s else Inr s) (\<lambda>s1.
     bindr (format_loop fmt args) (\<lambda>out.
     let s2 = s1\<lparr>cout := cout s1 @ out\<rparr> in
     if locking s then release_lk PrLock s2 else Inr s2))"

definition printfinit :: "'a kout_scheme \<Rightarrow> 'a kout_scheme" where
  "printfinit s = s\<lparr>locking := True\<rparr>"

text \<open>What \<open>panic\<close> prints before it stops the machine.\<close>

definition panic_output :: "string \<Rightarrow> 'a kout_scheme \<Rightarrow> kerr + 'a kout_scheme" where
  "panic_output msg s =
     bindr (printf ''panic: '' [] (s\<lparr>locking := False\<rparr>)) (printf (''%s'' @ [CHR 0x0A]) [AStr (Some msg)])"

section \<open>Reading back what was printed\<close>

definition digit_val :: "char \<Rightarrow> nat" where
  "digit_val c = length (takeWhile (\<lambda>d. d \<noteq> c) digits)"

primrec num_le :: "nat \<Rightarrow> string \<Rightarrow> nat" where
  "num_le base [] = 0"
| "num_le base (c # cs) = digit_val c + base * num_le base cs"

text \<open>The number a printed string denotes: an optional sign and the digits, highest first.\<close>

definition read_int :: "nat \<Rightarrow> string \<Rightarrow> int" where
  "read_int base str = (if str \<noteq> [] \<and> hd str = CHR ''-'' then - int (num_le base (rev (tl str)))
     else int (num_le base (rev str)))"

lemma digit_val_digits: "k < 16 \<Longrightarrow> digit_val (digits ! k) = k \<and> digits ! k \<noteq> CHR ''-''"
proof -
  have "\<forall>k<16. digit_val (digits ! k) = k \<and> digits ! k \<noteq> CHR ''-''" by code_simp
  then show "k < 16 \<Longrightarrow> ?thesis" by blast
qed

lemma num_le_digit_loop: "2 \<le> base \<Longrightarrow> base \<le> 16 \<Longrightarrow> num_le base (digit_loop base x) = x"
proof (induction base x rule: digit_loop.induct)
  case (1 base x)
  have "x mod base < base" using 1(2) by simp
  then have "digit_val (digits ! (x mod base)) = x mod base"
    using 1(3) digit_val_digits [of "x mod base"] by simp
  with 1 show ?case by (subst digit_loop.simps) (auto simp: mult.commute div_eq_0_iff)
qed

lemma length_digit_loop: "2 \<le> base \<Longrightarrow> 0 < n \<Longrightarrow> length (digit_loop base x) \<le> n \<longleftrightarrow> x < base ^ n"
proof (induction base x arbitrary: n rule: digit_loop.induct)
  case (1 base x)
  obtain k where n: "n = Suc k" using 1(3) by (cases n) auto
  show ?case
  proof (cases "x div base = 0")
    case True
    then have "x < base" using 1(2) by (simp add: div_eq_0_iff)
    moreover have "base \<le> base ^ n" using 1(2,3) by (simp add: self_le_power)
    ultimately have "x < base ^ n" by linarith
    then show ?thesis using True 1(3) by (subst digit_loop.simps) auto
  next
    case False
    have "x < base ^ n \<longleftrightarrow> x div base < base ^ k"
      using 1(2) by (simp add: n div_less_iff_less_mult mult.commute)
    moreover have "length (digit_loop base (x div base)) \<le> k \<longleftrightarrow> x div base < base ^ k"
    proof (cases "k = 0")
      case True
      then show ?thesis using False by (subst digit_loop.simps) auto
    qed (use 1 False in auto)
    ultimately show ?thesis using False 1(2) n by (subst digit_loop.simps) auto
  qed
qed

lemma read_int_digits:
  assumes "2 \<le> base" "base \<le> 16"
  shows "read_int base (rev (digit_loop base x)) = int x" "read_int base (CHR ''-'' # rev (digit_loop base x)) = - int x"
proof -
  have nm: "\<forall>c\<in>set (digit_loop base x). c \<noteq> CHR ''-''"
    using assms
  proof (induction base x rule: digit_loop.induct)
    case (1 base x)
    have "x mod base < base" using 1(2) by simp
    then have "digits ! (x mod base) \<noteq> CHR ''-''"
      using 1(3) digit_val_digits [of "x mod base"] by simp
    with 1 show ?case by (subst digit_loop.simps) auto
  qed
  have "hd (rev (digit_loop base x)) \<noteq> CHR ''-''" if "rev (digit_loop base x) \<noteq> []"
    using nm hd_in_set [OF that] by simp
  moreover have "rev (digit_loop base x) \<noteq> []" by (subst digit_loop.simps) simp
  ultimately obtain c cs where c: "rev (digit_loop base x) = c # cs" "c \<noteq> CHR ''-''"
    by (cases "rev (digit_loop base x)") auto
  then have "read_int base (rev (digit_loop base x)) = int (num_le base (rev (rev (digit_loop base x))))"
    unfolding read_int_def c(1) by simp
  then show "read_int base (rev (digit_loop base x)) = int x"
    using num_le_digit_loop [OF assms, of x] by simp
  show "read_int base (CHR ''-'' # rev (digit_loop base x)) = - int x"
    using num_le_digit_loop [OF assms, of x] by (simp add: read_int_def)
qed

lemma int_unat_sint: "int (unat (xx :: u64)) = sint xx mod 2 ^ 64"
  using uint_sint [of xx] by (simp add: take_bit_eq_mod)

lemma unat_nonneg: "0 \<le> sint xx \<Longrightarrow> int (unat (xx :: u64)) = sint xx"
  unfolding int_unat_sint using sint_less [of xx] by (intro mod_pos_pos_trivial) auto

lemma unat_uminus_neg: "sint xx < 0 \<Longrightarrow> int (unat (- xx :: u64)) = - sint xx"
proof -
  assume neg: "sint xx < 0"
  have "int (unat (- xx)) = (- int (unat xx)) mod 2 ^ 64" by (simp add: uint_word_ariths)
  also have "\<dots> = (- sint xx) mod 2 ^ 64" unfolding int_unat_sint by (rule mod_minus_eq)
  also have "\<dots> = - sint xx"
    using neg sint_greater_eq [of xx] by (intro mod_pos_pos_trivial) auto
  finally show ?thesis .
qed

lemma nat_int_less: "(n :: nat) < 10 ^ 15 \<longleftrightarrow> int n < 10 ^ 15" "n < 10 ^ 16 \<longleftrightarrow> int n < 10 ^ 16"
  by simp_all

lemma printint_True:
  "printint xx 10 True = (if - (10 ^ 15) < sint xx \<and> sint xx < 10 ^ 16
     then Inr (if sint xx < 0 then CHR ''-'' # rev (digit_loop 10 (unat (- xx))) else rev (digit_loop 10 (unat xx)))
     else Inl Fault)"
proof (cases "xx <s 0")
  case True
  then have neg: "sint xx < 0" by (simp add: word_sless_alt)
  note u = unat_uminus_neg [OF neg]
  have "length (digit_loop 10 (unat (- xx))) \<le> 15 \<longleftrightarrow> unat (- xx) < 10 ^ 15"
    by (rule length_digit_loop) auto
  also have "\<dots> \<longleftrightarrow> - (10 ^ 15) < sint xx" unfolding nat_int_less u by linarith
  finally show ?thesis using True neg by (auto simp: printint_def Let_def)
next
  case False
  then have nn: "0 \<le> sint xx" by (simp add: word_sless_alt)
  note u = unat_nonneg [OF nn]
  have lo: "- (10 ^ 15) < sint xx" using nn by simp
  have "length (digit_loop 10 (unat xx)) \<le> 16 \<longleftrightarrow> unat xx < 10 ^ 16"
    by (rule length_digit_loop) auto
  also have "\<dots> \<longleftrightarrow> sint xx < 10 ^ 16" unfolding nat_int_less u ..
  finally have fits: "length (digit_loop 10 (unat xx)) \<le> 16 \<longleftrightarrow> sint xx < 10 ^ 16" .
  have "printint xx 10 True =
      (if length (digit_loop 10 (unat xx)) \<le> 16 then Inr (rev (digit_loop 10 (unat xx))) else Inl Fault)"
    using False by (simp add: printint_def Let_def)
  then show ?thesis unfolding fits using lo nn by (simp only: not_less [symmetric] if_False simp_thms if_cancel)
qed

lemma printint_int: "\<exists>out. printint (scast (v :: u32)) 10 True = Inr out"
proof -
  have "sint (scast v :: u64) = sint v" by (simp add: sint_up_scast is_up)
  moreover have "- (2 ^ 31) \<le> sint v" "sint v < 2 ^ 31" using sint_greater_eq [of v] sint_less [of v] by simp_all
  ultimately have "- (10 ^ 15) < sint (scast v :: u64)" "sint (scast v :: u64) < 10 ^ 16" by simp_all
  then show ?thesis unfolding printint_True by simp
qed

lemma printint_unsigned: "unat v < 10 ^ 16 \<Longrightarrow> \<exists>out. printint v 10 False = Inr out"
  using length_digit_loop [of 10 16 "unat v"] by (simp add: printint_def Let_def)

section \<open>Formats\<close>

lemma printf_out:
  "PrLock \<notin> held s \<Longrightarrow> format_loop fmt args = Inr out \<Longrightarrow> printf fmt args s = Inr (s\<lparr>cout := cout s @ out\<rparr>)"
  by (auto simp: printf_def acquire_lk_def release_lk_def Let_def)

lemma format_loop_plain:
  "\<forall>c\<in>set xs. c \<noteq> CHR ''%'' \<Longrightarrow> format_loop (xs @ fmt) args = emit (Inr xs) (format_loop fmt args)"
proof (induction xs)
  case (Cons x xs)
  then show ?case by (cases "format_loop fmt args") (simp_all add: format_loop.simps emit_def)
next
  case Nil
  then show ?case by (cases "format_loop fmt args") (simp_all add: emit_def)
qed

lemma format_d: "format_loop (''%d'' @ fmt) (AInt v # as) = emit (printint (scast v) 10 True) (format_loop fmt as)"
  by (simp add: format_loop.simps ch_at_def va_int_def)

lemma format_lu: "format_loop (''%lu'' @ fmt) (ALong v # as) = emit (printint v 10 False) (format_loop fmt as)"
  by (simp add: format_loop.simps ch_at_def va_long_def)

text \<open>A message with a process number and a time prints as long as the time has at most 16
  digits.\<close>

lemma format_pid_time:
  assumes "\<forall>c\<in>set xs \<union> set ys \<union> set zs. c \<noteq> CHR ''%''" "unat v < 10 ^ 16"
  shows "\<exists>out. format_loop (xs @ ''%d'' @ ys @ ''%lu'' @ zs) [AInt p, ALong v] = Inr out"
proof -
  obtain o1 o2 where "printint (scast p) 10 True = Inr o1" "printint v 10 False = Inr o2"
    using printint_int printint_unsigned [OF assms(2)] by blast
  moreover have px: "\<forall>c\<in>set xs. c \<noteq> CHR ''%''" and py: "\<forall>c\<in>set ys. c \<noteq> CHR ''%''"
    and pz: "\<forall>c\<in>set zs. c \<noteq> CHR ''%''" using assms(1) by auto
  moreover have "format_loop zs [] = Inr zs"
    using format_loop_plain [OF pz, of "[]" "[]"] by (simp add: format_loop.simps emit_def)
  ultimately show ?thesis
    unfolding format_loop_plain [OF px] format_d format_loop_plain [OF py] format_lu by (simp add: emit_def)
qed

section \<open>Properties\<close>

text \<open>
  C40. The number that \<open>printf\<close> prints for a signed 64-bit value reads back as that value, and the
  digits overrun the buffer of 16 bytes exactly when the value is \<open>10 ^ 16\<close> or more, or
  \<open>- 10 ^ 15\<close> or less.
\<close>

theorem printint_signed:
  "(printint xx 10 True = Inl Fault \<longleftrightarrow> \<not> (- (10 ^ 15) < sint xx \<and> sint xx < 10 ^ 16)) \<and>
   (\<forall>str. printint xx 10 True = Inr str \<longrightarrow> read_int 10 str = sint xx)"
proof (cases "sint xx < 0")
  case True
  have "read_int 10 (CHR ''-'' # rev (digit_loop 10 (unat (- xx)))) = - int (unat (- xx))"
    by (rule read_int_digits) auto
  then show ?thesis unfolding printint_True unat_uminus_neg [OF True] using True by (auto split: if_splits)
next
  case False
  have "read_int 10 (rev (digit_loop 10 (unat xx))) = int (unat xx)" by (rule read_int_digits) auto
  then show ?thesis unfolding printint_True using False unat_nonneg [of xx] by (auto split: if_splits)
qed

theorem printint_signed_witness:
  "printint 10000000000000000 10 True = Inl Fault \<and> read_int 10 ''42'' = sint (42 :: u64)"
proof -
  have s: "sint (10000000000000000 :: u64) = 10000000000000000" "sint (42 :: u64) = 42"
    by (simp_all add: sint_uint signed_take_bit_eq_if_positive bit_iff_odd take_bit_eq_mod)
  have "printint 42 10 True = Inr ''42''"
    by (simp add: printint_def digit_loop.simps digits_def Let_def word_sless_alt s)
  then show ?thesis using printint_signed [of 10000000000000000] printint_signed [of 42] s by simp
qed

end
