(* ===== verification/Proc.thy ===== *)
theory Proc
  imports Vm Kprintf
begin

text \<open>
  Processes and the scheduler (\<open>kernel/proc.c\<close> without \<open>fork\<close>, \<open>exit\<close> and \<open>userinit\<close>, which
  need the file system and are in theory \<open>Lifecycle\<close>). The state is the view of one hart: \<open>cur\<close> is \<open>mycpu()->proc\<close> and \<open>held\<close>
  the spin locks the hart has. The process table is a function on indices below \<open>NPROC\<close>, and
  a pointer to a process is its index. \<open>clk\<close> gives the values that successive reads of the
  machine's timer return. A routine that may sleep is split where \<open>sched\<close> switches to the
  scheduler: the part before it ends in \<open>Sleeps\<close>, the part after it starts with \<open>sleep_exit\<close>.
  The linker's symbols \<open>trampoline\<close> and \<open>forkret\<close> are fields of the state.
\<close>

section \<open>State\<close>

datatype procstate = UNUSED | USED | SLEEPING | RUNNABLE | RUNNING | ZOMBIE

record pcontext =
  ra :: u64
  sp :: u64
  callee_saved :: "u64 list"

record proc =
  pstate :: procstate
  pchan :: "chan option"
  killed_f :: int
  xstate :: int
  pid :: u32
  parent :: "nat option"
  kstack :: u64
  sz :: u64
  pagetable :: u64
  trapframe :: u64
  ctx :: pcontext
  ofile :: "nat option list"
  cwd :: "nat option"
  pname :: "u8 list"
  start_time :: u64
  turnaround_time :: u64
  wait_time :: u64
  total_wait_time :: u64
  wait_time_ticks :: u64
  end_time :: u64
  priority :: int

record pst = kout +
  procs :: "nat \<Rightarrow> proc"
  cur :: "nat option"
  nextpid :: u32
  initproc :: "nat option"
  ticks :: u32
  clk :: "nat \<Rightarrow> u64"
  clk_reads :: nat
  trampoline :: u64
  forkret_addr :: u64

datatype 'r outcome = Done 'r | Sleeps chan

definition updp :: "nat \<Rightarrow> (proc \<Rightarrow> proc) \<Rightarrow> 'a pst_scheme \<Rightarrow> 'a pst_scheme" where
  "updp i f s = s\<lparr>procs := (procs s)(i := f (procs s i))\<rparr>"

definition r_time :: "'a pst_scheme \<Rightarrow> u64 \<times> 'a pst_scheme" where
  "r_time s = (clk s (clk_reads s), s\<lparr>clk_reads := clk_reads s + 1\<rparr>)"

section \<open>Process table\<close>

primrec procinit_loop :: "nat \<Rightarrow> nat \<Rightarrow> 'a pst_scheme \<Rightarrow> 'a pst_scheme" where
  "procinit_loop 0 i s = s"
| "procinit_loop (Suc k) i s =
     procinit_loop k (i + 1) (updp i (\<lambda>p. p\<lparr>pstate := UNUSED, kstack := KSTACK (of_nat i)\<rparr>) s)"

definition procinit :: "'a pst_scheme \<Rightarrow> 'a pst_scheme" where
  "procinit s = procinit_loop NPROC 0 s"

text \<open>Dereferencing a null \<open>myproc()\<close> faults.\<close>

definition myproc :: "'a pst_scheme \<Rightarrow> kerr + nat" where
  "myproc s = (case cur s of None \<Rightarrow> Inl Fault | Some p \<Rightarrow> Inr p)"

definition allocpid :: "'a pst_scheme \<Rightarrow> kerr + (u32 \<times> 'a pst_scheme)" where
  "allocpid s =
     bindr (acquire_lk PidLock s) (\<lambda>s1.
     let p = nextpid s1; s2 = s1\<lparr>nextpid := nextpid s1 + 1\<rparr> in
     bindr (release_lk PidLock s2) (\<lambda>s3. Inr (p, s3)))"

definition proc_pagetable :: "nat \<Rightarrow> 'a pst_scheme \<Rightarrow> kerr + (u64 \<times> 'a pst_scheme)" where
  "proc_pagetable p s =
     bindr (uvmcreate s) (\<lambda>(pt, s1).
     if pt = 0 then Inr (0, s1)
     else bindr (mappages pt TRAMPOLINE PGSIZE (trampoline s1) (PTE_R OR PTE_X) s1) (\<lambda>(r, s2).
       if r < 0 then bindr (uvmfree pt 0 s2) (\<lambda>s3. Inr (0, s3))
       else bindr (mappages pt TRAPFRAME PGSIZE (trapframe (procs s2 p)) (PTE_R OR PTE_W) s2) (\<lambda>(r', s3).
         if r' < 0 then
           bindr (uvmunmap pt TRAMPOLINE 1 False s3) (\<lambda>s4.
           bindr (uvmfree pt 0 s4) (\<lambda>s5. Inr (0, s5)))
         else Inr (pt, s3))))"

definition proc_freepagetable :: "u64 \<Rightarrow> u64 \<Rightarrow> 'a pst_scheme \<Rightarrow> kerr + 'a pst_scheme" where
  "proc_freepagetable pt sz_v s =
     bindr (uvmunmap pt TRAMPOLINE 1 False s) (\<lambda>s1.
     bindr (uvmunmap pt TRAPFRAME 1 False s1) (uvmfree pt sz_v))"

definition freeproc :: "nat \<Rightarrow> 'a pst_scheme \<Rightarrow> kerr + 'a pst_scheme" where
  "freeproc p s =
     bindr (if trapframe (procs s p) \<noteq> 0 then kfree (trapframe (procs s p)) s else Inr s) (\<lambda>s1.
     let s2 = updp p (\<lambda>r. r\<lparr>trapframe := 0\<rparr>) s1 in
     bindr (if pagetable (procs s2 p) \<noteq> 0
            then proc_freepagetable (pagetable (procs s2 p)) (sz (procs s2 p)) s2 else Inr s2) (\<lambda>s3.
     Inr (updp p (\<lambda>r. r\<lparr>pagetable := 0, sz := 0, pid := 0, parent := None, pname := (pname r)[0 := 0],
       pchan := None, killed_f := 0, xstate := 0, pstate := UNUSED\<rparr>) s3)))"

text \<open>The search for an unused slot, which is returned with its lock held.\<close>

primrec allocproc_find :: "nat \<Rightarrow> nat \<Rightarrow> 'a pst_scheme \<Rightarrow> kerr + (nat option \<times> 'a pst_scheme)" where
  "allocproc_find 0 i s = Inr (None, s)"
| "allocproc_find (Suc k) i s =
     bindr (acquire_lk (ProcLock i) s) (\<lambda>s1.
     if pstate (procs s1 i) = UNUSED then Inr (Some i, s1)
     else bindr (release_lk (ProcLock i) s1) (allocproc_find k (i + 1)))"

definition allocproc :: "'a pst_scheme \<Rightarrow> kerr + (nat option \<times> 'a pst_scheme)" where
  "allocproc s =
     bindr (allocproc_find NPROC 0 s) (\<lambda>(found, s1).
     case found of None \<Rightarrow> Inr (None, s1)
     | Some p \<Rightarrow>
       bindr (allocpid s1) (\<lambda>(n, s2).
       let s3 = updp p (\<lambda>r. r\<lparr>pid := n, priority := 10, pstate := USED\<rparr>) s2;
           fail = (\<lambda>t. bindr (freeproc p t) (\<lambda>t1. bindr (release_lk (ProcLock p) t1) (\<lambda>t2. Inr (None, t2))))
       in bindr (kalloc s3) (\<lambda>(tf, s4).
          let s5 = updp p (\<lambda>r. r\<lparr>trapframe := tf\<rparr>) s4 in
          if tf = 0 then fail s5
          else bindr (proc_pagetable p s5) (\<lambda>(pt, s6).
            let s7 = updp p (\<lambda>r. r\<lparr>pagetable := pt\<rparr>) s6 in
            if pt = 0 then fail s7
            else Inr (Some p, updp p (\<lambda>r. r\<lparr>ctx := \<lparr>ra = forkret_addr s7,
              sp = kstack (procs s7 p) + PGSIZE, callee_saved = replicate 12 0\<rparr>\<rparr>) s7)))))"

definition growproc :: "int \<Rightarrow> 'a pst_scheme \<Rightarrow> kerr + (int \<times> 'a pst_scheme)" where
  "growproc n s =
     bindr (myproc s) (\<lambda>p.
     let size = sz (procs s p) in
     if n > 0 then
       bindr (uvmalloc (pagetable (procs s p)) size (size + of_int n) PTE_W s) (\<lambda>(size', s1).
       if size' = 0 then Inr (-1, s1) else Inr (0, updp p (\<lambda>r. r\<lparr>sz := size'\<rparr>) s1))
     else if n < 0 then
       bindr (uvmdealloc (pagetable (procs s p)) size (size + of_int n) s) (\<lambda>(size', s1).
       Inr (0, updp p (\<lambda>r. r\<lparr>sz := size'\<rparr>) s1))
     else Inr (0, updp p (\<lambda>r. r\<lparr>sz := size\<rparr>) s))"

section \<open>Sleeping and waking\<close>

text \<open>The checks of \<open>sched\<close>. The nesting depth is the number of locks held, and a hart that holds
  a lock runs with interrupts off.\<close>

definition sched :: "'a pst_scheme \<Rightarrow> kerr + 'a pst_scheme" where
  "sched s =
     bindr (myproc s) (\<lambda>p.
     if ProcLock p \<notin> held s then Inl (Panic ''sched p->lock'')
     else if card (held s) \<noteq> 1 then Inl (Panic ''sched locks'')
     else if pstate (procs s p) = RUNNING then Inl (Panic ''sched running'')
     else Inr s)"

text \<open>\<open>yield\<close> up to the switch; it resumes with \<open>release(&p->lock)\<close>.\<close>

definition yield :: "'a pst_scheme \<Rightarrow> kerr + 'a pst_scheme" where
  "yield s =
     bindr (myproc s) (\<lambda>p.
     bindr (acquire_lk (ProcLock p) s) (\<lambda>s1.
     let s2 = updp p (\<lambda>r. r\<lparr>pstate := RUNNABLE\<rparr>) s1;
         (now, s3) = r_time s2;
         s4 = updp p (\<lambda>r. r\<lparr>wait_time := now\<rparr>) s3
     in bindr (printf (CHR 0x0A # ''YIELD: PID %d BECAME WAITING AT %lu'' @ [CHR 0x0A])
          [AInt (pid (procs s4 p)), ALong (wait_time (procs s4 p))] s4) sched))"

definition yield_exit :: "'a pst_scheme \<Rightarrow> kerr + 'a pst_scheme" where
  "yield_exit s = bindr (myproc s) (\<lambda>p. release_lk (ProcLock p) s)"

definition sleep_enter :: "chan \<Rightarrow> lockid \<Rightarrow> 'a pst_scheme \<Rightarrow> kerr + 'a pst_scheme" where
  "sleep_enter c lk s =
     bindr (myproc s) (\<lambda>p.
     bindr (acquire_lk (ProcLock p) s) (\<lambda>s1.
     bindr (release_lk lk s1) (\<lambda>s2.
     sched (updp p (\<lambda>r. r\<lparr>pchan := Some c, pstate := SLEEPING\<rparr>) s2))))"

definition sleep_exit :: "lockid \<Rightarrow> 'a pst_scheme \<Rightarrow> kerr + 'a pst_scheme" where
  "sleep_exit lk s =
     bindr (myproc s) (\<lambda>p.
     let s1 = updp p (\<lambda>r. r\<lparr>pchan := None\<rparr>) s in
     bindr (release_lk (ProcLock p) s1) (acquire_lk lk))"

text \<open>For a routine modelled in one piece, going to sleep is the result \<open>Block\<close>.\<close>

definition sleep_block :: "chan \<Rightarrow> lockid \<Rightarrow> 'a pst_scheme \<Rightarrow> kerr + 'b" where
  "sleep_block c lk s = bindr (sleep_enter c lk s) (\<lambda>_. Inl (Block c))"

primrec wakeup_loop :: "nat \<Rightarrow> nat \<Rightarrow> chan \<Rightarrow> 'a pst_scheme \<Rightarrow> kerr + 'a pst_scheme" where
  "wakeup_loop 0 i c s = Inr s"
| "wakeup_loop (Suc k) i c s =
     (if cur s \<noteq> Some i then
        bindr (acquire_lk (ProcLock i) s) (\<lambda>s1.
        let s2 = (if pstate (procs s1 i) = SLEEPING \<and> pchan (procs s1 i) = Some c
                  then let s' = updp i (\<lambda>r. r\<lparr>pstate := RUNNABLE\<rparr>) s1; (now, s'') = r_time s'
                       in updp i (\<lambda>r. r\<lparr>wait_time := now\<rparr>) s''
                  else s1)
        in bindr (release_lk (ProcLock i) s2) (wakeup_loop k (i + 1) c))
      else wakeup_loop k (i + 1) c s)"

definition wakeup :: "chan \<Rightarrow> 'a pst_scheme \<Rightarrow> kerr + 'a pst_scheme" where
  "wakeup c s = wakeup_loop NPROC 0 c s"

primrec kill_loop :: "nat \<Rightarrow> nat \<Rightarrow> u32 \<Rightarrow> 'a pst_scheme \<Rightarrow> kerr + (int \<times> 'a pst_scheme)" where
  "kill_loop 0 i n s = Inr (-1, s)"
| "kill_loop (Suc k) i n s =
     bindr (acquire_lk (ProcLock i) s) (\<lambda>s1.
     if pid (procs s1 i) = n then
       let s2 = updp i (\<lambda>r. r\<lparr>killed_f := 1\<rparr>) s1;
           s3 = (if pstate (procs s2 i) = SLEEPING then updp i (\<lambda>r. r\<lparr>pstate := RUNNABLE\<rparr>) s2 else s2)
       in bindr (release_lk (ProcLock i) s3) (\<lambda>s4. Inr (0, s4))
     else bindr (release_lk (ProcLock i) s1) (kill_loop k (i + 1) n))"

definition kill :: "u32 \<Rightarrow> 'a pst_scheme \<Rightarrow> kerr + (int \<times> 'a pst_scheme)" where
  "kill n s = kill_loop NPROC 0 n s"

definition setkilled :: "nat \<Rightarrow> 'a pst_scheme \<Rightarrow> kerr + 'a pst_scheme" where
  "setkilled p s =
     bindr (acquire_lk (ProcLock p) s) (\<lambda>s1.
     release_lk (ProcLock p) (updp p (\<lambda>r. r\<lparr>killed_f := 1\<rparr>) s1))"

definition killed :: "nat \<Rightarrow> 'a pst_scheme \<Rightarrow> kerr + (int \<times> 'a pst_scheme)" where
  "killed p s =
     bindr (acquire_lk (ProcLock p) s) (\<lambda>s1.
     let k = killed_f (procs s1 p) in
     bindr (release_lk (ProcLock p) s1) (\<lambda>s2. Inr (k, s2)))"

primrec reparent_loop :: "nat \<Rightarrow> nat \<Rightarrow> nat \<Rightarrow> 'a pst_scheme \<Rightarrow> kerr + 'a pst_scheme" where
  "reparent_loop 0 i p s = Inr s"
| "reparent_loop (Suc k) i p s =
     (if parent (procs s i) = Some p then
        let s1 = updp i (\<lambda>r. r\<lparr>parent := initproc s\<rparr>) s in
        bindr (case initproc s1 of None \<Rightarrow> Inr s1 | Some q \<Rightarrow> wakeup (ChanProc q) s1) (reparent_loop k (i + 1) p)
      else reparent_loop k (i + 1) p s)"

definition reparent :: "nat \<Rightarrow> 'a pst_scheme \<Rightarrow> kerr + 'a pst_scheme" where
  "reparent p s = reparent_loop NPROC 0 p s"

section \<open>Waiting for children\<close>

text \<open>The bytes of \<open>struct proc_time\<close>, with its trailing padding.\<close>

definition proc_time_bytes :: "proc \<Rightarrow> u8 list" where
  "proc_time_bytes r =
     le_bytes 8 (unat (scast (pid r) :: u64)) @ le_bytes 8 (unat (start_time r)) @
     le_bytes 8 (unat (turnaround_time r)) @ le_bytes 8 (unat (wait_time r)) @
     le_bytes 8 (unat (total_wait_time r)) @ le_bytes 8 (unat (end_time r)) @
     le_bytes 4 (unat (of_int (priority r) :: u32)) @ replicate 4 0"

primrec wait_scan :: "nat \<Rightarrow> nat \<Rightarrow> nat \<Rightarrow> u64 \<Rightarrow> bool \<Rightarrow> 'a pst_scheme \<Rightarrow> kerr + ((int option \<times> bool) \<times> 'a pst_scheme)" where
  "wait_scan 0 i p addr havekids s = Inr ((None, havekids), s)"
| "wait_scan (Suc k) i p addr havekids s =
     (if parent (procs s i) = Some p then
        bindr (acquire_lk (ProcLock i) s) (\<lambda>s1.
        if pstate (procs s1 i) = ZOMBIE then
          let n = pid (procs s1 i) in
          bindr (if addr \<noteq> 0 then copyout (pagetable (procs s1 p)) addr (proc_time_bytes (procs s1 i)) s1
                 else Inr (0, s1)) (\<lambda>(r, s2).
          if r < 0 then
            bindr (release_lk (ProcLock i) s2) (\<lambda>s3.
            bindr (release_lk WaitLock s3) (\<lambda>s4. Inr ((Some (-1), True), s4)))
          else
            bindr (freeproc i s2) (\<lambda>s3.
            bindr (release_lk (ProcLock i) s3) (\<lambda>s4.
            bindr (release_lk WaitLock s4) (\<lambda>s5. Inr ((Some (sint n), True), s5)))))
        else bindr (release_lk (ProcLock i) s1) (wait_scan k (i + 1) p addr True))
      else wait_scan k (i + 1) p addr havekids s)"

text \<open>One round of the loop of \<open>wait\<close>, with \<open>wait_lock\<close> held.\<close>

definition wait_round :: "u64 \<Rightarrow> 'a pst_scheme \<Rightarrow> kerr + (int outcome \<times> 'a pst_scheme)" where
  "wait_round addr s =
     bindr (myproc s) (\<lambda>p.
     bindr (wait_scan NPROC 0 p addr False s) (\<lambda>((ret, havekids), s1).
     case ret of Some r \<Rightarrow> Inr (Done r, s1)
     | None \<Rightarrow>
       bindr (if havekids then killed p s1 else Inr (1, s1)) (\<lambda>(kl, s2).
       if kl \<noteq> 0 then bindr (release_lk WaitLock s2) (\<lambda>s3. Inr (Done (-1), s3))
       else bindr (sleep_enter (ChanProc p) WaitLock s2) (\<lambda>s3. Inr (Sleeps (ChanProc p), s3)))))"

definition wait :: "u64 \<Rightarrow> 'a pst_scheme \<Rightarrow> kerr + (int outcome \<times> 'a pst_scheme)" where
  "wait addr s = bindr (acquire_lk WaitLock s) (wait_round addr)"

definition wait_resume :: "u64 \<Rightarrow> 'a pst_scheme \<Rightarrow> kerr + (int outcome \<times> 'a pst_scheme)" where
  "wait_resume addr s = bindr (sleep_exit WaitLock s) (wait_round addr)"

section \<open>Copies and listings\<close>

definition either_copyout :: "bool \<Rightarrow> u64 \<Rightarrow> u8 list \<Rightarrow> 'a pst_scheme \<Rightarrow> kerr + (int \<times> 'a pst_scheme)" where
  "either_copyout user_dst dst src s =
     (if user_dst then bindr (myproc s) (\<lambda>p. copyout (pagetable (procs s p)) dst src s)
      else Inr (0, s\<lparr>pmem := poke dst src (pmem s)\<rparr>))"

definition either_copyin :: "bool \<Rightarrow> u64 \<Rightarrow> nat \<Rightarrow> 'a pst_scheme \<Rightarrow> kerr + ((int \<times> u8 list) \<times> 'a pst_scheme)" where
  "either_copyin user_src src len s =
     (if user_src then bindr (myproc s) (\<lambda>p. copyin (pagetable (procs s p)) src len s)
      else Inr ((0, peek (pmem s) src len), s))"

definition state_name :: "procstate \<Rightarrow> string" where
  "state_name st = (case st of UNUSED \<Rightarrow> ''unused'' | USED \<Rightarrow> ''used'' | SLEEPING \<Rightarrow> ''sleep ''
     | RUNNABLE \<Rightarrow> ''runble'' | RUNNING \<Rightarrow> ''run   '' | ZOMBIE \<Rightarrow> ''zombie'')"

definition cstring :: "u8 list \<Rightarrow> string" where
  "cstring bs = map (\<lambda>b. char_of (unat b)) (takeWhile (\<lambda>b. b \<noteq> 0) bs)"

primrec procdump_loop :: "nat \<Rightarrow> nat \<Rightarrow> 'a pst_scheme \<Rightarrow> kerr + 'a pst_scheme" where
  "procdump_loop 0 i s = Inr s"
| "procdump_loop (Suc k) i s =
     (let r = procs s i in
      if pstate r = UNUSED then procdump_loop k (i + 1) s
      else bindr (printf ''%d %s %s'' [AInt (pid r), AStr (Some (state_name (pstate r))), AStr (Some (cstring (pname r)))] s)
        (\<lambda>s1. bindr (printf [CHR 0x0A] [] s1) (procdump_loop k (i + 1))))"

definition procdump :: "'a pst_scheme \<Rightarrow> kerr + 'a pst_scheme" where
  "procdump s = bindr (printf [CHR 0x0A] [] s) (procdump_loop NPROC 0)"

definition proc_parent_pid :: "nat \<Rightarrow> 'a pst_scheme \<Rightarrow> int" where
  "proc_parent_pid p s = (case parent (procs s p) of None \<Rightarrow> 0 | Some q \<Rightarrow> sint (pid (procs s q)))"

section \<open>Locks of the table\<close>

lemma held_restore [simp]: "l \<notin> held s \<Longrightarrow> s\<lparr>held := insert l (held s) - {l}\<rparr> = (s :: 'a kst_scheme)"
  by simp

lemma lock_roundtrip [kres_simps]:
  "l \<notin> held s \<Longrightarrow> bindr (acquire_lk l s) (\<lambda>s1. bindr (release_lk l s1) f) = f (s :: 'a kst_scheme)"
  by (simp add: acquire_lk_def release_lk_def)

definition no_proc_locks :: "'a pst_scheme \<Rightarrow> bool" where
  "no_proc_locks s \<longleftrightarrow> (\<forall>i. ProcLock i \<notin> held s)"

section \<open>A concrete process table\<close>

definition demo_proc :: proc where
  "demo_proc = \<lparr>pstate = UNUSED, pchan = None, killed_f = 0, xstate = 0, pid = 0, parent = None, kstack = 0, sz = 0,
     pagetable = 0, trapframe = 0, ctx = \<lparr>ra = 0, sp = 0, callee_saved = []\<rparr>, ofile = replicate 16 None, cwd = None,
     pname = replicate 16 0, start_time = 0, turnaround_time = 0, wait_time = 0, total_wait_time = 0,
     wait_time_ticks = 0, end_time = 0, priority = 10\<rparr>"

text \<open>Processes 1 and 3 are runnable, 3 has waited for longer and has the better priority; process
  2 sleeps. Seven pages are free.\<close>

definition demo_pst :: pst where
  "demo_pst = \<lparr>held = {},
     pmem = fold (\<lambda>x. store64 x (x + 0x1000)) [0x87FF9000, 0x87FFA000, 0x87FFB000, 0x87FFC000, 0x87FFD000, 0x87FFE000] (\<lambda>_. 0),
     freelist = 0x87FF9000, kend = 0x80100000, cout = [], locking = True,
     procs = (\<lambda>_. demo_proc)
       (1 := demo_proc\<lparr>pstate := RUNNABLE, pid := 1, wait_time := 20\<rparr>,
        2 := demo_proc\<lparr>pstate := SLEEPING, pid := 2, pchan := Some ChanTicks\<rparr>,
        3 := demo_proc\<lparr>pstate := RUNNABLE, pid := 3, wait_time := 10, priority := 5\<rparr>),
     cur = None, nextpid = 4, initproc = Some 1, ticks = 0, clk = (\<lambda>k. of_nat (min k 1000) + 30), clk_reads = 0,
     trampoline = 0x80007000, forkret_addr = 0x80001000\<rparr>"

section \<open>Going to sleep\<close>

lemma schedD:
  assumes "sched s = Inr s'" "cur s = Some p"
  shows "s' = s \<and> held s = {ProcLock p}"
proof -
  have "s' = s" "ProcLock p \<in> held s" "card (held s) = 1"
    using assms by (auto simp: sched_def myproc_def split: if_splits)
  then show ?thesis by (metis card_1_singletonE singletonD)
qed

lemma sleep_enterD:
  assumes "sleep_enter c lk s = Inr s'" "cur s = Some p"
  shows "s' = updp p (\<lambda>r. r\<lparr>pchan := Some c, pstate := SLEEPING\<rparr>) (s\<lparr>held := {ProcLock p}\<rparr>)"
proof -
  let ?f = "updp p (\<lambda>r. r\<lparr>pchan := Some c, pstate := SLEEPING\<rparr>)"
  obtain h where "sched (?f (s\<lparr>held := h\<rparr>)) = Inr s'"
    using assms by (auto simp: sleep_enter_def bindr_eq_Inr myproc_def acquire_lk_def release_lk_def split: if_splits)
  from schedD [OF this] assms(2) show ?thesis by (simp add: updp_def)
qed

lemma sleep_enter_ok:
  assumes "cur s = Some p" "held s = {lk}" "lk \<noteq> ProcLock p"
  shows "sleep_enter c lk s = Inr (updp p (\<lambda>r. r\<lparr>pchan := Some c, pstate := SLEEPING\<rparr>) (s\<lparr>held := {ProcLock p}\<rparr>))"
  using assms by (simp add: sleep_enter_def myproc_def acquire_lk_def release_lk_def sched_def updp_def insert_Diff_if)
section \<open>Waking and killing\<close>

definition sleeper :: "chan \<Rightarrow> 'a pst_scheme \<Rightarrow> nat \<Rightarrow> bool" where
  "sleeper c s i \<longleftrightarrow> cur s \<noteq> Some i \<and> pstate (procs s i) = SLEEPING \<and> pchan (procs s i) = Some c"

text \<open>The table after a wakeup of the first \<open>n\<close> entries: each sleeper is runnable, and has the time at
  which it was woken.\<close>

definition woken_procs :: "chan \<Rightarrow> 'a pst_scheme \<Rightarrow> nat \<Rightarrow> nat \<Rightarrow> proc" where
  "woken_procs c s n i = (if i < n \<and> sleeper c s i
     then (procs s i)\<lparr>pstate := RUNNABLE, wait_time := clk s (clk_reads s + card {j. j < i \<and> sleeper c s j})\<rparr>
     else procs s i)"

definition woken :: "chan \<Rightarrow> nat \<Rightarrow> 'a pst_scheme \<Rightarrow> 'a pst_scheme" where
  "woken c n s = s\<lparr>procs := woken_procs c s n, clk_reads := clk_reads s + card {j. j < n \<and> sleeper c s j}\<rparr>"

lemma card_less_Suc:
  "card {j. j < Suc n \<and> P j} = card {j. j < n \<and> P j} + (if P n then 1 else 0)"
proof -
  have "{j. j < Suc n \<and> P j} = (if P n then insert n {j. j < n \<and> P j} else {j. j < n \<and> P j})"
    by (auto simp: less_Suc_eq)
  then show ?thesis by simp
qed

lemma woken_procs_Suc:
  "woken_procs c s (Suc n) = (if sleeper c s n then (woken_procs c s n)(n := (procs s n)
     \<lparr>pstate := RUNNABLE, wait_time := clk s (clk_reads s + card {j. j < n \<and> sleeper c s j})\<rparr>) else woken_procs c s n)"
  by (auto simp: woken_procs_def fun_eq_iff less_Suc_eq)

lemma wakeup_loop_woken:
  "no_proc_locks s \<Longrightarrow> wakeup_loop k i c (woken c i s) = Inr (woken c (i + k) s)"
proof (induction k arbitrary: i)
  case 0
  then show ?case by simp
next
  case (Suc k)
  have l: "ProcLock i \<notin> held s" using Suc.prems by (simp add: no_proc_locks_def)
  have "wakeup_loop (Suc k) i c (woken c i s) = wakeup_loop k (Suc i) c (woken c (Suc i) s)"
  proof (cases "sleeper c s i")
    case True
    then have "updp i (\<lambda>r. r\<lparr>wait_time := clk s (clk_reads (woken c i s))\<rparr>)
        ((updp i (\<lambda>r. r\<lparr>pstate := RUNNABLE\<rparr>) (woken c i s))\<lparr>clk_reads := clk_reads (woken c i s) + 1\<rparr>) = woken c (Suc i) s"
      using woken_procs_Suc [of c s i] by (simp add: woken_def updp_def card_less_Suc woken_procs_def)
    with True l show ?thesis
      by (simp add: woken_def woken_procs_def sleeper_def acquire_lk_def release_lk_def r_time_def Let_def updp_def)
  next
    case False
    then have "woken c (Suc i) s = woken c i s"
      by (simp add: woken_def card_less_Suc woken_procs_Suc)
    with False l show ?thesis
      by (auto simp: acquire_lk_def release_lk_def woken_def woken_procs_def sleeper_def)
  qed
  with Suc.IH [OF Suc.prems, of "Suc i"] show ?case by simp
qed

lemma wakeup_woken:
  assumes "no_proc_locks s"
  shows "wakeup c s = Inr (woken c NPROC s)"
proof -
  have "woken c 0 s = s" by (simp add: woken_def woken_procs_def [abs_def])
  then show ?thesis using wakeup_loop_woken [OF assms, of NPROC 0 c] by (simp add: wakeup_def)
qed

lemma woken_frame [simp]:
  "held (woken c n s) = held s" "pmem (woken c n s) = pmem s" "cout (woken c n s) = cout s" "cur (woken c n s) = cur s"
  "no_proc_locks (woken c n s) = no_proc_locks s" "pst.more (woken c n s) = pst.more s"
  by (simp_all add: woken_def no_proc_locks_def)

lemma sleeper_held [simp]: "sleeper c (s\<lparr>held := h\<rparr>) = sleeper c s"
  by (auto simp: sleeper_def)

lemma woken_procs_held [simp]: "woken_procs c (s\<lparr>held := h\<rparr>) = woken_procs c s"
  by (intro ext) (simp add: woken_procs_def)

lemma woken_held [simp]: "woken c n (s\<lparr>held := h\<rparr>) = (woken c n s)\<lparr>held := h\<rparr>"
  by (simp add: woken_def)

text \<open>C28. A wakeup makes every process that sleeps on the channel runnable, in the order of the table,
  each with the time at which it was woken, and changes no other process and no lock.\<close>

theorem wakeup_correct:
  assumes "no_proc_locks s"
  shows "\<exists>s'. wakeup c s = Inr s' \<and> held s' = held s \<and>
    (\<forall>i<NPROC. sleeper c s i \<longrightarrow> procs s' i = (procs s i)\<lparr>pstate := RUNNABLE,
       wait_time := clk s (clk_reads s + card {j. j < i \<and> sleeper c s j})\<rparr>) \<and>
    (\<forall>i. i \<ge> NPROC \<or> \<not> sleeper c s i \<longrightarrow> procs s' i = procs s i)"
  using wakeup_woken [OF assms, of c] by (simp add: woken_def woken_procs_def)

theorem wakeup_correct_witness:
  "\<exists>s'. wakeup ChanTicks demo_pst = Inr s' \<and> pstate (procs s' 2) = RUNNABLE \<and> procs s' 1 = procs demo_pst 1"
proof -
  have "no_proc_locks demo_pst" by (simp add: no_proc_locks_def demo_pst_def)
  from wakeup_correct [OF this, of ChanTicks] obtain s' where
    "wakeup ChanTicks demo_pst = Inr s'" "2 < NPROC \<Longrightarrow> sleeper ChanTicks demo_pst 2 \<Longrightarrow> pstate (procs s' 2) = RUNNABLE"
    "\<not> sleeper ChanTicks demo_pst 1 \<Longrightarrow> procs s' 1 = procs demo_pst 1" by fastforce
  then show ?thesis by (simp add: sleeper_def demo_pst_def demo_proc_def NPROC_def)
qed

definition kill_proc :: "proc \<Rightarrow> proc" where
  "kill_proc r = r\<lparr>killed_f := 1, pstate := (if pstate r = SLEEPING then RUNNABLE else pstate r)\<rparr>"

lemma kill_loop_scan:
  "no_proc_locks s \<Longrightarrow> kill_loop k i n s = Inr (case scan (\<lambda>j. pid (procs s j) = n) i (i + k) of
     None \<Rightarrow> (-1, s) | Some j \<Rightarrow> (0, updp j kill_proc s))"
proof (induction k arbitrary: i)
  case 0
  have "scan (\<lambda>j. pid (procs s j) = n) i (i + 0) = None" by (subst scan_None) auto
  then show ?case by simp
next
  case (Suc k)
  have l: "ProcLock i \<notin> held s" using Suc.prems by (simp add: no_proc_locks_def)
  show ?case
  proof (cases "pid (procs s i) = n")
    case True
    then have "scan (\<lambda>j. pid (procs s j) = n) i (i + Suc k) = Some i" by (simp add: scan.simps [of _ i])
    with True l show ?thesis
      by (simp add: acquire_lk_def release_lk_def updp_def kill_proc_def Let_def)
  next
    case False
    then have "scan (\<lambda>j. pid (procs s j) = n) i (i + Suc k) = scan (\<lambda>j. pid (procs s j) = n) (Suc i) (Suc i + k)"
      by (simp add: scan_step)
    with False l Suc show ?thesis by (simp add: acquire_lk_def release_lk_def)
  qed
qed

text \<open>C30. Killing marks the process with the given pid as killed, makes it runnable if it sleeps, and
  returns 0; it returns -1 and changes nothing when no process has that pid.\<close>

theorem kill_correct:
  assumes "no_proc_locks s"
  shows "kill n s = (if \<exists>i<NPROC. pid (procs s i) = n
    then let i = (LEAST i. pid (procs s i) = n) in Inr (0, updp i kill_proc s) else Inr (-1, s))"
proof (cases "scan (\<lambda>j. pid (procs s j) = n) 0 NPROC")
  case None
  then have "\<forall>i<NPROC. pid (procs s i) \<noteq> n" by (simp add: scan_None)
  with None kill_loop_scan [OF assms, of NPROC 0 n] show ?thesis by (auto simp: kill_def)
next
  case (Some i)
  note scan_SomeD [OF Some]
  then have "(LEAST i. pid (procs s i) = n) = i" by (intro Least_equality) (auto simp: not_less [symmetric])
  with Some kill_loop_scan [OF assms, of NPROC 0 n] scan_SomeD [OF Some] show ?thesis by (auto simp: kill_def)
qed

theorem kill_correct_witness:
  "kill 2 demo_pst = Inr (0, updp 2 kill_proc demo_pst) \<and> pstate (kill_proc (procs demo_pst 2)) = RUNNABLE"
proof -
  have "no_proc_locks demo_pst" by (simp add: no_proc_locks_def demo_pst_def)
  moreover have "\<exists>i<NPROC. pid (procs demo_pst i) = 2" by (intro exI [of _ 2]) (simp add: demo_pst_def NPROC_def)
  moreover have "(LEAST i. pid (procs demo_pst i) = 2) = 2"
    by (rule Least_equality) (auto simp: demo_pst_def demo_proc_def split: if_splits)
  ultimately show ?thesis using kill_correct [of demo_pst 2] by (simp add: kill_proc_def demo_pst_def)
qed


section \<open>Allocating a process\<close>

lemma kmem_frame_pst:
  fixes s :: "'a pst_scheme"
  assumes "kmem_frame s s'"
  shows "procs s' = procs s" "nextpid s' = nextpid s" "cur s' = cur s" "forkret_addr s' = forkret_addr s"
    "trampoline s' = trampoline s" "clk s' = clk s"
  using assms by (cases s; cases s'; simp add: kmem_frame_def)+

definition freed_proc :: "proc \<Rightarrow> proc" where
  "freed_proc r = r\<lparr>trapframe := 0, pagetable := 0, sz := 0, pid := 0, parent := None, pname := (pname r)[0 := 0],
     pchan := None, killed_f := 0, xstate := 0, pstate := UNUSED\<rparr>"

lemma proc_freepagetable_frame: "proc_freepagetable pt n s = Inr s' \<Longrightarrow> kmem_frame s s'"
  unfolding proc_freepagetable_def
  by (auto simp: bindr_eq_Inr dest!: uvmunmap_frame uvmfree_frame intro: kmem_frame_trans)

lemma freeproc_procs:
  assumes "freeproc p s = Inr s'"
  shows "procs s' = (procs s)(p := freed_proc (procs s p)) \<and> nextpid s' = nextpid s"
proof -
  obtain s1 s3 where
    s1: "(if trapframe (procs s p) \<noteq> 0 then kfree (trapframe (procs s p)) s else Inr s) = Inr s1" and
    s3: "(if pagetable (procs (updp p (\<lambda>r. r\<lparr>trapframe := 0\<rparr>) s1) p) \<noteq> 0
       then proc_freepagetable (pagetable (procs (updp p (\<lambda>r. r\<lparr>trapframe := 0\<rparr>) s1) p))
         (sz (procs (updp p (\<lambda>r. r\<lparr>trapframe := 0\<rparr>) s1) p)) (updp p (\<lambda>r. r\<lparr>trapframe := 0\<rparr>) s1)
       else Inr (updp p (\<lambda>r. r\<lparr>trapframe := 0\<rparr>) s1)) = Inr s3" and
    s': "s' = updp p (\<lambda>r. r\<lparr>pagetable := 0, sz := 0, pid := 0, parent := None, pname := (pname r)[0 := 0],
       pchan := None, killed_f := 0, xstate := 0, pstate := UNUSED\<rparr>) s3"
    using assms unfolding freeproc_def bindr_eq_Inr Let_def by blast
  have f: "kmem_frame s s1" using s1 kfree_frame by (auto split: if_splits)
  have "kmem_frame (updp p (\<lambda>r. r\<lparr>trapframe := 0\<rparr>) s1) s3"
    using s3 proc_freepagetable_frame by (auto split: if_splits)
  from kmem_frame_pst [OF this] kmem_frame_pst [OF f] show ?thesis by (simp add: s' updp_def freed_proc_def)
qed

lemma allocproc_find_scan:
  "no_proc_locks s \<Longrightarrow> allocproc_find k i s = Inr (let f = scan (\<lambda>j. pstate (procs s j) = UNUSED) i (i + k) in
     (f, case f of None \<Rightarrow> s | Some p \<Rightarrow> s\<lparr>held := insert (ProcLock p) (held s)\<rparr>))"
proof (induction k arbitrary: i)
  case 0
  have "scan (\<lambda>j. pstate (procs s j) = UNUSED) i (i + 0) = None" by (subst scan_None) auto
  then show ?case by simp
next
  case (Suc k)
  have l: "ProcLock i \<notin> held s" using Suc.prems by (simp add: no_proc_locks_def)
  show ?case
  proof (cases "pstate (procs s i) = UNUSED")
    case True
    then have "scan (\<lambda>j. pstate (procs s j) = UNUSED) i (i + Suc k) = Some i" by (simp add: scan.simps [of _ i])
    with True l show ?thesis by (simp add: acquire_lk_def)
  next
    case False
    then have "scan (\<lambda>j. pstate (procs s j) = UNUSED) i (i + Suc k) =
        scan (\<lambda>j. pstate (procs s j) = UNUSED) (Suc i) (Suc i + k)"
      by (simp add: scan_step)
    with False l Suc show ?thesis by (simp add: acquire_lk_def release_lk_def)
  qed
qed

lemma proc_pagetable_frame: "proc_pagetable p s = Inr (pt, s') \<Longrightarrow> kmem_frame s s'"
  unfolding proc_pagetable_def
  by (auto simp: bindr_eq_Inr kmem_frame_def split: if_splits
      dest!: uvmunmap_frame uvmfree_frame mappages_frame uvmcreate_frame)

definition new_proc :: "u32 \<Rightarrow> u64 \<Rightarrow> u64 \<Rightarrow> u64 \<Rightarrow> proc \<Rightarrow> proc" where
  "new_proc n tf pt fr r = r\<lparr>pid := n, priority := 10, pstate := USED, trapframe := tf, pagetable := pt,
     ctx := \<lparr>ra = fr, sp = kstack r + PGSIZE, callee_saved = replicate 12 0\<rparr>\<rparr>"

lemma allocproc_cases:
  assumes "allocproc s = Inr (r, s')" "no_proc_locks s"
  shows "case r of
      Some p \<Rightarrow> scan (\<lambda>j. pstate (procs s j) = UNUSED) 0 NPROC = Some p \<and> nextpid s' = nextpid s + 1 \<and>
        (\<exists>tf pt. tf \<noteq> 0 \<and> pt \<noteq> 0 \<and> procs s' = (procs s)(p := new_proc (nextpid s) tf pt (forkret_addr s) (procs s p)))
    | None \<Rightarrow> s' = s \<or> (\<exists>p x. scan (\<lambda>j. pstate (procs s j) = UNUSED) 0 NPROC = Some p \<and>
        nextpid s' = nextpid s + 1 \<and> procs s' = (procs s)(p := freed_proc x))"
proof (cases "scan (\<lambda>j. pstate (procs s j) = UNUSED) 0 NPROC")
  case None
  then show ?thesis using assms allocproc_find_scan [OF assms(2), of NPROC 0] by (simp add: allocproc_def)
next
  case (Some p)
  let ?s1 = "s\<lparr>held := insert (ProcLock p) (held s)\<rparr>"
  obtain n s2 where n: "allocpid ?s1 = Inr (n, s2)"
    using assms allocproc_find_scan [OF assms(2), of NPROC 0] Some by (auto simp: allocproc_def bindr_eq_Inr)
  then have n': "n = nextpid s" "nextpid s2 = nextpid s + 1" "procs s2 = procs s" "forkret_addr s2 = forkret_addr s"
    by (auto simp: allocpid_def bindr_eq_Inr acquire_lk_def release_lk_def Let_def split: if_splits)
  let ?s3 = "updp p (\<lambda>r. r\<lparr>pid := n, priority := 10, pstate := USED\<rparr>) s2"
  have rest: "bindr (kalloc ?s3) (\<lambda>(tf, s4).
      let s5 = updp p (\<lambda>r. r\<lparr>trapframe := tf\<rparr>) s4;
          fail = (\<lambda>t. bindr (freeproc p t) (\<lambda>t1. bindr (release_lk (ProcLock p) t1) (\<lambda>t2. Inr (None, t2)))) in
      if tf = 0 then fail s5
      else bindr (proc_pagetable p s5) (\<lambda>(pt, s6).
        let s7 = updp p (\<lambda>r. r\<lparr>pagetable := pt\<rparr>) s6 in
        if pt = 0 then fail s7
        else Inr (Some p, updp p (\<lambda>r. r\<lparr>ctx := \<lparr>ra = forkret_addr s7,
          sp = kstack (procs s7 p) + PGSIZE, callee_saved = replicate 12 0\<rparr>\<rparr>) s7))) = Inr (r, s')"
    using assms(1) allocproc_find_scan [OF assms(2), of NPROC 0] Some n by (simp add: allocproc_def Let_def)
  then obtain tf s4 where k: "kalloc ?s3 = Inr (tf, s4)" by (auto simp: bindr_eq_Inr)
  note f4 = kmem_frame_pst [OF kalloc_frame [OF k]]
  let ?s5 = "updp p (\<lambda>r. r\<lparr>trapframe := tf\<rparr>) s4"
  have fl: "r = None \<and> nextpid s' = nextpid s + 1 \<and> (\<exists>x. procs s' = (procs s)(p := freed_proc x))"
    if "bindr (freeproc p t) (\<lambda>t1. bindr (release_lk (ProcLock p) t1) (\<lambda>t2. Inr (None, t2))) = Inr (r, s')"
      "nextpid t = nextpid s + 1" "procs t = (procs s)(p := y)" for t y
    using that(1) freeproc_procs [of p t] that(2,3)
    by (auto simp: bindr_eq_Inr release_lk_def split: if_splits)
  show ?thesis
  proof (cases "tf = 0")
    case True
    with rest k have "bindr (freeproc p ?s5) (\<lambda>t1. bindr (release_lk (ProcLock p) t1) (\<lambda>t2. Inr (None, t2))) = Inr (r, s')"
      by simp
    from fl [OF this] f4 n' Some show ?thesis by (auto simp: updp_def)
  next
    case False
    with rest k obtain pt s6 where pt: "proc_pagetable p ?s5 = Inr (pt, s6)" by (auto simp: bindr_eq_Inr)
    note f6 = kmem_frame_pst [OF proc_pagetable_frame [OF pt]]
    show ?thesis
    proof (cases "pt = 0")
      case True
      with rest k False pt have "bindr (freeproc p (updp p (\<lambda>r. r\<lparr>pagetable := pt\<rparr>) s6))
          (\<lambda>t1. bindr (release_lk (ProcLock p) t1) (\<lambda>t2. Inr (None, t2))) = Inr (r, s')"
        by simp
      from fl [OF this] f4 f6 n' Some show ?thesis by (auto simp: updp_def)
    next
      case pt0: False
      with rest k False pt have "r = Some p \<and> s' = updp p (\<lambda>r. r\<lparr>ctx := \<lparr>ra = forkret_addr s6,
          sp = kstack (procs s6 p) + PGSIZE, callee_saved = replicate 12 0\<rparr>\<rparr>) (updp p (\<lambda>r. r\<lparr>pagetable := pt\<rparr>) s6)"
        by (auto simp: updp_def Let_def)
      with False pt0 f4 f6 n' Some show ?thesis by (auto simp: updp_def new_proc_def)
    qed
  qed
qed


lemma uvmcreate_ok:
  assumes "free_pages s (x # xs)" "KmemLock \<notin> held s"
  shows "\<exists>s'. uvmcreate s = Inr (x, s') \<and> vm_inv s' x xs \<and> held s' = held s \<and> (\<forall>va. pte_of (pmem s') x va = 0)"
proof -
  let ?m = "memset x 0 4096 (memset x 5 4096 (pmem s))"
  let ?s = "s\<lparr>freelist := load64 (pmem s) x, pmem := ?m\<rparr>"
  have x: "x \<noteq> 0" "aligned x" "x \<notin> set xs" "ram_page s x"
    using assms(1) by (auto simp: free_pages_def ram_page_def)
  have e: "ent ?m x i = 0" if "unat i < 512" for i using ent_zero_page [OF x(2) that] .
  then have n: "node ?m x q = (if q = [] then Some x else None)" if "q \<in> paths" for q
    using that by (cases q) (auto simp: paths_def)
  then have ns: "nodes ?m x = {x}" by (auto simp: nodes_def paths_def split: if_splits)
  have "flist ?m (load64 (pmem s) x) xs"
    using kalloc_Cons(2) [OF assms] x by (intro flist_agree [where m = "memset x 5 4096 (pmem s)", OF _ agree_outside_memset]) (auto simp: free_pages_def ram_page_def)
  then have "free_pages ?s xs" using kalloc_Cons(2) [OF assms] by (simp add: free_pages_def ram_page_def)
  moreover have "pt_wf ?s x" unfolding pt_wf_def using n x(4) ns by (auto simp: ram_page_def split: if_splits)
  moreover have "pte_of ?m x va = 0" for va using n [OF PX_path] e [OF PX_less] by (simp add: pte_of_def)
  ultimately show ?thesis
    using kalloc_Cons(1) [OF assms] x ns assms(2) by (simp add: uvmcreate_def vm_inv_def)
qed


lemma map_one_page:
  assumes inv: "vm_inv s r xs" and va: "aligned va" "va < MAXVA" and fresh: "\<not> bit (pte_of (pmem s) r va) 0"
    and n: "2 < length xs"
  shows "\<exists>s' xs'. mappages r va PGSIZE pa perm s = Inr (0, s') \<and> vm_inv s' r xs' \<and> length xs \<le> length xs' + 2 \<and>
    held s' = held s \<and> (\<forall>vb<MAXVA. pte_of (pmem s') r vb =
      (if pn vb = pn va then leaf_pte va pa perm (pn va) else pte_of (pmem s) r vb))"
proof -
  have sz: "aligned PGSIZE" "PGSIZE \<noteq> 0" "pn PGSIZE = 1" by (simp_all add: aligned_unat PGSIZE_def pn_def)
  have "unat va < 2 ^ 38" using va(2) by (simp add: word_less_nat_alt)
  then have hi: "unat va + unat PGSIZE \<le> 2 ^ 38" using va(1) by (auto simp: aligned_unat PGSIZE_def) 
  have fr: "\<not> bit (pte_of (pmem s) r vb) 0" if "vb < MAXVA" "pn va \<le> pn vb" "pn vb < pn va + pn PGSIZE" for vb
    using that sz(3) fresh pte_of_page [of vb va] by simp
  from mappages_ok [OF inv va(1) sz(1,2) hi fr, of pa perm]
  obtain rv s' xs' j where m: "mappages r va PGSIZE pa perm s = Inr (rv, s')" "vm_ext r s xs s' xs'"
    "rv = 0 \<and> j = 1 \<or> rv = -1 \<and> j < 1 \<and> xs' = []" "length xs \<le> length xs' + 2 * 1"
    "\<forall>vb<MAXVA. pte_of (pmem s') r vb =
       (if pn va \<le> pn vb \<and> pn vb < pn va + j then leaf_pte va pa perm (pn vb) else pte_of (pmem s) r vb)"
    unfolding sz(3) by blast
  have "rv = 0" "j = 1" using m(3,4) n by auto
  moreover have "held s' = held s" using vm_extD(3) [OF m(2)] by auto
  moreover have "\<forall>vb<MAXVA. pte_of (pmem s') r vb =
      (if pn vb = pn va then leaf_pte va pa perm (pn va) else pte_of (pmem s) r vb)"
    using m(5) \<open>j = 1\<close> by (auto simp: le_antisym)
  ultimately show ?thesis using m(1,4) vm_extD(1) [OF m(2)] by auto
qed


lemma proc_pagetable_ok:
  fixes s :: "'a pst_scheme"
  assumes fp: "free_pages s (x # xs)" and l: "KmemLock \<notin> held s" and n: "4 < length xs"
  shows "\<exists>s' xs'. proc_pagetable p s = Inr (x, s') \<and> vm_inv s' x xs' \<and> held s' = held s \<and>
    (\<forall>vb<MAXVA. pte_of (pmem s') x vb =
      (if pn vb = pn TRAMPOLINE then leaf_pte TRAMPOLINE (trampoline s) (PTE_R OR PTE_X) (pn TRAMPOLINE)
       else if pn vb = pn TRAPFRAME then leaf_pte TRAPFRAME (trapframe (procs s p)) (PTE_R OR PTE_W) (pn TRAPFRAME) else 0))"
proof -
  have va: "aligned TRAMPOLINE" "TRAMPOLINE < MAXVA" "aligned TRAPFRAME" "TRAPFRAME < MAXVA" "pn TRAPFRAME \<noteq> pn TRAMPOLINE"
    by (simp_all add: TRAMPOLINE_def TRAPFRAME_def MAXVA_def PGSIZE_def aligned_unat pn_def)
  have x: "x \<noteq> 0" using fp by (auto simp: free_pages_def)
  obtain s1 where s1: "uvmcreate s = Inr (x, s1)" "vm_inv s1 x xs" "held s1 = held s" "\<forall>va. pte_of (pmem s1) x va = 0"
    using uvmcreate_ok [OF fp l] by blast
  obtain s2 xs2 where s2: "mappages x TRAMPOLINE PGSIZE (trampoline s1) (PTE_R OR PTE_X) s1 = Inr (0, s2)"
    "vm_inv s2 x xs2" "length xs \<le> length xs2 + 2" "held s2 = held s1"
    "\<forall>vb<MAXVA. pte_of (pmem s2) x vb =
      (if pn vb = pn TRAMPOLINE then leaf_pte TRAMPOLINE (trampoline s1) (PTE_R OR PTE_X) (pn TRAMPOLINE) else pte_of (pmem s1) x vb)"
    using map_one_page [OF s1(2) va(1,2), of "trampoline s1" "PTE_R OR PTE_X"] s1(4) n by auto
  have "\<not> bit (pte_of (pmem s2) x TRAPFRAME) 0" using s2(5) va(4,5) s1(4) by simp
  then obtain s3 xs3 where s3: "mappages x TRAPFRAME PGSIZE (trapframe (procs s2 p)) (PTE_R OR PTE_W) s2 = Inr (0, s3)"
    "vm_inv s3 x xs3" "held s3 = held s2"
    "\<forall>vb<MAXVA. pte_of (pmem s3) x vb =
      (if pn vb = pn TRAPFRAME then leaf_pte TRAPFRAME (trapframe (procs s2 p)) (PTE_R OR PTE_W) (pn TRAPFRAME) else pte_of (pmem s2) x vb)"
    using map_one_page [OF s2(2) va(3,4), of "trapframe (procs s2 p)" "PTE_R OR PTE_W"] s2(3) n by auto
  note f1 = kmem_frame_pst [OF uvmcreate_frame [OF s1(1)]] and f2 = kmem_frame_pst [OF mappages_frame [OF s2(1)]]
  have "proc_pagetable p s = Inr (x, s3)" using x s1(1) s2(1) s3(1) by (simp add: proc_pagetable_def)
  moreover have "\<forall>vb<MAXVA. pte_of (pmem s3) x vb =
      (if pn vb = pn TRAMPOLINE then leaf_pte TRAMPOLINE (trampoline s) (PTE_R OR PTE_X) (pn TRAMPOLINE)
       else if pn vb = pn TRAPFRAME then leaf_pte TRAPFRAME (trapframe (procs s p)) (PTE_R OR PTE_W) (pn TRAPFRAME) else 0)"
    using s3(4) s2(5) s1(4) f1 f2 va(5) by auto
  ultimately show ?thesis using s3(2,3) s2(4) s1(3) by auto
qed

lemma free_pages_pst [simp]:
  fixes s :: "'a pst_scheme"
  shows "free_pages (updp p f s) xs = free_pages s xs" "held (updp p f s) = held s"
  by (simp_all add: free_pages_def updp_def ram_page_def)

lemma allocproc_total:
  fixes s :: "'a pst_scheme"
  assumes sc: "scan (\<lambda>j. pstate (procs s j) = UNUSED) 0 NPROC = Some p"
    and fp: "free_pages s (t # x # xs)" and n: "4 < length xs"
    and l: "no_proc_locks s" "KmemLock \<notin> held s" "PidLock \<notin> held s"
  shows "\<exists>s'. allocproc s = Inr (Some p, s') \<and> held s' = insert (ProcLock p) (held s) \<and>
    procs s' = (procs s)(p := new_proc (nextpid s) t x (forkret_addr s) (procs s p)) \<and>
    (\<forall>vb<MAXVA. pte_of (pmem s') x vb =
      (if pn vb = pn TRAMPOLINE then leaf_pte TRAMPOLINE (trampoline s) (PTE_R OR PTE_X) (pn TRAMPOLINE)
       else if pn vb = pn TRAPFRAME then leaf_pte TRAPFRAME t (PTE_R OR PTE_W) (pn TRAPFRAME) else 0))"
proof -
  let ?s2 = "s\<lparr>held := insert (ProcLock p) (held s), nextpid := nextpid s + 1\<rparr>"
  have pl: "PidLock \<notin> insert (ProcLock p) (held s)" "KmemLock \<notin> insert (ProcLock p) (held s)" using l by auto
  have p: "allocpid (s\<lparr>held := insert (ProcLock p) (held s)\<rparr>) = Inr (nextpid s, ?s2)"
    using pl by (simp add: allocpid_def acquire_lk_def release_lk_def insert_Diff_if Let_def)
  let ?s3 = "updp p (\<lambda>r. r\<lparr>pid := nextpid s, priority := 10, pstate := USED\<rparr>) ?s2"
  have fp3: "free_pages ?s3 (t # x # xs)" using fp by (simp add: free_pages_def ram_page_def updp_def)
  obtain s4 where k: "kalloc ?s3 = Inr (t, s4)" "free_pages s4 (x # xs)" "held s4 = held ?s3"
    using kalloc_Cons [OF fp3] pl by simp
  note f4 = kmem_frame_pst [OF kalloc_frame [OF k(1)]]
  have t: "t \<noteq> 0" "x \<noteq> 0" using fp by (auto simp: free_pages_def)
  let ?s5 = "updp p (\<lambda>r. r\<lparr>trapframe := t\<rparr>) s4"
  obtain s6 xs' where q: "proc_pagetable p ?s5 = Inr (x, s6)" "held s6 = held ?s5"
    "\<forall>vb<MAXVA. pte_of (pmem s6) x vb =
      (if pn vb = pn TRAMPOLINE then leaf_pte TRAMPOLINE (trampoline ?s5) (PTE_R OR PTE_X) (pn TRAMPOLINE)
       else if pn vb = pn TRAPFRAME then leaf_pte TRAPFRAME (trapframe (procs ?s5 p)) (PTE_R OR PTE_W) (pn TRAPFRAME) else 0)"
    using proc_pagetable_ok [of ?s5 x xs p] k(2,3) pl n by auto
  note f6 = kmem_frame_pst [OF proc_pagetable_frame [OF q(1)]]
  let ?s = "updp p (\<lambda>r. r\<lparr>ctx := \<lparr>ra = forkret_addr s6, sp = kstack (procs s6 p) + PGSIZE,
    callee_saved = replicate 12 0\<rparr>\<rparr>) (updp p (\<lambda>r. r\<lparr>pagetable := x\<rparr>) s6)"
  have "allocproc s = Inr (Some p, ?s)"
    using allocproc_find_scan [OF l(1), of NPROC 0] sc p k(1) q(1) t
    by (simp add: allocproc_def Let_def) (simp add: updp_def)
  moreover have "procs ?s = (procs s)(p := new_proc (nextpid s) t x (forkret_addr s) (procs s p))"
    using f4 f6 by (simp add: updp_def new_proc_def)
  ultimately show ?thesis using q(2,3) k(3) f4 f6 by (intro exI [of _ ?s]) (simp add: updp_def)
qed


lemma demo_free_pages:
  "free_pages demo_pst [0x87FF9000, 0x87FFA000, 0x87FFB000, 0x87FFC000, 0x87FFD000, 0x87FFE000, 0x87FFF000]"
  by (simp add: free_pages_def demo_pst_def ram_page_def aligned_unat PHYSTOP_def KERNBASE_def load64_store64
      aligned8_def load64_zero)

lemma demo_unused: "scan (\<lambda>j. pstate (procs demo_pst j) = UNUSED) 0 NPROC = Some 0"
  by (simp add: scan_Some demo_pst_def demo_proc_def NPROC_def)

lemma demo_locks [simp]: "no_proc_locks demo_pst" "held demo_pst = {}"
  by (simp_all add: no_proc_locks_def demo_pst_def)

text \<open>C25. With an unused slot and seven free pages, \<open>allocproc\<close> succeeds: it takes the first unused slot,
  gives it the next pid, a trap frame page and a page table that maps exactly the trampoline and
  the trap frame, makes it return to \<open>forkret\<close>, and returns with its lock held.\<close>

theorem allocproc_correct:
  fixes s :: "'a pst_scheme"
  assumes "scan (\<lambda>j. pstate (procs s j) = UNUSED) 0 NPROC = Some p" "free_pages s (t # x # xs)" "4 < length xs"
    "no_proc_locks s" "KmemLock \<notin> held s" "PidLock \<notin> held s"
  shows "\<exists>s'. allocproc s = Inr (Some p, s') \<and> held s' = insert (ProcLock p) (held s) \<and>
    procs s' = (procs s)(p := new_proc (nextpid s) t x (forkret_addr s) (procs s p)) \<and>
    (\<forall>vb<MAXVA. pte_of (pmem s') x vb =
      (if pn vb = pn TRAMPOLINE then leaf_pte TRAMPOLINE (trampoline s) (PTE_R OR PTE_X) (pn TRAMPOLINE)
       else if pn vb = pn TRAPFRAME then leaf_pte TRAPFRAME t (PTE_R OR PTE_W) (pn TRAPFRAME) else 0))"
  using assms by (rule allocproc_total)

theorem allocproc_correct_witness:
  "\<exists>s'. allocproc demo_pst = Inr (Some 0, s') \<and> pid (procs s' 0) = 4 \<and> procs s' 1 = procs demo_pst 1"
proof -
  have "nextpid demo_pst = 4" by (simp add: demo_pst_def)
  then show ?thesis using allocproc_correct [OF demo_unused demo_free_pages] by (auto simp: new_proc_def)
qed

text \<open>Pids: the processes in use have distinct, non-zero pids below the next one.\<close>

definition pids_ok :: "'a pst_scheme \<Rightarrow> bool" where
  "pids_ok s \<longleftrightarrow> (\<forall>i<NPROC. if pstate (procs s i) = UNUSED then pid (procs s i) = 0
       else 0 < pid (procs s i) \<and> pid (procs s i) < nextpid s) \<and>
     inj_on (\<lambda>i. pid (procs s i)) {i. i < NPROC \<and> pstate (procs s i) \<noteq> UNUSED}"

lemma pids_ok_new:
  assumes "pids_ok s" "p < NPROC" "pstate (procs s p) = UNUSED" "0 < nextpid s" "nextpid s < 0xffffffff"
    "procs s' = (procs s)(p := r)" "nextpid s' = nextpid s + 1"
    "pid r = nextpid s \<and> pstate r \<noteq> UNUSED \<or> pid r = 0 \<and> pstate r = UNUSED"
  shows "pids_ok s'"
proof -
  have n: "nextpid s < nextpid s + 1" using assms(5) by (simp add: word_less_nat_alt unat_word_ariths)
  have lt: "0 < pid (procs s i) \<and> pid (procs s i) < nextpid s" if "i < NPROC" "pstate (procs s i) \<noteq> UNUSED" for i
    using assms(1) that by (auto simp: pids_ok_def)
  have ij: "i = j" if "i < NPROC" "j < NPROC" "pstate (procs s i) \<noteq> UNUSED" "pstate (procs s j) \<noteq> UNUSED"
    "pid (procs s i) = pid (procs s j)" for i j
    using assms(1) that by (auto simp: pids_ok_def dest: inj_onD)
  have z: "pid (procs s i) = 0" if "i < NPROC" "pstate (procs s i) = UNUSED" for i
    using assms(1) that by (auto simp: pids_ok_def)
  have "inj_on (\<lambda>i. pid (procs s' i)) {i. i < NPROC \<and> pstate (procs s' i) \<noteq> UNUSED}"
  proof (rule inj_onI)
    fix i j
    assume a: "i \<in> {i. i < NPROC \<and> pstate (procs s' i) \<noteq> UNUSED}" "j \<in> {i. i < NPROC \<and> pstate (procs s' i) \<noteq> UNUSED}"
      "pid (procs s' i) = pid (procs s' j)"
    have "pid (procs s k) \<noteq> nextpid s" if "k < NPROC" "pstate (procs s k) \<noteq> UNUSED" for k using lt [OF that] by auto
    then show "i = j"
      using a ij [of i j] assms(6,8) by (cases "i = p"; cases "j = p") auto
  qed
  moreover have "if pstate (procs s' i) = UNUSED then pid (procs s' i) = 0
       else 0 < pid (procs s' i) \<and> pid (procs s' i) < nextpid s'" if "i < NPROC" for i
  proof (cases "i = p")
    case True
    then show ?thesis using n assms(4,6,7,8) by auto
  next
    case False
    then show ?thesis using lt [OF that] z [OF that] n assms(6,7) by auto
  qed
  ultimately show ?thesis by (simp add: pids_ok_def)
qed

text \<open>C27. Every outcome of \<open>allocproc\<close>, failure included, keeps the pids of the processes in use
  distinct; a new process gets a pid that no other process has.\<close>

theorem allocproc_pids:
  assumes "pids_ok s" "no_proc_locks s" "0 < nextpid s" "nextpid s < 0xffffffff" "allocproc s = Inr (r, s')"
  shows "pids_ok s' \<and> (\<forall>p i. r = Some p \<and> i < NPROC \<and> i \<noteq> p \<longrightarrow> pid (procs s' i) \<noteq> pid (procs s' p))"
proof (cases r)
  case None
  have "pids_ok s'" if "scan (\<lambda>j. pstate (procs s j) = UNUSED) 0 NPROC = Some p"
      "nextpid s' = nextpid s + 1" "procs s' = (procs s)(p := freed_proc x)" for p x
    using pids_ok_new [OF assms(1) _ _ assms(3,4) that(3,2)] scan_SomeD [OF that(1)] by (simp add: freed_proc_def)
  with allocproc_cases [OF assms(5,2)] None assms(1) show ?thesis by auto
next
  case (Some p)
  with allocproc_cases [OF assms(5,2)] obtain tf pt where
    a: "scan (\<lambda>j. pstate (procs s j) = UNUSED) 0 NPROC = Some p" "nextpid s' = nextpid s + 1"
      "procs s' = (procs s)(p := new_proc (nextpid s) tf pt (forkret_addr s) (procs s p))" by auto
  have "pids_ok s'"
    using pids_ok_new [OF assms(1) _ _ assms(3,4) a(3,2)] scan_SomeD [OF a(1)] by (simp add: new_proc_def)
  moreover have "pid (procs s i) \<noteq> nextpid s" if "i < NPROC" for i
    using assms(1,3) that unfolding pids_ok_def by (cases "pstate (procs s i) = UNUSED") auto
  ultimately show ?thesis using Some a(3) by (auto simp: new_proc_def)
qed

lemma demo_pids_ok: "pids_ok demo_pst"
  by (auto simp: pids_ok_def demo_pst_def demo_proc_def inj_on_def)

theorem allocproc_pids_witness:
  "case allocproc demo_pst of Inr (r, s') \<Rightarrow> pids_ok s' | Inl e \<Rightarrow> False"
proof -
  obtain s' where s': "allocproc demo_pst = Inr (Some 0, s')"
    using allocproc_total [OF demo_unused demo_free_pages] by auto
  from allocproc_pids [OF demo_pids_ok demo_locks(1) _ _ this] s' show ?thesis by (simp add: demo_pst_def)
qed

text \<open>Killing pid 0 succeeds as long as there is an unused slot, since such a slot has pid 0, and
  the process that is allocated next is marked as killed before it runs.\<close>

theorem kill_zero:
  assumes "pids_ok s" "no_proc_locks s" "\<exists>i<NPROC. pstate (procs s i) = UNUSED"
  shows "\<exists>s1. kill 0 s = Inr (0, s1) \<and> (\<forall>p s2. allocproc s1 = Inr (Some p, s2) \<longrightarrow> killed_f (procs s2 p) = 1)"
proof -
  have eq: "(pid (procs s i) = 0) = (pstate (procs s i) = UNUSED)" if "i < NPROC" for i
    using assms(1) that by (auto simp: pids_ok_def split: if_splits)
  then have sc: "scan (\<lambda>j. pid (procs s j) = 0) 0 NPROC = scan (\<lambda>j. pstate (procs s j) = UNUSED) 0 NPROC"
    by (intro scan_cong) auto
  obtain p where p: "scan (\<lambda>j. pstate (procs s j) = UNUSED) 0 NPROC = Some p"
    using assms(3) by (cases "scan (\<lambda>j. pstate (procs s j) = UNUSED) 0 NPROC") (auto simp: scan_None)
  let ?s1 = "updp p kill_proc s"
  have "kill 0 s = Inr (0, ?s1)" using kill_loop_scan [OF assms(2), of NPROC 0 0] p sc by (simp add: kill_def)
  moreover have "killed_f (procs s2 q) = 1" if "allocproc ?s1 = Inr (Some q, s2)" for q s2
  proof -
    have st: "pstate (procs ?s1 j) = UNUSED \<longleftrightarrow> pstate (procs s j) = UNUSED" for j
      by (auto simp: updp_def kill_proc_def)
    have "no_proc_locks ?s1" using assms(2) by (simp add: no_proc_locks_def)
    from allocproc_cases [OF that this] p have "q = p" "killed_f (procs s2 q) = killed_f (procs ?s1 q)"
      unfolding st by (auto simp: new_proc_def)
    then show ?thesis by (simp add: updp_def kill_proc_def)
  qed
  ultimately show ?thesis by blast
qed

theorem kill_zero_witness:
  "\<exists>s1. kill 0 demo_pst = Inr (0, s1) \<and> (case allocproc s1 of Inr (Some p, s2) \<Rightarrow> killed_f (procs s2 p) = 1 | _ \<Rightarrow> False)"
proof -
  have "\<exists>i<NPROC. pstate (procs demo_pst i) = UNUSED"
    by (intro exI [of _ 0]) (simp add: demo_pst_def demo_proc_def NPROC_def)
  from kill_zero [OF demo_pids_ok demo_locks(1) this] obtain s1 where
    s1: "kill 0 demo_pst = Inr (0, s1)" "\<And>p s2. allocproc s1 = Inr (Some p, s2) \<Longrightarrow> killed_f (procs s2 p) = 1" by blast
  have "scan (\<lambda>j. pid (procs demo_pst j) = 0) 0 NPROC = Some 0"
    by (simp add: scan_Some demo_pst_def demo_proc_def NPROC_def)
  then have "s1 = updp 0 kill_proc demo_pst"
    using s1(1) kill_loop_scan [OF demo_locks(1), of NPROC 0 0] by (simp add: kill_def)
  then have "scan (\<lambda>j. pstate (procs s1 j) = UNUSED) 0 NPROC = Some 0" "no_proc_locks s1" "held s1 = {}"
    "free_pages s1 [0x87FF9000, 0x87FFA000, 0x87FFB000, 0x87FFC000, 0x87FFD000, 0x87FFE000, 0x87FFF000]"
    using demo_free_pages
    by (simp_all add: scan_Some updp_def kill_proc_def demo_pst_def demo_proc_def NPROC_def no_proc_locks_def
        free_pages_def ram_page_def)
  from allocproc_total [OF this(1,4) _ this(2)] this(3) obtain s2 where "allocproc s1 = Inr (Some 0, s2)" by auto
  with s1 show ?thesis by simp
qed

end
