(* ===== verification/Sched.thy ===== *)
theory Sched
  imports Proc
begin

text \<open>
  The scheduler of \<open>kernel/proc.c\<close>: its three policies, one round of its loop up to the switch to
  the process it chose, and what it does when that process switches back.
\<close>

section \<open>The scheduler\<close>

primrec select_rr :: "nat \<Rightarrow> nat \<Rightarrow> 'a pst_scheme \<Rightarrow> kerr + (nat option \<times> 'a pst_scheme)" where
  "select_rr 0 i s = Inr (None, s)"
| "select_rr (Suc k) i s =
     bindr (acquire_lk (ProcLock i) s) (\<lambda>s1.
     if pstate (procs s1 i) = RUNNABLE then Inr (Some i, s1)
     else bindr (release_lk (ProcLock i) s1) (select_rr k (i + 1)))"

text \<open>The other two policies keep the lock of the best process found so far.\<close>

definition release_best :: "nat option \<Rightarrow> 'a pst_scheme \<Rightarrow> kerr + 'a pst_scheme" where
  "release_best b s = (case b of None \<Rightarrow> Inr s | Some j \<Rightarrow> release_lk (ProcLock j) s)"

primrec select_fcfs :: "nat \<Rightarrow> nat \<Rightarrow> u64 \<Rightarrow> nat option \<Rightarrow> 'a pst_scheme \<Rightarrow> kerr + (nat option \<times> 'a pst_scheme)" where
  "select_fcfs 0 i earliest_time earliest_p s = Inr (earliest_p, s)"
| "select_fcfs (Suc k) i earliest_time earliest_p s =
     bindr (acquire_lk (ProcLock i) s) (\<lambda>s1.
     if pstate (procs s1 i) = RUNNABLE \<and> wait_time (procs s1 i) < earliest_time then
       bindr (release_best earliest_p s1) (select_fcfs k (i + 1) (wait_time (procs s1 i)) (Some i))
     else bindr (release_lk (ProcLock i) s1) (select_fcfs k (i + 1) earliest_time earliest_p))"

primrec select_prio :: "nat \<Rightarrow> nat \<Rightarrow> int \<Rightarrow> nat option \<Rightarrow> 'a pst_scheme \<Rightarrow> kerr + (nat option \<times> 'a pst_scheme)" where
  "select_prio 0 i highest_priority highest_p s = Inr (highest_p, s)"
| "select_prio (Suc k) i highest_priority highest_p s =
     bindr (acquire_lk (ProcLock i) s) (\<lambda>s1.
     if pstate (procs s1 i) = RUNNABLE \<and> priority (procs s1 i) < highest_priority then
       bindr (release_best highest_p s1) (select_prio k (i + 1) (priority (procs s1 i)) (Some i))
     else bindr (release_lk (ProcLock i) s1) (select_prio k (i + 1) highest_priority highest_p))"

text \<open>One round of \<open>scheduler\<close> up to the switch to the chosen process, if there is one. The
  three arguments are the constants of \<open>kernel/trap.c\<close> that choose the policy.\<close>

definition scheduler_select :: "bool \<Rightarrow> bool \<Rightarrow> bool \<Rightarrow> 'a pst_scheme \<Rightarrow> kerr + (nat option \<times> 'a pst_scheme)" where
  "scheduler_select rr fcfs prio s =
     (if rr then select_rr NPROC 0 s
      else if fcfs then select_fcfs NPROC 0 0xffffffffffffffff None s
      else if prio then select_prio NPROC 0 9999 None s
      else Inr (None, s))"

definition scheduler_round :: "bool \<Rightarrow> bool \<Rightarrow> bool \<Rightarrow> 'a pst_scheme \<Rightarrow> kerr + (nat option \<times> 'a pst_scheme)" where
  "scheduler_round rr fcfs prio s =
     bindr (acquire_lk SchedLock s) (\<lambda>s1.
     bindr (scheduler_select rr fcfs prio s1) (\<lambda>(target_p, s2).
     bindr (release_lk SchedLock s2) (\<lambda>s3.
     case target_p of None \<Rightarrow> Inr (None, s3)
     | Some p \<Rightarrow>
       let s4 = updp p (\<lambda>r. r\<lparr>pstate := RUNNING\<rparr>) s3;
           (now, s5) = r_time s4;
           s6 = updp p (\<lambda>r. r\<lparr>total_wait_time := total_wait_time r + (now - wait_time r), wait_time := now\<rparr>) s5
       in bindr (printf (CHR 0x0A # ''SCHEDULER: PID %d BECAME RUNNING %lu'' @ [CHR 0x0A])
            [AInt (pid (procs s6 p)), ALong now] s6) (\<lambda>s7. Inr (Some p, s7\<lparr>cur := Some p\<rparr>)))))"

text \<open>What \<open>scheduler\<close> does once the process it switched to has switched back.\<close>

definition scheduler_return :: "nat \<Rightarrow> 'a pst_scheme \<Rightarrow> kerr + 'a pst_scheme" where
  "scheduler_return target_p s = release_lk (ProcLock target_p) (s\<lparr>cur := None\<rparr>)"

section \<open>Choosing a process\<close>

definition runnable :: "'a pst_scheme \<Rightarrow> nat \<Rightarrow> bool" where
  "runnable s i \<longleftrightarrow> pstate (procs s i) = RUNNABLE"

lemma runnable_held [simp]: "runnable (s\<lparr>held := h\<rparr>) i = runnable s i"
  by (simp add: runnable_def)

text \<open>The state in which the lock of the process \<open>b\<close>, if any, is held on top of those of \<open>s\<close>.\<close>

definition with_lock :: "nat option \<Rightarrow> 'a pst_scheme \<Rightarrow> 'a pst_scheme" where
  "with_lock b s = (case b of None \<Rightarrow> s | Some j \<Rightarrow> s\<lparr>held := insert (ProcLock j) (held s)\<rparr>)"

lemma with_lock_simps [simp]:
  "with_lock None s = s" "procs (with_lock b s) = procs s" "cur (with_lock b s) = cur s"
  "held (with_lock (Some j) s) = insert (ProcLock j) (held s)"
  by (auto simp: with_lock_def split: option.split)

lemma select_rr_scan:
  "no_proc_locks s \<Longrightarrow> select_rr k i s = Inr (scan (runnable s) i (i + k), with_lock (scan (runnable s) i (i + k)) s)"
proof (induction k arbitrary: i)
  case 0
  have "scan (runnable s) i (i + 0) = None" by (subst scan_None) auto
  then show ?case by simp
next
  case (Suc k)
  have l: "ProcLock i \<notin> held s" using Suc.prems by (simp add: no_proc_locks_def)
  show ?case
  proof (cases "runnable s i")
    case True
    then have "scan (runnable s) i (i + Suc k) = Some i" by (simp add: scan.simps [of "runnable s" i])
    with True l show ?thesis by (simp add: acquire_lk_def with_lock_def flip: runnable_def)
  next
    case False
    then have "scan (runnable s) i (i + Suc k) = scan (runnable s) (Suc i) (Suc i + k)" by (simp add: scan_step)
    with False l Suc show ?thesis by (simp add: acquire_lk_def release_lk_def flip: runnable_def)
  qed
qed

text \<open>What the two policies that compare a key have in common.\<close>

locale min_select =
  fixes key :: "proc \<Rightarrow> 'k :: linorder"
    and sel :: "nat \<Rightarrow> nat \<Rightarrow> 'k \<Rightarrow> nat option \<Rightarrow> 'a pst_scheme \<Rightarrow> kerr + (nat option \<times> 'a pst_scheme)"
  assumes sel_0: "sel 0 i t b s = Inr (b, s)"
    and sel_Suc: "sel (Suc k) i t b s =
      bindr (acquire_lk (ProcLock i) s) (\<lambda>s1.
      if pstate (procs s1 i) = RUNNABLE \<and> key (procs s1 i) < t then
        bindr (release_best b s1) (sel k (i + 1) (key (procs s1 i)) (Some i))
      else bindr (release_lk (ProcLock i) s1) (sel k (i + 1) t b))"
begin

definition best_upto :: "'a pst_scheme \<Rightarrow> 'k \<Rightarrow> nat \<Rightarrow> 'k \<Rightarrow> nat option \<Rightarrow> bool" where
  "best_upto s lim i t b \<longleftrightarrow> (case b of
     None \<Rightarrow> t = lim \<and> (\<forall>j<i. runnable s j \<longrightarrow> lim \<le> key (procs s j))
   | Some j \<Rightarrow> j < i \<and> runnable s j \<and> key (procs s j) = t \<and> t < lim \<and>
       (\<forall>j'<i. runnable s j' \<longrightarrow> t \<le> key (procs s j')) \<and> (\<forall>j'<j. runnable s j' \<longrightarrow> t < key (procs s j')))"

lemma sel_spec:
  "no_proc_locks s \<Longrightarrow> best_upto s lim i t b \<Longrightarrow>
   \<exists>b' t'. sel k i t b (with_lock b s) = Inr (b', with_lock b' s) \<and> best_upto s lim (i + k) t' b'"
proof (induction k arbitrary: i t b)
  case 0
  then show ?case by (auto simp: sel_0)
next
  case (Suc k)
  have l: "ProcLock i \<notin> held (with_lock b s)" "\<And>j. ProcLock j \<notin> held s"
    using Suc.prems by (auto simp: no_proc_locks_def best_upto_def with_lock_def split: option.splits)
  let ?s1 = "with_lock b s\<lparr>held := insert (ProcLock i) (held (with_lock b s))\<rparr>"
  show ?case
  proof (cases "runnable s i \<and> key (procs s i) < t")
    case True
    have "best_upto s lim (Suc i) (key (procs s i)) (Some i)"
      using Suc.prems(2) True unfolding best_upto_def by (cases b) (auto simp: less_Suc_eq)
    moreover have "release_best b ?s1 = Inr (with_lock (Some i) s)"
      using l Suc.prems(2) by (cases b) (auto simp: release_best_def with_lock_def release_lk_def best_upto_def insert_Diff_if)
    ultimately show ?thesis
      using Suc.IH [OF Suc.prems(1), of "Suc i" "key (procs s i)" "Some i"] True l
      by (simp add: sel_Suc acquire_lk_def runnable_def)
  next
    case False
    have "best_upto s lim (Suc i) t b"
      using Suc.prems(2) False unfolding best_upto_def by (cases b) (auto simp: less_Suc_eq not_less)
    from Suc.IH [OF Suc.prems(1) this] False l show ?thesis
      by (auto simp: sel_Suc acquire_lk_def release_lk_def runnable_def)
  qed
qed

lemma sel_min:
  assumes "no_proc_locks s"
  shows "\<exists>b. sel n 0 lim None s = Inr (b, with_lock b s) \<and> (case b of
     None \<Rightarrow> \<forall>j<n. runnable s j \<longrightarrow> lim \<le> key (procs s j)
   | Some j \<Rightarrow> j < n \<and> runnable s j \<and> key (procs s j) < lim \<and>
       (\<forall>i<n. runnable s i \<longrightarrow> key (procs s j) \<le> key (procs s i)) \<and>
       (\<forall>i<j. runnable s i \<longrightarrow> key (procs s j) < key (procs s i)))"
proof -
  have "best_upto s lim 0 lim None" by (simp add: best_upto_def)
  from sel_spec [OF assms this, of n] show ?thesis unfolding best_upto_def by (auto split: option.splits)
qed

end

interpretation fcfs: min_select wait_time select_fcfs
  by unfold_locales simp_all

interpretation prio: min_select priority select_prio
  by unfold_locales simp_all


section \<open>A scheduling round\<close>

text \<open>What a round does with the process it chose: it runs, its lock is the only one held, and
  the time since it became runnable is added to its waiting time.\<close>

definition dispatched :: "'a pst_scheme \<Rightarrow> nat \<Rightarrow> 'a pst_scheme \<Rightarrow> bool" where
  "dispatched s p s' \<longleftrightarrow> held s' = {ProcLock p} \<and> cur s' = Some p \<and> clk s' = clk s \<and>
     (\<forall>i. i \<noteq> p \<longrightarrow> procs s' i = procs s i) \<and>
     (let now = clk s (clk_reads s) in
      procs s' p = (procs s p)\<lparr>pstate := RUNNING, wait_time := now,
        total_wait_time := total_wait_time (procs s p) + (now - wait_time (procs s p))\<rparr>)"

definition clock_prints :: "'a pst_scheme \<Rightarrow> bool" where
  "clock_prints s \<longleftrightarrow> unat (clk s (clk_reads s)) < 10 ^ 16"

lemma printf_pid_time:
  assumes "PrLock \<notin> held s" "unat v < 10 ^ 16" "\<forall>c \<in> set pre \<union> set mid. c \<noteq> CHR ''%''"
  shows "\<exists>out. printf (pre @ ''%d'' @ mid @ ''%lu'' @ [CHR 0x0A]) [AInt n, ALong v] s = Inr (s\<lparr>cout := cout s @ out\<rparr>)"
proof -
  have "\<forall>c\<in>set pre \<union> set mid \<union> set [CHR 0x0A]. c \<noteq> CHR ''%''" using assms(3) by auto
  from format_pid_time [OF this assms(2)] show ?thesis using printf_out [OF assms(1)] by blast
qed

lemma scheduler_round_dispatch:
  fixes s :: "'a pst_scheme"
  assumes "held s = {}" "clock_prints s"
    and sel: "scheduler_select rr fcfs prio (s\<lparr>held := {SchedLock}\<rparr>) =
      Inr (Some p, with_lock (Some p) (s\<lparr>held := {SchedLock}\<rparr>))"
  shows "\<exists>s'. scheduler_round rr fcfs prio s = Inr (Some p, s') \<and> dispatched s p s'"
proof -
  let ?now = "clk s (clk_reads s)"
  let ?s = "updp p (\<lambda>r. r\<lparr>total_wait_time := total_wait_time r + (?now - wait_time r), wait_time := ?now\<rparr>)
    ((updp p (\<lambda>r. r\<lparr>pstate := RUNNING\<rparr>) (s\<lparr>held := {ProcLock p}\<rparr>))\<lparr>clk_reads := clk_reads s + 1\<rparr>)"
  obtain out where out: "printf (CHR 0x0A # ''SCHEDULER: PID %d BECAME RUNNING %lu'' @ [CHR 0x0A])
      [AInt (pid (procs ?s p)), ALong ?now] ?s = Inr (?s\<lparr>cout := cout ?s @ out\<rparr>)"
    using printf_pid_time [of ?s ?now "CHR 0x0A # ''SCHEDULER: PID ''" "'' BECAME RUNNING ''" "pid (procs ?s p)"] assms
    by (auto simp: updp_def clock_prints_def)
  have "scheduler_round rr fcfs prio s = Inr (Some p, ?s\<lparr>cout := cout ?s @ out, cur := Some p\<rparr>)"
    using assms(1) sel out
    by (simp add: scheduler_round_def acquire_lk_def release_lk_def with_lock_def r_time_def updp_def Let_def insert_Diff_if)
  moreover have "dispatched s p (?s\<lparr>cout := cout ?s @ out, cur := Some p\<rparr>)"
    by (simp add: dispatched_def updp_def Let_def)
  ultimately show ?thesis by blast
qed

lemma scheduler_round_idle:
  assumes "held s = {}" "scheduler_select rr fcfs prio (s\<lparr>held := {SchedLock}\<rparr>) = Inr (None, s\<lparr>held := {SchedLock}\<rparr>)"
  shows "scheduler_round rr fcfs prio s = Inr (None, s)"
  using assms by (simp add: scheduler_round_def acquire_lk_def release_lk_def)

definition clock_small :: "'a pst_scheme \<Rightarrow> bool" where
  "clock_small s \<longleftrightarrow> (\<forall>k. unat (clk s k) < 10 ^ 16)"

lemma demo_pst_simps [simp]: "held demo_pst = {}" "clock_small demo_pst" "clock_prints demo_pst"
  by (auto simp: demo_pst_def clock_small_def clock_prints_def unat_word_ariths unat_of_nat min_def)

lemma demo_runnable: "runnable demo_pst i \<longleftrightarrow> i = 1 \<or> i = 3"
  by (simp add: demo_pst_def demo_proc_def runnable_def)

lemma demo_scan: "scan (runnable demo_pst) 0 NPROC = Some 1"
  by (simp add: scan_Some demo_runnable NPROC_def)

section \<open>The policies\<close>

lemma with_sched_lock:
  assumes "held s = {}"
  shows "no_proc_locks (s\<lparr>held := {SchedLock}\<rparr>)"
  by (simp add: no_proc_locks_def)

text \<open>The round-robin policy runs the runnable process with the lowest index, marks it running and
  holds its lock alone; without a runnable process the round changes nothing.\<close>

theorem scheduler_rr:
  assumes "held s = {}" "clock_prints s"
  shows "case scan (runnable s) 0 NPROC of
      None \<Rightarrow> scheduler_round True f p s = Inr (None, s)
    | Some i \<Rightarrow> \<exists>s'. scheduler_round True f p s = Inr (Some i, s') \<and> dispatched s i s'"
proof -
  have r: "runnable (s\<lparr>held := {SchedLock}\<rparr>) = runnable s" by (rule ext) simp
  from select_rr_scan [OF with_sched_lock [OF assms(1)], of NPROC 0]
  show ?thesis
    using scheduler_round_dispatch [OF assms, of True f p] scheduler_round_idle [OF assms(1), of True f p]
    unfolding r scheduler_select_def by (auto split: option.split)
qed

theorem scheduler_rr_witness:
  "\<exists>s'. scheduler_round True False False demo_pst = Inr (Some 1, s') \<and> dispatched demo_pst 1 s'"
  using scheduler_rr [of demo_pst False False] by (simp add: demo_scan)

text \<open>C23. The first-come-first-served policy runs a runnable process whose \<open>wait_time\<close>, the stamp of when it last
  became waiting, is the least (the one with the lowest index among equals).\<close>

theorem scheduler_fcfs:
  assumes "held s = {}" "clock_prints s" "\<exists>i<NPROC. runnable s i \<and> wait_time (procs s i) < 0xffffffffffffffff"
  shows "\<exists>i s'. scheduler_round False True p s = Inr (Some i, s') \<and> dispatched s i s' \<and>
    i < NPROC \<and> runnable s i \<and>
    (\<forall>j<NPROC. runnable s j \<longrightarrow> wait_time (procs s i) \<le> wait_time (procs s j)) \<and>
    (\<forall>j<i. runnable s j \<longrightarrow> wait_time (procs s i) < wait_time (procs s j))"
proof -
  from fcfs.sel_min [OF with_sched_lock [OF assms(1)], of NPROC "0xffffffffffffffff"] assms(3)
  show ?thesis
    using scheduler_round_dispatch [OF assms(1,2), of False True p]
    unfolding scheduler_select_def by (fastforce split: option.splits)
qed

theorem scheduler_fcfs_witness:
  "\<exists>i s'. scheduler_round False True False demo_pst = Inr (Some i, s') \<and> dispatched demo_pst i s' \<and> i = 3"
proof -
  have "\<exists>i<NPROC. runnable demo_pst i \<and> wait_time (procs demo_pst i) < 0xffffffffffffffff"
    by (intro exI [of _ 3]) (simp add: runnable_def demo_pst_def NPROC_def)
  from scheduler_fcfs [OF demo_pst_simps(1,3) this, of False]
  obtain i s' where "scheduler_round False True False demo_pst = Inr (Some i, s')" "dispatched demo_pst i s'"
    "i = 1 \<or> i = 3" "\<forall>j<NPROC. runnable demo_pst j \<longrightarrow> wait_time (procs demo_pst i) \<le> wait_time (procs demo_pst j)"
    unfolding demo_runnable by blast
  moreover from this(4) [rule_format, of 3] have "wait_time (procs demo_pst i) \<le> wait_time (procs demo_pst 3)"
    by (simp add: demo_runnable NPROC_def)
  then have "i \<noteq> 1" by (auto simp: demo_pst_def)
  ultimately show ?thesis by blast
qed

text \<open>C22. The priority policy runs a runnable process whose priority number is least (the one with
  the lowest index among equals), provided one is below 9999.\<close>

theorem scheduler_priority:
  assumes "held s = {}" "clock_prints s" "\<exists>i<NPROC. runnable s i \<and> priority (procs s i) < 9999"
  shows "\<exists>i s'. scheduler_round False False True s = Inr (Some i, s') \<and> dispatched s i s' \<and>
    i < NPROC \<and> runnable s i \<and>
    (\<forall>j<NPROC. runnable s j \<longrightarrow> priority (procs s i) \<le> priority (procs s j)) \<and>
    (\<forall>j<i. runnable s j \<longrightarrow> priority (procs s i) < priority (procs s j))"
proof -
  from prio.sel_min [OF with_sched_lock [OF assms(1)], of NPROC 9999] assms(3)
  show ?thesis
    using scheduler_round_dispatch [OF assms(1,2), of False False True]
    unfolding scheduler_select_def by (fastforce split: option.splits)
qed

theorem scheduler_priority_witness:
  "\<exists>i s'. scheduler_round False False True demo_pst = Inr (Some i, s') \<and> dispatched demo_pst i s' \<and> i = 3"
proof -
  have "\<exists>i<NPROC. runnable demo_pst i \<and> priority (procs demo_pst i) < 9999"
    by (intro exI [of _ 3]) (simp add: runnable_def demo_pst_def NPROC_def)
  from scheduler_priority [OF demo_pst_simps(1,3) this]
  obtain i s' where "scheduler_round False False True demo_pst = Inr (Some i, s')" "dispatched demo_pst i s'"
    "i = 1 \<or> i = 3" "\<forall>j<NPROC. runnable demo_pst j \<longrightarrow> priority (procs demo_pst i) \<le> priority (procs demo_pst j)"
    unfolding demo_runnable by blast
  moreover from this(4) [rule_format, of 3] have "priority (procs demo_pst i) \<le> priority (procs demo_pst 3)"
    by (simp add: demo_runnable NPROC_def)
  then have "i \<noteq> 1" by (auto simp: demo_pst_def demo_proc_def)
  ultimately show ?thesis by blast
qed

section \<open>Rounds in a row\<close>

text \<open>A round whose process, if there is one, uses up its time slice and yields.\<close>

definition rr_quantum :: "'a pst_scheme \<Rightarrow> kerr + (nat option \<times> 'a pst_scheme)" where
  "rr_quantum s =
     bindr (scheduler_round True False False s) (\<lambda>(target_p, s1).
     case target_p of None \<Rightarrow> Inr (None, s1)
     | Some p \<Rightarrow>
       bindr (yield_exit s1) (\<lambda>s2. bindr (yield s2) (\<lambda>s3.
       bindr (scheduler_return p s3) (\<lambda>s4. Inr (Some p, s4)))))"

primrec rr_quanta :: "nat \<Rightarrow> 'a pst_scheme \<Rightarrow> kerr + (nat option list \<times> 'a pst_scheme)" where
  "rr_quanta 0 s = Inr ([], s)"
| "rr_quanta (Suc n) s =
     bindr (rr_quantum s) (\<lambda>(t, s1). bindr (rr_quanta n s1) (\<lambda>(ts, s2). Inr (t # ts, s2)))"

lemma yield_ok:
  assumes "cur s = Some p" "held s = {}" "clock_small s"
  shows "\<exists>s'. yield s = Inr s' \<and> held s' = {ProcLock p} \<and> cur s' = Some p \<and> clk s' = clk s \<and>
    procs s' = (procs s)(p := (procs s p)\<lparr>pstate := RUNNABLE, wait_time := clk s (clk_reads s)\<rparr>)"
proof -
  let ?now = "clk s (clk_reads s)"
  let ?s = "updp p (\<lambda>r. r\<lparr>wait_time := ?now\<rparr>)
    ((updp p (\<lambda>r. r\<lparr>pstate := RUNNABLE\<rparr>) (s\<lparr>held := {ProcLock p}\<rparr>))\<lparr>clk_reads := clk_reads s + 1\<rparr>)"
  obtain out where "printf (CHR 0x0A # ''YIELD: PID %d BECAME WAITING AT %lu'' @ [CHR 0x0A])
      [AInt (pid (procs ?s p)), ALong ?now] ?s = Inr (?s\<lparr>cout := cout ?s @ out\<rparr>)"
    using printf_pid_time [of ?s ?now "CHR 0x0A # ''YIELD: PID ''" "'' BECAME WAITING AT ''" "pid (procs ?s p)"] assms
    by (auto simp: updp_def clock_small_def)
  then have "yield s = Inr (?s\<lparr>cout := cout ?s @ out\<rparr>)"
    using assms by (simp add: yield_def myproc_def acquire_lk_def r_time_def updp_def Let_def sched_def)
  then show ?thesis using assms by (simp add: updp_def)
qed

lemma rr_quantum_same:
  assumes "held s = {}" "clock_small s" "scan (runnable s) 0 NPROC = Some p"
  shows "\<exists>s'. rr_quantum s = Inr (Some p, s') \<and> held s' = {} \<and> clock_small s' \<and> runnable s' = runnable s"
proof -
  have "clock_prints s" using assms(2) by (simp add: clock_small_def clock_prints_def)
  from scheduler_round_dispatch [OF assms(1) this, of True False False p]
  obtain s1 where s1: "scheduler_round True False False s = Inr (Some p, s1)" "dispatched s p s1"
    using select_rr_scan [OF with_sched_lock [OF assms(1)], of NPROC 0] assms(3)
    by (auto simp: scheduler_select_def runnable_def [abs_def])
  let ?s2 = "s1\<lparr>held := {}\<rparr>"
  have s2: "yield_exit s1 = Inr ?s2" "cur ?s2 = Some p" "held ?s2 = {}" "clock_small ?s2"
    using s1(2) assms(2) by (auto simp: yield_exit_def myproc_def release_lk_def dispatched_def clock_small_def)
  obtain s3 where s3: "yield ?s2 = Inr s3" "held s3 = {ProcLock p}" "clk s3 = clk s1"
    "procs s3 = (procs s1)(p := (procs s1 p)\<lparr>pstate := RUNNABLE, wait_time := clk s1 (clk_reads s1)\<rparr>)"
    using yield_ok [OF s2(2-4)] by auto
  let ?s4 = "s3\<lparr>cur := None, held := {}\<rparr>"
  have "rr_quantum s = Inr (Some p, ?s4)"
    using s1(1) s2(1) s3(1,2) by (simp add: rr_quantum_def scheduler_return_def release_lk_def)
  moreover have "runnable ?s4 i = runnable s i" for i
    using s1(2) s3(4) scan_SomeD [OF assms(3)] by (cases "i = p") (simp_all add: runnable_def dispatched_def)
  moreover have "clock_small ?s4" using s3(3) s1(2) assms(2) by (simp add: clock_small_def dispatched_def)
  ultimately show ?thesis by (intro exI [of _ ?s4]) auto
qed

text \<open>C24. The round-robin policy does not rotate: as long as processes only use up their time slices
  and yield, every round runs the same process, and no other runnable process ever runs.\<close>

theorem rr_no_rotation:
  assumes "held s = {}" "clock_small s" "scan (runnable s) 0 NPROC = Some p"
  shows "\<exists>s'. rr_quanta n s = Inr (replicate n (Some p), s')"
  using assms
proof (induction n arbitrary: s)
  case 0
  then show ?case by simp
next
  case (Suc n)
  obtain s1 where "rr_quantum s = Inr (Some p, s1)" "held s1 = {}" "clock_small s1" "runnable s1 = runnable s"
    using rr_quantum_same [OF Suc.prems] by blast
  with Suc.IH [of s1] Suc.prems(3) show ?case by auto
qed

theorem rr_no_rotation_witness: "\<exists>s'. rr_quanta 100 demo_pst = Inr (replicate 100 (Some 1), s')"
  using rr_no_rotation [OF demo_pst_simps(1,2) demo_scan] .

end
