(* ===== verification/Ring.thy ===== *)
theory Ring
  imports Xv6_Prelude
begin

text \<open>
  Ring buffers with free-running counters, as the UART, the console and pipes have them: the next
  byte to read is at \<open>r % size\<close>, the next free place at \<open>w % size\<close>, and the counters wrap around at
  the width of their type. The locale \<open>fifo\<close> is the contract of such a buffer: a bounded queue.
\<close>

section \<open>Contents of a ring\<close>

definition ring_nth :: "'b list \<Rightarrow> 'a::len word \<Rightarrow> 'b" where
  "ring_nth buf i = buf ! (unat i mod length buf)"

definition ring_list :: "'b list \<Rightarrow> 'a::len word \<Rightarrow> 'a word \<Rightarrow> 'b list" where
  "ring_list buf r w = map (\<lambda>k. ring_nth buf (r + of_nat k)) [0..<unat (w - r)]"

definition ring_put :: "'b list \<Rightarrow> 'a::len word \<Rightarrow> 'b \<Rightarrow> 'b list" where
  "ring_put buf w x = buf[unat w mod length buf := x]"

lemma length_ring_list [simp]: "length (ring_list buf r w) = unat (w - r)"
  by (simp add: ring_list_def)

lemma length_ring_put [simp]: "length (ring_put buf w x) = length buf"
  by (simp add: ring_put_def)

lemma ring_list_empty [simp]: "ring_list buf r w = [] \<longleftrightarrow> r = w"
  by (metis length_0_conv length_ring_list right_minus_eq unat_eq_0)

lemma ring_list_pop:
  assumes "r \<noteq> w"
  shows "ring_list buf r w = ring_nth buf r # ring_list buf (r + 1) w"
proof -
  have "unat (w - r) = Suc (unat (w - (r + 1)))"
    using assms unat_minus_one [of "w - r"] unat_gt_0 [of "w - r"] by (simp add: diff_diff_eq)
  then have "[0..<unat (w - r)] = 0 # map Suc [0..<unat (w - (r + 1))]" by (simp add: upt_conv_Cons map_Suc_upt)
  then show ?thesis by (simp add: ring_list_def algebra_simps)
qed

lemma ring_index_neq:
  fixes r w :: "'a::len word"
  assumes "n dvd 2 ^ LENGTH('a)" "k < unat (w - r)" "unat (w - r) < n"
  shows "unat (r + of_nat k) mod n \<noteq> unat w mod n"
proof
  assume eq: "unat (r + of_nat k) mod n = unat w mod n"
  have "unat (r + of_nat k) mod n = (unat r + k) mod n"
    using assms(1,2) by (simp add: unat_word_ariths unat_of_nat mod_mod_cancel mod_add_right_eq)
  moreover have "unat w mod n = (unat r + unat (w - r)) mod n"
    using assms(1) by (metis add.commute diff_add_cancel mod_mod_cancel unat_word_ariths(1))
  ultimately have "(unat r + k) mod n = (unat r + unat (w - r)) mod n" using eq by simp
  then have "n dvd unat (w - r) - k" using assms(2) by (metis add_diff_cancel_left mod_eq_dvd_iff_nat nat_add_left_cancel_le nat_less_le)
  with assms(2,3) show False using nat_dvd_not_less [of "unat (w - r) - k" n] by simp
qed

lemma ring_list_put:
  fixes r w :: "'a::len word"
  assumes "length buf dvd 2 ^ LENGTH('a)" "length buf < 2 ^ LENGTH('a)" "unat (w - r) < length buf"
  shows "ring_list (ring_put buf w x) r (w + 1) = ring_list buf r w @ [x]"
proof -
  have "w - r \<noteq> -1" using assms(2,3) by (auto simp: unsigned_minus_1_eq_mask mask_eq_exp_minus_1)
  then have n: "unat (w + 1 - r) = Suc (unat (w - r))"
    using unatSuc [of "w - r"] by (metis add.commute add_diff_eq eq_neg_iff_add_eq_0)
  have "ring_nth (ring_put buf w x) (r + of_nat k) = ring_nth buf (r + of_nat k)" if "k < unat (w - r)" for k
    using ring_index_neq [OF assms(1) that assms(3)] by (simp add: ring_nth_def ring_put_def)
  moreover have "0 < length buf" using assms(3) by linarith
  then have "unat w mod length buf < length buf" by (rule mod_less_divisor)
  then have "ring_nth (ring_put buf w x) w = x" by (simp add: ring_nth_def ring_put_def)
  ultimately show ?thesis by (simp add: ring_list_def n)
qed

lemma ring_list_unput:
  assumes "r \<noteq> w"
  shows "ring_list buf r (w - 1) = butlast (ring_list buf r w)"
proof -
  have "unat (w - 1 - r) = unat (w - r) - 1" using assms unat_minus_one [of "w - r"] by (simp add: algebra_simps)
  moreover have "0 < unat (w - r)" using assms by (simp add: unat_gt_0)
  ultimately show ?thesis by (cases "unat (w - r)") (simp_all add: ring_list_def butlast_append)
qed


lemma ring_list_split:
  fixes r w e :: "'a::len word"
  assumes "unat (w - r) \<le> unat (e - r)"
  shows "ring_list buf r w = take (unat (w - r)) (ring_list buf r e)"
    and "ring_list buf w e = drop (unat (w - r)) (ring_list buf r e)"
    and "ring_list buf r e = ring_list buf r w @ ring_list buf w e"
    and "unat (e - w) = unat (e - r) - unat (w - r)"
proof -
  have e: "(e - r) - (w - r) = e - w" by simp
  have "w - r \<le> e - r" using assms by (simp add: word_le_nat_alt)
  from unat_sub [OF this] show u: "unat (e - w) = unat (e - r) - unat (w - r)" unfolding e .
  show t: "ring_list buf r w = take (unat (w - r)) (ring_list buf r e)"
    using assms by (simp add: ring_list_def take_map)
  have "w + of_nat k = r + of_nat (unat (w - r) + k)" for k by (simp add: algebra_simps)
  then show d: "ring_list buf w e = drop (unat (w - r)) (ring_list buf r e)"
    by (intro nth_equalityI) (simp_all add: u ring_list_def)
  show "ring_list buf r e = ring_list buf r w @ ring_list buf w e" unfolding t d by simp
qed

section \<open>Bounded queues\<close>

locale fifo =
  fixes put :: "'x \<Rightarrow> 'q \<Rightarrow> 'q"
    and get :: "'q \<Rightarrow> 'x \<times> 'q"
    and room :: "'q \<Rightarrow> bool"
    and contents :: "'q \<Rightarrow> 'x list"
    and wf :: "'q \<Rightarrow> bool"
  assumes put_contents: "wf q \<Longrightarrow> room q \<Longrightarrow> wf (put x q) \<and> contents (put x q) = contents q @ [x]"
    and get_contents: "wf q \<Longrightarrow> contents q \<noteq> [] \<Longrightarrow>
      wf (snd (get q)) \<and> contents q = fst (get q) # contents (snd (get q))"
begin

text \<open>A run of writes (\<open>Some x\<close>) and reads (\<open>None\<close>); a write to a full buffer and a read from an
  empty one wait, that is, they change nothing.\<close>

fun run :: "'x option list \<Rightarrow> 'q \<Rightarrow> 'x list \<times> 'x list \<times> 'q" where
  "run [] q = ([], [], q)"
| "run (Some x # ops) q =
     (if room q then let (ins, outs, q') = run ops (put x q) in (x # ins, outs, q') else run ops q)"
| "run (None # ops) q =
     (if contents q \<noteq> [] then let (ins, outs, q') = run ops (snd (get q)) in (ins, fst (get q) # outs, q')
      else run ops q)"

lemma run_in_order:
  "wf q \<Longrightarrow> run ops q = (ins, outs, q') \<Longrightarrow> wf q' \<and> contents q @ ins = outs @ contents q'"
proof (induction ops q arbitrary: ins outs rule: run.induct)
  case (2 x ops q)
  then show ?case using put_contents [of q x] by (fastforce simp: Let_def split: if_splits prod.splits)
next
  case (3 ops q)
  then show ?case using get_contents [of q] by (fastforce simp: Let_def split: if_splits prod.splits)
qed auto

end

end
