(* ===== verification/Uart.thy ===== *)
theory Uart
  imports Proc Ring
begin

text \<open>
  The UART driver (\<open>kernel/uart.c\<close>). The device is part of the state: \<open>uart_in\<close> holds the bytes
  that have been received and not been read from \<open>RHR\<close>, \<open>tx_idle\<close> gives the values of the bit
  \<open>LSR_TX_IDLE\<close> that successive reads of \<open>LSR\<close> by \<open>uartstart\<close> return, and \<open>uart_regs\<close> records the
  writes to the registers other than \<open>THR\<close>. A byte written to \<open>THR\<close> appears on the output \<open>cout\<close>,
  to which \<open>printf\<close> also writes; the spinning loop of \<open>uartputc_sync\<close> ends when the transmitter is idle.
\<close>

record ust = pst +
  uart_tx_buf :: "u8 list"
  uart_tx_w :: u64
  uart_tx_r :: u64
  uart_in :: "u8 list"
  tx_idle :: "nat \<Rightarrow> bool"
  lsr_reads :: nat
  uart_regs :: "(nat \<times> nat) list"
  panicked :: bool

definition UART_TX_BUF_SIZE :: nat where "UART_TX_BUF_SIZE = 32"

definition WriteReg :: "nat \<Rightarrow> nat \<Rightarrow> 'a ust_scheme \<Rightarrow> 'a ust_scheme" where
  "WriteReg reg v s = s\<lparr>uart_regs := uart_regs s @ [(reg, v)]\<rparr>"

definition write_THR :: "u8 \<Rightarrow> 'a ust_scheme \<Rightarrow> 'a ust_scheme" where
  "write_THR c s = s\<lparr>cout := cout s @ [char_of (unat c)]\<rparr>"

definition uartinit :: "'a ust_scheme \<Rightarrow> 'a ust_scheme" where
  "uartinit s =
     WriteReg 1 0x03 (WriteReg 2 0x07 (WriteReg 3 0x03 (WriteReg 1 0x00 (WriteReg 0 0x03
       (WriteReg 3 0x80 (WriteReg 1 0x00 s))))))"

text \<open>Reading the bit \<open>LSR_TX_IDLE\<close>.\<close>

definition read_tx_idle :: "'a ust_scheme \<Rightarrow> bool \<times> 'a ust_scheme" where
  "read_tx_idle s = (tx_idle s (lsr_reads s), s\<lparr>lsr_reads := lsr_reads s + 1\<rparr>)"

text \<open>Each turn of the loop reads a byte of the buffer, so that it ends within \<open>w - r + 1\<close> turns.\<close>

primrec uartstart_loop :: "nat \<Rightarrow> 'a ust_scheme \<Rightarrow> kerr + 'a ust_scheme" where
  "uartstart_loop 0 s = Inl Diverge"
| "uartstart_loop (Suc k) s =
     (if uart_tx_w s = uart_tx_r s then Inr s
      else let (idle, s1) = read_tx_idle s in
        if \<not> idle then Inr s1
        else let c = ring_nth (uart_tx_buf s1) (uart_tx_r s1);
                 s2 = s1\<lparr>uart_tx_r := uart_tx_r s1 + 1\<rparr>
             in bindr (wakeup ChanUart s2) (\<lambda>s3. uartstart_loop k (write_THR c s3)))"

definition uartstart :: "'a ust_scheme \<Rightarrow> kerr + 'a ust_scheme" where
  "uartstart s = uartstart_loop (unat (uart_tx_w s - uart_tx_r s) + 1) s"

text \<open>\<open>uartputc\<close> with the spin lock held: a full buffer makes the caller sleep, and it starts over
  when it is woken.\<close>

definition uartputc_locked :: "u8 \<Rightarrow> 'a ust_scheme \<Rightarrow> kerr + (unit outcome \<times> 'a ust_scheme)" where
  "uartputc_locked c s =
     (if uart_tx_w s = uart_tx_r s + of_nat UART_TX_BUF_SIZE then
        bindr (sleep_enter ChanUart UartLock s) (\<lambda>s1. Inr (Sleeps ChanUart, s1))
      else
        let s1 = s\<lparr>uart_tx_buf := ring_put (uart_tx_buf s) (uart_tx_w s) c, uart_tx_w := uart_tx_w s + 1\<rparr> in
        bindr (uartstart s1) (\<lambda>s2. bindr (release_lk UartLock s2) (\<lambda>s3. Inr (Done (), s3))))"

definition uartputc :: "u8 \<Rightarrow> 'a ust_scheme \<Rightarrow> kerr + (unit outcome \<times> 'a ust_scheme)" where
  "uartputc c s =
     bindr (acquire_lk UartLock s) (\<lambda>s1. if panicked s1 then Inl Diverge else uartputc_locked c s1)"

definition uartputc_resume :: "u8 \<Rightarrow> 'a ust_scheme \<Rightarrow> kerr + (unit outcome \<times> 'a ust_scheme)" where
  "uartputc_resume c s = bindr (sleep_exit UartLock s) (uartputc_locked c)"

definition uartputc_sync :: "u8 \<Rightarrow> 'a ust_scheme \<Rightarrow> kerr + 'a ust_scheme" where
  "uartputc_sync c s = (if panicked s then Inl Diverge else Inr (write_THR c s))"

definition uartgetc :: "'a ust_scheme \<Rightarrow> int \<times> 'a ust_scheme" where
  "uartgetc s = (case uart_in s of [] \<Rightarrow> (-1, s) | b # bs \<Rightarrow> (uint b, s\<lparr>uart_in := bs\<rparr>))"

section \<open>The transmit queue\<close>

definition tx_wf :: "'a ust_scheme \<Rightarrow> bool" where
  "tx_wf s \<longleftrightarrow> length (uart_tx_buf s) = UART_TX_BUF_SIZE \<and> unat (uart_tx_w s - uart_tx_r s) \<le> UART_TX_BUF_SIZE"

definition tx_queue :: "'a ust_scheme \<Rightarrow> u8 list" where
  "tx_queue s = ring_list (uart_tx_buf s) (uart_tx_r s) (uart_tx_w s)"

definition tx_put :: "u8 \<Rightarrow> 'a ust_scheme \<Rightarrow> 'a ust_scheme" where
  "tx_put c s = s\<lparr>uart_tx_buf := ring_put (uart_tx_buf s) (uart_tx_w s) c, uart_tx_w := uart_tx_w s + 1\<rparr>"

definition tx_get :: "'a ust_scheme \<Rightarrow> u8 \<times> 'a ust_scheme" where
  "tx_get s = (ring_nth (uart_tx_buf s) (uart_tx_r s), s\<lparr>uart_tx_r := uart_tx_r s + 1\<rparr>)"

lemma tx_full: "tx_wf s \<Longrightarrow> uart_tx_w s = uart_tx_r s + of_nat UART_TX_BUF_SIZE \<longleftrightarrow> length (tx_queue s) = UART_TX_BUF_SIZE"
proof -
  have "uart_tx_w s = uart_tx_r s + 32 \<longleftrightarrow> uart_tx_w s - uart_tx_r s = 32" by (auto simp: algebra_simps)
  also have "\<dots> \<longleftrightarrow> unat (uart_tx_w s - uart_tx_r s) = 32" by (simp add: word_unat_eq_iff)
  finally show ?thesis by (simp add: tx_queue_def UART_TX_BUF_SIZE_def)
qed

interpretation uart_tx: fifo tx_put tx_get "\<lambda>s. length (tx_queue s) < UART_TX_BUF_SIZE" tx_queue tx_wf
proof (unfold_locales, goal_cases)
  case (1 q x)
  then have eq: "tx_queue (tx_put x q) = tx_queue q @ [x]"
    by (simp add: tx_queue_def tx_put_def tx_wf_def UART_TX_BUF_SIZE_def ring_list_put)
  moreover have "unat (uart_tx_w q + 1 - uart_tx_r q) = Suc (unat (uart_tx_w q - uart_tx_r q))"
    using arg_cong [OF eq, of length] by (simp add: tx_put_def tx_queue_def)
  ultimately show ?case using 1 by (simp add: tx_wf_def tx_put_def tx_queue_def)
next
  case (2 q)
  then have eq: "tx_queue q = fst (tx_get q) # tx_queue (snd (tx_get q))"
    by (simp add: tx_queue_def tx_get_def ring_list_pop)
  have "unat (uart_tx_w q - uart_tx_r q) = Suc (unat (uart_tx_w q - (uart_tx_r q + 1)))"
    using arg_cong [OF eq, of length] by (simp add: tx_get_def tx_queue_def)
  with eq 2 show ?case by (simp add: tx_wf_def tx_get_def)
qed


lemma ust_woken [simp]:
  "uart_tx_buf (woken c n s) = uart_tx_buf s" "uart_tx_w (woken c n s) = uart_tx_w s"
  "uart_tx_r (woken c n s) = uart_tx_r s" "uart_in (woken c n s) = uart_in s" "panicked (woken c n s) = panicked s"
  "tx_queue (woken c n s) = tx_queue s" "tx_wf (woken c n s) = tx_wf s"
  by (simp_all add: woken_def tx_queue_def tx_wf_def)

text \<open>What the UART has sent, followed by what waits to be sent.\<close>

definition uart_stream :: "'a ust_scheme \<Rightarrow> string" where
  "uart_stream s = cout s @ map (\<lambda>c. char_of (unat c)) (tx_queue s)"

lemma uartstart_loop_ok:
  assumes "tx_wf s" "no_proc_locks s" "length (tx_queue s) < k"
  shows "\<exists>s'. uartstart_loop k s = Inr s' \<and> tx_wf s' \<and> no_proc_locks s' \<and> held s' = held s \<and>
    uart_stream s' = uart_stream s \<and> panicked s' = panicked s \<and>
    (tx_queue s' = [] \<or> (\<exists>j. \<not> tx_idle s j))"
  using assms
proof (induction k arbitrary: s)
  case 0
  then show ?case by simp
next
  case (Suc k)
  let ?s1 = "s\<lparr>lsr_reads := lsr_reads s + 1\<rparr>"
  have s1: "tx_wf ?s1" "no_proc_locks ?s1" "tx_queue ?s1 = tx_queue s" "uart_stream ?s1 = uart_stream s"
    using Suc.prems by (simp_all add: tx_wf_def no_proc_locks_def tx_queue_def uart_stream_def)
  show ?case
  proof (cases "uart_tx_w s = uart_tx_r s")
    case True
    then show ?thesis using Suc.prems by (simp add: tx_queue_def)
  next
    case ne: False
    show ?thesis
    proof (cases "tx_idle s (lsr_reads s)")
      case False
      then show ?thesis using ne s1 by (auto simp: read_tx_idle_def)
    next
      case True
      have q: "tx_queue ?s1 \<noteq> []" using ne by (auto simp: tx_queue_def)
      let ?g = "tx_get ?s1"
      let ?s2 = "write_THR (fst ?g) (woken ChanUart NPROC (snd ?g))"
      have g: "tx_wf (snd ?g)" "tx_queue ?s1 = fst ?g # tx_queue (snd ?g)" using uart_tx.get_contents [OF s1(1) q] by auto
      have nl: "no_proc_locks (snd ?g)" using s1(2) by (simp add: tx_get_def no_proc_locks_def)
      have st: "uartstart_loop (Suc k) s = uartstart_loop k ?s2"
        using ne True wakeup_woken [OF nl, of ChanUart] by (simp add: read_tx_idle_def tx_get_def Let_def)
      have s2: "tx_wf ?s2" "no_proc_locks ?s2" "length (tx_queue ?s2) < k" "uart_stream ?s2 = uart_stream s"
        "held ?s2 = held s" "panicked ?s2 = panicked s" "tx_idle ?s2 = tx_idle s"
        using g nl Suc.prems(3) s1(3)
        by (simp_all add: write_THR_def tx_wf_def no_proc_locks_def tx_queue_def uart_stream_def tx_get_def woken_def)
      from Suc.IH [OF s2(1-3)] st s2(4-7) show ?thesis by simp
    qed
  qed
qed


lemma uartstart_ok:
  assumes "tx_wf s" "no_proc_locks s"
  shows "\<exists>s'. uartstart s = Inr s' \<and> tx_wf s' \<and> no_proc_locks s' \<and> held s' = held s \<and>
    uart_stream s' = uart_stream s \<and> panicked s' = panicked s \<and> (tx_queue s' = [] \<or> (\<exists>j. \<not> tx_idle s j))"
  unfolding uartstart_def by (rule uartstart_loop_ok [OF assms]) (simp add: tx_queue_def)

text \<open>C31. Unless the buffer is full, \<open>uartputc\<close> does not wait: it puts its character behind everything
  that was sent or waits to be sent, nothing is lost or reordered, and the buffer is empty
  afterwards if the transmitter stays idle.\<close>

theorem uartputc_in_order:
  assumes "tx_wf s" "no_proc_locks s" "UartLock \<notin> held s" "\<not> panicked s" "length (tx_queue s) < UART_TX_BUF_SIZE"
  shows "\<exists>s'. uartputc c s = Inr (Done (), s') \<and> tx_wf s' \<and> held s' = held s \<and>
    uart_stream s' = uart_stream s @ [char_of (unat c)] \<and> ((\<forall>j. tx_idle s j) \<longrightarrow> tx_queue s' = [])"
proof -
  let ?s1 = "s\<lparr>held := insert UartLock (held s)\<rparr>"
  have s1: "tx_wf ?s1" "tx_queue ?s1 = tx_queue s" using assms(1) by (simp_all add: tx_wf_def tx_queue_def)
  have p: "tx_wf (tx_put c ?s1)" "tx_queue (tx_put c ?s1) = tx_queue s @ [c]"
    using uart_tx.put_contents [OF s1(1), of c] assms(5) s1(2) by auto
  have "no_proc_locks (tx_put c ?s1)" using assms(2) by (simp add: no_proc_locks_def tx_put_def)
  from uartstart_ok [OF p(1) this] obtain s2 where s2: "uartstart (tx_put c ?s1) = Inr s2" "tx_wf s2"
    "held s2 = insert UartLock (held s)" "uart_stream s2 = uart_stream (tx_put c ?s1)"
    "tx_queue s2 = [] \<or> (\<exists>j. \<not> tx_idle s j)"
    by (auto simp: tx_put_def)
  have nf: "uart_tx_w s \<noteq> uart_tx_r s + of_nat UART_TX_BUF_SIZE" using tx_full [OF assms(1)] assms(5) by simp
  let ?s3 = "s2\<lparr>held := held s\<rparr>"
  have "uartputc c s = Inr (Done (), ?s3)"
    using s2(1,3) nf assms(3,4)
    by (simp add: uartputc_def uartputc_locked_def acquire_lk_def release_lk_def tx_put_def Let_def)
  moreover have "uart_stream ?s3 = uart_stream s @ [char_of (unat c)]" "tx_wf ?s3" "tx_queue ?s3 = tx_queue s2"
    using s2(2,4) p(2) by (simp_all add: uart_stream_def tx_queue_def tx_wf_def) (simp add: tx_put_def)
  ultimately show ?thesis using s2(5) by auto
qed

definition demo_ust :: ust where
  "demo_ust = pst.extend demo_pst (ust.fields (replicate 32 0) 7 5 [] (\<lambda>_. True) 0 [] False)"

lemma demo_ust_simps: "tx_wf demo_ust" "no_proc_locks demo_ust" "UartLock \<notin> held demo_ust" "\<not> panicked demo_ust"
  "tx_queue demo_ust = [0, 0]" "tx_idle demo_ust j"
  by (simp_all add: demo_ust_def demo_pst_def pst.defs ust.defs tx_wf_def UART_TX_BUF_SIZE_def no_proc_locks_def tx_queue_def
      ring_list_def ring_nth_def upt_rec)

theorem uartputc_in_order_witness:
  "\<exists>s'. uartputc 65 demo_ust = Inr (Done (), s') \<and> uart_stream s' = uart_stream demo_ust @ ''A'' \<and> tx_queue s' = []"
  using uartputc_in_order [OF demo_ust_simps(1-4), of 65] demo_ust_simps(5,6)
  by (auto simp: UART_TX_BUF_SIZE_def char_of_def bit_0)

end
