(* ===== verification/Console.thy ===== *)
theory Console
  imports Uart
begin

text \<open>
  The console (\<open>kernel/console.c\<close>) and the UART's interrupt handler, which feeds it. The input
  buffer has three counters: what lies between \<open>r\<close> and \<open>w\<close> has been entered and can be read, what
  lies between \<open>w\<close> and \<open>e\<close> is the line being edited.
\<close>

record cst = ust +
  cons_buf :: "u8 list"
  cons_r :: u32
  cons_w :: u32
  cons_e :: u32
  kbd_intr_count :: u32

definition INPUT_BUF_SIZE :: nat where "INPUT_BUF_SIZE = 128"

definition BACKSPACE :: int where "BACKSPACE = 0x100"

definition ctrl :: "nat \<Rightarrow> int" where "ctrl x = int x - 0x40"

definition consputc :: "int \<Rightarrow> 'a ust_scheme \<Rightarrow> kerr + 'a ust_scheme" where
  "consputc c s =
     (if c = BACKSPACE then
        bindr (uartputc_sync 0x08 s) (\<lambda>s1. bindr (uartputc_sync 0x20 s1) (uartputc_sync 0x08))
      else uartputc_sync (of_int c) s)"

text \<open>Writing ends early when the user's memory cannot be read; a full transmit buffer makes the
  writer sleep in \<open>uartputc\<close>.\<close>

primrec consolewrite_loop :: "nat \<Rightarrow> bool \<Rightarrow> u64 \<Rightarrow> int \<Rightarrow> 'a ust_scheme \<Rightarrow> kerr + (int \<times> 'a ust_scheme)" where
  "consolewrite_loop 0 user_src src i s = Inr (i, s)"
| "consolewrite_loop (Suc k) user_src src i s =
     bindr (either_copyin user_src (src + of_int i) 1 s) (\<lambda>((r, cs), s1).
     if r = -1 then Inr (i, s1)
     else bindr (uartputc (hd cs) s1) (\<lambda>(out, s2).
       case out of Sleeps c \<Rightarrow> Inl (Block c) | Done _ \<Rightarrow> consolewrite_loop k user_src src (i + 1) s2))"

definition consolewrite :: "bool \<Rightarrow> u64 \<Rightarrow> int \<Rightarrow> 'a ust_scheme \<Rightarrow> kerr + (int \<times> 'a ust_scheme)" where
  "consolewrite user_src src n s = consolewrite_loop (nat n) user_src src 0 s"

text \<open>\<open>consoleread\<close> with \<open>cons.lock\<close> held and \<open>n\<close> bytes to go. When the buffer is empty it sleeps, and
  \<open>consoleread_resume\<close> goes on with the same \<open>dst\<close> and \<open>n\<close>, which are returned with \<open>Sleeps\<close>.\<close>

primrec consoleread_loop ::
  "nat \<Rightarrow> bool \<Rightarrow> u64 \<Rightarrow> int \<Rightarrow> 'a cst_scheme \<Rightarrow> kerr + ((int outcome \<times> u64 \<times> nat) \<times> 'a cst_scheme)" where
  "consoleread_loop 0 user_dst dst target s =
     bindr (release_lk ConsLock s) (\<lambda>s1. Inr ((Done target, dst, 0), s1))"
| "consoleread_loop (Suc k) user_dst dst target s =
     (let n = Suc k; finish = (\<lambda>t. bindr (release_lk ConsLock t) (\<lambda>t1. Inr ((Done (target - int n), dst, n), t1))) in
      if cons_r s = cons_w s then
        bindr (myproc s) (\<lambda>p.
        bindr (killed p s) (\<lambda>(kl, s1).
        if kl \<noteq> 0 then bindr (release_lk ConsLock s1) (\<lambda>s2. Inr ((Done (-1), dst, n), s2))
        else bindr (sleep_enter ChanCons ConsLock s1) (\<lambda>s2. Inr ((Sleeps ChanCons, dst, n), s2))))
      else
        let c = ring_nth (cons_buf s) (cons_r s); s1 = s\<lparr>cons_r := cons_r s + 1\<rparr> in
        if uint c = ctrl 0x44 then
          finish (if int n < target then s1\<lparr>cons_r := cons_r s1 - 1\<rparr> else s1)
        else bindr (either_copyout user_dst dst [c] s1) (\<lambda>(r, s2).
          if r = -1 then finish s2
          else if c = 0x0A then
            bindr (release_lk ConsLock s2) (\<lambda>s3. Inr ((Done (target - int k), dst + 1, k), s3))
          else consoleread_loop k user_dst (dst + 1) target s2))"

definition consoleread ::
  "bool \<Rightarrow> u64 \<Rightarrow> int \<Rightarrow> 'a cst_scheme \<Rightarrow> kerr + ((int outcome \<times> u64 \<times> nat) \<times> 'a cst_scheme)" where
  "consoleread user_dst dst n s =
     bindr (acquire_lk ConsLock s) (\<lambda>s1.
     if n > 0 then consoleread_loop (nat n) user_dst dst n s1
     else bindr (release_lk ConsLock s1) (\<lambda>s2. Inr ((Done 0, dst, 0), s2)))"

definition consoleread_resume ::
  "bool \<Rightarrow> u64 \<Rightarrow> nat \<Rightarrow> int \<Rightarrow> 'a cst_scheme \<Rightarrow> kerr + ((int outcome \<times> u64 \<times> nat) \<times> 'a cst_scheme)" where
  "consoleread_resume user_dst dst n target s =
     bindr (sleep_exit ConsLock s) (consoleread_loop n user_dst dst target)"

text \<open>The loop of control-U; it ends within \<open>e - w\<close> turns.\<close>

primrec kill_line :: "nat \<Rightarrow> 'a cst_scheme \<Rightarrow> kerr + 'a cst_scheme" where
  "kill_line 0 s = Inr s"
| "kill_line (Suc k) s =
     (if cons_e s \<noteq> cons_w s \<and> ring_nth (cons_buf s) (cons_e s - 1) \<noteq> 0x0A
      then bindr (consputc BACKSPACE (s\<lparr>cons_e := cons_e s - 1\<rparr>)) (kill_line k)
      else Inr s)"

text \<open>Echo a character and store it.\<close>

definition cons_enter :: "int \<Rightarrow> 'a cst_scheme \<Rightarrow> kerr + 'a cst_scheme" where
  "cons_enter c s =
     bindr (consputc c s) (\<lambda>s1.
     let s2 = s1\<lparr>cons_buf := ring_put (cons_buf s1) (cons_e s1) (of_int c), cons_e := cons_e s1 + 1\<rparr> in
     if c = 0x0A \<or> c = ctrl 0x44 \<or> unat (cons_e s2 - cons_r s2) = INPUT_BUF_SIZE
     then wakeup ChanCons (s2\<lparr>cons_w := cons_e s2\<rparr>) else Inr s2)"

definition cons_switch :: "int \<Rightarrow> 'a cst_scheme \<Rightarrow> kerr + 'a cst_scheme" where
  "cons_switch c s =
     (if c = ctrl 0x50 then procdump s
      else if c = ctrl 0x55 then kill_line (unat (cons_e s - cons_w s)) s
      else if c = ctrl 0x48 \<or> c = 0x7f then
        (if cons_e s \<noteq> cons_w s then consputc BACKSPACE (s\<lparr>cons_e := cons_e s - 1\<rparr>) else Inr s)
      else if c \<noteq> 0 \<and> unat (cons_e s - cons_r s) < INPUT_BUF_SIZE then
        cons_enter (if c = 0x0D then 0x0A else c) s
      else Inr s)"

definition consoleintr :: "int \<Rightarrow> 'a cst_scheme \<Rightarrow> kerr + 'a cst_scheme" where
  "consoleintr c s =
     bindr (acquire_lk ConsLock (s\<lparr>kbd_intr_count := kbd_intr_count s + 1\<rparr>)) (\<lambda>s1.
     bindr (cons_switch c s1) (release_lk ConsLock))"

definition consoleinit :: "'a ust_scheme \<Rightarrow> 'a ust_scheme" where
  "consoleinit s = uartinit s"

section \<open>The UART's interrupt\<close>

primrec uartintr_loop :: "nat \<Rightarrow> 'a cst_scheme \<Rightarrow> kerr + 'a cst_scheme" where
  "uartintr_loop 0 s = Inl Diverge"
| "uartintr_loop (Suc k) s =
     (let (c, s1) = uartgetc s in if c = -1 then Inr s1 else bindr (consoleintr c s1) (uartintr_loop k))"

definition uartintr :: "'a cst_scheme \<Rightarrow> kerr + 'a cst_scheme" where
  "uartintr s =
     bindr (uartintr_loop (length (uart_in s) + 1) s) (\<lambda>s1.
     bindr (acquire_lk UartLock s1) (\<lambda>s2.
     bindr (uartstart s2) (release_lk UartLock)))"

section \<open>The line discipline\<close>

text \<open>What can be read, and the line that is being edited.\<close>

definition cons_ready :: "'a cst_scheme \<Rightarrow> u8 list" where
  "cons_ready s = ring_list (cons_buf s) (cons_r s) (cons_w s)"

definition cons_line :: "'a cst_scheme \<Rightarrow> u8 list" where
  "cons_line s = ring_list (cons_buf s) (cons_w s) (cons_e s)"

definition cons_wf :: "'a cst_scheme \<Rightarrow> bool" where
  "cons_wf s \<longleftrightarrow> length (cons_buf s) = INPUT_BUF_SIZE \<and> unat (cons_e s - cons_r s) \<le> INPUT_BUF_SIZE \<and>
     unat (cons_w s - cons_r s) \<le> unat (cons_e s - cons_r s) \<and> 0x0A \<notin> set (cons_line s)"

text \<open>The line discipline on lists: control-U erases the line, backspace and delete its last
  character; every other character is added if there is room, and a newline, control-D or a
  full buffer enters the line.\<close>

definition line_edit :: "u8 \<Rightarrow> u8 list \<times> u8 list \<Rightarrow> u8 list \<times> u8 list" where
  "line_edit c st = (case st of (ready, line) \<Rightarrow>
     if c = 0x15 then (ready, [])
     else if c = 0x08 \<or> c = 0x7f then (ready, butlast line)
     else if c \<noteq> 0 \<and> length ready + length line < INPUT_BUF_SIZE then
       let c' = (if c = 0x0D then 0x0A else c); line' = line @ [c'] in
       if c' = 0x0A \<or> c' = 0x04 \<or> length ready + length line' = INPUT_BUF_SIZE then (ready @ line', []) else (ready, line')
     else (ready, line))"

lemma cons_lengths:
  assumes "cons_wf s"
  shows "length (cons_ready s) + length (cons_line s) = unat (cons_e s - cons_r s)"
  using assms ring_list_split(4) [of "cons_w s" "cons_r s" "cons_e s"] by (simp add: cons_wf_def cons_ready_def cons_line_def)

lemma cons_erase:
  assumes "cons_wf s" "cons_e s \<noteq> cons_w s"
  shows "cons_wf (s\<lparr>cons_e := cons_e s - 1\<rparr>)" "cons_ready (s\<lparr>cons_e := cons_e s - 1\<rparr>) = cons_ready s"
    "cons_line (s\<lparr>cons_e := cons_e s - 1\<rparr>) = butlast (cons_line s)"
proof -
  show l: "cons_line (s\<lparr>cons_e := cons_e s - 1\<rparr>) = butlast (cons_line s)"
    using assms(2) by (simp add: cons_line_def ring_list_unput)
  show "cons_ready (s\<lparr>cons_e := cons_e s - 1\<rparr>) = cons_ready s" by (simp add: cons_ready_def)
  have er: "cons_e s \<noteq> cons_r s"
  proof
    assume a: "cons_e s = cons_r s"
    then have "unat (cons_w s - cons_r s) = 0" using assms(1) by (simp add: cons_wf_def)
    then have "cons_w s = cons_r s" by (simp add: unat_eq_0)
    with a assms(2) show False by simp
  qed
  have "unat (cons_e s - 1 - cons_r s) = unat (cons_e s - cons_r s) - 1"
    using er unat_minus_one [of "cons_e s - cons_r s"] by (simp add: algebra_simps)
  moreover have "unat (cons_w s - cons_r s) \<noteq> unat (cons_e s - cons_r s)"
    using assms(2) by (simp flip: word_unat_eq_iff)
  ultimately show "cons_wf (s\<lparr>cons_e := cons_e s - 1\<rparr>)"
    using assms(1) l in_set_butlastD by (fastforce simp: cons_wf_def)
qed

lemma cons_store:
  fixes c :: u8
  assumes wf: "cons_wf s" and room: "unat (cons_e s - cons_r s) < INPUT_BUF_SIZE"
  defines "s1 \<equiv> s\<lparr>cons_buf := ring_put (cons_buf s) (cons_e s) c, cons_e := cons_e s + 1\<rparr>"
  shows "cons_ready s1 = cons_ready s" "cons_line s1 = cons_line s @ [c]"
    "unat (cons_e s1 - cons_r s1) = unat (cons_e s - cons_r s) + 1" "length (cons_buf s1) = INPUT_BUF_SIZE"
    "unat (cons_w s1 - cons_r s1) \<le> unat (cons_e s1 - cons_r s1)"
proof -
  let ?b = "ring_put (cons_buf s) (cons_e s) c"
  have p: "ring_list ?b (cons_r s) (cons_e s + 1) = ring_list (cons_buf s) (cons_r s) (cons_e s) @ [c]"
    using wf room by (intro ring_list_put) (simp_all add: cons_wf_def INPUT_BUF_SIZE_def)
  have e: "unat (cons_e s + 1 - cons_r s) = unat (cons_e s - cons_r s) + 1" using arg_cong [OF p, of length] by simp
  have le: "unat (cons_w s - cons_r s) \<le> unat (cons_e s - cons_r s)"
    "unat (cons_w s - cons_r s) \<le> unat (cons_e s + 1 - cons_r s)"
    using wf e by (simp_all add: cons_wf_def)
  show "unat (cons_e s1 - cons_r s1) = unat (cons_e s - cons_r s) + 1" "length (cons_buf s1) = INPUT_BUF_SIZE"
    "unat (cons_w s1 - cons_r s1) \<le> unat (cons_e s1 - cons_r s1)"
    using e wf le(2) by (simp_all add: s1_def cons_wf_def)
  show "cons_ready s1 = cons_ready s"
    using ring_list_split(1) [OF le(2), of ?b] ring_list_split(1) [OF le(1), of "cons_buf s"] p le(1)
    by (simp add: s1_def cons_ready_def)
  show "cons_line s1 = cons_line s @ [c]"
    using ring_list_split(2) [OF le(2), of ?b] ring_list_split(2) [OF le(1), of "cons_buf s"] p le(1)
    by (simp add: s1_def cons_line_def)
qed


lemma consputc_ok:
  assumes "\<not> panicked s"
  shows "\<exists>out. consputc c s = Inr (s\<lparr>cout := cout s @ out\<rparr>)"
  using assms by (auto simp: consputc_def uartputc_sync_def write_THR_def)

lemma cons_cout [simp]:
  "cons_wf (s\<lparr>cout := x\<rparr>) = cons_wf s" "cons_ready (s\<lparr>cout := x\<rparr>) = cons_ready s" "cons_line (s\<lparr>cout := x\<rparr>) = cons_line s"
  "cons_wf (s\<lparr>held := h\<rparr>) = cons_wf s" "cons_ready (s\<lparr>held := h\<rparr>) = cons_ready s" "cons_line (s\<lparr>held := h\<rparr>) = cons_line s"
  "cons_wf (woken ch n s) = cons_wf s" "cons_ready (woken ch n s) = cons_ready s" "cons_line (woken ch n s) = cons_line s"
  "cons_wf (s\<lparr>kbd_intr_count := k\<rparr>) = cons_wf s" "cons_ready (s\<lparr>kbd_intr_count := k\<rparr>) = cons_ready s"
  "cons_line (s\<lparr>kbd_intr_count := k\<rparr>) = cons_line s"
  by (simp_all add: cons_wf_def cons_ready_def cons_line_def woken_def)

lemma cons_line_last:
  assumes "cons_wf s" "cons_e s \<noteq> cons_w s"
  shows "ring_nth (cons_buf s) (cons_e s - 1) \<noteq> 0x0A"
proof -
  have ne: "cons_line s \<noteq> []" using assms(2) by (auto simp: cons_line_def)
  have "0 < unat (cons_e s - cons_w s)" using assms(2) by (simp add: unat_gt_0)
  then have "last (cons_line s) = ring_nth (cons_buf s) (cons_w s + of_nat (unat (cons_e s - cons_w s) - 1))"
    by (simp add: cons_line_def ring_list_def last_map)
  also have "cons_w s + of_nat (unat (cons_e s - cons_w s) - 1) = cons_e s - 1"
    using \<open>0 < unat (cons_e s - cons_w s)\<close> by (simp add: of_nat_diff Suc_leI)
  finally show ?thesis using assms(1) last_in_set [OF ne] by (auto simp: cons_wf_def)
qed

lemma kill_line_ok:
  assumes "cons_wf s" "\<not> panicked s" "unat (cons_e s - cons_w s) = k"
  shows "\<exists>s'. kill_line k s = Inr s' \<and> cons_wf s' \<and> cons_ready s' = cons_ready s \<and> cons_line s' = [] \<and>
    held s' = held s"
  using assms
proof (induction k arbitrary: s)
  case 0
  then have "cons_e s = cons_w s" by (simp add: unat_eq_0)
  with 0 show ?case by (simp add: cons_line_def)
next
  case (Suc k)
  have ne: "cons_e s \<noteq> cons_w s" using Suc.prems(3) by auto
  let ?s1 = "s\<lparr>cons_e := cons_e s - 1\<rparr>"
  obtain out where o: "consputc BACKSPACE ?s1 = Inr (?s1\<lparr>cout := cout ?s1 @ out\<rparr>)"
    using consputc_ok [of ?s1] Suc.prems(2) by auto
  have "unat (cons_e s - 1 - cons_w s) = k"
    using Suc.prems(3) ne unat_minus_one [of "cons_e s - cons_w s"] by (simp add: algebra_simps)
  with Suc.IH [of "?s1\<lparr>cout := cout ?s1 @ out\<rparr>"] cons_erase [OF Suc.prems(1) ne] Suc.prems(2)
  show ?case using ne cons_line_last [OF Suc.prems(1) ne] o by simp
qed

lemma uint_eqs:
  fixes c :: u8
  shows "uint c = 0x15 \<longleftrightarrow> c = 0x15" "uint c = 0x08 \<longleftrightarrow> c = 0x08" "uint c = 0x7f \<longleftrightarrow> c = 0x7f" "uint c = 0x0D \<longleftrightarrow> c = 0x0D"
    "uint c = 0x0A \<longleftrightarrow> c = 0x0A" "uint c = 0x04 \<longleftrightarrow> c = 0x04" "uint c = 0 \<longleftrightarrow> c = 0" "uint c = 0x10 \<longleftrightarrow> c = 0x10"
  by (simp_all add: word_uint_eq_iff)

text \<open>Storing a character that is neither a control character nor erases.\<close>

lemma cons_enter_ok:
  fixes s :: "'a cst_scheme"
  assumes wf: "cons_wf s" and np: "\<not> panicked s" and nl: "no_proc_locks s"
    and room: "unat (cons_e s - cons_r s) < INPUT_BUF_SIZE"
  shows "\<exists>s'. cons_enter (uint c) s = Inr s' \<and> cons_wf s' \<and> held s' = held s \<and>
    (cons_ready s', cons_line s') =
      (if c = 0x0A \<or> c = 0x04 \<or> length (cons_ready s) + length (cons_line s @ [c]) = INPUT_BUF_SIZE
       then (cons_ready s @ cons_line s @ [c], []) else (cons_ready s, cons_line s @ [c]))"
proof -
  obtain out where o: "consputc (uint c) s = Inr (s\<lparr>cout := cout s @ out\<rparr>)" using consputc_ok [OF np] by blast
  define s1 where "s1 = s\<lparr>cout := cout s @ out\<rparr>"
  define s2 where "s2 = s1\<lparr>cons_buf := ring_put (cons_buf s1) (cons_e s1) c, cons_e := cons_e s1 + 1\<rparr>"
  have wf1: "cons_wf s1" "unat (cons_e s1 - cons_r s1) < INPUT_BUF_SIZE" "cons_ready s1 = cons_ready s" "cons_line s1 = cons_line s"
    using wf room by (simp_all add: s1_def)
  note st = cons_store [OF wf1(1,2), of c, folded s2_def]
  have h2: "held s2 = held s" "no_proc_locks s2" using nl by (simp_all add: s2_def s1_def no_proc_locks_def)
  have full: "unat (cons_e s2 - cons_r s2) = INPUT_BUF_SIZE \<longleftrightarrow> length (cons_ready s) + length (cons_line s @ [c]) = INPUT_BUF_SIZE"
    using cons_lengths [OF wf1(1)] wf1(3,4) st(3) by simp
  show ?thesis
  proof (cases "c = 0x0A \<or> c = 0x04 \<or> unat (cons_e s2 - cons_r s2) = INPUT_BUF_SIZE")
    case True
    let ?s3 = "s2\<lparr>cons_w := cons_e s2\<rparr>"
    have "wakeup ChanCons ?s3 = Inr (woken ChanCons NPROC ?s3)"
      using h2(2) by (intro wakeup_woken) (simp add: no_proc_locks_def)
    moreover have "cons_ready ?s3 = cons_ready s @ cons_line s @ [c]" "cons_line ?s3 = []"
      using ring_list_split(3) [OF st(5), of "cons_buf s2"] st(1,2) wf1(3,4) by (simp_all add: cons_ready_def cons_line_def)
    moreover have "cons_wf ?s3" using st(3,4) wf1(2) \<open>cons_line ?s3 = []\<close> by (simp add: cons_wf_def)
    moreover have "cons_enter (uint c) s = wakeup ChanCons ?s3"
      using o True by (auto simp: cons_enter_def s1_def s2_def Let_def ctrl_def uint_eqs)
    ultimately show ?thesis using True full h2(1) by auto
  next
    case False
    have "cons_wf s2" using st wf1(2,4) wf False by (auto simp: cons_wf_def)
    moreover have "cons_enter (uint c) s = Inr s2"
      using o False by (auto simp: cons_enter_def s1_def s2_def Let_def ctrl_def uint_eqs)
    ultimately show ?thesis using False full h2(1) st(1,2) wf1(3,4) by auto
  qed
qed

lemma cons_switch_ok:
  fixes s :: "'a cst_scheme"
  assumes wf: "cons_wf s" and np: "\<not> panicked s" and nl: "no_proc_locks s" and c: "c \<noteq> 0x10"
  shows "\<exists>s'. cons_switch (uint c) s = Inr s' \<and> cons_wf s' \<and> held s' = held s \<and>
    (cons_ready s', cons_line s') = line_edit c (cons_ready s, cons_line s)"
proof -
  consider "c = 0x15" | "c = 0x08 \<or> c = 0x7f" | "c \<noteq> 0x15 \<and> c \<noteq> 0x08 \<and> c \<noteq> 0x7f" by blast
  then show ?thesis
  proof cases
    case 1
    then show ?thesis using kill_line_ok [OF wf np refl] by (auto simp: cons_switch_def ctrl_def uint_eqs line_edit_def)
  next
    case 2
    show ?thesis
    proof (cases "cons_e s = cons_w s")
      case True
      then have "cons_line s = []" by (simp add: cons_line_def)
      with True 2 wf show ?thesis by (auto simp: cons_switch_def ctrl_def uint_eqs line_edit_def)
    next
      case False
      then show ?thesis
        using 2 cons_erase [OF wf False] consputc_ok [of "s\<lparr>cons_e := cons_e s - 1\<rparr>" BACKSPACE] np
        by (auto simp: cons_switch_def ctrl_def uint_eqs line_edit_def)
    qed
  next
    case 3
    define c' where "c' = (if c = 0x0D then 0x0A else c)"
    have c': "(if uint c = 0x0D then 0x0A else uint c) = uint c'" by (simp add: c'_def uint_eqs)
    show ?thesis
    proof (cases "c \<noteq> 0 \<and> unat (cons_e s - cons_r s) < INPUT_BUF_SIZE")
      case True
      have "cons_switch (uint c) s = cons_enter (uint c') s"
        using True 3 c by (simp add: cons_switch_def ctrl_def uint_eqs c'_def)
      moreover have "line_edit c (cons_ready s, cons_line s) =
          (if c' = 0x0A \<or> c' = 0x04 \<or> length (cons_ready s) + length (cons_line s @ [c']) = INPUT_BUF_SIZE
           then (cons_ready s @ cons_line s @ [c'], []) else (cons_ready s, cons_line s @ [c']))"
        using True 3 cons_lengths [OF wf] unfolding line_edit_def by (simp add: Let_def flip: c'_def)
      ultimately show ?thesis using cons_enter_ok [OF wf np nl, of c'] True by simp
    next
      case False
      with 3 c wf cons_lengths [OF wf] show ?thesis
        by (auto simp: cons_switch_def ctrl_def uint_eqs line_edit_def)
    qed
  qed
qed

text \<open>C32. The console's interrupt handler implements the line discipline: whatever the three counters
  are, the effect of a character other than control-P on the text that can be read and on the line
  being edited is that of \<open>line_edit\<close>, and the buffer never overflows.\<close>

theorem consoleintr_line_edit:
  fixes s :: "'a cst_scheme"
  assumes "cons_wf s" "\<not> panicked s" "no_proc_locks s" "ConsLock \<notin> held s" "c \<noteq> 0x10"
  shows "\<exists>s'. consoleintr (uint c) s = Inr s' \<and> cons_wf s' \<and> held s' = held s \<and>
    (cons_ready s', cons_line s') = line_edit c (cons_ready s, cons_line s)"
proof -
  let ?s1 = "s\<lparr>kbd_intr_count := kbd_intr_count s + 1, held := insert ConsLock (held s)\<rparr>"
  have "cons_wf ?s1" "\<not> panicked ?s1" "no_proc_locks ?s1" using assms by (simp_all add: no_proc_locks_def)
  from cons_switch_ok [OF this assms(5)] obtain s2 where s2: "cons_switch (uint c) ?s1 = Inr s2" "cons_wf s2"
    "held s2 = insert ConsLock (held s)" "(cons_ready s2, cons_line s2) = line_edit c (cons_ready s, cons_line s)" by auto
  then have "consoleintr (uint c) s = Inr (s2\<lparr>held := held s\<rparr>)"
    using assms(4) by (simp add: consoleintr_def acquire_lk_def release_lk_def)
  with s2 show ?thesis by auto
qed

definition demo_cst :: cst where
  "demo_cst = ust.extend demo_ust (cst.fields (replicate 128 0) 0xfffffffe 0 0 0)"

lemma demo_cst_simps: "cons_wf demo_cst" "no_proc_locks demo_cst" "ConsLock \<notin> held demo_cst" "\<not> panicked demo_cst"
  "cons_ready demo_cst = [0, 0]" "cons_line demo_cst = []"
  using demo_ust_simps(4)
  by (simp_all add: demo_cst_def demo_ust_def demo_pst_def pst.defs ust.defs cst.defs cons_wf_def INPUT_BUF_SIZE_def
      no_proc_locks_def cons_ready_def cons_line_def ring_list_def ring_nth_def upt_rec)

theorem consoleintr_line_edit_witness:
  "\<exists>s'. consoleintr 0x0D demo_cst = Inr s' \<and> cons_ready s' = [0, 0, 0x0A] \<and> cons_line s' = []"
  using consoleintr_line_edit [OF demo_cst_simps(1,4,2,3), of "0x0D"] demo_cst_simps(5,6)
  by (auto simp: line_edit_def INPUT_BUF_SIZE_def)

end
