(* ===== verification/Sleeplock.thy ===== *)
theory Sleeplock
  imports Sched Console
begin

text \<open>
  Sleep locks (\<open>kernel/sleeplock.c\<close>). They live in the buffers of the buffer cache and in the entries
  of the inode table; \<open>slocks\<close> holds their fields. The theory \<open>Sleepwake\<close> interleaves
  processes that acquire, wait for, are handed and release sleep locks.
\<close>

record sleeplock =
  sl_locked :: bool
  sl_pid :: u32

record sst = cst +
  slocks :: "slock \<Rightarrow> sleeplock"

text \<open>A routine modelled in one piece stops with \<open>Block\<close> when the routine it calls sleeps.\<close>

definition or_block :: "kerr + ('r outcome \<times> 's) \<Rightarrow> kerr + ('r \<times> 's)" where
  "or_block m = bindr m (\<lambda>(out, s). case out of Done r \<Rightarrow> Inr (r, s) | Sleeps c \<Rightarrow> Inl (Block c))"

definition upd_sl :: "slock \<Rightarrow> sleeplock \<Rightarrow> 'a sst_scheme \<Rightarrow> 'a sst_scheme" where
  "upd_sl l v s = s\<lparr>slocks := (slocks s)(l := v)\<rparr>"

lemma upd_sl_simps [simp]:
  "upd_sl l v (s\<lparr>held := h\<rparr>) = (upd_sl l v s)\<lparr>held := h\<rparr>" "held (upd_sl l v s) = held s" "procs (upd_sl l v s) = procs s"
  "cur (upd_sl l v s) = cur s" "slocks (upd_sl l v s) = (slocks s)(l := v)" "no_proc_locks (upd_sl l v s) = no_proc_locks s"
  by (simp_all add: upd_sl_def no_proc_locks_def)

definition initsleeplock :: "slock \<Rightarrow> 'a sst_scheme \<Rightarrow> 'a sst_scheme" where
  "initsleeplock lk s = upd_sl lk \<lparr>sl_locked = False, sl_pid = 0\<rparr> s"

definition acquiresleep_locked :: "slock \<Rightarrow> 'a sst_scheme \<Rightarrow> kerr + (unit outcome \<times> 'a sst_scheme)" where
  "acquiresleep_locked lk s =
     (if sl_locked (slocks s lk) then
        bindr (sleep_enter (ChanSleeplock lk) (SleepLk lk) s) (\<lambda>s1. Inr (Sleeps (ChanSleeplock lk), s1))
      else bindr (myproc s) (\<lambda>p.
        let s1 = upd_sl lk \<lparr>sl_locked = True, sl_pid = pid (procs s p)\<rparr> s in
        bindr (release_lk (SleepLk lk) s1) (\<lambda>s2. Inr (Done (), s2))))"

definition acquiresleep_try :: "slock \<Rightarrow> 'a sst_scheme \<Rightarrow> kerr + (unit outcome \<times> 'a sst_scheme)" where
  "acquiresleep_try lk s = bindr (acquire_lk (SleepLk lk) s) (acquiresleep_locked lk)"

definition acquiresleep_resume :: "slock \<Rightarrow> 'a sst_scheme \<Rightarrow> kerr + (unit outcome \<times> 'a sst_scheme)" where
  "acquiresleep_resume lk s = bindr (sleep_exit (SleepLk lk) s) (acquiresleep_locked lk)"

definition acquiresleep :: "slock \<Rightarrow> 'a sst_scheme \<Rightarrow> kerr + 'a sst_scheme" where
  "acquiresleep lk s = bindr (or_block (acquiresleep_try lk s)) (\<lambda>(u, s1). Inr s1)"

definition releasesleep :: "slock \<Rightarrow> 'a sst_scheme \<Rightarrow> kerr + 'a sst_scheme" where
  "releasesleep lk s =
     bindr (acquire_lk (SleepLk lk) s) (\<lambda>s1.
     bindr (wakeup (ChanSleeplock lk) (upd_sl lk \<lparr>sl_locked = False, sl_pid = 0\<rparr> s1)) (release_lk (SleepLk lk)))"

definition holdingsleep :: "slock \<Rightarrow> 'a sst_scheme \<Rightarrow> kerr + (bool \<times> 'a sst_scheme)" where
  "holdingsleep lk s =
     bindr (acquire_lk (SleepLk lk) s) (\<lambda>s1.
     bindr (if sl_locked (slocks s1 lk) then bindr (myproc s1) (\<lambda>p. Inr (sl_pid (slocks s1 lk) = pid (procs s1 p)))
            else Inr False) (\<lambda>r.
     bindr (release_lk (SleepLk lk) s1) (\<lambda>s2. Inr (r, s2))))"

section \<open>Sequential use\<close>

lemma acquiresleep_try_ok:
  assumes "SleepLk l \<notin> held s" "cur s = Some p" "\<not> sl_locked (slocks s l)"
  shows "acquiresleep_try l s = Inr (Done (), upd_sl l \<lparr>sl_locked = True, sl_pid = pid (procs s p)\<rparr> s)"
  using assms
  by (simp add: acquiresleep_try_def acquiresleep_locked_def acquire_lk_def release_lk_def myproc_def Let_def)

lemma acquiresleep_try_sleeps:
  assumes "held s = {}" "cur s = Some p" "sl_locked (slocks s l)"
  shows "acquiresleep_try l s = Inr (Sleeps (ChanSleeplock l),
    updp p (\<lambda>r. r\<lparr>pchan := Some (ChanSleeplock l), pstate := SLEEPING\<rparr>) (s\<lparr>held := {ProcLock p}\<rparr>))"
  using assms sleep_enter_ok [of "s\<lparr>held := {SleepLk l}\<rparr>" p "SleepLk l" "ChanSleeplock l"]
  by (simp add: acquiresleep_try_def acquiresleep_locked_def acquire_lk_def)

lemma acquiresleep_ok:
  assumes "SleepLk l \<notin> held s" "cur s = Some p" "\<not> sl_locked (slocks s l)"
  shows "acquiresleep l s = Inr (upd_sl l \<lparr>sl_locked = True, sl_pid = pid (procs s p)\<rparr> s)"
  using acquiresleep_try_ok [OF assms] by (simp add: acquiresleep_def or_block_def)

lemma releasesleep_ok:
  assumes "SleepLk l \<notin> held s" "no_proc_locks s"
  shows "releasesleep l s = Inr (woken (ChanSleeplock l) NPROC (upd_sl l \<lparr>sl_locked = False, sl_pid = 0\<rparr> s))"
proof -
  let ?s1 = "(upd_sl l \<lparr>sl_locked = False, sl_pid = 0\<rparr> s)\<lparr>held := insert (SleepLk l) (held s)\<rparr>"
  have "wakeup (ChanSleeplock l) ?s1 = Inr (woken (ChanSleeplock l) NPROC ?s1)"
    using assms(2) by (intro wakeup_woken) (simp add: no_proc_locks_def)
  then show ?thesis
    using assms(1) by (simp add: releasesleep_def acquire_lk_def release_lk_def)
qed

lemma holdingsleep_ok:
  assumes "SleepLk l \<notin> held s" "cur s = Some p"
  shows "holdingsleep l s = Inr (sl_locked (slocks s l) \<and> sl_pid (slocks s l) = pid (procs s p), s)"
  using assms by (simp add: holdingsleep_def acquire_lk_def release_lk_def myproc_def)

lemma slocks_woken [simp]: "slocks (woken c n s) = slocks s"
  by (simp add: woken_def)

section \<open>A concrete state\<close>

definition demo_sst :: sst where
  "demo_sst = (cst.extend demo_cst (sst.fields (\<lambda>_. \<lparr>sl_locked = False, sl_pid = 0\<rparr>)))
     \<lparr>procs := (\<lambda>_. demo_proc)(1 := demo_proc\<lparr>pstate := RUNNING, pid := 1\<rparr>, 2 := demo_proc\<lparr>pstate := RUNNING, pid := 2\<rparr>)\<rparr>"

lemma demo_sst_simps: "held demo_sst = {}" "cur demo_sst = None" "slocks demo_sst l = \<lparr>sl_locked = False, sl_pid = 0\<rparr>"
  "procs demo_sst = (\<lambda>_. demo_proc)(1 := demo_proc\<lparr>pstate := RUNNING, pid := 1\<rparr>, 2 := demo_proc\<lparr>pstate := RUNNING, pid := 2\<rparr>)"
  by (simp_all add: demo_sst_def demo_cst_def demo_ust_def demo_pst_def pst.defs ust.defs cst.defs sst.defs)

end
