(* ===== verification/Virtio.thy ===== *)
theory Virtio
  imports Sleeplock
begin

text \<open>
  The driver of the virtio disk (\<open>kernel/virtio_disk.c\<close>). \<open>vq\<close> is the memory that the driver shares with
  the device: the descriptors, the two rings, the request headers, the status bytes, the data of
  the buffers, the medium itself, byte by byte, and the writes that the medium has seen, in their
  order, from which the states it can be in after a crash are read off. What the device does when it is notified is
  the field \<open>device\<close> of the state; \<open>device_spec\<close> is what the virtio specification says of a block
  device, which may report an error, and \<open>device_ok\<close> what it says of one that reports none. The values of the device's registers are the field \<open>mmio\<close>, and \<open>mmio_log\<close> records the
  writes to them.

  While a process sleeps in \<open>virtio_disk_rw\<close>, the device performs the request and its interrupt
  is handled: \<open>sleep_on_disk\<close> composes the two with the release and the acquisition of the lock.
\<close>

section \<open>State\<close>

definition NUM :: nat where "NUM = 8"

definition BSIZE :: nat where "BSIZE = 1024"

text \<open>The addresses that the driver puts into descriptors.\<close>

datatype daddr = DNull | DOps nat | DBuf nat | DStatus nat

record virtq_desc =
  d_addr :: daddr
  d_len :: u32
  d_flags :: u16
  d_next :: u16

record virtio_blk_req =
  req_type :: u32
  req_reserved :: u32
  req_sector :: u64

record vqueue =
  desc :: "virtq_desc list"
  avail_ring :: "u16 list"
  avail_idx :: u16
  used_ring :: "u32 list"
  used_ring_idx :: u16
  vstatus :: "u8 list"
  vops :: "virtio_blk_req list"
  bdata :: "nat \<Rightarrow> u8 list"
  medium :: "nat \<Rightarrow> u8"
  writes :: "(nat \<times> u8 list) list"

record buf =
  b_valid :: bool
  b_disk :: bool
  b_dev :: u32
  b_blockno :: u32
  b_refcnt :: u32
  b_prev :: nat
  b_next :: nat

record disk =
  vq :: vqueue
  vfree :: "bool list"
  vused_idx :: u16
  vinfo_b :: "nat option list"
  device :: "vqueue \<Rightarrow> vqueue"
  mmio :: "nat \<Rightarrow> u32"
  mmio_log :: "(nat \<times> u32) list"

record vst = sst +
  bufs :: "nat \<Rightarrow> buf"
  vd :: disk

definition updb :: "nat \<Rightarrow> (buf \<Rightarrow> buf) \<Rightarrow> 'a vst_scheme \<Rightarrow> 'a vst_scheme" where
  "updb i f s = s\<lparr>bufs := (bufs s)(i := f (bufs s i))\<rparr>"

definition upd_vd :: "(disk \<Rightarrow> disk) \<Rightarrow> 'a vst_scheme \<Rightarrow> 'a vst_scheme" where
  "upd_vd f s = s\<lparr>vd := f (vd s)\<rparr>"

definition updq :: "(vqueue \<Rightarrow> vqueue) \<Rightarrow> 'a vst_scheme \<Rightarrow> 'a vst_scheme" where
  "updq f s = upd_vd (\<lambda>d. d\<lparr>vq := f (vq d)\<rparr>) s"

definition writeR :: "nat \<Rightarrow> u32 \<Rightarrow> 'a vst_scheme \<Rightarrow> 'a vst_scheme" where
  "writeR r v s = upd_vd (\<lambda>d. d\<lparr>mmio_log := mmio_log d @ [(r, v)]\<rparr>) s"

definition null_desc :: virtq_desc where
  "null_desc = \<lparr>d_addr = DNull, d_len = 0, d_flags = 0, d_next = 0\<rparr>"

section \<open>Initialisation\<close>

definition virtio_disk_init :: "'a vst_scheme \<Rightarrow> kerr + 'a vst_scheme" where
  "virtio_disk_init s =
     (if mmio (vd s) 0x000 \<noteq> 0x74726976 \<or> mmio (vd s) 0x004 \<noteq> 2 \<or> mmio (vd s) 0x008 \<noteq> 2 \<or> mmio (vd s) 0x00c \<noteq> 0x554d4551
      then Inl (Panic ''could not find virtio disk'')
      else
        let s1 = writeR 0x070 3 (writeR 0x070 1 (writeR 0x070 0 s));
            features = mmio (vd s1) 0x010 AND NOT (push_bit 5 1) AND NOT (push_bit 7 1) AND NOT (push_bit 11 1)
              AND NOT (push_bit 12 1) AND NOT (push_bit 27 1) AND NOT (push_bit 29 1) AND NOT (push_bit 28 1);
            s2 = writeR 0x070 11 (writeR 0x020 features s1);
            status = mmio (vd s2) 0x070
        in if status AND 8 = 0 then Inl (Panic ''virtio disk FEATURES_OK unset'')
        else let s3 = writeR 0x030 0 s2 in
          if mmio (vd s3) 0x044 \<noteq> 0 then Inl (Panic ''virtio disk should not be ready'')
          else if mmio (vd s3) 0x034 = 0 then Inl (Panic ''virtio disk has no queue 0'')
          else if unat (mmio (vd s3) 0x034) < NUM then Inl (Panic ''virtio disk max queue too short'')
          else bindr (kalloc s3) (\<lambda>(d, s4). bindr (kalloc s4) (\<lambda>(a, s5). bindr (kalloc s5) (\<lambda>(u, s6).
            if d = 0 \<or> a = 0 \<or> u = 0 then Inl (Panic ''virtio disk kalloc'')
            else let s7 = updq (\<lambda>q. q\<lparr>desc := replicate NUM null_desc, avail_ring := replicate NUM 0, avail_idx := 0,
                       used_ring := replicate NUM 0, used_ring_idx := 0\<rparr>)
                     (s6\<lparr>pmem := memset u 0 4096 (memset a 0 4096 (memset d 0 4096 (pmem s6)))\<rparr>);
                   s8 = writeR 0x038 (of_nat NUM) s7;
                   s9 = writeR 0x084 (ucast (drop_bit 32 d)) (writeR 0x080 (ucast d) s8);
                   s10 = writeR 0x094 (ucast (drop_bit 32 a)) (writeR 0x090 (ucast a) s9);
                   s11 = writeR 0x0a4 (ucast (drop_bit 32 u)) (writeR 0x0a0 (ucast u) s10);
                   s12 = upd_vd (\<lambda>x. x\<lparr>vfree := replicate NUM True\<rparr>) (writeR 0x044 1 s11)
               in Inr (writeR 0x070 (status OR 4) s12)))))"

section \<open>Descriptors\<close>

definition alloc_desc :: "'a vst_scheme \<Rightarrow> nat option \<times> 'a vst_scheme" where
  "alloc_desc s = (case scan (\<lambda>i. vfree (vd s) ! i) 0 NUM of None \<Rightarrow> (None, s)
     | Some i \<Rightarrow> (Some i, upd_vd (\<lambda>d. d\<lparr>vfree := (vfree d)[i := False]\<rparr>) s))"

definition free_desc :: "nat \<Rightarrow> 'a vst_scheme \<Rightarrow> kerr + 'a vst_scheme" where
  "free_desc i s =
     (if i \<ge> NUM then Inl (Panic ''free_desc 1'')
      else if vfree (vd s) ! i then Inl (Panic ''free_desc 2'')
      else wakeup ChanDisk (upd_vd (\<lambda>d. d\<lparr>vfree := (vfree d)[i := True]\<rparr>) (updq (\<lambda>q. q\<lparr>desc := (desc q)[i := null_desc]\<rparr>) s)))"

text \<open>Each turn of the loop of \<open>free_chain\<close> frees a descriptor, and freeing a free one panics, so that
  it ends within \<open>NUM + 1\<close> turns.\<close>

primrec free_chain_loop :: "nat \<Rightarrow> nat \<Rightarrow> 'a vst_scheme \<Rightarrow> kerr + 'a vst_scheme" where
  "free_chain_loop 0 i s = Inl Diverge"
| "free_chain_loop (Suc k) i s =
     (if i \<ge> NUM then Inl (Panic ''free_desc 1'')
      else let flag = d_flags (desc (vq (vd s)) ! i); nxt = unat (d_next (desc (vq (vd s)) ! i)) in
        bindr (free_desc i s) (\<lambda>s1. if flag AND 1 \<noteq> 0 then free_chain_loop k nxt s1 else Inr s1))"

definition free_chain :: "nat \<Rightarrow> 'a vst_scheme \<Rightarrow> kerr + 'a vst_scheme" where
  "free_chain i s = free_chain_loop (NUM + 1) i s"

definition alloc3_desc :: "'a vst_scheme \<Rightarrow> kerr + ((nat \<times> nat \<times> nat) option \<times> 'a vst_scheme)" where
  "alloc3_desc s =
     (case alloc_desc s of (None, s1) \<Rightarrow> Inr (None, s1)
      | (Some i, s1) \<Rightarrow>
        (case alloc_desc s1 of (None, s2) \<Rightarrow> bindr (free_desc i s2) (\<lambda>s3. Inr (None, s3))
         | (Some j, s2) \<Rightarrow>
           (case alloc_desc s2 of
              (None, s3) \<Rightarrow> bindr (free_desc i s3) (\<lambda>s4. bindr (free_desc j s4) (\<lambda>s5. Inr (None, s5)))
            | (Some k, s3) \<Rightarrow> Inr (Some (i, j, k), s3))))"

section \<open>Requests\<close>

definition virtio_disk_intr_step :: "'a vst_scheme \<Rightarrow> kerr + 'a vst_scheme" where
  "virtio_disk_intr_step s =
     (let id = unat (ring_nth (used_ring (vq (vd s))) (vused_idx (vd s))) in
      if id \<ge> NUM then Inl Fault
      else if vstatus (vq (vd s)) ! id \<noteq> 0 then Inl (Panic ''virtio_disk_intr status'')
      else (case vinfo_b (vd s) ! id of None \<Rightarrow> Inl Fault
        | Some b \<Rightarrow> bindr (wakeup (ChanBuf b) (updb b (\<lambda>r. r\<lparr>b_disk := False\<rparr>) s)) (\<lambda>s1.
            Inr (upd_vd (\<lambda>d. d\<lparr>vused_idx := vused_idx d + 1\<rparr>) s1))))"

primrec virtio_disk_intr_loop :: "nat \<Rightarrow> 'a vst_scheme \<Rightarrow> kerr + 'a vst_scheme" where
  "virtio_disk_intr_loop 0 s = Inr s"
| "virtio_disk_intr_loop (Suc k) s =
     (if vused_idx (vd s) \<noteq> used_ring_idx (vq (vd s))
      then bindr (virtio_disk_intr_step s) (virtio_disk_intr_loop k) else Inr s)"

text \<open>The loop looks at the entries that the device has added, \<open>used->idx - used_idx\<close> of them.\<close>

definition virtio_disk_intr :: "'a vst_scheme \<Rightarrow> kerr + 'a vst_scheme" where
  "virtio_disk_intr s =
     bindr (acquire_lk VdiskLock s) (\<lambda>s1.
     let s2 = writeR 0x064 (mmio (vd s1) 0x060 AND 3) s1 in
     bindr (virtio_disk_intr_loop (unat (used_ring_idx (vq (vd s2)) - vused_idx (vd s2))) s2) (release_lk VdiskLock))"

text \<open>Writing the request into the three descriptors.\<close>

definition format_request :: "nat \<Rightarrow> nat \<Rightarrow> nat \<Rightarrow> nat \<Rightarrow> u32 \<Rightarrow> bool \<Rightarrow> vqueue \<Rightarrow> vqueue" where
  "format_request i0 i1 i2 b blockno write q =
     q\<lparr>vops := (vops q)[i0 := \<lparr>req_type = (if write then 1 else 0), req_reserved = 0, req_sector = ucast (blockno * 2)\<rparr>],
       desc := (desc q)
         [i0 := \<lparr>d_addr = DOps i0, d_len = 16, d_flags = 1, d_next = of_nat i1\<rparr>,
          i1 := \<lparr>d_addr = DBuf b, d_len = of_nat BSIZE, d_flags = (if write then 0 else 2) OR 1, d_next = of_nat i2\<rparr>,
          i2 := \<lparr>d_addr = DStatus i0, d_len = 1, d_flags = 2, d_next = 0\<rparr>],
       vstatus := (vstatus q)[i0 := 0xff]\<rparr>"

definition submit :: "nat \<Rightarrow> vqueue \<Rightarrow> vqueue" where
  "submit i0 q = q\<lparr>avail_ring := ring_put (avail_ring q) (avail_idx q) (of_nat i0), avail_idx := avail_idx q + 1\<rparr>"

definition virtio_disk_start :: "nat \<Rightarrow> bool \<Rightarrow> 'a vst_scheme \<Rightarrow> kerr + (nat \<times> 'a vst_scheme)" where
  "virtio_disk_start b write s =
     bindr (acquire_lk VdiskLock s) (\<lambda>s1.
     bindr (alloc3_desc s1) (\<lambda>(idx, s2).
     case idx of None \<Rightarrow> sleep_block ChanDisk VdiskLock s2
     | Some (i0, i1, i2) \<Rightarrow>
       let s3 = updq (format_request i0 i1 i2 b (b_blockno (bufs s2 b)) write) s2;
           s4 = upd_vd (\<lambda>d. d\<lparr>vinfo_b := (vinfo_b d)[i0 := Some b]\<rparr>) (updb b (\<lambda>r. r\<lparr>b_disk := True\<rparr>) s3)
       in Inr (i0, writeR 0x050 0 (updq (submit i0) s4))))"

definition sleep_on_disk :: "'a vst_scheme \<Rightarrow> kerr + 'a vst_scheme" where
  "sleep_on_disk s =
     bindr (assertr (held s = {VdiskLock}) (Panic ''sched locks'')) (\<lambda>_.
     bindr (release_lk VdiskLock s) (\<lambda>s1.
     bindr (virtio_disk_intr (upd_vd (\<lambda>d. d\<lparr>vq := device d (vq d)\<rparr>) s1)) (acquire_lk VdiskLock)))"

definition virtio_disk_finish :: "nat \<Rightarrow> 'a vst_scheme \<Rightarrow> kerr + 'a vst_scheme" where
  "virtio_disk_finish i0 s =
     bindr (free_chain i0 (upd_vd (\<lambda>d. d\<lparr>vinfo_b := (vinfo_b d)[i0 := None]\<rparr>) s)) (release_lk VdiskLock)"

text \<open>The loop that waits for the device, with a bound on the number of times the process sleeps. A device that has not finished
  the request when its interrupt is handled does not finish it later, so that one turn is enough; if it does not finish the request,
  the process does not return from here.\<close>

primrec disk_wait :: "nat \<Rightarrow> nat \<Rightarrow> 'a vst_scheme \<Rightarrow> kerr + 'a vst_scheme" where
  "disk_wait 0 b s = (if b_disk (bufs s b) then Inl (Block (ChanBuf b)) else Inr s)"
| "disk_wait (Suc k) b s = (if b_disk (bufs s b) then bindr (sleep_on_disk s) (disk_wait k b) else Inr s)"

definition virtio_disk_rw :: "nat \<Rightarrow> bool \<Rightarrow> 'a vst_scheme \<Rightarrow> kerr + 'a vst_scheme" where
  "virtio_disk_rw b write s =
     bindr (virtio_disk_start b write s) (\<lambda>(i0, s1). bindr (disk_wait 1 b s1) (virtio_disk_finish i0))"

section \<open>The device\<close>

text \<open>A block request is a chain of three descriptors: the header, the data and the status byte. The
  device transfers the data between the memory and the medium, 512 bytes to a sector, stores a
  zero status and adds the head of the chain to the used ring.\<close>

definition write_medium :: "nat \<Rightarrow> u8 list \<Rightarrow> (nat \<Rightarrow> u8) \<Rightarrow> nat \<Rightarrow> u8" where
  "write_medium a bs m i = (if a \<le> i \<and> i < a + length bs then bs ! (i - a) else m i)"

definition transfer :: "virtio_blk_req \<Rightarrow> nat \<Rightarrow> nat \<Rightarrow> vqueue \<Rightarrow> vqueue" where
  "transfer r b len q =
     (let a = 512 * unat (req_sector r) in
      if req_type r = 1 then q\<lparr>medium := write_medium a (take len (bdata q b)) (medium q),
        writes := writes q @ [(a, take len (bdata q b))]\<rparr>
      else q\<lparr>bdata := (bdata q)(b := map (\<lambda>i. medium q (a + i)) [0..<len])\<rparr>)"

definition complete :: "nat \<Rightarrow> vqueue \<Rightarrow> vqueue" where
  "complete i q =
     (let d0 = desc q ! i; d1 = desc q ! unat (d_next d0); d2 = desc q ! unat (d_next d1) in
      case (d_addr d0, d_addr d1, d_addr d2) of
        (DOps h, DBuf b, DStatus t) \<Rightarrow>
          let q1 = transfer (vops q ! h) b (unat (d_len d1)) q in
          q1\<lparr>vstatus := (vstatus q1)[t := 0],
             used_ring := ring_put (used_ring q1) (used_ring_idx q1) (of_nat i), used_ring_idx := used_ring_idx q1 + 1\<rparr>
      | _ \<Rightarrow> q)"

text \<open>The chains of descriptors that the specification allows. A flag says whether a descriptor has a successor (1) and whether
  the device writes to its buffer (2) or reads from it: it reads the header and the data of a write, and writes the data of a read
  and the status.\<close>

definition request_ok :: "nat \<Rightarrow> vqueue \<Rightarrow> bool" where
  "request_ok i q \<longleftrightarrow>
     (let d0 = desc q ! i; j = unat (d_next d0); d1 = desc q ! j; k = unat (d_next d1); d2 = desc q ! k in
      i < length (desc q) \<and> j < length (desc q) \<and> k < length (desc q) \<and> distinct [i, j, k] \<and>
      d_flags d0 = 1 \<and> d_len d0 = 16 \<and> d_flags d2 = 2 \<and> d_len d2 = 1 \<and>
      (case (d_addr d0, d_addr d1, d_addr d2) of
         (DOps h, DBuf b, DStatus t) \<Rightarrow> h < length (vops q) \<and> t < length (vstatus q) \<and> d_len d1 mod 512 = 0 \<and>
           (req_type (vops q ! h) = 0 \<and> d_flags d1 = 3 \<or> req_type (vops q ! h) = 1 \<and> d_flags d1 = 1)
       | _ \<Rightarrow> False))"

text \<open>The device has performed every request but the last one it was told of. It performs that one, or it reports an error
  in the status byte, in which case nothing is known of the data. What it does with other chains is not specified.\<close>

definition handed :: "vqueue \<Rightarrow> nat" where
  "handed q = unat (ring_nth (avail_ring q) (used_ring_idx q))"

definition device_ok :: "(vqueue \<Rightarrow> vqueue) \<Rightarrow> bool" where
  "device_ok dev \<longleftrightarrow> (\<forall>q. avail_idx q = used_ring_idx q + 1 \<and> request_ok (handed q) q \<longrightarrow> dev q = complete (handed q) q)"

definition device_spec :: "(vqueue \<Rightarrow> vqueue) \<Rightarrow> bool" where
  "device_spec dev \<longleftrightarrow> (\<forall>q. avail_idx q = used_ring_idx q + 1 \<and> request_ok (handed q) q \<longrightarrow> dev q = complete (handed q) q \<or>
     (\<exists>t st d m ws. d_addr (desc q ! unat (d_next (desc q ! unat (d_next (desc q ! handed q))))) = DStatus t \<and> st \<noteq> 0 \<and>
       dev q = (complete (handed q) q)\<lparr>vstatus := (vstatus q)[t := st], bdata := d, medium := m, writes := ws\<rparr>))"

section \<open>One request at a time\<close>

text \<open>The channels on which a process waits for the disk and the file system, and the states in which
  no process does.\<close>

definition fs_chan :: "chan \<Rightarrow> bool" where
  "fs_chan c \<longleftrightarrow> (case c of ChanDisk \<Rightarrow> True | ChanBuf _ \<Rightarrow> True | ChanSleeplock _ \<Rightarrow> True | ChanLog \<Rightarrow> True | _ \<Rightarrow> False)"

lemma fs_chan_simps [simp]: "fs_chan ChanDisk" "fs_chan (ChanBuf b)" "fs_chan (ChanSleeplock l)" "fs_chan ChanLog"
  by (simp_all add: fs_chan_def)

definition alone :: "'a pst_scheme \<Rightarrow> bool" where
  "alone s \<longleftrightarrow> no_proc_locks s \<and> (\<forall>i c. pstate (procs s i) = SLEEPING \<and> pchan (procs s i) = Some c \<longrightarrow> \<not> fs_chan c)"

lemma woken_none: "(\<And>i. \<not> sleeper c s i) \<Longrightarrow> woken c n s = s"
  by (simp add: woken_def woken_procs_def [abs_def])

lemma wakeup_alone: "alone s \<Longrightarrow> fs_chan c \<Longrightarrow> wakeup c s = Inr s"
  using wakeup_woken [of s c] woken_none [of c s NPROC] by (auto simp: alone_def sleeper_def)

lemma upd_vd_simps [simp]:
  "held (upd_vd f s) = held s" "procs (upd_vd f s) = procs s" "cur (upd_vd f s) = cur s" "bufs (upd_vd f s) = bufs s"
  "vd (upd_vd f s) = f (vd s)" "slocks (upd_vd f s) = slocks s" "alone (upd_vd f s) = alone s"
  "upd_vd g (upd_vd f s) = upd_vd (\<lambda>d. g (f d)) s" "upd_vd f (s\<lparr>held := h\<rparr>) = (upd_vd f s)\<lparr>held := h\<rparr>"
  by (simp_all add: upd_vd_def alone_def no_proc_locks_def)

lemma updb_simps [simp]:
  "held (updb b f s) = held s" "procs (updb b f s) = procs s" "cur (updb b f s) = cur s"
  "bufs (updb b f s) = (bufs s)(b := f (bufs s b))" "vd (updb b f s) = vd s" "slocks (updb b f s) = slocks s"
  "alone (updb b f s) = alone s" "updb b f (s\<lparr>held := h\<rparr>) = (updb b f s)\<lparr>held := h\<rparr>"
  "updb b f (upd_vd k s) = upd_vd k (updb b f s)" "updb b g (updb b f s) = updb b (\<lambda>r. g (f r)) s"
  by (simp_all add: updb_def upd_vd_def alone_def no_proc_locks_def)

definition driver_ready :: "disk \<Rightarrow> bool" where
  "driver_ready d \<longleftrightarrow> vfree d = replicate NUM True \<and> length (desc (vq d)) = NUM \<and> length (avail_ring (vq d)) = NUM \<and>
     length (used_ring (vq d)) = NUM \<and> length (vstatus (vq d)) = NUM \<and> length (vops (vq d)) = NUM \<and>
     length (vinfo_b d) = NUM \<and> avail_idx (vq d) = vused_idx d \<and> used_ring_idx (vq d) = vused_idx d"

definition driver_idle :: "disk \<Rightarrow> bool" where
  "driver_idle d \<longleftrightarrow> driver_ready d \<and> device_ok (device d)"

lemma scan_here: "P lo \<Longrightarrow> lo < hi \<Longrightarrow> scan P lo hi = Some lo"
  by (simp add: scan.simps [of P lo])

lemma alloc3_ok:
  assumes "vfree (vd s) = replicate NUM True"
  shows "alloc3_desc s = Inr (Some (0, 1, 2), upd_vd (\<lambda>d. d\<lparr>vfree := [False, False, False, True, True, True, True, True]\<rparr>) s)"
proof -
  have f: "vfree (vd s) = [True, True, True, True, True, True, True, True]" using assms by (simp add: NUM_def numeral_eq_Suc)
  show ?thesis
    unfolding alloc3_desc_def
    by (simp add: f alloc_desc_def NUM_def scan_here scan_step numeral_2_eq_2) (simp add: upd_vd_def f)
qed

text \<open>The queue once the request has been submitted, and once the device has completed it.\<close>

definition requested :: "nat \<Rightarrow> u32 \<Rightarrow> bool \<Rightarrow> vqueue \<Rightarrow> vqueue" where
  "requested b n w q = submit 0 (format_request 0 1 2 b n w q)"

definition completed :: "nat \<Rightarrow> u32 \<Rightarrow> bool \<Rightarrow> vqueue \<Rightarrow> vqueue" where
  "completed b n w q = complete 0 (requested b n w q)"

lemma requested_simps:
  "desc (requested b n w q) = (desc q)
     [0 := \<lparr>d_addr = DOps 0, d_len = 16, d_flags = 1, d_next = 1\<rparr>,
      1 := \<lparr>d_addr = DBuf b, d_len = of_nat BSIZE, d_flags = (if w then 0 else 2) OR 1, d_next = 2\<rparr>,
      2 := \<lparr>d_addr = DStatus 0, d_len = 1, d_flags = 2, d_next = 0\<rparr>]"
  "vops (requested b n w q) = (vops q)[0 := \<lparr>req_type = (if w then 1 else 0), req_reserved = 0, req_sector = ucast (n * 2)\<rparr>]"
  "avail_ring (requested b n w q) = ring_put (avail_ring q) (avail_idx q) 0" "avail_idx (requested b n w q) = avail_idx q + 1"
  "used_ring (requested b n w q) = used_ring q" "used_ring_idx (requested b n w q) = used_ring_idx q"
  "vstatus (requested b n w q) = (vstatus q)[0 := 0xff]" "bdata (requested b n w q) = bdata q" "medium (requested b n w q) = medium q"
  "writes (requested b n w q) = writes q"
  by (simp_all add: requested_def submit_def format_request_def)

lemma unat_sector: "unat n < 2 ^ 31 \<Longrightarrow> 512 * unat (ucast ((n :: u32) * 2) :: u64) = BSIZE * unat n"
  by (simp add: BSIZE_def unsigned_ucast_eq unat_word_ariths take_bit_nat_eq_self)

lemma completed_simps:
  assumes "length (desc q) = NUM" "length (vops q) = NUM"
  shows "desc (completed b n w q) = desc (requested b n w q)" "length (vops (completed b n w q)) = NUM"
    "avail_ring (completed b n w q) = ring_put (avail_ring q) (avail_idx q) 0" "avail_idx (completed b n w q) = avail_idx q + 1"
    "used_ring (completed b n w q) = ring_put (used_ring q) (used_ring_idx q) 0"
    "used_ring_idx (completed b n w q) = used_ring_idx q + 1" "vstatus (completed b n w q) = (vstatus q)[0 := 0]"
    "unat n < 2 ^ 31 \<Longrightarrow> medium (completed b n w q) = (if w then write_medium (BSIZE * unat n) (take BSIZE (bdata q b)) (medium q) else medium q)"
    "unat n < 2 ^ 31 \<Longrightarrow> bdata (completed b n w q) = (if w then bdata q
       else (bdata q)(b := map (\<lambda>i. medium q (BSIZE * unat n + i)) [0..<BSIZE]))"
    "unat n < 2 ^ 31 \<Longrightarrow> writes (completed b n w q) = (if w then writes q @ [(BSIZE * unat n, take BSIZE (bdata q b))] else writes q)"
  using assms unat_sector [of n]
  by (simp_all add: completed_def complete_def transfer_def requested_simps NUM_def nth_list_update Let_def)
    (simp_all add: BSIZE_def)


text \<open>The state of the driver while the request is under way.\<close>

definition started :: "nat \<Rightarrow> u32 \<Rightarrow> bool \<Rightarrow> disk \<Rightarrow> disk" where
  "started b n w d = d\<lparr>vfree := [False, False, False, True, True, True, True, True], vq := requested b n w (vq d),
     vinfo_b := (vinfo_b d)[0 := Some b], mmio_log := mmio_log d @ [(0x050, 0)]\<rparr>"

text \<open>The driver submits chains that the specification allows.\<close>

lemma requested_ok:
  assumes "length (desc q) = NUM" "length (vops q) = NUM" "length (vstatus q) = NUM"
  shows "request_ok 0 (requested b n w q)"
  using assms by (simp add: request_ok_def requested_simps NUM_def nth_list_update Let_def BSIZE_def)

lemma virtio_disk_start_ok:
  assumes "driver_ready (vd s)" "VdiskLock \<notin> held s"
  shows "virtio_disk_start b w s = Inr (0, (upd_vd (started b (b_blockno (bufs s b)) w)
    (updb b (\<lambda>r. r\<lparr>b_disk := True\<rparr>) s))\<lparr>held := insert VdiskLock (held s)\<rparr>)"
proof -
  let ?s1 = "s\<lparr>held := insert VdiskLock (held s)\<rparr>"
  have "alloc3_desc ?s1 = Inr (Some (0, 1, 2), upd_vd (\<lambda>d. d\<lparr>vfree := [False, False, False, True, True, True, True, True]\<rparr>) ?s1)"
    using assms(1) by (intro alloc3_ok) (simp add: driver_ready_def)
  then show ?thesis
    using assms(2)
    by (simp add: virtio_disk_start_def acquire_lk_def Let_def updq_def writeR_def)
      (simp add: upd_vd_def updb_def started_def requested_def)
qed

lemma virtio_disk_intr_ok:
  assumes "held s = {}" "alone s" "vinfo_b (vd s) ! 0 = Some b" "vstatus (vq (vd s)) ! 0 = 0"
    "used_ring_idx (vq (vd s)) = vused_idx (vd s) + 1" "ring_nth (used_ring (vq (vd s))) (vused_idx (vd s)) = 0"
  shows "\<exists>l. virtio_disk_intr s = Inr (updb b (\<lambda>r. r\<lparr>b_disk := False\<rparr>)
    (upd_vd (\<lambda>d. d\<lparr>mmio_log := l, vused_idx := vused_idx d + 1\<rparr>) s))"
proof -
  let ?l = "mmio_log (vd s) @ [(0x064, mmio (vd s) 0x060 AND 3)]"
  let ?s1 = "(upd_vd (\<lambda>d. d\<lparr>mmio_log := mmio_log d @ [(0x064, mmio (vd s) 0x060 AND 3)]\<rparr>) s)\<lparr>held := {VdiskLock}\<rparr>"
  let ?s2 = "updb b (\<lambda>r. r\<lparr>b_disk := False\<rparr>) ?s1"
  have "alone ?s2" using assms(2) by (simp add: alone_def no_proc_locks_def)
  then have "wakeup (ChanBuf b) ?s2 = Inr ?s2" by (intro wakeup_alone) simp_all
  then have "virtio_disk_intr_step ?s1 = Inr (upd_vd (\<lambda>d. d\<lparr>vused_idx := vused_idx d + 1\<rparr>) ?s2)"
    using assms(3,4,6) by (simp add: virtio_disk_intr_step_def NUM_def Let_def)
  moreover have "virtio_disk_intr s = bindr (virtio_disk_intr_loop 1 ?s1) (release_lk VdiskLock)"
    using assms(1,5) by (simp add: virtio_disk_intr_def acquire_lk_def writeR_def Let_def)
  ultimately show ?thesis
    using assms(1,5) by (intro exI [of _ ?l]) (simp add: release_lk_def, simp add: upd_vd_def updb_def)
qed

lemma free_desc_ok:
  assumes "i < NUM" "\<not> vfree (vd s) ! i" "alone s"
  shows "free_desc i s = Inr (upd_vd (\<lambda>d. d\<lparr>vq := (vq d)\<lparr>desc := (desc (vq d))[i := null_desc]\<rparr>, vfree := (vfree d)[i := True]\<rparr>) s)"
  using assms by (simp add: free_desc_def updq_def wakeup_alone)

lemma free_chain_ok:
  assumes "alone s" "vfree (vd s) = [False, False, False, True, True, True, True, True]" "length (desc q) = NUM"
    "desc (vq (vd s)) = desc (requested b n w q)"
  shows "\<exists>ds. length ds = NUM \<and> free_chain 0 s = Inr (upd_vd (\<lambda>d. d\<lparr>vq := (vq d)\<lparr>desc := ds\<rparr>, vfree := replicate NUM True\<rparr>) s)"
proof -
  have d: "d_flags (desc (vq (vd s)) ! 0) AND 1 \<noteq> 0" "d_next (desc (vq (vd s)) ! 0) = 1"
    "d_flags (desc (vq (vd s)) ! Suc 0) AND 1 \<noteq> 0" "d_next (desc (vq (vd s)) ! Suc 0) = 2"
    "d_flags (desc (vq (vd s)) ! 2) AND 1 = 0" "length (desc (vq (vd s))) = NUM"
    using assms(3,4) by (simp_all add: requested_simps NUM_def nth_list_update)
  obtain k where nine: "NUM + 1 = Suc (Suc (Suc k))" by (auto simp: NUM_def numeral_eq_Suc)
  let ?ds = "(desc (vq (vd s)))[0 := null_desc, 1 := null_desc, 2 := null_desc]"
  have "free_chain 0 s = Inr (upd_vd (\<lambda>d. d\<lparr>vq := (vq d)\<lparr>desc := (desc (vq d))[0 := null_desc, 1 := null_desc, 2 := null_desc]\<rparr>,
      vfree := (vfree d)[0 := True, 1 := True, 2 := True]\<rparr>) s)"
    using assms(1,2) d unfolding free_chain_def nine
    by (simp add: free_desc_ok Let_def NUM_def)
  then have "free_chain 0 s = Inr (upd_vd (\<lambda>d. d\<lparr>vq := (vq d)\<lparr>desc := ?ds\<rparr>, vfree := replicate NUM True\<rparr>) s)"
    using assms(2) by (simp add: upd_vd_def NUM_def numeral_eq_Suc)
  then show ?thesis using d(6) by (intro exI [of _ ?ds]) simp
qed


lemma held_empty: "held s = {} \<Longrightarrow> s\<lparr>held := {}\<rparr> = (s :: 'a kst_scheme)"
  by simp

lemma ring_put_nth: "buf \<noteq> [] \<Longrightarrow> ring_nth (ring_put buf w x) w = x"
  by (simp add: ring_nth_def ring_put_def)

text \<open>A whole request: it takes three descriptors, the device transfers the block, and the driver is
  idle again.\<close>

lemma virtio_disk_rw_done:
  fixes s :: "'a vst_scheme"
  assumes idle: "driver_ready (vd s)" and h: "held s = {}" and al: "alone s"
    and n: "unat (b_blockno (bufs s b)) < 2 ^ 31" and len: "length (bdata (vq (vd s)) b) = BSIZE"
    and dev: "device (vd s) (requested b (b_blockno (bufs s b)) w (vq (vd s))) = completed b (b_blockno (bufs s b)) w (vq (vd s))"
  shows "\<exists>d. virtio_disk_rw b w s = Inr ((updb b (\<lambda>r. r\<lparr>b_disk := False\<rparr>) s)\<lparr>vd := d\<rparr>) \<and>
    driver_ready d \<and> device d = device (vd s) \<and>
    medium (vq d) = (if w then write_medium (BSIZE * unat (b_blockno (bufs s b))) (bdata (vq (vd s)) b) (medium (vq (vd s)))
      else medium (vq (vd s))) \<and>
    bdata (vq d) = (if w then bdata (vq (vd s))
      else (bdata (vq (vd s)))(b := map (\<lambda>i. medium (vq (vd s)) (BSIZE * unat (b_blockno (bufs s b)) + i)) [0..<BSIZE])) \<and>
    writes (vq d) = (if w then writes (vq (vd s)) @ [(BSIZE * unat (b_blockno (bufs s b)), bdata (vq (vd s)) b)] else writes (vq (vd s)))"
proof -
  define n where "n = b_blockno (bufs s b)"
  define q where "q = vq (vd s)"
  have i: "vfree (vd s) = replicate NUM True" "length (desc q) = NUM" "length (avail_ring q) = NUM" "length (used_ring q) = NUM"
    "length (vstatus q) = NUM" "length (vops q) = NUM" "length (vinfo_b (vd s)) = NUM" "avail_idx q = vused_idx (vd s)"
    "used_ring_idx q = vused_idx (vd s)"
    using idle by (simp_all add: driver_ready_def q_def)
  have ne: "avail_ring q \<noteq> []" "used_ring q \<noteq> []" using i(3,4) by (auto simp: NUM_def)
  note c = completed_simps [OF i(2,6)]
  let ?s1 = "upd_vd (started b n w) (updb b (\<lambda>r. r\<lparr>b_disk := True\<rparr>) s)"
  have st: "virtio_disk_start b w s = Inr (0, ?s1\<lparr>held := {VdiskLock}\<rparr>)"
    using virtio_disk_start_ok [OF idle] h by (simp add: n_def)
  let ?s2 = "upd_vd (\<lambda>d. d\<lparr>vq := device d (vq d)\<rparr>) ?s1"
  have v2: "vq (vd ?s2) = completed b n w q" "vinfo_b (vd ?s2) = (vinfo_b (vd s))[0 := Some b]" "vused_idx (vd ?s2) = vused_idx (vd s)"
    using dev by (simp_all add: started_def q_def n_def)
  have h2: "held ?s2 = {}" "alone ?s2" using h al by simp_all
  obtain l where intr: "virtio_disk_intr ?s2 = Inr (updb b (\<lambda>r. r\<lparr>b_disk := False\<rparr>)
      (upd_vd (\<lambda>d. d\<lparr>mmio_log := l, vused_idx := vused_idx d + 1\<rparr>) ?s2))"
    using virtio_disk_intr_ok [OF h2, of b] unfolding v2 c i(9)
    using i(5,7) ne by (auto simp: ring_put_nth NUM_def)
  let ?s3 = "updb b (\<lambda>r. r\<lparr>b_disk := False\<rparr>) (upd_vd (\<lambda>d. d\<lparr>mmio_log := l, vused_idx := vused_idx d + 1\<rparr>) ?s2)"
  have intr': "virtio_disk_intr (?s2\<lparr>held := {}\<rparr>) = Inr ?s3" unfolding held_empty [OF h2(1)] by (rule intr)
  have sl: "sleep_on_disk (?s1\<lparr>held := {VdiskLock}\<rparr>) = Inr (?s3\<lparr>held := {VdiskLock}\<rparr>)"
    using intr' h by (simp add: sleep_on_disk_def release_lk_def acquire_lk_def)
  let ?s4 = "(upd_vd (\<lambda>d. d\<lparr>vinfo_b := (vinfo_b d)[0 := None]\<rparr>) ?s3)\<lparr>held := {VdiskLock}\<rparr>"
  have s4: "alone ?s4" using al by (simp add: alone_def no_proc_locks_def)
  have v4: "vfree (vd ?s4) = [False, False, False, True, True, True, True, True]" "desc (vq (vd ?s4)) = desc (requested b n w q)"
    using v2(1) c(1) by (simp_all add: started_def)
  obtain ds where ds: "length ds = NUM" "free_chain 0 ?s4 = Inr (upd_vd (\<lambda>d. d\<lparr>vq := (vq d)\<lparr>desc := ds\<rparr>, vfree := replicate NUM True\<rparr>) ?s4)"
    using free_chain_ok [OF s4 v4(1) i(2) v4(2)] by blast
  define d where "d = vd (upd_vd (\<lambda>d. d\<lparr>vq := (vq d)\<lparr>desc := ds\<rparr>, vfree := replicate NUM True\<rparr>) ?s4)"
  have "virtio_disk_rw b w s = Inr ((updb b (\<lambda>r. r\<lparr>b_disk := False\<rparr>) s)\<lparr>vd := d\<rparr>)"
    using st sl ds(2) h by (simp add: virtio_disk_rw_def virtio_disk_finish_def release_lk_def d_def) (simp add: upd_vd_def updb_def)
  moreover have "vq d = (completed b n w q)\<lparr>desc := ds\<rparr>" "device d = device (vd s)" "vused_idx d = vused_idx (vd s) + 1"
    "vfree d = replicate NUM True" "length (vinfo_b d) = NUM"
    using v2 i(7) by (simp_all add: d_def started_def)
  moreover have "driver_ready d" using calculation(2-6) i c ds(1) by (simp add: driver_ready_def)
  ultimately show ?thesis using c(8-10) [of n b w] assms(4,5) by (intro exI [of _ d]) (simp add: n_def q_def)
qed

text \<open>The queue that the device is handed.\<close>

lemma handed_requested:
  assumes "driver_ready d"
  shows "avail_idx (requested b n w (vq d)) = used_ring_idx (requested b n w (vq d)) + 1" "handed (requested b n w (vq d)) = 0"
    "request_ok 0 (requested b n w (vq d))"
proof -
  have "avail_ring (vq d) \<noteq> []" using assms by (auto simp: driver_ready_def NUM_def)
  then show "avail_idx (requested b n w (vq d)) = used_ring_idx (requested b n w (vq d)) + 1" "handed (requested b n w (vq d)) = 0"
    "request_ok 0 (requested b n w (vq d))"
    using assms requested_ok [of "vq d"] by (simp_all add: driver_ready_def requested_simps handed_def ring_put_nth)
qed

text \<open>A request that the device reports as failed.\<close>

lemma virtio_disk_rw_error:
  fixes s :: "'a vst_scheme"
  assumes idle: "driver_ready (vd s)" and h: "held s = {}" and al: "alone s"
    and dev: "device (vd s) (requested b (b_blockno (bufs s b)) w (vq (vd s))) = q" "used_ring_idx q = used_ring_idx (vq (vd s)) + 1"
      "used_ring q = ring_put (used_ring (vq (vd s))) (used_ring_idx (vq (vd s))) 0" "vstatus q ! 0 \<noteq> 0"
  shows "virtio_disk_rw b w s = Inl (Panic ''virtio_disk_intr status'')"
proof -
  let ?n = "b_blockno (bufs s b)"
  let ?s1 = "upd_vd (started b ?n w) (updb b (\<lambda>r. r\<lparr>b_disk := True\<rparr>) s)" let ?s2 = "upd_vd (\<lambda>d. d\<lparr>vq := device d (vq d)\<rparr>) ?s1"
  have st: "virtio_disk_start b w s = Inr (0, ?s1\<lparr>held := {VdiskLock}\<rparr>)" using virtio_disk_start_ok [OF idle] h by simp
  have ne: "used_ring (vq (vd s)) \<noteq> []" and u: "used_ring_idx (vq (vd s)) = vused_idx (vd s)" using idle by (auto simp: driver_ready_def NUM_def)
  have v: "vq (vd ?s2) = q" "vused_idx (vd ?s2) = vused_idx (vd s)" using dev(1) by (simp_all add: started_def)
  let ?s3 = "(upd_vd (\<lambda>d. d\<lparr>mmio_log := mmio_log d @ [(0x064, mmio (vd ?s2) 0x060 AND 3)]\<rparr>) ?s2)\<lparr>held := {VdiskLock}\<rparr>"
  have "virtio_disk_intr_step ?s3 = Inl (Panic ''virtio_disk_intr status'')"
    using v dev(2-4) ne u by (simp add: virtio_disk_intr_step_def NUM_def Let_def ring_put_nth)
  moreover have "virtio_disk_intr (?s2\<lparr>held := {}\<rparr>) = bindr (virtio_disk_intr_loop 1 ?s3) (release_lk VdiskLock)"
    using v dev(2) u by (simp add: virtio_disk_intr_def acquire_lk_def writeR_def Let_def)
  ultimately have "virtio_disk_intr (?s2\<lparr>held := {}\<rparr>) = Inl (Panic ''virtio_disk_intr status'')" using v dev(2) u by simp
  then have "sleep_on_disk (?s1\<lparr>held := {VdiskLock}\<rparr>) = Inl (Panic ''virtio_disk_intr status'')" by (simp add: sleep_on_disk_def release_lk_def)
  then show ?thesis using st by (simp add: virtio_disk_rw_def)
qed

text \<open>The blocks of the medium.\<close>

definition dblock :: "disk \<Rightarrow> nat \<Rightarrow> u8 list" where
  "dblock d n = map (\<lambda>i. medium (vq d) (BSIZE * n + i)) [0..<BSIZE]"

lemma length_dblock [simp]: "length (dblock d n) = BSIZE"
  by (simp add: dblock_def)

lemma block_overlap:
  assumes "i < BSIZE" "length bs = BSIZE"
  shows "write_medium (BSIZE * n) bs m (BSIZE * k + i) = (if k = n then bs ! i else m (BSIZE * k + i))"
proof -
  have "BSIZE * n \<le> BSIZE * k + i \<and> BSIZE * k + i < BSIZE * n + BSIZE \<longleftrightarrow> k = n"
  proof (cases k n rule: linorder_cases)
    case less
    then have "BSIZE * Suc k \<le> BSIZE * n" by (intro mult_le_mono2) simp
    with less assms(1) show ?thesis by simp
  next
    case greater
    then have "BSIZE * Suc n \<le> BSIZE * k" by (intro mult_le_mono2) simp
    with greater show ?thesis by simp
  qed (use assms in simp)
  then show ?thesis using assms(2) by (auto simp: write_medium_def)
qed

lemma dblock_write:
  assumes "medium (vq d') = write_medium (BSIZE * n) bs (medium (vq d))" "length bs = BSIZE"
  shows "dblock d' = (dblock d)(n := bs)"
proof
  fix k
  show "dblock d' k = ((dblock d)(n := bs)) k"
    using assms by (intro nth_equalityI) (simp_all add: dblock_def block_overlap)
qed

text \<open>A request that the device performs.\<close>

lemma virtio_disk_rw_performed:
  fixes s :: "'a vst_scheme"
  assumes "driver_ready (vd s)" "held s = {}" "alone s" "unat (b_blockno (bufs s b)) < 2 ^ 31" "length (bdata (vq (vd s)) b) = BSIZE"
    "device (vd s) (requested b (b_blockno (bufs s b)) w (vq (vd s))) = complete 0 (requested b (b_blockno (bufs s b)) w (vq (vd s)))"
  defines "n \<equiv> unat (b_blockno (bufs s b))"
  shows "\<exists>d. virtio_disk_rw b w s = Inr ((updb b (\<lambda>r. r\<lparr>b_disk := False\<rparr>) s)\<lparr>vd := d\<rparr>) \<and>
    driver_ready d \<and> device d = device (vd s) \<and>
    dblock d = (if w then (dblock (vd s))(n := bdata (vq (vd s)) b) else dblock (vd s)) \<and>
    bdata (vq d) = (if w then bdata (vq (vd s)) else (bdata (vq (vd s)))(b := dblock (vd s) n)) \<and>
    writes (vq d) = (if w then writes (vq (vd s)) @ [(BSIZE * n, bdata (vq (vd s)) b)] else writes (vq (vd s)))"
proof -
  obtain d where d: "virtio_disk_rw b w s = Inr ((updb b (\<lambda>r. r\<lparr>b_disk := False\<rparr>) s)\<lparr>vd := d\<rparr>)" "driver_ready d"
    "device d = device (vd s)"
    "medium (vq d) = (if w then write_medium (BSIZE * n) (bdata (vq (vd s)) b) (medium (vq (vd s))) else medium (vq (vd s)))"
    "bdata (vq d) = (if w then bdata (vq (vd s)) else (bdata (vq (vd s)))(b := map (\<lambda>i. medium (vq (vd s)) (BSIZE * n + i)) [0..<BSIZE]))"
    "writes (vq d) = (if w then writes (vq (vd s)) @ [(BSIZE * n, bdata (vq (vd s)) b)] else writes (vq (vd s)))"
    using virtio_disk_rw_done [OF assms(1-5)] assms(6) unfolding n_def completed_def by blast
  have "dblock d = (if w then (dblock (vd s))(n := bdata (vq (vd s)) b) else dblock (vd s))"
    using d(4) assms(5) dblock_write [of d n "bdata (vq (vd s)) b" "vd s"] by (auto simp: dblock_def [abs_def])
  with d(1-3,5,6) show ?thesis by (intro exI [of _ d]) (simp add: dblock_def)
qed

text \<open>With a device that reports no errors every request is performed.\<close>

lemma virtio_disk_rw_block:
  fixes s :: "'a vst_scheme"
  assumes "driver_idle (vd s)" "held s = {}" "alone s" "unat (b_blockno (bufs s b)) < 2 ^ 31" "length (bdata (vq (vd s)) b) = BSIZE"
  defines "n \<equiv> unat (b_blockno (bufs s b))"
  shows "\<exists>d. virtio_disk_rw b w s = Inr ((updb b (\<lambda>r. r\<lparr>b_disk := False\<rparr>) s)\<lparr>vd := d\<rparr>) \<and>
    driver_idle d \<and> device d = device (vd s) \<and>
    dblock d = (if w then (dblock (vd s))(n := bdata (vq (vd s)) b) else dblock (vd s)) \<and>
    bdata (vq d) = (if w then bdata (vq (vd s)) else (bdata (vq (vd s)))(b := dblock (vd s) n)) \<and>
    writes (vq d) = (if w then writes (vq (vd s)) @ [(BSIZE * n, bdata (vq (vd s)) b)] else writes (vq (vd s)))"
proof -
  have r: "driver_ready (vd s)" "device_ok (device (vd s))" using assms(1) by (simp_all add: driver_idle_def)
  have "device (vd s) (requested b (b_blockno (bufs s b)) w (vq (vd s))) = complete 0 (requested b (b_blockno (bufs s b)) w (vq (vd s)))"
    using r(2) handed_requested [OF r(1), of b "b_blockno (bufs s b)" w] by (simp add: device_ok_def)
  from virtio_disk_rw_performed [OF r(1) assms(2-5) this] r(2) show ?thesis unfolding n_def driver_idle_def by (elim exE conjE) (intro exI conjI; simp)
qed

text \<open>C33. With a device that does what the virtio specification says of a block device, which performs the chains that are set up as
  the specification requires (each buffer with the right direction) or reports an error, and an idle driver, a request transfers
  exactly the block of the buffer between the buffer and the disk and leaves the driver idle, its three descriptors free again;
  or the device has reported an error and the kernel panics. A device that reports no errors gives the first.\<close>

theorem virtio_transfer:
  fixes s :: "'a vst_scheme"
  assumes "driver_ready (vd s)" "device_spec (device (vd s))" "held s = {}" "alone s" "unat (b_blockno (bufs s b)) < 2 ^ 31"
    "length (bdata (vq (vd s)) b) = BSIZE"
  shows "(\<exists>s'. virtio_disk_rw b w s = Inr s' \<and> driver_ready (vd s') \<and> held s' = {} \<and>
      \<not> b_disk (bufs s' b) \<and> b_blockno (bufs s' b) = b_blockno (bufs s b) \<and>
      (if w then dblock (vd s') = (dblock (vd s))(unat (b_blockno (bufs s b)) := bdata (vq (vd s)) b) \<and> bdata (vq (vd s')) = bdata (vq (vd s))
       else dblock (vd s') = dblock (vd s) \<and> bdata (vq (vd s')) = (bdata (vq (vd s)))(b := dblock (vd s) (unat (b_blockno (bufs s b)))))) \<or>
    virtio_disk_rw b w s = Inl (Panic ''virtio_disk_intr status'') \<and> \<not> device_ok (device (vd s))"
proof -
  let ?q = "requested b (b_blockno (bufs s b)) w (vq (vd s))" let ?dev = "device (vd s)"
  note hq = handed_requested [OF assms(1), of b "b_blockno (bufs s b)" w]
  have l: "length (desc (vq (vd s))) = NUM" "length (vops (vq (vd s))) = NUM" "length (vstatus (vq (vd s))) = NUM"
    using assms(1) by (simp_all add: driver_ready_def)
  have st: "d_addr (desc ?q ! unat (d_next (desc ?q ! unat (d_next (desc ?q ! 0))))) = DStatus 0"
    using l(1) by (simp add: requested_simps NUM_def nth_list_update)
  from assms(2) [unfolded device_spec_def, rule_format, of ?q, OF conjI [OF hq(1)]] hq(2,3)
  have "?dev ?q = complete 0 ?q \<or> (\<exists>c d m ws. c \<noteq> 0 \<and>
      ?dev ?q = (complete 0 ?q)\<lparr>vstatus := (vstatus ?q)[0 := c], bdata := d, medium := m, writes := ws\<rparr>)"
    by (simp only: st daddr.inject) blast
  then consider "?dev ?q = complete 0 ?q"
    | c d m ws where "?dev ?q \<noteq> complete 0 ?q" "c \<noteq> 0"
      "?dev ?q = (complete 0 ?q)\<lparr>vstatus := (vstatus ?q)[0 := c], bdata := d, medium := m, writes := ws\<rparr>" by blast
  then show ?thesis
  proof cases
    case 1
    from virtio_disk_rw_performed [OF assms(1,3-6) 1] show ?thesis using assms(3) by (auto simp: updb_def)
  next
    case 2
    have "\<not> device_ok ?dev" using 2(1) hq by (auto simp: device_ok_def)
    moreover have "virtio_disk_rw b w s = Inl (Panic ''virtio_disk_intr status'')"
      using completed_simps(5,6) [OF l(1,2), of b "b_blockno (bufs s b)" w] l(3) 2(2)
      by (intro virtio_disk_rw_error [OF assms(1,3,4) 2(3)]) (simp_all add: completed_def requested_simps NUM_def)
    ultimately show ?thesis by blast
  qed
qed

definition demo_device :: "vqueue \<Rightarrow> vqueue" where
  "demo_device q = complete (unat (ring_nth (avail_ring q) (used_ring_idx q))) q"

definition demo_disk :: disk where
  "demo_disk = \<lparr>vq = \<lparr>desc = replicate NUM null_desc, avail_ring = replicate NUM 0, avail_idx = 0, used_ring = replicate NUM 0,
     used_ring_idx = 0, vstatus = replicate NUM 0, vops = replicate NUM \<lparr>req_type = 0, req_reserved = 0, req_sector = 0\<rparr>,
     bdata = (\<lambda>_. replicate BSIZE 0), medium = (\<lambda>_. 7), writes = []\<rparr>,
     vfree = replicate NUM True, vused_idx = 0, vinfo_b = replicate NUM None, device = demo_device, mmio = (\<lambda>_. 0), mmio_log = []\<rparr>"

definition demo_vst :: vst where
  "demo_vst = sst.extend demo_sst (vst.fields (\<lambda>i. \<lparr>b_valid = False, b_disk = False, b_dev = 1, b_blockno = 7, b_refcnt = 0,
     b_prev = 0, b_next = 0\<rparr>) demo_disk)"

lemma demo_driver_idle: "driver_idle demo_disk"
  by (simp add: driver_idle_def driver_ready_def demo_disk_def device_ok_def demo_device_def handed_def)

lemma demo_vst_simps: "held demo_vst = {}" "vd demo_vst = demo_disk" "alone demo_vst" "b_blockno (bufs demo_vst b) = 7"
  by (simp_all add: demo_vst_def demo_sst_def demo_cst_def demo_ust_def demo_pst_def pst.defs ust.defs cst.defs sst.defs vst.defs
      alone_def no_proc_locks_def demo_proc_def)

theorem virtio_transfer_witness:
  "\<exists>s'. virtio_disk_rw 0 False demo_vst = Inr s' \<and> bdata (vq (vd s')) 0 = replicate BSIZE 7"
proof -
  have d: "device_spec (device demo_disk)" using demo_driver_idle by (simp add: driver_idle_def device_ok_def device_spec_def)
  have b: "length (bdata (vq demo_disk) 0) = BSIZE" by (simp add: demo_disk_def)
  have "\<exists>s'. virtio_disk_rw 0 False demo_vst = Inr s' \<and> bdata (vq (vd s')) 0 = dblock demo_disk 7"
    using virtio_transfer [of demo_vst 0 False] demo_driver_idle demo_vst_simps d by (auto simp: driver_idle_def b)
  moreover have "dblock demo_disk 7 = replicate BSIZE 7"
    by (intro nth_equalityI) (simp_all add: dblock_def demo_disk_def BSIZE_def)
  ultimately show ?thesis by simp
qed

end
