(* ===== verification/Bio.thy ===== *)
theory Bio
  imports Virtio
begin

text \<open>
  The buffer cache (\<open>kernel/bio.c\<close>). A pointer to a buffer is its index; \<open>bhead\<close> is \<open>bcache.head\<close>. The
  contents of a buffer are in the memory that the disk device reads and writes (theory
  \<open>Virtio\<close>). The list that the links form is related to an Isabelle list, most recently used
  buffer first.
\<close>

definition NBUF :: nat where "NBUF = 30"

definition bhead :: nat where "bhead = NBUF"

definition bufdata :: "'a vst_scheme \<Rightarrow> nat \<Rightarrow> u8 list" where
  "bufdata s b = bdata (vq (vd s)) b"

definition set_bufdata :: "nat \<Rightarrow> u8 list \<Rightarrow> 'a vst_scheme \<Rightarrow> 'a vst_scheme" where
  "set_bufdata b d s = updq (\<lambda>q. q\<lparr>bdata := (bdata q)(b := d)\<rparr>) s"

text \<open>Linking \<open>b\<close> in after the head.\<close>

definition link_front :: "nat \<Rightarrow> 'a vst_scheme \<Rightarrow> 'a vst_scheme" where
  "link_front b s =
     (let s1 = updb b (\<lambda>r. r\<lparr>b_next := b_next (bufs s bhead)\<rparr>) s;
          s2 = updb b (\<lambda>r. r\<lparr>b_prev := bhead\<rparr>) s1;
          s3 = updb (b_next (bufs s2 bhead)) (\<lambda>r. r\<lparr>b_prev := b\<rparr>) s2
      in updb bhead (\<lambda>r. r\<lparr>b_next := b\<rparr>) s3)"

definition unlink :: "nat \<Rightarrow> 'a vst_scheme \<Rightarrow> 'a vst_scheme" where
  "unlink b s =
     (let s1 = updb (b_next (bufs s b)) (\<lambda>r. r\<lparr>b_prev := b_prev (bufs s b)\<rparr>) s
      in updb (b_prev (bufs s1 b)) (\<lambda>r. r\<lparr>b_next := b_next (bufs s1 b)\<rparr>) s1)"

primrec binit_loop :: "nat \<Rightarrow> nat \<Rightarrow> 'a vst_scheme \<Rightarrow> 'a vst_scheme" where
  "binit_loop 0 b s = s"
| "binit_loop (Suc k) b s = binit_loop k (b + 1) (initsleeplock (BufLock b) (link_front b s))"

definition binit :: "'a vst_scheme \<Rightarrow> 'a vst_scheme" where
  "binit s = binit_loop NBUF 0 (updb bhead (\<lambda>r. r\<lparr>b_prev := bhead, b_next := bhead\<rparr>) s)"

text \<open>The two loops over the list; a list that does not come back to the head makes them run for
  ever.\<close>

primrec bfind :: "nat \<Rightarrow> (buf \<Rightarrow> nat) \<Rightarrow> (buf \<Rightarrow> bool) \<Rightarrow> nat \<Rightarrow> 'a vst_scheme \<Rightarrow> kerr + nat option" where
  "bfind 0 dir P b s = Inl Diverge"
| "bfind (Suc k) dir P b s =
     (if b = bhead then Inr None else if P (bufs s b) then Inr (Some b) else bfind k dir P (dir (bufs s b)) s)"

definition bget :: "u32 \<Rightarrow> u32 \<Rightarrow> 'a vst_scheme \<Rightarrow> kerr + (nat \<times> 'a vst_scheme)" where
  "bget dev blockno s =
     bindr (acquire_lk BcacheLock s) (\<lambda>s1.
     bindr (bfind (NBUF + 1) b_next (\<lambda>r. b_dev r = dev \<and> b_blockno r = blockno) (b_next (bufs s1 bhead)) s1) (\<lambda>hit.
     case hit of
       Some b \<Rightarrow>
         bindr (release_lk BcacheLock (updb b (\<lambda>r. r\<lparr>b_refcnt := b_refcnt r + 1\<rparr>) s1)) (\<lambda>s2.
         bindr (acquiresleep (BufLock b) s2) (\<lambda>s3. Inr (b, s3)))
     | None \<Rightarrow>
         bindr (bfind (NBUF + 1) b_prev (\<lambda>r. b_refcnt r = 0) (b_prev (bufs s1 bhead)) s1) (\<lambda>victim.
         case victim of None \<Rightarrow> Inl (Panic ''bget: no buffers'')
         | Some b \<Rightarrow>
             bindr (release_lk BcacheLock
               (updb b (\<lambda>r. r\<lparr>b_dev := dev, b_blockno := blockno, b_valid := False, b_refcnt := 1\<rparr>) s1)) (\<lambda>s2.
             bindr (acquiresleep (BufLock b) s2) (\<lambda>s3. Inr (b, s3))))))"

definition bread :: "u32 \<Rightarrow> u32 \<Rightarrow> 'a vst_scheme \<Rightarrow> kerr + (nat \<times> 'a vst_scheme)" where
  "bread dev blockno s =
     bindr (bget dev blockno s) (\<lambda>(b, s1).
     if \<not> b_valid (bufs s1 b)
     then bindr (virtio_disk_rw b False s1) (\<lambda>s2. Inr (b, updb b (\<lambda>r. r\<lparr>b_valid := True\<rparr>) s2))
     else Inr (b, s1))"

definition bwrite :: "nat \<Rightarrow> 'a vst_scheme \<Rightarrow> kerr + 'a vst_scheme" where
  "bwrite b s =
     bindr (holdingsleep (BufLock b) s) (\<lambda>(h, s1).
     if \<not> h then Inl (Panic ''bwrite'') else virtio_disk_rw b True s1)"

definition brelse :: "nat \<Rightarrow> 'a vst_scheme \<Rightarrow> kerr + 'a vst_scheme" where
  "brelse b s =
     bindr (holdingsleep (BufLock b) s) (\<lambda>(h, s1).
     if \<not> h then Inl (Panic ''brelse'')
     else bindr (releasesleep (BufLock b) s1) (\<lambda>s2.
       bindr (acquire_lk BcacheLock s2) (\<lambda>s3.
       let s4 = updb b (\<lambda>r. r\<lparr>b_refcnt := b_refcnt r - 1\<rparr>) s3;
           s5 = (if b_refcnt (bufs s4 b) = 0 then link_front b (unlink b s4) else s4)
       in release_lk BcacheLock s5)))"

definition bpin :: "nat \<Rightarrow> 'a vst_scheme \<Rightarrow> kerr + 'a vst_scheme" where
  "bpin b s =
     bindr (acquire_lk BcacheLock s) (\<lambda>s1.
     release_lk BcacheLock (updb b (\<lambda>r. r\<lparr>b_refcnt := b_refcnt r + 1\<rparr>) s1))"

definition bunpin :: "nat \<Rightarrow> 'a vst_scheme \<Rightarrow> kerr + 'a vst_scheme" where
  "bunpin b s =
     bindr (acquire_lk BcacheLock s) (\<lambda>s1.
     release_lk BcacheLock (updb b (\<lambda>r. r\<lparr>b_refcnt := b_refcnt r - 1\<rparr>) s1))"

section \<open>The recency list\<close>

text \<open>\<open>chain f p xs h\<close>: following \<open>f\<close> from \<open>p\<close> visits \<open>xs\<close> and then \<open>h\<close>.\<close>

fun chain :: "(nat \<Rightarrow> nat) \<Rightarrow> nat \<Rightarrow> nat list \<Rightarrow> nat \<Rightarrow> bool" where
  "chain f p [] h \<longleftrightarrow> f p = h"
| "chain f p (x # xs) h \<longleftrightarrow> f p = x \<and> chain f x xs h"

lemma chain_append: "chain f p (xs @ x # ys) h \<longleftrightarrow> chain f p xs x \<and> chain f x ys h"
  by (induction xs arbitrary: p) auto

lemma chain_upd [simp]: "a \<notin> set (p # xs) \<Longrightarrow> chain (f(a := v)) p xs h = chain f p xs h"
  by (induction xs arbitrary: p) auto

definition ring_links :: "(nat \<Rightarrow> nat) \<Rightarrow> (nat \<Rightarrow> nat) \<Rightarrow> nat \<Rightarrow> nat list \<Rightarrow> bool" where
  "ring_links nx pv h xs \<longleftrightarrow> distinct (h # xs) \<and> chain nx h xs h \<and> chain pv h (rev xs) h"

lemma ring_push:
  assumes "ring_links nx pv h xs" "b \<notin> set (h # xs)"
  shows "ring_links (nx(b := nx h, h := b)) (pv(b := h, nx h := b)) h (b # xs)"
proof -
  have d: "distinct (h # xs)" and c: "chain nx h xs h" "chain pv h (rev xs) h" using assms(1) by (simp_all add: ring_links_def)
  show ?thesis
  proof (cases xs)
    case Nil
    then show ?thesis using c assms(2) by (auto simp: ring_links_def)
  next
    case (Cons x ys)
    have "nx h = x" "chain nx x ys h" using c(1) Cons by simp_all
    moreover have "chain pv h (rev ys) x" "pv x = h" using c(2) Cons by (simp_all add: chain_append)
    ultimately show ?thesis
      using d assms(2) Cons by (auto simp: ring_links_def chain_append)
  qed
qed

lemma ring_remove:
  assumes "ring_links nx pv h (ys @ b # zs)"
  shows "ring_links (nx(pv b := nx b)) (pv(nx b := pv b)) h (ys @ zs)"
proof -
  have d: "distinct (h # ys @ b # zs)" and n: "chain nx h ys b" "chain nx b zs h"
    and p: "chain pv h (rev zs) b" "chain pv b (rev ys) h"
    using assms by (simp_all add: ring_links_def chain_append)
  show ?thesis
  proof (cases ys rule: rev_cases)
    case Nil
    then have pb: "pv b = h" "nx h = b" using p n by simp_all
    show ?thesis
    proof (cases zs)
      case (Cons z zs')
      have "nx b = z" "chain nx z zs' h" "chain pv h (rev zs') z" "pv z = b" using n p Cons by (simp_all add: chain_append)
      then show ?thesis using d pb Nil Cons by (auto simp: ring_links_def chain_append)
    qed (use n p pb Nil in \<open>auto simp: ring_links_def\<close>)
  next
    case (snoc ys' y)
    have py: "pv b = y" "chain pv y (rev ys') h" "chain nx h ys' y" "nx y = b" using n p snoc by (simp_all add: chain_append)
    show ?thesis
    proof (cases zs)
      case Nil
      then show ?thesis using d py n p snoc by (auto simp: ring_links_def chain_append)
    next
      case (Cons z zs')
      have "nx b = z" "chain nx z zs' h" "chain pv h (rev zs') z" "pv z = b" using n p Cons by (simp_all add: chain_append)
      then show ?thesis using d py snoc Cons by (auto simp: ring_links_def chain_append)
    qed
  qed
qed


definition blist :: "'a vst_scheme \<Rightarrow> nat list \<Rightarrow> bool" where
  "blist s xs \<longleftrightarrow> ring_links (\<lambda>i. b_next (bufs s i)) (\<lambda>i. b_prev (bufs s i)) bhead xs"

lemma link_front_blist:
  assumes "blist s xs" "b \<notin> set (bhead # xs)"
  shows "blist (link_front b s) (b # xs)"
proof -
  have b: "b \<noteq> bhead" using assms(2) by simp
  have "(\<lambda>i. b_next (bufs (link_front b s) i)) = (\<lambda>i. b_next (bufs s i))(b := b_next (bufs s bhead), bhead := b)"
    "(\<lambda>i. b_prev (bufs (link_front b s) i)) = (\<lambda>i. b_prev (bufs s i))(b := bhead, b_next (bufs s bhead) := b)"
    using b by (auto simp: fun_eq_iff link_front_def Let_def)
  with ring_push [OF assms(1) [unfolded blist_def] assms(2)] show ?thesis by (simp add: blist_def)
qed

lemma unlink_blist:
  assumes "blist s (ys @ b # zs)"
  shows "blist (unlink b s) (ys @ zs)"
proof -
  have nb: "b_next (bufs s b) \<noteq> b"
    using assms by (cases zs) (auto simp: blist_def ring_links_def chain_append)
  have "(\<lambda>i. b_next (bufs (unlink b s) i)) = (\<lambda>i. b_next (bufs s i))(b_prev (bufs s b) := b_next (bufs s b))"
    "(\<lambda>i. b_prev (bufs (unlink b s) i)) = (\<lambda>i. b_prev (bufs s i))(b_next (bufs s b) := b_prev (bufs s b))"
    using nb by (auto simp: fun_eq_iff unlink_def Let_def)
  with ring_remove [OF assms [unfolded blist_def]] show ?thesis by (simp add: blist_def)
qed

lemma bfind_find:
  assumes "chain (\<lambda>i. dir (bufs s i)) p xs bhead" "bhead \<notin> set xs" "length xs < k"
  shows "bfind k dir P (dir (bufs s p)) s = Inr (find (\<lambda>b. P (bufs s b)) xs)"
  using assms
proof (induction xs arbitrary: p k)
  case Nil
  then obtain k' where "k = Suc k'" by (cases k) auto
  with Nil show ?case by simp
next
  case (Cons x xs)
  then obtain k' where "k = Suc k'" by (cases k) auto
  with Cons show ?case by simp
qed

declare bfind.simps [simp del]

text \<open>The links, and nothing else, change when a buffer is moved.\<close>

definition same_but_links :: "buf \<Rightarrow> buf \<Rightarrow> bool" where
  "same_but_links r r' \<longleftrightarrow> r'\<lparr>b_prev := b_prev r, b_next := b_next r\<rparr> = r"

lemma same_but_linksD:
  "same_but_links r r' \<Longrightarrow> b_valid r' = b_valid r \<and> b_disk r' = b_disk r \<and> b_dev r' = b_dev r \<and> b_blockno r' = b_blockno r \<and>
     b_refcnt r' = b_refcnt r"
  by (cases r; cases r') (simp add: same_but_links_def)

lemma move_front_fields:
  "same_but_links (bufs s i) (bufs (link_front b s) i)" "same_but_links (bufs s i) (bufs (unlink b s) i)"
  "link_front b s = s\<lparr>bufs := bufs (link_front b s)\<rparr>" "unlink b s = s\<lparr>bufs := bufs (unlink b s)\<rparr>"
  by (simp_all add: link_front_def unlink_def same_but_links_def Let_def updb_def)


section \<open>The cache seen as blocks\<close>

text \<open>The file system has one device. A block is cached by at most one buffer; a buffer that nobody
  refers to is unlocked and has the contents of its block on disk; a locked buffer is locked by the
  process \<open>p\<close>, which is alone in the file system.\<close>

definition ROOTDEV :: u32 where "ROOTDEV = 1"

definition bcore :: "buf \<Rightarrow> bool \<times> u32 \<times> u32 \<times> u32" where
  "bcore r = (b_valid r, b_dev r, b_blockno r, b_refcnt r)"

definition caches :: "'a vst_scheme \<Rightarrow> nat \<Rightarrow> u32 \<Rightarrow> bool" where
  "caches s b n \<longleftrightarrow> b_dev (bufs s b) = ROOTDEV \<and> b_blockno (bufs s b) = n"

definition buf_ok :: "nat \<Rightarrow> 'a vst_scheme \<Rightarrow> nat \<Rightarrow> bool" where
  "buf_ok p s b \<longleftrightarrow> length (bufdata s b) = BSIZE \<and> unat (b_blockno (bufs s b)) < 2 ^ 31 \<and>
     (if b_dev (bufs s b) = ROOTDEV then b_valid (bufs s b) else b_dev (bufs s b) = 0 \<and> b_refcnt (bufs s b) = 0) \<and>
     (b_refcnt (bufs s b) = 0 \<longrightarrow> \<not> sl_locked (slocks s (BufLock b)) \<and>
        (b_dev (bufs s b) = ROOTDEV \<longrightarrow> bufdata s b = dblock (vd s) (unat (b_blockno (bufs s b))))) \<and>
     (sl_locked (slocks s (BufLock b)) \<longrightarrow> sl_pid (slocks s (BufLock b)) = pid (procs s p))"

definition quiet :: "nat \<Rightarrow> 'a vst_scheme \<Rightarrow> bool" where
  "quiet p s \<longleftrightarrow> driver_idle (vd s) \<and> held s = {} \<and> alone s \<and> cur s = Some p \<and>
     (\<exists>xs. blist s xs \<and> set xs = {..<NBUF})"

definition bio_inv :: "nat \<Rightarrow> 'a vst_scheme \<Rightarrow> bool" where
  "bio_inv p s \<longleftrightarrow> quiet p s \<and> (\<forall>b<NBUF. buf_ok p s b) \<and>
     (\<forall>b c n. b < NBUF \<and> c < NBUF \<and> caches s b n \<and> caches s c n \<longrightarrow> b = c)"

definition bof :: "'a vst_scheme \<Rightarrow> u32 \<Rightarrow> nat option" where
  "bof s n = find (\<lambda>b. caches s b n) [0..<NBUF]"

text \<open>What the rest of the kernel sees of the cache: the contents, the disk, the number of references
  to each block, the blocks that are locked, the number of buffers that can be recycled, and the
  writes to the disk.\<close>

record bview =
  content :: "u32 \<Rightarrow> u8 list"
  ondisk :: "nat \<Rightarrow> u8 list"
  refs :: "u32 \<Rightarrow> nat"
  owned :: "u32 \<Rightarrow> bool"
  nfree :: nat
  hist :: "(nat \<times> u8 list) list"

definition babs :: "'a vst_scheme \<Rightarrow> bview" where
  "babs s = \<lparr>
     content = (\<lambda>n. case bof s n of Some b \<Rightarrow> bufdata s b | None \<Rightarrow> dblock (vd s) (unat n)),
     ondisk = dblock (vd s),
     refs = (\<lambda>n. case bof s n of Some b \<Rightarrow> unat (b_refcnt (bufs s b)) | None \<Rightarrow> 0),
     owned = (\<lambda>n. case bof s n of Some b \<Rightarrow> sl_locked (slocks s (BufLock b)) | None \<Rightarrow> False),
     nfree = card {b. b < NBUF \<and> b_refcnt (bufs s b) = 0},
     hist = writes (vq (vd s))\<rparr>"

definition bio_frame :: "'a vst_scheme \<Rightarrow> 'a vst_scheme \<Rightarrow> bool" where
  "bio_frame s s' \<longleftrightarrow> s' = s\<lparr>slocks := slocks s', bufs := bufs s', vd := vd s'\<rparr> \<and> device (vd s') = device (vd s)"

lemma bio_frameD:
  assumes "bio_frame s s'"
  shows "procs s' = procs s" "cur s' = cur s" "held s' = held s" "alone s' = alone s" "pmem s' = pmem s"
    "vst.more s' = vst.more s" "device (vd s') = device (vd s)"
proof -
  have e: "s' = s\<lparr>slocks := slocks s', bufs := bufs s', vd := vd s'\<rparr>" using assms by (simp add: bio_frame_def)
  show "procs s' = procs s" by (subst e) simp
  show "cur s' = cur s" by (subst e) simp
  show "held s' = held s" by (subst e) simp
  show "pmem s' = pmem s" by (subst e) simp
  show "vst.more s' = vst.more s" by (subst e) simp
  show "alone s' = alone s" by (subst e) (simp add: alone_def no_proc_locks_def)
  show "device (vd s') = device (vd s)" using assms by (simp add: bio_frame_def)
qed

lemma bio_frame_refl [simp]: "bio_frame s s"
  by (simp add: bio_frame_def)

lemma bio_frame_trans:
  assumes "bio_frame s s1" "bio_frame s1 s2"
  shows "bio_frame s s2"
proof -
  have a: "s1 = s\<lparr>slocks := slocks s1, bufs := bufs s1, vd := vd s1\<rparr>" using assms(1) by (simp add: bio_frame_def)
  have "s2 = s1\<lparr>slocks := slocks s2, bufs := bufs s2, vd := vd s2\<rparr>" using assms(2) by (simp add: bio_frame_def)
  also have "\<dots> = s\<lparr>slocks := slocks s2, bufs := bufs s2, vd := vd s2\<rparr>" by (subst a) simp
  finally show ?thesis using assms by (simp add: bio_frame_def)
qed

lemma caches_unique: "bio_inv p s \<Longrightarrow> b < NBUF \<Longrightarrow> c < NBUF \<Longrightarrow> caches s b n \<Longrightarrow> caches s c n \<Longrightarrow> b = c"
  by (auto simp: bio_inv_def)

lemma find_SomeD: "find P xs = Some x \<Longrightarrow> x \<in> set xs \<and> P x"
  by (induction xs) (auto split: if_splits)

lemma find_caches:
  assumes "bio_inv p s" "set xs = {..<NBUF}"
  shows "find (\<lambda>b. caches s b n) xs = Some b \<longleftrightarrow> b < NBUF \<and> caches s b n"
    and "find (\<lambda>b. caches s b n) xs = None \<longleftrightarrow> (\<forall>b<NBUF. \<not> caches s b n)"
proof -
  show "find (\<lambda>b. caches s b n) xs = None \<longleftrightarrow> (\<forall>b<NBUF. \<not> caches s b n)"
    using assms(2) by (auto simp: find_None_iff)
  have *: "c < NBUF \<and> caches s c n" if "find (\<lambda>b. caches s b n) xs = Some c" for c
    using find_SomeD [OF that] assms(2) by auto
  show "find (\<lambda>b. caches s b n) xs = Some b \<longleftrightarrow> b < NBUF \<and> caches s b n"
  proof
    assume b: "b < NBUF \<and> caches s b n"
    then have "find (\<lambda>b. caches s b n) xs \<noteq> None" using assms(2) by (auto simp: find_None_iff)
    then obtain c where c: "find (\<lambda>b. caches s b n) xs = Some c" by auto
    with * [OF c] b caches_unique [OF assms(1)] show "find (\<lambda>b. caches s b n) xs = Some b" by auto
  qed (use * in blast)
qed

lemma bof_iff:
  assumes "bio_inv p s"
  shows "bof s n = Some b \<longleftrightarrow> b < NBUF \<and> caches s b n" "bof s n = None \<longleftrightarrow> (\<forall>b<NBUF. \<not> caches s b n)"
proof -
  have "set [0..<NBUF] = {..<NBUF}" by auto
  from find_caches [OF assms this] show "bof s n = Some b \<longleftrightarrow> b < NBUF \<and> caches s b n"
    "bof s n = None \<longleftrightarrow> (\<forall>b<NBUF. \<not> caches s b n)" by (simp_all add: bof_def)
qed


text \<open>An update of one buffer that keeps its block.\<close>

lemma bio_update:
  assumes inv: "bio_inv p s" and b: "b < NBUF" "caches s b n" "caches s' b n"
    and others: "\<And>c. c \<noteq> b \<Longrightarrow> bcore (bufs s' c) = bcore (bufs s c) \<and> slocks s' (BufLock c) = slocks s (BufLock c) \<and>
      bufdata s' c = bufdata s c"
    and disk: "\<And>m. m \<noteq> unat n \<Longrightarrow> dblock (vd s') m = dblock (vd s) m"
    and pid: "pid (procs s' p) = pid (procs s p)" and ok: "buf_ok p s' b" and q: "quiet p s'"
  shows "bio_inv p s' \<and> bof s' = bof s"
proof -
  have c: "caches s' c m = caches s c m" for c m
    using others [of c] b(2,3) by (cases "c = b") (auto simp: caches_def bcore_def)
  have "buf_ok p s' c" if "c < NBUF" for c
  proof (cases "c = b")
    case False
    have "unat (b_blockno (bufs s c)) \<noteq> unat n" if "b_dev (bufs s c) = ROOTDEV"
      using caches_unique [OF inv \<open>c < NBUF\<close> b(1), of n] b(2) False that by (auto simp: caches_def word_unat_eq_iff)
    moreover have "buf_ok p s c" using inv that by (simp add: bio_inv_def)
    ultimately show ?thesis
      using others [OF False] disk [of "unat (b_blockno (bufs s c))"] pid by (auto simp: buf_ok_def bcore_def)
  qed (use ok in simp)
  then show ?thesis using inv q by (simp add: bio_inv_def c bof_def [abs_def])
qed


lemma card_zero_refs:
  assumes "b < NBUF" "\<And>c. c \<noteq> b \<Longrightarrow> f' c = f c"
  shows "card {c. c < NBUF \<and> f' c = (0 :: u32)} =
    card {c. c < NBUF \<and> f c = 0} - (if f b = 0 then 1 else 0) + (if f' b = 0 then 1 else 0)"
proof -
  have *: "card {c. c < NBUF \<and> g c = 0} = card {c. c < NBUF \<and> c \<noteq> b \<and> g c = 0} + (if g b = 0 then 1 else 0)"
    for g :: "nat \<Rightarrow> u32"
  proof -
    have "{c. c < NBUF \<and> g c = 0} = (if g b = 0 then insert b {c. c < NBUF \<and> c \<noteq> b \<and> g c = 0}
        else {c. c < NBUF \<and> c \<noteq> b \<and> g c = 0})"
      using assms(1) by auto
    then show ?thesis by simp
  qed
  have "{c. c < NBUF \<and> c \<noteq> b \<and> f' c = 0} = {c. c < NBUF \<and> c \<noteq> b \<and> f c = 0}" using assms(2) by auto
  then show ?thesis using * [of f] * [of f'] by simp
qed

lemma babs_update:
  assumes inv: "bio_inv p s" and b: "b < NBUF" "caches s b n" and bof: "bof s' = bof s"
    and others: "\<And>c. c \<noteq> b \<Longrightarrow> bcore (bufs s' c) = bcore (bufs s c) \<and> slocks s' (BufLock c) = slocks s (BufLock c) \<and>
      bufdata s' c = bufdata s c"
    and disk: "\<And>m. m \<noteq> unat n \<Longrightarrow> dblock (vd s') m = dblock (vd s) m"
  shows "babs s' = \<lparr>content = (content (babs s))(n := bufdata s' b), ondisk = dblock (vd s'),
    refs = (refs (babs s))(n := unat (b_refcnt (bufs s' b))), owned = (owned (babs s))(n := sl_locked (slocks s' (BufLock b))),
    nfree = nfree (babs s) - (if b_refcnt (bufs s b) = 0 then 1 else 0) + (if b_refcnt (bufs s' b) = 0 then 1 else 0),
    hist = writes (vq (vd s'))\<rparr>"
proof -
  have n: "bof s n = Some b" using bof_iff(1) [OF inv] b by simp
  have m: "c \<noteq> b" if "bof s m = Some c" "m \<noteq> n" for m c
    using that bof_iff(1) [OF inv] b(2) by (auto simp: caches_def)
  have pt: "content (babs s') m = ((content (babs s))(n := bufdata s' b)) m \<and>
    refs (babs s') m = ((refs (babs s))(n := unat (b_refcnt (bufs s' b)))) m \<and>
    owned (babs s') m = ((owned (babs s))(n := sl_locked (slocks s' (BufLock b)))) m" for m
  proof (cases "m = n")
    case True
    then show ?thesis by (simp add: babs_def bof n)
  next
    case False
    then have "unat m \<noteq> unat n" by (simp add: word_unat_eq_iff)
    then show ?thesis using False m [of m] others disk [of "unat m"]
      by (cases "bof s m") (auto simp: babs_def bof bcore_def)
  qed
  then have "content (babs s') = (content (babs s))(n := bufdata s' b)" by (intro ext) blast
  moreover have "refs (babs s') = (refs (babs s))(n := unat (b_refcnt (bufs s' b)))" using pt by (intro ext) blast
  moreover have "owned (babs s') = (owned (babs s))(n := sl_locked (slocks s' (BufLock b)))" using pt by (intro ext) blast
  moreover have "nfree (babs s') = nfree (babs s) - (if b_refcnt (bufs s b) = 0 then 1 else 0) + (if b_refcnt (bufs s' b) = 0 then 1 else 0)"
    using card_zero_refs [OF b(1), of "\<lambda>c. b_refcnt (bufs s' c)" "\<lambda>c. b_refcnt (bufs s c)"] others
    by (simp add: babs_def bcore_def)
  moreover have "ondisk (babs s') = dblock (vd s')" "hist (babs s') = writes (vq (vd s'))" by (simp_all add: babs_def)
  ultimately show ?thesis by (intro bview.equality) simp_all
qed


section \<open>The operations on blocks\<close>

declare held_empty [simp]

lemma alone_upd_sl [simp]: "alone (upd_sl l v s) = alone s"
  by (simp add: alone_def)

lemma upd_sl_bufs [simp]:
  "bufs (upd_sl l v s) = bufs s" "vd (upd_sl l v s) = vd s" "bufdata (upd_sl l v s) b = bufdata s b"
  "bufdata (updb c f s) b = bufdata s b" "slocks (updb c f s) = slocks s"
  by (simp_all add: upd_sl_def bufdata_def)

definition keeps_links :: "'a vst_scheme \<Rightarrow> 'a vst_scheme \<Rightarrow> bool" where
  "keeps_links s s' \<longleftrightarrow> (\<forall>i. b_next (bufs s' i) = b_next (bufs s i) \<and> b_prev (bufs s' i) = b_prev (bufs s i))"

lemma quiet_keep:
  assumes "quiet p s" "driver_idle (vd s')" "held s' = held s" "alone s' = alone s" "cur s' = cur s" "keeps_links s s'"
  shows "quiet p s'"
  using assms by (simp add: quiet_def blist_def keeps_links_def)

lemma quietD:
  assumes "quiet p s"
  shows "driver_idle (vd s)" "held s = {}" "alone s" "cur s = Some p" "no_proc_locks s"
  using assms by (auto simp: quiet_def alone_def)

lemma bio_quiet: "bio_inv p s \<Longrightarrow> quiet p s" "bio_inv p s \<Longrightarrow> b < NBUF \<Longrightarrow> buf_ok p s b"
  by (simp_all add: bio_inv_def)

lemma blistD:
  assumes "blist s xs" "set xs = {..<NBUF}"
  shows "length xs = NBUF" "distinct xs" "bhead \<notin> set xs" "chain (\<lambda>i. b_next (bufs s i)) bhead xs bhead"
    "chain (\<lambda>i. b_prev (bufs s i)) bhead (rev xs) bhead"
proof -
  show d: "distinct xs" "bhead \<notin> set xs" "chain (\<lambda>i. b_next (bufs s i)) bhead xs bhead"
    "chain (\<lambda>i. b_prev (bufs s i)) bhead (rev xs) bhead" using assms(1) by (simp_all add: blist_def ring_links_def)
  show "length xs = NBUF" using distinct_card [OF d(1)] assms(2) by simp
qed

lemma bfind_next:
  assumes "blist s xs" "set xs = {..<NBUF}"
  shows "bfind (NBUF + 1) b_next P (b_next (bufs s bhead)) s = Inr (find (\<lambda>b. P (bufs s b)) xs)"
    "bfind (NBUF + 1) b_prev P (b_prev (bufs s bhead)) s = Inr (find (\<lambda>b. P (bufs s b)) (rev xs))"
  using blistD [OF assms] by (simp_all add: bfind_find)

lemma blist_held [simp]: "blist (s\<lparr>held := h\<rparr>) xs = blist s xs"
  by (simp add: blist_def)

lemma bget_hit:
  assumes "bio_inv p s" "bof s n = Some b" "\<not> sl_locked (slocks s (BufLock b))"
  shows "bget ROOTDEV n s = Inr (b, upd_sl (BufLock b) \<lparr>sl_locked = True, sl_pid = pid (procs s p)\<rparr>
    (updb b (\<lambda>r. r\<lparr>b_refcnt := b_refcnt r + 1\<rparr>) s))"
proof -
  note q = quietD [OF bio_quiet(1) [OF assms(1)]]
  obtain xs where xs: "blist s xs" "set xs = {..<NBUF}" using bio_quiet(1) [OF assms(1)] by (auto simp: quiet_def)
  let ?s1 = "s\<lparr>held := {BcacheLock}\<rparr>"
  have "blist ?s1 xs" using xs(1) by simp
  note f = bfind_next(1) [OF this xs(2), of "\<lambda>r. b_dev r = ROOTDEV \<and> b_blockno r = n"]
  have "find (\<lambda>b. caches s b n) xs = Some b"
    using find_caches(1) [OF assms(1) xs(2)] assms(2) bof_iff(1) [OF assms(1)] by simp
  then have "find (\<lambda>b. b_dev (bufs s b) = ROOTDEV \<and> b_blockno (bufs s b) = n) xs = Some b" by (simp add: caches_def)
  moreover have "acquiresleep (BufLock b) (updb b (\<lambda>r. r\<lparr>b_refcnt := b_refcnt r + 1\<rparr>) s) =
      Inr (upd_sl (BufLock b) \<lparr>sl_locked = True, sl_pid = pid (procs s p)\<rparr> (updb b (\<lambda>r. r\<lparr>b_refcnt := b_refcnt r + 1\<rparr>) s))"
    using acquiresleep_ok [of "BufLock b" "updb b (\<lambda>r. r\<lparr>b_refcnt := b_refcnt r + 1\<rparr>) s" p] q assms(3) by simp
  ultimately show ?thesis
    using q(2) f by (simp add: bget_def acquire_lk_def release_lk_def)
qed


lemma bget_miss:
  assumes "bio_inv p s" "bof s n = None" "blist s xs" "set xs = {..<NBUF}"
    "find (\<lambda>b. b_refcnt (bufs s b) = 0) (rev xs) = Some v"
  shows "bget ROOTDEV n s = Inr (v, upd_sl (BufLock v) \<lparr>sl_locked = True, sl_pid = pid (procs s p)\<rparr>
    (updb v (\<lambda>r. r\<lparr>b_dev := ROOTDEV, b_blockno := n, b_valid := False, b_refcnt := 1\<rparr>) s))"
proof -
  note q = quietD [OF bio_quiet(1) [OF assms(1)]]
  let ?s1 = "s\<lparr>held := {BcacheLock}\<rparr>" and ?f = "\<lambda>r. r\<lparr>b_dev := ROOTDEV, b_blockno := n, b_valid := False, b_refcnt := 1\<rparr>"
  have "blist ?s1 xs" using assms(3) by simp
  note f = bfind_next [OF this assms(4)]
  have "find (\<lambda>b. caches s b n) xs = None"
    using find_caches(2) [OF assms(1,4)] assms(2) bof_iff(2) [OF assms(1)] by simp
  then have m: "find (\<lambda>b. b_dev (bufs s b) = ROOTDEV \<and> b_blockno (bufs s b) = n) xs = None" by (simp add: caches_def)
  have v: "v < NBUF" "b_refcnt (bufs s v) = 0" using find_SomeD [OF assms(5)] assms(4) by auto
  then have "\<not> sl_locked (slocks s (BufLock v))" using bio_quiet(2) [OF assms(1)] by (simp add: buf_ok_def)
  then have "acquiresleep (BufLock v) (updb v ?f s) = Inr (upd_sl (BufLock v) \<lparr>sl_locked = True, sl_pid = pid (procs s p)\<rparr> (updb v ?f s))"
    using acquiresleep_ok [of "BufLock v" "updb v ?f s" p] q by simp
  then show ?thesis
    using q(2) f m assms(5) by (simp add: bget_def acquire_lk_def release_lk_def)
qed


text \<open>\<open>bread\<close> returns the buffer of the block, locked and with the block's contents; the least recently
  used buffer nobody refers to is recycled for a block that is not cached.\<close>

lemma bread_hit:
  fixes s :: "'a vst_scheme"
  assumes inv: "bio_inv p s" and b: "bof s n = Some b" and l: "\<not> owned (babs s) n" and r: "refs (babs s) n < 2 ^ 32 - 1"
  shows "\<exists>s'. bread ROOTDEV n s = Inr (b, s') \<and> bio_inv p s' \<and> bio_frame s s' \<and> bof s' = bof s \<and>
    babs s' = (babs s)\<lparr>refs := (refs (babs s))(n := refs (babs s) n + 1), owned := (owned (babs s))(n := True),
      nfree := nfree (babs s) - (if refs (babs s) n = 0 then 1 else 0)\<rparr>"
proof -
  let ?s' = "upd_sl (BufLock b) \<lparr>sl_locked = True, sl_pid = pid (procs s p)\<rparr> (updb b (\<lambda>r. r\<lparr>b_refcnt := b_refcnt r + 1\<rparr>) s)"
  have bn: "b < NBUF" "caches s b n" using bof_iff(1) [OF inv] b by auto
  have nl: "\<not> sl_locked (slocks s (BufLock b))" and rf: "refs (babs s) n = unat (b_refcnt (bufs s b))"
    using l b by (simp_all add: babs_def)
  have u: "unat (b_refcnt (bufs s b) + 1) = unat (b_refcnt (bufs s b)) + 1" using r rf by (simp add: unat_word_ariths)
  then have nz: "b_refcnt (bufs s b) + 1 \<noteq> 0" by (metis add_is_0 unat_0 zero_neq_one)
  have ok: "buf_ok p s b" using bio_quiet(2) [OF inv bn(1)] .
  then have "bread ROOTDEV n s = Inr (b, ?s')"
    using bget_hit [OF inv b nl] bn(2) by (simp add: bread_def buf_ok_def caches_def)
  moreover have "quiet p ?s'"
    using bio_quiet(1) [OF inv] by (rule quiet_keep) (use quietD [OF bio_quiet(1) [OF inv]] in \<open>simp_all add: keeps_links_def\<close>)
  then have inv': "bio_inv p ?s' \<and> bof ?s' = bof s"
    using bn ok nz by (intro bio_update [OF inv bn]) (auto simp: caches_def bcore_def buf_ok_def)
  moreover have "babs ?s' = \<lparr>content = (content (babs s))(n := bufdata ?s' b), ondisk = dblock (vd ?s'),
    refs = (refs (babs s))(n := unat (b_refcnt (bufs ?s' b))), owned = (owned (babs s))(n := sl_locked (slocks ?s' (BufLock b))),
    nfree = nfree (babs s) - (if b_refcnt (bufs s b) = 0 then 1 else 0) + (if b_refcnt (bufs ?s' b) = 0 then 1 else 0),
    hist = writes (vq (vd ?s'))\<rparr>"
    using inv' by (intro babs_update [OF inv bn]) (auto simp: bcore_def)
  then have "babs ?s' = (babs s)\<lparr>refs := (refs (babs s))(n := refs (babs s) n + 1), owned := (owned (babs s))(n := True),
      nfree := nfree (babs s) - (if refs (babs s) n = 0 then 1 else 0)\<rparr>"
    using nz u rf b by (simp add: babs_def) (auto simp: unat_eq_0)
  moreover have "bio_frame s ?s'" by (simp add: bio_frame_def upd_sl_def updb_def)
  ultimately show ?thesis by blast
qed


text \<open>Recycling the buffer \<open>v\<close> for a block \<open>n\<close> that is not cached.\<close>

lemma bio_replace:
  assumes inv: "bio_inv p s" and v: "v < NBUF" "b_refcnt (bufs s v) = 0" and n: "bof s n = None" "caches s' v n"
    and others: "\<And>c. c \<noteq> v \<Longrightarrow> bcore (bufs s' c) = bcore (bufs s c) \<and> slocks s' (BufLock c) = slocks s (BufLock c) \<and>
      bufdata s' c = bufdata s c"
    and disk: "dblock (vd s') = dblock (vd s)"
    and pid: "pid (procs s' p) = pid (procs s p)" and ok: "buf_ok p s' v" and q: "quiet p s'"
  shows "bio_inv p s' \<and> bof s' n = Some v \<and> (\<forall>m. m \<noteq> n \<longrightarrow> bof s' m = (if bof s m = Some v then None else bof s m))"
proof -
  have c: "caches s' c m = (if c = v then m = n else caches s c m)" for c m
    using others [of c] n(2) by (auto simp: caches_def bcore_def)
  have nn: "\<not> caches s c n" if "c < NBUF" for c using bof_iff(2) [OF inv] n(1) that by blast
  have "buf_ok p s' c" if "c < NBUF" for c
    using others [of c] ok bio_quiet(2) [OF inv that] disk pid by (cases "c = v") (auto simp: buf_ok_def bcore_def)
  moreover have "b = c" if "b < NBUF" "c < NBUF" "caches s' b m" "caches s' c m" for b c m
    using that caches_unique [OF inv that(1,2), of m] nn by (auto simp: c split: if_splits)
  ultimately have inv': "bio_inv p s'" using q by (auto simp: bio_inv_def)
  moreover have "bof s' m = (if bof s m = Some v then None else bof s m)" if "m \<noteq> n" for m
  proof (cases "bof s m")
    case None
    then have "\<forall>b<NBUF. \<not> caches s' b m" using bof_iff(2) [OF inv] that by (auto simp: c)
    then show ?thesis using None bof_iff(2) [OF inv'] by simp
  next
    case (Some b)
    then have b: "b < NBUF" "caches s b m" using bof_iff(1) [OF inv] by auto
    show ?thesis
    proof (cases "b = v")
      case True
      have "\<not> caches s' c' m" if "c' < NBUF" for c'
        using caches_unique [OF inv that b(1) _ b(2)] True \<open>m \<noteq> n\<close> by (cases "c' = v") (simp_all add: c, blast)
      then show ?thesis using Some True bof_iff(2) [OF inv'] by simp
    next
      case False
      then show ?thesis using Some b bof_iff(1) [OF inv'] by (simp add: c)
    qed
  qed
  ultimately show ?thesis using bof_iff(1) [OF inv', of n v] v(1) n(2) by simp
qed

lemma babs_replace:
  assumes inv: "bio_inv p s" and v: "v < NBUF" "b_refcnt (bufs s v) = 0" and n: "bof s n = None" "bof s' n = Some v"
    and bof: "\<And>m. m \<noteq> n \<Longrightarrow> bof s' m = (if bof s m = Some v then None else bof s m)"
    and others: "\<And>c. c \<noteq> v \<Longrightarrow> bcore (bufs s' c) = bcore (bufs s c) \<and> slocks s' (BufLock c) = slocks s (BufLock c) \<and>
      bufdata s' c = bufdata s c"
    and disk: "dblock (vd s') = dblock (vd s)" and h: "writes (vq (vd s')) = writes (vq (vd s))"
    and new: "bufdata s' v = dblock (vd s) (unat n)" "b_refcnt (bufs s' v) = 1" "sl_locked (slocks s' (BufLock v))"
  shows "babs s' = (babs s)\<lparr>refs := (refs (babs s))(n := 1), owned := (owned (babs s))(n := True), nfree := nfree (babs s) - 1\<rparr>"
proof -
  have ok: "buf_ok p s v" using bio_quiet(2) [OF inv v(1)] .
  have pt: "content (babs s') m = content (babs s) m \<and> refs (babs s') m = ((refs (babs s))(n := 1)) m \<and>
    owned (babs s') m = ((owned (babs s))(n := True)) m" for m
  proof (cases "m = n")
    case True
    then show ?thesis using n new by (simp add: babs_def disk)
  next
    case False
    show ?thesis
    proof (cases "bof s m = Some v")
      case True
      then have "caches s v m" using bof_iff(1) [OF inv] by simp
      then show ?thesis using True False ok v(2) bof [OF False] by (simp add: babs_def disk buf_ok_def caches_def)
    next
      case ne: False
      then show ?thesis using False others bof [OF False] by (cases "bof s m") (auto simp: babs_def disk bcore_def)
    qed
  qed
  then have "content (babs s') = content (babs s)" "refs (babs s') = (refs (babs s))(n := 1)"
    "owned (babs s') = (owned (babs s))(n := True)" by (intro ext; blast)+
  moreover have "nfree (babs s') = nfree (babs s) - 1"
    using card_zero_refs [OF v(1), of "\<lambda>c. b_refcnt (bufs s' c)" "\<lambda>c. b_refcnt (bufs s c)"] others v(2) new(2)
    by (simp add: babs_def bcore_def)
  moreover have "ondisk (babs s') = ondisk (babs s)" "hist (babs s') = hist (babs s)" by (simp_all add: babs_def disk h)
  ultimately show ?thesis by (intro bview.equality) simp_all
qed

lemma bread_miss:
  fixes s :: "'a vst_scheme"
  assumes inv: "bio_inv p s" and n: "bof s n = None" "unat n < 2 ^ 31" and f: "0 < nfree (babs s)"
  shows "\<exists>b s'. bread ROOTDEV n s = Inr (b, s') \<and> bio_inv p s' \<and> bio_frame s s' \<and> bof s' n = Some b \<and>
    (\<forall>m. m \<noteq> n \<longrightarrow> bof s' m = (if bof s m = Some b then None else bof s m)) \<and> b_refcnt (bufs s b) = 0 \<and>
    babs s' = (babs s)\<lparr>refs := (refs (babs s))(n := 1), owned := (owned (babs s))(n := True), nfree := nfree (babs s) - 1\<rparr>"
proof -
  note q = quietD [OF bio_quiet(1) [OF inv]]
  obtain xs where xs: "blist s xs" "set xs = {..<NBUF}" using bio_quiet(1) [OF inv] by (auto simp: quiet_def)
  have "\<exists>b. b < NBUF \<and> b_refcnt (bufs s b) = 0" using f by (auto simp: babs_def card_gt_0_iff)
  then have "find (\<lambda>b. b_refcnt (bufs s b) = 0) (rev xs) \<noteq> None" using xs(2) by (auto simp: find_None_iff)
  then obtain v where vf: "find (\<lambda>b. b_refcnt (bufs s b) = 0) (rev xs) = Some v" by auto
  have v: "v < NBUF" "b_refcnt (bufs s v) = 0" using find_SomeD [OF vf] xs(2) by auto
  let ?f = "\<lambda>r. r\<lparr>b_dev := ROOTDEV, b_blockno := n, b_valid := False, b_refcnt := 1\<rparr>"
  let ?l = "\<lparr>sl_locked = True, sl_pid = pid (procs s p)\<rparr>"
  let ?s2 = "upd_sl (BufLock v) ?l (updb v ?f s)"
  have len: "length (bufdata s v) = BSIZE" using bio_quiet(2) [OF inv v(1)] by (simp add: buf_ok_def)
  have g: "bget ROOTDEV n s = Inr (v, ?s2)" by (rule bget_miss [OF inv n(1) xs vf])
  obtain d where d: "virtio_disk_rw v False ?s2 = Inr ((updb v (\<lambda>r. r\<lparr>b_disk := False\<rparr>) ?s2)\<lparr>vd := d\<rparr>)"
    "driver_idle d" "device d = device (vd s)" "dblock d = dblock (vd s)" "bdata (vq d) = (bdata (vq (vd s)))(v := dblock (vd s) (unat n))"
    "writes (vq d) = writes (vq (vd s))"
    using virtio_disk_rw_block [of ?s2 v False] q n(2) len by (auto simp: bufdata_def)
  let ?s' = "updb v (\<lambda>r. r\<lparr>b_valid := True\<rparr>) ((updb v (\<lambda>r. r\<lparr>b_disk := False\<rparr>) ?s2)\<lparr>vd := d\<rparr>)"
  have s': "bufs ?s' = (bufs s)(v := (bufs s v)\<lparr>b_dev := ROOTDEV, b_blockno := n, b_refcnt := 1, b_disk := False, b_valid := True\<rparr>)"
    "slocks ?s' = (slocks s)(BufLock v := ?l)" "vd ?s' = d" "procs ?s' = procs s" "held ?s' = held s" "cur ?s' = cur s"
    "alone ?s' = alone s"
    by (simp_all add: updb_def upd_sl_def alone_def no_proc_locks_def)
  have bd: "bufdata ?s' c = (if c = v then dblock (vd s) (unat n) else bufdata s c)" for c
    unfolding bufdata_def s'(3) d(5) by simp
  have br: "bread ROOTDEV n s = Inr (v, ?s')" using g d(1) by (simp add: bread_def)
  have fr: "bio_frame s ?s'" using d(3) by (simp add: bio_frame_def upd_sl_def updb_def)
  have qt: "quiet p ?s'"
    using bio_quiet(1) [OF inv] by (rule quiet_keep) (use q d(2) s' in \<open>simp_all add: keeps_links_def\<close>)
  have ok: "buf_ok p ?s' v" unfolding buf_ok_def bd s' using n(2) by simp
  have oth: "bcore (bufs ?s' c) = bcore (bufs s c) \<and> slocks ?s' (BufLock c) = slocks s (BufLock c) \<and> bufdata ?s' c = bufdata s c"
    if "c \<noteq> v" for c unfolding bd s' using that by simp
  have "caches ?s' v n" "dblock (vd ?s') = dblock (vd s)" "pid (procs ?s' p) = pid (procs s p)"
    unfolding caches_def s' d(4) by simp_all
  note R = bio_replace [OF inv v n(1) this(1) oth this(2,3) ok qt]
  have "babs ?s' = (babs s)\<lparr>refs := (refs (babs s))(n := 1), owned := (owned (babs s))(n := True), nfree := nfree (babs s) - 1\<rparr>"
  proof (rule babs_replace [OF inv v n(1)])
    show "bufdata ?s' v = dblock (vd s) (unat n)" unfolding bd by simp
    show "b_refcnt (bufs ?s' v) = 1" "sl_locked (slocks ?s' (BufLock v))" "writes (vq (vd ?s')) = writes (vq (vd s))"
      unfolding s' d(6) by simp_all
    show "dblock (vd ?s') = dblock (vd s)" unfolding s' d(4) ..
    show "bof ?s' n = Some v" using R by blast
    show "bof ?s' m = (if bof s m = Some v then None else bof s m)" if "m \<noteq> n" for m using R that by blast
  qed (rule oth)
  then show ?thesis using br R fr v(2) by blast
qed


text \<open>The other operations work on the buffer \<open>b\<close> of a block \<open>n\<close>.\<close>

lemma bio_step:
  assumes inv: "bio_inv p s" and b: "bof s n = Some b" and same: "caches s' b n"
    and others: "\<And>c. c \<noteq> b \<Longrightarrow> bcore (bufs s' c) = bcore (bufs s c) \<and> slocks s' (BufLock c) = slocks s (BufLock c) \<and>
      bufdata s' c = bufdata s c"
    and disk: "\<And>m. m \<noteq> unat n \<Longrightarrow> dblock (vd s') m = dblock (vd s) m"
    and pid: "pid (procs s' p) = pid (procs s p)" and ok: "buf_ok p s' b" and q: "quiet p s'"
  shows "bio_inv p s' \<and> bof s' = bof s \<and>
    babs s' = \<lparr>content = (content (babs s))(n := bufdata s' b), ondisk = dblock (vd s'),
    refs = (refs (babs s))(n := unat (b_refcnt (bufs s' b))), owned = (owned (babs s))(n := sl_locked (slocks s' (BufLock b))),
    nfree = nfree (babs s) - (if refs (babs s) n = 0 then 1 else 0) + (if b_refcnt (bufs s' b) = 0 then 1 else 0),
    hist = writes (vq (vd s'))\<rparr>"
proof -
  have bn: "b < NBUF" "caches s b n" using bof_iff(1) [OF inv] b by auto
  have r: "refs (babs s) n = 0 \<longleftrightarrow> b_refcnt (bufs s b) = 0" using b by (simp add: babs_def unat_eq_0)
  have u: "bio_inv p s' \<and> bof s' = bof s" by (rule bio_update [OF inv bn same others disk pid ok q])
  show ?thesis unfolding r using u babs_update [OF inv bn conjunct2 [OF u] others disk] by simp
qed

lemma babs_at:
  assumes "bof s n = Some b"
  shows "content (babs s) n = bufdata s b" "refs (babs s) n = unat (b_refcnt (bufs s b))"
    "owned (babs s) n = sl_locked (slocks s (BufLock b))" "ondisk (babs s) = dblock (vd s)" "hist (babs s) = writes (vq (vd s))"
  using assms by (simp_all add: babs_def)

lemma babs_same:
  "(content (babs s))(n := content (babs s) n) = content (babs s)" "(refs (babs s))(n := refs (babs s) n) = refs (babs s)"
  "(owned (babs s))(n := owned (babs s) n) = owned (babs s)"
  by simp_all

lemma owned_buf:
  assumes inv: "bio_inv p s" and b: "bof s n = Some b" and o: "owned (babs s) n"
  shows "sl_locked (slocks s (BufLock b))" "sl_pid (slocks s (BufLock b)) = pid (procs s p)" "b_refcnt (bufs s b) \<noteq> 0"
    "0 < refs (babs s) n" "b_valid (bufs s b)" "unat (b_blockno (bufs s b)) < 2 ^ 31" "length (bufdata s b) = BSIZE" "b < NBUF"
    "b_dev (bufs s b) = ROOTDEV" "b_blockno (bufs s b) = n"
proof -
  have bn: "b < NBUF" "caches s b n" using bof_iff(1) [OF inv] b by auto
  show "b < NBUF" "b_dev (bufs s b) = ROOTDEV" "b_blockno (bufs s b) = n" using bn by (simp_all add: caches_def)
  have ok: "buf_ok p s b" using bio_quiet(2) [OF inv bn(1)] .
  have l: "sl_locked (slocks s (BufLock b))" using o b by (simp add: babs_def)
  then show nz: "b_refcnt (bufs s b) \<noteq> 0" "sl_locked (slocks s (BufLock b))" using ok by (auto simp: buf_ok_def)
  show "sl_pid (slocks s (BufLock b)) = pid (procs s p)" "b_valid (bufs s b)" "unat (b_blockno (bufs s b)) < 2 ^ 31"
    "length (bufdata s b) = BSIZE" using ok l bn by (simp_all add: buf_ok_def caches_def)
  show "0 < refs (babs s) n" using b nz by (simp add: babs_def unat_gt_0)
qed

lemma set_bufdata_block:
  assumes inv: "bio_inv p s" and b: "bof s n = Some b" and o: "owned (babs s) n" and d: "length d = BSIZE"
  shows "bio_inv p (set_bufdata b d s) \<and> bof (set_bufdata b d s) = bof s \<and> bio_frame s (set_bufdata b d s) \<and>
    babs (set_bufdata b d s) = (babs s)\<lparr>content := (content (babs s))(n := d)\<rparr>"
proof -
  let ?s' = "set_bufdata b d s"
  have e: "bufs ?s' = bufs s" "slocks ?s' = slocks s" "procs ?s' = procs s" "held ?s' = held s" "alone ?s' = alone s"
    "cur ?s' = cur s" "dblock (vd ?s') = dblock (vd s)" "writes (vq (vd ?s')) = writes (vq (vd s))"
    "driver_idle (vd ?s') = driver_idle (vd s)" "bufdata ?s' c = (if c = b then d else bufdata s c)" for c
    by (simp_all add: set_bufdata_def updq_def bufdata_def dblock_def [abs_def] driver_idle_def driver_ready_def)
  note ob = owned_buf [OF inv b o]
  have q: "quiet p ?s'"
    using bio_quiet(1) [OF inv] by (rule quiet_keep) (use quietD [OF bio_quiet(1) [OF inv]] in \<open>simp_all add: keeps_links_def e\<close>)
  have ok: "buf_ok p ?s' b" using ob d by (simp add: buf_ok_def e)
  have "bio_frame s ?s'" by (simp add: bio_frame_def set_bufdata_def updq_def upd_vd_def)
  moreover have "caches ?s' b n" using ob by (simp add: caches_def e)
  note bio_step [OF inv b this _ _ _ ok q]
  ultimately show ?thesis using ob babs_at [OF b] babs_same [of s n] by (simp add: e)
qed

lemma bwrite_block:
  fixes s :: "'a vst_scheme"
  assumes inv: "bio_inv p s" and b: "bof s n = Some b" and o: "owned (babs s) n"
  shows "\<exists>s'. bwrite b s = Inr s' \<and> bio_inv p s' \<and> bof s' = bof s \<and> bio_frame s s' \<and>
    babs s' = (babs s)\<lparr>ondisk := (ondisk (babs s))(unat n := content (babs s) n),
      hist := hist (babs s) @ [(BSIZE * unat n, content (babs s) n)]\<rparr>"
proof -
  note q = quietD [OF bio_quiet(1) [OF inv]]
  note ob = owned_buf [OF inv b o]
  obtain d where d: "virtio_disk_rw b True s = Inr ((updb b (\<lambda>r. r\<lparr>b_disk := False\<rparr>) s)\<lparr>vd := d\<rparr>)"
    "driver_idle d" "device d = device (vd s)" "dblock d = (dblock (vd s))(unat n := bufdata s b)" "bdata (vq d) = bdata (vq (vd s))"
    "writes (vq d) = writes (vq (vd s)) @ [(BSIZE * unat n, bufdata s b)]"
    using virtio_disk_rw_block [of s b True] q ob by (auto simp: bufdata_def)
  let ?s' = "(updb b (\<lambda>r. r\<lparr>b_disk := False\<rparr>) s)\<lparr>vd := d\<rparr>"
  have e: "bufs ?s' = (bufs s)(b := (bufs s b)\<lparr>b_disk := False\<rparr>)" "slocks ?s' = slocks s" "procs ?s' = procs s" "held ?s' = held s"
    "alone ?s' = alone s" "cur ?s' = cur s" "vd ?s' = d" "bufdata ?s' c = bufdata s c" for c
    by (simp_all add: updb_def alone_def no_proc_locks_def bufdata_def d(5))
  have br: "bwrite b s = Inr ?s'" using d(1) holdingsleep_ok [of "BufLock b" s p] q ob(1,2) by (simp add: bwrite_def)
  have fr: "bio_frame s ?s'" using d(3) by (simp add: bio_frame_def updb_def)
  have qt: "quiet p ?s'"
    using bio_quiet(1) [OF inv] by (rule quiet_keep) (use q d(2) in \<open>simp_all add: keeps_links_def e\<close>)
  have ok: "buf_ok p ?s' b" using ob by (simp add: buf_ok_def e)
  have "caches ?s' b n" using ob by (simp add: caches_def e)
  note bio_step [OF inv b this _ _ _ ok qt]
  then have "bio_inv p ?s' \<and> bof ?s' = bof s \<and> babs ?s' = (babs s)\<lparr>ondisk := (ondisk (babs s))(unat n := content (babs s) n),
      hist := hist (babs s) @ [(BSIZE * unat n, content (babs s) n)]\<rparr>"
    using ob babs_at [OF b] babs_same [of s n] by (simp add: e d(4,6) bcore_def)
  then show ?thesis using br fr by blast
qed


lemma releasesleep_alone:
  assumes "held s = {}" "alone s"
  shows "releasesleep l s = Inr (upd_sl l \<lparr>sl_locked = False, sl_pid = 0\<rparr> s)"
proof -
  have "\<not> sleeper (ChanSleeplock l) (upd_sl l v s) i" for i v
    using assms(2) fs_chan_simps(3) [of l] by (auto simp: alone_def sleeper_def simp del: fs_chan_simps)
  moreover have "no_proc_locks s" using assms(2) by (simp add: alone_def)
  ultimately show ?thesis using releasesleep_ok [of l s] assms(1) by (simp add: woken_none)
qed

definition to_front :: "nat \<Rightarrow> 'a vst_scheme \<Rightarrow> 'a vst_scheme" where
  "to_front b s = link_front b (unlink b s)"

lemma to_front_keeps:
  "bcore (bufs (to_front b s) c) = bcore (bufs s c)" "to_front b s = s\<lparr>bufs := bufs (to_front b s)\<rparr>"
  "to_front b (s\<lparr>held := h\<rparr>) = (to_front b s)\<lparr>held := h\<rparr>"
proof -
  show "bcore (bufs (to_front b s) c) = bcore (bufs s c)"
    using same_but_linksD [OF move_front_fields(1) [of "unlink b s" c b]] same_but_linksD [OF move_front_fields(2) [of s c b]]
    by (simp add: to_front_def bcore_def)
  show "to_front b (s\<lparr>held := h\<rparr>) = (to_front b s)\<lparr>held := h\<rparr>" by (simp add: to_front_def link_front_def unlink_def Let_def)
  have "to_front b s = (unlink b s)\<lparr>bufs := bufs (to_front b s)\<rparr>"
    using move_front_fields(3) [of b "unlink b s"] by (simp add: to_front_def)
  then show "to_front b s = s\<lparr>bufs := bufs (to_front b s)\<rparr>" by (subst (asm) move_front_fields(4)) simp
qed

lemma to_front_simps [simp]:
  "slocks (to_front b s) = slocks s" "vd (to_front b s) = vd s" "procs (to_front b s) = procs s" "cur (to_front b s) = cur s"
  "held (to_front b s) = held s" "alone (to_front b s) = alone s" "bufdata (to_front b s) c = bufdata s c"
  by (subst to_front_keeps(2), simp add: bufdata_def alone_def no_proc_locks_def)+

lemma to_front_blist:
  assumes "blist s xs" "b \<in> set xs"
  shows "blist (to_front b s) (b # remove1 b xs)"
proof -
  obtain ys zs where xs: "xs = ys @ b # zs" "b \<notin> set ys" using split_list_first [OF assms(2)] by blast
  have d: "distinct (bhead # xs)" using assms(1) by (simp add: blist_def ring_links_def)
  have "blist (unlink b s) (ys @ zs)" using unlink_blist assms(1) xs by simp
  then show ?thesis
    unfolding to_front_def using d xs by (simp add: remove1_append) (rule link_front_blist; auto)
qed

lemma blist_core: "keeps_links s s' \<Longrightarrow> blist s' xs = blist s xs"
  by (simp add: blist_def keeps_links_def)

definition brelsed :: "nat \<Rightarrow> 'a vst_scheme \<Rightarrow> 'a vst_scheme" where
  "brelsed b s =
     (let s1 = updb b (\<lambda>r. r\<lparr>b_refcnt := b_refcnt r - 1\<rparr>) (upd_sl (BufLock b) \<lparr>sl_locked = False, sl_pid = 0\<rparr> s)
      in if b_refcnt (bufs s1 b) = 0 then to_front b s1 else s1)"

lemma brelse_eq:
  assumes inv: "bio_inv p s" and b: "bof s n = Some b" and o: "owned (babs s) n"
  shows "brelse b s = Inr (brelsed b s)"
proof -
  note q = quietD [OF bio_quiet(1) [OF inv]]
  show ?thesis using holdingsleep_ok [of "BufLock b" s p] owned_buf(1,2) [OF inv b o] q(2,4) releasesleep_alone [OF q(2,3), of "BufLock b"]
    by (simp add: brelse_def brelsed_def Let_def acquire_lk_def release_lk_def to_front_def [symmetric] to_front_keeps(3))
qed

lemma brelsed_list:
  assumes "blist s xs" "b \<in> set xs"
  shows "blist (brelsed b s) (if b_refcnt (bufs s b) = 1 then b # remove1 b xs else xs)"
proof -
  let ?s1 = "updb b (\<lambda>r. r\<lparr>b_refcnt := b_refcnt r - 1\<rparr>) (upd_sl (BufLock b) \<lparr>sl_locked = False, sl_pid = 0\<rparr> s)"
  have l: "blist ?s1 xs" using assms(1) by (subst blist_core [of s]) (simp_all add: keeps_links_def)
  have "b_refcnt (bufs s b) - 1 = 0 \<longleftrightarrow> b_refcnt (bufs s b) = 1" by simp
  then show ?thesis using l to_front_blist [OF l assms(2)] by (simp add: brelsed_def Let_def)
qed

lemma brelsed_fields:
  "bcore (bufs (brelsed b s) c) = bcore ((bufs s c)\<lparr>b_refcnt := (if c = b then b_refcnt (bufs s c) - 1 else b_refcnt (bufs s c))\<rparr>)"
  "slocks (brelsed b s) = (slocks s)(BufLock b := \<lparr>sl_locked = False, sl_pid = 0\<rparr>)" "bufdata (brelsed b s) c = bufdata s c"
  "vd (brelsed b s) = vd s" "procs (brelsed b s) = procs s" "cur (brelsed b s) = cur s" "held (brelsed b s) = held s"
  "alone (brelsed b s) = alone s"
  by (simp_all add: brelsed_def Let_def to_front_keeps(1))

lemma brelsed_frame: "bio_frame s (brelsed b s)"
proof -
  let ?s1 = "updb b (\<lambda>r. r\<lparr>b_refcnt := b_refcnt r - 1\<rparr>) (upd_sl (BufLock b) \<lparr>sl_locked = False, sl_pid = 0\<rparr> s)"
  have "bio_frame s ?s1" by (simp add: bio_frame_def updb_def upd_sl_def)
  moreover have "bio_frame ?s1 (to_front b ?s1)" unfolding bio_frame_def by (subst to_front_keeps(2)) simp
  ultimately show ?thesis using bio_frame_trans [of s ?s1 "to_front b ?s1"] by (simp add: brelsed_def Let_def)
qed

lemma brelse_block:
  fixes s :: "'a vst_scheme"
  assumes inv: "bio_inv p s" and b: "bof s n = Some b" and o: "owned (babs s) n"
    and clean: "refs (babs s) n = 1 \<Longrightarrow> ondisk (babs s) (unat n) = content (babs s) n"
  shows "\<exists>s'. brelse b s = Inr s' \<and> bio_inv p s' \<and> bof s' = bof s \<and> bio_frame s s' \<and>
    babs s' = (babs s)\<lparr>refs := (refs (babs s))(n := refs (babs s) n - 1), owned := (owned (babs s))(n := False),
      nfree := nfree (babs s) + (if refs (babs s) n = 1 then 1 else 0)\<rparr>"
proof -
  note q = quietD [OF bio_quiet(1) [OF inv]] and ob = owned_buf [OF inv b o] and at = babs_at [OF b]
  let ?s' = "brelsed b s"
  obtain xs where xs: "blist s xs" "set xs = {..<NBUF}" using bio_quiet(1) [OF inv] by (auto simp: quiet_def)
  have "set (b # remove1 b xs) = {..<NBUF}" using xs(2) ob(8) blistD(2) [OF xs] by auto
  then have qt: "quiet p ?s'"
    using brelsed_list [OF xs(1), of b] xs(2) ob(8) q unfolding quiet_def brelsed_fields by (metis lessThan_iff)
  have u: "unat (b_refcnt (bufs s b) - 1) = unat (b_refcnt (bufs s b)) - 1" using ob(3) by (rule unat_minus_one)
  have z: "b_refcnt (bufs s b) - 1 = 0 \<longleftrightarrow> unat (b_refcnt (bufs s b)) = 1"
    using ob(3) by (subst unat_eq_0 [symmetric], subst u) (auto simp: unat_eq_0 [symmetric] simp del: unat_eq_0)
  have c: "b_valid (bufs ?s' c) = b_valid (bufs s c)" "b_dev (bufs ?s' c) = b_dev (bufs s c)" "b_blockno (bufs ?s' c) = b_blockno (bufs s c)"
    "b_refcnt (bufs ?s' c) = (if c = b then b_refcnt (bufs s c) - 1 else b_refcnt (bufs s c))" for c
    using brelsed_fields(1) [of b s c] by (simp_all add: bcore_def)
  have "bufdata s b = dblock (vd s) (unat n)" if "b_refcnt (bufs s b) - 1 = 0" using clean that unfolding z at by simp
  then have "buf_ok p ?s' b" using ob(3-10) unfolding buf_ok_def c brelsed_fields(2-) by simp
  moreover have "caches ?s' b n" using ob by (simp add: caches_def c)
  ultimately have "bio_inv p ?s' \<and> bof ?s' = bof s \<and>
    babs ?s' = \<lparr>content = (content (babs s))(n := bufdata ?s' b), ondisk = dblock (vd ?s'),
    refs = (refs (babs s))(n := unat (b_refcnt (bufs ?s' b))), owned = (owned (babs s))(n := sl_locked (slocks ?s' (BufLock b))),
    nfree = nfree (babs s) - (if refs (babs s) n = 0 then 1 else 0) + (if b_refcnt (bufs ?s' b) = 0 then 1 else 0),
    hist = writes (vq (vd ?s'))\<rparr>"
    by (intro bio_step [OF inv b]) (use qt in \<open>simp_all add: brelsed_fields(2-) bcore_def c\<close>)
  moreover have "(babs s)\<lparr>refs := (refs (babs s))(n := refs (babs s) n - 1), owned := (owned (babs s))(n := False),
      nfree := nfree (babs s) + (if refs (babs s) n = 1 then 1 else 0)\<rparr> =
     \<lparr>content = (content (babs s))(n := bufdata ?s' b), ondisk = dblock (vd ?s'),
    refs = (refs (babs s))(n := unat (b_refcnt (bufs ?s' b))), owned = (owned (babs s))(n := sl_locked (slocks ?s' (BufLock b))),
    nfree = nfree (babs s) - (if refs (babs s) n = 0 then 1 else 0) + (if b_refcnt (bufs ?s' b) = 0 then 1 else 0),
    hist = writes (vq (vd ?s'))\<rparr>"
    using ob(4) babs_same [of s n] z by (simp add: brelsed_fields(2-) c at u)
  ultimately show ?thesis using brelse_eq [OF inv b o] brelsed_frame by auto
qed


lemma refcnt_block:
  fixes s :: "'a vst_scheme"
  assumes inv: "bio_inv p s" and b: "bof s n = Some b"
    and z: "r = 0 \<Longrightarrow> \<not> owned (babs s) n \<and> ondisk (babs s) (unat n) = content (babs s) n"
  defines "s' \<equiv> updb b (\<lambda>x. x\<lparr>b_refcnt := r\<rparr>) s"
  shows "bio_inv p s' \<and> bof s' = bof s \<and> bio_frame s s' \<and>
    babs s' = (babs s)\<lparr>refs := (refs (babs s))(n := unat r),
      nfree := nfree (babs s) - (if refs (babs s) n = 0 then 1 else 0) + (if r = 0 then 1 else 0)\<rparr>"
proof -
  note q = quietD [OF bio_quiet(1) [OF inv]] and at = babs_at [OF b]
  have bn: "b < NBUF" "caches s b n" using bof_iff(1) [OF inv] b by auto
  have e: "bufs s' = (bufs s)(b := (bufs s b)\<lparr>b_refcnt := r\<rparr>)" "slocks s' = slocks s" "vd s' = vd s" "procs s' = procs s"
    "held s' = held s" "alone s' = alone s" "cur s' = cur s" "bufdata s' c = bufdata s c" for c
    by (simp_all add: s'_def)
  have qt: "quiet p s'"
    using bio_quiet(1) [OF inv] by (rule quiet_keep) (use q in \<open>simp_all add: keeps_links_def e\<close>)
  have ok: "buf_ok p s' b" using bio_quiet(2) [OF inv bn(1)] bn(2) z by (auto simp: buf_ok_def e at caches_def)
  have fr: "bio_frame s s'" by (simp add: bio_frame_def s'_def updb_def)
  have "caches s' b n" using bn by (simp add: caches_def e)
  note bio_step [OF inv b this _ _ _ ok qt]
  then show ?thesis using fr at babs_same [of s n] by (simp add: e bcore_def)
qed

lemma bpin_block:
  fixes s :: "'a vst_scheme"
  assumes inv: "bio_inv p s" and b: "bof s n = Some b" and r: "0 < refs (babs s) n" "refs (babs s) n < 2 ^ 32 - 1"
  shows "\<exists>s'. bpin b s = Inr s' \<and> bio_inv p s' \<and> bof s' = bof s \<and> bio_frame s s' \<and>
    babs s' = (babs s)\<lparr>refs := (refs (babs s))(n := refs (babs s) n + 1)\<rparr>"
proof -
  note q = quietD [OF bio_quiet(1) [OF inv]] and at = babs_at [OF b]
  let ?r = "b_refcnt (bufs s b) + 1"
  have u: "unat ?r = refs (babs s) n + 1" using r(2) by (simp add: at unat_word_ariths)
  then have "?r \<noteq> 0" by (metis add_is_0 unat_0 zero_neq_one)
  then show ?thesis
    using refcnt_block [OF inv b, of ?r] q(2) r(1) u by (simp add: bpin_def acquire_lk_def release_lk_def updb_def)
qed

lemma bunpin_block:
  fixes s :: "'a vst_scheme"
  assumes inv: "bio_inv p s" and b: "bof s n = Some b" and r: "0 < refs (babs s) n"
    and z: "refs (babs s) n = 1 \<Longrightarrow> \<not> owned (babs s) n \<and> ondisk (babs s) (unat n) = content (babs s) n"
  shows "\<exists>s'. bunpin b s = Inr s' \<and> bio_inv p s' \<and> bof s' = bof s \<and> bio_frame s s' \<and>
    babs s' = (babs s)\<lparr>refs := (refs (babs s))(n := refs (babs s) n - 1),
      nfree := nfree (babs s) + (if refs (babs s) n = 1 then 1 else 0)\<rparr>"
proof -
  note q = quietD [OF bio_quiet(1) [OF inv]] and at = babs_at [OF b]
  let ?r = "b_refcnt (bufs s b) - 1"
  have nz: "b_refcnt (bufs s b) \<noteq> 0" using r by (auto simp: at)
  have u: "unat ?r = refs (babs s) n - 1" unfolding at using nz by (rule unat_minus_one)
  have "?r = 0 \<longleftrightarrow> unat ?r = 0" by (rule unat_eq_0 [symmetric])
  also have "\<dots> \<longleftrightarrow> refs (babs s) n = 1" unfolding u using r by arith
  finally have e: "?r = 0 \<longleftrightarrow> refs (babs s) n = 1" .
  have "bunpin b s = Inr (updb b (\<lambda>x. x\<lparr>b_refcnt := ?r\<rparr>) s)"
    using q(2) by (simp add: bunpin_def acquire_lk_def release_lk_def updb_def)
  then show ?thesis using refcnt_block [OF inv b, of ?r] r z unfolding e u by simp
qed


lemma bread_block:
  fixes s :: "'a vst_scheme"
  assumes inv: "bio_inv p s" and n: "unat n < 2 ^ 31" "\<not> owned (babs s) n" "refs (babs s) n < 2 ^ 32 - 1"
    and f: "refs (babs s) n = 0 \<Longrightarrow> 0 < nfree (babs s)"
  shows "\<exists>b s'. bread ROOTDEV n s = Inr (b, s') \<and> bio_inv p s' \<and> bio_frame s s' \<and> bof s' n = Some b \<and>
    (\<forall>m. 0 < refs (babs s) m \<longrightarrow> bof s' m = bof s m) \<and>
    babs s' = (babs s)\<lparr>refs := (refs (babs s))(n := refs (babs s) n + 1), owned := (owned (babs s))(n := True),
      nfree := nfree (babs s) - (if refs (babs s) n = 0 then 1 else 0)\<rparr>"
proof (cases "bof s n")
  case (Some b)
  then show ?thesis using bread_hit [OF inv Some n(2,3)] by fastforce
next
  case None
  then have r: "refs (babs s) n = 0" by (simp add: babs_def)
  obtain b s' where b: "bread ROOTDEV n s = Inr (b, s')" "bio_inv p s'" "bio_frame s s'" "bof s' n = Some b"
    "\<forall>m. m \<noteq> n \<longrightarrow> bof s' m = (if bof s m = Some b then None else bof s m)" "b_refcnt (bufs s b) = 0"
    "babs s' = (babs s)\<lparr>refs := (refs (babs s))(n := 1), owned := (owned (babs s))(n := True), nfree := nfree (babs s) - 1\<rparr>"
    using bread_miss [OF inv None n(1) f [OF r]] by blast
  have "bof s' m = bof s m" if "0 < refs (babs s) m" for m
    using that b(5,6) r by (cases "m = n") (auto simp: babs_def)
  then show ?thesis using b r by auto
qed

section \<open>The cache after boot\<close>

lemma blist_initsleeplock [simp]: "blist (initsleeplock l s) xs = blist s xs"
  by (simp add: initsleeplock_def blist_def)

lemma binit_loop_list:
  assumes "blist s xs" "b + k \<le> NBUF" "\<forall>x\<in>set xs. x < b"
  shows "blist (binit_loop k b s) (rev [b..<b + k] @ xs)"
  using assms
proof (induction k arbitrary: b s xs)
  case (Suc k)
  have "blist (initsleeplock (BufLock b) (link_front b s)) (b # xs)"
    using Suc.prems by (auto simp: bhead_def intro!: link_front_blist)
  then have "blist (binit_loop k (b + 1) (initsleeplock (BufLock b) (link_front b s))) (rev [b + 1..<b + 1 + k] @ b # xs)"
    using Suc.prems by (intro Suc.IH) auto
  moreover have "rev [b..<b + Suc k] @ xs = rev [b + 1..<b + 1 + k] @ b # xs" by (simp add: upt_conv_Cons del: upt_Suc)
  ultimately show ?case by simp
qed simp


lemma link_front_simps [simp]:
  "slocks (link_front b s) = slocks s" "vd (link_front b s) = vd s" "procs (link_front b s) = procs s" "cur (link_front b s) = cur s"
  "held (link_front b s) = held s" "alone (link_front b s) = alone s" "bcore (bufs (link_front b s) c) = bcore (bufs s c)"
  using same_but_linksD [OF move_front_fields(1) [of s c b]] by (simp_all add: link_front_def Let_def bcore_def)

lemma binit_loop_fields:
  "bcore (bufs (binit_loop k b s) c) = bcore (bufs s c)" "vd (binit_loop k b s) = vd s" "procs (binit_loop k b s) = procs s"
  "cur (binit_loop k b s) = cur s" "held (binit_loop k b s) = held s" "alone (binit_loop k b s) = alone s"
  by (induction k arbitrary: b s) (simp_all add: initsleeplock_def)

lemma binit_loop_unlocked:
  "slocks (binit_loop k b s) (BufLock c) = (if b \<le> c \<and> c < b + k then \<lparr>sl_locked = False, sl_pid = 0\<rparr> else slocks s (BufLock c))"
proof (induction k arbitrary: b s)
  case (Suc k)
  then show ?case by (cases "c = b") (auto simp: initsleeplock_def)
qed auto

definition fresh_bufs :: "'a vst_scheme \<Rightarrow> bool" where
  "fresh_bufs s \<longleftrightarrow> (\<forall>b<NBUF. b_dev (bufs s b) = 0 \<and> b_blockno (bufs s b) = 0 \<and> b_refcnt (bufs s b) = 0 \<and> length (bufdata s b) = BSIZE)"

lemma binit_inv:
  assumes "driver_idle (vd s)" "held s = {}" "alone s" "cur s = Some p" "fresh_bufs s"
  shows "bio_inv p (binit s) \<and> blist (binit s) (rev [0..<NBUF]) \<and> bof (binit s) = (\<lambda>_. None) \<and> nfree (babs (binit s)) = NBUF"
proof -
  let ?s0 = "updb bhead (\<lambda>r. r\<lparr>b_prev := bhead, b_next := bhead\<rparr>) s"
  have "blist ?s0 []" by (simp add: blist_def ring_links_def)
  then have l: "blist (binit s) (rev [0..<NBUF])" using binit_loop_list [of ?s0 "[]" 0 NBUF] by (simp add: binit_def)
  have c: "bcore (bufs (binit s) b) = bcore (bufs s b)" for b
    by (simp add: binit_def binit_loop_fields) (simp add: bcore_def)
  then have f: "b_dev (bufs (binit s) b) = 0" "b_blockno (bufs (binit s) b) = 0" "b_refcnt (bufs (binit s) b) = 0"
    "length (bufdata (binit s) b) = BSIZE" "\<not> sl_locked (slocks (binit s) (BufLock b))" if "b < NBUF" for b
    using assms(5) that by (simp_all add: fresh_bufs_def bcore_def bufdata_def binit_def binit_loop_fields binit_loop_unlocked)
  have nc: "\<not> caches (binit s) b n" if "b < NBUF" for b n using f(1) [OF that] by (simp add: caches_def ROOTDEV_def)
  have "set (rev [0..<NBUF]) = {..<NBUF}" by auto
  then have "quiet p (binit s)"
    using assms l unfolding quiet_def by (auto simp: binit_def binit_loop_fields)
  moreover have "\<forall>b<NBUF. buf_ok p (binit s) b" using f by (simp add: buf_ok_def ROOTDEV_def)
  ultimately have inv: "bio_inv p (binit s)" using nc by (auto simp: bio_inv_def)
  have "{b. b < NBUF \<and> b_refcnt (bufs (binit s) b) = 0} = {..<NBUF}" using f(3) by auto
  then show ?thesis using l inv bof_iff(2) [OF inv] nc by (simp add: fun_eq_iff babs_def)
qed

section \<open>The contract of the cache\<close>

text \<open>What the log and the file system rely on, and the sequences of calls that they share.\<close>

locale block_cache =
  fixes inv :: "'s \<Rightarrow> bool"
    and view :: "'s \<Rightarrow> bview"
    and buf_of :: "'s \<Rightarrow> u32 \<Rightarrow> nat option"
    and frame :: "'s \<Rightarrow> 's \<Rightarrow> bool"
    and get :: "'s \<Rightarrow> nat \<Rightarrow> u8 list"
    and rd :: "u32 \<Rightarrow> 's \<Rightarrow> kerr + (nat \<times> 's)"
    and put :: "nat \<Rightarrow> u8 list \<Rightarrow> 's \<Rightarrow> 's"
    and wr :: "nat \<Rightarrow> 's \<Rightarrow> kerr + 's"
    and rel :: "nat \<Rightarrow> 's \<Rightarrow> kerr + 's"
  assumes frame_trans: "frame s s1 \<Longrightarrow> frame s1 s2 \<Longrightarrow> frame s s2"
    and get_law: "inv s \<Longrightarrow> buf_of s n = Some b \<Longrightarrow> get s b = content (view s) n"
    and free_law: "inv s \<Longrightarrow> refs (view s) n = 0 \<Longrightarrow> ondisk (view s) (unat n) = content (view s) n \<and> \<not> owned (view s) n"
    and size_law: "inv s \<Longrightarrow> buf_of s n = Some b \<Longrightarrow> length (get s b) = BSIZE"
    and rd_law: "inv s \<Longrightarrow> unat n < 2 ^ 31 \<Longrightarrow> \<not> owned (view s) n \<Longrightarrow> refs (view s) n < 2 ^ 32 - 1 \<Longrightarrow>
      (refs (view s) n = 0 \<Longrightarrow> 0 < nfree (view s)) \<Longrightarrow>
      \<exists>b s'. rd n s = Inr (b, s') \<and> inv s' \<and> frame s s' \<and> buf_of s' n = Some b \<and>
        (\<forall>m. 0 < refs (view s) m \<longrightarrow> buf_of s' m = buf_of s m) \<and>
        view s' = (view s)\<lparr>refs := (refs (view s))(n := refs (view s) n + 1), owned := (owned (view s))(n := True),
          nfree := nfree (view s) - (if refs (view s) n = 0 then 1 else 0)\<rparr>"
    and put_law: "inv s \<Longrightarrow> buf_of s n = Some b \<Longrightarrow> owned (view s) n \<Longrightarrow> length d = BSIZE \<Longrightarrow>
      inv (put b d s) \<and> buf_of (put b d s) = buf_of s \<and> frame s (put b d s) \<and>
        view (put b d s) = (view s)\<lparr>content := (content (view s))(n := d)\<rparr>"
    and wr_law: "inv s \<Longrightarrow> buf_of s n = Some b \<Longrightarrow> owned (view s) n \<Longrightarrow>
      \<exists>s'. wr b s = Inr s' \<and> inv s' \<and> buf_of s' = buf_of s \<and> frame s s' \<and>
        view s' = (view s)\<lparr>ondisk := (ondisk (view s))(unat n := content (view s) n),
          hist := hist (view s) @ [(BSIZE * unat n, content (view s) n)]\<rparr>"
    and rel_law: "inv s \<Longrightarrow> buf_of s n = Some b \<Longrightarrow> owned (view s) n \<Longrightarrow>
      (refs (view s) n = 1 \<Longrightarrow> ondisk (view s) (unat n) = content (view s) n) \<Longrightarrow>
      \<exists>s'. rel b s = Inr s' \<and> inv s' \<and> buf_of s' = buf_of s \<and> frame s s' \<and>
        view s' = (view s)\<lparr>refs := (refs (view s))(n := refs (view s) n - 1), owned := (owned (view s))(n := False),
          nfree := nfree (view s) + (if refs (view s) n = 1 then 1 else 0)\<rparr>"
begin

text \<open>Reading a block and releasing it leaves no trace.\<close>

lemma read_release:
  assumes i: "inv s" and n: "unat n < 2 ^ 31" "\<not> owned (view s) n" "refs (view s) n < 2 ^ 32 - 1"
    and f: "0 < nfree (view s)"
  shows "\<exists>b s1 s2. rd n s = Inr (b, s1) \<and> frame s s1 \<and> get s1 b = content (view s) n \<and> rel b s1 = Inr s2 \<and> inv s2 \<and> frame s s2 \<and>
    (\<forall>m. 0 < refs (view s) m \<longrightarrow> buf_of s2 m = buf_of s m) \<and> view s2 = view s"
proof -
  obtain b s1 where r: "rd n s = Inr (b, s1)" "inv s1" "frame s s1" "buf_of s1 n = Some b"
    "\<forall>m. 0 < refs (view s) m \<longrightarrow> buf_of s1 m = buf_of s m"
    "view s1 = (view s)\<lparr>refs := (refs (view s))(n := refs (view s) n + 1), owned := (owned (view s))(n := True),
      nfree := nfree (view s) - (if refs (view s) n = 0 then 1 else 0)\<rparr>"
    using rd_law [OF i n] f by blast
  have "\<exists>s2. rel b s1 = Inr s2 \<and> inv s2 \<and> buf_of s2 = buf_of s1 \<and> frame s1 s2 \<and>
        view s2 = (view s1)\<lparr>refs := (refs (view s1))(n := refs (view s1) n - 1), owned := (owned (view s1))(n := False),
          nfree := nfree (view s1) + (if refs (view s1) n = 1 then 1 else 0)\<rparr>"
    using free_law [OF i, of n] by (intro rel_law [OF r(2,4)]) (simp_all add: r(6))
  then obtain s2 where s2: "rel b s1 = Inr s2" "inv s2" "buf_of s2 = buf_of s1" "frame s1 s2"
        "view s2 = (view s1)\<lparr>refs := (refs (view s1))(n := refs (view s1) n - 1), owned := (owned (view s1))(n := False),
          nfree := nfree (view s1) + (if refs (view s1) n = 1 then 1 else 0)\<rparr>" by blast
  have "(owned (view s))(n := False) = owned (view s)" using n(2) by (simp add: fun_upd_idem_iff)
  then have "view s2 = view s" unfolding s2(5) r(6) using f by simp
  moreover have "get s1 b = content (view s) n" using get_law [OF r(2,4)] by (simp add: r(6))
  moreover have "\<forall>m. 0 < refs (view s) m \<longrightarrow> buf_of s2 m = buf_of s m" using r(5) s2(3) by simp
  ultimately show ?thesis using r(1,3) s2(1,2) frame_trans [OF r(3) s2(4)] by blast
qed

text \<open>Changing a block and writing it through.\<close>

lemma write_through:
  assumes i: "inv s" and n: "unat n < 2 ^ 31" "\<not> owned (view s) n" "refs (view s) n < 2 ^ 32 - 1"
    and f: "0 < nfree (view s)" and d: "\<And>x. length x = BSIZE \<Longrightarrow> length (g x) = BSIZE"
  shows "\<exists>b s1 s2 s3. rd n s = Inr (b, s1) \<and> frame s s1 \<and> wr b (put b (g (get s1 b)) s1) = Inr s2 \<and> rel b s2 = Inr s3 \<and> inv s3 \<and> frame s s3 \<and>
    get s1 b = content (view s) n \<and> (\<forall>m. 0 < refs (view s) m \<longrightarrow> buf_of s3 m = buf_of s m) \<and>
    view s3 = (view s)\<lparr>content := (content (view s))(n := g (content (view s) n)),
      ondisk := (ondisk (view s))(unat n := g (content (view s) n)), hist := hist (view s) @ [(BSIZE * unat n, g (content (view s) n))]\<rparr>"
proof -
  obtain b s1 where r: "rd n s = Inr (b, s1)" "inv s1" "frame s s1" "buf_of s1 n = Some b"
    "\<forall>m. 0 < refs (view s) m \<longrightarrow> buf_of s1 m = buf_of s m"
    "view s1 = (view s)\<lparr>refs := (refs (view s))(n := refs (view s) n + 1), owned := (owned (view s))(n := True),
      nfree := nfree (view s) - (if refs (view s) n = 0 then 1 else 0)\<rparr>"
    using rd_law [OF i n] f by blast
  have g: "get s1 b = content (view s) n" using get_law [OF r(2,4)] by (simp add: r(6))
  let ?d = "g (content (view s) n)" and ?p = "put b (g (get s1 b)) s1"
  have p: "inv ?p" "buf_of ?p = buf_of s1" "frame s1 ?p" "view ?p = (view s1)\<lparr>content := (content (view s1))(n := ?d)\<rparr>"
    using put_law [OF r(2,4), of "g (get s1 b)"] d size_law [OF r(2,4)] by (simp_all add: r(6) g)
  have "\<exists>s'. wr b ?p = Inr s' \<and> inv s' \<and> buf_of s' = buf_of ?p \<and> frame ?p s' \<and>
        view s' = (view ?p)\<lparr>ondisk := (ondisk (view ?p))(unat n := content (view ?p) n),
          hist := hist (view ?p) @ [(BSIZE * unat n, content (view ?p) n)]\<rparr>"
    by (rule wr_law [OF p(1)]) (simp_all add: p r)
  then obtain s2 where w: "wr b ?p = Inr s2" "inv s2" "buf_of s2 = buf_of ?p" "frame ?p s2"
      "view s2 = (view ?p)\<lparr>ondisk := (ondisk (view ?p))(unat n := content (view ?p) n),
          hist := hist (view ?p) @ [(BSIZE * unat n, content (view ?p) n)]\<rparr>" by blast
  have "\<exists>s'. rel b s2 = Inr s' \<and> inv s' \<and> buf_of s' = buf_of s2 \<and> frame s2 s' \<and>
        view s' = (view s2)\<lparr>refs := (refs (view s2))(n := refs (view s2) n - 1), owned := (owned (view s2))(n := False),
          nfree := nfree (view s2) + (if refs (view s2) n = 1 then 1 else 0)\<rparr>"
    by (rule rel_law [OF w(2)]) (simp_all add: w p r)
  then obtain s3 where s3: "rel b s2 = Inr s3" "inv s3" "buf_of s3 = buf_of s2" "frame s2 s3"
        "view s3 = (view s2)\<lparr>refs := (refs (view s2))(n := refs (view s2) n - 1), owned := (owned (view s2))(n := False),
          nfree := nfree (view s2) + (if refs (view s2) n = 1 then 1 else 0)\<rparr>" by blast
  have "(owned (view s))(n := False) = owned (view s)" using n(2) by (simp add: fun_upd_idem_iff)
  then have "view s3 = (view s)\<lparr>content := (content (view s))(n := ?d), ondisk := (ondisk (view s))(unat n := ?d),
      hist := hist (view s) @ [(BSIZE * unat n, ?d)]\<rparr>"
    unfolding s3(5) w(5) p(4) r(6) using f by simp
  moreover have "frame s s3" using frame_trans [OF frame_trans [OF r(3) p(3)] frame_trans [OF w(4) s3(4)]] .
  moreover have "\<forall>m. 0 < refs (view s) m \<longrightarrow> buf_of s3 m = buf_of s m" using r(5) s3(3) w(3) p(2) by simp
  ultimately show ?thesis using r(1,3) w(1) s3(1,2) g by blast
qed

end

interpretation bcache: block_cache "bio_inv p" babs bof bio_frame bufdata "bread ROOTDEV" set_bufdata bwrite brelse
proof (unfold_locales, goal_cases)
  case (1 s s1 s2) then show ?case by (rule bio_frame_trans)
next
  case (2 s n b) then show ?case by (simp add: babs_def)
next
  case (3 s n)
  show ?case
  proof (cases "bof s n")
    case (Some b)
    then have "b < NBUF" "caches s b n" using bof_iff(1) [OF 3(1)] by auto
    then show ?thesis using bio_quiet(2) [OF 3(1), of b] 3(2) Some by (simp add: babs_def buf_ok_def caches_def unat_eq_0)
  qed (simp add: babs_def)
next
  case (4 s n b) then show ?case using bio_quiet(2) [OF 4(1)] bof_iff(1) [OF 4(1), of n b] by (simp add: buf_ok_def)
next
  case (5 s n) then show ?case by (rule bread_block)
next
  case (6 s n b d) then show ?case using set_bufdata_block by blast
next
  case (7 s n b) then show ?case by (rule bwrite_block)
next
  case (8 s n b) then show ?case by (rule brelse_block)
qed


section \<open>Properties\<close>

text \<open>C4. \<open>bread\<close> implements reading in the abstract cache: it returns a locked buffer holding the contents of
  the block, counts the reference, changes nothing else, and keeps the invariant (no block has two buffers;
  a buffer nobody refers to agrees with the disk).\<close>

theorem bread_refines:
  fixes s :: "'a vst_scheme"
  assumes "bio_inv p s" "unat n < 2 ^ 31" "\<not> owned (babs s) n" "refs (babs s) n < 2 ^ 32 - 1"
    "refs (babs s) n = 0 \<Longrightarrow> 0 < nfree (babs s)"
  shows "\<exists>b s'. bread ROOTDEV n s = Inr (b, s') \<and> bio_inv p s' \<and> bufdata s' b = content (babs s) n \<and>
    babs s' = (babs s)\<lparr>refs := (refs (babs s))(n := refs (babs s) n + 1), owned := (owned (babs s))(n := True),
      nfree := nfree (babs s) - (if refs (babs s) n = 0 then 1 else 0)\<rparr>"
proof -
  obtain b s' where b: "bread ROOTDEV n s = Inr (b, s')" "bio_inv p s'" "bof s' n = Some b"
    "babs s' = (babs s)\<lparr>refs := (refs (babs s))(n := refs (babs s) n + 1), owned := (owned (babs s))(n := True),
      nfree := nfree (babs s) - (if refs (babs s) n = 0 then 1 else 0)\<rparr>"
    using bread_block [OF assms(1-4)] assms(5) by blast
  moreover have "bufdata s' b = content (babs s) n" using bcache.get_law [OF b(2,3)] b(4) by simp
  ultimately show ?thesis by blast
qed

definition demo_bio :: vst where
  "demo_bio = binit (demo_vst\<lparr>cur := Some 0, bufs := (\<lambda>i. \<lparr>b_valid = False, b_disk = False, b_dev = 0, b_blockno = 0, b_refcnt = 0,
     b_prev = 0, b_next = 0\<rparr>)\<rparr>)"

lemma demo_bio_inv: "bio_inv 0 demo_bio" "bof demo_bio = (\<lambda>_. None)" "nfree (babs demo_bio) = 30"
proof -
  have "bio_inv 0 demo_bio \<and> blist demo_bio (rev [0..<NBUF]) \<and> bof demo_bio = (\<lambda>_. None) \<and> nfree (babs demo_bio) = NBUF"
    unfolding demo_bio_def using demo_driver_idle demo_vst_simps(1-3)
    by (intro binit_inv) (simp_all add: fresh_bufs_def bufdata_def alone_def no_proc_locks_def demo_disk_def)
  then show "bio_inv 0 demo_bio" "bof demo_bio = (\<lambda>_. None)" "nfree (babs demo_bio) = 30" by (auto simp: NBUF_def)
qed

lemma demo_bio_free: "\<not> owned (babs demo_bio) n" "refs (babs demo_bio) n = 0"
  by (simp_all add: babs_def demo_bio_inv)

theorem bread_refines_witness:
  "\<exists>b s'. bread ROOTDEV 7 demo_bio = Inr (b, s') \<and> bufdata s' b = content (babs demo_bio) 7 \<and> owned (babs s') 7"
  using bread_refines [of 0 demo_bio 7] demo_bio_inv demo_bio_free by fastforce

lemma find_rev_filter: "filter P xs \<noteq> [] \<Longrightarrow> find P (rev xs) = Some (last (filter P xs))"
proof (induction xs rule: rev_induct)
  case (snoc x xs)
  then show ?case by (cases "P x") auto
qed simp

text \<open>C34. Least recently used: releasing the last reference to a buffer puts it at the front of the list, and a
  block that is not cached is given the last buffer of the list that nobody refers to.\<close>

theorem bcache_lru:
  fixes s :: "'a vst_scheme"
  assumes "bio_inv p s" "blist s xs" "set xs = {..<NBUF}" "bof s n = Some b" "owned (babs s) n" "refs (babs s) n = 1"
    "ondisk (babs s) (unat n) = content (babs s) n" "bof s m = None"
  shows "\<exists>s' s''. brelse b s = Inr s' \<and> blist s' (b # remove1 b xs) \<and>
    bget ROOTDEV m s' = Inr (last (filter (\<lambda>c. b_refcnt (bufs s' c) = 0) (b # remove1 b xs)), s'')"
proof -
  have b: "b < NBUF" using bof_iff(1) [OF assms(1)] assms(4) by blast
  have r: "b_refcnt (bufs s b) = 1" using assms(4,6) by (simp add: babs_def word_unat_eq_iff)
  obtain s' where s': "brelse b s = Inr s'" "bio_inv p s'" "bof s' = bof s"
    using brelse_block [OF assms(1,4,5)] assms(7) by blast
  then have eq: "s' = brelsed b s" using brelse_eq [OF assms(1,4,5)] by simp
  have l: "blist s' (b # remove1 b xs)" using brelsed_list [OF assms(2), of b] b assms(3) r by (simp add: eq)
  have st: "set (b # remove1 b xs) = {..<NBUF}" using assms(3) b blistD(2) [OF assms(2,3)] by auto
  have "b_refcnt (bufs s' b) = 0" using brelsed_fields(1) [of b s b] r by (simp add: eq bcore_def)
  then have "find (\<lambda>c. b_refcnt (bufs s' c) = 0) (rev (b # remove1 b xs)) =
      Some (last (filter (\<lambda>c. b_refcnt (bufs s' c) = 0) (b # remove1 b xs)))"
    by (intro find_rev_filter) simp
  with bget_miss [OF s'(2) _ l st] s' l assms(8) show ?thesis by simp
qed

theorem bcache_lru_witness:
  "\<exists>b s xs s' c s''. bread ROOTDEV 7 demo_bio = Inr (b, s) \<and> brelse b s = Inr s' \<and> blist s' (b # remove1 b xs) \<and>
     bget ROOTDEV 8 s' = Inr (c, s'')"
proof -
  have n: "bof demo_bio 7 = None" by (simp add: demo_bio_inv)
  obtain b s where s: "bread ROOTDEV 7 demo_bio = Inr (b, s)" "bio_inv 0 s" "bof s 7 = Some b"
    "\<forall>m. m \<noteq> 7 \<longrightarrow> bof s m = (if bof demo_bio m = Some b then None else bof demo_bio m)"
    "babs s = (babs demo_bio)\<lparr>refs := (refs (babs demo_bio))(7 := 1), owned := (owned (babs demo_bio))(7 := True),
      nfree := nfree (babs demo_bio) - 1\<rparr>"
    using bread_miss [OF demo_bio_inv(1) n] demo_bio_inv(3) by auto
  obtain xs where xs: "blist s xs" "set xs = {..<NBUF}" using bio_quiet(1) [OF s(2)] by (auto simp: quiet_def)
  have "bof s 8 = None" using s(4) by (simp add: demo_bio_inv)
  moreover have "ondisk (babs s) (unat (7 :: u32)) = content (babs s) 7" by (simp add: s(5)) (simp add: babs_def demo_bio_inv)
  ultimately show ?thesis using bcache_lru [OF s(2) xs s(3), of 8] s(1) by (simp add: s(5)) blast
qed

end
