(* ===== verification/Log.thy ===== *)
theory Log
  imports Bio
begin

text \<open>
  The write-ahead log (\<open>kernel/log.c\<close>). The fields \<open>start\<close> and \<open>block[]\<close>, which are only used as block
  numbers, are kept as the 32 bits of the C integers.
\<close>

definition MAXOPBLOCKS :: int where "MAXOPBLOCKS = 10"

definition LOGSIZE :: nat where "LOGSIZE = 30"

definition get32 :: "u8 list \<Rightarrow> nat \<Rightarrow> u32" where
  "get32 d p = of_nat (get_le 4 d p)"

definition put32 :: "u8 list \<Rightarrow> nat \<Rightarrow> u32 \<Rightarrow> u8 list" where
  "put32 d p w = put_le 4 d p (unat w)"

record superblock =
  sb_magic :: u32
  sb_size :: u32
  sb_nblocks :: u32
  sb_ninodes :: u32
  sb_nlog :: u32
  sb_logstart :: u32
  sb_inodestart :: u32
  sb_bmapstart :: u32

record log =
  log_start :: u32
  log_size :: int
  outstanding :: int
  committing :: bool
  log_dev :: u32
  lh_n :: int
  lh_block :: "u32 list"

record lst = vst +
  the_log :: log

definition updl :: "(log \<Rightarrow> log) \<Rightarrow> 'a lst_scheme \<Rightarrow> 'a lst_scheme" where
  "updl f s = s\<lparr>the_log := f (the_log s)\<rparr>"

text \<open>\<open>log.lh.block[i]\<close>.\<close>

definition lh_at :: "nat \<Rightarrow> 'a lst_scheme \<Rightarrow> kerr + u32" where
  "lh_at i s = (if i < LOGSIZE then Inr (lh_block (the_log s) ! i) else Inl Fault)"

text \<open>The block of the log that has the data of entry \<open>tail\<close>.\<close>

definition log_blockno :: "nat \<Rightarrow> 'a lst_scheme \<Rightarrow> u32" where
  "log_blockno i s = log_start (the_log s) + of_nat i + 1"

primrec install_trans_loop :: "nat \<Rightarrow> nat \<Rightarrow> bool \<Rightarrow> 'a lst_scheme \<Rightarrow> kerr + 'a lst_scheme" where
  "install_trans_loop 0 i recovering s = Inr s"
| "install_trans_loop (Suc k) i recovering s =
     bindr (bread (log_dev (the_log s)) (log_blockno i s) s) (\<lambda>(lbuf, s1).
     bindr (lh_at i s1) (\<lambda>n.
     bindr (bread (log_dev (the_log s1)) n s1) (\<lambda>(dbuf, s2).
     bindr (bwrite dbuf (set_bufdata dbuf (bufdata s2 lbuf) s2)) (\<lambda>s3.
     bindr (if recovering then Inr s3 else bunpin dbuf s3) (\<lambda>s4.
     bindr (brelse lbuf s4) (\<lambda>s5.
     bindr (brelse dbuf s5) (\<lambda>s6. install_trans_loop k (i + 1) recovering s6)))))))"

definition install_trans :: "bool \<Rightarrow> 'a lst_scheme \<Rightarrow> kerr + 'a lst_scheme" where
  "install_trans recovering s = install_trans_loop (nat (lh_n (the_log s))) 0 recovering s"

definition read_head :: "'a lst_scheme \<Rightarrow> kerr + 'a lst_scheme" where
  "read_head s =
     bindr (bread (log_dev (the_log s)) (log_start (the_log s)) s) (\<lambda>(buf, s1).
     let d = bufdata s1 buf; n = sint (get32 d 0) in
     if n > int LOGSIZE then Inl Fault
     else brelse buf (updl (\<lambda>l. l\<lparr>lh_n := n,
            lh_block := fold (\<lambda>i bs. bs[i := get32 d (4 + 4 * i)]) [0..<nat n] (lh_block l)\<rparr>) s1))"

definition header :: "int \<Rightarrow> u32 list \<Rightarrow> u8 list \<Rightarrow> u8 list" where
  "header n bs d = fold (\<lambda>i d. put32 d (4 + 4 * i) (bs ! i)) [0..<nat n] (put32 d 0 (word_of_int n))"

definition write_head :: "'a lst_scheme \<Rightarrow> kerr + 'a lst_scheme" where
  "write_head s =
     bindr (bread (log_dev (the_log s)) (log_start (the_log s)) s) (\<lambda>(buf, s1).
     if lh_n (the_log s1) > int LOGSIZE then Inl Fault
     else bindr (bwrite buf (set_bufdata buf (header (lh_n (the_log s1)) (lh_block (the_log s1)) (bufdata s1 buf)) s1))
            (brelse buf))"

definition recover_from_log :: "'a lst_scheme \<Rightarrow> kerr + 'a lst_scheme" where
  "recover_from_log s =
     bindr (read_head s) (\<lambda>s1.
     bindr (install_trans True s1) (\<lambda>s2. write_head (updl (\<lambda>l. l\<lparr>lh_n := 0\<rparr>) s2)))"

definition initlog :: "u32 \<Rightarrow> superblock \<Rightarrow> 'a lst_scheme \<Rightarrow> kerr + 'a lst_scheme" where
  "initlog dev sb s =
     (if 4 + 4 * LOGSIZE \<ge> BSIZE then Inl (Panic ''initlog: too big logheader'')
      else recover_from_log (updl (\<lambda>l. l\<lparr>log_start := sb_logstart sb, log_size := sint (sb_nlog sb), log_dev := dev\<rparr>) s))"

definition begin_op_locked :: "'a lst_scheme \<Rightarrow> kerr + (unit outcome \<times> 'a lst_scheme)" where
  "begin_op_locked s =
     (if committing (the_log s) then bindr (sleep_enter ChanLog LogLock s) (\<lambda>s1. Inr (Sleeps ChanLog, s1))
      else if lh_n (the_log s) + (outstanding (the_log s) + 1) * MAXOPBLOCKS > int LOGSIZE
      then bindr (sleep_enter ChanLog LogLock s) (\<lambda>s1. Inr (Sleeps ChanLog, s1))
      else bindr (release_lk LogLock (updl (\<lambda>l. l\<lparr>outstanding := outstanding l + 1\<rparr>) s)) (\<lambda>s1. Inr (Done (), s1)))"

definition begin_op_try :: "'a lst_scheme \<Rightarrow> kerr + (unit outcome \<times> 'a lst_scheme)" where
  "begin_op_try s = bindr (acquire_lk LogLock s) begin_op_locked"

definition begin_op_resume :: "'a lst_scheme \<Rightarrow> kerr + (unit outcome \<times> 'a lst_scheme)" where
  "begin_op_resume s = bindr (sleep_exit LogLock s) begin_op_locked"

definition begin_op :: "'a lst_scheme \<Rightarrow> kerr + 'a lst_scheme" where
  "begin_op s = bindr (or_block (begin_op_try s)) (\<lambda>(u, s1). Inr s1)"

primrec write_log_loop :: "nat \<Rightarrow> nat \<Rightarrow> 'a lst_scheme \<Rightarrow> kerr + 'a lst_scheme" where
  "write_log_loop 0 i s = Inr s"
| "write_log_loop (Suc k) i s =
     bindr (bread (log_dev (the_log s)) (log_blockno i s) s) (\<lambda>(to, s1).
     bindr (lh_at i s1) (\<lambda>n.
     bindr (bread (log_dev (the_log s1)) n s1) (\<lambda>(from, s2).
     bindr (bwrite to (set_bufdata to (bufdata s2 from) s2)) (\<lambda>s3.
     bindr (brelse from s3) (\<lambda>s4.
     bindr (brelse to s4) (\<lambda>s5. write_log_loop k (i + 1) s5))))))"

definition write_log :: "'a lst_scheme \<Rightarrow> kerr + 'a lst_scheme" where
  "write_log s = write_log_loop (nat (lh_n (the_log s))) 0 s"

definition commit :: "'a lst_scheme \<Rightarrow> kerr + 'a lst_scheme" where
  "commit s =
     (if lh_n (the_log s) > 0 then
        bindr (write_log s) (\<lambda>s1.
        bindr (write_head s1) (\<lambda>s2.
        bindr (install_trans False s2) (\<lambda>s3. write_head (updl (\<lambda>l. l\<lparr>lh_n := 0\<rparr>) s3))))
      else Inr s)"

text \<open>The two critical sections of \<open>end_op\<close>; the first says whether to commit.\<close>

definition end_op_begin :: "'a lst_scheme \<Rightarrow> kerr + (bool \<times> 'a lst_scheme)" where
  "end_op_begin s =
     bindr (acquire_lk LogLock s) (\<lambda>s1.
     let s2 = updl (\<lambda>l. l\<lparr>outstanding := outstanding l - 1\<rparr>) s1 in
     if committing (the_log s2) then Inl (Panic ''log.committing'')
     else if outstanding (the_log s2) = 0
     then bindr (release_lk LogLock (updl (\<lambda>l. l\<lparr>committing := True\<rparr>) s2)) (\<lambda>s3. Inr (True, s3))
     else bindr (wakeup ChanLog s2) (\<lambda>s3. bindr (release_lk LogLock s3) (\<lambda>s4. Inr (False, s4))))"

definition end_op_finish :: "'a lst_scheme \<Rightarrow> kerr + 'a lst_scheme" where
  "end_op_finish s =
     bindr (acquire_lk LogLock s) (\<lambda>s1.
     bindr (wakeup ChanLog (updl (\<lambda>l. l\<lparr>committing := False\<rparr>) s1)) (release_lk LogLock))"

definition end_op :: "'a lst_scheme \<Rightarrow> kerr + 'a lst_scheme" where
  "end_op s =
     bindr (end_op_begin s) (\<lambda>(do_commit, s1).
     if do_commit then bindr (commit s1) end_op_finish else Inr s1)"

definition log_write :: "nat \<Rightarrow> 'a lst_scheme \<Rightarrow> kerr + 'a lst_scheme" where
  "log_write b s =
     bindr (acquire_lk LogLock s) (\<lambda>s1.
     let l = the_log s1 in
     if lh_n l \<ge> int LOGSIZE \<or> lh_n l \<ge> log_size l - 1 then Inl (Panic ''too big a transaction'')
     else if outstanding l < 1 then Inl (Panic ''log_write outside of trans'')
     else
       let i = (case scan (\<lambda>i. lh_block l ! i = b_blockno (bufs s1 b)) 0 (nat (lh_n l)) of Some i \<Rightarrow> i | None \<Rightarrow> nat (lh_n l));
           s2 = updl (\<lambda>l. l\<lparr>lh_block := (lh_block l)[i := b_blockno (bufs s1 b)]\<rparr>) s1 in
       bindr (if i = nat (lh_n l) then bindr (bpin b s2) (\<lambda>s3. Inr (updl (\<lambda>l. l\<lparr>lh_n := lh_n l + 1\<rparr>) s3)) else Inr s2)
         (release_lk LogLock))"


section \<open>Copying blocks\<close>

lemma bio_frame_log:
  assumes "bio_frame s (s' :: 'a lst_scheme)"
  shows "the_log s' = the_log s"
proof -
  have e: "s' = s\<lparr>slocks := slocks s', bufs := bufs s', vd := vd s'\<rparr>" using assms by (simp add: bio_frame_def)
  show ?thesis by (subst e) simp
qed

text \<open>The effect of copying block \<open>a\<close> to block \<open>b\<close>, through to the disk.\<close>

definition copied :: "u32 \<Rightarrow> u32 \<Rightarrow> bview \<Rightarrow> bview" where
  "copied a b v = v\<lparr>content := (content v)(b := content v a), ondisk := (ondisk v)(unat b := content v a),
     hist := hist v @ [(BSIZE * unat b, content v a)]\<rparr>"

definition readable :: "u32 \<Rightarrow> bview \<Rightarrow> bool" where
  "readable n v \<longleftrightarrow> unat n < 2 ^ 31 \<and> \<not> owned v n \<and> refs v n < 2 ^ 32 - 1"

definition counted :: "u32 \<Rightarrow> bview \<Rightarrow> bview" where
  "counted n v = v\<lparr>refs := (refs v)(n := refs v n + 1), owned := (owned v)(n := True), nfree := nfree v - (if refs v n = 0 then 1 else 0)\<rparr>"

definition uncounted :: "u32 \<Rightarrow> bview \<Rightarrow> bview" where
  "uncounted n v = v\<lparr>refs := (refs v)(n := refs v n - 1), owned := (owned v)(n := False), nfree := nfree v + (if refs v n = 1 then 1 else 0)\<rparr>"

lemma bread2:
  fixes s :: "'a vst_scheme"
  assumes inv: "bio_inv p s" and n: "readable a (babs s)" "readable b (babs s)" "a \<noteq> b" "2 \<le> nfree (babs s)"
  shows "\<exists>x s1 y s2. bread ROOTDEV a s = Inr (x, s1) \<and> bread ROOTDEV b s1 = Inr (y, s2) \<and> bio_inv p s2 \<and> bio_frame s s1 \<and> bio_frame s s2 \<and>
    bof s2 a = Some x \<and> bof s2 b = Some y \<and> bufdata s2 x = content (babs s) a \<and> bufdata s2 y = content (babs s) b \<and>
    babs s2 = counted b (counted a (babs s))"
proof -
  obtain x s1 where 1: "bread ROOTDEV a s = Inr (x, s1)" "bio_inv p s1" "bio_frame s s1" "bof s1 a = Some x" "babs s1 = counted a (babs s)"
    using bread_block [OF inv, of a] n by (auto simp: readable_def counted_def)
  have "\<exists>y s2. bread ROOTDEV b s1 = Inr (y, s2) \<and> bio_inv p s2 \<and> bio_frame s1 s2 \<and> bof s2 b = Some y \<and>
    (\<forall>m. 0 < refs (babs s1) m \<longrightarrow> bof s2 m = bof s1 m) \<and> babs s2 = counted b (babs s1)"
    unfolding counted_def using n by (intro bread_block [OF 1(2)]) (auto simp: 1(5) readable_def counted_def)
  then obtain y s2 where 2: "bread ROOTDEV b s1 = Inr (y, s2)" "bio_inv p s2" "bio_frame s1 s2" "bof s2 b = Some y"
    "\<forall>m. 0 < refs (babs s1) m \<longrightarrow> bof s2 m = bof s1 m" "babs s2 = counted b (babs s1)" by blast
  have x: "bof s2 a = Some x" using 2(5) 1(4,5) by (simp add: counted_def)
  have "bufdata s2 x = content (babs s) a" "bufdata s2 y = content (babs s) b"
    using bcache.get_law [OF 2(2) x] bcache.get_law [OF 2(2,4)] 2(6) 1(5) by (simp_all add: counted_def)
  then show ?thesis using 1(1,3) 2(1,2,4) 2(6) [unfolded 1(5)] x bio_frame_trans [OF 1(3) 2(3)] by blast
qed

text \<open>Copying \<open>a\<close>, held in buffer \<open>x\<close>, to \<open>b\<close>, held in buffer \<open>y\<close>.\<close>

lemma bwrite_copy:
  fixes s :: "'a vst_scheme"
  assumes inv: "bio_inv p s" and b: "bof s a = Some x" "bof s b = Some y" "owned (babs s) b"
  shows "\<exists>s'. bwrite y (set_bufdata y (bufdata s x) s) = Inr s' \<and> bio_inv p s' \<and> bof s' = bof s \<and> bio_frame s s' \<and>
    babs s' = copied a b (babs s)"
proof -
  let ?s = "set_bufdata y (bufdata s x) s"
  have c: "bufdata s x = content (babs s) a" by (rule bcache.get_law [OF inv b(1)])
  have p: "bio_inv p ?s" "bof ?s = bof s" "bio_frame s ?s" "babs ?s = (babs s)\<lparr>content := (content (babs s))(b := content (babs s) a)\<rparr>"
    using bcache.put_law [OF inv b(2,3), of "bufdata s x"] bcache.size_law [OF inv b(1)] c by simp_all
  obtain s' where s': "bwrite y ?s = Inr s'" "bio_inv p s'" "bof s' = bof ?s" "bio_frame ?s s'"
    "babs s' = (babs ?s)\<lparr>ondisk := (ondisk (babs ?s))(unat b := content (babs ?s) b),
      hist := hist (babs ?s) @ [(BSIZE * unat b, content (babs ?s) b)]\<rparr>"
    using bwrite_block [OF p(1), of b y] b(2,3) p(2,4) by auto
  then show ?thesis using p bio_frame_trans [OF p(3) s'(4)] by (simp add: copied_def)
qed

text \<open>The buffers of two blocks are released.\<close>

lemma brelse2:
  fixes s :: "'a vst_scheme"
  assumes inv: "bio_inv p s" and b: "bof s a = Some x" "bof s b = Some y" "owned (babs s) a" "owned (babs s) b" "a \<noteq> b"
    and c: "refs (babs s) a = 1 \<Longrightarrow> ondisk (babs s) (unat a) = content (babs s) a"
      "refs (babs s) b = 1 \<Longrightarrow> ondisk (babs s) (unat b) = content (babs s) b"
  shows "\<exists>s1 s2. brelse x s = Inr s1 \<and> brelse y s1 = Inr s2 \<and> bio_inv p s2 \<and> bof s2 = bof s \<and> bio_frame s s2 \<and>
    babs s2 = uncounted b (uncounted a (babs s))"
proof -
  obtain s1 where 1: "brelse x s = Inr s1" "bio_inv p s1" "bof s1 = bof s" "bio_frame s s1" "babs s1 = uncounted a (babs s)"
    using brelse_block [OF inv b(1,3) c(1)] by (auto simp: uncounted_def)
  have "\<exists>s2. brelse y s1 = Inr s2 \<and> bio_inv p s2 \<and> bof s2 = bof s1 \<and> bio_frame s1 s2 \<and> babs s2 = uncounted b (babs s1)"
    unfolding uncounted_def using b c by (intro brelse_block [OF 1(2)]) (auto simp: 1 uncounted_def)
  then show ?thesis using 1 bio_frame_trans by metis
qed

lemma counts_cancel:
  assumes "\<not> owned v a" "\<not> owned v b" "a \<noteq> b" "2 \<le> nfree v"
  shows "uncounted a (uncounted b (copied c d (counted b (counted a v)))) = copied c d v"
    "uncounted b (uncounted a (copied c d (counted b (counted a v)))) = copied c d v"
  using assms by (auto simp: uncounted_def counted_def copied_def fun_eq_iff intro!: bview.equality)

definition unpinned :: "u32 \<Rightarrow> bview \<Rightarrow> bview" where
  "unpinned n v = v\<lparr>refs := (refs v)(n := refs v n - 1), nfree := nfree v + (if refs v n = 1 then 1 else 0)\<rparr>"

lemma counts_cancel_pinned:
  assumes "\<not> owned v a" "\<not> owned v b" "a \<noteq> b" "2 \<le> nfree v" "0 < refs v b"
  shows "uncounted b (uncounted a (unpinned b (copied c d (counted b (counted a v))))) = unpinned b (copied c d v)"
  using assms by (auto simp: uncounted_def counted_def copied_def unpinned_def fun_eq_iff intro!: bview.equality)


section \<open>The loops\<close>

text \<open>A transaction of \<open>n\<close> blocks uses the log blocks from \<open>S\<close>, the header, to \<open>S + n\<close>; the logged blocks are elsewhere. As
  \<open>log_write\<close> keeps \<open>n\<close> below the size of the log, these are blocks of the log.\<close>

definition log_geom :: "u32 \<Rightarrow> nat \<Rightarrow> u32 list \<Rightarrow> bool" where
  "log_geom S n B \<longleftrightarrow> n \<le> LOGSIZE \<and> n \<le> length B \<and> unat S + n < 2 ^ 31 \<and> distinct (take n B) \<and>
     (\<forall>j<n. unat (B ! j) < 2 ^ 31 \<and> (unat (B ! j) < unat S \<or> unat S + n < unat (B ! j)))"

definition view_ok :: "bview \<Rightarrow> bool" where
  "view_ok v \<longleftrightarrow> (\<forall>b. \<not> owned v b \<and> refs v b < 2 ^ 32 - 1) \<and> 2 \<le> nfree v"

lemma view_ok_copied [simp]: "view_ok (copied a b v) = view_ok v"
  by (simp add: view_ok_def copied_def)

lemma view_ok_unpinned [simp]: "view_ok v \<Longrightarrow> view_ok (unpinned b v)"
  by (auto simp: view_ok_def unpinned_def intro: less_imp_diff_less)

definition log_at :: "u32 \<Rightarrow> nat \<Rightarrow> u32" where
  "log_at S j = S + of_nat j + 1"

lemma unat_log_at:
  assumes "unat S + n < 2 ^ 31" "j < n"
  shows "unat (log_at S j) = unat S + j + 1"
proof -
  have "log_at S j = of_nat (unat S + j + 1)" by (simp add: log_at_def)
  also have "unat \<dots> = unat S + j + 1" using assms by (simp add: LOGSIZE_def unat_of_nat take_bit_nat_eq_self del: of_nat_add of_nat_Suc)
  finally show ?thesis .
qed

lemma log_readable:
  assumes "log_geom S n B" "j < n" "view_ok v"
  shows "readable (log_at S j) v" "readable (B ! j) v" "log_at S j \<noteq> B ! j"
proof -
  have u: "unat (log_at S j) = unat S + j + 1" and j: "j < LOGSIZE"
    using assms(1,2) unat_log_at [of S n j] by (auto simp: log_geom_def)
  show "readable (log_at S j) v" "readable (B ! j) v" using assms u j by (auto simp: readable_def log_geom_def view_ok_def)
  have "unat (log_at S j) \<noteq> unat (B ! j)" using u j assms(1,2) by (auto simp: log_geom_def)
  then show "log_at S j \<noteq> B ! j" by auto
qed

text \<open>The state of a log whose first \<open>n\<close> entries are \<open>B\<close>.\<close>

definition log_is :: "u32 \<Rightarrow> nat \<Rightarrow> u32 list \<Rightarrow> 'a lst_scheme \<Rightarrow> bool" where
  "log_is S n B s \<longleftrightarrow> log_dev (the_log s) = ROOTDEV \<and> log_start (the_log s) = S \<and> lh_n (the_log s) = int n \<and>
     lh_block (the_log s) = B"

lemma log_is_frame: "bio_frame s s' \<Longrightarrow> log_is S n B s' = log_is S n B s"
  by (simp add: log_is_def bio_frame_log)

lemma log_isD:
  assumes "log_is S n B s"
  shows "log_dev (the_log s) = ROOTDEV" "log_blockno i s = log_at S i" "i < LOGSIZE \<Longrightarrow> lh_at i s = Inr (B ! i)" "nat (lh_n (the_log s)) = n"
  using assms by (simp_all add: log_is_def log_blockno_def log_at_def lh_at_def)

lemma write_log_step:
  fixes s :: "'a lst_scheme"
  assumes inv: "bio_inv p s" and l: "log_is S n B s" "log_geom S n B" "i < n" and v: "view_ok (babs s)"
  shows "\<exists>s'. write_log_loop (Suc k) i s = write_log_loop k (i + 1) s' \<and> bio_inv p s' \<and> bio_frame s s' \<and>
    babs s' = copied (B ! i) (log_at S i) (babs s)"
proof -
  let ?a = "log_at S i" and ?b = "B ! i" and ?v = "babs s"
  note r = log_readable [OF l(2,3) v]
  have f: "2 \<le> nfree ?v" and o: "\<not> owned ?v ?a" "\<not> owned ?v ?b" and i: "i < LOGSIZE"
    using v l(2,3) by (auto simp: view_ok_def log_geom_def)
  obtain x s1 y s2 where 2: "bread ROOTDEV ?a s = Inr (x, s1)" "bread ROOTDEV ?b s1 = Inr (y, s2)" "bio_inv p s2" "bio_frame s s1"
    "bio_frame s s2" "bof s2 ?a = Some x" "bof s2 ?b = Some y" "bufdata s2 x = content ?v ?a" "bufdata s2 y = content ?v ?b"
    "babs s2 = counted ?b (counted ?a ?v)"
    using bread2 [OF inv r f] by blast
  have "owned (babs s2) ?a" by (simp add: 2(10) counted_def)
  from bwrite_copy [OF 2(3,7,6) this] obtain s3 where 3: "bwrite x (set_bufdata x (bufdata s2 y) s2) = Inr s3" "bio_inv p s3"
    "bof s3 = bof s2" "bio_frame s2 s3" "babs s3 = copied ?b ?a (counted ?b (counted ?a ?v))" unfolding 2(10) by blast
  have ne: "unat ?b \<noteq> unat ?a" using r(3) by (simp add: word_unat_eq_iff)
  have "\<exists>s4 s5. brelse y s3 = Inr s4 \<and> brelse x s4 = Inr s5 \<and> bio_inv p s5 \<and> bof s5 = bof s3 \<and> bio_frame s3 s5 \<and>
    babs s5 = uncounted ?a (uncounted ?b (babs s3))"
    using r(3) ne bcache.free_law [OF inv, of ?b] 2(6,7)
    by (intro brelse2 [OF 3(2)]) (auto simp: 3(3) 3(5) copied_def counted_def)
  then obtain s4 s5 where 5: "brelse y s3 = Inr s4" "brelse x s4 = Inr s5" "bio_inv p s5" "bio_frame s3 s5"
    "babs s5 = copied ?b ?a ?v" using counts_cancel [OF o r(3) f] 3(5) by auto
  have "write_log_loop (Suc k) i s = write_log_loop k (i + 1) s5"
    using 2(1,2) 3(1) 5(1,2) log_isD [OF l(1)] log_isD [of S n B s1] l(1) log_is_frame [OF 2(4)] i by simp
  moreover have "bio_frame s s5" using bio_frame_trans [OF 2(5) bio_frame_trans [OF 3(4) 5(4)]] .
  ultimately show ?thesis using 5 by blast
qed


definition install_view :: "bool \<Rightarrow> u32 \<Rightarrow> u32 list \<Rightarrow> nat \<Rightarrow> bview \<Rightarrow> bview" where
  "install_view recovering S B i v =
     (if recovering then copied (log_at S i) (B ! i) v else unpinned (B ! i) (copied (log_at S i) (B ! i) v))"

lemma install_step:
  fixes s :: "'a lst_scheme"
  assumes inv: "bio_inv p s" and l: "log_is S n B s" "log_geom S n B" "i < n" and v: "view_ok (babs s)"
    and pin: "\<not> recovering \<Longrightarrow> 0 < refs (babs s) (B ! i)"
  shows "\<exists>s'. install_trans_loop (Suc k) i recovering s = install_trans_loop k (i + 1) recovering s' \<and> bio_inv p s' \<and> bio_frame s s' \<and>
    babs s' = install_view recovering S B i (babs s)"
proof -
  let ?a = "log_at S i" and ?b = "B ! i" and ?v = "babs s"
  note r = log_readable [OF l(2,3) v]
  have f: "2 \<le> nfree ?v" and o: "\<not> owned ?v ?a" "\<not> owned ?v ?b" and i: "i < LOGSIZE"
    using v l(2,3) by (auto simp: view_ok_def log_geom_def)
  obtain x s1 y s2 where 2: "bread ROOTDEV ?a s = Inr (x, s1)" "bread ROOTDEV ?b s1 = Inr (y, s2)" "bio_inv p s2" "bio_frame s s1"
    "bio_frame s s2" "bof s2 ?a = Some x" "bof s2 ?b = Some y" "bufdata s2 x = content ?v ?a" "bufdata s2 y = content ?v ?b"
    "babs s2 = counted ?b (counted ?a ?v)"
    using bread2 [OF inv r f] by blast
  have "owned (babs s2) ?b" by (simp add: 2(10) counted_def)
  from bwrite_copy [OF 2(3,6,7) this] obtain s3 where 3: "bwrite y (set_bufdata y (bufdata s2 x) s2) = Inr s3" "bio_inv p s3"
    "bof s3 = bof s2" "bio_frame s2 s3" "babs s3 = copied ?a ?b (counted ?b (counted ?a ?v))" unfolding 2(10) by blast
  let ?w = "if recovering then babs s3 else unpinned ?b (babs s3)"
  obtain s4 where 4: "(if recovering then Inr s3 else bunpin y s3) = Inr s4" "bio_inv p s4" "bof s4 = bof s3" "bio_frame s3 s4" "babs s4 = ?w"
  proof (cases recovering)
    case False
    have "refs (babs s3) ?b = refs ?v ?b + 1" using r(3) by (simp add: 3(5) copied_def counted_def)
    then have "\<exists>s4. bunpin y s3 = Inr s4 \<and> bio_inv p s4 \<and> bof s4 = bof s3 \<and> bio_frame s3 s4 \<and> babs s4 = unpinned ?b (babs s3)"
      unfolding unpinned_def using 3(3) 2(7) pin [OF False] by (intro bunpin_block [OF 3(2)]) simp_all
    then show ?thesis using False that by auto
  qed (use 3(2) that in auto)
  have ne: "unat ?b \<noteq> unat ?a" using r(3) by (simp add: word_unat_eq_iff)
  have "\<exists>s5 s6. brelse x s4 = Inr s5 \<and> brelse y s5 = Inr s6 \<and> bio_inv p s6 \<and> bof s6 = bof s4 \<and> bio_frame s4 s6 \<and>
    babs s6 = uncounted ?b (uncounted ?a (babs s4))"
    using r(3) ne bcache.free_law [OF inv, of ?a] 2(6,7)
    by (intro brelse2 [OF 4(2)]) (auto simp: 3(3) 3(5) 4(3,5) copied_def counted_def unpinned_def split: if_splits)
  then obtain s5 s6 where 6: "brelse x s4 = Inr s5" "brelse y s5 = Inr s6" "bio_inv p s6" "bio_frame s4 s6"
    "babs s6 = install_view recovering S B i ?v"
    using counts_cancel(2) [OF o r(3) f] counts_cancel_pinned [OF o r(3) f] pin 3(5) 4(5) by (auto simp: install_view_def)
  have "install_trans_loop (Suc k) i recovering s = install_trans_loop k (i + 1) recovering s6"
    using 2(1,2) 3(1) 4(1) 6(1,2) log_isD [OF l(1)] log_isD [of S n B s1] l(1) log_is_frame [OF 2(4)] i by simp
  moreover have "bio_frame s s6" using bio_frame_trans [OF 2(5) bio_frame_trans [OF 3(4) bio_frame_trans [OF 4(4) 6(4)]]] .
  ultimately show ?thesis using 6 by blast
qed

lemma write_log_loop_ok:
  fixes s :: "'a lst_scheme"
  assumes "bio_inv p s" "log_is S n B s" "log_geom S n B" "i + k = n" "view_ok (babs s)"
  shows "\<exists>s'. write_log_loop k i s = Inr s' \<and> bio_inv p s' \<and> bio_frame s s' \<and>
    babs s' = fold (\<lambda>j. copied (B ! j) (log_at S j)) [i..<n] (babs s)"
  using assms
proof (induction k arbitrary: i s)
  case (Suc k)
  then have i: "i < n" by simp
  obtain s1 where 1: "write_log_loop (Suc k) i s = write_log_loop k (i + 1) s1" "bio_inv p s1" "bio_frame s s1"
    "babs s1 = copied (B ! i) (log_at S i) (babs s)"
    using write_log_step [OF Suc.prems(1-3) i Suc.prems(5)] by blast
  obtain s' where "write_log_loop k (i + 1) s1 = Inr s'" "bio_inv p s'" "bio_frame s1 s'"
    "babs s' = fold (\<lambda>j. copied (B ! j) (log_at S j)) [i + 1..<n] (babs s1)"
    using Suc.IH [OF 1(2), of "i + 1"] Suc.prems log_is_frame [OF 1(3)] 1(4) by auto
  then show ?case using 1 bio_frame_trans [OF 1(3)] i by (simp add: upt_conv_Cons)
qed simp

lemma install_loop_ok:
  fixes s :: "'a lst_scheme"
  assumes "bio_inv p s" "log_is S n B s" "log_geom S n B" "i + k = n" "view_ok (babs s)"
    "\<And>j. \<not> recovering \<Longrightarrow> i \<le> j \<Longrightarrow> j < n \<Longrightarrow> 0 < refs (babs s) (B ! j)"
  shows "\<exists>s'. install_trans_loop k i recovering s = Inr s' \<and> bio_inv p s' \<and> bio_frame s s' \<and>
    babs s' = fold (install_view recovering S B) [i..<n] (babs s)"
  using assms
proof (induction k arbitrary: i s)
  case (Suc k)
  then have i: "i < n" by simp
  obtain s1 where 1: "install_trans_loop (Suc k) i recovering s = install_trans_loop k (i + 1) recovering s1" "bio_inv p s1" "bio_frame s s1"
    "babs s1 = install_view recovering S B i (babs s)"
    using install_step [OF Suc.prems(1-3) i Suc.prems(5)] Suc.prems(6) i by blast
  have "B ! j \<noteq> B ! i" if "i < j" "j < n" for j
    using Suc.prems(3) that i by (auto simp: log_geom_def distinct_conv_nth)
  then have "0 < refs (babs s1) (B ! j)" if "\<not> recovering" "i + 1 \<le> j" "j < n" for j
    using Suc.prems(6) [of j] that by (simp add: 1(4) install_view_def unpinned_def copied_def)
  moreover have "view_ok (babs s1)" using Suc.prems(5) by (simp add: 1(4) install_view_def)
  ultimately obtain s' where "install_trans_loop k (i + 1) recovering s1 = Inr s'" "bio_inv p s'" "bio_frame s1 s'"
    "babs s' = fold (install_view recovering S B) [i + 1..<n] (babs s1)"
    using Suc.IH [OF 1(2), of "i + 1"] Suc.prems log_is_frame [OF 1(3)] by auto
  then show ?case using 1 bio_frame_trans [OF 1(3)] i by (simp add: upt_conv_Cons)
qed simp


section \<open>The header block\<close>

lemma unat_u32_bound: "unat (w :: u32) < 256 ^ 4"
  using unsigned_less [of w] by simp

lemma length_put32 [simp]: "p + 4 \<le> length d \<Longrightarrow> length (put32 d p w) = length d"
  by (simp add: put32_def)

lemma get_put32:
  "p + 4 \<le> length d \<Longrightarrow> get32 (put32 d p w) p = w"
  "p + 4 \<le> length d \<Longrightarrow> q + 4 \<le> length d \<Longrightarrow> q + 4 \<le> p \<or> p + 4 \<le> q \<Longrightarrow> get32 (put32 d p w) q = get32 d q"
  using unat_u32_bound [of w] by (simp_all add: get32_def put32_def)

lemma header_fields:
  fixes bs :: "u32 list"
  assumes "length d = BSIZE" "m \<le> LOGSIZE"
  defines "h \<equiv> fold (\<lambda>i d. put32 d (4 + 4 * i) (bs ! i)) [0..<m] d"
  shows "length h = BSIZE \<and> get32 h 0 = get32 d 0 \<and> (\<forall>i<m. get32 h (4 + 4 * i) = bs ! i)"
  using assms(2) unfolding h_def
proof (induction m)
  case (Suc m)
  let ?h = "fold (\<lambda>i d. put32 d (4 + 4 * i) (bs ! i)) [0..<m] d"
  have h: "length ?h = BSIZE" "get32 ?h 0 = get32 d 0" "\<And>i. i < m \<Longrightarrow> get32 ?h (4 + 4 * i) = bs ! i" using Suc by simp_all
  have b: "4 + 4 * m + 4 \<le> length ?h" using Suc.prems h(1) by (simp add: LOGSIZE_def BSIZE_def)
  have "get32 (put32 ?h (4 + 4 * m) (bs ! m)) (4 + 4 * i) = bs ! i" if "i < Suc m" for i
  proof (cases "i = m")
    case False
    then have "i < m" using that by simp
    then show ?thesis using get_put32(2) [OF b, of "4 + 4 * i"] b h(3) by simp
  qed (use get_put32(1) [OF b] in simp)
  then show ?case using h b get_put32(2) [OF b, of 0] by simp
qed (use assms(1) in simp)

lemma header_ok:
  assumes "length d = BSIZE" "n \<le> LOGSIZE"
  shows "length (header (int n) bs d) = BSIZE" "sint (get32 (header (int n) bs d) 0) = int n"
    "i < n \<Longrightarrow> get32 (header (int n) bs d) (4 + 4 * i) = bs ! i"
proof -
  have b: "0 + 4 \<le> length d" using assms by (simp add: BSIZE_def)
  have l: "length (put32 d 0 (word_of_int (int n))) = BSIZE" using assms b by simp
  note h = header_fields [OF l assms(2), of bs]
  have "sint (word_of_int (int n) :: u32) = int n"
    using assms(2) by (simp add: LOGSIZE_def signed_of_nat signed_take_bit_int_eq_self)
  then show "length (header (int n) bs d) = BSIZE" "sint (get32 (header (int n) bs d) 0) = int n"
    "i < n \<Longrightarrow> get32 (header (int n) bs d) (4 + 4 * i) = bs ! i"
    using h get_put32(1) [OF b] by (simp_all add: header_def)
qed

definition head_view :: "u32 \<Rightarrow> nat \<Rightarrow> u32 list \<Rightarrow> bview \<Rightarrow> bview" where
  "head_view S n B v = (let d = header (int n) B (content v S) in
     v\<lparr>content := (content v)(S := d), ondisk := (ondisk v)(unat S := d), hist := hist v @ [(BSIZE * unat S, d)]\<rparr>)"

lemma view_ok_head [simp]: "view_ok (head_view S n B v) = view_ok v"
  by (simp add: view_ok_def head_view_def Let_def)

lemma write_head_ok:
  fixes s :: "'a lst_scheme"
  assumes inv: "bio_inv p s" and l: "log_is S n B s" "n \<le> LOGSIZE" "unat S < 2 ^ 31" and v: "view_ok (babs s)"
  shows "\<exists>s'. write_head s = Inr s' \<and> bio_inv p s' \<and> bio_frame s s' \<and> babs s' = head_view S n B (babs s)"
proof -
  have S: "\<not> owned (babs s) S" "refs (babs s) S < 2 ^ 32 - 1" "0 < nfree (babs s)" using v by (auto simp: view_ok_def)
  obtain b s1 s2 s3 where w: "bread ROOTDEV S s = Inr (b, s1)" "bio_frame s s1"
    "bwrite b (set_bufdata b (header (int n) B (bufdata s1 b)) s1) = Inr s2" "brelse b s2 = Inr s3" "bio_inv p s3" "bio_frame s s3"
    "babs s3 = head_view S n B (babs s)"
    using bcache.write_through [OF inv l(3) S, of "header (int n) B"] header_ok(1) [OF _ l(2)] unfolding head_view_def Let_def by blast
  have "the_log s1 = the_log s" by (rule bio_frame_log [OF w(2)])
  then show ?thesis using w l(1,2) by (simp add: write_head_def log_is_def)
qed

lemma updl_simps [simp]:
  "bufs (updl f s) = bufs s" "slocks (updl f s) = slocks s" "vd (updl f s) = vd s" "procs (updl f s) = procs s" "cur (updl f s) = cur s"
  "held (updl f s) = held s" "alone (updl f s) = alone s" "bufdata (updl f s) b = bufdata s b" "the_log (updl f s) = f (the_log s)"
  by (simp_all add: updl_def alone_def no_proc_locks_def bufdata_def)

lemma updl_bio [simp]: "bio_inv p (updl f s) = bio_inv p s" "bof (updl f s) = bof s" "babs (updl f s) = babs s"
proof -
  have c: "caches (updl f s) = caches s" by (simp add: caches_def fun_eq_iff)
  show b: "bof (updl f s) = bof s" by (simp add: bof_def [abs_def] c)
  show "babs (updl f s) = babs s" by (simp add: babs_def b cong: option.case_cong)
  show "bio_inv p (updl f s) = bio_inv p s" by (simp add: bio_inv_def quiet_def blist_def buf_ok_def [abs_def] c)
qed

lemma bio_frame_updl: "bio_frame s s' \<Longrightarrow> bio_frame (updl f s) (updl f s')"
proof -
  assume a: "bio_frame s s'"
  then have e: "s' = s\<lparr>slocks := slocks s', bufs := bufs s', vd := vd s'\<rparr>" by (simp add: bio_frame_def)
  have "updl f s' = (updl f s)\<lparr>slocks := slocks s', bufs := bufs s', vd := vd s'\<rparr>" by (subst e) (simp add: updl_def)
  then show ?thesis using a by (simp add: bio_frame_def)
qed


lemma length_fold_update [simp]: "length (fold (\<lambda>i bs. bs[i := f i]) [0..<n] bs) = length bs"
  by (induction n) simp_all

lemma fold_list_update: "i < length bs \<Longrightarrow> fold (\<lambda>i bs. bs[i := f i]) [0..<n] bs ! i = (if i < n then f i else bs ! i)"
  by (induction n) (auto simp: less_Suc_eq)

text \<open>What \<open>read_head\<close> makes of a header block.\<close>

definition head_n :: "u8 list \<Rightarrow> int" where
  "head_n d = sint (get32 d 0)"

definition head_blocks :: "u8 list \<Rightarrow> u32 list \<Rightarrow> u32 list" where
  "head_blocks d bs = fold (\<lambda>i bs. bs[i := get32 d (4 + 4 * i)]) [0..<nat (head_n d)] bs"

lemma read_head_ok:
  fixes s :: "'a lst_scheme"
  assumes inv: "bio_inv p s" and l: "log_is S m bs s" "unat S < 2 ^ 31" and v: "view_ok (babs s)"
    and n: "head_n (content (babs s) S) = int n" "n \<le> LOGSIZE"
  shows "\<exists>s'. read_head s = Inr s' \<and> bio_inv p s' \<and> babs s' = babs s \<and> log_is S n (head_blocks (content (babs s) S) bs) s' \<and>
    bio_frame (updl (\<lambda>_. the_log s') s) s'"
proof -
  have S: "\<not> owned (babs s) S" "refs (babs s) S < 2 ^ 32 - 1" "0 < nfree (babs s)" using v by (auto simp: view_ok_def)
  obtain b s1 where r: "bread ROOTDEV S s = Inr (b, s1)" "bio_inv p s1" "bio_frame s s1" "bof s1 S = Some b" "babs s1 = counted S (babs s)"
    using bread_block [OF inv l(2) S(1,2)] S(3) by (auto simp: counted_def)
  have d: "bufdata s1 b = content (babs s) S" using bcache.get_law [OF r(2,4)] r(5) by (simp add: counted_def)
  let ?f = "\<lambda>l. l\<lparr>lh_n := int n, lh_block := head_blocks (content (babs s) S) (lh_block l)\<rparr>"
  have "\<exists>s2. brelse b (updl ?f s1) = Inr s2 \<and> bio_inv p s2 \<and> bof s2 = bof (updl ?f s1) \<and> bio_frame (updl ?f s1) s2 \<and>
      babs s2 = uncounted S (babs (updl ?f s1))"
    unfolding uncounted_def using r bcache.free_law [OF inv, of S] by (intro brelse_block) (auto simp: counted_def)
  then obtain s2 where 2: "brelse b (updl ?f s1) = Inr s2" "bio_inv p s2" "bio_frame (updl ?f s1) s2" "babs s2 = uncounted S (counted S (babs s))"
    using r(5) by auto
  have "uncounted S (counted S (babs s)) = babs s"
    using S by (auto simp: uncounted_def counted_def fun_eq_iff intro!: bview.equality)
  moreover have e: "the_log s1 = the_log s" "the_log s2 = ?f (the_log s)"
    using bio_frame_log [OF r(3)] bio_frame_log [OF 2(3)] by simp_all
  moreover have "bio_frame (updl (\<lambda>_. the_log s2) s) s2"
  proof -
    have "bio_frame (updl ?f s) (updl ?f s1)" by (rule bio_frame_updl [OF r(3)])
    from bio_frame_trans [OF this 2(3)] show ?thesis by (simp add: updl_def e)
  qed
  moreover have "read_head s = Inr s2"
    using r(1) 2(1) l(1) n by (simp add: read_head_def log_is_def d Let_def head_n_def head_blocks_def updl_def)
  ultimately show ?thesis using 2 l(1) by (auto simp: log_is_def)
qed

definition recover_view :: "u32 \<Rightarrow> nat \<Rightarrow> u32 list \<Rightarrow> bview \<Rightarrow> bview" where
  "recover_view S n B v = head_view S 0 B (fold (install_view True S B) [0..<n] v)"

definition commit_view :: "u32 \<Rightarrow> nat \<Rightarrow> u32 list \<Rightarrow> bview \<Rightarrow> bview" where
  "commit_view S n B v =
     head_view S 0 B (fold (install_view False S B) [0..<n] (head_view S n B (fold (\<lambda>j. copied (B ! j) (log_at S j)) [0..<n] v)))"

lemma view_ok_folds [simp]:
  "view_ok v \<Longrightarrow> view_ok (fold (install_view r S B) xs v)" "view_ok (fold (\<lambda>j. copied (B ! j) (log_at S j)) xs v) = view_ok v"
  by (induction xs arbitrary: v) (simp_all add: install_view_def)

lemma refs_folds:
  "refs (fold (\<lambda>j. copied (B ! j) (log_at S j)) xs v) = refs v" "refs (head_view S n B v) = refs v"
  by (induction xs arbitrary: v) (simp_all add: copied_def head_view_def Let_def)

lemma log_zero:
  fixes s :: "'a lst_scheme"
  assumes "log_is S n B s"
  shows "log_is S 0 B (updl (\<lambda>l. l\<lparr>lh_n := 0\<rparr>) s)"
  using assms by (simp add: log_is_def)

lemma recover_ok:
  fixes s :: "'a lst_scheme"
  assumes inv: "bio_inv p s" and l: "log_is S m bs s" and v: "view_ok (babs s)"
    and n: "head_n (content (babs s) S) = int n" "log_geom S n (head_blocks (content (babs s) S) bs)"
  shows "\<exists>s'. recover_from_log s = Inr s' \<and> bio_inv p s' \<and> log_is S 0 (head_blocks (content (babs s) S) bs) s' \<and>
    babs s' = recover_view S n (head_blocks (content (babs s) S) bs) (babs s)"
proof -
  let ?B = "head_blocks (content (babs s) S) bs"
  have g: "unat S < 2 ^ 31" "n \<le> LOGSIZE" using n(2) by (auto simp: log_geom_def)
  obtain s1 where 1: "read_head s = Inr s1" "bio_inv p s1" "babs s1 = babs s" "log_is S n ?B s1"
    using read_head_ok [OF inv l g(1) v n(1) g(2)] by blast
  obtain s2 where 2: "install_trans_loop n 0 True s1 = Inr s2" "bio_inv p s2" "bio_frame s1 s2" "babs s2 = fold (install_view True S ?B) [0..<n] (babs s)"
    using install_loop_ok [OF 1(2,4) n(2), of 0 n True] 1(3) v by auto
  let ?s2 = "updl (\<lambda>l. l\<lparr>lh_n := 0\<rparr>) s2"
  have "log_is S 0 ?B ?s2" using 1(4) log_is_frame [OF 2(3)] by (intro log_zero) simp
  moreover from this obtain s' where "write_head ?s2 = Inr s'" "bio_inv p s'" "bio_frame ?s2 s'" "babs s' = head_view S 0 ?B (babs s2)"
    using write_head_ok [of p ?s2 S 0 ?B] 2(2,4) g v by auto
  ultimately show ?thesis
    using 1 2 log_isD(4) [OF 1(4)] log_is_frame by (fastforce simp: recover_from_log_def install_trans_def recover_view_def)
qed

lemma commit_ok:
  fixes s :: "'a lst_scheme"
  assumes inv: "bio_inv p s" and l: "log_is S n B s" "log_geom S n B" "0 < n" and v: "view_ok (babs s)"
    and pin: "\<And>j. j < n \<Longrightarrow> 0 < refs (babs s) (B ! j)"
  shows "\<exists>s'. commit s = Inr s' \<and> bio_inv p s' \<and> log_is S 0 B s' \<and> babs s' = commit_view S n B (babs s) \<and>
    bio_frame (updl (\<lambda>l. l\<lparr>lh_n := 0\<rparr>) s) s'"
proof -
  have g: "unat S < 2 ^ 31" "n \<le> LOGSIZE" using l(2) by (auto simp: log_geom_def)
  obtain s1 where 1: "write_log_loop n 0 s = Inr s1" "bio_inv p s1" "bio_frame s s1"
    "babs s1 = fold (\<lambda>j. copied (B ! j) (log_at S j)) [0..<n] (babs s)"
    using write_log_loop_ok [OF inv l(1,2), of 0 n] v by auto
  have l1: "log_is S n B s1" using l(1) log_is_frame [OF 1(3)] by simp
  obtain s2 where 2: "write_head s1 = Inr s2" "bio_inv p s2" "bio_frame s1 s2" "babs s2 = head_view S n B (babs s1)"
    using write_head_ok [OF 1(2) l1 g(2,1)] 1(4) v by auto
  have l2: "log_is S n B s2" using l1 log_is_frame [OF 2(3)] by simp
  have "\<And>j. j < n \<Longrightarrow> 0 < refs (babs s2) (B ! j)" using pin by (simp add: 2(4) 1(4) refs_folds)
  then obtain s3 where 3: "install_trans_loop n 0 False s2 = Inr s3" "bio_inv p s3" "bio_frame s2 s3"
    "babs s3 = fold (install_view False S B) [0..<n] (babs s2)"
    using install_loop_ok [OF 2(2) l2 l(2), of 0 n False] 2(4) 1(4) v by auto
  let ?z = "updl (\<lambda>l. l\<lparr>lh_n := 0\<rparr>)"
  have l3: "log_is S 0 B (?z s3)" using l2 log_is_frame [OF 3(3)] by (intro log_zero) simp
  obtain s' where s': "write_head (?z s3) = Inr s'" "bio_inv p s'" "bio_frame (?z s3) s'" "babs s' = head_view S 0 B (babs s3)"
    using write_head_ok [of p "?z s3" S 0 B] l3 3(2,4) 2(4) 1(4) g v by auto
  have "bio_frame s s3" using bio_frame_trans [OF bio_frame_trans [OF 1(3) 2(3)] 3(3)] .
  then have "bio_frame (?z s) s'" using bio_frame_trans [OF bio_frame_updl s'(3)] by blast
  moreover have "log_is S 0 B s'" using l3 log_is_frame [OF s'(3)] by simp
  moreover have "commit s = Inr s'"
    using 1(1) 2(1) 3(1) s'(1) l(3) log_isD(4) [OF l(1)] log_isD(4) [OF l2] l(1)
    by (simp add: commit_def write_log_def install_trans_def log_is_def)
  moreover have "babs s' = commit_view S n B (babs s)" by (simp add: commit_view_def s'(4) 3(4) 2(4) 1(4))
  ultimately show ?thesis using s'(2) by blast
qed


section \<open>Crashes\<close>

text \<open>The disk after some writes, in blocks.\<close>

definition apply_writes :: "(nat \<Rightarrow> u8 list) \<Rightarrow> (nat \<times> u8 list) list \<Rightarrow> nat \<Rightarrow> u8 list" where
  "apply_writes D ws = fold (\<lambda>(a, d) D. D(a div BSIZE := d)) ws D"

lemma apply_writes_append: "apply_writes D (xs @ ys) = apply_writes (apply_writes D xs) ys"
  by (simp add: apply_writes_def)

lemma apply_writes_none [simp]: "apply_writes D [] = D"
  by (simp add: apply_writes_def)

lemma apply_writes_one: "apply_writes D ((BSIZE * a, d) # ws) = apply_writes (D(a := d)) ws"
  by (simp add: apply_writes_def BSIZE_def)

definition block_writes :: "(nat \<Rightarrow> nat) \<Rightarrow> (nat \<Rightarrow> u8 list) \<Rightarrow> nat list \<Rightarrow> (nat \<times> u8 list) list" where
  "block_writes f g xs = map (\<lambda>j. (BSIZE * f j, g j)) xs"

lemma apply_block_writes:
  "m \<notin> f ` set xs \<Longrightarrow> apply_writes D (block_writes f g xs) m = D m"
  "j \<in> set xs \<Longrightarrow> inj_on f (set xs) \<Longrightarrow> apply_writes D (block_writes f g xs) (f j) = g j"
proof (induction xs rule: rev_induct)
  case (snoc x xs)
  note e = apply_writes_append apply_writes_one block_writes_def
  { case 1 then show ?case using snoc by (simp add: e) }
  { case 2
    then show ?case using snoc.IH(2) by (cases "f j = f x") (auto simp: e inj_on_def) }
qed (simp_all add: apply_writes_def block_writes_def)

lemma copied_simps:
  "content (copied a b v) = (content v)(b := content v a)" "hist (copied a b v) = hist v @ [(BSIZE * unat b, content v a)]"
  "content (install_view r S B i v) = (content v)(B ! i := content v (log_at S i))"
  "hist (install_view r S B i v) = hist v @ [(BSIZE * unat (B ! i), content v (log_at S i))]"
  by (simp_all add: copied_def install_view_def unpinned_def)

definition commit_writes :: "u32 \<Rightarrow> nat \<Rightarrow> u32 list \<Rightarrow> bview \<Rightarrow> (nat \<times> u8 list) list" where
  "commit_writes S n B v =
     block_writes (\<lambda>j. unat (log_at S j)) (\<lambda>j. content v (B ! j)) [0..<n] @
     [(BSIZE * unat S, header (int n) B (content v S))] @
     block_writes (\<lambda>j. unat (B ! j)) (\<lambda>j. content v (B ! j)) [0..<n] @
     [(BSIZE * unat S, header 0 B (header (int n) B (content v S)))]"

lemma log_at_ne:
  assumes "log_geom S n B" "i < n" "j < n"
  shows "log_at S i \<noteq> B ! j" "log_at S i \<noteq> S" "S \<noteq> B ! j" "log_at S i = log_at S j \<longleftrightarrow> i = j" "B ! i = B ! j \<longleftrightarrow> i = j"
proof -
  have g: "n \<le> LOGSIZE" "unat S + n < 2 ^ 31" "distinct (take n B)" "n \<le> length B"
    "unat (B ! j) < unat S \<or> unat S + n < unat (B ! j)" using assms by (auto simp: log_geom_def)
  have u: "unat (log_at S i) = unat S + i + 1" "unat (log_at S j) = unat S + j + 1"
    using unat_log_at [OF g(2)] g(1) assms by auto
  have "unat (log_at S i) \<noteq> unat (B ! j)" "unat (log_at S i) \<noteq> unat S" "unat S \<noteq> unat (B ! j)" using u g assms by auto
  then show "log_at S i \<noteq> B ! j" "log_at S i \<noteq> S" "S \<noteq> B ! j" by auto
  show "log_at S i = log_at S j \<longleftrightarrow> i = j" using u by (metis add_left_cancel add_right_cancel)
  have "take n B ! i = take n B ! j \<longleftrightarrow> i = j" using g assms by (intro nth_eq_iff_index_eq) auto
  then show "B ! i = B ! j \<longleftrightarrow> i = j" using assms by simp
qed

lemma logged_view:
  fixes v :: bview
  assumes "log_geom S n B" "m \<le> n"
  defines "w \<equiv> fold (\<lambda>j. copied (B ! j) (log_at S j)) [0..<m] v"
  shows "(\<forall>j<m. content w (log_at S j) = content v (B ! j)) \<and> (\<forall>x. x \<notin> log_at S ` {..<m} \<longrightarrow> content w x = content v x) \<and>
    hist w = hist v @ block_writes (\<lambda>j. unat (log_at S j)) (\<lambda>j. content v (B ! j)) [0..<m]"
  using assms(2) unfolding w_def
proof (induction m)
  case (Suc m)
  let ?w = "fold (\<lambda>j. copied (B ! j) (log_at S j)) [0..<m] v"
  have w: "\<And>j. j < m \<Longrightarrow> content ?w (log_at S j) = content v (B ! j)" "\<And>x. x \<notin> log_at S ` {..<m} \<Longrightarrow> content ?w x = content v x"
    "hist ?w = hist v @ block_writes (\<lambda>j. unat (log_at S j)) (\<lambda>j. content v (B ! j)) [0..<m]" using Suc by simp_all
  have "B ! m \<notin> log_at S ` {..<m}" using Suc.prems log_at_ne(1) [OF assms(1), of _ m] by (metis Suc_le_eq imageE lessThan_iff less_trans)
  then have m: "content ?w (B ! m) = content v (B ! m)" by (rule w(2))
  have "log_at S j \<noteq> log_at S m" if "j < m" for j using log_at_ne(4) [OF assms(1), of m j] that Suc.prems by simp
  then show ?case using w m by (auto simp: copied_simps block_writes_def less_Suc_eq lessThan_Suc)
qed (simp add: block_writes_def)

lemma installed_view:
  fixes v :: bview and r :: bool
  assumes "log_geom S n B" "m \<le> n"
  defines "w \<equiv> fold (install_view r S B) [0..<m] v"
  shows "(\<forall>j<m. content w (B ! j) = content v (log_at S j)) \<and> (\<forall>x. x \<notin> (\<lambda>j. B ! j) ` {..<m} \<longrightarrow> content w x = content v x) \<and>
    hist w = hist v @ block_writes (\<lambda>j. unat (B ! j)) (\<lambda>j. content v (log_at S j)) [0..<m]"
  using assms(2) unfolding w_def
proof (induction m)
  case (Suc m)
  let ?w = "fold (install_view r S B) [0..<m] v"
  have w: "\<And>j. j < m \<Longrightarrow> content ?w (B ! j) = content v (log_at S j)" "\<And>x. x \<notin> (\<lambda>j. B ! j) ` {..<m} \<Longrightarrow> content ?w x = content v x"
    "hist ?w = hist v @ block_writes (\<lambda>j. unat (B ! j)) (\<lambda>j. content v (log_at S j)) [0..<m]" using Suc by simp_all
  have "log_at S m \<notin> (\<lambda>j. B ! j) ` {..<m}" using Suc.prems log_at_ne(1) [OF assms(1), of m] by (metis Suc_le_eq imageE lessThan_iff less_trans)
  then have m: "content ?w (log_at S m) = content v (log_at S m)" by (rule w(2))
  have "B ! j \<noteq> B ! m" if "j < m" for j using log_at_ne(5) [OF assms(1), of m j] that Suc.prems by simp
  then show ?case
    using w m by (auto simp: copied_simps block_writes_def less_Suc_eq lessThan_Suc)
qed (simp add: block_writes_def)


lemma commit_hist:
  assumes "log_geom S n B"
  shows "hist (commit_view S n B v) = hist v @ commit_writes S n B v"
proof -
  let ?w1 = "fold (\<lambda>j. copied (B ! j) (log_at S j)) [0..<n] v"
  let ?w2 = "head_view S n B ?w1"
  let ?w3 = "fold (install_view False S B) [0..<n] ?w2"
  note 1 = logged_view [OF assms order_refl, of v] and 3 = installed_view [OF assms order_refl, of False ?w2]
  have S: "S \<notin> log_at S ` {..<n}" using log_at_ne(2) [OF assms] by force
  have S': "S \<notin> (\<lambda>j. B ! j) ` {..<n}" using log_at_ne(3) [OF assms] by force
  have 2: "content ?w2 = (content ?w1)(S := header (int n) B (content v S))" "hist ?w2 = hist ?w1 @ [(BSIZE * unat S, header (int n) B (content v S))]"
    using 1 S by (simp_all add: head_view_def Let_def)
  have "content ?w2 (log_at S j) = content v (B ! j)" if "j < n" for j using 1 that log_at_ne(2) [OF assms that that] by (simp add: 2)
  then have "block_writes (\<lambda>j. unat (B ! j)) (\<lambda>j. content ?w2 (log_at S j)) [0..<n] =
      block_writes (\<lambda>j. unat (B ! j)) (\<lambda>j. content v (B ! j)) [0..<n]" by (simp add: block_writes_def)
  then have "hist ?w3 = hist v @ block_writes (\<lambda>j. unat (log_at S j)) (\<lambda>j. content v (B ! j)) [0..<n] @
     [(BSIZE * unat S, header (int n) B (content v S))] @ block_writes (\<lambda>j. unat (B ! j)) (\<lambda>j. content v (B ! j)) [0..<n]"
    using 1 3 by (simp add: 2)
  moreover have "content ?w3 S = header (int n) B (content v S)" using 3 S' by (simp add: 2)
  ultimately show ?thesis by (simp add: commit_view_def commit_writes_def head_view_def [of S 0] Let_def)
qed

lemma recover_content:
  assumes "log_geom S n B" "x \<noteq> S"
  shows "j < n \<Longrightarrow> x = B ! j \<Longrightarrow> content (recover_view S n B v) x = content v (log_at S j)"
    "x \<notin> set (take n B) \<Longrightarrow> content (recover_view S n B v) x = content v x"
proof -
  note i = installed_view [OF assms(1) order_refl, of True v]
  have c: "content (recover_view S n B v) x = content (fold (install_view True S B) [0..<n] v) x"
    using assms(2) by (simp add: recover_view_def head_view_def Let_def)
  show "j < n \<Longrightarrow> x = B ! j \<Longrightarrow> content (recover_view S n B v) x = content v (log_at S j)" using i c by simp
  assume x: "x \<notin> set (take n B)"
  have "n \<le> length B" using assms(1) by (simp add: log_geom_def)
  with x have "x \<notin> (\<lambda>j. B ! j) ` {..<n}" by (auto simp: in_set_conv_nth)
  then show "content (recover_view S n B v) x = content v x" using i c by simp
qed

lemma take_block_writes: "take k (block_writes f g [0..<n]) = block_writes f g [0..<min k n]"
  by (simp add: block_writes_def take_map min_def)

text \<open>The blocks other than the log blocks that a transaction of \<open>n\<close> blocks uses.\<close>

definition home :: "u32 \<Rightarrow> nat \<Rightarrow> u32 \<Rightarrow> bool" where
  "home S n x \<longleftrightarrow> unat x < unat S \<or> unat S + n < unat x"

lemma log_region:
  assumes "log_geom S n B" "k \<le> n"
  shows "home S n x \<Longrightarrow> unat x \<notin> (\<lambda>j. unat (log_at S j)) ` set [0..<k]" "unat S \<notin> (\<lambda>j. unat (log_at S j)) ` set [0..<k]"
    "inj_on (\<lambda>j. unat (log_at S j)) (set [0..<k])" "inj_on (\<lambda>j. unat (B ! j)) (set [0..<k])"
    "unat S \<notin> (\<lambda>j. unat (B ! j)) ` set [0..<k]" "j < n \<Longrightarrow> unat (log_at S j) \<notin> (\<lambda>j. unat (B ! j)) ` set [0..<k]"
    "x \<notin> set (take n B) \<Longrightarrow> unat x \<notin> (\<lambda>j. unat (B ! j)) ` set [0..<k]"
proof -
  have u: "unat (log_at S j) = unat S + j + 1" "j < LOGSIZE" if "j < n" for j
    using assms(1) that unat_log_at [of S n j] by (auto simp: log_geom_def)
  have ne: "B ! i \<noteq> B ! j" if "i \<noteq> j" "i < n" "j < n" for i j using log_at_ne(5) [OF assms(1) that(2,3)] that(1) by simp
  have S: "S \<noteq> B ! j" "i < n \<Longrightarrow> log_at S i \<noteq> B ! j" if "j < n" for i j using log_at_ne(1,3) [OF assms(1) _ that] that by auto
  show "home S n x \<Longrightarrow> unat x \<notin> (\<lambda>j. unat (log_at S j)) ` set [0..<k]" "unat S \<notin> (\<lambda>j. unat (log_at S j)) ` set [0..<k]"
    "inj_on (\<lambda>j. unat (log_at S j)) (set [0..<k])"
  proof -
    show "unat x \<notin> (\<lambda>j. unat (log_at S j)) ` set [0..<k]" if "home S n x"
    proof (intro notI, elim imageE)
      fix j assume "unat x = unat (log_at S j)" "j \<in> set [0..<k]"
      then show False using that assms(2) u [of j] by (simp add: home_def)
    qed
    show "unat S \<notin> (\<lambda>j. unat (log_at S j)) ` set [0..<k]"
      using assms(2) by (intro notI, elim imageE) (simp add: u(1))
    show "inj_on (\<lambda>j. unat (log_at S j)) (set [0..<k])" using assms(2) by (simp add: inj_on_def u(1))
  qed
  show "inj_on (\<lambda>j. unat (B ! j)) (set [0..<k])"
  proof (rule inj_onI)
    fix i j assume "i \<in> set [0..<k]" "j \<in> set [0..<k]" "unat (B ! i) = unat (B ! j)"
    then show "i = j" using ne [of i j] assms(2) by (auto simp: word_unat_eq_iff)
  qed
  have at: "\<exists>j<n. y = B ! j" if "unat y \<in> (\<lambda>j. unat (B ! j)) ` set [0..<k]" for y
  proof -
    obtain j where j: "unat y = unat (B ! j)" "j < k" using \<open>unat y \<in> _\<close> by auto
    then have "y = B ! j" by (simp add: word_unat_eq_iff)
    then show ?thesis using j(2) assms(2) by (metis less_le_trans)
  qed
  show "unat S \<notin> (\<lambda>j. unat (B ! j)) ` set [0..<k]" using at [of S] S(1) by blast
  show "unat (log_at S j) \<notin> (\<lambda>j. unat (B ! j)) ` set [0..<k]" if "j < n" using at [of "log_at S j"] S(2) that by blast
  have "n \<le> length B" using assms(1) by (simp add: log_geom_def)
  then show "x \<notin> set (take n B) \<Longrightarrow> unat x \<notin> (\<lambda>j. unat (B ! j)) ` set [0..<k]"
    using at [of x] by (auto simp: in_set_conv_nth)
qed

lemma crash_disk:
  fixes v :: bview and old :: "nat \<Rightarrow> u8 list"
  assumes g: "log_geom S n B"
  defines "D \<equiv> \<lambda>k. apply_writes old (take k (commit_writes S n B v))"
  shows "k \<le> n \<Longrightarrow> D k (unat S) = old (unat S) \<and> (\<forall>x. home S n x \<longrightarrow> D k (unat x) = old (unat x))"
    "n < k \<Longrightarrow> k \<le> 2 * n + 1 \<Longrightarrow> D k (unat S) = header (int n) B (content v S) \<and> (\<forall>j<n. D k (unat (log_at S j)) = content v (B ! j)) \<and>
      (\<forall>x. home S n x \<and> x \<notin> set (take n B) \<longrightarrow> D k (unat x) = old (unat x))"
    "2 * n + 1 < k \<Longrightarrow> D k (unat S) = header 0 B (header (int n) B (content v S)) \<and>
      (\<forall>x. home S n x \<longrightarrow> D k (unat x) = (if x \<in> set (take n B) then content v x else old (unat x)))"
proof -
  let ?L = "\<lambda>k. block_writes (\<lambda>j. unat (log_at S j)) (\<lambda>j. content v (B ! j)) [0..<k]"
  let ?H = "\<lambda>k. block_writes (\<lambda>j. unat (B ! j)) (\<lambda>j. content v (B ! j)) [0..<k]"
  let ?h = "header (int n) B (content v S)"
  let ?D1 = "(apply_writes old (?L n))(unat S := ?h)"
  have len: "length (?L n) = n" "length (?H n) = n" by (simp_all add: block_writes_def)
  note e = commit_writes_def take_block_writes apply_writes_append apply_writes_one
  { assume k: "k \<le> n"
    then have "D k = apply_writes old (?L k)" by (simp add: D_def e len min_def)
    then show "D k (unat S) = old (unat S) \<and> (\<forall>x. home S n x \<longrightarrow> D k (unat x) = old (unat x))"
      using log_region(1,2) [OF g k] by (simp add: apply_block_writes(1)) }
  { assume k: "n < k" "k \<le> 2 * n + 1"
    then have m: "k - n - 1 \<le> n" by simp
    have "D k = apply_writes ?D1 (?H (k - n - 1))" using k m by (simp add: D_def e len min_def take_Cons' Suc_diff_Suc)
    moreover have "unat (log_at S j) \<noteq> unat S" if "j < n" for j using log_at_ne(2) [OF g that that] by (simp add: word_unat_eq_iff)
    moreover have "apply_writes old (?L n) (unat (log_at S j)) = content v (B ! j)" if "j < n" for j
      using apply_block_writes(2) [OF _ log_region(3) [OF g order_refl], of j] that by simp
    ultimately show "D k (unat S) = ?h \<and> (\<forall>j<n. D k (unat (log_at S j)) = content v (B ! j)) \<and>
      (\<forall>x. home S n x \<and> x \<notin> set (take n B) \<longrightarrow> D k (unat x) = old (unat x))"
      using log_region(5,6,7) [OF g m] log_region(1,3) [OF g order_refl]
      by (auto simp: apply_block_writes home_def) }
  { assume k: "2 * n + 1 < k"
    then have "D k = (apply_writes ?D1 (?H n))(unat S := header 0 B ?h)" by (simp add: D_def e len)
    moreover have "apply_writes ?D1 (?H n) (unat x) = content v x" if "x \<in> set (take n B)" for x
    proof -
      obtain j where j: "j < n" "x = B ! j" using \<open>x \<in> set (take n B)\<close> g by (auto simp: in_set_conv_nth log_geom_def)
      then show ?thesis using apply_block_writes(2) [OF _ log_region(4) [OF g order_refl], of j] by simp
    qed
    ultimately show "D k (unat S) = header 0 B ?h \<and>
      (\<forall>x. home S n x \<longrightarrow> D k (unat x) = (if x \<in> set (take n B) then content v x else old (unat x)))"
      using log_region(7) [OF g order_refl] log_region(1) [OF g order_refl] by (auto simp: apply_block_writes(1) home_def) }
qed


text \<open>After a reboot: nothing is cached but what is on the disk, and the log is as in the zeroed memory
  of the kernel.\<close>

definition rebooted :: "nat \<Rightarrow> (nat \<Rightarrow> u8 list) \<Rightarrow> 'a lst_scheme \<Rightarrow> bool" where
  "rebooted q D t \<longleftrightarrow> bio_inv q t \<and> (\<forall>x. refs (babs t) x = 0) \<and> 2 \<le> nfree (babs t) \<and> ondisk (babs t) = D \<and>
     lh_n (the_log t) = 0 \<and> length (lh_block (the_log t)) = LOGSIZE"

lemma head_blocks_header:
  assumes "length d = BSIZE" "n \<le> LOGSIZE" "length bs = LOGSIZE" "n \<le> length B"
  shows "head_n (header (int n) B d) = int n" "take n (head_blocks (header (int n) B d) bs) = take n B"
    "length (head_blocks (header (int n) B d) bs) = LOGSIZE"
proof -
  show h: "head_n (header (int n) B d) = int n" using header_ok(2) [OF assms(1,2)] by (simp add: head_n_def)
  show l: "length (head_blocks (header (int n) B d) bs) = LOGSIZE" using assms(3) by (simp add: head_blocks_def)
  show "take n (head_blocks (header (int n) B d) bs) = take n B"
  proof (rule nth_equalityI)
    fix i assume "i < length (take n (head_blocks (header (int n) B d) bs))"
    then have "i < n" "i < length bs" using assms l by auto
    then show "take n (head_blocks (header (int n) B d) bs) ! i = take n B ! i"
      using header_ok(3) [OF assms(1,2), of i B] by (simp add: head_blocks_def h fold_list_update)
  qed (use l assms in simp)
qed

lemma log_geom_cong:
  assumes "log_geom S n B" "take n B' = take n B" "length B' = LOGSIZE"
  shows "log_geom S n B'"
proof -
  have "B' ! j = B ! j" if "j < n" for j using arg_cong [OF assms(2), of "\<lambda>xs. xs ! j"] that by simp
  then show ?thesis using assms by (simp add: log_geom_def)
qed

lemma initlog_ok:
  fixes t :: "'a lst_scheme"
  assumes r: "rebooted q D t" and h: "head_n (D (unat S)) = int n"
    and g: "log_geom S n (head_blocks (D (unat S)) (lh_block (the_log t)))" and sb: "sb_logstart sb = S"
  defines "B \<equiv> head_blocks (D (unat S)) (lh_block (the_log t))"
  shows "\<exists>t'. initlog ROOTDEV sb t = Inr t' \<and> bio_inv q t' \<and> log_is S 0 B t' \<and> babs t' = recover_view S n B (babs t) \<and>
    (\<forall>x. content (babs t) x = D (unat x))"
proof -
  have inv: "bio_inv q t" and rf: "\<And>x. refs (babs t) x = 0" and D: "ondisk (babs t) = D" using r by (simp_all add: rebooted_def)
  have c: "content (babs t) x = D (unat x)" "\<not> owned (babs t) x" for x using bcache.free_law [OF inv rf, of x] D by auto
  have v: "view_ok (babs t)" using r c(2) by (auto simp: rebooted_def view_ok_def)
  let ?t = "updl (\<lambda>l. l\<lparr>log_start := S, log_size := sint (sb_nlog sb), log_dev := ROOTDEV\<rparr>) t"
  have l: "log_is S 0 (lh_block (the_log t)) ?t" using r by (simp add: log_is_def rebooted_def)
  obtain t' where "recover_from_log ?t = Inr t'" "bio_inv q t'" "log_is S 0 B t'" "babs t' = recover_view S n B (babs t)"
    using recover_ok [of q ?t S 0 "lh_block (the_log t)" n] inv l v h g unfolding B_def by (auto simp: c)
  then show ?thesis using c sb by (auto simp: initlog_def LOGSIZE_def BSIZE_def)
qed

lemma dblock_length: "length (ondisk (babs s) n) = BSIZE"
  by (simp add: babs_def dblock_def)

lemma content_length:
  assumes "bio_inv p s"
  shows "length (content (babs s) n) = BSIZE"
proof (cases "bof s n")
  case None
  then show ?thesis by (simp add: babs_def dblock_def)
next
  case (Some b)
  then show ?thesis using bcache.get_law [OF assms Some] bcache.size_law [OF assms Some] by simp
qed

lemma crash_recovers:
  fixes t :: "'a lst_scheme"
  assumes g: "log_geom S n B" and len: "length (content v S) = BSIZE" and empty: "head_n (old (unat S)) = 0" and sb: "sb_logstart sb = S"
    and t: "rebooted q (apply_writes old (take k (commit_writes S n B v))) t" and x: "home S n x"
  shows "\<exists>t'. initlog ROOTDEV sb t = Inr t' \<and>
    content (babs t') x = (if n < k \<and> x \<in> set (take n B) then content v x else old (unat x))"
proof -
  let ?D = "apply_writes old (take k (commit_writes S n B v))" and ?bs = "lh_block (the_log t)" and ?h = "header (int n) B (content v S)"
  have bl: "length ?bs = LOGSIZE" using t by (simp add: rebooted_def)
  have n: "n \<le> LOGSIZE" "n \<le> length B" and xS: "x \<noteq> S" using g x by (auto simp: log_geom_def home_def)
  have z: "log_geom S 0 (head_blocks d ?bs)" for d using g bl by (simp add: log_geom_def)
  note cd = crash_disk [OF g, where old = old and v = v and k = k]
  consider "k \<le> n" | "n < k" "k \<le> 2 * n + 1" | "2 * n + 1 < k" by linarith
  then show ?thesis
  proof cases
    case 1
    then have "head_n (?D (unat S)) = int 0" using cd(1) empty by simp
    from initlog_ok [OF t this z sb] obtain t' where "initlog ROOTDEV sb t = Inr t'"
      "babs t' = recover_view S 0 (head_blocks (?D (unat S)) ?bs) (babs t)" "content (babs t) x = ?D (unat x)" by blast
    then show ?thesis using recover_content(2) [OF z xS] cd(1) [OF 1] x 1 by auto
  next
    case 2
    let ?B = "head_blocks ?h ?bs"
    have hb: "?D (unat S) = ?h" and j: "\<And>j. j < n \<Longrightarrow> ?D (unat (log_at S j)) = content v (B ! j)" using cd(2) [OF 2] by auto
    note hh = head_blocks_header [OF len n(1) bl n(2)]
    have gB: "log_geom S n ?B" by (rule log_geom_cong [OF g hh(2,3)])
    obtain t' where t': "initlog ROOTDEV sb t = Inr t'" "babs t' = recover_view S n ?B (babs t)" "\<And>x. content (babs t) x = ?D (unat x)"
      using initlog_ok [OF t _ _ sb, of n] gB unfolding hb hh(1) by blast
    show ?thesis
    proof (cases "x \<in> set (take n B)")
      case True
      then obtain j where j': "j < n" "take n ?B ! j = x" unfolding hh(2) [symmetric] using n hh(3) by (auto simp: in_set_conv_nth)
      then have "content (babs t') x = content (babs t) (log_at S j)" using recover_content(1) [OF gB xS j'(1)] t'(2) by simp
      moreover have "B ! j = x" using j' unfolding hh(2) by simp
      ultimately show ?thesis using t' j [OF j'(1)] True 2 by simp
    next
      case False
      then have "content (babs t') x = content (babs t) x" using recover_content(2) [OF gB xS] t'(2) hh(2) by simp
      then show ?thesis using t' False cd(2) [OF 2] x by auto
    qed
  next
    case 3
    have "length ?h = BSIZE" by (rule header_ok(1) [OF len n(1)])
    from header_ok(2) [OF this, of 0 B] have "head_n (?D (unat S)) = int 0" using cd(3) [OF 3] by (simp add: head_n_def)
    from initlog_ok [OF t this z sb] obtain t' where "initlog ROOTDEV sb t = Inr t'"
      "babs t' = recover_view S 0 (head_blocks (?D (unat S)) ?bs) (babs t)" "content (babs t) x = ?D (unat x)" by blast
    then show ?thesis using recover_content(2) [OF z xS] cd(3) [OF 3] x 3 by auto
  qed
qed


section \<open>Logging a block\<close>

lemma updl_held [simp]: "updl f (s\<lparr>held := h\<rparr>) = (updl f s)\<lparr>held := h\<rparr>"
  by (simp add: updl_def)

lemma bpin_eq: "BcacheLock \<notin> held s \<Longrightarrow> bpin b s = Inr (updb b (\<lambda>r. r\<lparr>b_refcnt := b_refcnt r + 1\<rparr>) s)"
  by (simp add: bpin_def acquire_lk_def release_lk_def)

lemma log_write_new:
  fixes s :: "'a lst_scheme"
  assumes inv: "bio_inv p s" and b: "bof s x = Some b" "owned (babs s) x" "refs (babs s) x < 2 ^ 32 - 1"
    and l: "lh_n (the_log s) = int n" "n < LOGSIZE" "int n < log_size (the_log s) - 1" "1 \<le> outstanding (the_log s)"
    and x: "x \<notin> set (take n (lh_block (the_log s)))" "length (lh_block (the_log s)) = LOGSIZE"
  shows "\<exists>s'. log_write b s = Inr s' \<and> bio_inv p s' \<and> bof s' = bof s \<and>
    the_log s' = (the_log s)\<lparr>lh_n := int n + 1, lh_block := (lh_block (the_log s))[n := x]\<rparr> \<and>
    babs s' = (babs s)\<lparr>refs := (refs (babs s))(x := refs (babs s) x + 1)\<rparr>"
proof -
  note q = quietD [OF bio_quiet(1) [OF inv]] and ob = owned_buf [OF inv b(1,2)]
  let ?f = "\<lambda>l. l\<lparr>lh_block := (lh_block l)[n := x]\<rparr>" and ?g = "\<lambda>l. l\<lparr>lh_n := lh_n l + 1\<rparr>"
  let ?r = "b_refcnt (bufs s b) + 1"
  let ?s1 = "updb b (\<lambda>r. r\<lparr>b_refcnt := ?r\<rparr>) (updl ?f s)"
  have "\<And>i. i < n \<Longrightarrow> lh_block (the_log s) ! i \<noteq> x" using x l(2) by (auto simp: in_set_conv_nth)
  then have "scan (\<lambda>i. lh_block (the_log s) ! i = x) 0 n = None" by (auto simp: scan_None)
  then have "log_write b s = Inr (updl ?g (updb b (\<lambda>r. r\<lparr>b_refcnt := b_refcnt r + 1\<rparr>) (updl ?f s)))"
    using q(2) l ob(10) by (simp add: log_write_def acquire_lk_def release_lk_def Let_def bpin_eq)
  also have "updb b (\<lambda>r. r\<lparr>b_refcnt := b_refcnt r + 1\<rparr>) (updl ?f s) = ?s1" by (simp add: updb_def)
  finally have lw: "log_write b s = Inr (updl ?g ?s1)" .
  have u: "unat ?r = refs (babs s) x + 1" using b(3) babs_at(2) [OF b(1)] by (simp add: unat_word_ariths)
  then have nz: "?r \<noteq> 0" by (metis add_is_0 unat_0 zero_neq_one)
  have "bio_inv p ?s1 \<and> bof ?s1 = bof (updl ?f s) \<and> babs ?s1 = (babs (updl ?f s))\<lparr>refs := (refs (babs (updl ?f s)))(x := unat ?r),
      nfree := nfree (babs (updl ?f s)) - (if refs (babs (updl ?f s)) x = 0 then 1 else 0) + (if ?r = 0 then 1 else 0)\<rparr>"
    using refcnt_block [of p "updl ?f s" x b ?r] inv b(1) nz by simp
  then show ?thesis using lw u nz ob(4) l(1) by (auto simp: updb_def)
qed

section \<open>Properties\<close>

text \<open>C1. Transactions are atomic: \<open>commit\<close> returns, and if the machine stops after any number of its writes to
  the disk, the recovery at the next boot leaves every block but the log blocks that the transaction uses with its old contents if the
  header had not been written yet, and the whole transaction in place otherwise. The blocks of the transaction may be any that
  are not log blocks it uses.\<close>

theorem log_crash_atomic:
  fixes s :: "'a lst_scheme"
  assumes "bio_inv p s" "log_is S n B s" "log_geom S n B" "0 < n" "view_ok (babs s)"
    "\<And>j. j < n \<Longrightarrow> 0 < refs (babs s) (B ! j)" "head_n (ondisk (babs s) (unat S)) = 0" "sb_logstart sb = S"
  shows "\<exists>s' ws. commit s = Inr s' \<and> hist (babs s') = hist (babs s) @ ws \<and>
    (\<forall>k q t. rebooted q (apply_writes (ondisk (babs s)) (take k ws)) (t :: 'b lst_scheme) \<longrightarrow>
      (\<exists>t'. initlog ROOTDEV sb t = Inr t' \<and> (\<forall>x. home S n x \<longrightarrow> content (babs t') x =
        (if n < k \<and> x \<in> set (take n B) then content (babs s) x else ondisk (babs s) (unat x)))))"
proof -
  obtain s' where s': "commit s = Inr s'" "babs s' = commit_view S n B (babs s)"
    using commit_ok [OF assms(1-6)] by blast
  let ?ws = "commit_writes S n B (babs s)"
  have rec: "\<exists>t'. initlog ROOTDEV sb t = Inr t' \<and> content (babs t') x =
        (if n < k \<and> x \<in> set (take n B) then content (babs s) x else ondisk (babs s) (unat x))"
    if "rebooted q (apply_writes (ondisk (babs s)) (take k ?ws)) t" "home S n x" for k q x and t :: "'b lst_scheme"
    by (rule crash_recovers [OF assms(3) content_length [OF assms(1)] assms(7,8) that])
  have "home S n (B ! 0)" using assms(3,4) by (auto simp: log_geom_def home_def)
  then have "\<exists>t'. initlog ROOTDEV sb t = Inr t' \<and> (\<forall>x. home S n x \<longrightarrow> content (babs t') x =
        (if n < k \<and> x \<in> set (take n B) then content (babs s) x else ondisk (babs s) (unat x)))"
    if "rebooted q (apply_writes (ondisk (babs s)) (take k ?ws)) t" for k q and t :: "'b lst_scheme"
  proof -
    note r = that
    obtain t' where t': "initlog ROOTDEV sb t = Inr t'" using rec [OF r \<open>home S n (B ! 0)\<close>] by blast
    have "content (babs t') x = (if n < k \<and> x \<in> set (take n B) then content (babs s) x else ondisk (babs s) (unat x))"
      if "home S n x" for x using rec [OF r that] t' by auto
    then show ?thesis using t' by blast
  qed
  moreover have "hist (babs s') = hist (babs s) @ ?ws" using commit_hist [OF assms(3)] s'(2) by simp
  ultimately show ?thesis using s'(1) by blast
qed

definition demo_log :: log where
  "demo_log = \<lparr>log_start = 2, log_size = 30, outstanding = 1, committing = False, log_dev = 1, lh_n = 0, lh_block = replicate LOGSIZE 0\<rparr>"

definition demo_lst :: lst where
  "demo_lst = binit (vst.extend (demo_vst\<lparr>cur := Some 0, bufs := (\<lambda>i. \<lparr>b_valid = False, b_disk = False, b_dev = 0, b_blockno = 0, b_refcnt = 0,
     b_prev = 0, b_next = 0\<rparr>), vd := demo_disk\<lparr>vq := (vq demo_disk)\<lparr>medium := \<lambda>_. 0\<rparr>\<rparr>\<rparr>) (lst.fields demo_log))"

lemma binit_loop_log: "the_log (binit_loop k b s) = the_log s"
  by (induction k arbitrary: b s) (simp_all add: initsleeplock_def upd_sl_def link_front_def updb_def Let_def)

lemma demo_lst_inv: "bio_inv 0 demo_lst" "bof demo_lst = (\<lambda>_. None)" "nfree (babs demo_lst) = 30" "the_log demo_lst = demo_log"
  "vd demo_lst = demo_disk\<lparr>vq := (vq demo_disk)\<lparr>medium := \<lambda>_. 0\<rparr>\<rparr>"
proof -
  have "driver_idle (demo_disk\<lparr>vq := (vq demo_disk)\<lparr>medium := \<lambda>_. 0\<rparr>\<rparr>)"
    using demo_driver_idle by (simp add: driver_idle_def driver_ready_def)
  then have "bio_inv 0 demo_lst \<and> blist demo_lst (rev [0..<NBUF]) \<and> bof demo_lst = (\<lambda>_. None) \<and> nfree (babs demo_lst) = NBUF"
    unfolding demo_lst_def using demo_vst_simps(1-3)
    by (intro binit_inv) (simp_all add: vst.defs lst.defs fresh_bufs_def bufdata_def alone_def no_proc_locks_def demo_disk_def)
  then show "bio_inv 0 demo_lst" "bof demo_lst = (\<lambda>_. None)" "nfree (babs demo_lst) = 30" by (auto simp: NBUF_def)
  show "the_log demo_lst = demo_log" by (simp add: demo_lst_def binit_def binit_loop_log updb_def vst.defs lst.defs)
  show "vd demo_lst = demo_disk\<lparr>vq := (vq demo_disk)\<lparr>medium := \<lambda>_. 0\<rparr>\<rparr>"
    by (simp add: demo_lst_def binit_def binit_loop_fields vst.defs lst.defs)
qed


definition demo_sb :: superblock where
  "demo_sb = \<lparr>sb_magic = 0x10203040, sb_size = 10000, sb_nblocks = 9950, sb_ninodes = 200, sb_nlog = 30, sb_logstart = 2,
     sb_inodestart = 32, sb_bmapstart = 45\<rparr>"

lemma demo_lst_disk: "ondisk (babs demo_lst) n = replicate BSIZE 0" "content (babs demo_lst) x = replicate BSIZE 0"
  "refs (babs demo_lst) x = 0" "\<not> owned (babs demo_lst) x"
proof -
  show o: "ondisk (babs demo_lst) n = replicate BSIZE 0"
    by (intro nth_equalityI) (simp_all add: babs_def dblock_def demo_lst_inv)
  show "content (babs demo_lst) x = replicate BSIZE 0"
    by (intro nth_equalityI) (simp_all add: babs_def dblock_def demo_lst_inv)
  show "refs (babs demo_lst) x = 0" "\<not> owned (babs demo_lst) x" by (simp_all add: babs_def demo_lst_inv)
qed

text \<open>Block 32, which holds the first inodes, is changed in a transaction.\<close>

lemma demo_transaction:
  "\<exists>b s1 s2 s3. bread ROOTDEV 32 demo_lst = Inr (b, s1) \<and> log_write b (set_bufdata b (replicate BSIZE 9) s1) = Inr s2 \<and>
     brelse b s2 = Inr s3 \<and> bio_inv 0 s3 \<and> log_is 2 1 ((replicate LOGSIZE 0)[0 := 32]) s3 \<and> view_ok (babs s3) \<and> refs (babs s3) 32 = 1 \<and>
     content (babs s3) 32 = replicate BSIZE 9 \<and> ondisk (babs s3) = ondisk (babs demo_lst)"
proof -
  obtain b s1 where 1: "bread ROOTDEV 32 demo_lst = Inr (b, s1)" "bio_inv 0 s1" "bio_frame demo_lst s1" "bof s1 32 = Some b"
    "babs s1 = counted 32 (babs demo_lst)"
    using bread_block [OF demo_lst_inv(1), of 32] demo_lst_inv(3) demo_lst_disk by (auto simp: counted_def)
  let ?s = "set_bufdata b (replicate BSIZE 9) s1"
  have p: "bio_inv 0 ?s" "bof ?s = bof s1" "bio_frame s1 ?s" "babs ?s = (babs s1)\<lparr>content := (content (babs s1))(32 := replicate BSIZE 9)\<rparr>"
    using set_bufdata_block [OF 1(2,4)] by (simp_all add: 1(5) counted_def)
  have l: "the_log ?s = demo_log" using bio_frame_log [OF 1(3)] bio_frame_log [OF p(3)] demo_lst_inv(4) by simp
  have "\<exists>s'. log_write b ?s = Inr s' \<and> bio_inv 0 s' \<and> bof s' = bof ?s \<and>
    the_log s' = (the_log ?s)\<lparr>lh_n := int 0 + 1, lh_block := (lh_block (the_log ?s))[0 := 32]\<rparr> \<and>
    babs s' = (babs ?s)\<lparr>refs := (refs (babs ?s))(32 := refs (babs ?s) 32 + 1)\<rparr>"
    by (rule log_write_new [OF p(1)]) (simp_all add: 1 p l counted_def demo_lst_disk demo_log_def LOGSIZE_def)
  then obtain s2 where 2: "log_write b ?s = Inr s2" "bio_inv 0 s2" "bof s2 = bof ?s"
    "the_log s2 = demo_log\<lparr>lh_n := 1, lh_block := (replicate LOGSIZE 0)[0 := 32]\<rparr>"
    "babs s2 = (babs ?s)\<lparr>refs := (refs (babs ?s))(32 := 2)\<rparr>"
    using l by (auto simp: demo_log_def p(4) 1(5) counted_def demo_lst_disk numeral_2_eq_2)
  have "\<exists>s'. brelse b s2 = Inr s' \<and> bio_inv 0 s' \<and> bof s' = bof s2 \<and> bio_frame s2 s' \<and> babs s' = uncounted 32 (babs s2)"
    unfolding uncounted_def by (rule brelse_block [OF 2(2)]) (simp_all add: 1 2(3,5) p counted_def)
  then obtain s3 where 3: "brelse b s2 = Inr s3" "bio_inv 0 s3" "bio_frame s2 s3" "babs s3 = uncounted 32 (babs s2)" by blast
  have "log_is 2 1 ((replicate LOGSIZE 0)[0 := 32]) s3"
    using bio_frame_log [OF 3(3)] 2(4) by (simp add: log_is_def demo_log_def ROOTDEV_def)
  moreover have "view_ok (babs s3)"
    by (simp add: view_ok_def 3(4) uncounted_def 2(5) p(4) 1(5) counted_def demo_lst_disk demo_lst_inv(3))
  moreover have "refs (babs s3) 32 = 1" "content (babs s3) 32 = replicate BSIZE 9" "ondisk (babs s3) = ondisk (babs demo_lst)"
    by (simp_all add: 3(4) uncounted_def 2(5) p(4) 1(5) counted_def)
  ultimately show ?thesis using 1(1) 2(1) 3(1,2) by blast
qed

theorem log_crash_atomic_witness:
  "\<exists>b s1 s2 s3 s' ws t'. bread ROOTDEV 32 demo_lst = Inr (b, s1) \<and> log_write b (set_bufdata b (replicate BSIZE 9) s1) = Inr s2 \<and>
     brelse b s2 = Inr s3 \<and> commit s3 = Inr s' \<and> hist (babs s') = hist (babs s3) @ ws \<and>
     initlog ROOTDEV demo_sb demo_lst = Inr t' \<and> content (babs t') 32 = replicate BSIZE 0"
proof -
  let ?B = "(replicate LOGSIZE 0)[0 := 32 :: u32]"
  obtain b s1 s2 s3 where d: "bread ROOTDEV 32 demo_lst = Inr (b, s1)" "log_write b (set_bufdata b (replicate BSIZE 9) s1) = Inr s2"
     "brelse b s2 = Inr s3" "bio_inv 0 s3" "log_is 2 1 ?B s3" "view_ok (babs s3)" "refs (babs s3) 32 = 1"
     "ondisk (babs s3) = ondisk (babs demo_lst)" using demo_transaction by blast
  have e: "take 1 ?B = [32]" by (simp add: LOGSIZE_def numeral_eq_Suc)
  then have g: "log_geom 2 1 ?B" by (simp add: log_geom_def LOGSIZE_def)
  have h: "head_n (ondisk (babs s3) (unat (2 :: u32))) = 0"
    by (simp add: d(8) demo_lst_disk head_n_def get32_def get_le_def segment_def BSIZE_def eval_nat_numeral)
  obtain s' ws where w: "commit s3 = Inr s'" "hist (babs s') = hist (babs s3) @ ws"
    "\<And>k q t. rebooted q (apply_writes (ondisk (babs s3)) (take k ws)) (t :: lst) \<Longrightarrow>
      \<exists>t'. initlog ROOTDEV demo_sb t = Inr t' \<and> (\<forall>x. home 2 1 x \<longrightarrow> content (babs t') x =
        (if 1 < k \<and> x \<in> set (take 1 ?B) then content (babs s3) x else ondisk (babs s3) (unat x)))"
    using log_crash_atomic [OF d(4,5) g _ d(6) _ h, of demo_sb] d(7) by (auto simp: demo_sb_def LOGSIZE_def)
  have "rebooted 0 (apply_writes (ondisk (babs s3)) (take 0 ws)) demo_lst"
    by (simp add: rebooted_def demo_lst_inv demo_lst_disk d(8) demo_log_def)
  from w(3) [OF this] obtain t' where "initlog ROOTDEV demo_sb demo_lst = Inr t'" "content (babs t') 32 = replicate BSIZE 0"
    by (auto simp: home_def LOGSIZE_def d(8) demo_lst_disk)
  then show ?thesis using d(1-3) w(1,2) by blast
qed

end
