(* ===== verification/Fs.thy ===== *)
theory Fs
  imports Log
begin

text \<open>
  The file system (\<open>kernel/fs.c\<close>): the superblock, the bitmap of blocks, inodes on disk and in memory, the contents of
  inodes, directories and path names. A pointer to an inode is its index in the table, a null pointer \<open>None\<close>. The 32
  bits of \<open>int\<close> and \<open>uint\<close> results are a word.
\<close>

definition BPB :: nat where "BPB = BSIZE * 8"

definition IPB :: nat where "IPB = 16"

definition NDIRECT :: nat where "NDIRECT = 12"

definition NINDIRECT :: nat where "NINDIRECT = BSIZE div 4"

definition MAXFILE :: nat where "MAXFILE = NDIRECT + NINDIRECT"

definition DIRSIZ :: nat where "DIRSIZ = 14"

definition NINODE :: nat where "NINODE = 50"

definition FSMAGIC :: u32 where "FSMAGIC = 0x10203040"

definition ROOTINO :: u32 where "ROOTINO = 1"

definition T_DIR :: u16 where "T_DIR = 1"

definition T_FILE :: u16 where "T_FILE = 2"

definition T_DEVICE :: u16 where "T_DEVICE = 3"

record inode =
  i_dev :: u32
  i_inum :: u32
  i_ref :: int
  i_valid :: bool
  i_type :: u16
  i_major :: u16
  i_minor :: u16
  i_nlink :: u16
  i_size :: u32
  i_addrs :: "u32 list"

record ist = lst +
  sb :: superblock
  itable :: "nat \<Rightarrow> inode"

definition updi :: "nat \<Rightarrow> (inode \<Rightarrow> inode) \<Rightarrow> 'a ist_scheme \<Rightarrow> 'a ist_scheme" where
  "updi i f s = s\<lparr>itable := (itable s)(i := f (itable s i))\<rparr>"

definition get16 :: "u8 list \<Rightarrow> nat \<Rightarrow> u16" where
  "get16 d p = of_nat (get_le 2 d p)"

definition put16 :: "u8 list \<Rightarrow> nat \<Rightarrow> u16 \<Rightarrow> u8 list" where
  "put16 d p w = put_le 2 d p (unat w)"

section \<open>Superblock\<close>

definition superblock_of :: "u8 list \<Rightarrow> superblock" where
  "superblock_of d = \<lparr>sb_magic = get32 d 0, sb_size = get32 d 4, sb_nblocks = get32 d 8, sb_ninodes = get32 d 12,
     sb_nlog = get32 d 16, sb_logstart = get32 d 20, sb_inodestart = get32 d 24, sb_bmapstart = get32 d 28\<rparr>"

definition readsb :: "u32 \<Rightarrow> 'a ist_scheme \<Rightarrow> kerr + 'a ist_scheme" where
  "readsb dev s =
     bindr (bread dev 1 s) (\<lambda>(bp, s1).
     brelse bp (s1\<lparr>sb := superblock_of (bufdata s1 bp)\<rparr>))"

definition fsinit :: "u32 \<Rightarrow> 'a ist_scheme \<Rightarrow> kerr + 'a ist_scheme" where
  "fsinit dev s =
     bindr (readsb dev s) (\<lambda>s1.
     if sb_magic (sb s1) \<noteq> FSMAGIC then Inl (Panic ''invalid file system'') else initlog dev (sb s1) s1)"

section \<open>Blocks\<close>

definition BBLOCK :: "nat \<Rightarrow> superblock \<Rightarrow> u32" where
  "BBLOCK b q = of_nat (b div BPB) + sb_bmapstart q"

definition bzero :: "u32 \<Rightarrow> u32 \<Rightarrow> 'a ist_scheme \<Rightarrow> kerr + 'a ist_scheme" where
  "bzero dev bno s =
     bindr (bread dev bno s) (\<lambda>(bp, s1).
     bindr (log_write bp (set_bufdata bp (replicate BSIZE 0) s1)) (brelse bp))"

text \<open>The test and the change of bit \<open>bi\<close> of a bitmap block.\<close>

definition bit_clear :: "u8 list \<Rightarrow> nat \<Rightarrow> bool" where
  "bit_clear d bi \<longleftrightarrow> d ! (bi div 8) AND push_bit (bi mod 8) 1 = 0"

definition set_bit_at :: "nat \<Rightarrow> u8 list \<Rightarrow> u8 list" where
  "set_bit_at bi d = d[bi div 8 := d ! (bi div 8) OR push_bit (bi mod 8) 1]"

definition clear_bit_at :: "nat \<Rightarrow> u8 list \<Rightarrow> u8 list" where
  "clear_bit_at bi d = d[bi div 8 := d ! (bi div 8) AND NOT (push_bit (bi mod 8) 1)]"

text \<open>The loop over the blocks of the bitmap; \<open>b\<close> is the first block number of the next one.\<close>

primrec balloc_loop :: "nat \<Rightarrow> nat \<Rightarrow> u32 \<Rightarrow> 'a ist_scheme \<Rightarrow> kerr + (u32 \<times> 'a ist_scheme)" where
  "balloc_loop 0 b dev s =
     bindr (printf (''balloc: out of blocks'' @ [CHR 0x0A]) [] s) (\<lambda>s1. Inr (0, s1))"
| "balloc_loop (Suc k) b dev s =
     bindr (bread dev (BBLOCK b (sb s)) s) (\<lambda>(bp, s1).
     case scan (bit_clear (bufdata s1 bp)) 0 (min BPB (unat (sb_size (sb s1)) - b)) of
       Some bi \<Rightarrow>
         bindr (log_write bp (set_bufdata bp (set_bit_at bi (bufdata s1 bp)) s1)) (\<lambda>s2.
         bindr (brelse bp s2) (\<lambda>s3.
         bindr (bzero dev (of_nat (b + bi)) s3) (\<lambda>s4. Inr (of_nat (b + bi), s4))))
     | None \<Rightarrow> bindr (brelse bp s1) (balloc_loop k (b + BPB) dev))"

definition balloc :: "u32 \<Rightarrow> 'a ist_scheme \<Rightarrow> kerr + (u32 \<times> 'a ist_scheme)" where
  "balloc dev s = balloc_loop ((unat (sb_size (sb s)) + BPB - 1) div BPB) 0 dev s"

definition bfree :: "u32 \<Rightarrow> u32 \<Rightarrow> 'a ist_scheme \<Rightarrow> kerr + 'a ist_scheme" where
  "bfree dev b s =
     bindr (bread dev (BBLOCK (unat b) (sb s)) s) (\<lambda>(bp, s1).
     let bi = unat b mod BPB in
     if bit_clear (bufdata s1 bp) bi then Inl (Panic ''freeing free block'')
     else bindr (log_write bp (set_bufdata bp (clear_bit_at bi (bufdata s1 bp)) s1)) (brelse bp))"

section \<open>Inodes\<close>

definition IBLOCK :: "u32 \<Rightarrow> superblock \<Rightarrow> u32" where
  "IBLOCK i q = of_nat (unat i div IPB) + sb_inodestart q"

text \<open>The place of an inode in its block; an inode has 64 bytes.\<close>

definition dinode_off :: "u32 \<Rightarrow> nat" where
  "dinode_off i = 64 * (unat i mod IPB)"

definition iinit_loop :: "nat \<Rightarrow> 'a ist_scheme \<Rightarrow> 'a ist_scheme" where
  "iinit_loop n s = fold (\<lambda>i. initsleeplock (InodeLock i)) [0..<n] s"

definition iinit :: "'a ist_scheme \<Rightarrow> 'a ist_scheme" where
  "iinit s = iinit_loop NINODE s"

definition iget :: "u32 \<Rightarrow> u32 \<Rightarrow> 'a ist_scheme \<Rightarrow> kerr + (nat \<times> 'a ist_scheme)" where
  "iget dev inum s =
     bindr (acquire_lk ItableLock s) (\<lambda>s1.
     case scan (\<lambda>i. i_ref (itable s1 i) > 0 \<and> i_dev (itable s1 i) = dev \<and> i_inum (itable s1 i) = inum) 0 NINODE of
       Some i \<Rightarrow>
         bindr (release_lk ItableLock (updi i (\<lambda>r. r\<lparr>i_ref := i_ref r + 1\<rparr>) s1)) (\<lambda>s2. Inr (i, s2))
     | None \<Rightarrow>
         (case scan (\<lambda>i. i_ref (itable s1 i) = 0) 0 NINODE of
            None \<Rightarrow> Inl (Panic ''iget: no inodes'')
          | Some i \<Rightarrow>
              bindr (release_lk ItableLock
                (updi i (\<lambda>r. r\<lparr>i_dev := dev, i_inum := inum, i_ref := 1, i_valid := False\<rparr>) s1)) (\<lambda>s2. Inr (i, s2))))"

primrec ialloc_loop :: "nat \<Rightarrow> nat \<Rightarrow> u32 \<Rightarrow> u16 \<Rightarrow> 'a ist_scheme \<Rightarrow> kerr + (nat option \<times> 'a ist_scheme)" where
  "ialloc_loop 0 inum dev ty s =
     bindr (printf (''ialloc: no inodes'' @ [CHR 0x0A]) [] s) (\<lambda>s1. Inr (None, s1))"
| "ialloc_loop (Suc k) inum dev ty s =
     bindr (bread dev (IBLOCK (of_nat inum) (sb s)) s) (\<lambda>(bp, s1).
     let off = dinode_off (of_nat inum) in
     if get16 (bufdata s1 bp) off = 0 then
       bindr (log_write bp (set_bufdata bp (put16 (overlay (bufdata s1 bp) off (replicate 64 0)) off ty) s1)) (\<lambda>s2.
       bindr (brelse bp s2) (\<lambda>s3.
       bindr (iget dev (of_nat inum) s3) (\<lambda>(ip, s4). Inr (Some ip, s4))))
     else bindr (brelse bp s1) (ialloc_loop k (inum + 1) dev ty))"

definition ialloc :: "u32 \<Rightarrow> u16 \<Rightarrow> 'a ist_scheme \<Rightarrow> kerr + (nat option \<times> 'a ist_scheme)" where
  "ialloc dev ty s = ialloc_loop (unat (sb_ninodes (sb s)) - 1) 1 dev ty s"

text \<open>The fields of an inode on disk.\<close>

definition put_addrs :: "u32 list \<Rightarrow> nat \<Rightarrow> u8 list \<Rightarrow> u8 list" where
  "put_addrs as off d = fold (\<lambda>k x. put32 x (off + 4 * k) (as ! k)) [0..<NDIRECT + 1] d"

definition get_addrs :: "u8 list \<Rightarrow> nat \<Rightarrow> u32 list" where
  "get_addrs d off = map (\<lambda>k. get32 d (off + 4 * k)) [0..<NDIRECT + 1]"

definition put_dinode :: "inode \<Rightarrow> nat \<Rightarrow> u8 list \<Rightarrow> u8 list" where
  "put_dinode r off d =
     (let d1 = put16 d off (i_type r); d2 = put16 d1 (off + 2) (i_major r); d3 = put16 d2 (off + 4) (i_minor r);
          d4 = put16 d3 (off + 6) (i_nlink r); d5 = put32 d4 (off + 8) (i_size r)
      in put_addrs (i_addrs r) (off + 12) d5)"

definition get_dinode :: "u8 list \<Rightarrow> nat \<Rightarrow> inode \<Rightarrow> inode" where
  "get_dinode d off r = r\<lparr>i_type := get16 d off, i_major := get16 d (off + 2), i_minor := get16 d (off + 4),
     i_nlink := get16 d (off + 6), i_size := get32 d (off + 8), i_addrs := get_addrs d (off + 12)\<rparr>"

definition iupdate :: "nat \<Rightarrow> 'a ist_scheme \<Rightarrow> kerr + 'a ist_scheme" where
  "iupdate i s =
     bindr (bread (i_dev (itable s i)) (IBLOCK (i_inum (itable s i)) (sb s)) s) (\<lambda>(bp, s1).
     bindr (log_write bp (set_bufdata bp (put_dinode (itable s1 i) (dinode_off (i_inum (itable s1 i))) (bufdata s1 bp)) s1))
       (brelse bp))"

definition idup :: "nat \<Rightarrow> 'a ist_scheme \<Rightarrow> kerr + (nat \<times> 'a ist_scheme)" where
  "idup i s =
     bindr (acquire_lk ItableLock s) (\<lambda>s1.
     bindr (release_lk ItableLock (updi i (\<lambda>r. r\<lparr>i_ref := i_ref r + 1\<rparr>) s1)) (\<lambda>s2. Inr (i, s2)))"

text \<open>The part of \<open>ilock\<close> after \<open>acquiresleep\<close>.\<close>

definition ilock_read :: "nat \<Rightarrow> 'a ist_scheme \<Rightarrow> kerr + 'a ist_scheme" where
  "ilock_read i s =
     (if i_valid (itable s i) then Inr s
      else bindr (bread (i_dev (itable s i)) (IBLOCK (i_inum (itable s i)) (sb s)) s) (\<lambda>(bp, s1).
        let s2 = updi i (get_dinode (bufdata s1 bp) (dinode_off (i_inum (itable s1 i)))) s1 in
        bindr (brelse bp s2) (\<lambda>s3.
        let s4 = updi i (\<lambda>r. r\<lparr>i_valid := True\<rparr>) s3 in
        if i_type (itable s4 i) = 0 then Inl (Panic ''ilock: no type'') else Inr s4)))"

definition ilock :: "nat option \<Rightarrow> 'a ist_scheme \<Rightarrow> kerr + 'a ist_scheme" where
  "ilock ip s =
     (case ip of None \<Rightarrow> Inl (Panic ''ilock'')
      | Some i \<Rightarrow>
          if i_ref (itable s i) < 1 then Inl (Panic ''ilock'')
          else bindr (acquiresleep (InodeLock i) s) (ilock_read i))"

definition iunlock :: "nat option \<Rightarrow> 'a ist_scheme \<Rightarrow> kerr + 'a ist_scheme" where
  "iunlock ip s =
     (case ip of None \<Rightarrow> Inl (Panic ''iunlock'')
      | Some i \<Rightarrow>
          bindr (holdingsleep (InodeLock i) s) (\<lambda>(h, s1).
          if \<not> h \<or> i_ref (itable s1 i) < 1 then Inl (Panic ''iunlock'')
          else releasesleep (InodeLock i) s1))"

text \<open>The loops of \<open>itrunc\<close> over the direct blocks and the entries of the indirect block.\<close>

primrec itrunc_direct :: "nat \<Rightarrow> nat \<Rightarrow> nat \<Rightarrow> 'a ist_scheme \<Rightarrow> kerr + 'a ist_scheme" where
  "itrunc_direct 0 j i s = Inr s"
| "itrunc_direct (Suc k) j i s =
     (if i_addrs (itable s i) ! j \<noteq> 0 then
        bindr (bfree (i_dev (itable s i)) (i_addrs (itable s i) ! j) s) (\<lambda>s1.
        itrunc_direct k (j + 1) i (updi i (\<lambda>r. r\<lparr>i_addrs := (i_addrs r)[j := 0]\<rparr>) s1))
      else itrunc_direct k (j + 1) i s)"

primrec itrunc_indirect :: "nat \<Rightarrow> nat \<Rightarrow> nat \<Rightarrow> nat \<Rightarrow> 'a ist_scheme \<Rightarrow> kerr + 'a ist_scheme" where
  "itrunc_indirect 0 j bp i s = Inr s"
| "itrunc_indirect (Suc k) j bp i s =
     (let a = get32 (bufdata s bp) (4 * j) in
      if a \<noteq> 0 then bindr (bfree (i_dev (itable s i)) a s) (itrunc_indirect k (j + 1) bp i)
      else itrunc_indirect k (j + 1) bp i s)"

definition itrunc :: "nat \<Rightarrow> 'a ist_scheme \<Rightarrow> kerr + 'a ist_scheme" where
  "itrunc i s =
     bindr (itrunc_direct NDIRECT 0 i s) (\<lambda>s1.
     bindr (if i_addrs (itable s1 i) ! NDIRECT \<noteq> 0 then
         bindr (bread (i_dev (itable s1 i)) (i_addrs (itable s1 i) ! NDIRECT) s1) (\<lambda>(bp, s2).
         bindr (itrunc_indirect NINDIRECT 0 bp i s2) (\<lambda>s3.
         bindr (brelse bp s3) (\<lambda>s4.
         bindr (bfree (i_dev (itable s4 i)) (i_addrs (itable s4 i) ! NDIRECT) s4) (\<lambda>s5.
         Inr (updi i (\<lambda>r. r\<lparr>i_addrs := (i_addrs r)[NDIRECT := 0]\<rparr>) s5)))))
       else Inr s1) (\<lambda>s6.
     iupdate i (updi i (\<lambda>r. r\<lparr>i_size := 0\<rparr>) s6)))"

definition iput :: "nat \<Rightarrow> 'a ist_scheme \<Rightarrow> kerr + 'a ist_scheme" where
  "iput i s =
     bindr (acquire_lk ItableLock s) (\<lambda>s1.
     bindr (if i_ref (itable s1 i) = 1 \<and> i_valid (itable s1 i) \<and> i_nlink (itable s1 i) = 0 then
         bindr (acquiresleep (InodeLock i) s1) (\<lambda>s2.
         bindr (release_lk ItableLock s2) (\<lambda>s3.
         bindr (itrunc i s3) (\<lambda>s4.
         bindr (iupdate i (updi i (\<lambda>r. r\<lparr>i_type := 0\<rparr>) s4)) (\<lambda>s5.
         bindr (releasesleep (InodeLock i) (updi i (\<lambda>r. r\<lparr>i_valid := False\<rparr>) s5)) (acquire_lk ItableLock)))))
       else Inr s1) (\<lambda>s6.
     release_lk ItableLock (updi i (\<lambda>r. r\<lparr>i_ref := i_ref r - 1\<rparr>) s6)))"

definition iunlockput :: "nat option \<Rightarrow> 'a ist_scheme \<Rightarrow> kerr + 'a ist_scheme" where
  "iunlockput ip s =
     bindr (iunlock ip s) (\<lambda>s1. case ip of None \<Rightarrow> Inl Fault | Some i \<Rightarrow> iput i s1)"

section \<open>Contents\<close>

text \<open>A block pointer of the inode, allocated if it is null.\<close>

definition bmap_slot :: "nat \<Rightarrow> nat \<Rightarrow> 'a ist_scheme \<Rightarrow> kerr + (u32 \<times> 'a ist_scheme)" where
  "bmap_slot i k s =
     (let addr = i_addrs (itable s i) ! k in
      if addr = 0 then
        bindr (balloc (i_dev (itable s i)) s) (\<lambda>(addr1, s1).
        if addr1 = 0 then Inr (0, s1) else Inr (addr1, updi i (\<lambda>r. r\<lparr>i_addrs := (i_addrs r)[k := addr1]\<rparr>) s1))
      else Inr (addr, s))"

text \<open>The entry \<open>j\<close> of the indirect block in buffer \<open>bp\<close>, allocated if it is null.\<close>

definition bmap_entry :: "nat \<Rightarrow> nat \<Rightarrow> nat \<Rightarrow> 'a ist_scheme \<Rightarrow> kerr + (u32 \<times> 'a ist_scheme)" where
  "bmap_entry i bp j s =
     (let a = get32 (bufdata s bp) (4 * j) in
      if a = 0 then
        bindr (balloc (i_dev (itable s i)) s) (\<lambda>(a1, s1).
        if a1 \<noteq> 0 then
          bindr (log_write bp (set_bufdata bp (put32 (bufdata s1 bp) (4 * j) a1) s1)) (\<lambda>s2. Inr (a1, s2))
        else Inr (a1, s1))
      else Inr (a, s))"

definition bmap :: "nat \<Rightarrow> nat \<Rightarrow> 'a ist_scheme \<Rightarrow> kerr + (u32 \<times> 'a ist_scheme)" where
  "bmap i bn s =
     (if bn < NDIRECT then bmap_slot i bn s
      else let bn1 = bn - NDIRECT in
        if bn1 < NINDIRECT then
          bindr (bmap_slot i NDIRECT s) (\<lambda>(addr, s1).
          if addr = 0 then Inr (0, s1)
          else bindr (bread (i_dev (itable s1 i)) addr s1) (\<lambda>(bp, s2).
            bindr (bmap_entry i bp bn1 s2) (\<lambda>(r, s3).
            bindr (brelse bp s3) (\<lambda>s4. Inr (r, s4)))))
        else Inl (Panic ''bmap: out of range''))"

record stat =
  st_dev :: u32
  st_ino :: u32
  st_type :: u16
  st_nlink :: u16
  st_size :: u64

definition stati :: "nat \<Rightarrow> 'a ist_scheme \<Rightarrow> stat" where
  "stati i s = (let r = itable s i in
     \<lparr>st_dev = i_dev r, st_ino = i_inum r, st_type = i_type r, st_nlink = i_nlink r, st_size = ucast (i_size r)\<rparr>)"

text \<open>Where \<open>readi\<close> copies to and \<open>writei\<close> from: a user or kernel address, or a local variable of the caller, which is
  the list of its bytes: those written so far, or those still to be read.\<close>

datatype place = UserAddr u64 | KernAddr u64 | Local "u8 list"

definition copy_to :: "place \<Rightarrow> u8 list \<Rightarrow> 'a pst_scheme \<Rightarrow> kerr + ((int \<times> place) \<times> 'a pst_scheme)" where
  "copy_to pl src s =
     (case pl of
        UserAddr a \<Rightarrow> bindr (either_copyout True a src s) (\<lambda>(r, s1). Inr ((r, UserAddr (a + of_nat (length src))), s1))
      | KernAddr a \<Rightarrow> bindr (either_copyout False a src s) (\<lambda>(r, s1). Inr ((r, KernAddr (a + of_nat (length src))), s1))
      | Local bs \<Rightarrow> Inr ((0, Local (bs @ src)), s))"

definition copy_from :: "place \<Rightarrow> nat \<Rightarrow> 'a pst_scheme \<Rightarrow> kerr + ((int \<times> u8 list \<times> place) \<times> 'a pst_scheme)" where
  "copy_from pl m s =
     (case pl of
        UserAddr a \<Rightarrow> bindr (either_copyin True a m s) (\<lambda>((r, bs), s1). Inr ((r, bs, UserAddr (a + of_nat m)), s1))
      | KernAddr a \<Rightarrow> bindr (either_copyin False a m s) (\<lambda>((r, bs), s1). Inr ((r, bs, KernAddr (a + of_nat m)), s1))
      | Local bs \<Rightarrow> if m \<le> length bs then Inr ((0, take m bs, Local (drop m bs)), s) else Inl Fault)"

function readi_loop :: "nat \<Rightarrow> nat \<Rightarrow> nat \<Rightarrow> nat \<Rightarrow> place \<Rightarrow> 'a ist_scheme \<Rightarrow> kerr + ((u32 \<times> place) \<times> 'a ist_scheme)" where
  "readi_loop i off n tot dst s =
     (if tot < n then
        bindr (bmap i (off div BSIZE) s) (\<lambda>(addr, s1).
        if addr = 0 then Inr ((of_nat tot, dst), s1)
        else bindr (bread (i_dev (itable s1 i)) addr s1) (\<lambda>(bp, s2).
          let m = min (n - tot) (BSIZE - off mod BSIZE) in
          bindr (copy_to dst (segment (bufdata s2 bp) (off mod BSIZE) m) s2) (\<lambda>((r, dst1), s3).
          bindr (brelse bp s3) (\<lambda>s4.
          if r = - 1 then Inr ((- 1, dst), s4) else readi_loop i (off + m) n (tot + m) dst1 s4))))
      else Inr ((of_nat tot, dst), s))"
  by pat_completeness auto
termination
  by (relation "measure (\<lambda>(i, off, n, tot, dst, s). n - tot)") (auto simp: BSIZE_def)

declare readi_loop.simps [simp del]

definition readi :: "nat \<Rightarrow> place \<Rightarrow> u32 \<Rightarrow> u32 \<Rightarrow> 'a ist_scheme \<Rightarrow> kerr + ((u32 \<times> place) \<times> 'a ist_scheme)" where
  "readi i dst off n s =
     (let size = i_size (itable s i) in
      if off > size \<or> off + n < off then Inr ((0, dst), s)
      else readi_loop i (unat off) (unat (if off + n > size then size - off else n)) 0 dst s)"

text \<open>The loop of \<open>writei\<close> returns the number of bytes written and the offset it has reached.\<close>

function writei_loop :: "nat \<Rightarrow> nat \<Rightarrow> nat \<Rightarrow> nat \<Rightarrow> place \<Rightarrow> 'a ist_scheme \<Rightarrow> kerr + ((nat \<times> nat) \<times> 'a ist_scheme)" where
  "writei_loop i off n tot src s =
     (if tot < n then
        bindr (bmap i (off div BSIZE) s) (\<lambda>(addr, s1).
        if addr = 0 then Inr ((tot, off), s1)
        else bindr (bread (i_dev (itable s1 i)) addr s1) (\<lambda>(bp, s2).
          let m = min (n - tot) (BSIZE - off mod BSIZE) in
          bindr (copy_from src m s2) (\<lambda>((r, bs, src1), s3).
          if r = - 1 then bindr (brelse bp (set_bufdata bp (overlay (bufdata s3 bp) (off mod BSIZE) bs) s3)) (\<lambda>s4. Inr ((tot, off), s4))
          else bindr (log_write bp (set_bufdata bp (overlay (bufdata s3 bp) (off mod BSIZE) bs) s3)) (\<lambda>s4.
            bindr (brelse bp s4) (\<lambda>s5. writei_loop i (off + m) n (tot + m) src1 s5)))))
      else Inr ((tot, off), s))"
  by pat_completeness auto
termination
  by (relation "measure (\<lambda>(i, off, n, tot, src, s). n - tot)") (auto simp: BSIZE_def)

declare writei_loop.simps [simp del]

definition writei :: "nat \<Rightarrow> place \<Rightarrow> u32 \<Rightarrow> u32 \<Rightarrow> 'a ist_scheme \<Rightarrow> kerr + (u32 \<times> 'a ist_scheme)" where
  "writei i src off n s =
     (if off > i_size (itable s i) \<or> off + n < off then Inr (- 1, s)
      else if unat (off + n) > MAXFILE * BSIZE then Inr (- 1, s)
      else bindr (writei_loop i (unat off) (unat n) 0 src s) (\<lambda>((tot, off1), s1).
        let s2 = (if of_nat off1 > i_size (itable s1 i) then updi i (\<lambda>r. r\<lparr>i_size := of_nat off1\<rparr>) s1 else s1) in
        bindr (iupdate i s2) (\<lambda>s3. Inr (of_nat tot, s3))))"

section \<open>Directories\<close>

definition byte_at :: "u8 list \<Rightarrow> nat \<Rightarrow> u8" where
  "byte_at s i = (if i < length s then s ! i else 0)"

text \<open>\<open>strncmp\<close> on two arrays of bytes.\<close>

primrec lstrncmp :: "nat \<Rightarrow> u8 list \<Rightarrow> u8 list \<Rightarrow> int" where
  "lstrncmp 0 p q = 0"
| "lstrncmp (Suc n) p q =
     (if byte_at p 0 \<noteq> 0 \<and> byte_at p 0 = byte_at q 0 then lstrncmp n (drop 1 p) (drop 1 q)
      else uint (byte_at p 0) - uint (byte_at q 0))"

definition namecmp :: "u8 list \<Rightarrow> u8 list \<Rightarrow> int" where
  "namecmp s t = lstrncmp DIRSIZ s t"

record dirent =
  de_inum :: u16
  de_name :: "u8 list"

definition dirent_of :: "u8 list \<Rightarrow> dirent" where
  "dirent_of d = \<lparr>de_inum = get16 d 0, de_name = segment d 2 DIRSIZ\<rparr>"

definition dirent_bytes :: "dirent \<Rightarrow> u8 list" where
  "dirent_bytes de = le_bytes 2 (unat (de_inum de)) @ de_name de"

text \<open>Reading the entry at \<open>off\<close>; it has 16 bytes.\<close>

definition read_dirent :: "string \<Rightarrow> nat \<Rightarrow> nat \<Rightarrow> 'a ist_scheme \<Rightarrow> kerr + (dirent \<times> 'a ist_scheme)" where
  "read_dirent msg dp off s =
     bindr (readi dp (Local []) (of_nat off) 16 s) (\<lambda>((r, pl), s1).
     if r \<noteq> 16 then Inl (Panic msg)
     else case pl of Local bs \<Rightarrow> Inr (dirent_of bs, s1) | _ \<Rightarrow> Inl Fault)"

primrec dirlookup_loop :: "nat \<Rightarrow> nat \<Rightarrow> nat \<Rightarrow> u8 list \<Rightarrow> 'a ist_scheme \<Rightarrow> kerr + ((nat \<times> nat) option \<times> 'a ist_scheme)" where
  "dirlookup_loop 0 off dp name s = Inr (None, s)"
| "dirlookup_loop (Suc k) off dp name s =
     bindr (read_dirent ''dirlookup read'' dp off s) (\<lambda>(de, s1).
     if de_inum de = 0 then dirlookup_loop k (off + 16) dp name s1
     else if namecmp name (de_name de) = 0 then
       bindr (iget (i_dev (itable s1 dp)) (ucast (de_inum de)) s1) (\<lambda>(ip, s2). Inr (Some (ip, off), s2))
     else dirlookup_loop k (off + 16) dp name s1)"

text \<open>The inode and the offset of its entry.\<close>

definition dirlookup :: "nat \<Rightarrow> u8 list \<Rightarrow> 'a ist_scheme \<Rightarrow> kerr + ((nat \<times> nat) option \<times> 'a ist_scheme)" where
  "dirlookup dp name s =
     (if i_type (itable s dp) \<noteq> T_DIR then Inl (Panic ''dirlookup not DIR'')
      else dirlookup_loop ((unat (i_size (itable s dp)) + 15) div 16) 0 dp name s)"

primrec dirlink_slot :: "nat \<Rightarrow> nat \<Rightarrow> nat \<Rightarrow> 'a ist_scheme \<Rightarrow> kerr + (nat \<times> 'a ist_scheme)" where
  "dirlink_slot 0 off dp s = Inr (off, s)"
| "dirlink_slot (Suc k) off dp s =
     bindr (read_dirent ''dirlink read'' dp off s) (\<lambda>(de, s1).
     if de_inum de = 0 then Inr (off, s1) else dirlink_slot k (off + 16) dp s1)"

text \<open>\<open>strncpy\<close> to the name of an entry.\<close>

definition pad_name :: "u8 list \<Rightarrow> u8 list" where
  "pad_name name = take DIRSIZ (name @ replicate DIRSIZ 0)"

definition dirlink :: "nat \<Rightarrow> u8 list \<Rightarrow> u32 \<Rightarrow> 'a ist_scheme \<Rightarrow> kerr + (int \<times> 'a ist_scheme)" where
  "dirlink dp name inum s =
     bindr (dirlookup dp name s) (\<lambda>(found, s1).
     case found of
       Some (ip, off) \<Rightarrow> bindr (iput ip s1) (\<lambda>s2. Inr (- 1, s2))
     | None \<Rightarrow>
         bindr (dirlink_slot ((unat (i_size (itable s1 dp)) + 15) div 16) 0 dp s1) (\<lambda>(off, s2).
         bindr (writei dp (Local (dirent_bytes \<lparr>de_inum = ucast inum, de_name = pad_name name\<rparr>)) (of_nat off) 16 s2) (\<lambda>(r, s3).
         Inr (if r \<noteq> 16 then - 1 else 0, s3))))"

section \<open>Paths\<close>

text \<open>The rest of the path and the element, cut to the length of a name; \<open>None\<close> if there is no element.\<close>

definition skipelem :: "u8 list \<Rightarrow> (u8 list \<times> u8 list) option" where
  "skipelem path =
     (let p = dropWhile (\<lambda>c. c = 47) path in
      if p = [] then None
      else Some (dropWhile (\<lambda>c. c = 47) (dropWhile (\<lambda>c. c \<noteq> 47) p), take DIRSIZ (takeWhile (\<lambda>c. c \<noteq> 47) p)))"

lemma skipelem_shorter: "skipelem path = Some (rest, name) \<Longrightarrow> length rest < length path"
proof -
  assume a: "skipelem path = Some (rest, name)"
  let ?p = "dropWhile (\<lambda>c. c = 47) path"
  have p: "?p \<noteq> []" "rest = dropWhile (\<lambda>c. c = 47) (dropWhile (\<lambda>c. c \<noteq> 47) ?p)" using a by (auto simp: skipelem_def Let_def split: if_splits)
  then have "hd ?p \<noteq> 47" using hd_dropWhile by blast
  then have "dropWhile (\<lambda>c. c \<noteq> 47) ?p = dropWhile (\<lambda>c. c \<noteq> 47) (tl ?p)" using p(1) by (cases ?p) auto
  then have "length rest \<le> length (tl ?p)" 
    unfolding p(2) using length_dropWhile_le [of "\<lambda>c. c = 47" "dropWhile (\<lambda>c. c \<noteq> 47) (tl ?p)"]
      length_dropWhile_le [of "\<lambda>c. c \<noteq> 47" "tl ?p"] by simp
  moreover have "length (tl ?p) < length ?p" using p(1) by simp
  ultimately show ?thesis using length_dropWhile_le [of "\<lambda>c. c = 47" path] by linarith
qed

text \<open>The loop of \<open>namex\<close>; the result has the last element that was copied to \<open>name\<close>.\<close>

function namex_loop :: "u8 list \<Rightarrow> bool \<Rightarrow> nat \<Rightarrow> u8 list \<Rightarrow> 'a ist_scheme \<Rightarrow> kerr + ((nat option \<times> u8 list) \<times> 'a ist_scheme)" where
  "namex_loop path nameiparent ip name s =
     (case skipelem path of
        None \<Rightarrow> if nameiparent then bindr (iput ip s) (\<lambda>s1. Inr ((None, name), s1)) else Inr ((Some ip, name), s)
      | Some (rest, elem) \<Rightarrow>
          bindr (ilock (Some ip) s) (\<lambda>s1.
          if i_type (itable s1 ip) \<noteq> T_DIR then bindr (iunlockput (Some ip) s1) (\<lambda>s2. Inr ((None, elem), s2))
          else if nameiparent \<and> rest = [] then bindr (iunlock (Some ip) s1) (\<lambda>s2. Inr ((Some ip, elem), s2))
          else bindr (dirlookup ip elem s1) (\<lambda>(found, s2).
            bindr (iunlockput (Some ip) s2) (\<lambda>s3.
            case found of None \<Rightarrow> Inr ((None, elem), s3)
            | Some (nxt, off) \<Rightarrow> namex_loop rest nameiparent nxt elem s3))))"
  by pat_completeness auto
termination
  by (relation "measure (\<lambda>(path, _). length path)") (auto dest: skipelem_shorter)

declare namex_loop.simps [simp del]

definition namex :: "u8 list \<Rightarrow> bool \<Rightarrow> 'a ist_scheme \<Rightarrow> kerr + ((nat option \<times> u8 list) \<times> 'a ist_scheme)" where
  "namex path nameiparent s =
     bindr (if byte_at path 0 = 47 then iget ROOTDEV ROOTINO s
            else bindr (myproc s) (\<lambda>p. case cwd (procs s p) of None \<Rightarrow> Inl Fault | Some d \<Rightarrow> idup d s))
       (\<lambda>(ip, s1). namex_loop path nameiparent ip [] s1)"

definition namei :: "u8 list \<Rightarrow> 'a ist_scheme \<Rightarrow> kerr + (nat option \<times> 'a ist_scheme)" where
  "namei path s = bindr (namex path False s) (\<lambda>((ip, name), s1). Inr (ip, s1))"

definition nameiparent :: "u8 list \<Rightarrow> 'a ist_scheme \<Rightarrow> kerr + ((nat option \<times> u8 list) \<times> 'a ist_scheme)" where
  "nameiparent path s = namex path True s"

end
