(* ===== verification/Txn.thy ===== *)
theory Txn
  imports Fs
begin

text \<open>
  Blocks inside a transaction: what the routines of the file system see of the buffer cache and the log between
  \<open>begin_op\<close> and \<open>end_op\<close>. A block is read, changed and logged, or released; its contents are the state, the blocks that
  differ from the disk are in the log, and a block in the log keeps its buffer.
\<close>

definition logged :: "'a lst_scheme \<Rightarrow> u32 set" where
  "logged s = set (take (nat (lh_n (the_log s))) (lh_block (the_log s)))"

text \<open>\<open>K\<close> has the blocks that the running process has locked.\<close>

definition txn :: "nat \<Rightarrow> u32 set \<Rightarrow> 'a lst_scheme \<Rightarrow> bool" where
  "txn p K s \<longleftrightarrow> bio_inv p s \<and> 0 \<le> lh_n (the_log s) \<and> lh_n (the_log s) \<le> int LOGSIZE \<and> length (lh_block (the_log s)) = LOGSIZE \<and>
     1 \<le> outstanding (the_log s) \<and> finite K \<and> nfree (babs s) + card (logged s \<union> K) = NBUF \<and>
     (\<forall>x. owned (babs s) x = (x \<in> K)) \<and>
     (\<forall>x. refs (babs s) x = (if x \<in> logged s then 1 else 0) + (if x \<in> K then 1 else 0)) \<and>
     (\<forall>x. x \<notin> logged s \<longrightarrow> ondisk (babs s) (unat x) = content (babs s) x)"

text \<open>Room for \<open>k\<close> more blocks in the log, and for three buffers at a time.\<close>

definition budget :: "nat \<Rightarrow> 'a lst_scheme \<Rightarrow> bool" where
  "budget k s \<longleftrightarrow> lh_n (the_log s) + int k + 3 \<le> int NBUF \<and> lh_n (the_log s) + int k \<le> log_size (the_log s) - 1"

definition log_frame :: "'a lst_scheme \<Rightarrow> 'a lst_scheme \<Rightarrow> bool" where
  "log_frame s s' \<longleftrightarrow> s' = s\<lparr>slocks := slocks s', bufs := bufs s', vd := vd s', the_log := the_log s'\<rparr> \<and> device (vd s') = device (vd s) \<and>
     log_size (the_log s') = log_size (the_log s) \<and> lh_n (the_log s) \<le> lh_n (the_log s')"

lemma finite_logged [simp]: "finite (logged s)"
  by (simp add: logged_def)

lemma card_logged: "card (logged s) \<le> nat (lh_n (the_log s))"
  unfolding logged_def by (rule order_trans [OF card_length]) simp

lemma txnD:
  assumes "txn p K s"
  shows "bio_inv p s" "0 \<le> lh_n (the_log s)" "lh_n (the_log s) \<le> int LOGSIZE" "length (lh_block (the_log s)) = LOGSIZE" "1 \<le> outstanding (the_log s)"
    "finite K" "nfree (babs s) + card (logged s \<union> K) = NBUF" "owned (babs s) x = (x \<in> K)"
    "refs (babs s) x = (if x \<in> logged s then 1 else 0) + (if x \<in> K then 1 else 0)"
    "x \<notin> logged s \<Longrightarrow> ondisk (babs s) (unat x) = content (babs s) x"
  using assms by (simp_all add: txn_def)

lemma txn_free:
  assumes "txn p K s" "budget k s" "card K \<le> 2"
  shows "0 < nfree (babs s)"
proof -
  have "card (logged s \<union> K) \<le> card (logged s) + card K" by (rule card_Un_le)
  also have "\<dots> < NBUF"
  proof -
    have "int (card (logged s)) \<le> lh_n (the_log s)" using card_logged [of s] txnD(2) [OF assms(1)] by linarith
    then show ?thesis using assms(2,3) unfolding budget_def by linarith
  qed
  finally show ?thesis using txnD(7) [OF assms(1)] by linarith
qed

lemma logged_frame: "bio_frame s s' \<Longrightarrow> logged s' = logged s" "bio_frame s s' \<Longrightarrow> budget k s' = budget k s"
  by (simp_all add: logged_def budget_def bio_frame_log)

lemma txn_read:
  assumes t: "txn p K s" and n: "n \<notin> K" "unat n < 2 ^ 31" and k: "budget k s" "card K \<le> 2"
  shows "\<exists>b s'. bread ROOTDEV n s = Inr (b, s') \<and> txn p (insert n K) s' \<and> bof s' n = Some b \<and> bufdata s' b = content (babs s) n \<and>
    content (babs s') = content (babs s) \<and> bio_frame s s' \<and> (\<forall>m\<in>K. bof s' m = bof s m)"
proof -
  note d = txnD [OF t]
  have f: "0 < nfree (babs s)" by (rule txn_free [OF t k])
  have "refs (babs s) n < 2 ^ 32 - 1" using d(9) [of n] by simp
  then obtain b s' where b: "bread ROOTDEV n s = Inr (b, s')" "bio_inv p s'" "bio_frame s s'" "bof s' n = Some b"
      "\<forall>m. 0 < refs (babs s) m \<longrightarrow> bof s' m = bof s m"
      "babs s' = (babs s)\<lparr>refs := (refs (babs s))(n := refs (babs s) n + 1), owned := (owned (babs s))(n := True),
        nfree := nfree (babs s) - (if refs (babs s) n = 0 then 1 else 0)\<rparr>"
    using bread_block [OF d(1) n(2)] d(8) [of n] n(1) f by blast
  have l: "the_log s' = the_log s" using b(3) by (rule bio_frame_log)
  have c: "nfree (babs s') + card (logged s' \<union> insert n K) = NBUF"
    using d(7) f d(6) n(1) by (simp add: b(6) logged_frame(1) [OF b(3)] d(9) card_insert_if)
  have "txn p (insert n K) s'"
    using d b(2) c l n(1) by (auto simp: txn_def logged_frame(1) [OF b(3)] b(6))
  moreover have "bufdata s' b = content (babs s) n" using bcache.get_law [OF b(2,4)] by (simp add: b(6))
  moreover have "\<forall>m\<in>K. bof s' m = bof s m" using b(5) d(9) by simp
  ultimately show ?thesis using b by auto
qed

lemma log_write_again:
  fixes s :: "'a lst_scheme"
  assumes inv: "bio_inv p s" and b: "bof s x = Some b" "owned (babs s) x"
    and l: "lh_n (the_log s) = int n" "n < LOGSIZE" "int n < log_size (the_log s) - 1" "1 \<le> outstanding (the_log s)"
    and x: "x \<in> set (take n (lh_block (the_log s)))" "length (lh_block (the_log s)) = LOGSIZE"
  shows "log_write b s = Inr s"
proof -
  note q = quietD [OF bio_quiet(1) [OF inv]] and ob = owned_buf [OF inv b]
  have "scan (\<lambda>i. lh_block (the_log s) ! i = x) 0 n \<noteq> None"
    using x l(2) by (auto simp: scan_None in_set_conv_nth)
  then obtain i where i: "scan (\<lambda>i. lh_block (the_log s) ! i = x) 0 n = Some i" by auto
  then have "i < n" "(lh_block (the_log s))[i := x] = lh_block (the_log s)" using scan_SomeD [OF i] by auto
  then show ?thesis using q(2) l i ob(10)
    by (simp add: log_write_def acquire_lk_def release_lk_def Let_def updl_def)
qed


lemma log_write_frame:
  fixes s :: "'a lst_scheme"
  assumes w: "log_write b s = Inr s'" and h: "held s = {}"
  shows "log_frame s s'"
proof -
  let ?n = "nat (lh_n (the_log s))" and ?x = "b_blockno (bufs s b)"
  let ?i = "case scan (\<lambda>i. lh_block (the_log s) ! i = ?x) 0 ?n of Some i \<Rightarrow> i | None \<Rightarrow> ?n"
  let ?s1 = "s\<lparr>held := {LogLock}\<rparr>"
  let ?s2 = "updl (\<lambda>l. l\<lparr>lh_block := (lh_block l)[?i := ?x]\<rparr>) ?s1"
  have "\<not> (lh_n (the_log s) \<ge> int LOGSIZE \<or> lh_n (the_log s) \<ge> log_size (the_log s) - 1)" "\<not> outstanding (the_log s) < 1"
    using w h by (auto simp: log_write_def acquire_lk_def Let_def split: if_splits)
  then have "log_write b s = bindr (if ?i = ?n then bindr (bpin b ?s2) (\<lambda>s3. Inr (updl (\<lambda>l. l\<lparr>lh_n := lh_n l + 1\<rparr>) s3)) else Inr ?s2) (release_lk LogLock)"
    using h by (simp add: log_write_def acquire_lk_def Let_def cong: option.case_cong)
  also have "\<dots> = Inr ((if ?i = ?n then updl (\<lambda>l. l\<lparr>lh_n := lh_n l + 1\<rparr>) (updb b (\<lambda>r. r\<lparr>b_refcnt := b_refcnt r + 1\<rparr>) ?s2) else ?s2)\<lparr>held := {}\<rparr>)"
    by (simp add: bpin_def acquire_lk_def release_lk_def updb_def updl_def)
  finally have "s' = (if ?i = ?n then updl (\<lambda>l. l\<lparr>lh_n := lh_n l + 1\<rparr>) (updb b (\<lambda>r. r\<lparr>b_refcnt := b_refcnt r + 1\<rparr>) ?s2) else ?s2)\<lparr>held := {}\<rparr>"
    using w by simp
  moreover have "s = s\<lparr>held := {}\<rparr>" using h by simp
  ultimately show ?thesis unfolding log_frame_def by (cases s) (simp add: updl_def updb_def)
qed


lemma log_frameD:
  assumes "log_frame s s'"
  shows "procs s' = procs s" "cur s' = cur s" "held s' = held s" "pmem s' = pmem s" "cout s' = cout s" "locking s' = locking s"
    "lst.more s' = lst.more s" "device (vd s') = device (vd s)"
proof -
  have e: "s' = s\<lparr>slocks := slocks s', bufs := bufs s', vd := vd s', the_log := the_log s'\<rparr>" using assms by (simp add: log_frame_def)
  show "procs s' = procs s" "cur s' = cur s" "held s' = held s" "pmem s' = pmem s" "cout s' = cout s" "locking s' = locking s"
    "lst.more s' = lst.more s" by (subst e, simp)+
  show "device (vd s') = device (vd s)" using assms by (simp add: log_frame_def)
qed

text \<open>What an operation that needs room for \<open>j\<close> blocks adds to the transaction.\<close>

lemma budget_growth:
  assumes "budget k s" "j \<le> k"
  shows "\<exists>m\<ge>k. budget m s \<and> (\<forall>s'. log_frame s s' \<and> budget (m - j) s' \<longrightarrow> lh_n (the_log s') \<le> lh_n (the_log s) + int j)"
proof -
  let ?m = "nat (min (int NBUF - 3 - lh_n (the_log s)) (log_size (the_log s) - 1 - lh_n (the_log s)))"
  have k: "k \<le> ?m" "int ?m = min (int NBUF - 3 - lh_n (the_log s)) (log_size (the_log s) - 1 - lh_n (the_log s))"
    using assms(1) by (auto simp: budget_def min_def)
  have "lh_n (the_log s') \<le> lh_n (the_log s) + int j" if "log_frame s s'" "budget (?m - j) s'" for s'
  proof -
    have "int (?m - j) = int ?m - int j" using k(1) assms(2) by simp
    then show ?thesis using that k(2) by (simp add: log_frame_def budget_def min_def split: if_splits)
  qed
  moreover have "budget ?m s" unfolding budget_def k(2) by linarith
  ultimately show ?thesis using k(1) by blast
qed

lemma log_frame_refl [simp]: "log_frame s s"
  by (simp add: log_frame_def)

lemma log_frame_trans: "log_frame s s1 \<Longrightarrow> log_frame s1 s2 \<Longrightarrow> log_frame s s2"
proof -
  assume a: "log_frame s s1" "log_frame s1 s2"
  have e1: "s1 = s\<lparr>slocks := slocks s1, bufs := bufs s1, vd := vd s1, the_log := the_log s1\<rparr>"
    and e2: "s2 = s1\<lparr>slocks := slocks s2, bufs := bufs s2, vd := vd s2, the_log := the_log s2\<rparr>" using a by (simp_all add: log_frame_def)
  have "s2 = s\<lparr>slocks := slocks s2, bufs := bufs s2, vd := vd s2, the_log := the_log s2\<rparr>"
    by (subst e2, subst e1) simp
  then show "log_frame s s2" using a by (simp add: log_frame_def)
qed

lemma bio_log_frame:
  fixes s :: "'a lst_scheme"
  assumes "bio_frame s s'"
  shows "log_frame s s'"
proof -
  have l: "the_log s' = the_log s" using assms by (rule bio_frame_log)
  have e: "s' = s\<lparr>slocks := slocks s', bufs := bufs s', vd := vd s'\<rparr>" and d: "device (vd s') = device (vd s)" using assms by (simp_all add: bio_frame_def)
  have "s' = s\<lparr>slocks := slocks s', bufs := bufs s', vd := vd s', the_log := the_log s\<rparr>" by (subst e) simp
  then show ?thesis using d l by (simp add: log_frame_def)
qed

lemma log_frame_inode:
  fixes s :: "'a ist_scheme"
  assumes "log_frame s s'"
  shows "sb s' = sb s" "itable s' = itable s"
proof -
  have e: "s' = s\<lparr>slocks := slocks s', bufs := bufs s', vd := vd s', the_log := the_log s'\<rparr>" using assms by (simp add: log_frame_def)
  show "sb s' = sb s" "itable s' = itable s" by (subst e, simp)+
qed

text \<open>Changing a block and logging it.\<close>

lemma txn_put:
  assumes t: "txn p K s" and n: "n \<in> K" "bof s n = Some b" and d: "length d = BSIZE" and k: "budget (Suc k) s"
  shows "\<exists>s'. log_write b (set_bufdata b d s) = Inr s' \<and> txn p K s' \<and> bof s' = bof s \<and> log_frame s s' \<and> budget k s' \<and>
    content (babs s') = (content (babs s))(n := d)"
proof -
  note t' = txnD [OF t]
  let ?s = "set_bufdata b d s" and ?l = "the_log s" and ?m = "nat (lh_n (the_log s))"
  have o: "owned (babs s) n" using t'(8) n(1) by simp
  note sb = set_bufdata_block [OF t'(1) n(2) o d]
  then have s: "bio_inv p ?s" "bof ?s = bof s" "bio_frame s ?s" "babs ?s = (babs s)\<lparr>content := (content (babs s))(n := d)\<rparr>" by auto
  have l: "the_log ?s = ?l" using s(3) by (rule bio_frame_log)
  have m: "lh_n ?l = int ?m" "?m < LOGSIZE" "int ?m < log_size ?l - 1"
    using t'(2) k by (auto simp: budget_def NBUF_def LOGSIZE_def)
  have ob: "bof ?s n = Some b" "owned (babs ?s) n" "refs (babs ?s) n < 2 ^ 32 - 1" using n(2) o t'(9) [of n] by (simp_all add: s)
  have h: "held ?s = {}" using quietD [OF bio_quiet(1) [OF s(1)]] by simp
  show ?thesis
  proof (cases "n \<in> logged s")
    case True
    then have "n \<in> set (take ?m (lh_block (the_log ?s)))" by (simp add: logged_def l)
    then have w: "log_write b ?s = Inr ?s"
      using log_write_again [OF s(1) ob(1,2), of ?m] m t'(4,5) by (simp add: l)
    have lg: "logged ?s = logged s" by (simp add: logged_def l)
    have "txn p K ?s" using t' s(1) True by (auto simp: txn_def lg l s(4))
    then show ?thesis using w s(2,3,4) k by (auto simp: budget_def l intro: bio_log_frame)
  next
    case False
    then have "n \<notin> set (take ?m (lh_block (the_log ?s)))" by (simp add: logged_def l)
    then obtain s' where w: "log_write b ?s = Inr s'" "bio_inv p s'" "bof s' = bof ?s"
        "the_log s' = ?l\<lparr>lh_n := int ?m + 1, lh_block := (lh_block ?l)[?m := n]\<rparr>"
        "babs s' = (babs ?s)\<lparr>refs := (refs (babs ?s))(n := refs (babs ?s) n + 1)\<rparr>"
      using log_write_new [OF s(1) ob, of ?m] m t'(4,5) by (auto simp: l)
    have lg: "logged s' = insert n (logged s)"
      using m(2) t'(2,4) by (simp add: logged_def w(4) nat_add_distrib take_Suc_conv_app_nth)
    have fr: "log_frame s s'" using log_frame_trans [OF bio_log_frame [OF s(3)] log_write_frame [OF w(1) h]] .
    have "insert n (logged s \<union> K) = logged s \<union> K" using n(1) by auto
    moreover have "0 \<le> lh_n ?l + 1" "lh_n ?l + 1 \<le> int LOGSIZE" using t'(2) m(2) by linarith+
    ultimately have "txn p K s'" using t' w(2) False n(1) by (auto simp: txn_def lg w(4,5) s(4))
    moreover have "budget k s'" using k m by (simp add: budget_def w(4))
    ultimately show ?thesis using w fr s by auto
  qed
qed

lemma txn_release:
  assumes t: "txn p K s" and n: "n \<in> K" "bof s n = Some b"
  shows "\<exists>s'. brelse b s = Inr s' \<and> txn p (K - {n}) s' \<and> bof s' = bof s \<and> bio_frame s s' \<and> content (babs s') = content (babs s)"
proof -
  note t' = txnD [OF t]
  have o: "owned (babs s) n" using t'(8) n(1) by simp
  have "ondisk (babs s) (unat n) = content (babs s) n" if "refs (babs s) n = 1"
    using that t'(9,10) [of n] n(1) by (auto split: if_splits)
  then obtain s' where w: "brelse b s = Inr s'" "bio_inv p s'" "bof s' = bof s" "bio_frame s s'"
      "babs s' = (babs s)\<lparr>refs := (refs (babs s))(n := refs (babs s) n - 1), owned := (owned (babs s))(n := False),
        nfree := nfree (babs s) + (if refs (babs s) n = 1 then 1 else 0)\<rparr>"
    using brelse_block [OF t'(1) n(2) o] by blast
  have l: "the_log s' = the_log s" "logged s' = logged s" using w(4) by (simp_all add: bio_frame_log logged_frame)
  have "nfree (babs s') + card (logged s' \<union> (K - {n})) = NBUF"
  proof (cases "n \<in> logged s")
    case True
    then have "logged s \<union> (K - {n}) = logged s \<union> K" by auto
    then show ?thesis using t'(7) t'(9) [of n] True n(1) by (simp add: w(5) l)
  next
    case False
    then have "logged s \<union> (K - {n}) = (logged s \<union> K) - {n}" "n \<in> logged s \<union> K" using n(1) by auto
    moreover from this have "0 < card (logged s \<union> K)" using t'(6) by (auto simp: card_gt_0_iff)
    ultimately show ?thesis using t'(6,7) t'(9) [of n] False n(1) by (simp add: w(5) l card_Diff_singleton)
  qed
  then have "txn p (K - {n}) s'" using t' w(2) n(1) by (auto simp: txn_def l w(5))
  then show ?thesis using w by auto
qed


section \<open>The contract of a transaction\<close>

text \<open>What the file system relies on, and the two sequences of calls that its routines are made of.\<close>

locale block_txn =
  fixes tx :: "u32 set \<Rightarrow> 's \<Rightarrow> bool"
    and room :: "nat \<Rightarrow> 's \<Rightarrow> bool"
    and bytes :: "'s \<Rightarrow> u32 \<Rightarrow> u8 list"
    and buf_of :: "'s \<Rightarrow> u32 \<Rightarrow> nat option"
    and frame :: "'s \<Rightarrow> 's \<Rightarrow> bool"
    and get :: "'s \<Rightarrow> nat \<Rightarrow> u8 list"
    and rd :: "u32 \<Rightarrow> 's \<Rightarrow> kerr + (nat \<times> 's)"
    and put :: "nat \<Rightarrow> u8 list \<Rightarrow> 's \<Rightarrow> 's"
    and lg :: "nat \<Rightarrow> 's \<Rightarrow> kerr + 's"
    and rel :: "nat \<Rightarrow> 's \<Rightarrow> kerr + 's"
  assumes frame_refl: "frame s s"
    and frame_trans: "frame s s1 \<Longrightarrow> frame s1 s2 \<Longrightarrow> frame s s2"
    and size_law: "tx K s \<Longrightarrow> length (bytes s n) = BSIZE"
    and get_law: "tx K s \<Longrightarrow> buf_of s n = Some b \<Longrightarrow> get s b = bytes s n"
    and rd_law: "tx K s \<Longrightarrow> n \<notin> K \<Longrightarrow> unat n < 2 ^ 31 \<Longrightarrow> room k s \<Longrightarrow> card K \<le> 2 \<Longrightarrow>
      \<exists>b s'. rd n s = Inr (b, s') \<and> tx (insert n K) s' \<and> buf_of s' n = Some b \<and> bytes s' = bytes s \<and> frame s s' \<and> room k s' \<and>
        (\<forall>m\<in>K. buf_of s' m = buf_of s m)"
    and put_law: "tx K s \<Longrightarrow> n \<in> K \<Longrightarrow> buf_of s n = Some b \<Longrightarrow> length d = BSIZE \<Longrightarrow> room (Suc k) s \<Longrightarrow>
      \<exists>s'. lg b (put b d s) = Inr s' \<and> tx K s' \<and> buf_of s' = buf_of s \<and> frame s s' \<and> room k s' \<and> bytes s' = (bytes s)(n := d)"
    and rel_law: "tx K s \<Longrightarrow> n \<in> K \<Longrightarrow> buf_of s n = Some b \<Longrightarrow> room k s \<Longrightarrow>
      \<exists>s'. rel b s = Inr s' \<and> tx (K - {n}) s' \<and> buf_of s' = buf_of s \<and> frame s s' \<and> room k s' \<and> bytes s' = bytes s"
begin

lemma peek_block:
  assumes t: "tx K s" and n: "n \<notin> K" "unat n < 2 ^ 31" and k: "room k s" "card K \<le> 2"
  shows "\<exists>b s1 s2. rd n s = Inr (b, s1) \<and> get s1 b = bytes s n \<and> frame s s1 \<and> rel b s1 = Inr s2 \<and>
    tx K s2 \<and> bytes s2 = bytes s \<and> frame s s2 \<and> room k s2 \<and> (\<forall>m\<in>K. buf_of s2 m = buf_of s m)"
proof -
  obtain b s1 where r: "rd n s = Inr (b, s1)" "tx (insert n K) s1" "buf_of s1 n = Some b" "bytes s1 = bytes s" "frame s s1" "room k s1"
      "\<forall>m\<in>K. buf_of s1 m = buf_of s m"
    using rd_law [OF t n k] by blast
  obtain s2 where s2: "rel b s1 = Inr s2" "tx (insert n K - {n}) s2" "buf_of s2 = buf_of s1" "frame s1 s2" "room k s2" "bytes s2 = bytes s1"
    using rel_law [OF r(2) _ r(3,6)] by blast
  have "insert n K - {n} = K" using n(1) by auto
  then show ?thesis using r s2 frame_trans [OF r(5) s2(4)] get_law [OF r(2,3)] by auto
qed

lemma update_block:
  assumes t: "tx K s" and n: "n \<notin> K" "unat n < 2 ^ 31" and k: "room (Suc k) s" "card K \<le> 2" and d: "length d = BSIZE"
  shows "\<exists>b s1 s2 s3. rd n s = Inr (b, s1) \<and> get s1 b = bytes s n \<and> frame s s1 \<and> lg b (put b d s1) = Inr s2 \<and> frame s s2 \<and> rel b s2 = Inr s3 \<and>
    tx K s3 \<and> bytes s3 = (bytes s)(n := d) \<and> frame s s3 \<and> room k s3 \<and> (\<forall>m\<in>K. buf_of s3 m = buf_of s m)"
proof -
  obtain b s1 where r: "rd n s = Inr (b, s1)" "tx (insert n K) s1" "buf_of s1 n = Some b" "bytes s1 = bytes s" "frame s s1" "room (Suc k) s1"
      "\<forall>m\<in>K. buf_of s1 m = buf_of s m"
    using rd_law [OF t n k] by blast
  obtain s2 where s2: "lg b (put b d s1) = Inr s2" "tx (insert n K) s2" "buf_of s2 = buf_of s1" "frame s1 s2" "room k s2" "bytes s2 = (bytes s1)(n := d)"
    using put_law [OF r(2) _ r(3) d r(6)] by blast
  obtain s3 where s3: "rel b s2 = Inr s3" "tx (insert n K - {n}) s3" "buf_of s3 = buf_of s2" "frame s2 s3" "room k s3" "bytes s3 = bytes s2"
    using rel_law [OF s2(2) _ _ s2(5), of n b] r(3) s2(3) by auto
  have "insert n K - {n} = K" using n(1) by auto
  moreover have "frame s s2" "frame s s3" using frame_trans r(5) s2(4) s3(4) by blast+
  ultimately show ?thesis using r s2 s3 get_law [OF r(2,3)] by auto
qed

end

interpretation ltxn: block_txn "txn p" budget "\<lambda>s. content (babs s)" bof log_frame bufdata "bread ROOTDEV" set_bufdata log_write brelse
proof (unfold_locales, goal_cases)
  case (1 s) then show ?case by simp
next
  case (2 s s1 s2) then show ?case by (rule log_frame_trans)
next
  case (3 K s n) then show ?case using content_length txnD(1) by blast
next
  case (4 K s n b) then show ?case using bcache.get_law txnD(1) by blast
next
  case (5 K s n k)
  then obtain b s' where "bread ROOTDEV n s = Inr (b, s')" "txn p (insert n K) s'" "bof s' n = Some b" "content (babs s') = content (babs s)"
      "bio_frame s s'" "\<forall>m\<in>K. bof s' m = bof s m" using txn_read [OF 5(1-5)] by blast
  then show ?case using bio_log_frame logged_frame(2) 5(4) by blast
next
  case (6 K s n b d k) then show ?case using txn_put [OF 6(1-5)] by blast
next
  case (7 K s n b k)
  then obtain s' where "brelse b s = Inr s'" "txn p (K - {n}) s'" "bof s' = bof s" "bio_frame s s'" "content (babs s') = content (babs s)"
    using txn_release [OF 7(1-3)] by blast
  then show ?case using bio_log_frame logged_frame(2) 7(4) by blast
qed

end
