(* ===== verification/Balloc.thy ===== *)
theory Balloc
  imports Txn
begin

text \<open>
  The bitmap of blocks: \<open>balloc\<close> and \<open>bfree\<close> (\<open>kernel/fs.c\<close>) against the set of free blocks. \<open>D\<close> is the number of the first
  block after the boot block, the superblock, the log, the inodes and the bitmap.
\<close>

definition fs_geom :: "superblock \<Rightarrow> nat \<Rightarrow> bool" where
  "fs_geom q D \<longleftrightarrow> unat (sb_size q) < 2 ^ 31 \<and> 0 < D \<and> D \<le> unat (sb_size q) \<and>
     unat (sb_bmapstart q) + unat (sb_size q) div BPB < D \<and>
     unat (sb_inodestart q) + unat (sb_ninodes q) div IPB < unat (sb_bmapstart q)"

definition is_free :: "superblock \<Rightarrow> (u32 \<Rightarrow> u8 list) \<Rightarrow> nat \<Rightarrow> bool" where
  "is_free q c b \<longleftrightarrow> bit_clear (c (BBLOCK b q)) (b mod BPB)"

text \<open>The blocks of the file system that are free, and the blocks before \<open>D\<close>, which never are.\<close>

definition free_blocks :: "superblock \<Rightarrow> (u32 \<Rightarrow> u8 list) \<Rightarrow> nat set" where
  "free_blocks q c = {b. b < unat (sb_size q) \<and> is_free q c b}"

definition meta_used :: "superblock \<Rightarrow> nat \<Rightarrow> (u32 \<Rightarrow> u8 list) \<Rightarrow> bool" where
  "meta_used q D c \<longleftrightarrow> (\<forall>b<D. \<not> is_free q c b)"

section \<open>Bits\<close>

lemma bit_clear_bit: "bit_clear d bi \<longleftrightarrow> \<not> bit (d ! (bi div 8)) (bi mod 8)"
proof -
  have "x AND push_bit k 1 = 0 \<longleftrightarrow> \<not> bit x k" if "k < 8" for x :: u8 and k
  proof
    assume "x AND push_bit k 1 = 0"
    then have "\<not> bit (x AND push_bit k 1) k" by simp
    then show "\<not> bit x k" using that by (simp add: bit_simps)
  next
    assume "\<not> bit x k"
    then show "x AND push_bit k 1 = 0" by (intro bit_eqI) (auto simp: bit_simps)
  qed
  from this [of "bi mod 8"] show ?thesis by (simp add: bit_clear_def)
qed

lemma div_mod_eq8: "(a :: nat) div 8 = b div 8 \<Longrightarrow> a mod 8 = b mod 8 \<Longrightarrow> a = b"
  by (metis div_mult_mod_eq)

lemma length_bit_at [simp]: "length (set_bit_at bi d) = length d" "length (clear_bit_at bi d) = length d"
  by (simp_all add: set_bit_at_def clear_bit_at_def)

lemma bit_clear_set:
  assumes "bi div 8 < length d"
  shows "bit_clear (set_bit_at bi d) bj \<longleftrightarrow> bj \<noteq> bi \<and> bit_clear d bj"
proof (cases "bj div 8 = bi div 8")
  case True
  then have "bj mod 8 = bi mod 8 \<longleftrightarrow> bj = bi" using div_mod_eq8 [OF True] by blast
  then show ?thesis using assms True by (auto simp: bit_clear_bit set_bit_at_def bit_simps)
next
  case False
  then show ?thesis by (auto simp: bit_clear_bit set_bit_at_def)
qed

lemma bit_clear_clear:
  assumes "bi div 8 < length d"
  shows "bit_clear (clear_bit_at bi d) bj \<longleftrightarrow> bj = bi \<or> bit_clear d bj"
proof (cases "bj div 8 = bi div 8")
  case True
  then have "bj mod 8 = bi mod 8 \<longleftrightarrow> bj = bi" using div_mod_eq8 [OF True] by blast
  then show ?thesis using assms True by (auto simp: bit_clear_bit clear_bit_at_def bit_simps)
next
  case False
  then show ?thesis by (auto simp: bit_clear_bit clear_bit_at_def)
qed

section \<open>Places in the bitmap\<close>

lemma BPB_value: "BPB = 8192"
  by (simp add: BPB_def BSIZE_def)

lemma unat_BBLOCK:
  assumes "fs_geom q D" "b < unat (sb_size q)"
  shows "unat (BBLOCK b q) = b div BPB + unat (sb_bmapstart q)" "unat (BBLOCK b q) < D"
proof -
  have "b div BPB \<le> unat (sb_size q) div BPB" using assms(2) by (simp add: div_le_mono)
  then have l: "b div BPB + unat (sb_bmapstart q) < D" "D < 2 ^ 31" using assms(1) by (simp_all add: fs_geom_def)
  have u: "unat (of_nat (b div BPB) :: u32) = b div BPB" using l by (simp add: unat_of_nat take_bit_nat_eq_self)
  have "unat (BBLOCK b q) = unat (of_nat (b div BPB) :: u32) + unat (sb_bmapstart q)"
    unfolding BBLOCK_def using l by (intro unat_add_lem [THEN iffD1]) (simp add: u)
  then show "unat (BBLOCK b q) = b div BPB + unat (sb_bmapstart q)" "unat (BBLOCK b q) < D" using l u by simp_all
qed

lemma BBLOCK_eq:
  assumes "fs_geom q D" "b < unat (sb_size q)" "b' < unat (sb_size q)"
  shows "BBLOCK b q = BBLOCK b' q \<longleftrightarrow> b div BPB = b' div BPB"
  using unat_BBLOCK(1) [OF assms(1,2)] unat_BBLOCK(1) [OF assms(1,3)] by (auto simp: word_unat_eq_iff)

lemma unat_block: "fs_geom q D \<Longrightarrow> b < unat (sb_size q) \<Longrightarrow> unat (of_nat b :: u32) = b"
  by (simp add: unat_of_nat take_bit_nat_eq_self fs_geom_def)

lemma div_mod_eq: "(a :: nat) div m = b div m \<Longrightarrow> a mod m = b mod m \<Longrightarrow> a = b"
  by (metis div_mult_mod_eq)

text \<open>Marking a block and clearing a mark change one element of the set of free blocks; a change of a block that is
  not part of the bitmap changes none.\<close>

lemma is_free_set:
  assumes g: "fs_geom q D" and b: "b < unat (sb_size q)" "b' < unat (sb_size q)" and l: "\<And>x. length (c x) = BSIZE"
  shows "is_free q (c(BBLOCK b q := set_bit_at (b mod BPB) (c (BBLOCK b q)))) b' \<longleftrightarrow> b' \<noteq> b \<and> is_free q c b'"
    "is_free q (c(BBLOCK b q := clear_bit_at (b mod BPB) (c (BBLOCK b q)))) b' \<longleftrightarrow> b' = b \<or> is_free q c b'"
proof -
  have i: "b mod BPB div 8 < length (c (BBLOCK b q))" using l by (simp add: BPB_value BSIZE_def div_less_iff_less_mult)
  have e: "b' mod BPB = b mod BPB \<longleftrightarrow> b' = b" if "b' div BPB = b div BPB" using div_mod_eq [OF that] by blast
  show "is_free q (c(BBLOCK b q := set_bit_at (b mod BPB) (c (BBLOCK b q)))) b' \<longleftrightarrow> b' \<noteq> b \<and> is_free q c b'"
    using e BBLOCK_eq [OF g b(2,1)] by (cases "b' div BPB = b div BPB") (auto simp: is_free_def bit_clear_set [OF i])
  show "is_free q (c(BBLOCK b q := clear_bit_at (b mod BPB) (c (BBLOCK b q)))) b' \<longleftrightarrow> b' = b \<or> is_free q c b'"
    using e BBLOCK_eq [OF g b(2,1)] by (cases "b' div BPB = b div BPB") (auto simp: is_free_def bit_clear_clear [OF i])
qed

lemma is_free_data:
  assumes "fs_geom q D" "b < unat (sb_size q)" "D \<le> unat x"
  shows "is_free q (c(x := d)) b = is_free q c b"
proof -
  have "BBLOCK b q \<noteq> x" using unat_BBLOCK(2) [OF assms(1,2)] assms(3) by auto
  then show ?thesis by (simp add: is_free_def)
qed


section \<open>Allocation\<close>

text \<open>The blocks that the caller of \<open>balloc\<close> holds are neither free nor part of the bitmap.\<close>

definition holds_data :: "superblock \<Rightarrow> nat \<Rightarrow> (u32 \<Rightarrow> u8 list) \<Rightarrow> u32 set \<Rightarrow> bool" where
  "holds_data q D c K \<longleftrightarrow> card K \<le> 1 \<and> (\<forall>x\<in>K. D \<le> unat x \<and> unat x < unat (sb_size q) \<and> \<not> is_free q c (unat x))"

lemma holds_none [simp]: "holds_data q D c {}"
  by (simp add: holds_data_def)

definition allocated :: "superblock \<Rightarrow> nat \<Rightarrow> (u32 \<Rightarrow> u8 list) \<Rightarrow> u32 \<Rightarrow> u8 list" where
  "allocated q b c = (c(BBLOCK b q := set_bit_at (b mod BPB) (c (BBLOCK b q))))(of_nat b := replicate BSIZE 0)"

lemma bzero_ok:
  fixes s :: "'a ist_scheme"
  assumes "txn p K s" "n \<notin> K" "unat n < 2 ^ 31" "budget (Suc k) s" "card K \<le> 2"
  shows "\<exists>s'. bzero ROOTDEV n s = Inr s' \<and> txn p K s' \<and> content (babs s') = (content (babs s))(n := replicate BSIZE 0) \<and>
    log_frame s s' \<and> budget k s' \<and> (\<forall>m\<in>K. bof s' m = bof s m)"
proof -
  have "length (replicate BSIZE (0 :: u8)) = BSIZE" by simp
  from ltxn.update_block [OF assms(1-5) this] show ?thesis by (auto simp: bzero_def)
qed

lemma bitmap_entry:
  assumes "bi < BPB"
  shows "(BPB * j + bi) div BPB = j" "(BPB * j + bi) mod BPB = bi" "BBLOCK (BPB * j + bi) q = BBLOCK (BPB * j) q"
  using assms by (simp_all add: BBLOCK_def BPB_value)

lemma balloc_scan:
  "bi < BPB \<Longrightarrow> bit_clear (c (BBLOCK (BPB * j) q)) bi = is_free q c (BPB * j + bi)"
  by (simp add: is_free_def bitmap_entry)

lemma balloc_found:
  assumes "BPB * j \<le> t" "t < BPB * j + BPB" "t < n" "is_free q c t" "\<And>x. BPB * j \<le> x \<Longrightarrow> x < t \<Longrightarrow> \<not> is_free q c x"
  shows "scan (bit_clear (c (BBLOCK (BPB * j) q))) 0 (min BPB (n - BPB * j)) = Some (t - BPB * j)"
proof (rule scan_SomeI)
  show "bit_clear (c (BBLOCK (BPB * j) q)) (t - BPB * j)" using assms(1,2,4) by (simp add: balloc_scan)
  show "\<forall>i\<in>{0..<t - BPB * j}. \<not> bit_clear (c (BBLOCK (BPB * j) q)) i"
    using assms(1,2,5) by (auto simp: balloc_scan)
qed (use assms(1-3) in auto)

lemma balloc_not_found:
  assumes "\<And>x. BPB * j \<le> x \<Longrightarrow> x < BPB * j + BPB \<Longrightarrow> x < n \<Longrightarrow> \<not> is_free q c x"
  shows "scan (bit_clear (c (BBLOCK (BPB * j) q))) 0 (min BPB (n - BPB * j)) = None"
  unfolding scan_None using assms by (auto simp: balloc_scan)

lemma balloc_loop_ok:
  fixes s :: "'a ist_scheme"
  assumes "txn p K s" "sb s = q" "fs_geom q D" "holds_data q D (content (babs s)) K" "budget (Suc (Suc m)) s"
    "BPB * j \<le> t" "t < unat (sb_size q)" "is_free q (content (babs s)) t" "\<And>x. BPB * j \<le> x \<Longrightarrow> x < t \<Longrightarrow> \<not> is_free q (content (babs s)) x"
    "t < BPB * j + k * BPB" "D \<le> t"
  shows "\<exists>s'. balloc_loop k (BPB * j) ROOTDEV s = Inr (of_nat t, s') \<and> txn p K s' \<and> content (babs s') = allocated q t (content (babs s)) \<and>
    log_frame s s' \<and> budget m s' \<and> (\<forall>x\<in>K. bof s' x = bof s x)"
  using assms
proof (induction k arbitrary: j s)
  case (Suc k)
  let ?c = "content (babs s)" and ?n = "BBLOCK (BPB * j) (sb s)"
  have b: "BPB * j < unat (sb_size q)" using Suc.prems(6,7) by simp
  have nb: "?n \<notin> K" "unat ?n < 2 ^ 31"
    using unat_BBLOCK(2) [OF Suc.prems(3) b] Suc.prems(2-4) by (auto simp: holds_data_def fs_geom_def)
  have cK: "card K \<le> 2" using Suc.prems(4) by (simp add: holds_data_def)
  show ?case
  proof (cases "t < BPB * j + BPB")
    case True
    let ?bi = "t - BPB * j" let ?d = "set_bit_at ?bi (?c ?n)"
    have sc: "scan (bit_clear (?c ?n)) 0 (min BPB (unat (sb_size q) - BPB * j)) = Some ?bi"
      using balloc_found [OF Suc.prems(6) True Suc.prems(7,8,9)] Suc.prems(2) by simp
    have "length ?d = BSIZE" using ltxn.size_law [OF Suc.prems(1)] by simp
    from ltxn.update_block [OF Suc.prems(1) nb Suc.prems(5) cK this]
    obtain bp s1 s2 s3 where u: "bread ROOTDEV ?n s = Inr (bp, s1)" "bufdata s1 bp = ?c ?n" "log_frame s s1" "log_write bp (set_bufdata bp ?d s1) = Inr s2"
        "brelse bp s2 = Inr s3" "txn p K s3" "content (babs s3) = ?c(?n := ?d)" "log_frame s s3" "budget (Suc m) s3" "\<forall>x\<in>K. bof s3 x = bof s x" by blast
    have ut: "unat (of_nat t :: u32) = t" by (rule unat_block [OF Suc.prems(3,7)])
    have tK: "of_nat t \<notin> K" using Suc.prems(4,8) ut by (auto simp: holds_data_def)
    have "unat (of_nat t :: u32) < 2 ^ 31" using ut Suc.prems(3,7) by (simp add: fs_geom_def)
    from bzero_ok [OF u(6) tK this u(9) cK] obtain s4 where z: "bzero ROOTDEV (of_nat t) s3 = Inr s4" "txn p K s4"
        "content (babs s4) = (content (babs s3))(of_nat t := replicate BSIZE 0)" "log_frame s3 s4" "budget m s4" "\<forall>x\<in>K. bof s4 x = bof s3 x" by blast
    have sz: "sb s1 = q" using log_frame_inode(1) [OF u(3)] Suc.prems(2) by simp
    have "BPB * j + ?bi = t" using Suc.prems(6) by simp
    moreover have "allocated q t ?c = content (babs s4)"
      using bitmap_entry(2) [of ?bi j] bitmap_entry(3) [of ?bi j q] True Suc.prems(2) \<open>BPB * j + ?bi = t\<close> by (simp add: z(3) u(7) allocated_def)
    ultimately show ?thesis using u z sc sz log_frame_trans [OF u(8) z(4)] by auto
  next
    case False
    have "scan (bit_clear (?c ?n)) 0 (min BPB (unat (sb_size q) - BPB * j)) = None"
      using balloc_not_found [of j "unat (sb_size q)" q ?c] Suc.prems(2,9) False by simp
    moreover from ltxn.peek_block [OF Suc.prems(1) nb Suc.prems(5) cK]
    obtain bp s1 s2 where u: "bread ROOTDEV ?n s = Inr (bp, s1)" "bufdata s1 bp = ?c ?n" "log_frame s s1"
        "brelse bp s1 = Inr s2" "txn p K s2" "content (babs s2) = ?c" "log_frame s s2" "budget (Suc (Suc m)) s2" "\<forall>x\<in>K. bof s2 x = bof s x" by blast
    moreover have sz: "sb s1 = q" "sb s2 = q" using log_frame_inode(1) u(3,7) Suc.prems(2) by metis+
    moreover have "\<exists>s'. balloc_loop k (BPB * Suc j) ROOTDEV s2 = Inr (of_nat t, s') \<and> txn p K s' \<and> content (babs s') = allocated q t ?c \<and>
        log_frame s2 s' \<and> budget m s' \<and> (\<forall>x\<in>K. bof s' x = bof s2 x)"
      using Suc.IH [of s2 "Suc j"] Suc.prems u sz False by (auto simp: algebra_simps)
    ultimately show ?thesis using log_frame_trans [OF u(7)] by (auto simp: algebra_simps)
  qed
qed simp


lemma balloc_ok:
  fixes s :: "'a ist_scheme"
  assumes t: "txn p K s" and q: "sb s = q" "fs_geom q D" "meta_used q D (content (babs s))" and K: "holds_data q D (content (babs s)) K"
    and m: "budget (Suc (Suc m)) s" and f: "free_blocks q (content (babs s)) \<noteq> {}"
  defines "b \<equiv> Min (free_blocks q (content (babs s)))"
  shows "D \<le> b \<and> b < unat (sb_size q) \<and> is_free q (content (babs s)) b \<and>
    (\<exists>s'. balloc ROOTDEV s = Inr (of_nat b, s') \<and> txn p K s' \<and> content (babs s') = allocated q b (content (babs s)) \<and>
      log_frame s s' \<and> budget m s' \<and> (\<forall>x\<in>K. bof s' x = bof s x))"
proof -
  let ?F = "free_blocks q (content (babs s))" let ?n = "unat (sb_size q)"
  have fin: "finite ?F" by (simp add: free_blocks_def)
  have b: "b < ?n" "is_free q (content (babs s)) b" using Min_in [OF fin f] by (simp_all add: b_def free_blocks_def)
  have lst: "\<not> is_free q (content (babs s)) x" if "x < b" for x
  proof
    assume "is_free q (content (babs s)) x"
    then have "x \<in> ?F" using that b(1) by (simp add: free_blocks_def)
    then show False using Min_le [OF fin, of x] that by (simp add: b_def)
  qed
  have D: "D \<le> b" using q(3) b(2) by (auto simp: meta_used_def not_le [symmetric])
  have "?n \<le> (?n + BPB - 1) div BPB * BPB" using div_mult_mod_eq [of "?n + BPB - 1" BPB] mod_less_divisor [of BPB "?n + BPB - 1"] by (simp add: BPB_value)
  then have "b < BPB * 0 + (?n + BPB - 1) div BPB * BPB" using b(1) by simp
  from balloc_loop_ok [OF t q(1,2) K m, of 0 b, OF _ b lst this D] show ?thesis
    using D b by (simp add: balloc_def q(1))
qed

lemma cout_bio [simp]:
  fixes s :: "'a lst_scheme"
  shows "bio_inv p (s\<lparr>cout := x\<rparr>) = bio_inv p s" "bof (s\<lparr>cout := x\<rparr>) = bof s" "babs (s\<lparr>cout := x\<rparr>) = babs s" "txn p K (s\<lparr>cout := x\<rparr>) = txn p K s"
    "budget k (s\<lparr>cout := x\<rparr>) = budget k s"
proof -
  have c: "caches (s\<lparr>cout := x\<rparr>) = caches s" by (simp add: caches_def fun_eq_iff)
  have d: "bufdata (s\<lparr>cout := x\<rparr>) = bufdata s" by (simp add: bufdata_def fun_eq_iff)
  have a: "alone (s\<lparr>cout := x\<rparr>) = alone s" by (simp add: alone_def no_proc_locks_def)
  show b: "bof (s\<lparr>cout := x\<rparr>) = bof s" by (simp add: bof_def [abs_def] c)
  show v: "babs (s\<lparr>cout := x\<rparr>) = babs s" by (simp add: babs_def b d cong: option.case_cong)
  show i: "bio_inv p (s\<lparr>cout := x\<rparr>) = bio_inv p s" by (simp add: bio_inv_def quiet_def blist_def buf_ok_def [abs_def] c d a)
  show "txn p K (s\<lparr>cout := x\<rparr>) = txn p K s" by (simp add: txn_def i v logged_def)
  show "budget k (s\<lparr>cout := x\<rparr>) = budget k s" by (simp add: budget_def)
qed

lemma printf_plain: "PrLock \<notin> held s \<Longrightarrow> CHR ''%'' \<notin> set fmt \<Longrightarrow> printf fmt args s = Inr (s\<lparr>cout := cout s @ fmt\<rparr>)"
  using format_loop_plain [of fmt "[]" args] by (intro printf_out) (auto simp: format_loop.simps emit_def)

lemma balloc_loop_full:
  fixes s :: "'a ist_scheme"
  assumes "txn p K s" "sb s = q" "fs_geom q D" "holds_data q D (content (babs s)) K" "budget m s" "free_blocks q (content (babs s)) = {}"
    "k = 0 \<or> BPB * j + (k - 1) * BPB < unat (sb_size q)"
  shows "\<exists>s1. balloc_loop k (BPB * j) ROOTDEV s = Inr (0, s1\<lparr>cout := cout s1 @ ''balloc: out of blocks'' @ [CHR 0x0A]\<rparr>) \<and> txn p K s1 \<and>
    content (babs s1) = content (babs s) \<and> log_frame s s1 \<and> budget m s1 \<and> (\<forall>x\<in>K. bof s1 x = bof s x)"
  using assms
proof (induction k arbitrary: j s)
  case 0
  have "held s = {}" using quietD [OF bio_quiet(1) [OF txnD(1) [OF 0(1)]]] by simp
  then show ?case using 0 by (auto simp: printf_plain)
next
  case (Suc k)
  let ?c = "content (babs s)" and ?n = "BBLOCK (BPB * j) (sb s)"
  have b: "BPB * j < unat (sb_size q)" using Suc.prems(7) by simp
  have nb: "?n \<notin> K" "unat ?n < 2 ^ 31"
    using unat_BBLOCK(2) [OF Suc.prems(3) b] Suc.prems(2-4) by (auto simp: holds_data_def fs_geom_def)
  have cK: "card K \<le> 2" using Suc.prems(4) by (simp add: holds_data_def)
  have "scan (bit_clear (?c ?n)) 0 (min BPB (unat (sb_size q) - BPB * j)) = None"
    using balloc_not_found [of j "unat (sb_size q)" q ?c] Suc.prems(2,6) by (auto simp: free_blocks_def)
  moreover from ltxn.peek_block [OF Suc.prems(1) nb Suc.prems(5) cK]
  obtain bp s1 s2 where u: "bread ROOTDEV ?n s = Inr (bp, s1)" "bufdata s1 bp = ?c ?n" "log_frame s s1"
      "brelse bp s1 = Inr s2" "txn p K s2" "content (babs s2) = ?c" "log_frame s s2" "budget m s2" "\<forall>x\<in>K. bof s2 x = bof s x" by blast
  moreover have sz: "sb s1 = q" "sb s2 = q" using log_frame_inode(1) u(3,7) Suc.prems(2) by metis+
  moreover have "k = 0 \<or> BPB * Suc j + (k - 1) * BPB < unat (sb_size q)" using Suc.prems(7) by (cases k) (auto simp: algebra_simps)
  then have "\<exists>s1. balloc_loop k (BPB * Suc j) ROOTDEV s2 = Inr (0, s1\<lparr>cout := cout s1 @ ''balloc: out of blocks'' @ [CHR 0x0A]\<rparr>) \<and> txn p K s1 \<and>
      content (babs s1) = ?c \<and> log_frame s2 s1 \<and> budget m s1 \<and> (\<forall>x\<in>K. bof s1 x = bof s2 x)"
    using Suc.IH [of s2 "Suc j"] Suc.prems u sz by auto
  ultimately show ?case using log_frame_trans [OF u(7)] by (auto simp: algebra_simps)
qed

lemma balloc_full:
  fixes s :: "'a ist_scheme"
  assumes "txn p K s" "sb s = q" "fs_geom q D" "holds_data q D (content (babs s)) K" "budget m s" "free_blocks q (content (babs s)) = {}"
  shows "\<exists>s1. balloc ROOTDEV s = Inr (0, s1\<lparr>cout := cout s1 @ ''balloc: out of blocks'' @ [CHR 0x0A]\<rparr>) \<and> txn p K s1 \<and>
    content (babs s1) = content (babs s) \<and> log_frame s s1 \<and> budget m s1 \<and> (\<forall>x\<in>K. bof s1 x = bof s x)"
proof -
  let ?n = "unat (sb_size q)" let ?k = "(?n + BPB - 1) div BPB"
  have "?k * BPB \<le> ?n + BPB - 1" by (rule div_times_less_eq_dividend)
  then have "?k = 0 \<or> BPB * 0 + (?k - 1) * BPB < ?n" by (cases ?k) (auto simp: BPB_value)
  from balloc_loop_full [OF assms this] show ?thesis by (simp add: balloc_def assms(2))
qed

lemma bfree_ok:
  fixes s :: "'a ist_scheme"
  assumes t: "txn p K s" and q: "sb s = q" "fs_geom q D" and K: "holds_data q D (content (babs s)) K" and m: "budget (Suc m) s"
    and b: "unat b < unat (sb_size q)" "\<not> is_free q (content (babs s)) (unat b)"
  defines "n \<equiv> BBLOCK (unat b) q"
  shows "\<exists>s'. bfree ROOTDEV b s = Inr s' \<and> txn p K s' \<and> log_frame s s' \<and> budget m s' \<and> (\<forall>x\<in>K. bof s' x = bof s x) \<and>
    content (babs s') = (content (babs s))(n := clear_bit_at (unat b mod BPB) (content (babs s) n))"
proof -
  let ?d = "clear_bit_at (unat b mod BPB) (content (babs s) n)"
  have nb: "n \<notin> K" "unat n < 2 ^ 31"
    using unat_BBLOCK(2) [OF q(2) b(1)] q(2) K by (auto simp: n_def holds_data_def fs_geom_def)
  have cK: "card K \<le> 2" using K by (simp add: holds_data_def)
  have "length ?d = BSIZE" using ltxn.size_law [OF t] by simp
  from ltxn.update_block [OF t nb m cK this] show ?thesis
    using b(2) by (auto simp: bfree_def q(1) n_def [symmetric] is_free_def Let_def)
qed

section \<open>Properties\<close>

text \<open>C21. \<open>balloc\<close> takes the first free block: inside a transaction it returns its number, marks it in the bitmap and
  zeroes it, and no other bit of the bitmap and no block but this one and its block of the bitmap changes; the transaction grows by at
  most two blocks. When the disk is full it returns 0, prints a message, and changes no block and no transaction. \<open>bfree\<close> makes the block free
  again.\<close>

theorem balloc_first_free:
  fixes s :: "'a ist_scheme"
  assumes "txn p {} s" "fs_geom (sb s) D" "meta_used (sb s) D (content (babs s))" "budget 3 s"
  defines "F \<equiv> free_blocks (sb s) (content (babs s))"
  shows "if F = {} then \<exists>s1. balloc ROOTDEV s = Inr (0, s1\<lparr>cout := cout s1 @ ''balloc: out of blocks'' @ [CHR 0x0A]\<rparr>) \<and> content (babs s1) = content (babs s) \<and>
      lh_n (the_log s1) = lh_n (the_log s)
    else \<exists>s1 s2. balloc ROOTDEV s = Inr (of_nat (Min F), s1) \<and> txn p {} s1 \<and>
      free_blocks (sb s1) (content (babs s1)) = F - {Min F} \<and> content (babs s1) (of_nat (Min F)) = replicate BSIZE 0 \<and>
      (\<forall>x. x \<noteq> BBLOCK (Min F) (sb s) \<longrightarrow> x \<noteq> of_nat (Min F) \<longrightarrow> content (babs s1) x = content (babs s) x) \<and>
      lh_n (the_log s1) \<le> lh_n (the_log s) + 2 \<and>
      bfree ROOTDEV (of_nat (Min F)) s1 = Inr s2 \<and> free_blocks (sb s2) (content (babs s2)) = F"
proof (cases "F = {}")
  case True
  obtain m where m: "budget m s" "\<And>s'. log_frame s s' \<Longrightarrow> budget m s' \<Longrightarrow> lh_n (the_log s') \<le> lh_n (the_log s)"
    using budget_growth [OF assms(4), of 0] by auto
  obtain s1 where s1: "balloc ROOTDEV s = Inr (0, s1\<lparr>cout := cout s1 @ ''balloc: out of blocks'' @ [CHR 0x0A]\<rparr>)"
      "content (babs s1) = content (babs s)" "log_frame s s1" "budget m s1"
    using balloc_full [OF assms(1) refl assms(2) holds_none m(1)] True by (auto simp: F_def)
  then have "lh_n (the_log s1) = lh_n (the_log s)" using m(2) [OF s1(3,4)] by (simp add: log_frame_def)
  then show ?thesis using True s1(1,2) by auto
next
  case False
  let ?q = "sb s" and ?c = "content (babs s)" let ?b = "Min F" let ?w = "of_nat ?b :: u32"
  obtain m where m: "budget (Suc (Suc (Suc m))) s"
      "\<And>s'. log_frame s s' \<Longrightarrow> budget (Suc m) s' \<Longrightarrow> lh_n (the_log s') \<le> lh_n (the_log s) + 2"
  proof -
    obtain M where M: "3 \<le> M" "budget M s" "\<And>s'. log_frame s s' \<Longrightarrow> budget (M - 2) s' \<Longrightarrow> lh_n (the_log s') \<le> lh_n (the_log s) + 2"
      using budget_growth [OF assms(4), of 2] by auto
    then have "Suc (Suc (Suc (M - 3))) = M" "Suc (M - 3) = M - 2" by simp_all
    then show ?thesis using that [of "M - 3"] M(2,3) by simp
  qed
  from balloc_ok [OF assms(1) refl assms(2,3) holds_none m(1)] False
  obtain s1 where b: "D \<le> ?b" "?b < unat (sb_size ?q)" "is_free ?q ?c ?b" and s1: "balloc ROOTDEV s = Inr (?w, s1)" "txn p {} s1"
      "content (babs s1) = allocated ?q ?b ?c" "log_frame s s1" "budget (Suc m) s1" by (auto simp: F_def)
  have u: "unat ?w = ?b" by (rule unat_block [OF assms(2) b(2)])
  have l: "length (?c x) = BSIZE" for x using ltxn.size_law [OF assms(1)] .
  have fr: "is_free ?q (content (babs s1)) x \<longleftrightarrow> x \<noteq> ?b \<and> is_free ?q ?c x" if "x < unat (sb_size ?q)" for x
    unfolding s1(3) allocated_def using is_free_data [OF assms(2) that, of ?w] is_free_set(1) [OF assms(2) b(2) that l] u b(1) by simp
  have q1: "sb s1 = ?q" using log_frame_inode(1) [OF s1(4)] .
  have "\<not> is_free ?q (content (babs s1)) (unat ?w)" using fr [OF b(2)] u by simp
  with bfree_ok [OF s1(2) q1 assms(2) holds_none, of m ?w] s1(5) u b(2)
  obtain s2 where s2: "bfree ROOTDEV ?w s1 = Inr s2" "log_frame s1 s2"
      "content (babs s2) = (content (babs s1))(BBLOCK ?b ?q := clear_bit_at (?b mod BPB) (content (babs s1) (BBLOCK ?b ?q)))"
    by auto
  have l1: "length (content (babs s1) x) = BSIZE" for x using ltxn.size_law [OF s1(2)] .
  have q2: "sb s2 = ?q" using log_frame_inode(1) [OF s2(2)] q1 by simp
  have "is_free ?q (content (babs s2)) x \<longleftrightarrow> x = ?b \<or> is_free ?q (content (babs s1)) x" if "x < unat (sb_size ?q)" for x
    unfolding s2(3) by (rule is_free_set(2) [where c = "content (babs s1)", OF assms(2) b(2) that l1])
  then have "free_blocks ?q (content (babs s2)) = F" using fr b by (auto simp: free_blocks_def F_def)
  moreover have "free_blocks ?q (content (babs s1)) = F - {?b}" using fr by (auto simp: free_blocks_def F_def)
  moreover have "content (babs s1) x = ?c x" if "x \<noteq> BBLOCK ?b ?q" "x \<noteq> ?w" for x
    using that by (simp add: s1(3) allocated_def)
  moreover have "lh_n (the_log s1) \<le> lh_n (the_log s) + 2" by (rule m(2) [OF s1(4,5)])
  moreover have "content (babs s1) ?w = replicate BSIZE 0" by (simp add: s1(3) allocated_def)
  ultimately show ?thesis using False s1(1,2) s2(1) q1 q2 by auto
qed


text \<open>A small file system: the blocks up to 47 are in use, one empty file is in the table.\<close>

definition demo_medium :: "nat \<Rightarrow> u8" where
  "demo_medium a = (if BSIZE * 45 \<le> a \<and> a < BSIZE * 45 + 6 then 255 else 0)"

definition demo_inode :: inode where
  "demo_inode = \<lparr>i_dev = ROOTDEV, i_inum = 5, i_ref = 1, i_valid = True, i_type = T_FILE, i_major = 0, i_minor = 0, i_nlink = 1, i_size = 0,
     i_addrs = replicate 13 0\<rparr>"

definition demo_ist :: ist where
  "demo_ist = binit (lst.extend (vst.extend (demo_vst\<lparr>cur := Some 0, bufs := (\<lambda>i. \<lparr>b_valid = False, b_disk = False, b_dev = 0, b_blockno = 0,
     b_refcnt = 0, b_prev = 0, b_next = 0\<rparr>), vd := demo_disk\<lparr>vq := (vq demo_disk)\<lparr>medium := demo_medium\<rparr>\<rparr>\<rparr>) (lst.fields demo_log))
     (ist.fields demo_sb (\<lambda>_. demo_inode)))"

lemma binit_loop_inode: "sb (binit_loop k b s) = sb s" "itable (binit_loop k b s) = itable s"
  by (induction k arbitrary: b s) (simp_all add: initsleeplock_def upd_sl_def link_front_def updb_def Let_def)

lemma demo_ist_simps: "the_log demo_ist = demo_log" "sb demo_ist = demo_sb" "itable demo_ist i = demo_inode"
  "vd demo_ist = demo_disk\<lparr>vq := (vq demo_disk)\<lparr>medium := demo_medium\<rparr>\<rparr>"
  by (simp_all add: demo_ist_def binit_def binit_loop_log binit_loop_inode binit_loop_fields updb_def vst.defs lst.defs ist.defs)

lemma demo_ist_inv: "bio_inv 0 demo_ist" "bof demo_ist = (\<lambda>_. None)" "nfree (babs demo_ist) = 30"
proof -
  have "driver_idle (demo_disk\<lparr>vq := (vq demo_disk)\<lparr>medium := demo_medium\<rparr>\<rparr>)"
    using demo_driver_idle by (simp add: driver_idle_def driver_ready_def)
  then have "bio_inv 0 demo_ist \<and> blist demo_ist (rev [0..<NBUF]) \<and> bof demo_ist = (\<lambda>_. None) \<and> nfree (babs demo_ist) = NBUF"
    unfolding demo_ist_def using demo_vst_simps(1-3)
    by (intro binit_inv) (simp_all add: vst.defs lst.defs ist.defs fresh_bufs_def bufdata_def alone_def no_proc_locks_def demo_disk_def)
  then show "bio_inv 0 demo_ist" "bof demo_ist = (\<lambda>_. None)" "nfree (babs demo_ist) = 30" by (auto simp: NBUF_def)
qed

lemma demo_ist_content: "content (babs demo_ist) x = map demo_medium [BSIZE * unat x..<BSIZE * unat x + BSIZE]"
  by (intro nth_equalityI) (simp_all add: babs_def dblock_def demo_ist_inv(2) demo_ist_simps)

lemma demo_ist_byte: "i < BSIZE \<Longrightarrow> content (babs demo_ist) x ! i = demo_medium (BSIZE * unat x + i)"
  by (simp add: demo_ist_content)

lemma demo_txn: "txn 0 {} demo_ist" "budget 25 demo_ist"
proof -
  have "logged demo_ist = {}" by (simp add: logged_def demo_ist_simps demo_log_def)
  then show "txn 0 {} demo_ist"
    using demo_ist_inv by (simp add: txn_def demo_ist_simps demo_log_def NBUF_def LOGSIZE_def) (simp add: babs_def)
  show "budget 25 demo_ist" by (simp add: budget_def demo_ist_simps demo_log_def NBUF_def)
qed

lemma demo_geom: "fs_geom demo_sb 47"
  by (simp add: fs_geom_def demo_sb_def BPB_value IPB_def)

lemma demo_free: "b < 8192 \<Longrightarrow> is_free demo_sb (content (babs demo_ist)) b \<longleftrightarrow> 48 \<le> b"
proof -
  assume b: "b < 8192"
  then have "b div 8 < 1024" by (simp add: div_less_iff_less_mult)
  then have "content (babs demo_ist) 45 ! (b div 8) = (if b div 8 < 6 then 255 else 0)"
    using demo_ist_byte [of "b div 8" 45] by (simp add: demo_medium_def BSIZE_def)
  moreover have "bit (255 :: u8) k" if "k < 8" for k
    using that by (simp add: less_Suc_eq numeral_eq_Suc) auto
  moreover have "b div 8 < 6 \<longleftrightarrow> \<not> 48 \<le> b" by (simp add: div_less_iff_less_mult not_le)
  ultimately show ?thesis using b by (simp add: is_free_def BBLOCK_def demo_sb_def BPB_value bit_clear_bit)
qed

theorem balloc_first_free_witness:
  "\<exists>s1. balloc ROOTDEV demo_ist = Inr (48, s1) \<and> content (babs s1) 48 = replicate BSIZE 0 \<and> txn 0 {} s1"
proof -
  let ?F = "free_blocks (sb demo_ist) (content (babs demo_ist))"
  have m: "meta_used (sb demo_ist) 47 (content (babs demo_ist))" by (simp add: meta_used_def demo_free demo_ist_simps)
  have "48 \<in> ?F" "x \<in> ?F \<Longrightarrow> 48 \<le> x" for x
    using demo_free [of x] demo_free [of 48] by (cases "x < 8192"; simp add: free_blocks_def demo_ist_simps demo_sb_def)+
  then have "Min ?F = 48" "?F \<noteq> {}" by (auto intro!: Min_eqI simp: free_blocks_def)
  moreover have "budget 3 demo_ist" using demo_txn(2) by (simp add: budget_def)
  moreover have "fs_geom (sb demo_ist) 47" using demo_geom by (simp add: demo_ist_simps)
  ultimately show ?thesis using balloc_first_free [OF demo_txn(1) _ m] by auto
qed

end
