(* ===== verification/Fsdata.thy ===== *)
theory Fsdata
  imports Balloc
begin

text \<open>
  The contents of an inode (\<open>bmap\<close>, \<open>readi\<close>, \<open>writei\<close> of \<open>kernel/fs.c\<close>): the blocks of a file form an injective map into the
  data blocks that are in use, \<open>bmap\<close> extends it, and reading and writing are reading and writing of a sequence of bytes.
\<close>

section \<open>The map of an inode\<close>

definition iaddr :: "(u32 \<Rightarrow> u8 list) \<Rightarrow> inode \<Rightarrow> nat \<Rightarrow> u32" where
  "iaddr c r bn =
     (if bn < NDIRECT then i_addrs r ! bn
      else if i_addrs r ! NDIRECT = 0 then 0 else get32 (c (i_addrs r ! NDIRECT)) (4 * (bn - NDIRECT)))"

definition data_ok :: "superblock \<Rightarrow> nat \<Rightarrow> (u32 \<Rightarrow> u8 list) \<Rightarrow> u32 \<Rightarrow> bool" where
  "data_ok q D c a \<longleftrightarrow> D \<le> unat a \<and> unat a < unat (sb_size q) \<and> \<not> is_free q c (unat a)"

definition map_ok :: "superblock \<Rightarrow> nat \<Rightarrow> (u32 \<Rightarrow> u8 list) \<Rightarrow> u32 \<Rightarrow> (nat \<Rightarrow> u32) \<Rightarrow> bool" where
  "map_ok q D c ind m \<longleftrightarrow> (\<forall>bn<MAXFILE. m bn \<noteq> 0 \<longrightarrow> data_ok q D c (m bn) \<and> m bn \<noteq> ind) \<and> (ind \<noteq> 0 \<longrightarrow> data_ok q D c ind) \<and>
     (\<forall>bn<MAXFILE. \<forall>bn'<MAXFILE. m bn = m bn' \<longrightarrow> m bn \<noteq> 0 \<longrightarrow> bn = bn')"

definition inode_ok :: "superblock \<Rightarrow> nat \<Rightarrow> (u32 \<Rightarrow> u8 list) \<Rightarrow> inode \<Rightarrow> bool" where
  "inode_ok q D c r \<longleftrightarrow> length (i_addrs r) = NDIRECT + 1 \<and> i_dev r = ROOTDEV \<and> unat (i_inum r) < unat (sb_ninodes q) \<and>
     map_ok q D c (i_addrs r ! NDIRECT) (iaddr c r)"

text \<open>The blocks that the inode refers to.\<close>

definition iblocks :: "(u32 \<Rightarrow> u8 list) \<Rightarrow> inode \<Rightarrow> u32 set" where
  "iblocks c r = ({i_addrs r ! NDIRECT} \<union> iaddr c r ` {..<MAXFILE}) - {0}"

lemma iblocks_data: "inode_ok q D c r \<Longrightarrow> a \<in> iblocks c r \<Longrightarrow> data_ok q D c a"
  by (auto simp: inode_ok_def iblocks_def map_ok_def)

lemma iblocksI: "bn < MAXFILE \<Longrightarrow> iaddr c r bn \<noteq> 0 \<Longrightarrow> iaddr c r bn \<in> iblocks c r"
  by (auto simp: iblocks_def)

lemma iaddr_cong: "(i_addrs r ! NDIRECT \<noteq> 0 \<Longrightarrow> c' (i_addrs r ! NDIRECT) = c (i_addrs r ! NDIRECT)) \<Longrightarrow> iaddr c' r = iaddr c r"
  by (auto simp: iaddr_def)

lemma map_ok_data: "map_ok q D c ind m \<Longrightarrow> (\<And>a. data_ok q D c a \<Longrightarrow> data_ok q D c' a) \<Longrightarrow> map_ok q D c' ind m"
  by (simp add: map_ok_def)

lemma map_ok_upd:
  assumes "map_ok q D c ind m" "data_ok q D c a" "a \<noteq> ind" "\<And>bn'. bn' < MAXFILE \<Longrightarrow> m bn' \<noteq> a"
    "\<And>bn'. bn' < MAXFILE \<Longrightarrow> m' bn' = (if bn' = bn then a else m bn')"
  shows "map_ok q D c ind m'"
  using assms unfolding map_ok_def by (auto split: if_splits)

lemma map_ok_ind:
  assumes "map_ok q D c 0 m" "data_ok q D c a" "\<And>bn'. bn' < MAXFILE \<Longrightarrow> m bn' \<noteq> a"
  shows "map_ok q D c a m"
  using assms unfolding map_ok_def by auto

text \<open>A block that is free is not one of the inode's.\<close>

lemma fresh_block:
  assumes "inode_ok q D c r" "is_free q c b" "unat (of_nat b :: u32) = b"
  shows "of_nat b \<notin> iblocks c r"
  using iblocks_data [OF assms(1), of "of_nat b"] assms(2,3) by (auto simp: data_ok_def)

lemma data_ok_allocated:
  assumes g: "fs_geom q D" and b: "D \<le> b" "b < unat (sb_size q)" and l: "\<And>x. length (c x) = BSIZE"
  shows "data_ok q D (allocated q b c) a \<longleftrightarrow> data_ok q D c a \<or> a = of_nat b"
    "is_free q (allocated q b c) x \<and> x < unat (sb_size q) \<longleftrightarrow> x \<noteq> b \<and> is_free q c x \<and> x < unat (sb_size q)"
    "D \<le> unat a \<Longrightarrow> a \<noteq> of_nat b \<Longrightarrow> allocated q b c a = c a" "allocated q b c (of_nat b) = replicate BSIZE 0"
proof -
  have u: "unat (of_nat b :: u32) = b" by (rule unat_block [OF g b(2)])
  have f: "is_free q (allocated q b c) x \<longleftrightarrow> x \<noteq> b \<and> is_free q c x" if "x < unat (sb_size q)" for x
    unfolding allocated_def using is_free_data [OF g that, of "of_nat b"] is_free_set(1) [OF g b(2) that l] u b(1) by simp
  then show "is_free q (allocated q b c) x \<and> x < unat (sb_size q) \<longleftrightarrow> x \<noteq> b \<and> is_free q c x \<and> x < unat (sb_size q)" by auto
  have "a = of_nat b \<longleftrightarrow> unat a = b" using u by auto
  then show "data_ok q D (allocated q b c) a \<longleftrightarrow> data_ok q D c a \<or> a = of_nat b"
    using f [of "unat a"] b by (auto simp: data_ok_def)
  show "D \<le> unat a \<Longrightarrow> a \<noteq> of_nat b \<Longrightarrow> allocated q b c a = c a"
    using unat_BBLOCK(2) [OF g b(2)] by (auto simp: allocated_def)
  show "allocated q b c (of_nat b) = replicate BSIZE 0" by (simp add: allocated_def)
qed

lemma inode_ok_allocated:
  assumes g: "fs_geom q D" and b: "D \<le> b" "b < unat (sb_size q)" "is_free q c b" and l: "\<And>x. length (c x) = BSIZE" and r: "inode_ok q D c r"
  shows "inode_ok q D (allocated q b c) r" "iaddr (allocated q b c) r = iaddr c r" "a \<in> iblocks c r \<Longrightarrow> allocated q b c a = c a"
    "of_nat b \<notin> iblocks c r" "data_ok q D (allocated q b c) (of_nat b)"
proof -
  note d = data_ok_allocated [where c = c, OF g b(1,2) l]
  show f: "of_nat b \<notin> iblocks c r" using fresh_block [OF r b(3)] unat_block [OF g b(2)] by blast
  show c: "allocated q b c a = c a" if "a \<in> iblocks c r" for a
    using that f iblocks_data [OF r that] d(3) [of a] by (auto simp: data_ok_def)
  show i: "iaddr (allocated q b c) r = iaddr c r" by (rule iaddr_cong) (rule c, simp add: iblocks_def)
  show "data_ok q D (allocated q b c) (of_nat b)" using d(1) by simp
  show "inode_ok q D (allocated q b c) r" using r map_ok_data [of q D c _ "iaddr c r" "allocated q b c"] d(1) by (auto simp: inode_ok_def i)
qed

lemma file_consts: "NDIRECT = 12" "NINDIRECT = 256" "MAXFILE = 268" "BSIZE = 1024"
  by (simp_all add: NDIRECT_def NINDIRECT_def MAXFILE_def BSIZE_def)

text \<open>The three ways to extend the map.\<close>

lemma set_direct:
  assumes r: "inode_ok q D c r" and a: "data_ok q D c a" "a \<notin> iblocks c r" "a \<noteq> 0" and bn: "bn < NDIRECT"
  shows "iaddr c (r\<lparr>i_addrs := (i_addrs r)[bn := a]\<rparr>) = (iaddr c r)(bn := a)" "inode_ok q D c (r\<lparr>i_addrs := (i_addrs r)[bn := a]\<rparr>)"
proof -
  show i: "iaddr c (r\<lparr>i_addrs := (i_addrs r)[bn := a]\<rparr>) = (iaddr c r)(bn := a)"
    using bn r by (auto simp: iaddr_def inode_ok_def fun_eq_iff)
  have "i_addrs r ! NDIRECT \<noteq> a" using a by (auto simp: iblocks_def)
  moreover have "iaddr c r bn' \<noteq> a" if "bn' < MAXFILE" for bn' using a that iblocksI [of bn' c r] by auto
  ultimately show "inode_ok q D c (r\<lparr>i_addrs := (i_addrs r)[bn := a]\<rparr>)"
    using r bn a(1) unfolding inode_ok_def i by (auto intro!: map_ok_upd [where m = "iaddr c r" and a = a and bn = bn])
qed


lemma get32_zeros: "p + 4 \<le> BSIZE \<Longrightarrow> get32 (replicate BSIZE 0) p = 0"
  by (simp add: get32_def get_le_def segment_def min_def numeral_eq_Suc)

lemma set_indirect:
  assumes r: "inode_ok q D c r" and a: "data_ok q D c a" "a \<notin> iblocks c r" "a \<noteq> 0" and z: "i_addrs r ! NDIRECT = 0" "c a = replicate BSIZE 0"
  shows "bn < MAXFILE \<Longrightarrow> iaddr c (r\<lparr>i_addrs := (i_addrs r)[NDIRECT := a]\<rparr>) bn = iaddr c r bn" "inode_ok q D c (r\<lparr>i_addrs := (i_addrs r)[NDIRECT := a]\<rparr>)"
proof -
  let ?r = "r\<lparr>i_addrs := (i_addrs r)[NDIRECT := a]\<rparr>"
  have i: "iaddr c ?r bn = iaddr c r bn" if "bn < MAXFILE" for bn
    using that r a(3) z get32_zeros [of "4 * (bn - NDIRECT)"] by (auto simp: iaddr_def inode_ok_def file_consts)
  then show "bn < MAXFILE \<Longrightarrow> iaddr c ?r bn = iaddr c r bn" .
  have n: "iaddr c r bn' \<noteq> a" if "bn' < MAXFILE" for bn' using a that iblocksI [of bn' c r] by auto
  have "map_ok q D c a (iaddr c r)" using r z(1) by (intro map_ok_ind [OF _ a(1) n]) (simp_all add: inode_ok_def)
  then have "map_ok q D c a (iaddr c ?r)" using i by (simp add: map_ok_def)
  then show "inode_ok q D c ?r" using r by (simp add: inode_ok_def)
qed

lemma data_ok_upd:
  assumes "fs_geom q D" "D \<le> unat x"
  shows "data_ok q D (c(x := d)) a = data_ok q D c a"
  using is_free_data [OF assms(1) _ assms(2)] by (auto simp: data_ok_def)

lemma set_entry:
  assumes g: "fs_geom q D" and r: "inode_ok q D c r" and a: "data_ok q D c a" "a \<notin> iblocks c r" "a \<noteq> 0" and ind: "i_addrs r ! NDIRECT = x" "x \<noteq> 0"
    and l: "length (c x) = BSIZE" and j: "j < NINDIRECT"
  defines "c' \<equiv> c(x := put32 (c x) (4 * j) a)"
  shows "bn < MAXFILE \<Longrightarrow> iaddr c' r bn = ((iaddr c r)(NDIRECT + j := a)) bn" "inode_ok q D c' r"
proof -
  have p: "4 * j + 4 \<le> length (c x)" using j l by (simp add: file_consts)
  have i: "iaddr c' r bn = ((iaddr c r)(NDIRECT + j := a)) bn" if "bn < MAXFILE" for bn
  proof (cases "bn < NDIRECT")
    case False
    then have q: "4 * (bn - NDIRECT) + 4 \<le> length (c x)" using that l by (simp add: file_consts)
    show ?thesis
    proof (cases "bn = NDIRECT + j")
      case True
      then show ?thesis using ind get_put32(1) [OF p] by (simp add: iaddr_def c'_def)
    next
      case ne: False
      then have "4 * (bn - NDIRECT) + 4 \<le> 4 * j \<or> 4 * j + 4 \<le> 4 * (bn - NDIRECT)" using False by linarith
      then show ?thesis using ind ne False get_put32(2) [OF p q] by (simp add: iaddr_def c'_def)
    qed
  qed (simp add: iaddr_def)
  then show "bn < MAXFILE \<Longrightarrow> iaddr c' r bn = ((iaddr c r)(NDIRECT + j := a)) bn" .
  have x: "data_ok q D c x" "x \<noteq> a" using r ind a(2,3) by (auto simp: inode_ok_def map_ok_def iblocks_def)
  then have "D \<le> unat x" by (simp add: data_ok_def)
  then have d: "data_ok q D c' b = data_ok q D c b" for b unfolding c'_def by (rule data_ok_upd [OF g])
  have n: "iaddr c r bn' \<noteq> a" if "bn' < MAXFILE" for bn' using a that iblocksI [of bn' c r] by auto
  have "map_ok q D c x (iaddr c r)" using r ind by (simp add: inode_ok_def)
  then have "map_ok q D c x (iaddr c' r)"
    by (rule map_ok_upd [where a = a and bn = "NDIRECT + j"]) (use a(1) x(2) n i in auto)
  then have "map_ok q D c' x (iaddr c' r)" by (rule map_ok_data) (simp add: d)
  then show "inode_ok q D c' r" using r ind by (simp add: inode_ok_def)
qed

section \<open>Frames\<close>

lemma updi_simps [simp]:
  "the_log (updi i f s) = the_log s" "sb (updi i f s) = sb s" "itable (updi i f s) = (itable s)(i := f (itable s i))"
  "bufs (updi i f s) = bufs s" "slocks (updi i f s) = slocks s" "vd (updi i f s) = vd s" "procs (updi i f s) = procs s" "cur (updi i f s) = cur s"
  "held (updi i f s) = held s" "alone (updi i f s) = alone s" "bufdata (updi i f s) b = bufdata s b" "pmem (updi i f s) = pmem s"
  by (simp_all add: updi_def alone_def no_proc_locks_def bufdata_def)

lemma updi_txn [simp]:
  "bio_inv p (updi i f s) = bio_inv p s" "bof (updi i f s) = bof s" "babs (updi i f s) = babs s" "txn p K (updi i f s) = txn p K s"
  "budget k (updi i f s) = budget k s"
proof -
  have c: "caches (updi i f s) = caches s" by (simp add: caches_def fun_eq_iff)
  show b: "bof (updi i f s) = bof s" by (simp add: bof_def [abs_def] c)
  show v: "babs (updi i f s) = babs s" by (simp add: babs_def b cong: option.case_cong)
  show i: "bio_inv p (updi i f s) = bio_inv p s" by (simp add: bio_inv_def quiet_def blist_def buf_ok_def [abs_def] c)
  show "txn p K (updi i f s) = txn p K s" by (simp add: txn_def i v logged_def)
  show "budget k (updi i f s) = budget k s" by (simp add: budget_def)
qed

text \<open>Only the cache, the log and inode \<open>i\<close> have changed.\<close>

definition inode_frame :: "nat \<Rightarrow> 'a ist_scheme \<Rightarrow> 'a ist_scheme \<Rightarrow> bool" where
  "inode_frame i s s' \<longleftrightarrow> log_frame (updi i (\<lambda>_. itable s' i) s) s'"

lemma inode_frame_log: "log_frame s s' \<Longrightarrow> inode_frame i s s'"
proof -
  assume a: "log_frame s s'"
  have "updi i (\<lambda>_. itable s' i) s = s" using log_frame_inode(2) [OF a] by (simp add: updi_def)
  then show ?thesis using a by (simp add: inode_frame_def)
qed

lemma log_frame_updi: "log_frame s s' \<Longrightarrow> log_frame (updi i f s) (updi i f s')"
proof -
  assume a: "log_frame s s'"
  then have e: "s' = s\<lparr>slocks := slocks s', bufs := bufs s', vd := vd s', the_log := the_log s'\<rparr>" by (simp add: log_frame_def)
  have "updi i f s' = (updi i f s)\<lparr>slocks := slocks s', bufs := bufs s', vd := vd s', the_log := the_log s'\<rparr>" by (subst e) (simp add: updi_def)
  then show ?thesis using a by (simp add: log_frame_def)
qed

lemma inode_frame_updi: "inode_frame i s (updi i f s)"
  by (simp add: inode_frame_def updi_def)

lemma inode_frame_trans: "inode_frame i s s1 \<Longrightarrow> inode_frame i s1 s2 \<Longrightarrow> inode_frame i s s2"
proof -
  assume a: "inode_frame i s s1" "inode_frame i s1 s2"
  have "log_frame (updi i (\<lambda>_. itable s2 i) (updi i (\<lambda>_. itable s1 i) s)) (updi i (\<lambda>_. itable s2 i) s1)"
    using a(1) unfolding inode_frame_def by (rule log_frame_updi)
  moreover have "updi i (\<lambda>_. x) (updi i f s) = updi i (\<lambda>_. x) s" for x f by (simp add: updi_def)
  ultimately show ?thesis using a(2) log_frame_trans unfolding inode_frame_def by metis
qed

lemma inode_frameD:
  assumes "inode_frame i s s'"
  shows "sb s' = sb s" "j \<noteq> i \<Longrightarrow> itable s' j = itable s j" "procs s' = procs s" "cur s' = cur s" "held s' = held s" "pmem s' = pmem s"
proof -
  note f = log_frame_inode [OF assms [unfolded inode_frame_def]] log_frameD [OF assms [unfolded inode_frame_def]]
  show "sb s' = sb s" "procs s' = procs s" "cur s' = cur s" "held s' = held s" "pmem s' = pmem s" using f by simp_all
  show "j \<noteq> i \<Longrightarrow> itable s' j = itable s j" using fun_cong [OF f(2), of j] by simp
qed


section \<open>Extending the map\<close>

definition file_ok :: "nat \<Rightarrow> nat \<Rightarrow> nat \<Rightarrow> 'a ist_scheme \<Rightarrow> bool" where
  "file_ok p D i s \<longleftrightarrow> txn p {} s \<and> fs_geom (sb s) D \<and> meta_used (sb s) D (content (babs s)) \<and> inode_ok (sb s) D (content (babs s)) (itable s i)"

definition free_count :: "'a ist_scheme \<Rightarrow> nat" where
  "free_count s = card (free_blocks (sb s) (content (babs s)))"

text \<open>\<open>balloc\<close> as a file sees it. The blocks of the file do not change, the new block is not one of them and has zeroes.\<close>

definition fresh :: "superblock \<Rightarrow> nat \<Rightarrow> inode \<Rightarrow> (u32 \<Rightarrow> u8 list) \<Rightarrow> u32 \<Rightarrow> (u32 \<Rightarrow> u8 list) \<Rightarrow> bool" where
  "fresh q D r c a c' \<longleftrightarrow> a \<noteq> 0 \<and> data_ok q D c' a \<and> a \<notin> iblocks c r \<and> c' a = replicate BSIZE 0 \<and> (\<forall>x\<in>iblocks c r. c' x = c x) \<and>
     iaddr c' r = iaddr c r \<and> inode_ok q D c' r \<and> meta_used q D c' \<and> card (free_blocks q c) = card (free_blocks q c') + 1"

lemma balloc_fresh:
  fixes s :: "'a ist_scheme"
  assumes t: "txn p K s" and g: "fs_geom (sb s) D" and m: "meta_used (sb s) D (content (babs s))" and r: "inode_ok (sb s) D (content (babs s)) r"
    and K: "holds_data (sb s) D (content (babs s)) K" and k: "budget (Suc (Suc k)) s" and f: "0 < free_count s"
  shows "\<exists>a s'. balloc ROOTDEV s = Inr (a, s') \<and> txn p K s' \<and> budget k s' \<and> log_frame s s' \<and> (\<forall>x\<in>K. bof s' x = bof s x) \<and>
    fresh (sb s) D r (content (babs s)) a (content (babs s'))"
proof -
  let ?q = "sb s" and ?c = "content (babs s)" let ?F = "free_blocks ?q ?c"
  have ne: "?F \<noteq> {}" using f by (auto simp: free_count_def)
  let ?b = "Min ?F"
  from balloc_ok [OF t refl g m K k ne] obtain s' where b: "D \<le> ?b" "?b < unat (sb_size ?q)" "is_free ?q ?c ?b"
    and s': "balloc ROOTDEV s = Inr (of_nat ?b, s')" "txn p K s'" "content (babs s') = allocated ?q ?b ?c" "log_frame s s'" "budget k s'" "\<forall>x\<in>K. bof s' x = bof s x"
    by auto
  have l: "length (?c x) = BSIZE" for x using ltxn.size_law [OF t] .
  note i = inode_ok_allocated [where c = ?c, OF g b l r] and d = data_ok_allocated [where c = ?c, OF g b(1,2) l]
  have "0 < D" "unat (of_nat ?b :: u32) = ?b" using g unat_block [OF g b(2)] by (simp_all add: fs_geom_def)
  then have nz: "(of_nat ?b :: u32) \<noteq> 0" using b(1) by auto
  have "free_blocks ?q (content (babs s')) = ?F - {?b}" using d(2) by (auto simp: s'(3) free_blocks_def)
  moreover have "?b \<in> ?F" "finite ?F" using b by (simp_all add: free_blocks_def)
  ultimately have c: "card ?F = card (free_blocks ?q (content (babs s'))) + 1" by (simp add: card_gt_0_iff Suc_pred ne)
  have mu: "meta_used ?q D (content (babs s'))" unfolding meta_used_def s'(3)
  proof (intro allI impI)
    fix x assume "x < D"
    then show "\<not> is_free ?q (allocated ?q ?b ?c) x" using m g d(2) [of x] by (auto simp: meta_used_def fs_geom_def)
  qed
  have "fresh ?q D r ?c (of_nat ?b) (content (babs s'))"
    using nz i d(4) c mu by (simp add: fresh_def s'(3))
  then show ?thesis using s' by blast
qed

text \<open>What \<open>bmap\<close> does to the map: block \<open>bn\<close> of the file is at \<open>a\<close>; if it is new, it has zeroes.\<close>

definition mapped :: "nat \<Rightarrow> u32 \<Rightarrow> nat \<Rightarrow> 'a ist_scheme \<Rightarrow> 'a ist_scheme \<Rightarrow> bool" where
  "mapped bn a i s s' \<longleftrightarrow>
     (let c = content (babs s); c' = content (babs s'); r = itable s i; r' = itable s' i in
      r' = r\<lparr>i_addrs := i_addrs r'\<rparr> \<and> (\<forall>n<MAXFILE. iaddr c' r' n = (if n = bn then a else iaddr c r n)) \<and>
      (\<forall>n<MAXFILE. iaddr c r n \<noteq> 0 \<longrightarrow> c' (iaddr c r n) = c (iaddr c r n)) \<and>
      (if iaddr c r bn = 0 then c' a = replicate BSIZE 0 else a = iaddr c r bn))"

lemma bmap_direct:
  fixes s :: "'a ist_scheme"
  assumes f: "file_ok p D i s" and bn: "bn < NDIRECT" and k: "budget (Suc (Suc k)) s" and n: "0 < free_count s"
  shows "\<exists>a s'. bmap_slot i bn s = Inr (a, s') \<and> a \<noteq> 0 \<and> file_ok p D i s' \<and> budget k s' \<and> inode_frame i s s' \<and> mapped bn a i s s' \<and> free_count s \<le> free_count s' + 1"
proof -
  let ?r = "itable s i" and ?q = "sb s" and ?c = "content (babs s)"
  have t: "txn p {} s" "fs_geom ?q D" "meta_used ?q D ?c" "inode_ok ?q D ?c ?r" using f by (simp_all add: file_ok_def)
  have bm: "bn < MAXFILE" using bn by (simp add: file_consts)
  have ia: "iaddr ?c ?r bn = i_addrs ?r ! bn" using bn by (simp add: iaddr_def)
  show ?thesis
  proof (cases "i_addrs ?r ! bn = 0")
    case False
    have "budget k s" using k by (simp add: budget_def)
    moreover have "mapped bn (i_addrs ?r ! bn) i s s" using ia False by (simp add: mapped_def Let_def)
    ultimately show ?thesis using False f inode_frame_log [OF log_frame_refl] by (auto simp: bmap_slot_def Let_def)
  next
    case True
    from balloc_fresh [OF t holds_none k n] obtain a s1 where b: "balloc ROOTDEV s = Inr (a, s1)" "txn p {} s1" "budget k s1" "log_frame s s1"
        "fresh ?q D ?r ?c a (content (babs s1))" by auto
    let ?r1 = "?r\<lparr>i_addrs := (i_addrs ?r)[bn := a]\<rparr>" and ?s' = "updi i (\<lambda>r. r\<lparr>i_addrs := (i_addrs r)[bn := a]\<rparr>) s1"
    have e: "itable s1 = itable s" "sb s1 = ?q" using log_frame_inode [OF b(4)] by auto
    note fr = b(5) [unfolded fresh_def]
    have "iblocks (content (babs s1)) ?r = iblocks ?c ?r" using fr by (simp add: iblocks_def)
    then have sd: "iaddr (content (babs s1)) ?r1 = (iaddr ?c ?r)(bn := a)" "inode_ok ?q D (content (babs s1)) ?r1"
      using set_direct [of ?q D "content (babs s1)" ?r a bn] fr bn by simp_all
    have "bmap_slot i bn s = Inr (a, ?s')" using True b(1) fr t(4) by (simp add: bmap_slot_def inode_ok_def)
    moreover have "file_ok p D i ?s'" using b(2) t(2) fr sd(2) by (simp add: file_ok_def e)
    moreover have "inode_frame i s ?s'" using inode_frame_trans inode_frame_log [OF b(4)] inode_frame_updi by blast
    moreover have "mapped bn a i s ?s'" using fr sd(1) ia True iblocksI [of _ ?c ?r] by (simp add: mapped_def Let_def e)
    ultimately show ?thesis using b(3) fr by (auto simp: free_count_def e)
  qed
qed


text \<open>The indirect block.\<close>

lemma bmap_ind:
  fixes s :: "'a ist_scheme"
  assumes f: "file_ok p D i s" and k: "budget (Suc (Suc k)) s" and n: "0 < free_count s"
  shows "\<exists>a s'. bmap_slot i NDIRECT s = Inr (a, s') \<and> a \<noteq> 0 \<and> file_ok p D i s' \<and> budget k s' \<and> inode_frame i s s' \<and> free_count s \<le> free_count s' + 1 \<and>
    itable s' i = (itable s i)\<lparr>i_addrs := i_addrs (itable s' i)\<rparr> \<and> i_addrs (itable s' i) ! NDIRECT = a \<and>
    (\<forall>n<MAXFILE. iaddr (content (babs s')) (itable s' i) n = iaddr (content (babs s)) (itable s i) n) \<and>
    (\<forall>x\<in>iblocks (content (babs s)) (itable s i). content (babs s') x = content (babs s) x)"
proof -
  let ?r = "itable s i" and ?q = "sb s" and ?c = "content (babs s)"
  have t: "txn p {} s" "fs_geom ?q D" "meta_used ?q D ?c" "inode_ok ?q D ?c ?r" using f by (simp_all add: file_ok_def)
  show ?thesis
  proof (cases "i_addrs ?r ! NDIRECT = 0")
    case False
    have "budget k s" using k by (simp add: budget_def)
    then show ?thesis using False f inode_frame_log [OF log_frame_refl] by (auto simp: bmap_slot_def Let_def)
  next
    case True
    from balloc_fresh [OF t holds_none k n] obtain a s1 where b: "balloc ROOTDEV s = Inr (a, s1)" "txn p {} s1" "budget k s1" "log_frame s s1"
        "fresh ?q D ?r ?c a (content (babs s1))" by auto
    let ?r1 = "?r\<lparr>i_addrs := (i_addrs ?r)[NDIRECT := a]\<rparr>" and ?s' = "updi i (\<lambda>r. r\<lparr>i_addrs := (i_addrs r)[NDIRECT := a]\<rparr>) s1"
    have e: "itable s1 = itable s" "sb s1 = ?q" using log_frame_inode [OF b(4)] by auto
    note fr = b(5) [unfolded fresh_def]
    have "iblocks (content (babs s1)) ?r = iblocks ?c ?r" using fr by (simp add: iblocks_def)
    then have sd: "\<And>n. n < MAXFILE \<Longrightarrow> iaddr (content (babs s1)) ?r1 n = iaddr ?c ?r n" "inode_ok ?q D (content (babs s1)) ?r1"
      using set_indirect [of ?q D "content (babs s1)" ?r a] fr True by simp_all
    have "bmap_slot i NDIRECT s = Inr (a, ?s')" using True b(1) fr t(4) by (simp add: bmap_slot_def inode_ok_def)
    moreover have "file_ok p D i ?s'" using b(2) t(2) fr sd(2) by (simp add: file_ok_def e)
    moreover have "inode_frame i s ?s'" using inode_frame_trans inode_frame_log [OF b(4)] inode_frame_updi by blast
    moreover have "i_addrs ?r1 ! NDIRECT = a" using t(4) by (simp add: inode_ok_def)
    ultimately show ?thesis using b(3) fr sd(1) by (auto simp: free_count_def e)
  qed
qed

text \<open>The entry of the indirect block. \<open>bp\<close> is its buffer, which is locked.\<close>

lemma bmap_entry_ok:
  fixes s :: "'a ist_scheme"
  assumes t: "txn p {x} s" and g: "fs_geom (sb s) D" and m: "meta_used (sb s) D (content (babs s))" and r: "inode_ok (sb s) D (content (babs s)) (itable s i)"
    and x: "i_addrs (itable s i) ! NDIRECT = x" "x \<noteq> 0" "bof s x = Some bp" and j: "j < NINDIRECT" and k: "budget (Suc (Suc (Suc k))) s" and n: "0 < free_count s"
  shows "\<exists>a s'. bmap_entry i bp j s = Inr (a, s') \<and> a \<noteq> 0 \<and> txn p {x} s' \<and> log_frame s s' \<and> bof s' x = Some bp \<and> budget k s' \<and>
    meta_used (sb s) D (content (babs s')) \<and> inode_ok (sb s) D (content (babs s')) (itable s i) \<and> mapped (NDIRECT + j) a i s s' \<and> free_count s \<le> free_count s' + 1"
proof -
  let ?r = "itable s i" and ?q = "sb s" and ?c = "content (babs s)" let ?bn = "NDIRECT + j"
  have bd: "bufdata s bp = ?c x" using ltxn.get_law [OF t x(3)] .
  have ia: "iaddr ?c ?r ?bn = get32 (?c x) (4 * j)" using x by (simp add: iaddr_def)
  have bm: "?bn < MAXFILE" using j by (simp add: file_consts)
  have dev: "i_dev ?r = ROOTDEV" using r by (simp add: inode_ok_def)
  have xi: "x \<in> iblocks ?c ?r" using x by (auto simp: iblocks_def)
  show ?thesis
  proof (cases "get32 (?c x) (4 * j) = 0")
    case False
    have "budget k s" using k by (simp add: budget_def)
    moreover have "mapped ?bn (get32 (?c x) (4 * j)) i s s" using ia False by (simp add: mapped_def Let_def)
    ultimately show ?thesis using False t m r x(3) by (auto simp: bmap_entry_def bd Let_def)
  next
    case True
    have K: "holds_data ?q D ?c {x}" using iblocks_data [OF r xi] by (simp add: holds_data_def data_ok_def)
    from balloc_fresh [OF t g m r K k n] obtain a s1 where b: "balloc ROOTDEV s = Inr (a, s1)" "txn p {x} s1" "budget (Suc k) s1" "log_frame s s1"
        "bof s1 x = Some bp" "fresh ?q D ?r ?c a (content (babs s1))" using x(3) by auto
    let ?c1 = "content (babs s1)" let ?d = "put32 (?c1 x) (4 * j) a"
    note fr = b(6) [unfolded fresh_def]
    have e: "itable s1 = itable s" "sb s1 = ?q" using log_frame_inode [OF b(4)] by auto
    have l: "length (?c1 x) = BSIZE" using ltxn.size_law [OF b(2)] .
    have "length ?d = BSIZE" using l j by (simp add: file_consts)
    from ltxn.put_law [OF b(2) _ b(5) this b(3)] obtain s2 where w: "log_write bp (set_bufdata bp ?d s1) = Inr s2" "txn p {x} s2" "bof s2 = bof s1"
        "log_frame s1 s2" "budget k s2" "content (babs s2) = ?c1(x := ?d)" by auto
    have ib: "iblocks ?c1 ?r = iblocks ?c ?r" using fr by (simp add: iblocks_def)
    then have "a \<notin> iblocks ?c1 ?r" using fr by simp
    from set_entry [where c = ?c1, OF g _ _ this _ x(1,2) l j] fr
    have se: "\<And>n. n < MAXFILE \<Longrightarrow> iaddr (content (babs s2)) ?r n = ((iaddr ?c ?r)(?bn := a)) n" "inode_ok ?q D (content (babs s2)) ?r"
      by (simp_all add: w(6))
    have xD: "D \<le> unat x" using iblocks_data [OF r xi] by (simp add: data_ok_def)
    have fm: "is_free ?q (content (babs s2)) b \<longleftrightarrow> is_free ?q ?c1 b" if "b < unat (sb_size ?q)" for b
      unfolding w(6) by (rule is_free_data [OF g that xD])
    then have fb: "free_blocks ?q (content (babs s2)) = free_blocks ?q ?c1" by (auto simp: free_blocks_def)
    have mu: "meta_used ?q D (content (babs s2))" using fr fm g by (auto simp: meta_used_def fs_geom_def)
    have ax: "a \<noteq> x" using fr xi by auto
    have nx: "iaddr ?c ?r n \<noteq> x" if "n < MAXFILE" for n using r x that by (auto simp: inode_ok_def map_ok_def)
    have e2: "itable s2 = itable s" "sb s2 = ?q" using log_frame_inode [OF w(4)] e by auto
    have "mapped ?bn a i s s2"
      using se(1) fr ia True ax nx iblocksI [of _ ?c ?r] by (auto simp: mapped_def Let_def e2 w(6))
    moreover have "bmap_entry i bp j s = Inr (a, s2)"
      using True b(1) w(1) fr ltxn.get_law [OF b(2,5)] by (simp add: bmap_entry_def bd dev Let_def)
    moreover have "free_count s \<le> free_count s2 + 1" using fr by (simp add: free_count_def e2 fb)
    ultimately show ?thesis using fr w(2,3,5) b(5) se(2) mu log_frame_trans [OF b(4) w(4)] by auto
  qed
qed


lemma bmap_indirect_eq:
  assumes "\<not> bn < NDIRECT" "bn - NDIRECT < NINDIRECT"
  shows "bmap i bn s = bindr (bmap_slot i NDIRECT s) (\<lambda>(addr, s1).
    if addr = 0 then Inr (0, s1)
    else bindr (bread (i_dev (itable s1 i)) addr s1) (\<lambda>(bp, s2).
      bindr (bmap_entry i bp (bn - NDIRECT) s2) (\<lambda>(r, s5). bindr (brelse bp s5) (\<lambda>s6. Inr (r, s6)))))"
  using assms by (simp add: bmap_def Let_def)

lemma mapped_frame:
  assumes "mapped bn a i s s1" "itable s' i = itable s1 i" "content (babs s') = content (babs s1)"
  shows "mapped bn a i s s'"
  using assms by (simp add: mapped_def Let_def)

lemma bmap_ok:
  fixes s :: "'a ist_scheme"
  assumes f: "file_ok p D i s" and bn: "bn < MAXFILE" and k: "budget (k + 5) s" and n: "2 \<le> free_count s"
  shows "\<exists>a s'. bmap i bn s = Inr (a, s') \<and> a \<noteq> 0 \<and> file_ok p D i s' \<and> budget k s' \<and> inode_frame i s s' \<and> mapped bn a i s s' \<and> free_count s \<le> free_count s' + 2"
proof (cases "bn < NDIRECT")
  case True
  have "budget (Suc (Suc k)) s" "0 < free_count s" using k n by (simp_all add: budget_def)
  from bmap_direct [OF f True this] show ?thesis using True by (auto simp: bmap_def)
next
  case False
  let ?j = "bn - NDIRECT"
  have j: "?j < NINDIRECT" "NDIRECT + ?j = bn" using bn False by (simp_all add: file_consts)
  have "budget (Suc (Suc (Suc (Suc (Suc k))))) s" "0 < free_count s" using k n by (simp_all add: budget_def)
  from bmap_ind [OF f this] obtain x s1 where s1: "bmap_slot i NDIRECT s = Inr (x, s1)" "x \<noteq> 0" "file_ok p D i s1" "budget (Suc (Suc (Suc k))) s1"
      "inode_frame i s s1" "free_count s \<le> free_count s1 + 1" "itable s1 i = (itable s i)\<lparr>i_addrs := i_addrs (itable s1 i)\<rparr>" "i_addrs (itable s1 i) ! NDIRECT = x"
      "\<And>n. n < MAXFILE \<Longrightarrow> iaddr (content (babs s1)) (itable s1 i) n = iaddr (content (babs s)) (itable s i) n"
      "\<And>x. x \<in> iblocks (content (babs s)) (itable s i) \<Longrightarrow> content (babs s1) x = content (babs s) x" by blast
  have t: "txn p {} s1" "fs_geom (sb s1) D" "meta_used (sb s1) D (content (babs s1))" "inode_ok (sb s1) D (content (babs s1)) (itable s1 i)"
    using s1(3) by (simp_all add: file_ok_def)
  have "x \<in> iblocks (content (babs s1)) (itable s1 i)" using s1(2,8) by (simp add: iblocks_def)
  then have "unat x < 2 ^ 31" using iblocks_data [OF t(4), of x] t(2) by (auto simp: data_ok_def fs_geom_def)
  from ltxn.rd_law [OF t(1) _ this s1(4)] obtain bp s2 where s2: "bread ROOTDEV x s1 = Inr (bp, s2)" "txn p {x} s2" "bof s2 x = Some bp"
      "content (babs s2) = content (babs s1)" "log_frame s1 s2" "budget (Suc (Suc (Suc k))) s2" by auto
  have e2: "itable s2 = itable s1" "sb s2 = sb s1" using log_frame_inode [OF s2(5)] by auto
  have "0 < free_count s2" using n s1(6) by (simp add: free_count_def e2 s2(4))
  from bmap_entry_ok [OF s2(2) _ _ _ _ s1(2) s2(3) j(1) s2(6) this, of D i] t s1(8)
  obtain a s3 where s3: "bmap_entry i bp ?j s2 = Inr (a, s3)" "a \<noteq> 0" "txn p {x} s3" "log_frame s2 s3" "bof s3 x = Some bp" "budget k s3"
      "meta_used (sb s1) D (content (babs s3))" "inode_ok (sb s1) D (content (babs s3)) (itable s1 i)" "mapped bn a i s2 s3" "free_count s2 \<le> free_count s3 + 1"
    by (auto simp: e2 s2(4) j(2))
  from ltxn.rel_law [OF s3(3) _ s3(5,6)] obtain s4 where s4: "brelse bp s3 = Inr s4" "txn p {} s4" "log_frame s3 s4" "budget k s4" "content (babs s4) = content (babs s3)"
    by auto
  have e4: "itable s4 = itable s1" "sb s4 = sb s1" "itable s3 = itable s1" "sb s3 = sb s1" using log_frame_inode [OF s4(3)] log_frame_inode [OF s3(4)] e2 by auto
  have "bmap i bn s = Inr (a, s4)"
    using s1(1,2) s2(1) s3(1) s4(1) t(4) by (simp add: bmap_indirect_eq [OF False j(1)] inode_ok_def)
  moreover have "file_ok p D i s4" using s4(2) t(2) s3(7,8) by (simp add: file_ok_def e4 s4(5))
  moreover have "inode_frame i s s4"
    using inode_frame_trans [OF s1(5) inode_frame_log [OF log_frame_trans [OF log_frame_trans [OF s2(5) s3(4)] s4(3)]]] .
  moreover have "mapped bn a i s s4"
    using s3(9) s1(7) s1(9) s1(10) [OF iblocksI] bn by (auto simp: mapped_def Let_def e4 e2 s4(5) s2(4))
  moreover have "free_count s \<le> free_count s4 + 2" using s1(6) s3(10) by (simp add: free_count_def e4 e2 s4(5) s2(4))
  ultimately show ?thesis using s3(2) s4(4) by blast
qed


text \<open>A block that is there already.\<close>

lemma bmap_mapped:
  fixes s :: "'a ist_scheme"
  assumes f: "file_ok p D i s" and bn: "bn < MAXFILE" and k: "budget k s"
  defines "a \<equiv> iaddr (content (babs s)) (itable s i) bn"
  assumes a: "a \<noteq> 0"
  shows "\<exists>s'. bmap i bn s = Inr (a, s') \<and> txn p {} s' \<and> content (babs s') = content (babs s) \<and> log_frame s s' \<and> budget k s'"
proof (cases "bn < NDIRECT")
  case True
  then show ?thesis using f k a by (auto simp: bmap_def bmap_slot_def a_def iaddr_def Let_def file_ok_def)
next
  case False
  let ?j = "bn - NDIRECT" and ?x = "i_addrs (itable s i) ! NDIRECT"
  have j: "?j < NINDIRECT" using bn False by (simp add: file_consts)
  have t: "txn p {} s" "fs_geom (sb s) D" "inode_ok (sb s) D (content (babs s)) (itable s i)" using f by (simp_all add: file_ok_def)
  have x: "?x \<noteq> 0" "a = get32 (content (babs s) ?x) (4 * ?j)" using a False by (auto simp: a_def iaddr_def split: if_splits)
  then have "?x \<in> iblocks (content (babs s)) (itable s i)" by (simp add: iblocks_def)
  then have "unat ?x < 2 ^ 31" using iblocks_data [OF t(3), of ?x] t(2) by (auto simp: data_ok_def fs_geom_def)
  from ltxn.peek_block [OF t(1) _ this k] obtain bp s1 s2 where s2: "bread ROOTDEV ?x s = Inr (bp, s1)" "bufdata s1 bp = content (babs s) ?x" "log_frame s s1"
      "brelse bp s1 = Inr s2" "txn p {} s2" "content (babs s2) = content (babs s)" "log_frame s s2" "budget k s2" by auto
  have "bmap_entry i bp ?j s1 = Inr (a, s1)" using a x by (simp add: bmap_entry_def s2(2) Let_def)
  then show ?thesis using s2 x t(3) by (simp add: bmap_indirect_eq [OF False j] bmap_slot_def Let_def inode_ok_def)
qed

section \<open>Reading\<close>

definition fbyte :: "'a ist_scheme \<Rightarrow> nat \<Rightarrow> nat \<Rightarrow> u8" where
  "fbyte s i x = content (babs s) (iaddr (content (babs s)) (itable s i) (x div BSIZE)) ! (x mod BSIZE)"

definition fbytes :: "'a ist_scheme \<Rightarrow> nat \<Rightarrow> nat \<Rightarrow> nat \<Rightarrow> u8 list" where
  "fbytes s i off n = map (fbyte s i) [off..<off + n]"

definition has :: "'a ist_scheme \<Rightarrow> nat \<Rightarrow> nat \<Rightarrow> bool" where
  "has s i bn \<longleftrightarrow> iaddr (content (babs s)) (itable s i) bn \<noteq> 0"

lemma fbytes_append: "fbytes s i off (m + n) = fbytes s i off m @ fbytes s i (off + m) n"
proof -
  have "[off..<off + (m + n)] = [off..<off + m] @ [off + m..<off + m + n]" by (metis add.assoc le_add1 upt_add_eq_append)
  then show ?thesis by (simp add: fbytes_def)
qed

lemma same_block:
  fixes off :: nat
  assumes "off mod B + j < B"
  shows "(off + j) div B = off div B" "(off + j) mod B = off mod B + j"
proof -
  have e: "off + j = (off mod B + j) + B * (off div B)" by (simp add: mod_mult_div_eq)
  have d: "(x + B * y) div B = y" "(x + B * y) mod B = x" if "x < B" for x y using that by simp_all
  show "(off + j) div B = off div B" "(off + j) mod B = off mod B + j" by (simp_all only: e d [OF assms])
qed

lemma piece_bytes:
  assumes "length (content (babs s) (iaddr (content (babs s)) (itable s i) (off div BSIZE))) = BSIZE" "off mod BSIZE + m \<le> BSIZE"
  shows "segment (content (babs s) (iaddr (content (babs s)) (itable s i) (off div BSIZE))) (off mod BSIZE) m = fbytes s i off m"
proof (rule nth_equalityI)
  fix j assume "j < length (segment (content (babs s) (iaddr (content (babs s)) (itable s i) (off div BSIZE))) (off mod BSIZE) m)"
  then have j: "j < m" using assms by simp
  then have "off mod BSIZE + j < BSIZE" using assms(2) by simp
  note b = same_block [OF this]
  show "segment (content (babs s) (iaddr (content (babs s)) (itable s i) (off div BSIZE))) (off mod BSIZE) m ! j = fbytes s i off m ! j"
    using j assms by (simp add: nth_segment fbytes_def fbyte_def b)
qed (use assms in \<open>simp add: fbytes_def\<close>)


lemma readi_loop_ok:
  fixes s :: "'a ist_scheme"
  assumes "file_ok p D i s" "budget k s" "tot \<le> n" "off + (n - tot) \<le> MAXFILE * BSIZE"
    "\<And>bn. bn * BSIZE < off + (n - tot) \<Longrightarrow> off < (bn + 1) * BSIZE \<Longrightarrow> has s i bn"
  shows "\<exists>s'. readi_loop i off n tot (Local acc) s = Inr ((of_nat n, Local (acc @ fbytes s i off (n - tot))), s') \<and> file_ok p D i s' \<and> budget k s' \<and>
    log_frame s s' \<and> content (babs s') = content (babs s)"
  using assms
proof (induction "n - tot" arbitrary: off tot acc s rule: less_induct)
  case less
  let ?bn = "off div BSIZE" and ?o = "off mod BSIZE"
  note f = less.prems(1) and k = less.prems(2)
  show ?case
  proof (cases "tot < n")
    case False
    then show ?thesis using less.prems by (subst readi_loop.simps) (auto simp: fbytes_def)
  next
    case True
    let ?m = "min (n - tot) (BSIZE - ?o)" and ?c = "content (babs s)"
    let ?a = "iaddr ?c (itable s i) ?bn"
    have o: "?o < BSIZE" by (simp add: BSIZE_def)
    have bb: "?bn * BSIZE \<le> off" "off < (?bn + 1) * BSIZE" using o by (simp_all add: BSIZE_def)
    have "?bn * BSIZE < MAXFILE * BSIZE" using bb(1) less.prems(4) True by linarith
    then have bn: "?bn < MAXFILE" by simp
    have "?bn * BSIZE < off + (n - tot)" using bb(1) True by linarith
    then have a: "?a \<noteq> 0" using less.prems(5) [OF _ bb(2)] by (simp add: has_def)
    from bmap_mapped [OF f bn k a] obtain s1 where s1: "bmap i ?bn s = Inr (?a, s1)" "txn p {} s1" "content (babs s1) = ?c" "log_frame s s1" "budget k s1" by blast
    have e1: "itable s1 = itable s" "sb s1 = sb s" using log_frame_inode [OF s1(4)] by auto
    have t: "fs_geom (sb s) D" "inode_ok (sb s) D ?c (itable s i)" "meta_used (sb s) D ?c" using f by (simp_all add: file_ok_def)
    have "unat ?a < 2 ^ 31" using iblocks_data [OF t(2) iblocksI [OF bn a]] t(1) by (simp add: data_ok_def fs_geom_def)
    from ltxn.peek_block [OF s1(2) _ this s1(5)] obtain bp s2 s3 where s3: "bread ROOTDEV ?a s1 = Inr (bp, s2)" "bufdata s2 bp = ?c ?a"
        "brelse bp s2 = Inr s3" "txn p {} s3" "content (babs s3) = ?c" "log_frame s1 s3" "budget k s3" by (auto simp: s1(3))
    have fr: "log_frame s s3" using log_frame_trans [OF s1(4) s3(6)] .
    have e3: "itable s3 = itable s" "sb s3 = sb s" using log_frame_inode [OF fr] by auto
    have f3: "file_ok p D i s3" using s3(4) t by (simp add: file_ok_def e3 s3(5))
    have m: "0 < ?m" "?o + ?m \<le> BSIZE" using True o by auto
    have piece: "segment (?c ?a) ?o ?m = fbytes s i off ?m" using f by (intro piece_bytes [OF _ m(2)] ltxn.size_law [where p = p and K = "{}"]) (simp add: file_ok_def)
    have hs: "has s3 i bn" if "bn * BSIZE < off + ?m + (n - (tot + ?m))" "off + ?m < (bn + 1) * BSIZE" for bn
      using less.prems(5) [of bn] that True by (simp add: has_def s3(5) e3)
    have "\<exists>s'. readi_loop i (off + ?m) n (tot + ?m) (Local (acc @ fbytes s i off ?m)) s3 =
        Inr ((of_nat n, Local ((acc @ fbytes s i off ?m) @ fbytes s3 i (off + ?m) (n - (tot + ?m)))), s') \<and> file_ok p D i s' \<and> budget k s' \<and>
        log_frame s3 s' \<and> content (babs s') = content (babs s3)"
      using less.prems(3,4) True m(1) by (intro less.hyps f3 s3(7) hs) auto
    then obtain s' where s': "readi_loop i (off + ?m) n (tot + ?m) (Local (acc @ fbytes s i off ?m)) s3 =
        Inr ((of_nat n, Local ((acc @ fbytes s i off ?m) @ fbytes s3 i (off + ?m) (n - (tot + ?m)))), s')" "file_ok p D i s'" "budget k s'"
        "log_frame s3 s'" "content (babs s') = ?c" by (auto simp: s3(5))
    have "fbytes s3 i (off + ?m) (n - (tot + ?m)) = fbytes s i (off + ?m) (n - (tot + ?m))" by (simp add: fbytes_def fbyte_def s3(5) e3 cong: map_cong)
    moreover have "n - tot = m + (n - (tot + m))" if "m \<le> n - tot" for m using that by simp
    from this [of ?m] have "n - tot = ?m + (n - (tot + ?m))" by simp
    ultimately have "(acc @ fbytes s i off ?m) @ fbytes s3 i (off + ?m) (n - (tot + ?m)) = acc @ fbytes s i off (n - tot)"
      using fbytes_append [of s i off ?m "n - (tot + ?m)"] by simp
    then have "readi_loop i off n tot (Local acc) s = Inr ((of_nat n, Local (acc @ fbytes s i off (n - tot))), s')"
      using True s1(1) s3(1-3) a t(2) s'(1) piece by (subst readi_loop.simps) (simp add: e1 inode_ok_def copy_to_def Let_def)
    then show ?thesis using s' log_frame_trans [OF fr s'(4)] by blast
  qed
qed


section \<open>Writing\<close>

text \<open>The bytes of the file after a change of \<open>bs\<close> at \<open>off\<close>; bytes of blocks that were not there are not specified.\<close>

definition written :: "nat \<Rightarrow> nat \<Rightarrow> u8 list \<Rightarrow> 'a ist_scheme \<Rightarrow> 'a ist_scheme \<Rightarrow> bool" where
  "written i off bs s s' \<longleftrightarrow>
     (\<forall>x<MAXFILE * BSIZE. if off \<le> x \<and> x < off + length bs then has s' i (x div BSIZE) \<and> fbyte s' i x = bs ! (x - off)
        else has s i (x div BSIZE) \<longrightarrow> has s' i (x div BSIZE) \<and> fbyte s' i x = fbyte s i x) \<and>
     itable s' i = (itable s i)\<lparr>i_addrs := i_addrs (itable s' i)\<rparr>"

text \<open>One round of the loop: the block is mapped, read, changed and logged.\<close>

lemma wround_ok:
  fixes s :: "'a ist_scheme"
  assumes f: "file_ok p D i s" and bn: "bn < MAXFILE" and k: "budget (k + 6) s" and n: "2 \<le> free_count s" and o: "pos + length bs \<le> BSIZE" "bs \<noteq> []"
  shows "\<exists>a s1 bp s2 s3 s4. bmap i bn s = Inr (a, s1) \<and> a \<noteq> 0 \<and> bread (i_dev (itable s1 i)) a s1 = Inr (bp, s2) \<and>
    log_write bp (set_bufdata bp (overlay (bufdata s2 bp) pos bs) s2) = Inr s3 \<and> brelse bp s3 = Inr s4 \<and>
    file_ok p D i s4 \<and> budget k s4 \<and> inode_frame i s s4 \<and> free_count s \<le> free_count s4 + 2 \<and> written i (bn * BSIZE + pos) bs s s4"
proof -
  let ?c = "content (babs s)" and ?r = "itable s i" and ?off = "bn * BSIZE + pos"
  have "budget (Suc k + 5) s" using k by (simp add: budget_def)
  from bmap_ok [OF f bn this n] obtain a s1 where s1: "bmap i bn s = Inr (a, s1)" "a \<noteq> 0" "file_ok p D i s1" "budget (Suc k) s1" "inode_frame i s s1"
      "mapped bn a i s s1" "free_count s \<le> free_count s1 + 2" by blast
  let ?c1 = "content (babs s1)" and ?r1 = "itable s1 i"
  note mp = s1(6) [unfolded mapped_def Let_def]
  have t: "txn p {} s1" "fs_geom (sb s1) D" "meta_used (sb s1) D ?c1" "inode_ok (sb s1) D ?c1 ?r1" using s1(3) by (simp_all add: file_ok_def)
  have ia: "iaddr ?c1 ?r1 bn = a" using mp bn by simp
  then have ab: "a \<in> iblocks ?c1 ?r1" using iblocksI [OF bn, of ?c1 ?r1] s1(2) by simp
  then have ad: "data_ok (sb s1) D ?c1 a" using iblocks_data [OF t(4)] by blast
  then have "unat a < 2 ^ 31" "D \<le> unat a" using t(2) by (simp_all add: data_ok_def fs_geom_def)
  let ?d = "overlay (?c1 a) pos bs"
  have la: "length (?c1 a) = BSIZE" using ltxn.size_law [OF t(1)] .
  then have "length ?d = BSIZE" using o by simp
  from ltxn.update_block [OF t(1) _ \<open>unat a < 2 ^ 31\<close> s1(4) _ this] obtain bp s2 s3 s4 where s4: "bread ROOTDEV a s1 = Inr (bp, s2)" "bufdata s2 bp = ?c1 a"
      "log_write bp (set_bufdata bp ?d s2) = Inr s3" "brelse bp s3 = Inr s4" "txn p {} s4" "content (babs s4) = ?c1(a := ?d)" "log_frame s1 s4" "budget k s4" by auto
  let ?c4 = "content (babs s4)"
  have e4: "itable s4 = itable s1" "sb s4 = sb s1" using log_frame_inode [OF s4(7)] by auto
  have ai: "i_addrs ?r1 ! NDIRECT \<noteq> a" using t(4) ia s1(2) bn by (auto simp: inode_ok_def map_ok_def)
  then have i4: "iaddr ?c4 ?r1 = iaddr ?c1 ?r1" by (intro iaddr_cong) (simp add: s4(6))
  have d4: "data_ok (sb s1) D ?c4 x = data_ok (sb s1) D ?c1 x" for x unfolding s4(6) by (rule data_ok_upd [OF t(2) \<open>D \<le> unat a\<close>])
  have io: "inode_ok (sb s1) D ?c4 ?r1" using t(4) map_ok_data [of "sb s1" D ?c1 _ "iaddr ?c1 ?r1" ?c4] d4 by (simp add: inode_ok_def i4)
  have fr: "is_free (sb s1) ?c4 x = is_free (sb s1) ?c1 x" if "x < unat (sb_size (sb s1))" for x
    unfolding s4(6) by (rule is_free_data [OF t(2) that \<open>D \<le> unat a\<close>])
  then have fb: "free_blocks (sb s1) ?c4 = free_blocks (sb s1) ?c1" by (auto simp: free_blocks_def)
  have "meta_used (sb s1) D ?c4" using t(2,3) fr by (auto simp: meta_used_def fs_geom_def)
  then have f4: "file_ok p D i s4" using s4(5) t(2) io by (simp add: file_ok_def e4)
  have b4: "fbyte s4 i x = ?c4 (iaddr ?c1 ?r1 (x div BSIZE)) ! (x mod BSIZE)" for x by (simp add: fbyte_def e4 i4)
  have wr: "written i ?off bs s s4"
    unfolding written_def
  proof (intro conjI allI impI)
    show "itable s4 i = ?r\<lparr>i_addrs := i_addrs (itable s4 i)\<rparr>" using mp by (simp add: e4)
    fix x assume x: "x < MAXFILE * BSIZE"
    then have xm: "x div BSIZE < MAXFILE" by (simp add: less_mult_imp_div_less)
    have xB: "x mod BSIZE < BSIZE" by (simp add: BSIZE_def)
    have xd: "x = x div BSIZE * BSIZE + x mod BSIZE" by simp
    have h4: "has s4 i bn" using ia s1(2) by (simp add: has_def e4 i4)
    show "if ?off \<le> x \<and> x < ?off + length bs then has s4 i (x div BSIZE) \<and> fbyte s4 i x = bs ! (x - ?off)
      else has s i (x div BSIZE) \<longrightarrow> has s4 i (x div BSIZE) \<and> fbyte s4 i x = fbyte s i x"
    proof (cases "x div BSIZE = bn")
      case True
      then obtain y where y: "x = bn * BSIZE + y" "x mod BSIZE = y" using xd by metis
      then have "?off \<le> x \<and> x < ?off + length bs \<longleftrightarrow> pos \<le> x mod BSIZE \<and> x mod BSIZE < pos + length bs" "x - ?off = x mod BSIZE - pos" by auto
      moreover have "fbyte s i x = ?c1 a ! (x mod BSIZE)" if "has s i bn"
        using that True mp bn by (auto simp: fbyte_def has_def split: if_splits)
      ultimately show ?thesis using True o(1) la xB ia h4 by (simp add: b4 s4(6) nth_overlay)
    next
      case False
      have "\<not> (?off \<le> x \<and> x < ?off + length bs)"
      proof
        assume "?off \<le> x \<and> x < ?off + length bs"
        then have "bn * BSIZE \<le> x" "x < bn * BSIZE + BSIZE" using o(1) by auto
        then have "x div BSIZE = bn" by (simp add: div_nat_eqI algebra_simps)
        then show False using False by simp
      qed
      moreover have "has s4 i (x div BSIZE) \<and> fbyte s4 i x = fbyte s i x" if "has s i (x div BSIZE)"
      proof -
        have m1: "iaddr ?c1 ?r1 (x div BSIZE) = iaddr ?c ?r (x div BSIZE)" "?c1 (iaddr ?c ?r (x div BSIZE)) = ?c (iaddr ?c ?r (x div BSIZE))"
          using mp xm False that by (simp_all add: has_def)
        have "iaddr ?c1 ?r1 (x div BSIZE) \<noteq> a" using t(4) ia s1(2) bn xm False by (auto simp: inode_ok_def map_ok_def)
        then have "fbyte s4 i x = fbyte s i x" using m1 by (simp add: b4 s4(6)) (simp add: fbyte_def)
        then show ?thesis using m1 that i4 by (simp add: has_def e4)
      qed
      ultimately show ?thesis by auto
    qed
  qed
  have "free_count s \<le> free_count s4 + 2" using s1(7) by (simp add: free_count_def e4 fb)
  moreover have "inode_frame i s s4" using inode_frame_trans [OF s1(5) inode_frame_log [OF s4(7)]] .
  ultimately show ?thesis using s1(1,2) s4(1-4,8) t(4) f4 wr by (auto simp: inode_ok_def)
qed


lemma written_refl: "written i off [] s s"
  by (auto simp: written_def)

lemma written_trans:
  assumes 1: "written i off xs s s1" and 2: "written i (off + length xs) ys s1 s2"
  shows "written i off (xs @ ys) s s2"
  unfolding written_def
proof (intro conjI allI impI)
  show "itable s2 i = (itable s i)\<lparr>i_addrs := i_addrs (itable s2 i)\<rparr>" using 1 2 unfolding written_def by (metis inode.update_convs(10) inode.surjective)
  fix x assume "x < MAXFILE * BSIZE"
  then show "if off \<le> x \<and> x < off + length (xs @ ys) then has s2 i (x div BSIZE) \<and> fbyte s2 i x = (xs @ ys) ! (x - off)
    else has s i (x div BSIZE) \<longrightarrow> has s2 i (x div BSIZE) \<and> fbyte s2 i x = fbyte s i x"
    using 1 [unfolded written_def, THEN conjunct1, rule_format, of x] 2 [unfolded written_def, THEN conjunct1, rule_format, of x]
    by (auto simp: nth_append split: if_splits)
qed

definition nblk :: "nat \<Rightarrow> nat \<Rightarrow> nat" where
  "nblk off n = (if n = 0 then 0 else (off mod BSIZE + n + BSIZE - 1) div BSIZE)"

lemma nblk_step:
  assumes "0 < n" "m = min n (BSIZE - off mod BSIZE)"
  shows "nblk off n = Suc (nblk (off + m) (n - m))"
proof (cases "n \<le> BSIZE - off mod BSIZE")
  case True
  then have "off mod BSIZE + n \<le> BSIZE" using assms(1) by (simp add: BSIZE_def)
  then have "(off mod BSIZE + n + BSIZE - 1) div BSIZE = 1" using assms(1) by (intro div_nat_eqI) (simp_all add: BSIZE_def)
  then show ?thesis using True assms by (simp add: nblk_def)
next
  case False
  have o: "off mod BSIZE < BSIZE" by (simp add: BSIZE_def)
  have m: "m = BSIZE - off mod BSIZE" "m < n" using False assms(2) by simp_all
  have "BSIZE * (off div BSIZE) + off mod BSIZE = off" by simp
  then have "off + m = BSIZE * (off div BSIZE) + BSIZE" using m o by linarith
  then have "off + m = BSIZE * (off div BSIZE + 1)" by simp
  then have z: "(off + m) mod BSIZE = 0" by simp
  have "off mod BSIZE + n + BSIZE - 1 = (n - m + BSIZE - 1) + BSIZE" using m o by linarith
  then have "(off mod BSIZE + n + BSIZE - 1) div BSIZE = (n - m + BSIZE - 1 + BSIZE) div BSIZE" by simp
  also have "\<dots> = Suc ((n - m + BSIZE - 1) div BSIZE)" by (subst div_add_self2) (simp_all add: BSIZE_def)
  finally have "(off mod BSIZE + n + BSIZE - 1) div BSIZE = Suc ((n - m + BSIZE - 1) div BSIZE)" .
  then show ?thesis using m z by (simp add: nblk_def)
qed

lemma writei_loop_ok:
  fixes s :: "'a ist_scheme"
  assumes "file_ok p D i s" "budget (k + 6 * nblk off (n - tot)) s" "2 * nblk off (n - tot) \<le> free_count s" "length bs = n - tot" "tot \<le> n"
    "off + (n - tot) \<le> MAXFILE * BSIZE"
  shows "\<exists>s'. writei_loop i off n tot (Local bs) s = Inr ((n, off + (n - tot)), s') \<and> file_ok p D i s' \<and> budget k s' \<and> inode_frame i s s' \<and> written i off bs s s'"
  using assms
proof (induction "n - tot" arbitrary: off tot bs s rule: less_induct)
  case less
  show ?case
  proof (cases "tot < n")
    case False
    then have "nblk off (n - tot) = 0" "bs = []" using less.prems(4) by (simp_all add: nblk_def)
    then show ?thesis using less.prems False written_refl inode_frame_log [OF log_frame_refl] by (subst writei_loop.simps) auto
  next
    case True
    let ?bn = "off div BSIZE" and ?o = "off mod BSIZE"
    obtain m where m: "m = min (n - tot) (BSIZE - ?o)" by simp
    have o: "?o < BSIZE" by (simp add: BSIZE_def)
    have ml: "m \<le> n - tot" "?o + m \<le> BSIZE" "0 < m" using True o by (auto simp: m)
    have nb: "nblk off (n - tot) = Suc (nblk (off + m) (n - tot - m))" using nblk_step [OF _ m] True by simp
    have "?bn * BSIZE < MAXFILE * BSIZE" using less.prems(6) True div_times_less_eq_dividend [of off BSIZE] by linarith
    then have bn: "?bn < MAXFILE" by simp
    have tl: "length (take m bs) = m" using ml(1) less.prems(4) by simp
    have k: "budget ((k + 6 * nblk (off + m) (n - tot - m)) + 6) s" using less.prems(2) nb by (simp add: algebra_simps)
    have n2: "2 \<le> free_count s" using less.prems(3) nb by simp
    have "?o + length (take m bs) \<le> BSIZE" "take m bs \<noteq> []" using ml tl by (auto simp del: length_take)
    from wround_ok [OF less.prems(1) bn k n2 this]
    obtain a s1 bp s2 s3 s4 where w: "bmap i ?bn s = Inr (a, s1)" "a \<noteq> 0" "bread (i_dev (itable s1 i)) a s1 = Inr (bp, s2)"
        "log_write bp (set_bufdata bp (overlay (bufdata s2 bp) ?o (take m bs)) s2) = Inr s3" "brelse bp s3 = Inr s4"
        "file_ok p D i s4" "budget (k + 6 * nblk (off + m) (n - tot - m)) s4" "inode_frame i s s4" "free_count s \<le> free_count s4 + 2"
        "written i (?bn * BSIZE + ?o) (take m bs) s s4" by blast
    have e: "n - (tot + m) = n - tot - m" by simp
    have "\<exists>s'. writei_loop i (off + m) n (tot + m) (Local (drop m bs)) s4 = Inr ((n, off + m + (n - (tot + m))), s') \<and> file_ok p D i s' \<and> budget k s' \<and>
        inode_frame i s4 s' \<and> written i (off + m) (drop m bs) s4 s'"
    proof (rule less.hyps)
      show "n - (tot + m) < n - tot" using ml True by linarith
      show "file_ok p D i s4" by (rule w(6))
      show "budget (k + 6 * nblk (off + m) (n - (tot + m))) s4" using w(7) unfolding e .
      show "2 * nblk (off + m) (n - (tot + m)) \<le> free_count s4" using w(9) less.prems(3) nb unfolding e by linarith
      show "length (drop m bs) = n - (tot + m)" using less.prems(4) by simp
      show "tot + m \<le> n" using ml(1) True by linarith
      show "off + m + (n - (tot + m)) \<le> MAXFILE * BSIZE" using less.prems(6) ml(1) by linarith
    qed
    then obtain s' where s': "writei_loop i (off + m) n (tot + m) (Local (drop m bs)) s4 = Inr ((n, off + m + (n - (tot + m))), s')" "file_ok p D i s'" "budget k s'"
        "inode_frame i s4 s'" "written i (off + m) (drop m bs) s4 s'" by blast
    have "off + m + (n - (tot + m)) = off + (n - tot)" using ml(1) by linarith
    moreover have "m \<le> length bs" using ml(1) less.prems(4) by simp
    ultimately have "writei_loop i off n tot (Local bs) s = Inr ((n, off + (n - tot)), s')"
      using True w(1-5) s'(1) by (subst writei_loop.simps) (simp add: copy_from_def Let_def m [symmetric])
    moreover have "written i off bs s s'" using written_trans [of i off "take m bs" s s4 "drop m bs" s'] w(10) s'(5) tl by simp
    ultimately show ?thesis using s'(2,3) inode_frame_trans [OF w(8) s'(4)] by blast
  qed
qed

end
