(* ===== verification/Fsio.thy ===== *)
theory Fsio
  imports Fsdata
begin

text \<open>
  Files (\<open>iupdate\<close>, \<open>readi\<close> and \<open>writei\<close> of \<open>kernel/fs.c\<close>): the fields of an inode on disk, and a file as the sequence of
  bytes that \<open>readi\<close> returns and \<open>writei\<close> changes.
\<close>

section \<open>The inode on disk\<close>

lemma unat_u16_bound: "unat (w :: u16) < 256 ^ 2"
  using unsigned_less [of w] by simp

lemma length_put16 [simp]: "p + 2 \<le> length d \<Longrightarrow> length (put16 d p w) = length d"
  by (simp add: put16_def)

lemma get_put16: "p + 2 \<le> length d \<Longrightarrow> get16 (put16 d p w) p = w"
  using unat_u16_bound [of w] by (simp add: get16_def put16_def)

lemma fold_put32:
  fixes as :: "u32 list"
  assumes "p + 4 * m \<le> length d"
  defines "h \<equiv> fold (\<lambda>k x. put32 x (p + 4 * k) (as ! k)) [0..<m] d"
  shows "length h = length d \<and> (\<forall>k<m. get32 h (p + 4 * k) = as ! k) \<and>
    (\<forall>q j. q + j \<le> length d \<and> (q + j \<le> p \<or> p + 4 * m \<le> q) \<longrightarrow> get_le j h q = get_le j d q)"
  using assms(1) unfolding h_def
proof (induction m)
  case (Suc m)
  let ?h = "fold (\<lambda>k x. put32 x (p + 4 * k) (as ! k)) [0..<m] d"
  have h: "length ?h = length d" "\<And>k. k < m \<Longrightarrow> get32 ?h (p + 4 * k) = as ! k" using Suc by simp_all
  have o: "get_le j ?h q = get_le j d q" if "q + j \<le> length d" "q + j \<le> p \<or> p + 4 * m \<le> q" for q j using Suc that by simp
  have b: "p + 4 * m + 4 \<le> length ?h" using Suc.prems h(1) by simp
  have "get32 (put32 ?h (p + 4 * m) (as ! m)) (p + 4 * k) = as ! k" if "k < Suc m" for k
  proof (cases "k = m")
    case False
    then have "k < m" using that by simp
    then show ?thesis using get_put32(2) [OF b, of "p + 4 * k"] b h(2) by simp
  qed (use get_put32(1) [OF b] in simp)
  moreover have "get_le j (put32 ?h (p + 4 * m) (as ! m)) q = get_le j d q" if "q + j \<le> length d" "q + j \<le> p \<or> p + 4 * Suc m \<le> q" for q j
    using that b h(1) o [of q j] unfolding put32_def by (subst get_put_le_other) auto
  ultimately show ?case using h(1) b by simp
qed simp

lemma put_addrs_ok:
  assumes "p + 52 \<le> length d" "length as = NDIRECT + 1"
  shows "length (put_addrs as p d) = length d" "get_addrs (put_addrs as p d) p = as"
    "q + j \<le> length d \<Longrightarrow> q + j \<le> p \<or> p + 52 \<le> q \<Longrightarrow> get_le j (put_addrs as p d) q = get_le j d q"
proof -
  have e: "put_addrs as p d = fold (\<lambda>k x. put32 x (p + 4 * k) (as ! k)) [0..<13] d" by (simp add: put_addrs_def NDIRECT_def)
  have f: "length (put_addrs as p d) = length d" "\<forall>k<NDIRECT + 1. get32 (put_addrs as p d) (p + 4 * k) = as ! k"
    "\<forall>q j. q + j \<le> length d \<and> (q + j \<le> p \<or> p + 52 \<le> q) \<longrightarrow> get_le j (put_addrs as p d) q = get_le j d q"
    using fold_put32 [of p 13 d as, folded e] assms(1) by (simp_all add: NDIRECT_def)
  show "length (put_addrs as p d) = length d" by (rule f(1))
  show "get_addrs (put_addrs as p d) p = as" using f(2) assms(2) by (intro nth_equalityI) (simp_all add: get_addrs_def del: upt_Suc)
  show "q + j \<le> length d \<Longrightarrow> q + j \<le> p \<or> p + 52 \<le> q \<Longrightarrow> get_le j (put_addrs as p d) q = get_le j d q" using f(3) by simp
qed

lemma put_dinode_ok:
  assumes "off + 64 \<le> length d" "length (i_addrs r) = NDIRECT + 1"
  shows "length (put_dinode r off d) = length d" "get_dinode (put_dinode r off d) off r = r"
    "off' + 64 \<le> length d \<Longrightarrow> off' + 64 \<le> off \<or> off + 64 \<le> off' \<Longrightarrow> get_dinode (put_dinode r off d) off' r' = get_dinode d off' r'"
proof -
  let ?d1 = "put16 d off (i_type r)" let ?d2 = "put16 ?d1 (off + 2) (i_major r)" let ?d3 = "put16 ?d2 (off + 4) (i_minor r)"
  let ?d4 = "put16 ?d3 (off + 6) (i_nlink r)" let ?d5 = "put32 ?d4 (off + 8) (i_size r)"
  have e: "put_dinode r off d = put_addrs (i_addrs r) (off + 12) ?d5" by (simp add: put_dinode_def Let_def)
  have "off + 12 + 52 \<le> length ?d5" using assms(1) by simp
  note p = put_addrs_ok [OF this assms(2)]
  show "length (put_dinode r off d) = length d" using p(1) assms(1) by (simp add: e)
  have w: "unat (w :: u16) < 65536" "unat (v :: u32) < 4294967296" for w v using unsigned_less [of w] unsigned_less [of v] by simp_all
  have "i_type (get_dinode (put_dinode r off d) off r) = i_type r" "i_major (get_dinode (put_dinode r off d) off r) = i_major r"
    "i_minor (get_dinode (put_dinode r off d) off r) = i_minor r" "i_nlink (get_dinode (put_dinode r off d) off r) = i_nlink r"
    "i_size (get_dinode (put_dinode r off d) off r) = i_size r" "i_addrs (get_dinode (put_dinode r off d) off r) = i_addrs r"
    unfolding e using assms(1) p(2) w
    by (simp_all add: get_dinode_def get16_def get32_def p(3) del: add_2_eq_Suc') (simp_all add: put16_def put32_def del: add_2_eq_Suc')
  then show "get_dinode (put_dinode r off d) off r = r" by (intro inode.equality) (simp_all add: get_dinode_def)
  assume o: "off' + 64 \<le> length d" "off' + 64 \<le> off \<or> off + 64 \<le> off'"
  have g: "get_le j (put_dinode r off d) (off' + q) = get_le j d (off' + q)" if "q + j \<le> 64" for j q
  proof -
    have "get_le j ?d5 (off' + q) = get_le j d (off' + q)" unfolding put16_def put32_def using assms(1) o that by (subst get_put_le_other; auto)+
    then show ?thesis unfolding e using assms(1) o that by (subst p(3)) auto
  qed
  then show "get_dinode (put_dinode r off d) off' r' = get_dinode d off' r'"
    using g [of 0] by (simp add: get_dinode_def get16_def get32_def get_addrs_def NDIRECT_def add.assoc del: add_2_eq_Suc')
qed

text \<open>The block of an inode is before the bitmap.\<close>

lemma unat_IBLOCK:
  assumes "fs_geom q D" "unat n < unat (sb_ninodes q)"
  shows "unat (IBLOCK n q) < unat (sb_bmapstart q)" "unat (IBLOCK n q) < D" "unat (IBLOCK n q) < 2 ^ 31"
proof -
  have g: "unat (sb_bmapstart q) < D" "D < 2 ^ 31" using assms(1) by (simp_all add: fs_geom_def)
  have "unat n div IPB \<le> unat (sb_ninodes q) div IPB" using assms(2) by (simp add: div_le_mono)
  then have l: "unat n div IPB + unat (sb_inodestart q) < unat (sb_bmapstart q)" using assms(1) by (simp add: fs_geom_def)
  have u: "unat (of_nat (unat n div IPB) :: u32) = unat n div IPB" using l g by (simp add: unat_of_nat take_bit_nat_eq_self)
  have "unat (IBLOCK n q) = unat (of_nat (unat n div IPB) :: u32) + unat (sb_inodestart q)"
    unfolding IBLOCK_def using l g by (intro unat_add_lem [THEN iffD1]) (simp add: u)
  then show "unat (IBLOCK n q) < unat (sb_bmapstart q)" "unat (IBLOCK n q) < D" "unat (IBLOCK n q) < 2 ^ 31" using l u g by simp_all
qed

lemma is_free_inode:
  assumes "fs_geom q D" "b < unat (sb_size q)" "unat x < unat (sb_bmapstart q)"
  shows "is_free q (c(x := d)) b = is_free q c b"
proof -
  have "BBLOCK b q \<noteq> x" using unat_BBLOCK(1) [OF assms(1,2)] assms(3) by auto
  then show ?thesis by (simp add: is_free_def)
qed

text \<open>The inode on disk is the one in memory.\<close>

definition on_disk :: "nat \<Rightarrow> 'a ist_scheme \<Rightarrow> bool" where
  "on_disk i s \<longleftrightarrow> get_dinode (content (babs s) (IBLOCK (i_inum (itable s i)) (sb s))) (dinode_off (i_inum (itable s i))) (itable s i) = itable s i"

lemma dinode_off_bound: "dinode_off n + 64 \<le> BSIZE"
proof -
  have "unat n mod 16 < 16" by simp
  then show ?thesis by (simp add: dinode_off_def IPB_def BSIZE_def)
qed

lemma iupdate_ok:
  fixes s :: "'a ist_scheme"
  assumes f: "file_ok p D i s" and k: "budget (Suc k) s"
  shows "\<exists>s'. iupdate i s = Inr s' \<and> file_ok p D i s' \<and> budget k s' \<and> log_frame s s' \<and> on_disk i s' \<and>
    (\<forall>x<MAXFILE * BSIZE. has s i (x div BSIZE) \<longrightarrow> has s' i (x div BSIZE) \<and> fbyte s' i x = fbyte s i x)"
proof -
  let ?r = "itable s i" and ?q = "sb s" and ?c = "content (babs s)"
  let ?x = "IBLOCK (i_inum ?r) ?q"
  have t: "txn p {} s" "fs_geom ?q D" "meta_used ?q D ?c" "inode_ok ?q D ?c ?r" using f by (simp_all add: file_ok_def)
  have io: "length (i_addrs ?r) = NDIRECT + 1" "i_dev ?r = ROOTDEV" "unat (i_inum ?r) < unat (sb_ninodes ?q)" using t(4) by (simp_all add: inode_ok_def)
  note x = unat_IBLOCK [OF t(2) io(3)]
  have l: "length (?c ?x) = BSIZE" using ltxn.size_law [OF t(1)] .
  note d = put_dinode_ok [of "dinode_off (i_inum ?r)" "?c ?x" ?r, unfolded l, OF dinode_off_bound io(1)]
  let ?d = "put_dinode ?r (dinode_off (i_inum ?r)) (?c ?x)"
  from ltxn.update_block [OF t(1) _ x(3) k _ d(1)] obtain bp s1 s2 s3 where s3: "bread ROOTDEV ?x s = Inr (bp, s1)" "bufdata s1 bp = ?c ?x" "log_frame s s1"
      "log_write bp (set_bufdata bp ?d s1) = Inr s2" "brelse bp s2 = Inr s3" "txn p {} s3" "content (babs s3) = ?c(?x := ?d)" "log_frame s s3" "budget k s3" by auto
  have e1: "itable s1 = itable s" using log_frame_inode [OF s3(3)] by auto
  have e: "itable s3 = itable s" "sb s3 = ?q" using log_frame_inode [OF s3(8)] by auto
  have u: "iupdate i s = Inr s3" using s3(1,2,4,5) by (simp add: iupdate_def io e1)
  have fr: "is_free ?q (content (babs s3)) b = is_free ?q ?c b" if "b < unat (sb_size ?q)" for b
    unfolding s3(7) by (rule is_free_inode [OF t(2) that x(1)])
  have dd: "data_ok ?q D (content (babs s3)) a = data_ok ?q D ?c a" for a using fr by (auto simp: data_ok_def)
  have same: "content (babs s3) a = ?c a" if "a \<in> iblocks ?c ?r" for a using iblocks_data [OF t(4) that] x(2) by (auto simp: s3(7) data_ok_def)
  then have ia: "iaddr (content (babs s3)) ?r = iaddr ?c ?r" by (intro iaddr_cong) (simp add: iblocks_def)
  have "inode_ok ?q D (content (babs s3)) ?r" using t(4) map_ok_data [of ?q D ?c _ "iaddr ?c ?r" "content (babs s3)"] dd by (simp add: inode_ok_def ia)
  moreover have "meta_used ?q D (content (babs s3))" using t(2,3) fr by (auto simp: meta_used_def fs_geom_def)
  ultimately have f3: "file_ok p D i s3" using s3(6) t(2) by (simp add: file_ok_def e)
  have "on_disk i s3" using d(2) by (simp add: on_disk_def e s3(7))
  moreover have "has s3 i (z div BSIZE) \<and> fbyte s3 i z = fbyte s i z" if "z < MAXFILE * BSIZE" "has s i (z div BSIZE)" for z
    using that iblocksI [of "z div BSIZE" ?c ?r] same by (simp add: has_def fbyte_def e ia less_mult_imp_div_less)
  ultimately show ?thesis using u f3 s3(8,9) by blast
qed

section \<open>Files as sequences of bytes\<close>

text \<open>A file without holes: every byte before its size is in a block of the file.\<close>

definition dense :: "nat \<Rightarrow> 'a ist_scheme \<Rightarrow> bool" where
  "dense i s \<longleftrightarrow> unat (i_size (itable s i)) \<le> MAXFILE * BSIZE \<and> (\<forall>x<unat (i_size (itable s i)). has s i (x div BSIZE))"

definition contents :: "nat \<Rightarrow> 'a ist_scheme \<Rightarrow> u8 list" where
  "contents i s = fbytes s i 0 (unat (i_size (itable s i)))"

lemma length_contents [simp]: "length (contents i s) = unat (i_size (itable s i))"
  by (simp add: contents_def fbytes_def)

lemma set_size [simp]:
  "iaddr c (r\<lparr>i_size := z\<rparr>) = iaddr c r" "inode_ok q D c (r\<lparr>i_size := z\<rparr>) = inode_ok q D c r"
proof -
  show a: "iaddr c (r\<lparr>i_size := z\<rparr>) = iaddr c r" by (simp add: iaddr_def fun_eq_iff)
  show "inode_ok q D c (r\<lparr>i_size := z\<rparr>) = inode_ok q D c r" by (simp add: inode_ok_def a)
qed

lemma set_size_file [simp]:
  "file_ok p D i (updi i (\<lambda>r. r\<lparr>i_size := z\<rparr>) s) = file_ok p D i s"
  "has (updi i (\<lambda>r. r\<lparr>i_size := z\<rparr>) s) i bn = has s i bn" "fbyte (updi i (\<lambda>r. r\<lparr>i_size := z\<rparr>) s) i x = fbyte s i x"
  by (simp_all add: file_ok_def has_def fbyte_def)

lemma unat_plus_fits: "unat (a :: u32) + unat b < 2 ^ 32 \<Longrightarrow> unat (a + b) = unat a + unat b"
  by (simp add: unat_word_ariths)

lemma max_file: "MAXFILE * BSIZE = 274432"
  by (simp add: file_consts)

lemma writei_steps:
  fixes s :: "'a ist_scheme"
  assumes f: "file_ok p D i s" and k: "budget (Suc (k + 6 * nblk (unat off) (unat n))) s" and fc: "2 * nblk (unat off) (unat n) \<le> free_count s"
    and l: "length bs = unat n" and o: "off \<le> i_size (itable s i)" "unat off + unat n \<le> MAXFILE * BSIZE"
  shows "\<exists>s1 s'. writei i (Local bs) off n s = Inr (n, s') \<and> file_ok p D i s' \<and> budget k s' \<and> inode_frame i s s' \<and> on_disk i s' \<and> written i (unat off) bs s s1 \<and>
    i_size (itable s' i) = max (i_size (itable s i)) (off + n) \<and>
    (\<forall>x<MAXFILE * BSIZE. has s1 i (x div BSIZE) \<longrightarrow> has s' i (x div BSIZE) \<and> fbyte s' i x = fbyte s1 i x)"
proof -
  have u: "unat (off + n) = unat off + unat n" using o(2) by (intro unat_plus_fits) (simp add: max_file)
  have "budget (Suc k + 6 * nblk (unat off) (unat n - 0)) s" using k by simp
  from writei_loop_ok [where bs = bs, OF f this] fc l o(2)
  obtain s1 where s1: "writei_loop i (unat off) (unat n) 0 (Local bs) s = Inr ((unat n, unat off + unat n), s1)" "file_ok p D i s1" "budget (Suc k) s1" "inode_frame i s s1"
      "written i (unat off) bs s s1" by auto
  have z: "i_size (itable s1 i) = i_size (itable s i)" using s1(5) unfolding written_def by (metis inode.select_convs(9) inode.surjective inode.update_convs(10))
  have w: "of_nat (unat off + unat n) = off + n" by simp
  define s2 where "s2 = (if off + n > i_size (itable s1 i) then updi i (\<lambda>r. r\<lparr>i_size := off + n\<rparr>) s1 else s1)"
  have s2: "file_ok p D i s2" "budget (Suc k) s2" "inode_frame i s1 s2" "i_size (itable s2 i) = max (i_size (itable s i)) (off + n)"
    "has s2 i bn = has s1 i bn" "fbyte s2 i x = fbyte s1 i x" for bn x
    using s1(2,3) z inode_frame_updi inode_frame_log [OF log_frame_refl] by (auto simp: s2_def max_def)
  from iupdate_ok [OF s2(1,2)] obtain s' where s': "iupdate i s2 = Inr s'" "file_ok p D i s'" "budget k s'" "log_frame s2 s'" "on_disk i s'"
      "\<forall>x<MAXFILE * BSIZE. has s2 i (x div BSIZE) \<longrightarrow> has s' i (x div BSIZE) \<and> fbyte s' i x = fbyte s2 i x" by blast
  have "\<not> off > i_size (itable s i)" "\<not> off + n < off" "\<not> unat (off + n) > MAXFILE * BSIZE" using o u by (auto simp: word_less_nat_alt word_le_nat_alt)
  then have "writei i (Local bs) off n s = Inr (n, s')" using s1(1) s'(1) unfolding s2_def by (simp add: writei_def Let_def w split: if_splits)
  moreover have "inode_frame i s s'" using inode_frame_trans [OF inode_frame_trans [OF s1(4) s2(3)] inode_frame_log [OF s'(4)]] .
  moreover have "itable s' = itable s2" using log_frame_inode [OF s'(4)] by auto
  ultimately show ?thesis using s1(5) s'(2,3,5,6) s2(4-6) by (auto intro!: exI [of _ s1])
qed

lemma writei_ok:
  fixes s :: "'a ist_scheme"
  assumes f: "file_ok p D i s" and ds: "dense i s" and k: "budget (Suc (k + 6 * nblk (unat off) (unat n))) s" and fc: "2 * nblk (unat off) (unat n) \<le> free_count s"
    and l: "length bs = unat n" and o: "off \<le> i_size (itable s i)" "unat off + unat n \<le> MAXFILE * BSIZE"
  shows "\<exists>s'. writei i (Local bs) off n s = Inr (n, s') \<and> file_ok p D i s' \<and> dense i s' \<and> budget k s' \<and> inode_frame i s s' \<and> on_disk i s' \<and>
    i_size (itable s' i) = max (i_size (itable s i)) (off + n) \<and>
    contents i s' = take (unat off) (contents i s) @ bs @ drop (unat off + unat n) (contents i s)"
proof -
  from writei_steps [OF f k fc l o] obtain s1 s' where s': "writei i (Local bs) off n s = Inr (n, s')" "file_ok p D i s'" "budget k s'" "inode_frame i s s'" "on_disk i s'"
      "written i (unat off) bs s s1" "i_size (itable s' i) = max (i_size (itable s i)) (off + n)"
      "\<forall>x<MAXFILE * BSIZE. has s1 i (x div BSIZE) \<longrightarrow> has s' i (x div BSIZE) \<and> fbyte s' i x = fbyte s1 i x" by blast
  have u: "unat (off + n) = unat off + unat n" using o(2) by (intro unat_plus_fits) (simp add: max_file)
  have le: "unat off \<le> unat (i_size (itable s i))" using o(1) by (simp add: word_le_nat_alt)
  have z: "unat (i_size (itable s' i)) = max (unat (i_size (itable s i))) (unat off + unat n)"
    using s'(7) u by (auto simp: max_def word_le_nat_alt)
  have zm: "unat (i_size (itable s' i)) \<le> MAXFILE * BSIZE" using z o(2) ds by (simp add: dense_def)
  have b: "has s' i (x div BSIZE) \<and> fbyte s' i x = (if unat off \<le> x \<and> x < unat off + unat n then bs ! (x - unat off) else fbyte s i x)"
    if "x < unat (i_size (itable s' i))" for x
  proof -
    have x: "x < MAXFILE * BSIZE" using that zm by simp
    have "has s i (x div BSIZE)" if "\<not> (unat off \<le> x \<and> x < unat off + unat n)" using that \<open>x < unat (i_size (itable s' i))\<close> z ds le by (auto simp: dense_def)
    then have "has s1 i (x div BSIZE) \<and> fbyte s1 i x = (if unat off \<le> x \<and> x < unat off + unat n then bs ! (x - unat off) else fbyte s i x)"
      using s'(6) [unfolded written_def, THEN conjunct1, rule_format, OF x] l by (auto split: if_splits)
    then show ?thesis using s'(8) x by auto
  qed
  have "contents i s' = take (unat off) (contents i s) @ bs @ drop (unat off + unat n) (contents i s)"
  proof (rule nth_equalityI)
    show "length (contents i s') = length (take (unat off) (contents i s) @ bs @ drop (unat off + unat n) (contents i s))" using z l le by (auto simp: max_def)
    fix x assume "x < length (contents i s')"
    then have x: "x < unat (i_size (itable s' i))" by simp
    have c: "contents i s' ! x = fbyte s' i x" "y < unat (i_size (itable s i)) \<Longrightarrow> contents i s ! y = fbyte s i y" for y using x by (simp_all add: contents_def fbytes_def)
    show "contents i s' ! x = (take (unat off) (contents i s) @ bs @ drop (unat off + unat n) (contents i s)) ! x"
      using b [OF x] x z le l c by (auto simp: nth_append max_def split: if_splits)
  qed
  moreover have "dense i s'" using b zm by (simp add: dense_def)
  ultimately show ?thesis using s' by blast
qed

lemma fbytes_contents: "off + m \<le> unat (i_size (itable s i)) \<Longrightarrow> fbytes s i off m = take m (drop off (contents i s))"
  by (intro nth_equalityI) (simp_all add: fbytes_def contents_def)

lemma readi_ok:
  fixes s :: "'a ist_scheme"
  assumes f: "file_ok p D i s" and ds: "dense i s" and k: "budget k s" and o: "off \<le> i_size (itable s i)" "unat off + unat n < 2 ^ 32"
  shows "\<exists>m s'. readi i (Local []) off n s = Inr ((m, Local (take (unat n) (drop (unat off) (contents i s)))), s') \<and>
    unat m = min (unat n) (unat (i_size (itable s i)) - unat off) \<and>
    file_ok p D i s' \<and> budget k s' \<and> log_frame s s' \<and> content (babs s') = content (babs s)"
proof -
  let ?z = "i_size (itable s i)"
  define m where "m = (if off + n > ?z then ?z - off else n)"
  have u: "unat (off + n) = unat off + unat n" using o(2) by (rule unat_plus_fits)
  have sub: "unat (?z - off) = unat ?z - unat off" using o(1) by (rule unat_sub)
  have m: "unat m = min (unat n) (unat ?z - unat off)" using o(1) u sub by (auto simp: m_def word_less_nat_alt word_le_nat_alt)
  have le: "unat off + unat m \<le> unat ?z" using m o(1) by (auto simp: word_le_nat_alt min_def)
  have h: "has s i bn" if "bn * BSIZE < unat off + (unat m - 0)" for bn
  proof -
    have "bn * BSIZE < unat ?z" "bn * BSIZE div BSIZE = bn" using that le by (simp_all add: BSIZE_def)
    then show ?thesis using ds unfolding dense_def by metis
  qed
  have "unat off + (unat m - 0) \<le> MAXFILE * BSIZE" using le ds by (simp add: dense_def)
  from readi_loop_ok [OF f k _ this h, of "[]"] obtain s' where
    s': "readi_loop i (unat off) (unat m) 0 (Local []) s = Inr ((of_nat (unat m), Local ([] @ fbytes s i (unat off) (unat m - 0))), s')"
    "file_ok p D i s'" "budget k s'" "log_frame s s'" "content (babs s') = content (babs s)" by blast
  have "take (unat m) (drop (unat off) (contents i s)) = take (unat n) (drop (unat off) (contents i s))" by (simp add: m min_def)
  then have c: "fbytes s i (unat off) (unat m) = take (unat n) (drop (unat off) (contents i s))" using fbytes_contents [OF le] by simp
  have "\<not> (off > ?z \<or> off + n < off)" using o(1) u by (auto simp: word_less_nat_alt word_le_nat_alt)
  then have "readi i (Local []) off n s = Inr ((m, Local (take (unat n) (drop (unat off) (contents i s)))), s')"
    using s'(1) c by (simp add: readi_def Let_def m_def)
  then show ?thesis using m s'(2-5) by blast
qed

text \<open>
  C2. Writing a file and reading it back. Let inode \<open>i\<close> be a file without holes whose blocks are data blocks in use, and let
  the log of the running transaction and the bitmap have room for the write. If \<open>old\<close> is what \<open>readi\<close> reads of the whole
  file, then \<open>writei\<close> of \<open>bs\<close> at an offset that is not after the end of the file writes all of it, and a \<open>readi\<close> of any part
  of the file then returns that part of \<open>old\<close> overwritten by \<open>bs\<close>: bytes before and after the write are unchanged, the file
  grows to the end of the write, and the inode on disk agrees with the one in memory.
\<close>

theorem writei_then_readi:
  fixes s :: "'a ist_scheme"
  assumes "file_ok p D i s" "dense i s" "budget (Suc (k + 6 * nblk (unat off) (unat n))) s" "2 * nblk (unat off) (unat n) \<le> free_count s"
    "length bs = unat n" "off \<le> i_size (itable s i)" "unat off + unat n \<le> MAXFILE * BSIZE"
    "off' \<le> max (i_size (itable s i)) (off + n)" "unat off' + unat n' < 2 ^ 32"
  shows "\<exists>old s0 s1 m s2. readi i (Local []) 0 (i_size (itable s i)) s = Inr ((i_size (itable s i), Local old), s0) \<and>
    writei i (Local bs) off n s = Inr (n, s1) \<and> on_disk i s1 \<and> i_size (itable s1 i) = max (i_size (itable s i)) (off + n) \<and>
    readi i (Local []) off' n' s1 =
      Inr ((m, Local (take (unat n') (drop (unat off') (take (unat off) old @ bs @ drop (unat off + unat n) old)))), s2)"
proof -
  have "unat (0 :: u32) + unat (i_size (itable s i)) < 2 ^ 32" using unsigned_less [of "i_size (itable s i)"] by simp
  from readi_ok [OF assms(1-3) _ this] obtain m0 s0 where r0: "readi i (Local []) 0 (i_size (itable s i)) s = Inr ((m0, Local (contents i s)), s0)"
    "unat m0 = unat (i_size (itable s i))" by auto
  then have m0: "m0 = i_size (itable s i)" by (simp add: word_unat_eq_iff)
  from writei_ok [OF assms(1-7)] obtain s1 where s1: "writei i (Local bs) off n s = Inr (n, s1)" "file_ok p D i s1" "dense i s1" "budget k s1" "on_disk i s1"
    "i_size (itable s1 i) = max (i_size (itable s i)) (off + n)" "contents i s1 = take (unat off) (contents i s) @ bs @ drop (unat off + unat n) (contents i s)" by blast
  have "off' \<le> i_size (itable s1 i)" using assms(8) s1(6) by simp
  from readi_ok [OF s1(2,3,4) this assms(9)] show ?thesis using r0(1) m0 s1(1,5,6,7) by metis
qed

text \<open>The bitmap of the example and a first write of three bytes, of which the last two are read back.\<close>

lemma demo_file: "file_ok 0 47 0 demo_ist" "dense 0 demo_ist" "8 \<le> free_count demo_ist"
proof -
  let ?c = "content (babs demo_ist)" and ?q = demo_sb
  have m: "meta_used ?q 47 ?c" by (simp add: meta_used_def demo_free)
  have "iaddr ?c demo_inode bn = 0" if "bn < MAXFILE" for bn using that by (simp add: iaddr_def demo_inode_def NDIRECT_def)
  then have "map_ok ?q 47 ?c (i_addrs demo_inode ! NDIRECT) (iaddr ?c demo_inode)" by (simp add: map_ok_def) (simp add: demo_inode_def NDIRECT_def)
  then have "inode_ok ?q 47 ?c demo_inode" by (simp add: inode_ok_def) (simp add: demo_inode_def NDIRECT_def demo_sb_def)
  then show "file_ok 0 47 0 demo_ist" using demo_txn(1) demo_geom m by (simp add: file_ok_def demo_ist_simps)
  show "dense 0 demo_ist" by (simp add: dense_def demo_ist_simps demo_inode_def)
  have "{48..<56} \<subseteq> free_blocks ?q ?c" using demo_free by (auto simp: free_blocks_def demo_sb_def)
  moreover have "finite (free_blocks ?q ?c)" by (simp add: free_blocks_def)
  ultimately have "card {48..<56 :: nat} \<le> card (free_blocks ?q ?c)" by (intro card_mono)
  then show "8 \<le> free_count demo_ist" by (simp add: free_count_def demo_ist_simps)
qed

theorem writei_then_readi_witness:
  "\<exists>old s0 s1 m s2. readi 0 (Local []) 0 0 demo_ist = Inr ((0, Local old), s0) \<and> writei 0 (Local [7, 8, 9]) 0 3 demo_ist = Inr (3, s1) \<and>
     on_disk 0 s1 \<and> i_size (itable s1 0) = 3 \<and> readi 0 (Local []) 1 2 s1 = Inr ((m, Local [8, 9]), s2)"
proof -
  have z: "i_size (itable demo_ist 0) = 0" by (simp add: demo_ist_simps demo_inode_def)
  have nb: "nblk (unat (0 :: u32)) (unat (3 :: u32)) = 1" by (simp add: nblk_def BSIZE_def)
  have "budget (Suc (1 + 6 * nblk (unat (0 :: u32)) (unat (3 :: u32)))) demo_ist" using demo_txn(2) nb by (simp add: budget_def)
  from writei_then_readi [OF demo_file(1,2) this, of "[7, 8, 9]" 1 2] show ?thesis
    using demo_file(3) nb by (simp add: z max_file)
qed

end
