(* ===== verification/Pipe.thy ===== *)
theory Pipe
  imports Balloc Ring "HOL-Library.Sublist"
begin

text \<open>
  Pipes (\<open>kernel/pipe.c\<close>) and the table of open files. The state extends that of the file system by the table of files and
  by the pipes; a pipe is named by the address of the page that \<open>pipealloc\<close> gets for it. \<open>pipewrite\<close> and \<open>piperead\<close> are
  cut where they sleep: the outcome \<open>Sleeps\<close> comes with the number of bytes moved so far, with which the \<open>_resume\<close> part goes on.
\<close>

definition PIPESIZE :: nat where "PIPESIZE = 512"

definition NFILE :: nat where "NFILE = 100"

datatype fdtype = FD_NONE | FD_PIPE | FD_INODE | FD_DEVICE

record file_t =
  f_type :: fdtype
  f_ref :: int
  f_readable :: bool
  f_writable :: bool
  f_pipe :: u64
  f_ip :: "nat option"
  f_off :: u32
  f_major :: u16

record pipe =
  pdata :: "u8 list"
  nread :: u32
  nwrite :: u32
  readopen :: bool
  writeopen :: bool

record flst = ist +
  ftable :: "nat \<Rightarrow> file_t"
  pipes :: "u64 \<Rightarrow> pipe"

definition updpipe :: "u64 \<Rightarrow> (pipe \<Rightarrow> pipe) \<Rightarrow> 'a flst_scheme \<Rightarrow> 'a flst_scheme" where
  "updpipe a f s = s\<lparr>pipes := (pipes s)(a := f (pipes s a))\<rparr>"

section \<open>The buffer\<close>

definition pipe_put :: "u8 \<Rightarrow> pipe \<Rightarrow> pipe" where
  "pipe_put ch q = q\<lparr>pdata := ring_put (pdata q) (nwrite q) ch, nwrite := nwrite q + 1\<rparr>"

definition pipe_get :: "pipe \<Rightarrow> u8 \<times> pipe" where
  "pipe_get q = (ring_nth (pdata q) (nread q), q\<lparr>nread := nread q + 1\<rparr>)"

definition pipe_full :: "pipe \<Rightarrow> bool" where
  "pipe_full q \<longleftrightarrow> nwrite q = nread q + of_nat PIPESIZE"

section \<open>Operations\<close>

definition pipeclose :: "u64 \<Rightarrow> bool \<Rightarrow> 'a flst_scheme \<Rightarrow> kerr + 'a flst_scheme" where
  "pipeclose a wr s =
     bindr (acquire_lk (PipeLock a) s) (\<lambda>s1.
     bindr (if wr then wakeup (ChanPipeRead a) (updpipe a (\<lambda>q. q\<lparr>writeopen := False\<rparr>) s1)
            else wakeup (ChanPipeWrite a) (updpipe a (\<lambda>q. q\<lparr>readopen := False\<rparr>) s1)) (\<lambda>s2.
     if \<not> readopen (pipes s2 a) \<and> \<not> writeopen (pipes s2 a) then
       bindr (release_lk (PipeLock a) s2) (kfree a)
     else release_lk (PipeLock a) s2))"

text \<open>The end of \<open>pipewrite\<close>, and its loop with \<open>k\<close> bytes to go after \<open>i\<close>.\<close>

definition pipewrite_end :: "u64 \<Rightarrow> nat \<Rightarrow> 'a flst_scheme \<Rightarrow> kerr + ((int outcome \<times> nat) \<times> 'a flst_scheme)" where
  "pipewrite_end a i s =
     bindr (wakeup (ChanPipeRead a) s) (\<lambda>s1.
     bindr (release_lk (PipeLock a) s1) (\<lambda>s2. Inr ((Done (int i), i), s2)))"

primrec pipewrite_loop :: "nat \<Rightarrow> u64 \<Rightarrow> u64 \<Rightarrow> nat \<Rightarrow> 'a flst_scheme \<Rightarrow> kerr + ((int outcome \<times> nat) \<times> 'a flst_scheme)" where
  "pipewrite_loop 0 a addr i s = pipewrite_end a i s"
| "pipewrite_loop (Suc k) a addr i s =
     bindr (myproc s) (\<lambda>pr.
     bindr (if \<not> readopen (pipes s a) then Inr (1, s) else killed pr s) (\<lambda>(kl, s1).
     if kl \<noteq> 0 then bindr (release_lk (PipeLock a) s1) (\<lambda>s2. Inr ((Done (-1), i), s2))
     else if pipe_full (pipes s1 a) then
       bindr (wakeup (ChanPipeRead a) s1) (\<lambda>s2.
       bindr (sleep_enter (ChanPipeWrite a) (PipeLock a) s2) (\<lambda>s3. Inr ((Sleeps (ChanPipeWrite a), i), s3)))
     else bindr (copyin (pagetable (procs s1 pr)) (addr + of_nat i) 1 s1) (\<lambda>((r, cs), s2).
       if r = -1 then pipewrite_end a i s2
       else pipewrite_loop k a addr (i + 1) (updpipe a (pipe_put (hd cs)) s2))))"

definition pipewrite :: "u64 \<Rightarrow> u64 \<Rightarrow> int \<Rightarrow> 'a flst_scheme \<Rightarrow> kerr + ((int outcome \<times> nat) \<times> 'a flst_scheme)" where
  "pipewrite a addr n s = bindr (acquire_lk (PipeLock a) s) (pipewrite_loop (nat n) a addr 0)"

definition pipewrite_resume :: "u64 \<Rightarrow> u64 \<Rightarrow> int \<Rightarrow> nat \<Rightarrow> 'a flst_scheme \<Rightarrow> kerr + ((int outcome \<times> nat) \<times> 'a flst_scheme)" where
  "pipewrite_resume a addr n i s = bindr (sleep_exit (PipeLock a) s) (pipewrite_loop (nat n - i) a addr i)"

definition piperead_end :: "u64 \<Rightarrow> nat \<Rightarrow> 'a flst_scheme \<Rightarrow> kerr + (int outcome \<times> 'a flst_scheme)" where
  "piperead_end a i s =
     bindr (wakeup (ChanPipeWrite a) s) (\<lambda>s1.
     bindr (release_lk (PipeLock a) s1) (\<lambda>s2. Inr (Done (int i), s2)))"

primrec piperead_loop :: "nat \<Rightarrow> u64 \<Rightarrow> u64 \<Rightarrow> nat \<Rightarrow> 'a flst_scheme \<Rightarrow> kerr + (int outcome \<times> 'a flst_scheme)" where
  "piperead_loop 0 a addr i s = piperead_end a i s"
| "piperead_loop (Suc k) a addr i s =
     (if nread (pipes s a) = nwrite (pipes s a) then piperead_end a i s
      else let (ch, q) = pipe_get (pipes s a); s1 = updpipe a (\<lambda>_. q) s in
        bindr (myproc s1) (\<lambda>pr.
        bindr (copyout (pagetable (procs s1 pr)) (addr + of_nat i) [ch] s1) (\<lambda>(r, s2).
        if r = -1 then piperead_end a i s2 else piperead_loop k a addr (i + 1) s2)))"

text \<open>\<open>piperead\<close> with the lock held, from the test of its first loop.\<close>

definition piperead_locked :: "u64 \<Rightarrow> u64 \<Rightarrow> int \<Rightarrow> 'a flst_scheme \<Rightarrow> kerr + (int outcome \<times> 'a flst_scheme)" where
  "piperead_locked a addr n s =
     (if nread (pipes s a) = nwrite (pipes s a) \<and> writeopen (pipes s a) then
        bindr (myproc s) (\<lambda>pr.
        bindr (killed pr s) (\<lambda>(kl, s1).
        if kl \<noteq> 0 then bindr (release_lk (PipeLock a) s1) (\<lambda>s2. Inr (Done (-1), s2))
        else bindr (sleep_enter (ChanPipeRead a) (PipeLock a) s1) (\<lambda>s2. Inr (Sleeps (ChanPipeRead a), s2))))
      else piperead_loop (nat n) a addr 0 s)"

definition piperead :: "u64 \<Rightarrow> u64 \<Rightarrow> int \<Rightarrow> 'a flst_scheme \<Rightarrow> kerr + (int outcome \<times> 'a flst_scheme)" where
  "piperead a addr n s = bindr (acquire_lk (PipeLock a) s) (piperead_locked a addr n)"

definition piperead_resume :: "u64 \<Rightarrow> u64 \<Rightarrow> int \<Rightarrow> 'a flst_scheme \<Rightarrow> kerr + (int outcome \<times> 'a flst_scheme)" where
  "piperead_resume a addr n s = bindr (sleep_exit (PipeLock a) s) (piperead_locked a addr n)"

section \<open>The pipe as a queue\<close>

definition queue :: "pipe \<Rightarrow> u8 list" where
  "queue q = ring_list (pdata q) (nread q) (nwrite q)"

definition pipe_wf :: "pipe \<Rightarrow> bool" where
  "pipe_wf q \<longleftrightarrow> length (pdata q) = PIPESIZE \<and> length (queue q) \<le> PIPESIZE"

interpretation pq: fifo pipe_put pipe_get "\<lambda>q. length (queue q) < PIPESIZE" queue pipe_wf
proof (unfold_locales, goal_cases)
  case (1 q x)
  then have eq: "queue (pipe_put x q) = queue q @ [x]"
    by (simp add: queue_def pipe_put_def pipe_wf_def PIPESIZE_def ring_list_put)
  moreover have "length (pdata (pipe_put x q)) = PIPESIZE" using 1 by (simp add: pipe_put_def pipe_wf_def)
  ultimately show ?case using 1 by (simp add: pipe_wf_def)
next
  case (2 q)
  then have "nread q \<noteq> nwrite q" by (simp add: queue_def)
  then have "queue q = fst (pipe_get q) # queue (snd (pipe_get q))"
    using ring_list_pop [of "nread q" "nwrite q" "pdata q"] by (simp add: queue_def pipe_get_def)
  moreover have "length (pdata (snd (pipe_get q))) = PIPESIZE" using 2 by (simp add: pipe_get_def pipe_wf_def)
  ultimately show ?case using 2 by (simp add: pipe_wf_def)
qed

lemma pipe_tests:
  assumes "pipe_wf q"
  shows "pipe_full q \<longleftrightarrow> length (queue q) = PIPESIZE" "nread q = nwrite q \<longleftrightarrow> queue q = []"
proof -
  show "nread q = nwrite q \<longleftrightarrow> queue q = []" by (simp add: queue_def)
  have "pipe_full q \<longleftrightarrow> nwrite q - nread q = of_nat PIPESIZE" by (auto simp: pipe_full_def algebra_simps)
  also have "\<dots> \<longleftrightarrow> unat (nwrite q - nread q) = unat (of_nat PIPESIZE :: u32)" by (simp add: word_unat_eq_iff)
  also have "unat (of_nat PIPESIZE :: u32) = PIPESIZE" by (simp add: PIPESIZE_def)
  finally show "pipe_full q \<longleftrightarrow> length (queue q) = PIPESIZE" by (simp add: queue_def)
qed

lemma pipe_fields [simp]:
  "readopen (pipe_put x q) = readopen q" "writeopen (pipe_put x q) = writeopen q"
  "readopen (snd (pipe_get q)) = readopen q" "writeopen (snd (pipe_get q)) = writeopen q"
  by (simp_all add: pipe_put_def pipe_get_def)

section \<open>What the operations do\<close>

text \<open>The current process runs with the lock of the pipe, and its page table is well formed.\<close>

definition in_pipe :: "u64 \<Rightarrow> nat \<Rightarrow> u64 list \<Rightarrow> 'a flst_scheme \<Rightarrow> bool" where
  "in_pipe a p xs s \<longleftrightarrow> cur s = Some p \<and> held s = {PipeLock a} \<and> vm_inv s (pagetable (procs s p)) xs \<and> user_wf s (pagetable (procs s p)) xs \<and>
     pipe_wf (pipes s a)"

lemma vm_inv_pst [simp]:
  fixes s :: "'a flst_scheme"
  shows "vm_inv (s\<lparr>pipes := f\<rparr>) r xs = vm_inv s r xs" "user_wf (s\<lparr>pipes := f\<rparr>) r xs = user_wf s r xs"
  by (simp_all add: vm_inv_def user_wf_def free_pages_def pt_wf_def ram_page_def)

lemma killed_ok: "ProcLock p \<notin> held s \<Longrightarrow> killed p s = Inr (killed_f (procs s p), s)"
  by (simp add: killed_def lock_roundtrip Let_def acquire_lk_eq release_lk_eq)

lemma in_pipe_put:
  assumes "in_pipe a p xs s" "\<not> pipe_full (pipes s a)"
  shows "in_pipe a p xs (updpipe a (pipe_put x) s)" "queue (pipes (updpipe a (pipe_put x) s) a) = queue (pipes s a) @ [x]"
proof -
  have w: "pipe_wf (pipes s a)" using assms by (simp add: in_pipe_def)
  then have "length (queue (pipes s a)) < PIPESIZE" using pipe_tests(1) [OF w] assms(2) by (auto simp: pipe_wf_def)
  from pq.put_contents [OF w this] show "in_pipe a p xs (updpipe a (pipe_put x) s)" "queue (pipes (updpipe a (pipe_put x) s) a) = queue (pipes s a) @ [x]"
    using assms(1) by (simp_all add: in_pipe_def updpipe_def)
qed

text \<open>The state in which an operation ends: the pipe is \<open>q\<close>, the sleepers on \<open>c\<close> are awake, and the lock is free.\<close>

definition left_pipe :: "u64 \<Rightarrow> chan \<Rightarrow> 'a flst_scheme \<Rightarrow> 'a flst_scheme" where
  "left_pipe a c s = (woken c NPROC s)\<lparr>held := {}\<rparr>"

lemma woken_flst [simp]: "pipes (woken c n s) = pipes s" "ftable (woken c n s) = ftable s" "itable (woken c n s) = itable s"
  by (simp_all add: woken_def)

lemma in_pipe_end:
  assumes "in_pipe a p xs s"
  shows "pipewrite_end a i s = Inr ((Done (int i), i), left_pipe a (ChanPipeRead a) s)"
    "piperead_end a i s = Inr (Done (int i), left_pipe a (ChanPipeWrite a) s)"
proof -
  have h: "no_proc_locks s" "held s = {PipeLock a}" using assms by (simp_all add: in_pipe_def no_proc_locks_def)
  show "pipewrite_end a i s = Inr ((Done (int i), i), left_pipe a (ChanPipeRead a) s)"
    "piperead_end a i s = Inr (Done (int i), left_pipe a (ChanPipeWrite a) s)"
    by (simp_all add: pipewrite_end_def piperead_end_def wakeup_woken [OF h(1)] release_lk_eq left_pipe_def h(2))
qed

lemma copyin_byte:
  assumes "vm_inv s r xs" "user_wf s r xs"
  shows "copyin r d 1 s = (case umem (pmem s) r d of None \<Rightarrow> Inr ((-1, []), s) | Some b \<Rightarrow> Inr ((0, [b]), s))"
proof -
  obtain rv bs where c: "copyin r d 1 s = Inr ((rv, bs), s)"
    "rv = 0 \<and> length bs = 1 \<or> rv = -1 \<and> length bs < 1 \<and> umem (pmem s) r (d + of_nat (length bs)) = None"
    "\<forall>i<length bs. umem (pmem s) r (d + of_nat i) = Some (bs ! i)"
    using copyin_ok [OF assms, of 1 d] by auto
  show ?thesis
  proof (cases "rv = 0")
    case True
    then obtain b where "bs = [b]" using c(2) by (auto simp: length_Suc_conv)
    then show ?thesis using c(1,3) True by simp
  qed (use c in auto)
qed

text \<open>The bytes that a writer has in its memory from \<open>d\<close>.\<close>

definition ubytes :: "mem \<Rightarrow> u64 \<Rightarrow> u64 \<Rightarrow> nat \<Rightarrow> u8 list \<Rightarrow> bool" where
  "ubytes m r d n bs \<longleftrightarrow> length bs = n \<and> (\<forall>i<n. umem m r (d + of_nat i) = Some (bs ! i))"

lemma ubytes_Cons: "umem m r d = Some b \<Longrightarrow> ubytes m r (d + 1) n bs \<Longrightarrow> ubytes m r d (Suc n) (b # bs)"
  by (auto simp: ubytes_def nth_Cons' less_Suc_eq_0_disj algebra_simps)

lemma pipewrite_loop_ok:
  assumes "in_pipe a p xs s"
  defines "r \<equiv> pagetable (procs s p)"
  shows "\<exists>out j bs s'. pipewrite_loop k a addr i s = Inr ((out, i + j), s') \<and> j \<le> k \<and> ubytes (pmem s) r (addr + of_nat i) j bs \<and>
    pipe_wf (pipes s' a) \<and> queue (pipes s' a) = queue (pipes s a) @ bs \<and> pmem s' = pmem s \<and>
    (out = Done (int (i + j)) \<and> (j = k \<or> umem (pmem s) r (addr + of_nat (i + j)) = None) \<or>
     out = Done (- 1) \<and> j = 0 \<and> (\<not> readopen (pipes s a) \<or> killed_f (procs s p) \<noteq> 0) \<or>
     out = Sleeps (ChanPipeWrite a) \<and> j < k \<and> length (queue (pipes s' a)) = PIPESIZE)"
  using assms(1) unfolding r_def
proof (induction k arbitrary: i s)
  case 0
  then show ?case using in_pipe_end(1) [OF 0] by (auto simp: left_pipe_def ubytes_def in_pipe_def)
next
  case (Suc k)
  let ?r = "pagetable (procs s p)" and ?q = "pipes s a" let ?d = "addr + of_nat i"
  have c: "cur s = Some p" "held s = {PipeLock a}" "vm_inv s ?r xs" "user_wf s ?r xs" "pipe_wf ?q" using Suc.prems by (simp_all add: in_pipe_def)
  have n: "no_proc_locks s" using c(2) by (simp add: no_proc_locks_def)
  have kl: "killed p s = Inr (killed_f (procs s p), s)" by (rule killed_ok) (simp add: c(2))
  show ?case
  proof (cases "\<not> readopen ?q \<or> killed_f (procs s p) \<noteq> 0")
    case True
    then have "pipewrite_loop (Suc k) a addr i s = Inr ((Done (- 1), i), s\<lparr>held := {}\<rparr>)" using c(1,2) kl by (auto simp: myproc_def release_lk_eq)
    then show ?thesis using True c(5) by (intro exI [of _ "Done (- 1)"] exI [of _ 0] exI [of _ "[]"] exI [of _ "s\<lparr>held := {}\<rparr>"]) (simp add: ubytes_def)
  next
    case go: False
    show ?thesis
    proof (cases "pipe_full ?q")
      case True
      let ?w = "woken (ChanPipeRead a) NPROC s"
      have "sleep_enter (ChanPipeWrite a) (PipeLock a) ?w = Inr (updp p (\<lambda>r. r\<lparr>pchan := Some (ChanPipeWrite a), pstate := SLEEPING\<rparr>) (?w\<lparr>held := {ProcLock p}\<rparr>))"
        by (rule sleep_enter_ok) (simp_all add: c(1,2))
      then have "pipewrite_loop (Suc k) a addr i s = Inr ((Sleeps (ChanPipeWrite a), i),
          updp p (\<lambda>r. r\<lparr>pchan := Some (ChanPipeWrite a), pstate := SLEEPING\<rparr>) (?w\<lparr>held := {ProcLock p}\<rparr>))"
        using go True c(1) kl wakeup_woken [OF n] by (simp add: myproc_def)
      then show ?thesis using True pipe_tests(1) [OF c(5)] c(5)
        by (intro exI [of _ "Sleeps (ChanPipeWrite a)"] exI [of _ 0] exI [of _ "[]"]) (auto simp: ubytes_def updp_def)
    next
      case False
      show ?thesis
      proof (cases "umem (pmem s) ?r ?d")
        case None
        then have "pipewrite_loop (Suc k) a addr i s = Inr ((Done (int i), i), left_pipe a (ChanPipeRead a) s)"
          using go False c(1) kl copyin_byte [OF c(3,4)] in_pipe_end(1) [OF Suc.prems] by (simp add: myproc_def)
        then show ?thesis using None c(5)
          by (intro exI [of _ "Done (int i)"] exI [of _ 0] exI [of _ "[]"] exI [of _ "left_pipe a (ChanPipeRead a) s"]) (auto simp: left_pipe_def ubytes_def)
      next
        case (Some b)
        let ?s1 = "updpipe a (pipe_put b) s"
        note p1 = in_pipe_put [OF Suc.prems False, of b]
        have e: "procs ?s1 = procs s" "pmem ?s1 = pmem s" "readopen (pipes ?s1 a) = readopen ?q" by (simp_all add: updpipe_def)
        have st: "pipewrite_loop (Suc k) a addr i s = pipewrite_loop k a addr (i + 1) ?s1"
          using go False Some c(1) kl copyin_byte [OF c(3,4)] by (simp add: myproc_def)
        have d: "addr + of_nat (i + 1) = ?d + 1" by simp
        from Suc.IH [OF p1(1), of "i + 1"] obtain out j bs s' where
          s': "pipewrite_loop k a addr (i + 1) ?s1 = Inr ((out, i + 1 + j), s')" "j \<le> k" "ubytes (pmem s) ?r (?d + 1) j bs" "pipe_wf (pipes s' a)"
            "queue (pipes s' a) = (queue ?q @ [b]) @ bs" "pmem s' = pmem s"
            "out = Done (int (i + 1 + j)) \<and> (j = k \<or> umem (pmem s) ?r (addr + of_nat (i + 1 + j)) = None) \<or>
             out = Done (- 1) \<and> j = 0 \<and> (\<not> readopen ?q \<or> killed_f (procs s p) \<noteq> 0) \<or>
             out = Sleeps (ChanPipeWrite a) \<and> j < k \<and> length (queue (pipes s' a)) = PIPESIZE"
          unfolding e p1(2) d by blast
        have "i + 1 + j = i + Suc j" by simp
        then show ?thesis using st s' go ubytes_Cons [OF Some s'(3)]
          by (intro exI [of _ out] exI [of _ "Suc j"] exI [of _ "b # bs"] exI [of _ s']) auto
      qed
    qed
  qed
qed

lemma copied_out_cong: "copied_out m r d src n m1 \<Longrightarrow> (\<And>i. i < n \<Longrightarrow> src' ! i = src ! i) \<Longrightarrow> copied_out m r d src' n m1"
  by (auto simp: copied_out_def within_def)

lemma copied_out_none: "copied_out m r d src 0 m' \<longleftrightarrow> copied_out m r d src' 0 m'"
  by (simp add: copied_out_def within_def)

lemma copyout_byte:
  assumes "vm_inv s r xs" "user_wf s r xs"
  shows "\<exists>rv m. copyout r d [b] s = Inr (rv, s\<lparr>pmem := m\<rparr>) \<and> vm_inv (s\<lparr>pmem := m\<rparr>) r xs \<and> user_wf (s\<lparr>pmem := m\<rparr>) r xs \<and>
    (if rv = -1 then \<not> writable (pmem s) r d \<and> copied_out (pmem s) r d [b] 0 m else copied_out (pmem s) r d [b] 1 m)"
  using copyout_ok [OF assms, of "[b]" d] by fastforce

lemma in_pipe_get:
  assumes "in_pipe a p xs s" "nread (pipes s a) \<noteq> nwrite (pipes s a)"
  shows "in_pipe a p xs (updpipe a (\<lambda>_. snd (pipe_get (pipes s a))) s)"
    "queue (pipes s a) = fst (pipe_get (pipes s a)) # queue (snd (pipe_get (pipes s a)))"
proof -
  have w: "pipe_wf (pipes s a)" using assms(1) by (simp add: in_pipe_def)
  then have "queue (pipes s a) \<noteq> []" using pipe_tests(2) assms(2) by blast
  from pq.get_contents [OF w this] show "in_pipe a p xs (updpipe a (\<lambda>_. snd (pipe_get (pipes s a))) s)"
    "queue (pipes s a) = fst (pipe_get (pipes s a)) # queue (snd (pipe_get (pipes s a)))"
    using assms(1) by (simp_all add: in_pipe_def updpipe_def)
qed

text \<open>A read takes \<open>j\<close> bytes from the queue to the memory of the reader; when it meets an address that the reader may not
  write, the byte meant for it is gone.\<close>

lemma piperead_loop_ok:
  assumes "in_pipe a p xs s"
  defines "r \<equiv> pagetable (procs s p)" and "qs \<equiv> queue (pipes s a)"
  shows "\<exists>j s'. piperead_loop k a addr i s = Inr (Done (int (i + j)), s') \<and> j \<le> min k (length qs) \<and> copied_out (pmem s) r (addr + of_nat i) qs j (pmem s') \<and>
    pipe_wf (pipes s' a) \<and>
    (j = min k (length qs) \<and> queue (pipes s' a) = drop j qs \<or>
     j < min k (length qs) \<and> \<not> writable (pmem s) r (addr + of_nat (i + j)) \<and> queue (pipes s' a) = drop (j + 1) qs)"
  using assms(1) unfolding r_def qs_def
proof (induction k arbitrary: i s)
  case 0
  then show ?case using in_pipe_end(2) [OF 0] by (auto simp: left_pipe_def copied_out_def within_def in_pipe_def)
next
  case (Suc k)
  let ?r = "pagetable (procs s p)" and ?q = "pipes s a" let ?d = "addr + of_nat i"
  have c: "cur s = Some p" "held s = {PipeLock a}" "vm_inv s ?r xs" "user_wf s ?r xs" "pipe_wf ?q" using Suc.prems by (simp_all add: in_pipe_def)
  show ?case
  proof (cases "nread ?q = nwrite ?q")
    case True
    then show ?thesis using in_pipe_end(2) [OF Suc.prems, of i] pipe_tests(2) [OF c(5)] c(5) by (auto simp: left_pipe_def copied_out_def within_def)
  next
    case False
    obtain ch q where g: "pipe_get ?q = (ch, q)" by (cases "pipe_get ?q")
    let ?s1 = "updpipe a (\<lambda>_. q) s"
    have p1: "in_pipe a p xs ?s1" "queue ?q = ch # queue q" using in_pipe_get [OF Suc.prems False] g by simp_all
    have e: "procs ?s1 = procs s" "pmem ?s1 = pmem s" "pipes ?s1 a = q" "cur ?s1 = cur s" by (simp_all add: updpipe_def)
    have "vm_inv ?s1 ?r xs" "user_wf ?s1 ?r xs" using p1(1) by (simp_all add: in_pipe_def e)
    from copyout_byte [OF this, of ?d ch, unfolded e] obtain rv m where
      m: "copyout ?r ?d [ch] ?s1 = Inr (rv, ?s1\<lparr>pmem := m\<rparr>)" "vm_inv (?s1\<lparr>pmem := m\<rparr>) ?r xs" "user_wf (?s1\<lparr>pmem := m\<rparr>) ?r xs"
        "if rv = -1 then \<not> writable (pmem s) ?r ?d \<and> copied_out (pmem s) ?r ?d [ch] 0 m else copied_out (pmem s) ?r ?d [ch] 1 m" by blast
    let ?s2 = "?s1\<lparr>pmem := m\<rparr>"
    have p2: "in_pipe a p xs ?s2" using p1(1) m(2,3) by (simp add: in_pipe_def updpipe_def)
    show ?thesis
    proof (cases "rv = -1")
      case True
      have "piperead_loop (Suc k) a addr i s = Inr (Done (int i), left_pipe a (ChanPipeWrite a) ?s2)"
        using False g m(1) True in_pipe_end(2) [OF p2] c(1) by (simp add: Let_def myproc_def e)
      moreover have "copied_out (pmem s) ?r ?d (queue ?q) 0 m" using m(4) True copied_out_none [of _ _ _ "[ch]" _ "queue ?q"] by simp
      ultimately show ?thesis using m(4) True p1(2) p2
        by (intro exI [of _ 0] exI [of _ "left_pipe a (ChanPipeWrite a) ?s2"]) (simp add: left_pipe_def e in_pipe_def)
    next
      case ok: False
      have st: "piperead_loop (Suc k) a addr i s = piperead_loop k a addr (i + 1) ?s2"
        using False g m(1) ok c(1) by (simp add: Let_def myproc_def e)
      have e2: "procs ?s2 = procs s" "pmem ?s2 = m" "pipes ?s2 a = q" by (simp_all add: updpipe_def)
      have c1: "copied_out (pmem s) ?r ?d (queue ?q) 1 m" using m(4) ok by (auto intro!: copied_out_cong [of _ _ _ "[ch]"] simp: p1(2))
      have w: "writable m ?r = writable (pmem s) ?r" using copied_out_writable [OF c1] .
      have d: "addr + of_nat (i + 1) = ?d + of_nat 1" by simp
      from Suc.IH [OF p2, of "i + 1"] obtain j s' where
        s': "piperead_loop k a addr (i + 1) ?s2 = Inr (Done (int (i + 1 + j)), s')" "j \<le> min k (length (queue q))"
          "copied_out m ?r (?d + of_nat 1) (queue q) j (pmem s')" "pipe_wf (pipes s' a)"
          "j = min k (length (queue q)) \<and> queue (pipes s' a) = drop j (queue q) \<or>
           j < min k (length (queue q)) \<and> \<not> writable (pmem s) ?r (addr + of_nat (i + 1 + j)) \<and> queue (pipes s' a) = drop (j + 1) (queue q)"
        unfolding e2 d w by blast
      have "length (queue q) \<le> 512" using p1(1) by (simp add: in_pipe_def e pipe_wf_def PIPESIZE_def)
      then have "copied_out (pmem s) ?r ?d (queue ?q) (1 + j) (pmem s')"
        using s'(2,3) by (intro copied_out_trans [OF c1]) (simp_all add: p1(2))
      then show ?thesis using st s' p1(2) by (intro exI [of _ "Suc j"] exI [of _ s']) auto
    qed
  qed
qed

lemma piperead_loop_all:
  assumes "in_pipe a p xs s" "\<forall>i<k. writable (pmem s) (pagetable (procs s p)) (addr + of_nat i)"
  defines "qs \<equiv> queue (pipes s a)"
  shows "\<exists>s'. piperead_loop k a addr 0 s = Inr (Done (int (min k (length qs))), s') \<and>
    copied_out (pmem s) (pagetable (procs s p)) addr qs (min k (length qs)) (pmem s') \<and> pipe_wf (pipes s' a) \<and> queue (pipes s' a) = drop (min k (length qs)) qs"
proof -
  from piperead_loop_ok [OF assms(1), of k addr 0, folded qs_def] obtain j s' where s': "piperead_loop k a addr 0 s = Inr (Done (int (0 + j)), s') \<and>
    j \<le> min k (length qs) \<and> copied_out (pmem s) (pagetable (procs s p)) (addr + of_nat 0) qs j (pmem s') \<and> pipe_wf (pipes s' a) \<and>
    (j = min k (length qs) \<and> queue (pipes s' a) = drop j qs \<or>
     j < min k (length qs) \<and> \<not> writable (pmem s) (pagetable (procs s p)) (addr + of_nat (0 + j)) \<and> queue (pipes s' a) = drop (j + 1) qs)"
    by (elim exE)
  then have "j = min k (length qs)" using assms(2) by auto
  then show ?thesis using s' by auto
qed

section \<open>Order\<close>

text \<open>The current process is outside the kernel's critical sections, or is about to return from \<open>sched\<close>.\<close>

definition ready :: "lockid set \<Rightarrow> nat \<Rightarrow> u64 list \<Rightarrow> 'a flst_scheme \<Rightarrow> bool" where
  "ready h p xs s \<longleftrightarrow> cur s = Some p \<and> held s = h \<and> vm_inv s (pagetable (procs s p)) xs \<and> user_wf s (pagetable (procs s p)) xs"

lemma vm_inv_held [simp]:
  fixes s :: "'a flst_scheme"
  shows "KmemLock \<notin> h \<Longrightarrow> KmemLock \<notin> held s \<Longrightarrow> vm_inv (s\<lparr>held := h\<rparr>) r xs = vm_inv s r xs" "user_wf (s\<lparr>held := h\<rparr>) r xs = user_wf s r xs"
    "vm_inv (updp p f s) r xs = vm_inv s r xs" "user_wf (updp p f s) r xs = user_wf s r xs"
  by (simp_all add: vm_inv_def user_wf_def free_pages_def pt_wf_def ram_page_def updp_def)

lemma ready_enter:
  assumes "ready {} p xs s" "pipe_wf (pipes s a)"
  shows "acquire_lk (PipeLock a) s = Inr (s\<lparr>held := {PipeLock a}\<rparr>)" "in_pipe a p xs (s\<lparr>held := {PipeLock a}\<rparr>)"
proof -
  have c: "cur s = Some p" "held s = {}" "vm_inv s (pagetable (procs s p)) xs" "user_wf s (pagetable (procs s p)) xs" using assms(1) by (simp_all add: ready_def)
  show "acquire_lk (PipeLock a) s = Inr (s\<lparr>held := {PipeLock a}\<rparr>)" by (simp add: acquire_lk_def c(2))
  show "in_pipe a p xs (s\<lparr>held := {PipeLock a}\<rparr>)" using c assms(2) by (simp add: in_pipe_def)
qed

lemma ready_resume:
  assumes "ready {ProcLock p} p xs s" "pipe_wf (pipes s a)"
  defines "s1 \<equiv> (updp p (\<lambda>r. r\<lparr>pchan := None\<rparr>) s)\<lparr>held := {PipeLock a}\<rparr>"
  shows "sleep_exit (PipeLock a) s = Inr s1" "in_pipe a p xs s1" "pmem s1 = pmem s" "pipes s1 = pipes s" "pagetable (procs s1 p) = pagetable (procs s p)"
proof -
  have c: "cur s = Some p" "held s = {ProcLock p}" "vm_inv s (pagetable (procs s p)) xs" "user_wf s (pagetable (procs s p)) xs" using assms(1) by (simp_all add: ready_def)
  show e: "pmem s1 = pmem s" "pipes s1 = pipes s" "pagetable (procs s1 p) = pagetable (procs s p)" by (simp_all add: s1_def updp_def)
  show "sleep_exit (PipeLock a) s = Inr s1" by (simp add: sleep_exit_def myproc_def c(1,2) Let_def release_lk_def acquire_lk_def s1_def updp_def)
  have "vm_inv s1 (pagetable (procs s p)) xs" "user_wf s1 (pagetable (procs s p)) xs" using c(2-4) by (simp_all add: s1_def)
  moreover have "cur s1 = Some p" "held s1 = {PipeLock a}" using c(1) by (simp_all add: s1_def updp_def)
  ultimately show "in_pipe a p xs s1" using assms(2) by (simp add: in_pipe_def e)
qed

text \<open>The bytes that a read has left in the memory of the reader.\<close>

definition got :: "int outcome \<Rightarrow> mem \<Rightarrow> u64 \<Rightarrow> u64 \<Rightarrow> u8 list \<Rightarrow> bool" where
  "got out m r addr bs \<longleftrightarrow> (case out of Done n \<Rightarrow> ubytes m r addr (nat n) bs | Sleeps c \<Rightarrow> bs = [])"

text \<open>A read that ended at an address that the reader may not write.\<close>

definition refused :: "int outcome \<Rightarrow> int \<Rightarrow> mem \<Rightarrow> u64 \<Rightarrow> u64 \<Rightarrow> bool" where
  "refused out n m r addr \<longleftrightarrow> (case out of Done j \<Rightarrow> 0 \<le> j \<and> j < n \<and> \<not> writable m r (addr + of_nat (nat j)) | Sleeps c \<Rightarrow> False)"

text \<open>Any number of processes use the pipe at \<open>a\<close>; between the calls, and while a process sleeps, anything else may happen
  that leaves the pipe alone. \<open>ins\<close> are the bytes that \<open>pipewrite\<close> has taken from the writers, \<open>outs\<close> the bytes that readers
  have found in their memory when \<open>piperead\<close> returned, \<open>k\<close> the number of reads that were refused an address.\<close>

inductive pipe_run :: "u64 \<Rightarrow> 'a flst_scheme \<Rightarrow> u8 list \<Rightarrow> u8 list \<Rightarrow> nat \<Rightarrow> 'a flst_scheme \<Rightarrow> bool" for a s where
  run_start: "pipe_run a s [] [] 0 s"
| run_other: "pipe_run a s ins outs k s1 \<Longrightarrow> pipes s2 a = pipes s1 a \<Longrightarrow> pipe_run a s ins outs k s2"
| run_write: "pipe_run a s ins outs k s1 \<Longrightarrow> ready {} p xs s1 \<Longrightarrow> pipewrite a addr n s1 = Inr ((out, i), s2) \<Longrightarrow>
    ubytes (pmem s1) (pagetable (procs s1 p)) addr i bs \<Longrightarrow> pipe_run a s (ins @ bs) outs k s2"
| run_write_on: "pipe_run a s ins outs k s1 \<Longrightarrow> ready {ProcLock p} p xs s1 \<Longrightarrow> pipewrite_resume a addr n i s1 = Inr ((out, i + j), s2) \<Longrightarrow>
    ubytes (pmem s1) (pagetable (procs s1 p)) (addr + of_nat i) j bs \<Longrightarrow> pipe_run a s (ins @ bs) outs k s2"
| run_read: "pipe_run a s ins outs k s1 \<Longrightarrow> ready {} p xs s1 \<Longrightarrow> piperead a addr n s1 = Inr (out, s2) \<Longrightarrow>
    got out (pmem s2) (pagetable (procs s1 p)) addr bs \<Longrightarrow>
    pipe_run a s ins (outs @ bs) (k + of_bool (refused out n (pmem s1) (pagetable (procs s1 p)) addr)) s2"
| run_read_on: "pipe_run a s ins outs k s1 \<Longrightarrow> ready {ProcLock p} p xs s1 \<Longrightarrow> piperead_resume a addr n s1 = Inr (out, s2) \<Longrightarrow>
    got out (pmem s2) (pagetable (procs s1 p)) addr bs \<Longrightarrow>
    pipe_run a s ins (outs @ bs) (k + of_bool (refused out n (pmem s1) (pagetable (procs s1 p)) addr)) s2"

lemma ubytes_unique: "ubytes m r d n bs \<Longrightarrow> ubytes m r d n bs' \<Longrightarrow> bs' = bs"
  by (rule nth_equalityI) (simp_all add: ubytes_def)

lemma write_queue:
  assumes "in_pipe a p xs s" "pipewrite_loop k a addr i s = Inr ((out, i + j), s')" "ubytes (pmem s) (pagetable (procs s p)) (addr + of_nat i) j bs"
  shows "pipe_wf (pipes s' a)" "queue (pipes s' a) = queue (pipes s a) @ bs"
proof -
  from pipewrite_loop_ok [OF assms(1), of k addr i] obtain out' j' bs' s1 where s1: "pipewrite_loop k a addr i s = Inr ((out', i + j'), s1)"
    "ubytes (pmem s) (pagetable (procs s p)) (addr + of_nat i) j' bs'" "pipe_wf (pipes s1 a)" "queue (pipes s1 a) = queue (pipes s a) @ bs'" by blast
  then have "j' = j" "s1 = s'" using assms(2) by simp_all
  then show "pipe_wf (pipes s' a)" "queue (pipes s' a) = queue (pipes s a) @ bs" using s1(2-4) ubytes_unique [OF assms(3)] by simp_all
qed

lemma got_copied:
  assumes "copied_out m r addr qs j m'" "j \<le> length qs" "length qs \<le> PIPESIZE" "got (Done (int j)) m' r addr bs"
  shows "bs = take j qs"
proof (rule nth_equalityI)
  show "length bs = length (take j qs)" using assms(2,4) by (simp add: got_def ubytes_def)
  fix i assume "i < length bs"
  then have i: "i < j" using assms(4) by (simp add: got_def ubytes_def)
  then have u: "unat (of_nat i :: u64) = i" using assms(2,3) by (simp add: unat_of_nat take_bit_nat_eq_self PIPESIZE_def)
  have "umem m' r (addr + of_nat i) = Some (qs ! i)" using assms(1) i u by (simp add: copied_out_def within_def)
  then show "bs ! i = take j qs ! i" using assms(4) i by (simp add: got_def ubytes_def)
qed

lemma read_queue:
  assumes p: "in_pipe a p xs s" and rd: "piperead_locked a addr n s = Inr (out, s')"
    and g: "got out (pmem s') (pagetable (procs s p)) addr bs"
  shows "\<exists>gap. pipe_wf (pipes s' a) \<and> queue (pipes s a) = bs @ gap @ queue (pipes s' a) \<and>
    length gap \<le> of_bool (refused out n (pmem s) (pagetable (procs s p)) addr)"
proof -
  let ?q = "pipes s a"
  have c: "cur s = Some p" "held s = {PipeLock a}" "pipe_wf ?q" using p by (simp_all add: in_pipe_def)
  show ?thesis
  proof (cases "nread ?q = nwrite ?q \<and> writeopen ?q")
    case True
    have kl: "killed p s = Inr (killed_f (procs s p), s)" by (rule killed_ok) (simp add: c(2))
    have sl: "sleep_enter (ChanPipeRead a) (PipeLock a) s = Inr (updp p (\<lambda>r. r\<lparr>pchan := Some (ChanPipeRead a), pstate := SLEEPING\<rparr>) (s\<lparr>held := {ProcLock p}\<rparr>))"
      by (rule sleep_enter_ok) (simp_all add: c(1,2))
    have "piperead_locked a addr n s = (if killed_f (procs s p) \<noteq> 0 then Inr (Done (- 1), s\<lparr>held := {}\<rparr>)
      else Inr (Sleeps (ChanPipeRead a), updp p (\<lambda>r. r\<lparr>pchan := Some (ChanPipeRead a), pstate := SLEEPING\<rparr>) (s\<lparr>held := {ProcLock p}\<rparr>)))"
      using True kl sl c(1,2) by (simp add: piperead_locked_def myproc_def release_lk_eq)
    with rd consider "out = Done (- 1)" "s' = s\<lparr>held := {}\<rparr>"
      | "out = Sleeps (ChanPipeRead a)" "s' = updp p (\<lambda>r. r\<lparr>pchan := Some (ChanPipeRead a), pstate := SLEEPING\<rparr>) (s\<lparr>held := {ProcLock p}\<rparr>)"
      by (cases "killed_f (procs s p) = 0") simp_all
    then show ?thesis using g c(3) by cases (auto simp: got_def ubytes_def updp_def)
  next
    case False
    have "piperead_locked a addr n s = piperead_loop (nat n) a addr 0 s" unfolding piperead_locked_def using False by (rule if_not_P)
    then have "piperead_loop (nat n) a addr 0 s = Inr (out, s')" using rd by simp
    moreover from piperead_loop_ok [OF p, of "nat n" addr 0] obtain j s2 where "piperead_loop (nat n) a addr 0 s = Inr (Done (int (0 + j)), s2)"
      "j \<le> min (nat n) (length (queue ?q))" "copied_out (pmem s) (pagetable (procs s p)) (addr + of_nat 0) (queue ?q) j (pmem s2)" "pipe_wf (pipes s2 a)"
      "j = min (nat n) (length (queue ?q)) \<and> queue (pipes s2 a) = drop j (queue ?q) \<or>
       j < min (nat n) (length (queue ?q)) \<and> \<not> writable (pmem s) (pagetable (procs s p)) (addr + of_nat (0 + j)) \<and> queue (pipes s2 a) = drop (j + 1) (queue ?q)"
      by blast
    ultimately have j: "out = Done (int j)" "j \<le> length (queue ?q)" "copied_out (pmem s) (pagetable (procs s p)) addr (queue ?q) j (pmem s')"
      "pipe_wf (pipes s' a)" "queue (pipes s' a) = drop j (queue ?q) \<or>
        j < nat n \<and> j < length (queue ?q) \<and> \<not> writable (pmem s) (pagetable (procs s p)) (addr + of_nat j) \<and> queue (pipes s' a) = drop (j + 1) (queue ?q)"
      by auto
    have "length (queue ?q) \<le> PIPESIZE" using c(3) by (simp add: pipe_wf_def)
    from got_copied [OF j(3,2) this g [unfolded j(1)]] have bs: "bs = take j (queue ?q)" .
    from j(5) show ?thesis
    proof (elim disjE conjE)
      assume "queue (pipes s' a) = drop j (queue ?q)"
      then show ?thesis using j(4) bs by (intro exI [of _ "[]"]) simp
    next
      assume l: "j < nat n" "j < length (queue ?q)" "\<not> writable (pmem s) (pagetable (procs s p)) (addr + of_nat j)" "queue (pipes s' a) = drop (j + 1) (queue ?q)"
      then have "refused out n (pmem s) (pagetable (procs s p)) addr" by (simp add: refused_def j(1))
      then show ?thesis using j(4) bs l(2,4) id_take_nth_drop [OF l(2)] by (intro exI [of _ "[queue ?q ! j]"]) simp
    qed
  qed
qed

text \<open>The bytes that have left the pipe are \<open>outs\<close> and at most \<open>k\<close> others.\<close>

definition taken :: "pipe \<Rightarrow> u8 list \<Rightarrow> u8 list \<Rightarrow> nat \<Rightarrow> pipe \<Rightarrow> bool" where
  "taken q ins outs k q' \<longleftrightarrow> (\<exists>took. queue q @ ins = took @ queue q' \<and> subseq outs took \<and> length took \<le> length outs + k)"

lemma taken_put: "taken q ins outs k q1 \<Longrightarrow> queue q2 = queue q1 @ bs \<Longrightarrow> taken q (ins @ bs) outs k q2"
  by (auto simp: taken_def simp flip: append_assoc)

lemma taken_get:
  assumes "taken q ins outs k q1" "queue q1 = bs @ gap @ queue q2" "length gap \<le> j"
  shows "taken q ins (outs @ bs) (k + j) q2"
proof -
  from assms(1) obtain took where t: "queue q @ ins = took @ queue q1" "subseq outs took" "length took \<le> length outs + k" by (auto simp: taken_def)
  have "subseq (outs @ bs) (took @ bs @ gap)" using t(2) by (intro list_emb_append_mono) (simp_all add: subseq_rev_drop_many)
  then show ?thesis using t assms(2,3) unfolding taken_def by (intro exI [of _ "took @ bs @ gap"]) simp
qed

lemma pipe_run_queue:
  assumes "pipe_run a s ins outs k s'" "pipe_wf (pipes s a)"
  shows "pipe_wf (pipes s' a) \<and> taken (pipes s a) ins outs k (pipes s' a)"
  using assms(1)
proof induction
  case run_start
  then show ?case using assms(2) by (simp add: taken_def)
next
  case (run_other ins outs k s1 s2)
  then show ?case by simp
next
  case (run_write ins outs k s1 p xs addr n out i s2 bs)
  then have w: "pipe_wf (pipes s1 a)" by simp
  note e = ready_enter [OF run_write.hyps(2) w]
  have "pipewrite_loop (nat n) a addr 0 (s1\<lparr>held := {PipeLock a}\<rparr>) = Inr ((out, 0 + i), s2)" using run_write.hyps(3) e(1) by (simp add: pipewrite_def)
  from write_queue [OF e(2) this, of bs] show ?case using run_write.hyps(4) run_write.IH by (auto intro: taken_put)
next
  case (run_write_on ins outs k s1 p xs addr n i out j s2 bs)
  then have w: "pipe_wf (pipes s1 a)" by simp
  note e = ready_resume [OF run_write_on.hyps(2) w]
  let ?t = "(updp p (\<lambda>r. r\<lparr>pchan := None\<rparr>) s1)\<lparr>held := {PipeLock a}\<rparr>"
  have "pipewrite_loop (nat n - i) a addr i ?t = Inr ((out, i + j), s2)" using run_write_on.hyps(3) e(1) by (simp add: pipewrite_resume_def)
  from write_queue [OF e(2) this, of bs, unfolded e(3-5)] show ?case using run_write_on.hyps(4) run_write_on.IH by (auto intro: taken_put)
next
  case (run_read ins outs k s1 p xs addr n out s2 bs)
  then have w: "pipe_wf (pipes s1 a)" by simp
  note e = ready_enter [OF run_read.hyps(2) w]
  have "piperead_locked a addr n (s1\<lparr>held := {PipeLock a}\<rparr>) = Inr (out, s2)" using run_read.hyps(3) e(1) by (simp add: piperead_def)
  from read_queue [OF e(2) this, of bs] obtain gap where "pipe_wf (pipes s2 a)" "queue (pipes s1 a) = bs @ gap @ queue (pipes s2 a)"
    "length gap \<le> of_bool (refused out n (pmem s1) (pagetable (procs s1 p)) addr)" using run_read.hyps(4) by auto
  then show ?case using taken_get run_read.IH by blast
next
  case (run_read_on ins outs k s1 p xs addr n out s2 bs)
  then have w: "pipe_wf (pipes s1 a)" by simp
  note e = ready_resume [OF run_read_on.hyps(2) w]
  let ?t = "(updp p (\<lambda>r. r\<lparr>pchan := None\<rparr>) s1)\<lparr>held := {PipeLock a}\<rparr>"
  have "piperead_locked a addr n ?t = Inr (out, s2)" using run_read_on.hyps(3) e(1) by (simp add: piperead_resume_def)
  from read_queue [OF e(2) this, of bs, unfolded e(3-5)] obtain gap where "pipe_wf (pipes s2 a)" "queue (pipes s1 a) = bs @ gap @ queue (pipes s2 a)"
    "length gap \<le> of_bool (refused out n (pmem s1) (pagetable (procs s1 p)) addr)" using run_read_on.hyps(4) by auto
  then show ?case using taken_get run_read_on.IH by blast
qed

text \<open>
  C14. A pipe delivers the bytes in the order in which they were written, none twice and none invented. Take any
  interleaving of calls of \<open>pipewrite\<close> and \<open>piperead\<close> by any processes, of their continuations after a sleep, and of anything
  else that leaves the pipe alone. Then the bytes that were in the pipe at the start followed by those that \<open>pipewrite\<close> took from
  the memory of the writers are the bytes that have left the pipe followed by those still in it, of which there are never
  more than \<open>PIPESIZE\<close>; and those that have left it are those that the readers found in their memory, in this order, with
  at most one byte lost by each read that was refused an address. Without such reads nothing is lost.
\<close>

theorem pipe_fifo:
  assumes "pipe_run a s ins outs k s'" "pipe_wf (pipes s a)"
  shows "(\<exists>took. queue (pipes s a) @ ins = took @ queue (pipes s' a) \<and> subseq outs took \<and> length took \<le> length outs + k \<and>
    (k = 0 \<longrightarrow> took = outs)) \<and> length (queue (pipes s' a)) \<le> PIPESIZE"
proof -
  from pipe_run_queue [OF assms] obtain took where t: "queue (pipes s a) @ ins = took @ queue (pipes s' a)" "subseq outs took"
      "length took \<le> length outs + k" and w: "pipe_wf (pipes s' a)" by (auto simp: taken_def)
  have "k = 0 \<Longrightarrow> took = outs" using t(2,3) list_emb_length [OF t(2)] subseq_same_length [OF t(2)] by simp
  then show ?thesis using t w by (auto simp: pipe_wf_def)
qed

text \<open>A process with one page of memory and an empty pipe.\<close>

definition demo_flst :: flst where
  "demo_flst = (ist.extend demo_ist (flst.fields (\<lambda>_. \<lparr>f_type = FD_NONE, f_ref = 0, f_readable = False, f_writable = False, f_pipe = 0, f_ip = None, f_off = 0, f_major = 0\<rparr>)
     (\<lambda>_. \<lparr>pdata = replicate PIPESIZE 0, nread = 0, nwrite = 0, readopen = True, writeopen = True\<rparr>)))
     \<lparr>held := {}, pmem := pmem demo_user, freelist := 0, kend := 0x80100000, cur := Some 0,
      procs := (procs demo_ist)(0 := (procs demo_ist 0)\<lparr>pagetable := 0x87FFF000, killed_f := 0\<rparr>)\<rparr>"

lemma demo_flst_simps: "held demo_flst = {}" "pmem demo_flst = pmem demo_user" "cur demo_flst = Some 0" "pagetable (procs demo_flst 0) = 0x87FFF000" "killed_f (procs demo_flst 0) = 0"
  "pipes demo_flst a = \<lparr>pdata = replicate PIPESIZE 0, nread = 0, nwrite = 0, readopen = True, writeopen = True\<rparr>" "freelist demo_flst = 0" "kend demo_flst = 0x80100000"
  by (simp_all add: demo_flst_def ist.defs flst.defs)

lemma vm_cong:
  fixes s :: "'a kmem_scheme" and t :: "'b kmem_scheme"
  assumes "pmem s = pmem t" "freelist s = freelist t" "kend s = kend t" "held s = held t"
  shows "vm_inv s r xs = vm_inv t r xs" "user_wf s r xs = user_wf t r xs"
  by (simp_all add: vm_inv_def user_wf_def free_pages_def pt_wf_def ram_page_def assms)

lemma demo_flst_ready: "ready {} 0 [] (demo_flst\<lparr>pipes := f\<rparr>)" "pipe_wf (pipes demo_flst a)" "queue (pipes demo_flst a) = []"
proof -
  have "freelist demo_user = 0" "kend demo_user = 0x80100000" "held demo_user = {}" by (simp_all add: demo_user_def)
  then have "vm_inv demo_flst 0x87FFF000 []" "user_wf demo_flst 0x87FFF000 []"
    using vm_cong [of demo_flst demo_user] demo_user_inv demo_user_wf by (simp_all add: demo_flst_simps)
  then show "ready {} 0 [] (demo_flst\<lparr>pipes := f\<rparr>)" by (simp add: ready_def demo_flst_simps)
  show q: "queue (pipes demo_flst a) = []" by (simp add: queue_def demo_flst_simps)
  show "pipe_wf (pipes demo_flst a)" unfolding pipe_wf_def q by (simp add: demo_flst_simps)
qed

lemma demo_mem: "i < 4096 \<Longrightarrow> writable (pmem demo_flst) 0x87FFF000 (0 + of_nat i)" "i < 4096 \<Longrightarrow> umem (pmem demo_flst) 0x87FFF000 (0 + of_nat i) \<noteq> None"
proof -
  assume "i < 4096"
  then have "unat (0 + of_nat i :: u64) < 4096" by (simp add: unat_of_nat take_bit_nat_eq_self)
  from demo_user_writable [OF this] show "writable (pmem demo_flst) 0x87FFF000 (0 + of_nat i)" "umem (pmem demo_flst) 0x87FFF000 (0 + of_nat i) \<noteq> None"
    by (simp_all add: demo_flst_simps writable_def umem_def)
qed

lemma demo_write:
  "\<exists>bs s'. pipewrite a 0 3 demo_flst = Inr ((Done 3, 3), s') \<and> ubytes (pmem demo_flst) 0x87FFF000 0 3 bs \<and> pipe_wf (pipes s' a) \<and> queue (pipes s' a) = bs"
proof -
  have r: "ready {} 0 [] demo_flst" using demo_flst_ready(1) [of "pipes demo_flst"] by simp
  note e = ready_enter [OF r demo_flst_ready(2), of a]
  let ?s = "demo_flst\<lparr>held := {PipeLock a}\<rparr>"
  have f: "pmem ?s = pmem demo_flst" "pagetable (procs ?s 0) = 0x87FFF000" "killed_f (procs ?s 0) = 0" "readopen (pipes ?s a) = True" "queue (pipes ?s a) = []"
    using demo_flst_ready(3) [of a] by (simp_all add: demo_flst_simps)
  from pipewrite_loop_ok [OF e(2), of 3 0 0, unfolded f] obtain out j bs s' where s': "pipewrite_loop 3 a 0 0 ?s = Inr ((out, 0 + j), s')" "j \<le> 3"
    "ubytes (pmem demo_flst) 0x87FFF000 (0 + of_nat 0) j bs" "pipe_wf (pipes s' a)" "queue (pipes s' a) = [] @ bs"
    "out = Done (int (0 + j)) \<and> (j = 3 \<or> umem (pmem demo_flst) 0x87FFF000 (0 + of_nat (0 + j)) = None) \<or>
     out = Done (- 1) \<and> j = 0 \<and> (\<not> True \<or> (0 :: int) \<noteq> 0) \<or> out = Sleeps (ChanPipeWrite a) \<and> j < 3 \<and> length (queue (pipes s' a)) = PIPESIZE" by blast
  have "length bs = j" using s'(3) by (simp add: ubytes_def)
  then have "out = Done (int j) \<and> j = 3" using s'(2,5,6) demo_mem(2) [of j] by (auto simp: PIPESIZE_def)
  then show ?thesis using s'(1,3,4,5) e(1) by (auto simp: pipewrite_def)
qed

theorem pipe_fifo_witness:
  "\<exists>ins outs s'. pipe_run 0x87000000 demo_flst ins outs 0 s' \<and> length ins = 3 \<and> length outs = 2 \<and>
     queue (pipes demo_flst 0x87000000) @ ins = outs @ queue (pipes s' 0x87000000) \<and> length (queue (pipes s' 0x87000000)) \<le> PIPESIZE"
proof -
  let ?a = "0x87000000 :: u64" and ?r = "0x87FFF000 :: u64"
  obtain bs s1 where s1: "pipewrite ?a 0 3 demo_flst = Inr ((Done 3, 3), s1)" "ubytes (pmem demo_flst) ?r 0 3 bs" "pipe_wf (pipes s1 ?a)" "queue (pipes s1 ?a) = bs"
    using demo_write by blast
  let ?s2 = "demo_flst\<lparr>pipes := pipes s1\<rparr>"
  have r: "ready {} 0 [] demo_flst" using demo_flst_ready(1) [of "pipes demo_flst"] by simp
  have "pipe_run ?a demo_flst ([] @ bs) [] 0 s1" using run_write [OF run_start r s1(1)] s1(2) by (simp add: demo_flst_simps)
  then have p2: "pipe_run ?a demo_flst bs [] 0 ?s2" using run_other [of ?a demo_flst bs "[]" 0 s1 ?s2] by simp
  have w: "pipe_wf (pipes ?s2 ?a)" using s1(3) by simp
  note e = ready_enter [OF demo_flst_ready(1) w]
  let ?t = "?s2\<lparr>held := {PipeLock ?a}\<rparr>"
  have l: "length bs = 3" using s1(2) by (simp add: ubytes_def)
  have f: "pmem ?t = pmem demo_flst" "pagetable (procs ?t 0) = ?r" "queue (pipes ?t ?a) = bs" using s1(4) by (simp_all add: demo_flst_simps)
  have wr: "\<forall>i<2. writable (pmem demo_flst) ?r (0 + of_nat i)" using demo_mem(1) by simp
  from piperead_loop_all [OF e(2), of 2 0, unfolded f, OF wr] obtain s3 where s3: "piperead_loop 2 ?a 0 0 ?t = Inr (Done 2, s3)"
    "copied_out (pmem demo_flst) ?r 0 bs 2 (pmem s3)" using l by auto
  have "nread (pipes ?t ?a) \<noteq> nwrite (pipes ?t ?a)" using pipe_tests(2) [OF w] f(3) l by auto
  then have "piperead ?a 0 2 ?s2 = Inr (Done 2, s3)" using e(1) s3(1) by (simp add: piperead_def piperead_locked_def)
  moreover have "got (Done 2) (pmem s3) ?r 0 (take 2 bs)"
    using s3(2) l by (auto simp: got_def ubytes_def copied_out_def within_def unat_of_nat take_bit_nat_eq_self)
  ultimately have "pipe_run ?a demo_flst bs ([] @ take 2 bs) (0 + of_bool (refused (Done 2) 2 (pmem ?s2) ?r 0)) s3"
    using run_read [OF p2 demo_flst_ready(1)] by (simp add: demo_flst_simps)
  then have p3: "pipe_run ?a demo_flst bs (take 2 bs) 0 s3" by (simp add: refused_def)
  from p3 pipe_fifo [OF p3 demo_flst_ready(2)] show ?thesis using l by (intro exI [of _ bs] exI [of _ "take 2 bs"] exI [of _ s3]) auto
qed

end
