(* ===== verification/File.thy ===== *)
theory File
  imports Pipe
begin

text \<open>
  Open files (\<open>kernel/file.c\<close>) and \<open>pipealloc\<close> of \<open>kernel/pipe.c\<close>. A pointer to a \<open>struct file\<close> is its index in the table. The
  routines are modelled in one piece: one that goes to sleep ends in \<open>Block\<close>. The table of device routines has the
  one entry that \<open>consoleinit\<close> makes.
\<close>

definition NDEV :: int where "NDEV = 10"

definition CONSOLE :: int where "CONSOLE = 1"

definition updf :: "nat \<Rightarrow> (file_t \<Rightarrow> file_t) \<Rightarrow> 'a flst_scheme \<Rightarrow> 'a flst_scheme" where
  "updf i f s = s\<lparr>ftable := (ftable s)(i := f (ftable s i))\<rparr>"

definition filealloc :: "'a flst_scheme \<Rightarrow> kerr + (nat option \<times> 'a flst_scheme)" where
  "filealloc s =
     bindr (acquire_lk FtableLock s) (\<lambda>s1.
     case scan (\<lambda>i. f_ref (ftable s1 i) = 0) 0 NFILE of
       Some i \<Rightarrow> bindr (release_lk FtableLock (updf i (\<lambda>r. r\<lparr>f_ref := 1\<rparr>) s1)) (\<lambda>s2. Inr (Some i, s2))
     | None \<Rightarrow> bindr (release_lk FtableLock s1) (\<lambda>s2. Inr (None, s2)))"

definition filedup :: "nat \<Rightarrow> 'a flst_scheme \<Rightarrow> kerr + (nat \<times> 'a flst_scheme)" where
  "filedup f s =
     bindr (acquire_lk FtableLock s) (\<lambda>s1.
     if f_ref (ftable s1 f) < 1 then Inl (Panic ''filedup'')
     else bindr (release_lk FtableLock (updf f (\<lambda>r. r\<lparr>f_ref := f_ref r + 1\<rparr>) s1)) (\<lambda>s2. Inr (f, s2)))"

text \<open>The transaction in which an inode is dropped.\<close>

definition put_inode :: "nat option \<Rightarrow> 'a flst_scheme \<Rightarrow> kerr + 'a flst_scheme" where
  "put_inode ip s =
     bindr (begin_op s) (\<lambda>s1.
     case ip of None \<Rightarrow> Inl Fault | Some i \<Rightarrow> bindr (iput i s1) end_op)"

definition fileclose :: "nat \<Rightarrow> 'a flst_scheme \<Rightarrow> kerr + 'a flst_scheme" where
  "fileclose f s =
     bindr (acquire_lk FtableLock s) (\<lambda>s1.
     if f_ref (ftable s1 f) < 1 then Inl (Panic ''fileclose'')
     else
       let s2 = updf f (\<lambda>r. r\<lparr>f_ref := f_ref r - 1\<rparr>) s1 in
       if f_ref (ftable s2 f) > 0 then release_lk FtableLock s2
       else
         let ff = ftable s2 f in
         bindr (release_lk FtableLock (updf f (\<lambda>r. r\<lparr>f_ref := 0, f_type := FD_NONE\<rparr>) s2)) (\<lambda>s3.
         case f_type ff of
           FD_PIPE \<Rightarrow> pipeclose (f_pipe ff) (f_writable ff) s3
         | FD_INODE \<Rightarrow> put_inode (f_ip ff) s3
         | FD_DEVICE \<Rightarrow> put_inode (f_ip ff) s3
         | FD_NONE \<Rightarrow> Inr s3))"

text \<open>The two files of a new pipe; \<open>None\<close> is the result \<open>-1\<close>.\<close>

definition pipealloc :: "'a flst_scheme \<Rightarrow> kerr + ((nat \<times> nat) option \<times> 'a flst_scheme)" where
  "pipealloc s =
     bindr (filealloc s) (\<lambda>(rf, s1).
     case rf of None \<Rightarrow> Inr (None, s1)
     | Some f0 \<Rightarrow>
       bindr (filealloc s1) (\<lambda>(wf, s2).
       case wf of None \<Rightarrow> bindr (fileclose f0 s2) (\<lambda>s3. Inr (None, s3))
       | Some f1 \<Rightarrow>
         bindr (kalloc s2) (\<lambda>(a, s3).
         if a = 0 then bindr (fileclose f0 s3) (\<lambda>s4. bindr (fileclose f1 s4) (\<lambda>s5. Inr (None, s5)))
         else
           let s4 = updpipe a (\<lambda>q. q\<lparr>readopen := True, writeopen := True, nwrite := 0, nread := 0\<rparr>) s3;
               s5 = updf f0 (\<lambda>r. r\<lparr>f_type := FD_PIPE, f_readable := True, f_writable := False, f_pipe := a\<rparr>) s4;
               s6 = updf f1 (\<lambda>r. r\<lparr>f_type := FD_PIPE, f_readable := False, f_writable := True, f_pipe := a\<rparr>) s5
           in Inr (Some (f0, f1), s6))))"

text \<open>The bytes of \<open>struct stat\<close>; the padding before the size, which the code leaves as it is on the stack, is 0.\<close>

definition stat_bytes :: "stat \<Rightarrow> u8 list" where
  "stat_bytes st = le_bytes 4 (unat (st_dev st)) @ le_bytes 4 (unat (st_ino st)) @ le_bytes 2 (unat (st_type st)) @
     le_bytes 2 (unat (st_nlink st)) @ replicate 4 0 @ le_bytes 8 (unat (st_size st))"

definition filestat :: "nat \<Rightarrow> u64 \<Rightarrow> 'a flst_scheme \<Rightarrow> kerr + (int \<times> 'a flst_scheme)" where
  "filestat f addr s =
     bindr (myproc s) (\<lambda>p.
     if f_type (ftable s f) = FD_INODE \<or> f_type (ftable s f) = FD_DEVICE then
       bindr (ilock (f_ip (ftable s f)) s) (\<lambda>s1.
       case f_ip (ftable s1 f) of None \<Rightarrow> Inl Fault
       | Some i \<Rightarrow>
         let st = stati i s1 in
         bindr (iunlock (Some i) s1) (\<lambda>s2.
         bindr (copyout (pagetable (procs s2 p)) addr (stat_bytes st) s2) (\<lambda>(r, s3).
         Inr (if r < 0 then -1 else 0, s3))))
     else Inr (-1, s))"

definition has_driver :: "u16 \<Rightarrow> bool" where
  "has_driver m \<longleftrightarrow> 0 \<le> sint m \<and> sint m < NDEV \<and> sint m = CONSOLE"

definition fileread :: "nat \<Rightarrow> u64 \<Rightarrow> int \<Rightarrow> 'a flst_scheme \<Rightarrow> kerr + (int \<times> 'a flst_scheme)" where
  "fileread f addr n s =
     (let r = ftable s f in
      if \<not> f_readable r then Inr (-1, s)
      else case f_type r of
        FD_PIPE \<Rightarrow> or_block (piperead (f_pipe r) addr n s)
      | FD_DEVICE \<Rightarrow>
          if \<not> has_driver (f_major r) then Inr (-1, s)
          else or_block (bindr (consoleread True addr n s) (\<lambda>((out, dst, k), s1). Inr (out, s1)))
      | FD_INODE \<Rightarrow>
          bindr (ilock (f_ip r) s) (\<lambda>s1.
          case f_ip r of None \<Rightarrow> Inl Fault
          | Some i \<Rightarrow>
            bindr (readi i (UserAddr addr) (f_off (ftable s1 f)) (of_int n) s1) (\<lambda>((m, pl), s2).
            let s3 = (if sint m > 0 then updf f (\<lambda>r. r\<lparr>f_off := f_off r + m\<rparr>) s2 else s2) in
            bindr (iunlock (Some i) s3) (\<lambda>s4. Inr (sint m, s4))))
      | FD_NONE \<Rightarrow> Inl (Panic ''fileread''))"

definition filewrite_max :: int where
  "filewrite_max = (MAXOPBLOCKS - 1 - 1 - 2) div 2 * int BSIZE"

text \<open>One transaction of \<open>filewrite\<close>.\<close>

definition filewrite_step :: "nat \<Rightarrow> u64 \<Rightarrow> int \<Rightarrow> 'a flst_scheme \<Rightarrow> kerr + (int \<times> 'a flst_scheme)" where
  "filewrite_step f addr n1 s =
     bindr (begin_op s) (\<lambda>s1.
     bindr (ilock (f_ip (ftable s1 f)) s1) (\<lambda>s2.
     case f_ip (ftable s2 f) of None \<Rightarrow> Inl Fault
     | Some i \<Rightarrow>
       bindr (writei i (UserAddr addr) (f_off (ftable s2 f)) (of_int n1) s2) (\<lambda>(m, s3).
       let s4 = (if sint m > 0 then updf f (\<lambda>r. r\<lparr>f_off := f_off r + m\<rparr>) s3 else s3) in
       bindr (iunlock (Some i) s4) (\<lambda>s5.
       bindr (end_op s5) (\<lambda>s6. Inr (sint m, s6))))))"

function filewrite_loop :: "nat \<Rightarrow> u64 \<Rightarrow> int \<Rightarrow> int \<Rightarrow> 'a flst_scheme \<Rightarrow> kerr + (int \<times> 'a flst_scheme)" where
  "filewrite_loop f addr n i s =
     (if i < n then
        let n1 = min (n - i) filewrite_max in
        bindr (filewrite_step f (addr + of_int i) n1 s) (\<lambda>(r, s1).
        if r \<noteq> n1 then Inr (i, s1) else filewrite_loop f addr n (i + r) s1)
      else Inr (i, s))"
  by pat_completeness auto
termination
  by (relation "measure (\<lambda>(f, addr, n, i, s). nat (n - i))") (auto simp: filewrite_max_def MAXOPBLOCKS_def BSIZE_def)

declare filewrite_loop.simps [simp del]

definition filewrite :: "nat \<Rightarrow> u64 \<Rightarrow> int \<Rightarrow> 'a flst_scheme \<Rightarrow> kerr + (int \<times> 'a flst_scheme)" where
  "filewrite f addr n s =
     (let r = ftable s f in
      if \<not> f_writable r then Inr (-1, s)
      else case f_type r of
        FD_PIPE \<Rightarrow> or_block (bindr (pipewrite (f_pipe r) addr n s) (\<lambda>((out, i), s1). Inr (out, s1)))
      | FD_DEVICE \<Rightarrow> if \<not> has_driver (f_major r) then Inr (-1, s) else consolewrite True addr n s
      | FD_INODE \<Rightarrow> bindr (filewrite_loop f addr n 0 s) (\<lambda>(i, s1). Inr (if i = n then n else -1, s1))
      | FD_NONE \<Rightarrow> Inl (Panic ''filewrite''))"

end
