(* ===== verification/Sysfile.thy ===== *)
theory Sysfile
  imports File
begin

text \<open>
  System calls on files: the arguments of a system call (\<open>kernel/syscall.c\<close>) and the calls of \<open>kernel/sysfile.c\<close> except
  \<open>sys_exec\<close>. The arguments are registers in the trap frame of the process; a path is the list of its bytes without
  the final NUL. The result is the 64-bit word that goes to register \<open>a0\<close>.
\<close>

unbundle bit_operations_syntax

section \<open>Arguments\<close>

definition NOFILE :: nat where "NOFILE = 16"

definition MAXPATH :: nat where "MAXPATH = 128"

definition tf_get :: "nat \<Rightarrow> u64 \<Rightarrow> 'a pst_scheme \<Rightarrow> u64" where
  "tf_get p off s = load64 (pmem s) (trapframe (procs s p) + off)"

definition tf_set :: "nat \<Rightarrow> u64 \<Rightarrow> u64 \<Rightarrow> 'a pst_scheme \<Rightarrow> 'a pst_scheme" where
  "tf_set p off v s = s\<lparr>pmem := store64 (trapframe (procs s p) + off) v (pmem s)\<rparr>"

definition tf_epc :: u64 where "tf_epc = 24"

definition tf_sp :: u64 where "tf_sp = 48"

definition tf_a0 :: u64 where "tf_a0 = 112"

definition tf_a1 :: u64 where "tf_a1 = 120"

definition tf_a7 :: u64 where "tf_a7 = 168"

definition argraw :: "nat \<Rightarrow> 'a pst_scheme \<Rightarrow> kerr + u64" where
  "argraw n s =
     bindr (myproc s) (\<lambda>p.
     if n \<le> 5 then Inr (tf_get p (tf_a0 + 8 * of_nat n) s) else Inl (Panic ''argraw''))"

definition argint :: "nat \<Rightarrow> 'a pst_scheme \<Rightarrow> kerr + int" where
  "argint n s = bindr (argraw n s) (\<lambda>w. Inr (sint (ucast w :: u32)))"

definition argaddr :: "nat \<Rightarrow> 'a pst_scheme \<Rightarrow> kerr + u64" where
  "argaddr n s = argraw n s"

definition fetchaddr :: "u64 \<Rightarrow> 'a pst_scheme \<Rightarrow> kerr + ((int \<times> u64) \<times> 'a pst_scheme)" where
  "fetchaddr addr s =
     bindr (myproc s) (\<lambda>p.
     if addr \<ge> sz (procs s p) \<or> addr + 8 > sz (procs s p) then Inr ((-1, 0), s)
     else bindr (copyin (pagetable (procs s p)) addr 8 s) (\<lambda>((r, bs), s1).
       Inr (if r \<noteq> 0 then (-1, 0) else (0, of_nat (le_nat bs)), s1)))"

text \<open>The result and the bytes that are copied to the buffer.\<close>

definition fetchstr :: "u64 \<Rightarrow> nat \<Rightarrow> 'a pst_scheme \<Rightarrow> kerr + ((int \<times> u8 list) \<times> 'a pst_scheme)" where
  "fetchstr addr max_n s =
     bindr (myproc s) (\<lambda>p.
     bindr (copyinstr (pagetable (procs s p)) addr max_n s) (\<lambda>((r, bs), s1).
     Inr ((if r < 0 then -1 else int (length (takeWhile (\<lambda>b. b \<noteq> 0) bs)), bs), s1)))"

definition argstr :: "nat \<Rightarrow> nat \<Rightarrow> 'a pst_scheme \<Rightarrow> kerr + ((int \<times> u8 list) \<times> 'a pst_scheme)" where
  "argstr n max_n s = bindr (argaddr n s) (\<lambda>addr. fetchstr addr max_n s)"

text \<open>A path argument: \<open>None\<close> if \<open>argstr\<close> fails.\<close>

definition argpath :: "nat \<Rightarrow> 'a pst_scheme \<Rightarrow> kerr + (u8 list option \<times> 'a pst_scheme)" where
  "argpath n s = bindr (argstr n MAXPATH s) (\<lambda>((r, bs), s1). Inr (if r < 0 then None else Some (takeWhile (\<lambda>b. b \<noteq> 0) bs), s1))"

section \<open>File descriptors\<close>

definition argfd :: "nat \<Rightarrow> 'a pst_scheme \<Rightarrow> kerr + (nat \<times> nat) option" where
  "argfd n s =
     bindr (argint n s) (\<lambda>fd.
     bindr (myproc s) (\<lambda>p.
     if fd < 0 \<or> fd \<ge> int NOFILE then Inr None
     else case ofile (procs s p) ! nat fd of None \<Rightarrow> Inr None | Some f \<Rightarrow> Inr (Some (nat fd, f))))"

definition set_ofile :: "nat \<Rightarrow> nat \<Rightarrow> nat option \<Rightarrow> 'a pst_scheme \<Rightarrow> 'a pst_scheme" where
  "set_ofile p fd f s = updp p (\<lambda>r. r\<lparr>ofile := (ofile r)[fd := f]\<rparr>) s"

definition fdalloc :: "nat \<Rightarrow> 'a pst_scheme \<Rightarrow> kerr + (nat option \<times> 'a pst_scheme)" where
  "fdalloc f s =
     bindr (myproc s) (\<lambda>p.
     case scan (\<lambda>fd. ofile (procs s p) ! fd = None) 0 NOFILE of
       None \<Rightarrow> Inr (None, s)
     | Some fd \<Rightarrow> Inr (Some fd, set_ofile p fd (Some f) s))"

definition sys_dup :: "'a flst_scheme \<Rightarrow> kerr + (u64 \<times> 'a flst_scheme)" where
  "sys_dup s =
     bindr (argfd 0 s) (\<lambda>a.
     case a of None \<Rightarrow> Inr (-1, s)
     | Some (fd0, f) \<Rightarrow>
       bindr (fdalloc f s) (\<lambda>(fd, s1).
       case fd of None \<Rightarrow> Inr (-1, s1)
       | Some d \<Rightarrow> bindr (filedup f s1) (\<lambda>(f', s2). Inr (of_nat d, s2))))"

definition sys_read :: "'a flst_scheme \<Rightarrow> kerr + (u64 \<times> 'a flst_scheme)" where
  "sys_read s =
     bindr (argaddr 1 s) (\<lambda>p.
     bindr (argint 2 s) (\<lambda>n.
     bindr (argfd 0 s) (\<lambda>a.
     case a of None \<Rightarrow> Inr (-1, s) | Some (fd, f) \<Rightarrow> bindr (fileread f p n s) (\<lambda>(r, s1). Inr (of_int r, s1)))))"

definition sys_write :: "'a flst_scheme \<Rightarrow> kerr + (u64 \<times> 'a flst_scheme)" where
  "sys_write s =
     bindr (argaddr 1 s) (\<lambda>p.
     bindr (argint 2 s) (\<lambda>n.
     bindr (argfd 0 s) (\<lambda>a.
     case a of None \<Rightarrow> Inr (-1, s) | Some (fd, f) \<Rightarrow> bindr (filewrite f p n s) (\<lambda>(r, s1). Inr (of_int r, s1)))))"

definition sys_close :: "'a flst_scheme \<Rightarrow> kerr + (u64 \<times> 'a flst_scheme)" where
  "sys_close s =
     bindr (argfd 0 s) (\<lambda>a.
     case a of None \<Rightarrow> Inr (-1, s)
     | Some (fd, f) \<Rightarrow>
       bindr (myproc s) (\<lambda>p.
       bindr (fileclose f (set_ofile p fd None s)) (\<lambda>s1. Inr (0, s1))))"

definition sys_fstat :: "'a flst_scheme \<Rightarrow> kerr + (u64 \<times> 'a flst_scheme)" where
  "sys_fstat s =
     bindr (argaddr 1 s) (\<lambda>st.
     bindr (argfd 0 s) (\<lambda>a.
     case a of None \<Rightarrow> Inr (-1, s) | Some (fd, f) \<Rightarrow> bindr (filestat f st s) (\<lambda>(r, s1). Inr (of_int r, s1))))"

text \<open>The end of an operation: the transaction is closed and the result returned.\<close>

definition end_with :: "'b \<Rightarrow> 'a lst_scheme \<Rightarrow> kerr + ('b \<times> 'a lst_scheme)" where
  "end_with r s = bindr (end_op s) (\<lambda>s1. Inr (r, s1))"

section \<open>Links\<close>

definition sys_link :: "'a flst_scheme \<Rightarrow> kerr + (u64 \<times> 'a flst_scheme)" where
  "sys_link s =
     bindr (argpath 0 s) (\<lambda>(old, s1). case old of None \<Rightarrow> Inr (-1, s1) | Some old_path \<Rightarrow>
     bindr (argpath 1 s1) (\<lambda>(nw, s2). case nw of None \<Rightarrow> Inr (-1, s2) | Some new_path \<Rightarrow>
     bindr (begin_op s2) (\<lambda>s3.
     bindr (namei old_path s3) (\<lambda>(ipo, s4). case ipo of None \<Rightarrow> end_with (-1) s4 | Some ip \<Rightarrow>
     bindr (ilock (Some ip) s4) (\<lambda>s5.
     if i_type (itable s5 ip) = T_DIR then bindr (iunlockput (Some ip) s5) (end_with (-1))
     else
       bindr (iupdate ip (updi ip (\<lambda>r. r\<lparr>i_nlink := i_nlink r + 1\<rparr>) s5)) (\<lambda>s6.
       bindr (iunlock (Some ip) s6) (\<lambda>s7.
       let bad = (\<lambda>t. bindr (ilock (Some ip) t) (\<lambda>t1.
             bindr (iupdate ip (updi ip (\<lambda>r. r\<lparr>i_nlink := i_nlink r - 1\<rparr>) t1)) (\<lambda>t2.
             bindr (iunlockput (Some ip) t2) (end_with (-1)))))
       in bindr (nameiparent new_path s7) (\<lambda>((dpo, name), s8). case dpo of None \<Rightarrow> bad s8 | Some dp \<Rightarrow>
          bindr (ilock (Some dp) s8) (\<lambda>s9.
          bindr (if i_dev (itable s9 dp) \<noteq> i_dev (itable s9 ip) then Inr (-1, s9)
                 else dirlink dp name (i_inum (itable s9 ip)) s9) (\<lambda>(r, s10).
          bindr (iunlockput (Some dp) s10) (\<lambda>s11.
          if r < 0 then bad s11 else bindr (iput ip s11) (end_with 0))))))))))))"

primrec isdirempty_loop :: "nat \<Rightarrow> nat \<Rightarrow> nat \<Rightarrow> 'a flst_scheme \<Rightarrow> kerr + (bool \<times> 'a flst_scheme)" where
  "isdirempty_loop 0 off dp s = Inr (True, s)"
| "isdirempty_loop (Suc k) off dp s =
     bindr (read_dirent ''isdirempty: readi'' dp off s) (\<lambda>(de, s1).
     if de_inum de \<noteq> 0 then Inr (False, s1) else isdirempty_loop k (off + 16) dp s1)"

definition isdirempty :: "nat \<Rightarrow> 'a flst_scheme \<Rightarrow> kerr + (bool \<times> 'a flst_scheme)" where
  "isdirempty dp s = isdirempty_loop ((unat (i_size (itable s dp)) - 32 + 15) div 16) 32 dp s"

definition sys_unlink :: "'a flst_scheme \<Rightarrow> kerr + (u64 \<times> 'a flst_scheme)" where
  "sys_unlink s =
     bindr (argpath 0 s) (\<lambda>(po, s1). case po of None \<Rightarrow> Inr (-1, s1) | Some path \<Rightarrow>
     bindr (begin_op s1) (\<lambda>s2.
     bindr (nameiparent path s2) (\<lambda>((dpo, name), s3). case dpo of None \<Rightarrow> end_with (-1) s3 | Some dp \<Rightarrow>
     bindr (ilock (Some dp) s3) (\<lambda>s4.
     let bad = (\<lambda>t. bindr (iunlockput (Some dp) t) (end_with (-1))) in
     if namecmp name [46] = 0 \<or> namecmp name [46, 46] = 0 then bad s4
     else bindr (dirlookup dp name s4) (\<lambda>(found, s5). case found of None \<Rightarrow> bad s5 | Some (ip, off) \<Rightarrow>
       bindr (ilock (Some ip) s5) (\<lambda>s6.
       if sint (i_nlink (itable s6 ip)) < 1 then Inl (Panic ''unlink: nlink < 1'')
       else bindr (if i_type (itable s6 ip) = T_DIR then isdirempty ip s6 else Inr (True, s6)) (\<lambda>(ok, s7).
         if \<not> ok then bindr (iunlockput (Some ip) s7) bad
         else bindr (writei dp (Local (replicate 16 0)) (of_nat off) 16 s7) (\<lambda>(r, s8).
           if r \<noteq> 16 then Inl (Panic ''unlink: writei'')
           else bindr (if i_type (itable s8 ip) = T_DIR then iupdate dp (updi dp (\<lambda>r. r\<lparr>i_nlink := i_nlink r - 1\<rparr>) s8) else Inr s8) (\<lambda>s9.
             bindr (iunlockput (Some dp) s9) (\<lambda>s10.
             bindr (iupdate ip (updi ip (\<lambda>r. r\<lparr>i_nlink := i_nlink r - 1\<rparr>) s10)) (\<lambda>s11.
             bindr (iunlockput (Some ip) s11) (end_with 0))))))))))))"

section \<open>Creation\<close>

definition create :: "u8 list \<Rightarrow> u16 \<Rightarrow> u16 \<Rightarrow> u16 \<Rightarrow> 'a flst_scheme \<Rightarrow> kerr + (nat option \<times> 'a flst_scheme)" where
  "create path ty maj mi s =
     bindr (nameiparent path s) (\<lambda>((dpo, name), s1). case dpo of None \<Rightarrow> Inr (None, s1) | Some dp \<Rightarrow>
     bindr (ilock (Some dp) s1) (\<lambda>s2.
     bindr (dirlookup dp name s2) (\<lambda>(found, s3).
     case found of
       Some (ip, off) \<Rightarrow>
         bindr (iunlockput (Some dp) s3) (\<lambda>s4.
         bindr (ilock (Some ip) s4) (\<lambda>s5.
         if ty = T_FILE \<and> (i_type (itable s5 ip) = T_FILE \<or> i_type (itable s5 ip) = T_DEVICE) then Inr (Some ip, s5)
         else bindr (iunlockput (Some ip) s5) (\<lambda>s6. Inr (None, s6))))
     | None \<Rightarrow>
         bindr (ialloc (i_dev (itable s3 dp)) ty s3) (\<lambda>(ipo, s4). case ipo of
           None \<Rightarrow> bindr (iunlockput (Some dp) s4) (\<lambda>s5. Inr (None, s5))
         | Some ip \<Rightarrow>
           bindr (ilock (Some ip) s4) (\<lambda>s5.
           bindr (iupdate ip (updi ip (\<lambda>r. r\<lparr>i_major := maj, i_minor := mi, i_nlink := 1\<rparr>) s5)) (\<lambda>s6.
           let fail = (\<lambda>t. bindr (iupdate ip (updi ip (\<lambda>r. r\<lparr>i_nlink := 0\<rparr>) t)) (\<lambda>t1.
                 bindr (iunlockput (Some ip) t1) (\<lambda>t2. bindr (iunlockput (Some dp) t2) (\<lambda>t3. Inr (None, t3)))))
           in bindr (if ty = T_DIR then
                  bindr (dirlink ip [46] (i_inum (itable s6 ip)) s6) (\<lambda>(r, s7).
                  if r < 0 then Inr (r, s7) else dirlink ip [46, 46] (i_inum (itable s7 dp)) s7)
                else Inr (0, s6)) (\<lambda>(r1, s8).
              if r1 < 0 then fail s8
              else bindr (dirlink dp name (i_inum (itable s8 ip)) s8) (\<lambda>(r2, s9).
                if r2 < 0 then fail s9
                else bindr (if ty = T_DIR then iupdate dp (updi dp (\<lambda>r. r\<lparr>i_nlink := i_nlink r + 1\<rparr>) s9) else Inr s9) (\<lambda>s10.
                  bindr (iunlockput (Some dp) s10) (\<lambda>s11. Inr (Some ip, s11)))))))))))"

definition O_RDONLY :: u32 where "O_RDONLY = 0"

definition O_WRONLY :: u32 where "O_WRONLY = 1"

definition O_RDWR :: u32 where "O_RDWR = 2"

definition O_CREATE :: u32 where "O_CREATE = 0x200"

definition O_TRUNC :: u32 where "O_TRUNC = 0x400"

text \<open>\<open>sys_open\<close> up to the locked inode; \<open>None\<close> if there is none, and the transaction is closed.\<close>

definition open_inode :: "u8 list \<Rightarrow> u32 \<Rightarrow> 'a flst_scheme \<Rightarrow> kerr + (nat option \<times> 'a flst_scheme)" where
  "open_inode path omode s =
     (if omode AND O_CREATE \<noteq> 0 then
        bindr (create path T_FILE 0 0 s) (\<lambda>(ipo, s1). case ipo of None \<Rightarrow> end_with None s1 | Some ip \<Rightarrow> Inr (Some ip, s1))
      else
        bindr (namei path s) (\<lambda>(ipo, s1). case ipo of None \<Rightarrow> end_with None s1 | Some ip \<Rightarrow>
        bindr (ilock (Some ip) s1) (\<lambda>s2.
        if i_type (itable s2 ip) = T_DIR \<and> omode \<noteq> O_RDONLY then bindr (iunlockput (Some ip) s2) (end_with None)
        else Inr (Some ip, s2))))"

text \<open>The descriptor of a file for the locked inode.\<close>

definition open_file :: "nat \<Rightarrow> u32 \<Rightarrow> 'a flst_scheme \<Rightarrow> kerr + (u64 \<times> 'a flst_scheme)" where
  "open_file ip omode s =
     (let fail = (\<lambda>t. bindr (iunlockput (Some ip) t) (end_with (-1))) in
      bindr (filealloc s) (\<lambda>(fo, s1). case fo of None \<Rightarrow> fail s1 | Some f \<Rightarrow>
      bindr (fdalloc f s1) (\<lambda>(fdo, s2). case fdo of None \<Rightarrow> bindr (fileclose f s2) fail | Some fd \<Rightarrow>
      let s3 = (if i_type (itable s2 ip) = T_DEVICE
                then updf f (\<lambda>r. r\<lparr>f_type := FD_DEVICE, f_major := i_major (itable s2 ip)\<rparr>) s2
                else updf f (\<lambda>r. r\<lparr>f_type := FD_INODE, f_off := 0\<rparr>) s2);
          s4 = updf f (\<lambda>r. r\<lparr>f_ip := Some ip, f_readable := (omode AND O_WRONLY = 0),
                 f_writable := (omode AND O_WRONLY \<noteq> 0 \<or> omode AND O_RDWR \<noteq> 0)\<rparr>) s3
      in bindr (if omode AND O_TRUNC \<noteq> 0 \<and> i_type (itable s4 ip) = T_FILE then itrunc ip s4 else Inr s4) (\<lambda>s5.
         bindr (iunlock (Some ip) s5) (end_with (of_nat fd))))))"

definition sys_open :: "'a flst_scheme \<Rightarrow> kerr + (u64 \<times> 'a flst_scheme)" where
  "sys_open s =
     bindr (argint 1 s) (\<lambda>om.
     let omode = (of_int om :: u32) in
     bindr (argpath 0 s) (\<lambda>(po, s1). case po of None \<Rightarrow> Inr (-1, s1) | Some path \<Rightarrow>
     bindr (begin_op s1) (\<lambda>s2.
     bindr (open_inode path omode s2) (\<lambda>(ipo, s3). case ipo of None \<Rightarrow> Inr (-1, s3) | Some ip \<Rightarrow>
     if i_type (itable s3 ip) = T_DEVICE \<and> (sint (i_major (itable s3 ip)) < 0 \<or> sint (i_major (itable s3 ip)) \<ge> NDEV)
     then bindr (iunlockput (Some ip) s3) (end_with (-1))
     else open_file ip omode s3))))"

definition sys_mkdir :: "'a flst_scheme \<Rightarrow> kerr + (u64 \<times> 'a flst_scheme)" where
  "sys_mkdir s =
     bindr (begin_op s) (\<lambda>s1.
     bindr (argpath 0 s1) (\<lambda>(po, s2). case po of None \<Rightarrow> end_with (-1) s2 | Some path \<Rightarrow>
     bindr (create path T_DIR 0 0 s2) (\<lambda>(ipo, s3). case ipo of None \<Rightarrow> end_with (-1) s3 | Some ip \<Rightarrow>
     bindr (iunlockput (Some ip) s3) (end_with 0))))"

definition sys_mknod :: "'a flst_scheme \<Rightarrow> kerr + (u64 \<times> 'a flst_scheme)" where
  "sys_mknod s =
     bindr (begin_op s) (\<lambda>s1.
     bindr (argint 1 s1) (\<lambda>maj.
     bindr (argint 2 s1) (\<lambda>mi.
     bindr (argpath 0 s1) (\<lambda>(po, s2). case po of None \<Rightarrow> end_with (-1) s2 | Some path \<Rightarrow>
     bindr (create path T_DEVICE (of_int maj) (of_int mi) s2) (\<lambda>(ipo, s3). case ipo of None \<Rightarrow> end_with (-1) s3 | Some ip \<Rightarrow>
     bindr (iunlockput (Some ip) s3) (end_with 0))))))"

definition sys_chdir :: "'a flst_scheme \<Rightarrow> kerr + (u64 \<times> 'a flst_scheme)" where
  "sys_chdir s =
     bindr (myproc s) (\<lambda>p.
     bindr (begin_op s) (\<lambda>s1.
     bindr (argpath 0 s1) (\<lambda>(po, s2). case po of None \<Rightarrow> end_with (-1) s2 | Some path \<Rightarrow>
     bindr (namei path s2) (\<lambda>(ipo, s3). case ipo of None \<Rightarrow> end_with (-1) s3 | Some ip \<Rightarrow>
     bindr (ilock (Some ip) s3) (\<lambda>s4.
     if i_type (itable s4 ip) \<noteq> T_DIR then bindr (iunlockput (Some ip) s4) (end_with (-1))
     else
       bindr (iunlock (Some ip) s4) (\<lambda>s5.
       case cwd (procs s5 p) of None \<Rightarrow> Inl Fault
       | Some d \<Rightarrow>
         bindr (iput d s5) (\<lambda>s6.
         bindr (end_op s6) (\<lambda>s7. Inr (0, updp p (\<lambda>r. r\<lparr>cwd := Some ip\<rparr>) s7)))))))))"

definition sys_pipe :: "'a flst_scheme \<Rightarrow> kerr + (u64 \<times> 'a flst_scheme)" where
  "sys_pipe s =
     bindr (myproc s) (\<lambda>p.
     bindr (argaddr 0 s) (\<lambda>fdarray.
     bindr (pipealloc s) (\<lambda>(files, s1). case files of None \<Rightarrow> Inr (-1, s1) | Some (rfl, wfl) \<Rightarrow>
     let close_both = (\<lambda>t. bindr (fileclose rfl t) (\<lambda>t1. bindr (fileclose wfl t1) (\<lambda>t2. Inr (-1, t2)))) in
     bindr (fdalloc rfl s1) (\<lambda>(fo0, s2). case fo0 of None \<Rightarrow> close_both s2 | Some fd0 \<Rightarrow>
     bindr (fdalloc wfl s2) (\<lambda>(fo1, s3). case fo1 of None \<Rightarrow> close_both (set_ofile p fd0 None s3) | Some fd1 \<Rightarrow>
     bindr (copyout (pagetable (procs s3 p)) fdarray (le_bytes 4 fd0) s3) (\<lambda>(r0, s4).
     bindr (if r0 < 0 then Inr (r0, s4) else copyout (pagetable (procs s4 p)) (fdarray + 4) (le_bytes 4 fd1) s4) (\<lambda>(r1, s5).
     if r1 < 0 then close_both (set_ofile p fd1 None (set_ofile p fd0 None s5)) else Inr (0, s5))))))))"

end
