(* ===== verification/Exec.thy ===== *)
theory Exec
  imports Sysfile
begin

text \<open>
  Programs (\<open>kernel/exec.c\<close>, and \<open>sys_exec\<close> of \<open>kernel/sysfile.c\<close>): loading the segments of an ELF file into a new page table,
  the stack with the arguments, and the switch to the new image. \<open>argv\<close> is the list of the pointers before the null
  pointer; the strings are in memory.
\<close>

unbundle bit_operations_syntax

definition get64 :: "u8 list \<Rightarrow> nat \<Rightarrow> u64" where
  "get64 d p = of_nat (get_le 8 d p)"

definition ELF_MAGIC :: u32 where "ELF_MAGIC = 0x464C457F"

definition ELF_PROG_LOAD :: u32 where "ELF_PROG_LOAD = 1"

definition MAXARG :: nat where "MAXARG = 32"

definition USERSTACK :: u64 where "USERSTACK = 1"

record elfhdr =
  e_magic :: u32
  e_entry :: u64
  e_phoff :: u64
  e_phnum :: u16

definition elfhdr_of :: "u8 list \<Rightarrow> elfhdr" where
  "elfhdr_of d = \<lparr>e_magic = get32 d 0, e_entry = get64 d 24, e_phoff = get64 d 32, e_phnum = get16 d 56\<rparr>"

record proghdr =
  ph_type :: u32
  ph_flags :: u32
  ph_off :: u64
  ph_vaddr :: u64
  ph_filesz :: u64
  ph_memsz :: u64

definition proghdr_of :: "u8 list \<Rightarrow> proghdr" where
  "proghdr_of d = \<lparr>ph_type = get32 d 0, ph_flags = get32 d 4, ph_off = get64 d 8, ph_vaddr = get64 d 16,
     ph_filesz = get64 d 32, ph_memsz = get64 d 40\<rparr>"

definition flags2perm :: "u32 \<Rightarrow> u64" where
  "flags2perm flags =
     (let perm = (if flags AND 1 \<noteq> 0 then PTE_X else 0) in if flags AND 2 \<noteq> 0 then perm OR PTE_W else perm)"

text \<open>Reading \<open>n\<close> bytes at \<open>off\<close> into a local variable; \<open>None\<close> if there are fewer.\<close>

definition read_local :: "nat \<Rightarrow> u32 \<Rightarrow> nat \<Rightarrow> 'a ist_scheme \<Rightarrow> kerr + (u8 list option \<times> 'a ist_scheme)" where
  "read_local ip off n s =
     bindr (readi ip (Local []) off (of_nat n) s) (\<lambda>((r, pl), s1).
     if r \<noteq> of_nat n then Inr (None, s1) else case pl of Local bs \<Rightarrow> Inr (Some bs, s1) | _ \<Rightarrow> Inl Fault)"

text \<open>\<open>loadseg\<close> with \<open>k\<close> pages to go.\<close>

primrec loadseg_loop :: "nat \<Rightarrow> nat \<Rightarrow> u64 \<Rightarrow> u64 \<Rightarrow> nat \<Rightarrow> u32 \<Rightarrow> nat \<Rightarrow> 'a ist_scheme \<Rightarrow> kerr + (int \<times> 'a ist_scheme)" where
  "loadseg_loop 0 i pt va ip offset usz s = Inr (0, s)"
| "loadseg_loop (Suc k) i pt va ip offset usz s =
     bindr (walkaddr pt (va + of_nat i) s) (\<lambda>(pa, s1).
     if pa = 0 then Inl (Panic ''loadseg: address should exist'')
     else
       let n = min (usz - i) 4096 in
       bindr (readi ip (KernAddr pa) (offset + of_nat i) (of_nat n) s1) (\<lambda>((r, pl), s2).
       if r \<noteq> of_nat n then Inr (-1, s2) else loadseg_loop k (i + 4096) pt va ip offset usz s2))"

definition loadseg :: "u64 \<Rightarrow> u64 \<Rightarrow> nat \<Rightarrow> u32 \<Rightarrow> u32 \<Rightarrow> 'a ist_scheme \<Rightarrow> kerr + (int \<times> 'a ist_scheme)" where
  "loadseg pt va ip offset usz s = loadseg_loop ((unat usz + 4095) div 4096) 0 pt va ip offset (unat usz) s"

text \<open>The loop over the program headers. The result has the size that the new image has reached, and \<open>False\<close> for \<open>goto bad\<close>.\<close>

primrec load_program :: "nat \<Rightarrow> u32 \<Rightarrow> u64 \<Rightarrow> nat \<Rightarrow> u64 \<Rightarrow> 'a ist_scheme \<Rightarrow> kerr + ((bool \<times> u64) \<times> 'a ist_scheme)" where
  "load_program 0 off pt ip usz s = Inr ((True, usz), s)"
| "load_program (Suc k) off pt ip usz s =
     bindr (read_local ip off 56 s) (\<lambda>(bo, s1). case bo of None \<Rightarrow> Inr ((False, usz), s1) | Some bs \<Rightarrow>
     let ph = proghdr_of bs in
     if ph_type ph \<noteq> ELF_PROG_LOAD then load_program k (off + 56) pt ip usz s1
     else if ph_memsz ph < ph_filesz ph then Inr ((False, usz), s1)
     else if ph_vaddr ph + ph_memsz ph < ph_vaddr ph then Inr ((False, usz), s1)
     else if ph_vaddr ph mod PGSIZE \<noteq> 0 then Inr ((False, usz), s1)
     else bindr (uvmalloc pt usz (ph_vaddr ph + ph_memsz ph) (flags2perm (ph_flags ph)) s1) (\<lambda>(size1, s2).
       if size1 = 0 then Inr ((False, usz), s2)
       else bindr (loadseg pt (ph_vaddr ph) ip (ucast (ph_off ph)) (ucast (ph_filesz ph)) s2) (\<lambda>(r, s3).
         if r < 0 then Inr ((False, size1), s3) else load_program k (off + 56) pt ip size1 s3)))"

text \<open>The argument strings on the new stack: \<open>Some\<close> of the stack pointer and the pointers to the strings. The pointers of
  \<open>argv\<close> end in a null pointer, so \<open>argc\<close> is at most their number.\<close>

primrec push_args :: "u64 list \<Rightarrow> nat \<Rightarrow> u64 \<Rightarrow> u64 \<Rightarrow> u64 \<Rightarrow> u64 list \<Rightarrow> 'a pst_scheme \<Rightarrow> kerr + ((u64 \<times> u64 list) option \<times> 'a pst_scheme)" where
  "push_args [] argc pt sp0 base us s = Inr (Some (sp0, us), s)"
| "push_args (a # as) argc pt sp0 base us s =
     (if argc \<ge> MAXARG then Inr (None, s)
      else case strlen a (pmem s) of None \<Rightarrow> Inl Diverge
      | Some n \<Rightarrow>
        let sp1 = sp0 - of_nat (n + 1); sp2 = sp1 - sp1 mod 16 in
        if sp2 < base then Inr (None, s)
        else bindr (copyout pt sp2 (peek (pmem s) a (n + 1)) s) (\<lambda>(r, s1).
          if r < 0 then Inr (None, s1) else push_args as (argc + 1) pt sp2 base (us @ [sp2]) s1))"

definition ptr_bytes :: "u64 list \<Rightarrow> u8 list" where
  "ptr_bytes ws = concat (map (\<lambda>w. le_bytes 8 (unat w)) ws)"

text \<open>The last element of a path, and \<open>safestrcpy\<close> to the array of a process name.\<close>

primrec last_elem :: "u8 list \<Rightarrow> u8 list \<Rightarrow> u8 list" where
  "last_elem [] lst_e = lst_e"
| "last_elem (c # cs) lst_e = last_elem cs (if c = 47 then cs else lst_e)"

definition name_copy :: "u8 list \<Rightarrow> u8 list \<Rightarrow> u8 list" where
  "name_copy old src = overlay old 0 (take 15 (src @ [0]) @ [0])"

text \<open>The stack and the switch to the new image; \<open>None\<close> for \<open>goto bad\<close>, with the size to free.\<close>

definition exec_stack :: "u64 \<Rightarrow> u64 \<Rightarrow> u64 list \<Rightarrow> 'a pst_scheme \<Rightarrow> kerr + (((u64 \<times> nat) option \<times> u64) \<times> 'a pst_scheme)" where
  "exec_stack pt usz argv s =
     (let size0 = PGROUNDUP usz in
      bindr (uvmalloc pt size0 (size0 + (USERSTACK + 1) * PGSIZE) PTE_W s) (\<lambda>(size1, s1).
      if size1 = 0 then Inr ((None, size0), s1)
      else
        bindr (uvmclear pt (size1 - (USERSTACK + 1) * PGSIZE) s1) (\<lambda>s2.
        let base = size1 - USERSTACK * PGSIZE in
        bindr (push_args argv 0 pt size1 base [] s2) (\<lambda>(po, s3). case po of None \<Rightarrow> Inr ((None, size1), s3) | Some (sp0, us) \<Rightarrow>
        let sp1 = sp0 - of_nat ((length us + 1) * 8); sp2 = sp1 - sp1 mod 16 in
        if sp2 < base then Inr ((None, size1), s3)
        else bindr (copyout pt sp2 (ptr_bytes (us @ [0])) s3) (\<lambda>(r, s4).
          if r < 0 then Inr ((None, size1), s4) else Inr ((Some (sp2, length us), size1), s4))))))"

definition exec_commit :: "nat \<Rightarrow> u8 list \<Rightarrow> u64 \<Rightarrow> u64 \<Rightarrow> u64 \<Rightarrow> u64 \<Rightarrow> 'a pst_scheme \<Rightarrow> kerr + 'a pst_scheme" where
  "exec_commit p path pt usz entry sp0 s =
     (let oldsz = sz (procs s p); oldpt = pagetable (procs s p);
          s1 = tf_set p tf_a1 sp0 s;
          s2 = updp p (\<lambda>r. r\<lparr>pname := name_copy (pname r) (last_elem path path), pagetable := pt, sz := usz\<rparr>) s1;
          s3 = tf_set p tf_sp sp0 (tf_set p tf_epc entry s2)
      in proc_freepagetable oldpt oldsz s3)"

definition exec :: "u8 list \<Rightarrow> u64 list \<Rightarrow> 'a flst_scheme \<Rightarrow> kerr + (int \<times> 'a flst_scheme)" where
  "exec path argv s =
     bindr (myproc s) (\<lambda>p.
     bindr (begin_op s) (\<lambda>s1.
     bindr (namei path s1) (\<lambda>(ipo, s2). case ipo of None \<Rightarrow> end_with (-1) s2 | Some ip \<Rightarrow>
     bindr (ilock (Some ip) s2) (\<lambda>s3.
     let bad = (\<lambda>t. bindr (iunlockput (Some ip) t) (end_with (-1))) in
     bindr (read_local ip 0 64 s3) (\<lambda>(ho, s4). case ho of None \<Rightarrow> bad s4 | Some hb \<Rightarrow>
     let elf = elfhdr_of hb in
     if e_magic elf \<noteq> ELF_MAGIC then bad s4
     else bindr (proc_pagetable p s4) (\<lambda>(pt, s5).
       if pt = 0 then bad s5
       else bindr (load_program (unat (e_phnum elf)) (ucast (e_phoff elf)) pt ip 0 s5) (\<lambda>((ok, usz), s6).
         if \<not> ok then bindr (proc_freepagetable pt usz s6) bad
         else
           bindr (iunlockput (Some ip) s6) (\<lambda>s7.
           bindr (end_op s7) (\<lambda>s8.
           bindr (exec_stack pt usz argv s8) (\<lambda>((ro, size1), s9).
           case ro of None \<Rightarrow> bindr (proc_freepagetable pt size1 s9) (\<lambda>s10. Inr (-1, s10))
           | Some (sp0, argc) \<Rightarrow>
             bindr (exec_commit p path pt size1 (e_entry elf) sp0 s9) (\<lambda>s10. Inr (int argc, s10))))))))))))"

section \<open>The system call\<close>

text \<open>The strings are copied to pages of their own. \<open>False\<close> is \<open>goto bad\<close>; the pages obtained so far come with it.\<close>

primrec exec_args :: "nat \<Rightarrow> nat \<Rightarrow> u64 \<Rightarrow> u64 list \<Rightarrow> 'a pst_scheme \<Rightarrow> kerr + ((bool \<times> u64 list) \<times> 'a pst_scheme)" where
  "exec_args 0 i uargv argv s = Inr ((False, argv), s)"
| "exec_args (Suc k) i uargv argv s =
     bindr (fetchaddr (uargv + 8 * of_nat i) s) (\<lambda>((r, uarg), s1).
     if r < 0 then Inr ((False, argv), s1)
     else if uarg = 0 then Inr ((True, argv), s1)
     else bindr (kalloc s1) (\<lambda>(page, s2).
       if page = 0 then Inr ((False, argv), s2)
       else bindr (fetchstr uarg 4096 s2) (\<lambda>((n, bs), s3).
         let s4 = s3\<lparr>pmem := poke page bs (pmem s3)\<rparr> in
         if n < 0 then Inr ((False, argv @ [page]), s4)
         else exec_args k (i + 1) uargv (argv @ [page]) s4)))"

primrec free_args :: "u64 list \<Rightarrow> 'a pst_scheme \<Rightarrow> kerr + 'a pst_scheme" where
  "free_args [] s = Inr s"
| "free_args (a # as) s = bindr (kfree a s) (free_args as)"

definition sys_exec :: "'a flst_scheme \<Rightarrow> kerr + (u64 \<times> 'a flst_scheme)" where
  "sys_exec s =
     bindr (argaddr 1 s) (\<lambda>uargv.
     bindr (argpath 0 s) (\<lambda>(po, s1). case po of None \<Rightarrow> Inr (-1, s1) | Some path \<Rightarrow>
     bindr (exec_args MAXARG 0 uargv [] s1) (\<lambda>((ok, argv), s2).
     if \<not> ok then bindr (free_args argv s2) (\<lambda>s3. Inr (-1, s3))
     else bindr (exec path argv s2) (\<lambda>(r, s3). bindr (free_args argv s3) (\<lambda>s4. Inr (of_int r, s4))))))"

end
