(* ===== verification/Datetime.thy ===== *)
theory Datetime
  imports Xv6_Prelude
begin

text \<open>
  The clock (\<open>kernel/datetime.c\<close>). The timer register and the number of seconds at which the kernel was built
  (\<open>BOOT_EPOCH\<close>, set by the Makefile) are arguments.
\<close>

record rtcdate =
  year :: int
  month :: int
  day :: int
  hour :: int
  minute :: int
  second :: int

definition EGYPT_TZ_OFFSET :: u64 where "EGYPT_TZ_OFFSET = 2 * 3600"

definition TIMER_FREQ :: u64 where "TIMER_FREQ = 10000000"

definition is_leap :: "int \<Rightarrow> bool" where
  "is_leap y \<longleftrightarrow> y mod 4 = 0 \<and> (y mod 100 \<noteq> 0 \<or> y mod 400 = 0)"

function year_loop :: "int \<Rightarrow> int \<Rightarrow> int \<times> int" where
  "year_loop y days =
     (let days_in_year = (if is_leap y then 366 else 365) in
      if days < days_in_year then (y, days) else year_loop (y + 1) (days - days_in_year))"
  by pat_completeness auto
termination
  by (relation "measure (\<lambda>(y, days). nat days)") (auto split: if_splits)

declare year_loop.simps [simp del]

definition days_in_month :: "bool \<Rightarrow> int list" where
  "days_in_month leap = [0, 31, if leap then 29 else 28, 31, 30, 31, 30, 31, 31, 30, 31, 30, 31]"

text \<open>The array has 13 elements.\<close>

function month_loop :: "bool \<Rightarrow> nat \<Rightarrow> int \<Rightarrow> kerr + (nat \<times> int)" where
  "month_loop leap m days =
     (if m > 12 then Inl Fault
      else if days \<ge> days_in_month leap ! m then month_loop leap (m + 1) (days - days_in_month leap ! m)
      else Inr (m, days))"
  by pat_completeness auto
termination
  by (relation "measure (\<lambda>(leap, m, days). 13 - m)") auto

declare month_loop.simps [simp del]

definition get_datetime :: "u64 \<Rightarrow> u64 \<Rightarrow> kerr + rtcdate" where
  "get_datetime mtime boot_epoch =
     (let secs = mtime div TIMER_FREQ + boot_epoch + EGYPT_TZ_OFFSET;
          s = secs mod 60; secs1 = secs div 60;
          mi = secs1 mod 60; secs2 = secs1 div 60;
          h = secs2 mod 24; days = sint (ucast (secs2 div 24) :: u32);
          (y, days1) = year_loop 1970 days
      in bindr (month_loop (is_leap y) 1 days1) (\<lambda>(m, days2).
         Inr \<lparr>year = y, month = int m, day = days2 + 1, hour = uint h, minute = uint mi, second = uint s\<rparr>))"

section \<open>The Gregorian calendar\<close>

text \<open>The calendar is stated without reference to the tables and tests of the code: which years are leap years, how long
  the months are, how many leap years there are up to a year, and the day number of a date counted from 1 January 1970.\<close>

definition leap_year :: "int \<Rightarrow> bool" where
  "leap_year y \<longleftrightarrow> 4 dvd y \<and> \<not> 100 dvd y \<or> 400 dvd y"

definition month_days :: "int \<Rightarrow> int \<Rightarrow> int" where
  "month_days y m = (if m = 2 then if leap_year y then 29 else 28 else if m \<in> {4, 6, 9, 11} then 30 else 31)"

definition leaps :: "int \<Rightarrow> int" where
  "leaps y = y div 4 - y div 100 + y div 400"

definition year_start :: "int \<Rightarrow> int" where
  "year_start y = 365 * (y - 1970) + leaps (y - 1) - leaps 1969"

definition month_start :: "int \<Rightarrow> int \<Rightarrow> int" where
  "month_start y m = (\<Sum>k \<leftarrow> [1..m - 1]. month_days y k)"

definition day_number :: "rtcdate \<Rightarrow> int" where
  "day_number d = year_start (year d) + month_start (year d) (month d) + day d - 1"

definition valid_date :: "rtcdate \<Rightarrow> bool" where
  "valid_date d \<longleftrightarrow> 1970 \<le> year d \<and> 1 \<le> month d \<and> month d \<le> 12 \<and> 1 \<le> day d \<and> day d \<le> month_days (year d) (month d) \<and>
     0 \<le> hour d \<and> hour d < 24 \<and> 0 \<le> minute d \<and> minute d < 60 \<and> 0 \<le> second d \<and> second d < 60"

definition seconds_of :: "rtcdate \<Rightarrow> int" where
  "seconds_of d = ((day_number d * 24 + hour d) * 60 + minute d) * 60 + second d"

text \<open>The code's test and its table agree with the calendar.\<close>

lemma is_leap_year: "is_leap y = leap_year y"
  proof -
  have "100 dvd y \<Longrightarrow> 4 dvd y" "400 dvd y \<Longrightarrow> 100 dvd y" by presburger+
  then show ?thesis unfolding is_leap_def leap_year_def dvd_eq_mod_eq_0 by metis
qed

lemma days_in_month_days:
  assumes "1 \<le> m" "m \<le> 12"
  shows "days_in_month (is_leap y) ! m = month_days y (int m)"
proof -
  have "map (\<lambda>k. month_days y (int k)) [1..<13] = tl (days_in_month (is_leap y))"
    by (simp add: upt_conv_Cons days_in_month_def month_days_def is_leap_year)
  then have "tl (days_in_month (is_leap y)) ! (m - 1) = map (\<lambda>k. month_days y (int k)) [1..<13] ! (m - 1)" by simp
  then show ?thesis using assms by (simp add: nth_tl days_in_month_def)
qed

lemma month_start_step: "1 \<le> m \<Longrightarrow> month_start y (m + 1) = month_start y m + month_days y m"
  using upto_rec2 [of 1 m] by (simp add: month_start_def)

lemma leap_rule:
  "(c \<Longrightarrow> b) \<Longrightarrow> (b \<Longrightarrow> a) \<Longrightarrow>
   (if a then 1 else 0) - (if b then 1 else 0) + (if c then 1 else 0) = (if a \<and> (\<not> b \<or> c) then 1 else (0 :: int))"
  by (cases a; cases b; cases c) auto

lemma leaps_step: "leaps y - leaps (y - 1) = (if is_leap y then 1 else 0)"
proof -
  have d: "y div n - (y - 1) div n = (if y mod n = 0 then 1 else 0)" if "0 < n" for n :: int
  proof -
    have y: "y = n * (y div n) + y mod n" by simp
    show ?thesis
    proof (cases "y mod n = 0")
      case True
      then have "(y - 1) div n = (n * (y div n - 1) + (n - 1)) div n" using y by (simp add: algebra_simps)
      also have "\<dots> = y div n - 1" using that by simp
      finally show ?thesis using True by simp
    next
      case False
      then have r: "0 \<le> y mod n - 1" "y mod n - 1 < n" using that pos_mod_sign [of n y] pos_mod_bound [of n y] by linarith+
      have "(y - 1) div n = (n * (y div n) + (y mod n - 1)) div n" using y by (simp add: algebra_simps)
      also have "\<dots> = y div n" using r that by simp
      finally show ?thesis using False by simp
    qed
  qed
  have "y mod 400 = 0 \<Longrightarrow> y mod 100 = 0" "y mod 100 = 0 \<Longrightarrow> y mod 4 = 0" by presburger+
  note r = leap_rule [OF this]
  have "leaps y - leaps (y - 1) = (y div 4 - (y - 1) div 4) - (y div 100 - (y - 1) div 100) + (y div 400 - (y - 1) div 400)"
    by (simp add: leaps_def)
  also have "\<dots> = (if y mod 4 = 0 then 1 else 0) - (if y mod 100 = 0 then 1 else 0) + (if y mod 400 = 0 then 1 else 0)"
    using d [of 4] d [of 100] d [of 400] by (simp only: zero_less_numeral simp_thms)
  also note r
  finally show ?thesis unfolding is_leap_def .
qed

lemma year_start_step: "year_start (y + 1) = year_start y + (if is_leap y then 366 else 365)"
  using leaps_step [of y] by (simp add: year_start_def split: if_splits)

lemma year_loop_ok:
  assumes "year_loop y days = (y', days')" "0 \<le> days"
  shows "y \<le> y' \<and> 0 \<le> days' \<and> days' < (if is_leap y' then 366 else 365) \<and> year_start y' + days' = year_start y + days"
  using assms
proof (induction y days rule: year_loop.induct)
  case (1 y days)
  show ?case
  proof (cases "days < (if is_leap y then 366 else 365)")
    case True
    then show ?thesis using 1(2,3) by (simp add: year_loop.simps [of y] Let_def)
  next
    case False
    then have "y + 1 \<le> y' \<and> 0 \<le> days' \<and> days' < (if is_leap y' then 366 else 365) \<and>
        year_start y' + days' = year_start (y + 1) + (days - (if is_leap y then 366 else 365))"
      using 1(2,3) by (intro 1(1)) (auto simp: year_loop.simps [of y] Let_def split: if_splits)
    then show ?thesis using year_start_step [of y] by auto
  qed
qed

lemma month_loop_ok:
  assumes "1 \<le> m" "m \<le> 12" "0 \<le> days" "days < sum_list (drop m (days_in_month leap))" "leap = is_leap y"
  shows "\<exists>m' days'. month_loop leap m days = Inr (m', days') \<and> 1 \<le> m' \<and> m' \<le> 12 \<and> 0 \<le> days' \<and> days' < days_in_month leap ! m' \<and>
    month_start y (int m') + days' = month_start y (int m) + days"
  using assms
proof (induction leap m days rule: month_loop.induct)
  case (1 leap m days)
  have l: "length (days_in_month leap) = 13" by (simp add: days_in_month_def)
  show ?case
  proof (cases "days \<ge> days_in_month leap ! m")
    case True
    have d: "drop m (days_in_month leap) = days_in_month leap ! m # drop (m + 1) (days_in_month leap)"
      using 1(3) l by (simp add: Cons_nth_drop_Suc)
    then have s: "days - days_in_month leap ! m < sum_list (drop (m + 1) (days_in_month leap))" using 1(5) by simp
    have "m + 1 \<le> 12" using s True 1(3) l by (cases "m = 12") auto
    then have "\<exists>m' days'. month_loop leap (m + 1) (days - days_in_month leap ! m) = Inr (m', days') \<and> 1 \<le> m' \<and> m' \<le> 12 \<and> 0 \<le> days' \<and>
        days' < days_in_month leap ! m' \<and> month_start y (int m') + days' = month_start y (int (m + 1)) + (days - days_in_month leap ! m)"
      using s True 1(3,6) by (intro 1(1)) auto
    moreover have "month_start y (int (m + 1)) = month_start y (int m) + days_in_month leap ! m"
      using month_start_step [of "int m" y] days_in_month_days [OF 1(2,3), of y] 1(2,6) by (simp add: add.commute)
    moreover have "month_loop leap m days = month_loop leap (m + 1) (days - days_in_month leap ! m)"
      using True 1(3) by (simp add: month_loop.simps [of leap m])
    ultimately show ?thesis by auto
  next
    case False
    then show ?thesis using 1(2-5) by (simp add: month_loop.simps [of leap m])
  qed
qed

lemma time_split: "((t div 60 div 60 div 24 * 24 + t div 60 div 60 mod 24) * 60 + t div 60 mod 60) * 60 + t mod 60 = (t :: int)"
  by (simp only: div_mult_mod_eq)

text \<open>C19. The date is right: as long as the day number fits an \<open>int\<close>, \<open>get_datetime\<close> returns a date of the
  Gregorian calendar with the time of day in range, and it is the one whose second, counted from 1970, is the
  clock's second plus two hours.\<close>

theorem get_datetime_correct:
  assumes "uint (mtime div TIMER_FREQ) + uint boot_epoch + 7200 < 86400 * 2 ^ 31"
  shows "\<exists>d. get_datetime mtime boot_epoch = Inr d \<and> valid_date d \<and> seconds_of d = uint (mtime div TIMER_FREQ) + uint boot_epoch + 7200"
proof -
  let ?T = "uint (mtime div TIMER_FREQ) + uint boot_epoch + 7200"
  let ?w = "mtime div TIMER_FREQ + boot_epoch + EGYPT_TZ_OFFSET"
  have nn: "0 \<le> uint (mtime div TIMER_FREQ)" "0 \<le> uint boot_epoch" by simp_all
  have w: "uint ?w = ?T" using assms nn by (simp add: uint_word_ariths EGYPT_TZ_OFFSET_def)
  let ?days = "?T div 60 div 60 div 24"
  have q: "?days = ?T div 86400" using nn by (simp add: zdiv_zmult2_eq [symmetric])
  have days: "0 \<le> ?days" "?days < 2 ^ 31"
    unfolding q using assms nn div_mult_mod_eq [of ?T 86400] pos_mod_sign [of 86400 ?T] by (simp_all add: pos_imp_zdiv_nonneg_iff)
  have "uint (?w div 60 div 60 div 24) = ?days" by (simp add: uint_div_distrib w)
  then have sd: "sint (ucast (?w div 60 div 60 div 24) :: u32) = ?days"
    using days by (simp add: signed_ucast_eq signed_take_bit_int_eq_self)
  obtain y d1 where y: "year_loop 1970 ?days = (y, d1)" by fastforce
  note yl = year_loop_ok [OF y days(1)]
  have "d1 < sum_list (drop 1 (days_in_month (is_leap y)))" using yl by (auto simp: days_in_month_def split: if_splits)
  then obtain m d2 where m: "month_loop (is_leap y) 1 d1 = Inr (m, d2)" "1 \<le> m" "m \<le> 12" "0 \<le> d2" "d2 < days_in_month (is_leap y) ! m"
    "month_start y (int m) + d2 = month_start y 1 + d1"
    using month_loop_ok [of 1 d1 "is_leap y" y] yl by auto
  let ?d = "\<lparr>year = y, month = int m, day = d2 + 1, hour = uint (?w div 60 div 60 mod 24), minute = uint (?w div 60 mod 60), second = uint (?w mod 60)\<rparr>"
  have r: "get_datetime mtime boot_epoch = Inr ?d" using sd y m(1) by (simp add: get_datetime_def Let_def)
  have u: "uint (?w div 60 div 60 mod 24) = ?T div 60 div 60 mod 24" "uint (?w div 60 mod 60) = ?T div 60 mod 60" "uint (?w mod 60) = ?T mod 60"
    by (simp_all add: uint_div_distrib uint_mod_distrib w)
  have v: "valid_date ?d" using yl m(2-5) by (simp add: valid_date_def u days_in_month_days)
  have "year_start 1970 = 0" "month_start y 1 = 0" by (simp_all add: year_start_def month_start_def)
  then have dn: "day_number ?d = ?days" using yl m(6) by (simp add: day_number_def)
  have "seconds_of ?d = ((?days * 24 + ?T div 60 div 60 mod 24) * 60 + ?T div 60 mod 60) * 60 + ?T mod 60"
    unfolding seconds_of_def dn by (simp only: rtcdate.select_convs u)
  then have "seconds_of ?d = ?T" unfolding time_split .
  then show ?thesis using r v by blast
qed

text \<open>The clock of a kernel built on 29 February 2024 at 22:00:01 UTC, ten seconds after boot.\<close>

theorem get_datetime_correct_witness:
  "uint (100000000 div TIMER_FREQ) + uint (1709244001 :: u64) + 7200 < 86400 * 2 ^ 31 \<and>
   (\<exists>d. get_datetime 100000000 1709244001 = Inr d \<and> valid_date d \<and> seconds_of d = 1709251211)"
proof -
  have u: "uint (100000000 div TIMER_FREQ) = 10" by (simp add: TIMER_FREQ_def uint_div_distrib)
  then show ?thesis using get_datetime_correct [of 100000000 1709244001] by simp
qed

end
