(* ===== verification/Lifecycle.thy ===== *)
theory Lifecycle
  imports Exec Datetime
begin

text \<open>
  The life of a process: \<open>userinit\<close>, \<open>fork\<close> and \<open>exit\<close> of \<open>kernel/proc.c\<close>, the system calls of \<open>kernel/sysproc.c\<close> and
  \<open>kernel/sysutil.c\<close>, and the dispatch of \<open>kernel/syscall.c\<close>. The state adds the counters of these files, the static
  variable of \<open>forkret\<close>, and the registers that the calls read or write; \<open>exit\<close> ends in the state in which it has given
  the hart to the scheduler.
\<close>

unbundle bit_operations_syntax

record xst = flst +
  syscallCount :: u64
  rand_seed :: u64
  fs_first :: bool
  test_device :: u32
  mtime :: u64
  boot_epoch :: u64

section \<open>Processes\<close>

definition initcode :: "u8 list" where
  "initcode = [0x17, 0x05, 0x00, 0x00, 0x13, 0x05, 0x45, 0x02, 0x97, 0x05, 0x00, 0x00, 0x93, 0x85, 0x35, 0x02,
     0x93, 0x08, 0x70, 0x00, 0x73, 0x00, 0x00, 0x00, 0x93, 0x08, 0x20, 0x00, 0x73, 0x00, 0x00, 0x00,
     0xef, 0xf0, 0x9f, 0xff, 0x2f, 0x69, 0x6e, 0x69, 0x74, 0x00, 0x00, 0x24, 0x00, 0x00, 0x00, 0x00,
     0x00, 0x00, 0x00, 0x00]"

definition string_bytes :: "string \<Rightarrow> u8 list" where
  "string_bytes cs = map (\<lambda>c. of_nat (of_char c)) cs"

definition userinit :: "'a flst_scheme \<Rightarrow> kerr + 'a flst_scheme" where
  "userinit s =
     bindr (allocproc s) (\<lambda>(po, s1).
     let s2 = s1\<lparr>initproc := po\<rparr> in
     case po of None \<Rightarrow> Inl Fault
     | Some p \<Rightarrow>
       bindr (uvmfirst (pagetable (procs s2 p)) initcode s2) (\<lambda>s3.
       let s4 = tf_set p tf_sp PGSIZE (tf_set p tf_epc 0 (updp p (\<lambda>r. r\<lparr>sz := PGSIZE\<rparr>) s3));
           s5 = updp p (\<lambda>r. r\<lparr>pname := name_copy (pname r) (string_bytes ''initcode'')\<rparr>) s4
       in bindr (namei [47] s5) (\<lambda>(ip, s6).
          let (t0, s7) = r_time (updp p (\<lambda>r. r\<lparr>cwd := ip, pstate := RUNNABLE, wait_time_ticks := ucast (ticks s6)\<rparr>) s6);
              (t1, s8) = r_time s7
          in release_lk (ProcLock p) (updp p (\<lambda>r. r\<lparr>start_time := t0, wait_time := t1\<rparr>) s8))))"

text \<open>The loop of \<open>fork\<close> over the descriptors.\<close>

primrec dup_files :: "nat \<Rightarrow> nat \<Rightarrow> nat \<Rightarrow> nat \<Rightarrow> 'a flst_scheme \<Rightarrow> kerr + 'a flst_scheme" where
  "dup_files 0 i p np s = Inr s"
| "dup_files (Suc k) i p np s =
     (case ofile (procs s p) ! i of None \<Rightarrow> dup_files k (i + 1) p np s
      | Some f \<Rightarrow> bindr (filedup f s) (\<lambda>(g, s1). dup_files k (i + 1) p np (set_ofile np i (Some g) s1)))"

definition fork :: "'a flst_scheme \<Rightarrow> kerr + (int \<times> 'a flst_scheme)" where
  "fork s =
     bindr (myproc s) (\<lambda>p.
     bindr (allocproc s) (\<lambda>(po, s1). case po of None \<Rightarrow> Inr (-1, s1) | Some np \<Rightarrow>
     bindr (uvmcopy (pagetable (procs s1 p)) (pagetable (procs s1 np)) (sz (procs s1 p)) s1) (\<lambda>(r, s2).
     if r < 0 then bindr (freeproc np s2) (\<lambda>s3. bindr (release_lk (ProcLock np) s3) (\<lambda>s4. Inr (-1, s4)))
     else
       let s3 = updp np (\<lambda>q. q\<lparr>sz := sz (procs s2 p)\<rparr>) s2;
           s4 = s3\<lparr>pmem := poke (trapframe (procs s3 np)) (peek (pmem s3) (trapframe (procs s3 p)) 288) (pmem s3)\<rparr>;
           s5 = tf_set np tf_a0 0 s4
       in bindr (dup_files NOFILE 0 p np s5) (\<lambda>s6.
          case cwd (procs s6 p) of None \<Rightarrow> Inl Fault
          | Some d \<Rightarrow>
            bindr (idup d s6) (\<lambda>(ip, s7).
            let s8 = updp np (\<lambda>q. q\<lparr>cwd := Some ip, pname := name_copy (pname q) (takeWhile (\<lambda>b. b \<noteq> 0) (pname (procs s7 p)))\<rparr>) s7;
                n = pid (procs s8 np)
            in bindr (release_lk (ProcLock np) s8) (\<lambda>s9.
               bindr (acquire_lk WaitLock s9) (\<lambda>s10.
               bindr (release_lk WaitLock (updp np (\<lambda>q. q\<lparr>parent := Some p\<rparr>) s10)) (\<lambda>s11.
               bindr (acquire_lk (ProcLock np) s11) (\<lambda>s12.
               let (now, s13) = r_time (updp np (\<lambda>q. q\<lparr>pstate := RUNNABLE\<rparr>) s12);
                   s14 = updp np (\<lambda>q. q\<lparr>start_time := now, wait_time := now\<rparr>) s13
               in bindr (printf (CHR 0x0A # ''FORK: PID %d FORKED AT %lu'' @ [CHR 0x0A])
                    [AInt (pid (procs s14 np)), ALong (start_time (procs s14 np))] s14) (\<lambda>s15.
                  bindr (release_lk (ProcLock np) s15) (\<lambda>s16. Inr (sint n, s16))))))))))))"

primrec close_files :: "nat \<Rightarrow> nat \<Rightarrow> nat \<Rightarrow> 'a flst_scheme \<Rightarrow> kerr + 'a flst_scheme" where
  "close_files 0 fd p s = Inr s"
| "close_files (Suc k) fd p s =
     (case ofile (procs s p) ! fd of None \<Rightarrow> close_files k (fd + 1) p s
      | Some f \<Rightarrow> bindr (fileclose f s) (\<lambda>s1. close_files k (fd + 1) p (set_ofile p fd None s1)))"

text \<open>The parent of a process that may exit is not null: only the first process has none.\<close>

definition exit :: "int \<Rightarrow> 'a flst_scheme \<Rightarrow> kerr + 'a flst_scheme" where
  "exit status s =
     bindr (myproc s) (\<lambda>p.
     if initproc s = Some p then Inl (Panic ''init exiting'')
     else
       bindr (if start_time (procs s p) \<noteq> 0 then
           let (now, s1) = r_time s;
               s2 = updp p (\<lambda>r. r\<lparr>end_time := now, turnaround_time := now - start_time r\<rparr>) s1
           in printf (CHR 0x0A # ''EXIT: PID %d BECAME ZOMBIE AT %lu'' @ [CHR 0x0A])
                [AInt (pid (procs s2 p)), ALong (end_time (procs s2 p))] s2
         else Inr s) (\<lambda>s3.
       bindr (close_files NOFILE 0 p s3) (\<lambda>s4.
       bindr (put_inode (cwd (procs s4 p)) s4) (\<lambda>s5.
       bindr (acquire_lk WaitLock (updp p (\<lambda>r. r\<lparr>cwd := None\<rparr>) s5)) (\<lambda>s6.
       bindr (reparent p s6) (\<lambda>s7.
       bindr (case parent (procs s7 p) of None \<Rightarrow> Inr s7 | Some q \<Rightarrow> wakeup (ChanProc q) s7) (\<lambda>s8.
       bindr (acquire_lk (ProcLock p) s8) (\<lambda>s9.
       bindr (release_lk WaitLock (updp p (\<lambda>r. r\<lparr>xstate := status, pstate := ZOMBIE\<rparr>) s9)) sched))))))))"

section \<open>System calls\<close>

text \<open>\<open>None\<close>: the call does not return.\<close>

definition sys_exit :: "'a flst_scheme \<Rightarrow> kerr + (u64 option \<times> 'a flst_scheme)" where
  "sys_exit s = bindr (argint 0 s) (\<lambda>n. bindr (exit n s) (\<lambda>s1. Inr (None, s1)))"

definition sys_getpid :: "'a pst_scheme \<Rightarrow> kerr + (u64 \<times> 'a pst_scheme)" where
  "sys_getpid s = bindr (myproc s) (\<lambda>p. Inr (scast (pid (procs s p)), s))"

definition sys_fork :: "'a flst_scheme \<Rightarrow> kerr + (u64 \<times> 'a flst_scheme)" where
  "sys_fork s = bindr (fork s) (\<lambda>(r, s1). Inr (of_int r, s1))"

definition sys_wait :: "'a pst_scheme \<Rightarrow> kerr + (u64 \<times> 'a pst_scheme)" where
  "sys_wait s = bindr (argaddr 0 s) (\<lambda>p. bindr (or_block (wait p s)) (\<lambda>(r, s1). Inr (of_int r, s1)))"

definition sys_sbrk :: "'a pst_scheme \<Rightarrow> kerr + (u64 \<times> 'a pst_scheme)" where
  "sys_sbrk s =
     bindr (argint 0 s) (\<lambda>n.
     bindr (myproc s) (\<lambda>p.
     let addr = sz (procs s p) in
     bindr (growproc n s) (\<lambda>(r, s1). Inr (if r < 0 then -1 else addr, s1))))"

text \<open>\<open>sys_sleep\<close> with \<open>tickslock\<close> held, from the test of its loop.\<close>

definition sys_sleep_locked :: "u32 \<Rightarrow> u32 \<Rightarrow> 'a pst_scheme \<Rightarrow> kerr + (u64 outcome \<times> 'a pst_scheme)" where
  "sys_sleep_locked ticks0 n s =
     (if ticks s - ticks0 < n then
        bindr (myproc s) (\<lambda>p.
        bindr (killed p s) (\<lambda>(kl, s1).
        if kl \<noteq> 0 then bindr (release_lk TicksLock s1) (\<lambda>s2. Inr (Done (-1), s2))
        else bindr (sleep_enter ChanTicks TicksLock s1) (\<lambda>s2. Inr (Sleeps ChanTicks, s2))))
      else bindr (release_lk TicksLock s) (\<lambda>s1. Inr (Done 0, s1)))"

definition sys_sleep :: "'a pst_scheme \<Rightarrow> kerr + (u64 outcome \<times> 'a pst_scheme)" where
  "sys_sleep s =
     bindr (argint 0 s) (\<lambda>n.
     bindr (acquire_lk TicksLock s) (\<lambda>s1.
     sys_sleep_locked (ticks s1) (of_int (max n 0)) s1))"

definition sys_sleep_resume :: "u32 \<Rightarrow> u32 \<Rightarrow> 'a pst_scheme \<Rightarrow> kerr + (u64 outcome \<times> 'a pst_scheme)" where
  "sys_sleep_resume ticks0 n s = bindr (sleep_exit TicksLock s) (sys_sleep_locked ticks0 n)"

definition sys_kill :: "'a pst_scheme \<Rightarrow> kerr + (u64 \<times> 'a pst_scheme)" where
  "sys_kill s = bindr (argint 0 s) (\<lambda>n. bindr (kill (of_int n) s) (\<lambda>(r, s1). Inr (of_int r, s1)))"

definition sys_uptime :: "'a pst_scheme \<Rightarrow> kerr + (u64 \<times> 'a pst_scheme)" where
  "sys_uptime s =
     bindr (acquire_lk TicksLock s) (\<lambda>s1.
     let xticks = ticks s1 in
     bindr (release_lk TicksLock s1) (\<lambda>s2. Inr (ucast xticks, s2)))"

definition sys_shutdown :: "'a xst_scheme \<Rightarrow> kerr + (u64 \<times> 'a xst_scheme)" where
  "sys_shutdown s = Inr (0, s\<lparr>test_device := 0x5555\<rparr>)"

definition sys_countsyscall :: "'a xst_scheme \<Rightarrow> kerr + (u64 \<times> 'a xst_scheme)" where
  "sys_countsyscall s =
     bindr (acquire_lk SyscallLock s) (\<lambda>s1.
     let count = (ucast (syscallCount s1) :: u32) in
     bindr (release_lk SyscallLock s1) (\<lambda>s2. Inr (scast count, s2)))"

text \<open>The entry of a process for \<open>getptable\<close>; \<open>stk\<close> are the bytes that the stack frame had before, which fill the rest of the
  name and the padding before the size.\<close>

definition state_code :: "procstate \<Rightarrow> nat" where
  "state_code st = (case st of UNUSED \<Rightarrow> 0 | USED \<Rightarrow> 1 | SLEEPING \<Rightarrow> 2 | RUNNABLE \<Rightarrow> 3 | RUNNING \<Rightarrow> 4 | ZOMBIE \<Rightarrow> 5)"

definition pinfo_bytes :: "u8 list \<Rightarrow> nat \<Rightarrow> 'a pst_scheme \<Rightarrow> u8 list" where
  "pinfo_bytes stk i s =
     (let r = procs s i in
      le_bytes 4 (unat (pid r)) @ le_bytes 4 (unat (of_int (proc_parent_pid i s) :: u32)) @ le_bytes 4 (state_code (pstate r)) @
      name_copy (take 16 stk) (takeWhile (\<lambda>b. b \<noteq> 0) (pname r)) @ segment stk 16 4 @ le_bytes 8 (unat (sz r)))"

primrec getptable_loop :: "nat \<Rightarrow> nat \<Rightarrow> (nat \<Rightarrow> u8 list) \<Rightarrow> nat \<Rightarrow> u8 list \<Rightarrow> 'a pst_scheme \<Rightarrow> kerr + ((nat \<times> u8 list) \<times> 'a pst_scheme)" where
  "getptable_loop 0 i stk count acc s = Inr ((count, acc), s)"
| "getptable_loop (Suc k) i stk count acc s =
     bindr (acquire_lk (ProcLock i) s) (\<lambda>s1.
     if pstate (procs s1 i) = UNUSED then bindr (release_lk (ProcLock i) s1) (getptable_loop k (i + 1) stk count acc)
     else
       let e = pinfo_bytes (stk count) i s1 in
       bindr (release_lk (ProcLock i) s1) (getptable_loop k (i + 1) stk (count + 1) (acc @ e)))"

definition sys_getptable :: "(nat \<Rightarrow> u8 list) \<Rightarrow> 'a pst_scheme \<Rightarrow> kerr + (u64 \<times> 'a pst_scheme)" where
  "sys_getptable stk s =
     bindr (argaddr 0 s) (\<lambda>addr.
     bindr (getptable_loop NPROC 0 stk 0 [] s) (\<lambda>((count, bs), s1).
     bindr (myproc s1) (\<lambda>p.
     bindr (copyout (pagetable (procs s1 p)) addr bs s1) (\<lambda>(r, s2). Inr (if r < 0 then -1 else of_nat count, s2)))))"

text \<open>The bytes of \<open>struct proc_time\<close> in \<open>sys_get_proc_time\<close>: the fields that the code does not set, and the padding, are what
  the stack frame had before.\<close>

definition proc_time_partial :: "u8 list \<Rightarrow> proc \<Rightarrow> u8 list" where
  "proc_time_partial stk r =
     le_bytes 8 (unat (scast (pid r) :: u64)) @ le_bytes 8 (unat (start_time r)) @
     le_bytes 8 (unat (turnaround_time r)) @ le_bytes 8 (unat (wait_time r)) @ take 16 stk @
     le_bytes 4 (unat (of_int (priority r) :: u32)) @ segment stk 16 4"

primrec get_proc_time_loop :: "nat \<Rightarrow> nat \<Rightarrow> u8 list \<Rightarrow> u32 \<Rightarrow> u64 \<Rightarrow> 'a pst_scheme \<Rightarrow> kerr + (u64 \<times> 'a pst_scheme)" where
  "get_proc_time_loop 0 i stk n addr s = Inr (-1, s)"
| "get_proc_time_loop (Suc k) i stk n addr s =
     bindr (acquire_lk (ProcLock i) s) (\<lambda>s1.
     if pid (procs s1 i) = n \<and> pstate (procs s1 i) \<noteq> UNUSED then
       bindr (myproc s1) (\<lambda>p.
       bindr (copyout (pagetable (procs s1 p)) addr (proc_time_partial stk (procs s1 i)) s1) (\<lambda>(r, s2).
       bindr (release_lk (ProcLock i) s2) (\<lambda>s3. Inr (if r < 0 then -1 else 0, s3))))
     else bindr (release_lk (ProcLock i) s1) (get_proc_time_loop k (i + 1) stk n addr))"

definition sys_get_proc_time :: "u8 list \<Rightarrow> 'a pst_scheme \<Rightarrow> kerr + (u64 \<times> 'a pst_scheme)" where
  "sys_get_proc_time stk s =
     bindr (argint 0 s) (\<lambda>n. bindr (argaddr 1 s) (\<lambda>addr. get_proc_time_loop NPROC 0 stk (of_int n) addr s))"

primrec set_priority_loop :: "nat \<Rightarrow> nat \<Rightarrow> u32 \<Rightarrow> int \<Rightarrow> 'a pst_scheme \<Rightarrow> kerr + (u64 \<times> 'a pst_scheme)" where
  "set_priority_loop 0 i n pr s = Inr (-1, s)"
| "set_priority_loop (Suc k) i n pr s =
     bindr (acquire_lk (ProcLock i) s) (\<lambda>s1.
     if pid (procs s1 i) = n \<and> pstate (procs s1 i) \<noteq> UNUSED then
       bindr (release_lk (ProcLock i) (updp i (\<lambda>r. r\<lparr>priority := pr\<rparr>) s1)) (\<lambda>s2. Inr (0, s2))
     else bindr (release_lk (ProcLock i) s1) (set_priority_loop k (i + 1) n pr))"

definition sys_set_priority :: "'a pst_scheme \<Rightarrow> kerr + (u64 \<times> 'a pst_scheme)" where
  "sys_set_priority s =
     bindr (argint 0 s) (\<lambda>n.
     bindr (argint 1 s) (\<lambda>pr.
     if pr < 0 \<or> pr > 20 then Inr (-1, s) else set_priority_loop NPROC 0 (of_int n) pr s))"

definition sys_getppid :: "'a pst_scheme \<Rightarrow> kerr + (u64 \<times> 'a pst_scheme)" where
  "sys_getppid s =
     bindr (myproc s) (\<lambda>p.
     bindr (acquire_lk (ProcLock p) s) (\<lambda>s1.
     let n = proc_parent_pid p s1 in
     bindr (release_lk (ProcLock p) s1) (\<lambda>s2. Inr (of_int n, s2))))"

definition rtcdate_bytes :: "rtcdate \<Rightarrow> u8 list" where
  "rtcdate_bytes d = concat (map (\<lambda>v. le_bytes 4 (unat (of_int v :: u32))) [year d, month d, day d, hour d, minute d, second d])"

definition sys_datetime :: "'a xst_scheme \<Rightarrow> kerr + (u64 \<times> 'a xst_scheme)" where
  "sys_datetime s =
     bindr (argaddr 0 s) (\<lambda>addr.
     bindr (get_datetime (mtime s) (boot_epoch s)) (\<lambda>d.
     bindr (myproc s) (\<lambda>p.
     bindr (copyout (pagetable (procs s p)) addr (rtcdate_bytes d) s) (\<lambda>(r, s1). Inr (if r < 0 then -1 else 0, s1)))))"

definition sys_randd :: "'a xst_scheme \<Rightarrow> kerr + (u64 \<times> 'a xst_scheme)" where
  "sys_randd s =
     bindr (myproc s) (\<lambda>p.
     let seed0 = rand_seed s XOR (scast (pid (procs s p)) * 0x9e3779b97f4a7c15);
         seed1 = seed0 * 1103515245 + 12345
     in Inr (drop_bit 16 seed1 AND 0x7FFF, s\<lparr>rand_seed := seed1\<rparr>))"

definition sys_kbdint :: "'a cst_scheme \<Rightarrow> kerr + (u64 \<times> 'a cst_scheme)" where
  "sys_kbdint s = Inr (scast (kbd_intr_count s), s)"

end
