(* ===== verification/Trap.thy ===== *)
theory Trap
  imports Lifecycle
begin

text \<open>
  Traps (\<open>kernel/trap.c\<close>), the dispatch of system calls (\<open>kernel/syscall.c\<close>), the claims of the interrupt controller
  (\<open>kernel/plic.c\<close>) and \<open>forkret\<close> of \<open>kernel/proc.c\<close>. The state adds the control registers of the hart and the linker's
  symbols. A trap from user space ends in one of three ways: the jump to \<open>userret\<close> with its argument, the end of the
  process, or a \<open>yield\<close>, after which \<open>usertrap_resume\<close> goes on. \<open>SCHED_FCFS\<close> is the constant of \<open>kernel/trap.c\<close>.
\<close>

unbundle bit_operations_syntax

record tst = xst +
  stvec :: u64
  sepc :: u64
  sstatus :: u64
  scause :: u64
  stval :: u64
  satp :: u64
  stimecmp :: u64
  tp :: u64
  irqs :: "u32 list"
  completed_irqs :: "u32 list"
  kernelvec :: u64
  usertrap_addr :: u64
  uservec :: u64
  userret :: u64

datatype trap_end = ToUser u64 | Exited | Yields

definition SSTATUS_SPP :: u64 where "SSTATUS_SPP = push_bit 8 1"

definition SSTATUS_SPIE :: u64 where "SSTATUS_SPIE = push_bit 5 1"

definition SSTATUS_SIE :: u64 where "SSTATUS_SIE = push_bit 1 1"

definition MAKE_SATP :: "u64 \<Rightarrow> u64" where
  "MAKE_SATP pt = push_bit 60 8 OR drop_bit 12 pt"

definition UART0_IRQ :: u32 where "UART0_IRQ = 10"

definition VIRTIO0_IRQ :: u32 where "VIRTIO0_IRQ = 1"

definition intr_on_csr :: "'a tst_scheme \<Rightarrow> 'a tst_scheme" where
  "intr_on_csr s = s\<lparr>sstatus := sstatus s OR SSTATUS_SIE\<rparr>"

definition intr_off_csr :: "'a tst_scheme \<Rightarrow> 'a tst_scheme" where
  "intr_off_csr s = s\<lparr>sstatus := sstatus s AND NOT SSTATUS_SIE\<rparr>"

section \<open>System calls\<close>

definition ret :: "kerr + (u64 \<times> 's) \<Rightarrow> kerr + (u64 option \<times> 's)" where
  "ret m = bindr m (\<lambda>(v, s). Inr (Some v, s))"

text \<open>The table of system calls; \<open>None\<close> is a number without an entry. \<open>stk\<close> is what the stack frames of the two calls that
  copy uninitialised bytes hold.\<close>

definition syscalls :: "(nat \<Rightarrow> u8 list) \<Rightarrow> int \<Rightarrow> ('a tst_scheme \<Rightarrow> kerr + (u64 option \<times> 'a tst_scheme)) option" where
  "syscalls stk num =
     (if num = 1 then Some (\<lambda>s. ret (sys_fork s))
      else if num = 2 then Some sys_exit
      else if num = 3 then Some (\<lambda>s. ret (sys_wait s))
      else if num = 4 then Some (\<lambda>s. ret (sys_pipe s))
      else if num = 5 then Some (\<lambda>s. ret (sys_read s))
      else if num = 6 then Some (\<lambda>s. ret (sys_kill s))
      else if num = 7 then Some (\<lambda>s. ret (sys_exec s))
      else if num = 8 then Some (\<lambda>s. ret (sys_fstat s))
      else if num = 9 then Some (\<lambda>s. ret (sys_chdir s))
      else if num = 10 then Some (\<lambda>s. ret (sys_dup s))
      else if num = 11 then Some (\<lambda>s. ret (sys_getpid s))
      else if num = 12 then Some (\<lambda>s. ret (sys_sbrk s))
      else if num = 13 then Some (\<lambda>s. ret (or_block (sys_sleep s)))
      else if num = 14 then Some (\<lambda>s. ret (sys_uptime s))
      else if num = 15 then Some (\<lambda>s. ret (sys_open s))
      else if num = 16 then Some (\<lambda>s. ret (sys_write s))
      else if num = 17 then Some (\<lambda>s. ret (sys_mknod s))
      else if num = 18 then Some (\<lambda>s. ret (sys_unlink s))
      else if num = 19 then Some (\<lambda>s. ret (sys_link s))
      else if num = 20 then Some (\<lambda>s. ret (sys_mkdir s))
      else if num = 21 then Some (\<lambda>s. ret (sys_close s))
      else if num = 22 then Some (\<lambda>s. ret (sys_shutdown s))
      else if num = 23 then Some (\<lambda>s. ret (sys_countsyscall s))
      else if num = 24 then Some (\<lambda>s. ret (sys_getptable stk s))
      else if num = 25 then Some (\<lambda>s. ret (sys_get_proc_time (stk 0) s))
      else if num = 26 then Some (\<lambda>s. ret (sys_set_priority s))
      else if num = 27 then Some (\<lambda>s. ret (sys_getppid s))
      else if num = 28 then Some (\<lambda>s. ret (sys_datetime s))
      else if num = 29 then Some (\<lambda>s. ret (sys_randd s))
      else if num = 30 then Some (\<lambda>s. ret (sys_kbdint s))
      else None)"

text \<open>\<open>False\<close>: the call does not return.\<close>

definition syscall :: "(nat \<Rightarrow> u8 list) \<Rightarrow> 'a tst_scheme \<Rightarrow> kerr + (bool \<times> 'a tst_scheme)" where
  "syscall stk s =
     bindr (acquire_lk SyscallLock s) (\<lambda>s1.
     bindr (release_lk SyscallLock (s1\<lparr>syscallCount := syscallCount s1 + 1\<rparr>)) (\<lambda>s2.
     bindr (myproc s2) (\<lambda>p.
     let num = sint (ucast (tf_get p tf_a7 s2) :: u32) in
     case syscalls stk num of
       Some f \<Rightarrow>
         bindr (f s2) (\<lambda>(v, s3).
         case v of None \<Rightarrow> Inr (False, s3) | Some w \<Rightarrow> Inr (True, tf_set p tf_a0 w s3))
     | None \<Rightarrow>
         bindr (printf (''%d %s: unknown sys call %d'' @ [CHR 0x0A])
           [AInt (pid (procs s2 p)), AStr (Some (cstring (pname (procs s2 p)))), AInt (of_int num)] s2) (\<lambda>s3.
         Inr (True, tf_set p tf_a0 (-1) s3)))))"

section \<open>Interrupts\<close>

text \<open>What the interrupt controller answers to successive claims is an input; an empty queue answers 0.\<close>

definition plic_claim :: "'a tst_scheme \<Rightarrow> u32 \<times> 'a tst_scheme" where
  "plic_claim s = (case irqs s of [] \<Rightarrow> (0, s) | i # is \<Rightarrow> (i, s\<lparr>irqs := is\<rparr>))"

definition plic_complete :: "u32 \<Rightarrow> 'a tst_scheme \<Rightarrow> 'a tst_scheme" where
  "plic_complete i s = s\<lparr>completed_irqs := completed_irqs s @ [i]\<rparr>"

definition clockintr :: "'a tst_scheme \<Rightarrow> kerr + 'a tst_scheme" where
  "clockintr s =
     bindr (if tp s = 0 then
         bindr (acquire_lk TicksLock s) (\<lambda>s1.
         bindr (wakeup ChanTicks (s1\<lparr>ticks := ticks s1 + 1\<rparr>)) (release_lk TicksLock))
       else Inr s) (\<lambda>s2.
     let (now, s3) = r_time s2 in Inr (s3\<lparr>stimecmp := now + 1000000\<rparr>))"

definition devintr :: "'a tst_scheme \<Rightarrow> kerr + (int \<times> 'a tst_scheme)" where
  "devintr s =
     (if scause s = 0x8000000000000009 then
        let (irq, s1) = plic_claim s in
        bindr (if irq = UART0_IRQ then uartintr s1
               else if irq = VIRTIO0_IRQ then virtio_disk_intr s1
               else if irq \<noteq> 0 then printf (''unexpected interrupt irq=%d'' @ [CHR 0x0A]) [AInt irq] s1
               else Inr s1) (\<lambda>s2.
        Inr (1, if irq \<noteq> 0 then plic_complete irq s2 else s2))
      else if scause s = 0x8000000000000005 then bindr (clockintr s) (\<lambda>s1. Inr (2, s1))
      else Inr (0, s))"

section \<open>Traps\<close>

definition usertrapret :: "'a tst_scheme \<Rightarrow> kerr + (trap_end \<times> 'a tst_scheme)" where
  "usertrapret s =
     bindr (myproc s) (\<lambda>p.
     let s1 = (intr_off_csr s)\<lparr>stvec := TRAMPOLINE + (uservec s - trampoline s)\<rparr>;
         s2 = tf_set p 0 (satp s1) s1;
         s3 = tf_set p 8 (kstack (procs s2 p) + PGSIZE) s2;
         s4 = tf_set p 16 (usertrap_addr s3) s3;
         s5 = tf_set p 32 (tp s4) s4;
         s6 = s5\<lparr>sstatus := (sstatus s5 AND NOT SSTATUS_SPP) OR SSTATUS_SPIE\<rparr>;
         s7 = s6\<lparr>sepc := tf_get p tf_epc s6\<rparr>
     in Inr (ToUser (MAKE_SATP (pagetable (procs s7 p))), s7))"

text \<open>The end of \<open>usertrap\<close>, after the trap was handled.\<close>

definition usertrap_end :: "bool \<Rightarrow> int \<Rightarrow> 'a tst_scheme \<Rightarrow> kerr + (trap_end \<times> 'a tst_scheme)" where
  "usertrap_end SCHED_FCFS which_dev s =
     bindr (myproc s) (\<lambda>p.
     bindr (killed p s) (\<lambda>(kl, s1).
     if kl \<noteq> 0 then bindr (exit (-1) s1) (\<lambda>s2. Inr (Exited, s2))
     else if which_dev = 2 \<and> \<not> SCHED_FCFS then bindr (yield s1) (\<lambda>s2. Inr (Yields, s2))
     else usertrapret s1))"

definition usertrap :: "bool \<Rightarrow> (nat \<Rightarrow> u8 list) \<Rightarrow> 'a tst_scheme \<Rightarrow> kerr + (trap_end \<times> 'a tst_scheme)" where
  "usertrap SCHED_FCFS stk s =
     (if sstatus s AND SSTATUS_SPP \<noteq> 0 then Inl (Panic ''usertrap: not from user mode'')
      else
        let s1 = s\<lparr>stvec := kernelvec s\<rparr> in
        bindr (myproc s1) (\<lambda>p.
        let s2 = tf_set p tf_epc (sepc s1) s1 in
        if scause s2 = 8 then
          bindr (killed p s2) (\<lambda>(kl, s3).
          if kl \<noteq> 0 then bindr (exit (-1) s3) (\<lambda>s4. Inr (Exited, s4))
          else
            bindr (syscall stk (intr_on_csr (tf_set p tf_epc (tf_get p tf_epc s3 + 4) s3))) (\<lambda>(back, s4).
            if \<not> back then Inr (Exited, s4) else usertrap_end SCHED_FCFS 0 s4))
        else
          bindr (devintr s2) (\<lambda>(which_dev, s3).
          if which_dev \<noteq> 0 then usertrap_end SCHED_FCFS which_dev s3
          else
            bindr (printf (''usertrap(): unexpected scause 0x%lx pid=%d'' @ [CHR 0x0A]) [ALong (scause s3), AInt (pid (procs s3 p))] s3) (\<lambda>s4.
            bindr (printf (''            sepc=0x%lx stval=0x%lx'' @ [CHR 0x0A]) [ALong (sepc s4), ALong (stval s4)] s4) (\<lambda>s5.
            bindr (setkilled p s5) (usertrap_end SCHED_FCFS 0))))))"

definition usertrap_resume :: "'a tst_scheme \<Rightarrow> kerr + (trap_end \<times> 'a tst_scheme)" where
  "usertrap_resume s = bindr (yield_exit s) usertrapret"

text \<open>\<open>kerneltrap\<close>; \<open>True\<close> if the process gives up the hart, after which \<open>kerneltrap_resume\<close> restores the registers.\<close>

definition kerneltrap :: "bool \<Rightarrow> 'a tst_scheme \<Rightarrow> kerr + (bool \<times> 'a tst_scheme)" where
  "kerneltrap SCHED_FCFS s =
     (if sstatus s AND SSTATUS_SPP = 0 then Inl (Panic ''kerneltrap: not from supervisor mode'')
      else if sstatus s AND SSTATUS_SIE \<noteq> 0 then Inl (Panic ''kerneltrap: interrupts enabled'')
      else
        bindr (devintr s) (\<lambda>(which_dev, s1).
        if which_dev = 0 then
          bindr (printf (''scause=0x%lx sepc=0x%lx stval=0x%lx'' @ [CHR 0x0A]) [ALong (scause s), ALong (sepc s1), ALong (stval s1)] s1)
            (\<lambda>s2. Inl (Panic ''kerneltrap''))
        else if which_dev = 2 \<and> cur s1 \<noteq> None \<and> \<not> SCHED_FCFS then bindr (yield s1) (\<lambda>s2. Inr (True, s2))
        else Inr (False, s1\<lparr>sepc := sepc s, sstatus := sstatus s\<rparr>)))"

definition kerneltrap_resume :: "u64 \<Rightarrow> u64 \<Rightarrow> 'a tst_scheme \<Rightarrow> kerr + 'a tst_scheme" where
  "kerneltrap_resume sepc0 sstatus0 s = bindr (yield_exit s) (\<lambda>s1. Inr (s1\<lparr>sepc := sepc0, sstatus := sstatus0\<rparr>))"

definition forkret :: "'a tst_scheme \<Rightarrow> kerr + (trap_end \<times> 'a tst_scheme)" where
  "forkret s =
     bindr (myproc s) (\<lambda>p.
     bindr (release_lk (ProcLock p) s) (\<lambda>s1.
     bindr (if fs_first s1 then bindr (fsinit ROOTDEV s1) (\<lambda>s2. Inr (s2\<lparr>fs_first := False\<rparr>)) else Inr s1) usertrapret))"

end
