(* ===== verification/Frames.thy ===== *)
theory Frames
  imports Lifecycle
begin

text \<open>
  What the routines below the file layer leave alone: the table of files but for the offsets, the descriptors of the processes and the current
  process; and they make no process idle, that is unused, being created or a zombie. \<open>keeps g m s\<close> says this of a computation \<open>m\<close> that starts in \<open>s\<close>; \<open>g\<close> finds the state in its result. The rules are in the
  collection \<open>keep\<close>, one for the composition of routines and one for each routine.
\<close>

definition idle :: "proc \<Rightarrow> bool" where
  "idle r \<longleftrightarrow> pstate r = UNUSED \<or> pstate r = USED \<or> pstate r = ZOMBIE"

definition fkeep :: "'a flst_scheme \<Rightarrow> 'a flst_scheme \<Rightarrow> bool" where
  "fkeep s t \<longleftrightarrow> (\<forall>f. (ftable t f)\<lparr>f_off := 0\<rparr> = (ftable s f)\<lparr>f_off := 0\<rparr>) \<and> cur t = cur s \<and> 
     (\<forall>p. ofile (procs t p) = ofile (procs s p) \<and> (idle (procs t p) \<longrightarrow> idle (procs s p)))"

definition keeps :: "('x \<Rightarrow> 'a flst_scheme) \<Rightarrow> kerr + 'x \<Rightarrow> 'a flst_scheme \<Rightarrow> bool" where
  "keeps g m s \<longleftrightarrow> (\<forall>x. m = Inr x \<longrightarrow> fkeep s (g x))"

abbreviation keep1 :: "kerr + 'a flst_scheme \<Rightarrow> 'a flst_scheme \<Rightarrow> bool" where
  "keep1 m s \<equiv> keeps (\<lambda>x. x) m s"

abbreviation keep2 :: "kerr + ('r \<times> 'a flst_scheme) \<Rightarrow> 'a flst_scheme \<Rightarrow> bool" where
  "keep2 m s \<equiv> keeps snd m s"

named_theorems keep

lemma fkeep_refl [simp]: "fkeep s s"
  by (simp add: fkeep_def)

lemma fkeep_trans: "fkeep s t \<Longrightarrow> fkeep t u \<Longrightarrow> fkeep s u"
  by (simp add: fkeep_def)

lemma fkeep_updates [simp]:
  "fkeep s (t\<lparr>held := h\<rparr>) = fkeep s t" "fkeep s (t\<lparr>pmem := m\<rparr>) = fkeep s t" "fkeep s (t\<lparr>freelist := fl\<rparr>) = fkeep s t" "fkeep s (t\<lparr>cout := co\<rparr>) = fkeep s t"
  "fkeep s (t\<lparr>clk_reads := n\<rparr>) = fkeep s t" "fkeep s (t\<lparr>nextpid := np\<rparr>) = fkeep s t" "fkeep s (t\<lparr>sb := q\<rparr>) = fkeep s t"
  "fkeep s (upd_sl l v t) = fkeep s t" "fkeep s (updb b f t) = fkeep s t" "fkeep s (upd_vd g t) = fkeep s t" "fkeep s (updq k t) = fkeep s t"
  "fkeep s (writeR a w t) = fkeep s t" "fkeep s (set_bufdata b d t) = fkeep s t" "fkeep s (updl j t) = fkeep s t" "fkeep s (updi i e t) = fkeep s t"
  "fkeep s (updpipe pa z t) = fkeep s t" "fkeep s (link_front b t) = fkeep s t" "fkeep s (unlink b t) = fkeep s t"
  by (simp_all add: fkeep_def upd_sl_def updb_def upd_vd_def updq_def writeR_def set_bufdata_def updl_def updi_def updpipe_def link_front_def unlink_def Let_def)

lemma fkeep_updp [keep]:
  "fkeep s t \<Longrightarrow> (\<And>r. ofile (f r) = ofile r) \<Longrightarrow> (\<And>r. idle (f r) \<Longrightarrow> idle r) \<Longrightarrow> fkeep s (updp p f t)"
  by (auto simp: fkeep_def updp_def)

lemma fkeep_updf [keep]: "fkeep s t \<Longrightarrow> (\<And>r. (h r)\<lparr>f_off := 0\<rparr> = r\<lparr>f_off := 0\<rparr>) \<Longrightarrow> fkeep s (updf f h t)"
  by (simp add: fkeep_def updf_def)

lemma idle_updates [simp]:
  "idle (r\<lparr>pchan := c\<rparr>) = idle r" "idle (r\<lparr>wait_time := w\<rparr>) = idle r" "idle (r\<lparr>cwd := d\<rparr>) = idle r" "idle (r\<lparr>pstate := q\<rparr>) = (q = UNUSED \<or> q = USED \<or> q = ZOMBIE)"
  "idle (r\<lparr>parent := pa\<rparr>) = idle r" "idle (r\<lparr>ofile := ofs\<rparr>) = idle r"
  by (simp_all add: idle_def)

lemma keeps_Inl [keep]: "keeps g (Inl e) s"
  by (simp add: keeps_def)

lemma keeps_Inr [keep]: "fkeep s (g x) \<Longrightarrow> keeps g (Inr x) s"
  by (simp add: keeps_def)

lemma keep1D: "keep1 m s \<Longrightarrow> m = Inr t \<Longrightarrow> fkeep s t"
  by (simp add: keeps_def)

lemma keep2D: "keep2 m s \<Longrightarrow> m = Inr (r, t) \<Longrightarrow> fkeep s t"
  by (simp add: keeps_def)

lemma keeps_bind:
  assumes "keeps g m s" "\<And>x. fkeep s (g x) \<Longrightarrow> keeps h (f x) s"
  shows "keeps h (bindr m f) s"
  using assms by (auto simp: keeps_def bindr_eq_Inr)

lemma keep_bind1 [keep]: "keep1 m s \<Longrightarrow> (\<And>t. fkeep s t \<Longrightarrow> keeps h (f t) s) \<Longrightarrow> keeps h (bindr m f) s"
  by (rule keeps_bind)

lemma keep_bind2 [keep]: "keep2 m s \<Longrightarrow> (\<And>r t. fkeep s t \<Longrightarrow> keeps h (f (r, t)) s) \<Longrightarrow> keeps h (bindr m f) s"
  by (erule keeps_bind) (metis prod.collapse)

lemma keep_bind0:
  fixes m :: "kerr + 'm"
  shows "(\<And>x. keeps h (f x) s) \<Longrightarrow> keeps h (bindr m f) s"
  by (auto simp: keeps_def bindr_eq_Inr)

lemmas keep_binds [keep] = keep_bind0 [where 'm = nat] keep_bind0 [where 'm = bool] keep_bind0 [where 'm = "nat option"] keep_bind0 [where 'm = u32]
  keep_bind0 [where 'm = unit] keep_bind0 [where 'm = int] keep_bind0 [where 'm = u64] keep_bind0 [where 'm = "(nat \<times> nat) option"] keep_bind0 [where 'm = string]

section \<open>Locks, memory and processes\<close>

lemma lk_keep [keep]: "fkeep s t \<Longrightarrow> keep1 (acquire_lk l t) s" "fkeep s t \<Longrightarrow> keep1 (release_lk l t) s"
  by (auto simp: keeps_def acquire_lk_def release_lk_def split: if_splits)

lemma kmem_keep: "kmem_frame t u \<Longrightarrow> fkeep s t \<Longrightarrow> fkeep s (u :: 'a flst_scheme)"
  by (cases t; cases u) (simp add: kmem_frame_def fkeep_def)

lemma kmem_keep1: "(\<And>u. m = Inr u \<Longrightarrow> kmem_frame t u) \<Longrightarrow> fkeep s t \<Longrightarrow> keep1 m s"
  by (auto simp: keeps_def intro: kmem_keep)

lemma kmem_keep2: "(\<And>r u. m = Inr (r, u) \<Longrightarrow> kmem_frame t u) \<Longrightarrow> fkeep s t \<Longrightarrow> keep2 m s"
  by (auto simp: keeps_def intro: kmem_keep)

lemma mem_keep [keep]:
  "fkeep s t \<Longrightarrow> keep2 (kalloc t) s" "fkeep s t \<Longrightarrow> keep1 (kfree a t) s" "fkeep s t \<Longrightarrow> keep2 (copyout pt d src t) s"
  by (auto intro!: kmem_keep1 kmem_keep2 dest: kalloc_frame kfree_frame copyout_frame)

lemma vm_keep [keep]:
  "fkeep s t \<Longrightarrow> keep2 (walk pt va al t) s" "fkeep s t \<Longrightarrow> keep2 (mappages pt va n pa perm t) s" "fkeep s t \<Longrightarrow> keep1 (uvmunmap pt va m fr t) s"
  "fkeep s t \<Longrightarrow> keep1 (proc_freepagetable pt k t) s" "fkeep s t \<Longrightarrow> keep2 (proc_pagetable p t) s"
  by (auto intro!: kmem_keep1 kmem_keep2 dest: walk_frame mappages_frame uvmunmap_frame proc_freepagetable_frame proc_pagetable_frame)

lemma uvmcopy_keep [keep]: "fkeep s t \<Longrightarrow> keep2 (uvmcopy pt qt n t) s"
proof -
  have "fkeep s t \<Longrightarrow> keep2 (uvmcopy_loop k pt qt n i t) s" for k i t
    by (induction k arbitrary: i t) (auto intro!: keep simp: Let_def)
  then show "fkeep s t \<Longrightarrow> keep2 (uvmcopy pt qt n t) s" unfolding uvmcopy_def by blast
qed

lemma walkaddr_frame: "walkaddr pt va t = Inr (r, u) \<Longrightarrow> kmem_frame t u"
  by (auto simp: walkaddr_def bindr_eq_Inr Let_def split: if_splits dest: walk_frame)

lemma copyin_frame: "copyin pt d n t = Inr (r, u) \<Longrightarrow> kmem_frame t u"
proof (induction pt d n t arbitrary: r u rule: copyin.induct)
  case (1 pt d n t)
  show ?case
  proof (cases "n = 0")
    case True
    then show ?thesis using "1.prems" by (simp add: copyin.simps)
  next
    case False
    then obtain pa t1 where w: "walkaddr pt (PGROUNDDOWN d) t = Inr (pa, t1)" using "1.prems" by (subst (asm) copyin.simps) (auto simp: bindr_eq_Inr Let_def)
    show ?thesis
    proof (cases "pa = 0")
      case True
      then show ?thesis using "1.prems" False w walkaddr_frame [OF w] by (subst (asm) copyin.simps) (simp add: Let_def)
    next
      case pa: False
      then obtain r' where "copyin pt (PGROUNDDOWN d + PGSIZE) (n - chunk d n) t1 = Inr (r', u)"
        using "1.prems" False w by (subst (asm) copyin.simps) (auto simp: bindr_eq_Inr Let_def)
      from "1.IH" [OF False refl w refl pa refl refl this] show ?thesis using walkaddr_frame [OF w] kmem_frame_trans by blast
    qed
  qed
qed

lemma copyinstr_frame: "copyinstr pt d n t = Inr (r, u) \<Longrightarrow> kmem_frame t u"
proof (induction pt d n t arbitrary: r u rule: copyinstr.induct)
  case (1 pt d n t)
  show ?case
  proof (cases "n = 0")
    case True
    then show ?thesis using "1.prems" by (simp add: copyinstr.simps)
  next
    case False
    then obtain pa t1 where w: "walkaddr pt (PGROUNDDOWN d) t = Inr (pa, t1)" using "1.prems" by (subst (asm) copyinstr.simps) (auto simp: bindr_eq_Inr Let_def)
    obtain bs nul where c: "copystr_loop (chunk d n) (pa + (d - PGROUNDDOWN d)) (pmem t1) = (bs, nul)" by fastforce
    show ?thesis
    proof (cases "pa = 0 \<or> nul")
      case True
      then show ?thesis using "1.prems" False w c walkaddr_frame [OF w] by (subst (asm) copyinstr.simps) (auto simp: Let_def split: if_splits)
    next
      case pa: False
      then obtain r' where "copyinstr pt (PGROUNDDOWN d + PGSIZE) (n - chunk d n) t1 = Inr (r', u)"
        using "1.prems" False w c by (subst (asm) copyinstr.simps) (auto simp: bindr_eq_Inr Let_def)
      then have "kmem_frame t1 u" using "1.IH" [OF False refl w refl _ refl c [symmetric]] pa by blast
      then show ?thesis using walkaddr_frame [OF w] kmem_frame_trans by blast
    qed
  qed
qed

lemma in_keep [keep]: "fkeep s t \<Longrightarrow> keep2 (copyin pt d n t) s" "fkeep s t \<Longrightarrow> keep2 (copyinstr pt d n t) s"
  by (auto intro!: kmem_keep2 dest: copyin_frame copyinstr_frame)

lemma printf_keep [keep]: "fkeep s t \<Longrightarrow> keep1 (printf fmt args t) s"
  by (auto intro!: keep simp: printf_def Let_def)

lemma wakeup_loop_keep: "fkeep s t \<Longrightarrow> keep1 (wakeup_loop k i c t) s"
  by (induction k arbitrary: i t) (auto intro!: keep simp: Let_def r_time_def)

lemma proc_keep [keep]:
  "fkeep s t \<Longrightarrow> keep1 (wakeup c t) s" "fkeep s t \<Longrightarrow> keep1 (sched t) s" "fkeep s t \<Longrightarrow> keep2 (killed p t) s"
  by (auto intro!: keep wakeup_loop_keep simp: wakeup_def sched_def killed_def Let_def)

lemma sleep_keep [keep]: "fkeep s t \<Longrightarrow> keep1 (sleep_enter c lk t) s" "keeps g (sleep_block c lk t) s"
proof -
  show "fkeep s t \<Longrightarrow> keep1 (sleep_enter c lk t) s" by (auto intro!: keep simp: sleep_enter_def)
  show "keeps g (sleep_block c lk t) s" by (simp add: keeps_def sleep_block_def bindr_eq_Inr)
qed

lemma or_block_keep [keep]: "keep2 m s \<Longrightarrow> keep2 (or_block m) s"
  by (auto intro!: keep simp: or_block_def split: outcome.splits)

lemma sleeplock_keep [keep]:
  "fkeep s t \<Longrightarrow> keep1 (acquiresleep l t) s" "fkeep s t \<Longrightarrow> keep1 (releasesleep l t) s" "fkeep s t \<Longrightarrow> keep2 (holdingsleep l t) s"
  by (auto intro!: keep simp: acquiresleep_def acquiresleep_try_def acquiresleep_locked_def releasesleep_def holdingsleep_def Let_def)

section \<open>Disk, cache and log\<close>

lemma alloc_desc_keep: "alloc_desc t = (r, u) \<Longrightarrow> fkeep s t \<Longrightarrow> fkeep s u"
  by (auto simp: alloc_desc_def split: option.splits)

lemma free_desc_keep [keep]: "fkeep s t \<Longrightarrow> keep1 (free_desc i t) s"
  by (auto intro!: keep simp: free_desc_def)

lemma free_chain_keep [keep]: "fkeep s t \<Longrightarrow> keep1 (free_chain i t) s"
proof -
  have "fkeep s t \<Longrightarrow> keep1 (free_chain_loop k i t) s" for k i t
    by (induction k arbitrary: i t) (auto intro!: keep simp: Let_def)
  then show "fkeep s t \<Longrightarrow> keep1 (free_chain i t) s" by (auto intro!: keep simp: free_chain_def Let_def)
qed

lemma alloc3_keep [keep]: "fkeep s t \<Longrightarrow> keep2 (alloc3_desc t) s"
  by (auto intro!: keep simp: alloc3_desc_def split: prod.splits option.splits) (metis alloc_desc_keep)+

lemma virtio_intr_keep [keep]: "fkeep s t \<Longrightarrow> keep1 (virtio_disk_intr t) s"
proof -
  have "fkeep s t \<Longrightarrow> keep1 (virtio_disk_intr_loop k t) s" for k t
    by (induction k arbitrary: t) (auto intro!: keep simp: virtio_disk_intr_step_def Let_def split: option.splits)
  then show "fkeep s t \<Longrightarrow> keep1 (virtio_disk_intr t) s" by (auto intro!: keep simp: virtio_disk_intr_def writeR_def Let_def)
qed

lemma disk_wait_keep [keep]: "fkeep s t \<Longrightarrow> keep1 (disk_wait k b t) s"
  by (induction k arbitrary: t) (auto intro!: keep simp: sleep_on_disk_def)

lemma virtio_keep [keep]: "fkeep s t \<Longrightarrow> keep1 (virtio_disk_rw b w t) s"
  by (auto intro!: keep simp: virtio_disk_rw_def virtio_disk_start_def sleep_on_disk_def virtio_disk_finish_def Let_def split: option.splits)

lemma bget_keep [keep]: "fkeep s t \<Longrightarrow> keep2 (bget dev n t) s"
  by (auto intro!: keep simp: bget_def split: option.splits)

lemma bio_keep [keep]:
  "fkeep s t \<Longrightarrow> keep2 (bread dev n t) s" "fkeep s t \<Longrightarrow> keep1 (bwrite b t) s" "fkeep s t \<Longrightarrow> keep1 (brelse b t) s" "fkeep s t \<Longrightarrow> keep1 (bpin b t) s"
  "fkeep s t \<Longrightarrow> keep1 (bunpin b t) s"
  by (auto intro!: keep simp: bread_def bwrite_def brelse_def bpin_def bunpin_def Let_def)

lemma log_loops_keep: "fkeep s t \<Longrightarrow> keep1 (install_trans_loop k i rec t) s" "fkeep s t \<Longrightarrow> keep1 (write_log_loop k i t) s"
  by (induction k arbitrary: i t) (auto intro!: keep)

lemma head_keep [keep]: "fkeep s t \<Longrightarrow> keep1 (write_head t) s" "fkeep s t \<Longrightarrow> keep1 (install_trans rec t) s" "fkeep s t \<Longrightarrow> keep1 (write_log t) s"
  by (auto intro!: keep log_loops_keep simp: write_head_def install_trans_def write_log_def)

lemma log_keep [keep]:
  "fkeep s t \<Longrightarrow> keep1 (begin_op t) s" "fkeep s t \<Longrightarrow> keep1 (commit t) s" "fkeep s t \<Longrightarrow> keep1 (log_write b t) s"
  by (auto intro!: keep simp: begin_op_def begin_op_try_def begin_op_locked_def commit_def log_write_def Let_def)

lemma end_op_keep [keep]: "fkeep s t \<Longrightarrow> keep1 (end_op t) s" "fkeep s t \<Longrightarrow> keep2 (end_with v t) s"
proof -
  show e: "fkeep s t \<Longrightarrow> keep1 (end_op t) s" for t by (auto intro!: keep simp: end_op_def end_op_begin_def end_op_finish_def Let_def)
  show "fkeep s t \<Longrightarrow> keep2 (end_with v t) s" by (auto intro!: keep e simp: end_with_def)
qed

section \<open>Blocks and inodes\<close>

lemma bfree_keep [keep]: "fkeep s t \<Longrightarrow> keep1 (bfree dev b t) s" "fkeep s t \<Longrightarrow> keep1 (bzero dev b t) s" "fkeep s t \<Longrightarrow> keep1 (iupdate i t) s"
  by (auto intro!: keep simp: bfree_def bzero_def iupdate_def Let_def)

lemma balloc_keep [keep]: "fkeep s t \<Longrightarrow> keep2 (balloc dev t) s"
proof -
  have "fkeep s t \<Longrightarrow> keep2 (balloc_loop k b dev t) s" for k b
    by (induction k arbitrary: b t) (auto intro!: keep split: option.splits)
  then show "fkeep s t \<Longrightarrow> keep2 (balloc dev t) s" by (simp add: balloc_def)
qed

lemma iget_keep [keep]: "fkeep s t \<Longrightarrow> keep2 (iget dev n t) s" "fkeep s t \<Longrightarrow> keep2 (idup i t) s"
  by (auto intro!: keep simp: iget_def idup_def split: option.splits)

lemma ialloc_keep [keep]: "fkeep s t \<Longrightarrow> keep2 (ialloc dev ty t) s"
proof -
  have "fkeep s t \<Longrightarrow> keep2 (ialloc_loop k n dev ty t) s" for k n
    by (induction k arbitrary: n t) (auto intro!: keep simp: Let_def)
  then show "fkeep s t \<Longrightarrow> keep2 (ialloc dev ty t) s" by (simp add: ialloc_def)
qed

lemma ilock_keep [keep]: "fkeep s t \<Longrightarrow> keep1 (ilock ip t) s" "fkeep s t \<Longrightarrow> keep1 (iunlock ip t) s"
  by (auto intro!: keep simp: ilock_def ilock_read_def iunlock_def Let_def split: option.splits)

lemma itrunc_keep [keep]: "fkeep s t \<Longrightarrow> keep1 (itrunc i t) s"
proof -
  have d: "fkeep s t \<Longrightarrow> keep1 (itrunc_direct k j i t) s" for k j t
    by (induction k arbitrary: j t) (auto intro!: keep)
  have n: "fkeep s t \<Longrightarrow> keep1 (itrunc_indirect k j bp i t) s" for k j bp t
    by (induction k arbitrary: j t) (auto intro!: keep simp: Let_def)
  show "fkeep s t \<Longrightarrow> keep1 (itrunc i t) s" by (auto intro!: keep d n simp: itrunc_def)
qed

lemma iput_keep [keep]: "fkeep s t \<Longrightarrow> keep1 (iput i t) s"
  by (auto intro!: keep simp: iput_def)

lemma iunlockput_keep [keep]: "fkeep s t \<Longrightarrow> keep1 (iunlockput ip t) s"
  by (auto intro!: keep simp: iunlockput_def split: option.splits)

section \<open>File contents, directories and paths\<close>

lemma bmap_keep [keep]: "fkeep s t \<Longrightarrow> keep2 (bmap i bn t) s"
  by (auto intro!: keep simp: bmap_def bmap_slot_def bmap_entry_def Let_def)

lemma either_keep [keep]: "fkeep s t \<Longrightarrow> keep2 (either_copyout u d bs t) s" "fkeep s t \<Longrightarrow> keep2 (either_copyin u d n t) s"
  by (auto intro!: keep simp: either_copyout_def either_copyin_def Let_def)

lemma copy_keep [keep]: "fkeep s t \<Longrightarrow> keep2 (copy_to pl bs t) s" "fkeep s t \<Longrightarrow> keep2 (copy_from pl n t) s"
  by (auto intro!: keep simp: copy_to_def copy_from_def split: place.splits)

lemma round_progress: "tot < n \<Longrightarrow> n - (tot + min (n - tot) (BSIZE - off mod BSIZE)) < n - tot"
  by (auto simp: BSIZE_def)

lemma readi_loop_keep [keep]: "fkeep s t \<Longrightarrow> keep2 (readi_loop i off n tot dst t) s"
proof (induction "n - tot" arbitrary: off tot dst t rule: less_induct)
  case less
  show ?case using less(2) by (subst readi_loop.simps) (auto intro!: keep less(1) round_progress simp: Let_def)
qed

lemma writei_loop_keep [keep]: "fkeep s t \<Longrightarrow> keep2 (writei_loop i off n tot dst t) s"
proof (induction "n - tot" arbitrary: off tot dst t rule: less_induct)
  case less
  show ?case using less(2) by (subst writei_loop.simps) (auto intro!: keep less(1) round_progress simp: Let_def)
qed

lemma contents_keep [keep]: "fkeep s t \<Longrightarrow> keep2 (readi i dst off n t) s" "fkeep s t \<Longrightarrow> keep2 (writei i src off n t) s"
  by (auto intro!: keep simp: readi_def writei_def Let_def)

lemma read_dirent_keep [keep]: "fkeep s t \<Longrightarrow> keep2 (read_dirent msg dp off t) s"
  by (auto intro!: keep simp: read_dirent_def split: place.splits)

lemma dir_loops_keep [keep]: "fkeep s t \<Longrightarrow> keep2 (dirlookup_loop k off dp name t) s" "fkeep s t \<Longrightarrow> keep2 (dirlink_slot k off dp t) s"
  by (induction k arbitrary: off t) (auto intro!: keep)

lemma dirlookup_keep [keep]: "fkeep s t \<Longrightarrow> keep2 (dirlookup dp name t) s"
  by (auto intro!: keep simp: dirlookup_def)

lemma dirlink_keep [keep]: "fkeep s t \<Longrightarrow> keep2 (dirlink dp name inum t) s"
  by (auto intro!: keep simp: dirlink_def split: option.splits)

lemma namex_loop_keep: "fkeep s t \<Longrightarrow> keep2 (namex_loop path np ip name t) s"
proof (induction "length path" arbitrary: path np ip name t rule: less_induct)
  case less
  show ?case using less(2)
    by (subst namex_loop.simps) (auto intro!: keep less(1) dest!: skipelem_shorter split: option.splits)
qed

lemma path_keep [keep]:
  "fkeep s t \<Longrightarrow> keep2 (namei path t) s" "fkeep s t \<Longrightarrow> keep2 (nameiparent path t) s"
  by (auto intro!: keep namex_loop_keep simp: namei_def nameiparent_def namex_def split: option.splits)

section \<open>Pipes, the console and open files\<close>

lemma fkeep_console [simp]:
  "fkeep s (t\<lparr>cons_r := r\<rparr>) = fkeep s t" "fkeep s (t\<lparr>uart_tx_buf := b\<rparr>) = fkeep s t" "fkeep s (t\<lparr>uart_tx_w := w\<rparr>) = fkeep s t" "fkeep s (write_THR c t) = fkeep s t"
  "fkeep s (t\<lparr>uart_tx_r := x\<rparr>) = fkeep s t"
  by (simp_all add: fkeep_def write_THR_def)

lemma read_tx_idle_keep: "read_tx_idle t = (b, u) \<Longrightarrow> fkeep s t \<Longrightarrow> fkeep s u"
  by (auto simp: read_tx_idle_def fkeep_def Let_def)

lemma uartstart_keep [keep]: "fkeep s t \<Longrightarrow> keep1 (uartstart t) s"
proof -
  have "fkeep s t \<Longrightarrow> keep1 (uartstart_loop k t) s" for k t
    by (induction k arbitrary: t) (auto intro!: keep simp: Let_def split: prod.splits dest: read_tx_idle_keep)
  then show "fkeep s t \<Longrightarrow> keep1 (uartstart t) s" unfolding uartstart_def by blast
qed

lemma uartputc_keep [keep]: "fkeep s t \<Longrightarrow> keep2 (uartputc c t) s"
  by (auto intro!: keep simp: uartputc_def uartputc_locked_def Let_def)

lemma console_keep [keep]: "fkeep s t \<Longrightarrow> keep2 (consolewrite u src n t) s" "fkeep s t \<Longrightarrow> keep2 (consoleread u dst n t) s"
proof -
  have w: "fkeep s t \<Longrightarrow> keep2 (consolewrite_loop k u src i t) s" for k i t
    by (induction k arbitrary: i t) (auto intro!: keep split: outcome.splits)
  have r: "fkeep s t \<Longrightarrow> keep2 (consoleread_loop k u dst m t) s" for k dst m t
    by (induction k arbitrary: dst t) (auto intro!: keep simp: Let_def)
  show "fkeep s t \<Longrightarrow> keep2 (consolewrite u src n t) s" "fkeep s t \<Longrightarrow> keep2 (consoleread u dst n t) s"
    by (auto intro!: keep w r simp: consolewrite_def consoleread_def)
qed

lemma pipe_keep [keep]:
  "fkeep s t \<Longrightarrow> keep1 (pipeclose a wr t) s" "fkeep s t \<Longrightarrow> keep2 (pipewrite a addr n t) s" "fkeep s t \<Longrightarrow> keep2 (piperead a addr n t) s"
proof -
  have w: "fkeep s t \<Longrightarrow> keep2 (pipewrite_loop k a addr i t) s" for k i t
    by (induction k arbitrary: i t) (auto intro!: keep simp: pipewrite_end_def)
  have r: "fkeep s t \<Longrightarrow> keep2 (piperead_loop k a addr i t) s" for k i t
    by (induction k arbitrary: i t) (auto intro!: keep simp: piperead_end_def Let_def split: prod.splits)
  show "fkeep s t \<Longrightarrow> keep1 (pipeclose a wr t) s" "fkeep s t \<Longrightarrow> keep2 (pipewrite a addr n t) s" "fkeep s t \<Longrightarrow> keep2 (piperead a addr n t) s"
    by (auto intro!: keep w r simp: pipeclose_def pipewrite_def piperead_def piperead_locked_def)
qed

lemma put_inode_keep [keep]: "fkeep s t \<Longrightarrow> keep1 (put_inode ip t) s"
  by (auto intro!: keep simp: put_inode_def split: option.splits)

lemma filewrite_loop_keep [keep]: "fkeep s t \<Longrightarrow> keep2 (filewrite_loop f addr n i t) s"
proof (induction "nat (n - i)" arbitrary: i t rule: less_induct)
  case less
  show ?case using less(2)
    by (subst filewrite_loop.simps)
      (auto intro!: keep less(1) simp: filewrite_step_def Let_def filewrite_max_def MAXOPBLOCKS_def BSIZE_def split: option.splits)
qed

lemma file_keep [keep]:
  "fkeep s t \<Longrightarrow> keep2 (filestat f addr t) s" "fkeep s t \<Longrightarrow> keep2 (fileread f addr n t) s" "fkeep s t \<Longrightarrow> keep2 (filewrite f addr n t) s"
  by (auto intro!: keep simp: filestat_def fileread_def filewrite_def Let_def split: option.splits fdtype.splits)

section \<open>System calls\<close>

lemma arg_keep [keep]: "fkeep s t \<Longrightarrow> keep2 (argpath n t) s" "fkeep s t \<Longrightarrow> keep2 (fetchaddr a t) s" "fkeep s t \<Longrightarrow> keep2 (fetchstr a m t) s"
  by (auto intro!: keep simp: argpath_def argstr_def fetchstr_def fetchaddr_def)

lemma create_keep [keep]: "fkeep s t \<Longrightarrow> keep2 (create path ty ma mi t) s"
  by (auto intro!: keep simp: create_def Let_def split: option.splits)

lemma open_inode_keep [keep]: "fkeep s t \<Longrightarrow> keep2 (open_inode path om t) s"
  by (auto intro!: keep simp: open_inode_def split: option.splits)

lemma isdirempty_keep [keep]: "fkeep s t \<Longrightarrow> keep2 (isdirempty dp t) s"
proof -
  have "fkeep s t \<Longrightarrow> keep2 (isdirempty_loop k off dp t) s" for k off t
    by (induction k arbitrary: off t) (auto intro!: keep)
  then show "fkeep s t \<Longrightarrow> keep2 (isdirempty dp t) s" unfolding isdirempty_def by blast
qed

lemma sys_rw_keep [keep]: "fkeep s t \<Longrightarrow> keep2 (sys_read t) s" "fkeep s t \<Longrightarrow> keep2 (sys_write t) s" "fkeep s t \<Longrightarrow> keep2 (sys_fstat t) s"
  by (auto intro!: keep simp: sys_read_def sys_write_def sys_fstat_def split: option.splits)

lemma sys_link_keep [keep]: "fkeep s t \<Longrightarrow> keep2 (sys_link t) s"
  by (auto intro!: keep simp: sys_link_def Let_def split: option.splits)

lemma sys_unlink_keep [keep]: "fkeep s t \<Longrightarrow> keep2 (sys_unlink t) s"
  by (auto intro!: keep simp: sys_unlink_def Let_def split: option.splits)

lemma sys_dir_keep [keep]: "fkeep s t \<Longrightarrow> keep2 (sys_mkdir t) s" "fkeep s t \<Longrightarrow> keep2 (sys_mknod t) s" "fkeep s t \<Longrightarrow> keep2 (sys_chdir t) s"
  by (auto intro!: keep simp: sys_mkdir_def sys_mknod_def sys_chdir_def Let_def split: option.splits)

section \<open>Processes\<close>

lemma reparent_keep [keep]: "fkeep s t \<Longrightarrow> keep1 (reparent p t) s"
proof -
  have "fkeep s t \<Longrightarrow> keep1 (reparent_loop k i p t) s" for k i t
  proof (induction k arbitrary: i t)
    case (Suc k)
    then show ?case by (auto intro!: keep Suc.IH simp: Let_def split: option.splits)
  qed (simp add: keeps_Inr)
  then show "fkeep s t \<Longrightarrow> keep1 (reparent p t) s" unfolding reparent_def by blast
qed

text \<open>A slot that is idle may be released.\<close>

lemma fkeep_idle: "fkeep s t \<Longrightarrow> idle (procs s p) \<Longrightarrow> (\<And>r. ofile (f r) = ofile r) \<Longrightarrow> fkeep s (updp p f t)"
  by (auto simp: fkeep_def updp_def)

lemma freeproc_keep [keep]: "fkeep s t \<Longrightarrow> idle (procs s p) \<Longrightarrow> keep1 (freeproc p t) s"
  by (auto intro!: keep_binds keep_bind1 keep_bind2 mem_keep vm_keep keeps_Inr keeps_Inl fkeep_idle simp: freeproc_def Let_def)

lemma allocpid_keep [keep]: "fkeep s t \<Longrightarrow> keep2 (allocpid t) s"
  by (auto intro!: keep simp: allocpid_def Let_def)

lemma allocproc_find_keep:
  "fkeep s t \<Longrightarrow> allocproc_find k i t = Inr (r, u) \<Longrightarrow> fkeep s u \<and> (\<forall>p. r = Some p \<longrightarrow> idle (procs s p) \<and> p < i + k \<and> i \<le> p)"
proof (induction k arbitrary: i t)
  case (Suc k)
  from Suc.prems(2) obtain t1 where a: "acquire_lk (ProcLock i) t = Inr t1" by (auto simp: bindr_eq_Inr)
  with Suc.prems(1) have k1: "fkeep s t1" using lk_keep(1) [OF Suc.prems(1)] by (auto simp: keeps_def)
  show ?case
  proof (cases "pstate (procs t1 i) = UNUSED")
    case True
    then have "idle (procs s i)" using k1 by (simp add: fkeep_def idle_def)
    then show ?thesis using Suc.prems(2) a k1 True by auto
  next
    case False
    then obtain t2 where r: "release_lk (ProcLock i) t1 = Inr t2" and n: "allocproc_find k (i + 1) t2 = Inr (r, u)"
      using Suc.prems(2) a by (auto simp: bindr_eq_Inr)
    have "fkeep s t2" using lk_keep(2) [OF k1] r by (auto simp: keeps_def)
    from Suc.IH [OF this n] show ?thesis by auto
  qed
qed simp

lemma allocproc_body_keep:
  assumes "fkeep s t" "idle (procs s p)"
  shows "keep2 (bindr (allocpid t) (\<lambda>(n, s2).
       let s3 = updp p (\<lambda>r. r\<lparr>pid := n, priority := 10, pstate := USED\<rparr>) s2;
           fail = (\<lambda>t. bindr (freeproc p t) (\<lambda>t1. bindr (release_lk (ProcLock p) t1) (\<lambda>t2. Inr (None, t2))))
       in bindr (kalloc s3) (\<lambda>(tf, s4).
          let s5 = updp p (\<lambda>r. r\<lparr>trapframe := tf\<rparr>) s4 in
          if tf = 0 then fail s5
          else bindr (proc_pagetable p s5) (\<lambda>(pt, s6).
            let s7 = updp p (\<lambda>r. r\<lparr>pagetable := pt\<rparr>) s6 in
            if pt = 0 then fail s7
            else Inr (Some p, updp p (\<lambda>r. r\<lparr>ctx := \<lparr>ra = forkret_addr s7,
              sp = kstack (procs s7 p) + PGSIZE, callee_saved = replicate 12 0\<rparr>\<rparr>) s7))))) s"
  using assms by (auto intro!: keep_binds keep_bind1 keep_bind2 mem_keep vm_keep lk_keep keeps_Inr keeps_Inl freeproc_keep allocpid_keep fkeep_idle simp: Let_def)

lemma allocproc_ok:
  assumes "fkeep s t" "allocproc t = Inr (r, u)"
  shows "fkeep s u \<and> (\<forall>p. r = Some p \<longrightarrow> p < NPROC \<and> idle (procs s p))"
proof -
  obtain found t1 where f: "allocproc_find NPROC 0 t = Inr (found, t1)" using assms(2) by (auto simp: allocproc_def bindr_eq_Inr)
  note F = allocproc_find_keep [OF assms(1) f]
  show ?thesis
  proof (cases found)
    case None
    then show ?thesis using F f assms(2) by (auto simp: allocproc_def)
  next
    case (Some p)
    then have p: "idle (procs s p)" "p < NPROC" "fkeep s t1" using F by auto
    have "fkeep s u" using allocproc_body_keep [OF p(3,1)] assms(2) f Some by (auto simp: keeps_def allocproc_def)
    moreover have "r = None \<or> r = Some p" using assms(2) f Some by (auto simp: allocproc_def bindr_eq_Inr Let_def split: if_splits)
    ultimately show ?thesis using p by auto
  qed
qed

lemma wait_keep [keep]: "fkeep s t \<Longrightarrow> keep2 (wait a t) s"
proof -
  have z: "idle (procs s i)" if "fkeep s t" "pstate (procs t i) = ZOMBIE" for t i
    using that by (simp add: fkeep_def idle_def)
  have "fkeep s t \<Longrightarrow> keep2 (wait_scan k i p a h t) s" for k i p h t
    by (induction k arbitrary: i h t) (auto intro!: keep simp: Let_def, (rule z, assumption, assumption)+)
  then show "fkeep s t \<Longrightarrow> keep2 (wait a t) s" by (auto intro!: keep simp: wait_def wait_round_def split: option.splits)
qed

end
