(* ===== verification/Fdtab.thy ===== *)
theory Fdtab
  imports Frames
begin

text \<open>
  The table of open files and the descriptors of the processes (\<open>kernel/file.c\<close>, \<open>kernel/sysfile.c\<close>, \<open>fork\<close> and \<open>exit\<close> of
  \<open>kernel/proc.c\<close>) as one typed store: the reference count of a file is the number of descriptors for it, and a file in use has a
  type and what goes with it. \<open>fd_ok p Y X ex\<close> is this in the middle of a call by process \<open>p\<close>: \<open>ex\<close> has the references that the kernel
  holds beside the descriptors (negative if a descriptor is not counted yet), \<open>X\<close> the new files that have no type yet, \<open>Y\<close> the slots of
  children being made.
\<close>

section \<open>References\<close>

definition frefs :: "'a flst_scheme \<Rightarrow> nat \<Rightarrow> int" where
  "frefs s f = int (\<Sum>p<NPROC. count_list (ofile (procs s p)) (Some f))"

lemma count_list_update: "i < length xs \<Longrightarrow> int (count_list (xs[i := v]) x) = int (count_list xs x) - of_bool (xs ! i = x) + of_bool (v = x)"
proof (induction xs arbitrary: i)
  case (Cons y xs)
  then show ?case by (cases i) auto
qed simp

lemma frefs_set_ofile:
  assumes "p < NPROC" "fd < length (ofile (procs s p))"
  shows "frefs (set_ofile p fd v s) f = frefs s f - of_bool (ofile (procs s p) ! fd = Some f) + of_bool (v = Some f)"
proof -
  let ?c = "\<lambda>s q. int (count_list (ofile (procs s q)) (Some f))"
  let ?t = "set_ofile p fd v s"
  have o: "(\<Sum>q \<in> {..<NPROC} - {p}. ?c ?t q) = (\<Sum>q \<in> {..<NPROC} - {p}. ?c s q)"
    by (rule sum.cong) (auto simp: set_ofile_def updp_def)
  have "frefs ?t f = ?c ?t p + (\<Sum>q \<in> {..<NPROC} - {p}. ?c ?t q)" "frefs s f = ?c s p + (\<Sum>q \<in> {..<NPROC} - {p}. ?c s q)"
    using assms(1) by (simp_all add: frefs_def sum.remove)
  moreover have "?c ?t p = ?c s p - of_bool (ofile (procs s p) ! fd = Some f) + of_bool (v = Some f)"
    using count_list_update [OF assms(2)] by (simp add: set_ofile_def updp_def)
  ultimately show ?thesis using o by simp
qed

lemma frefs_cong: "(\<And>p. ofile (procs t p) = ofile (procs s p)) \<Longrightarrow> frefs t f = frefs s f"
  by (simp add: frefs_def)

lemma frefs_nonneg [simp]: "0 \<le> frefs s f"
  by (simp only: frefs_def of_nat_0_le_iff)

lemma frefs_pos:
  assumes "p < NPROC" "Some f \<in> set (ofile (procs s p))"
  shows "0 < frefs s f"
proof -
  have "0 < count_list (ofile (procs s p)) (Some f)" using assms(2) by (metis count_list_0_iff gr0I)
  also have "\<dots> \<le> (\<Sum>p<NPROC. count_list (ofile (procs s p)) (Some f))"
    using assms(1) member_le_sum [of p "{..<NPROC}" "\<lambda>p. count_list (ofile (procs s p)) (Some f)"] by simp
  finally show ?thesis unfolding frefs_def by linarith
qed

section \<open>The invariant\<close>

definition file_typed :: "file_t \<Rightarrow> bool" where
  "file_typed r \<longleftrightarrow> f_type r \<noteq> FD_NONE \<and> (f_type r = FD_PIPE \<longrightarrow> f_pipe r \<noteq> 0) \<and> (f_type r = FD_INODE \<or> f_type r = FD_DEVICE \<longrightarrow> f_ip r \<noteq> None)"

definition fds_wf :: "nat set \<Rightarrow> 'a flst_scheme \<Rightarrow> bool" where
  "fds_wf Y s \<longleftrightarrow>
     (\<forall>p<NPROC. length (ofile (procs s p)) = NOFILE \<and> (\<forall>f. Some f \<in> set (ofile (procs s p)) \<longrightarrow> f < NFILE) \<and>
        (idle (procs s p) \<and> p \<notin> Y \<longrightarrow> set (ofile (procs s p)) \<subseteq> {None}))"

definition fd_ok :: "nat \<Rightarrow> nat set \<Rightarrow> nat set \<Rightarrow> (nat \<Rightarrow> int) \<Rightarrow> 'a flst_scheme \<Rightarrow> bool" where
  "fd_ok p Y X ex s \<longleftrightarrow>
     cur s = Some p \<and> p < NPROC \<and> \<not> idle (procs s p) \<and> fds_wf Y s \<and>
     (\<forall>f<NFILE. f_ref (ftable s f) = frefs s f + ex f) \<and>
     (\<forall>f<NFILE. if f \<in> X then f_ref (ftable s f) = 1 else 0 < f_ref (ftable s f) \<longrightarrow> file_typed (ftable s f))"

lemma fkeep_core:
  assumes "fkeep s t"
  shows "f_ref (ftable t f) = f_ref (ftable s f)" "file_typed (ftable t f) = file_typed (ftable s f)" "f_type (ftable t f) = f_type (ftable s f)"
proof -
  have e: "(ftable t f)\<lparr>f_off := 0\<rparr> = (ftable s f)\<lparr>f_off := 0\<rparr>" using assms by (simp add: fkeep_def)
  show "f_ref (ftable t f) = f_ref (ftable s f)" "f_type (ftable t f) = f_type (ftable s f)"
    using arg_cong [OF e, of f_ref] arg_cong [OF e, of f_type] by simp_all
  then show "file_typed (ftable t f) = file_typed (ftable s f)"
    using arg_cong [OF e, of f_pipe] arg_cong [OF e, of f_ip] by (simp add: file_typed_def)
qed

lemma fd_ok_keep:
  assumes "fd_ok p Y X ex s" "fkeep s t"
  shows "fd_ok p Y X ex t"
proof -
  have o: "ofile (procs t q) = ofile (procs s q)" "idle (procs t q) \<Longrightarrow> idle (procs s q)" "cur t = cur s" for q
    using assms(2) by (auto simp: fkeep_def)
  have "frefs t f = frefs s f" for f by (rule frefs_cong) (rule o)
  then show ?thesis using assms(1) o by (auto simp: fd_ok_def fds_wf_def fkeep_core [OF assms(2)])
qed

section \<open>The operations on files\<close>

lemma fds_cong: "procs t = procs s \<Longrightarrow> fds_wf Y t = fds_wf Y s" "procs t = procs s \<Longrightarrow> frefs t f = frefs s f"
  by (simp_all add: fds_wf_def frefs_def)

lemma fds_updf [simp]: "fds_wf Y (updf f h s) = fds_wf Y s" "frefs (updf f h s) g = frefs s g" "cur (updf f h s) = cur s" "procs (updf f h s) = procs s"
  "ftable (updf f h s) g = (if g = f then h (ftable s f) else ftable s g)"
  by (rule fds_cong, simp add: updf_def)+ (simp_all add: updf_def)

lemma fd_ok_updf:
  assumes "fd_ok p Y X ex s" "f < NFILE" "f_ref (h (ftable s f)) = f_ref (ftable s f) + d" "\<And>g. g \<noteq> f \<Longrightarrow> g \<in> X' \<longleftrightarrow> g \<in> X"
    "if f \<in> X' then f_ref (h (ftable s f)) = 1 else 0 < f_ref (h (ftable s f)) \<longrightarrow> file_typed (h (ftable s f))"
  shows "fd_ok p Y X' (ex(f := ex f + d)) (updf f h s)"
  using assms by (auto simp: fd_ok_def)

lemma fd_ok_lk:
  assumes "acquire_lk l s = Inr t \<or> release_lk l s = Inr t"
  shows "fd_ok p Y X ex t = fd_ok p Y X ex s" "ftable t = ftable s" "procs t = procs s" "cur t = cur s"
proof -
  show e: "ftable t = ftable s" "procs t = procs s" "cur t = cur s"
    using assms by (auto simp: acquire_lk_def release_lk_def split: if_splits)
  show "fd_ok p Y X ex t = fd_ok p Y X ex s" by (simp add: fd_ok_def e fds_cong [OF e(2)])
qed

lemmas fd_acq = fd_ok_lk [OF disjI1]

lemmas fd_rel = fd_ok_lk [OF disjI2]

lemma fd_ok_keepD:
  "keep1 m s \<Longrightarrow> m = Inr t \<Longrightarrow> fd_ok p Y X ex s \<Longrightarrow> fd_ok p Y X ex t"
  "keep2 m' s \<Longrightarrow> m' = Inr (r, t) \<Longrightarrow> fd_ok p Y X ex s \<Longrightarrow> fd_ok p Y X ex t"
  by (auto simp: keeps_def intro: fd_ok_keep)

lemma zero_upd [simp]: "(\<lambda>_. 0)(f := 0) = (\<lambda>_. 0 :: int)"
  by auto

lemma filealloc_ok:
  assumes "fd_ok p Y X ex s" "filealloc s = Inr (r, t)" "\<And>f. 0 \<le> ex f"
  shows "case r of None \<Rightarrow> fd_ok p Y X ex t
    | Some f \<Rightarrow> f < NFILE \<and> ex f = 0 \<and> f \<notin> X \<and> fd_ok p Y (insert f X) (ex(f := 1)) t"
proof -
  obtain s1 where a: "acquire_lk FtableLock s = Inr s1" using assms(2) by (auto simp: filealloc_def bindr_eq_Inr)
  then have k: "fd_ok p Y X ex s1" using assms(1) by (simp add: fd_acq)
  show ?thesis
  proof (cases "scan (\<lambda>i. f_ref (ftable s1 i) = 0) 0 NFILE")
    case None
    then have "r = None" "release_lk FtableLock s1 = Inr t" using assms(2) a by (auto simp: filealloc_def bindr_eq_Inr)
    then show ?thesis using k by (simp add: fd_rel)
  next
    case (Some f)
    have f: "f < NFILE" "f_ref (ftable s1 f) = 0" using scan_SomeD [OF Some] by auto
    let ?u = "updf f (\<lambda>r. r\<lparr>f_ref := 1\<rparr>) s1"
    have "f_ref (ftable s1 f) = frefs s1 f + ex f" "f \<notin> X" using k f by (auto simp: fd_ok_def)
    then have e: "ex f = 0" "f \<notin> X" using f assms(3) [of f] frefs_nonneg [of s1 f] by linarith+
    have "fd_ok p Y (insert f X) (ex(f := ex f + 1)) ?u"
      by (rule fd_ok_updf [OF k]) (use f in auto)
    moreover have "r = Some f" "release_lk FtableLock ?u = Inr t" using assms(2) a Some by (auto simp: filealloc_def bindr_eq_Inr)
    ultimately show ?thesis using f e by (simp add: fd_rel)
  qed
qed

lemma filedup_ok:
  assumes "fd_ok p Y X ex s" "filedup f s = Inr (r, t)" "f < NFILE" "f \<notin> X"
  shows "r = f \<and> fd_ok p Y X (ex(f := ex f + 1)) t \<and> procs t = procs s"
proof -
  obtain s1 where a: "acquire_lk FtableLock s = Inr s1" using assms(2) by (auto simp: filedup_def bindr_eq_Inr)
  then have k: "fd_ok p Y X ex s1" using assms(1) by (simp add: fd_acq)
  let ?u = "updf f (\<lambda>r. r\<lparr>f_ref := f_ref r + 1\<rparr>) s1"
  have g: "\<not> f_ref (ftable s1 f) < 1" using assms(2) a by (auto simp: filedup_def)
  have "file_typed (ftable s1 f)" using k assms(3,4) g by (auto simp: fd_ok_def)
  then have "fd_ok p Y X (ex(f := ex f + 1)) ?u"
    by (intro fd_ok_updf [OF k assms(3)]) (use assms(4) in \<open>auto simp: file_typed_def\<close>)
  moreover have "r = f" "release_lk FtableLock ?u = Inr t" using assms(2) a g by (auto simp: filedup_def bindr_eq_Inr)
  ultimately show ?thesis using fd_acq(3) [OF a] by (simp add: fd_rel)
qed

text \<open>A reference is given back; the last one empties the slot.\<close>

lemma fileclose_ok:
  assumes "fd_ok p Y X ex s" "fileclose f s = Inr t" "f < NFILE"
  shows "fd_ok p Y (X - {f}) (ex(f := ex f - 1)) t" "ofile (procs t q) = ofile (procs s q)"
proof -
  obtain s1 where a: "acquire_lk FtableLock s = Inr s1" using assms(2) by (cases "acquire_lk FtableLock s") (simp_all add: fileclose_def)
  then have k: "fd_ok p Y X ex s1" using assms(1) by (simp add: fd_acq)
  let ?d = "updf f (\<lambda>r. r\<lparr>f_ref := f_ref r - 1\<rparr>) s1"
  let ?z = "updf f (\<lambda>r. r\<lparr>f_ref := 0, f_type := FD_NONE\<rparr>) ?d"
  let ?ex = "ex(f := ex f + - 1)"
  let ?fin = "\<lambda>s3. case f_type (ftable ?d f) of
           FD_PIPE \<Rightarrow> pipeclose (f_pipe (ftable ?d f)) (f_writable (ftable ?d f)) s3
         | FD_INODE \<Rightarrow> put_inode (f_ip (ftable ?d f)) s3
         | FD_DEVICE \<Rightarrow> put_inode (f_ip (ftable ?d f)) s3
         | FD_NONE \<Rightarrow> Inr s3"
  have g: "\<not> f_ref (ftable s1 f) < 1" using assms(2) a by (cases "f_ref (ftable s1 f) < 1") (simp_all add: fileclose_def)
  have body: "(if f_ref (ftable ?d f) > 0 then release_lk FtableLock ?d else bindr (release_lk FtableLock ?z) ?fin) = Inr t"
    using assms(2) a g unfolding fileclose_def Let_def by (simp only: bindr.simps if_False)
  have "f_ref (ftable s1 f) = 1 \<or> file_typed (ftable s1 f)" using k assms(3) g by (auto simp: fd_ok_def split: if_splits)
  then have d: "fd_ok p Y (X - {f}) ?ex ?d" by (intro fd_ok_updf [OF k assms(3)]) (auto simp: file_typed_def)
  have "fd_ok p Y (X - {f}) ?ex t \<and> ofile (procs t q) = ofile (procs s q)"
  proof (cases "f_ref (ftable ?d f) > 0")
    case True
    then have "release_lk FtableLock ?d = Inr t" using body by (simp only: if_True)
    then show ?thesis using d fd_acq(3) [OF a] by (simp add: fd_rel)
  next
    case False
    then have one: "f_ref (ftable s1 f) = 1" using g by simp
    have z: "fd_ok p Y (X - {f}) (?ex(f := ?ex f + 0)) ?z" by (rule fd_ok_updf [OF d assms(3)]) (use one in auto)
    obtain s3 where r: "release_lk FtableLock ?z = Inr s3" "?fin s3 = Inr t"
      using body False by (simp only: if_False bindr_eq_Inr) blast
    have s3: "fd_ok p Y (X - {f}) ?ex s3" using z fd_rel(1) [OF r(1)] by simp
    have "keep1 (?fin s3) s3" by (auto intro!: keep split: fdtype.splits)
    then have "fkeep s3 t" using r(2) by (simp add: keeps_def)
    then show ?thesis using fd_ok_keep [OF s3] fd_acq(3) [OF a] fd_rel(3) [OF r(1)] by (simp add: fkeep_def)
  qed
  then show "fd_ok p Y (X - {f}) (ex(f := ex f - 1)) t" "ofile (procs t q) = ofile (procs s q)" by simp_all
qed

section \<open>Descriptors\<close>

lemma fd_ok_set:
  assumes "fd_ok p Y X ex s" "q < NPROC" "fd < NOFILE" "v = None \<or> (\<exists>g<NFILE. v = Some g) \<and> (q \<in> Y \<or> \<not> idle (procs s q))"
  shows "fd_ok p Y X (\<lambda>f. ex f + of_bool (ofile (procs s q) ! fd = Some f) - of_bool (v = Some f)) (set_ofile q fd v s)"
proof -
  let ?t = "set_ofile q fd v s"
  have w: "fds_wf Y s" and l: "fd < length (ofile (procs s q))" using assms by (auto simp: fd_ok_def fds_wf_def)
  have k: "ftable ?t = ftable s" "cur ?t = cur s" "idle (procs ?t r) = idle (procs s r)" for r
    by (simp_all add: set_ofile_def updp_def idle_def)
  have "set ((ofile (procs s q))[fd := v]) \<subseteq> insert v (set (ofile (procs s q)))" by (rule set_update_subset_insert)
  then have "fds_wf Y ?t" using w assms(2,4) unfolding fds_wf_def k by (auto simp: set_ofile_def updp_def) 
  then show ?thesis using assms(1) by (auto simp: fd_ok_def k frefs_set_ofile [OF assms(2) l])
qed

lemma fd_ok_clear:
  assumes "fd_ok p Y X ex s" "q < NPROC" "fd < NOFILE" "ofile (procs s q) ! fd = Some f"
  shows "fd_ok p Y X (ex(f := ex f + 1)) (set_ofile q fd None s)"
proof -
  have "(\<lambda>g. ex g + of_bool (ofile (procs s q) ! fd = Some g) - of_bool (None = Some g)) = ex(f := ex f + 1)" using assms(4) by auto
  then show ?thesis using fd_ok_set [OF assms(1-3), of None] by simp
qed

lemma fd_ok_fill:
  assumes "fd_ok p Y X ex s" "q < NPROC" "fd < NOFILE" "ofile (procs s q) ! fd = None" "f < NFILE" "q \<in> Y \<or> \<not> idle (procs s q)"
  shows "fd_ok p Y X (ex(f := ex f - 1)) (set_ofile q fd (Some f) s)"
proof -
  have "(\<lambda>g. ex g + of_bool (ofile (procs s q) ! fd = Some g) - of_bool (Some f = Some g)) = ex(f := ex f - 1)" using assms(4) by auto
  then show ?thesis using fd_ok_set [OF assms(1-3), of "Some f"] assms(5,6) by simp
qed

lemma fdalloc_ok:
  assumes "fd_ok p Y X ex s" "fdalloc f s = Inr (r, t)" "f < NFILE"
  shows "case r of None \<Rightarrow> t = s
    | Some fd \<Rightarrow> fd < NOFILE \<and> ofile (procs s p) ! fd = None \<and> (\<forall>e. ofile (procs t p) ! e = (if e = fd then Some f else ofile (procs s p) ! e)) \<and> fd_ok p Y X (ex(f := ex f - 1)) t"
proof -
  have c: "cur s = Some p" "p < NPROC" "\<not> idle (procs s p)" and l: "length (ofile (procs s p)) = NOFILE"
    using assms(1) by (auto simp: fd_ok_def fds_wf_def)
  show ?thesis
  proof (cases "scan (\<lambda>fd. ofile (procs s p) ! fd = None) 0 NOFILE")
    case None
    then show ?thesis using assms(2) c by (auto simp: fdalloc_def myproc_def)
  next
    case (Some fd)
    have fd: "fd < NOFILE" "ofile (procs s p) ! fd = None" using scan_SomeD [OF Some] by auto
    have "r = Some fd" "t = set_ofile p fd (Some f) s" using assms(2) c Some by (auto simp: fdalloc_def myproc_def)
    then show ?thesis using fd_ok_fill [OF assms(1) c(2) fd assms(3)] c(3) fd l by (simp add: set_ofile_def updp_def)
  qed
qed

section \<open>System calls on descriptors\<close>

abbreviation fd_idle :: "nat \<Rightarrow> 'a flst_scheme \<Rightarrow> bool" where
  "fd_idle p s \<equiv> fd_ok p {} {} (\<lambda>_. 0) s"

lemma argfd_ok:
  assumes "fd_ok p Y X ex s" "argfd n s = Inr (Some (fd, f))"
  shows "fd < NOFILE" "f < NFILE" "ofile (procs s p) ! fd = Some f"
proof -
  have c: "cur s = Some p" "p < NPROC" and w: "fds_wf Y s" using assms(1) by (auto simp: fd_ok_def)
  show "fd < NOFILE" and o: "ofile (procs s p) ! fd = Some f"
    using assms(2) c by (auto simp: argfd_def bindr_eq_Inr myproc_def split: if_splits option.splits)
  then have "Some f \<in> set (ofile (procs s p))" using w c by (auto simp: fds_wf_def in_set_conv_nth)
  then show "f < NFILE" using w c by (auto simp: fds_wf_def)
qed

lemma sys_dup_ok:
  assumes "fd_idle p s" "sys_dup s = Inr (r, t)"
  shows "fd_idle p t"
proof -
  obtain a where a: "argfd 0 s = Inr a" using assms(2) by (auto simp: sys_dup_def bindr_eq_Inr)
  show ?thesis
  proof (cases a)
    case None
    then show ?thesis using assms a by (simp add: sys_dup_def)
  next
    case (Some af)
    obtain fd f where af: "af = (fd, f)" by fastforce
    note f = argfd_ok [OF assms(1) a [unfolded Some af]]
    obtain d s1 where d: "fdalloc f s = Inr (d, s1)" using assms(2) a by (auto simp: sys_dup_def Some af bindr_eq_Inr)
    note D = fdalloc_ok [OF assms(1) d f(2)]
    show ?thesis
    proof (cases d)
      case None
      then show ?thesis using assms a D d by (simp add: sys_dup_def Some af)
    next
      case (Some e)
      then have k: "fd_ok p {} {} ((\<lambda>_. 0)(f := - 1)) s1" using D by simp
      obtain f' where "filedup f s1 = Inr (f', t)" using assms(2) a d Some by (auto simp: sys_dup_def \<open>a = Some af\<close> af bindr_eq_Inr)
      from filedup_ok [OF k this f(2)] show ?thesis by simp
    qed
  qed
qed

lemma sys_close_ok:
  assumes "fd_idle p s" "sys_close s = Inr (r, t)"
  shows "fd_idle p t"
proof -
  have c: "cur s = Some p" "p < NPROC" using assms(1) by (auto simp: fd_ok_def)
  obtain a where a: "argfd 0 s = Inr a" using assms(2) by (auto simp: sys_close_def bindr_eq_Inr)
  show ?thesis
  proof (cases a)
    case None
    then show ?thesis using assms a by (simp add: sys_close_def)
  next
    case (Some af)
    obtain fd f where af: "af = (fd, f)" by fastforce
    note f = argfd_ok [OF assms(1) a [unfolded Some af]]
    have "fd_ok p {} {} ((\<lambda>_. 0)(f := 1)) (set_ofile p fd None s)" using fd_ok_clear [OF assms(1) c(2) f(1,3)] by simp
    moreover have "fileclose f (set_ofile p fd None s) = Inr t" using assms(2) a c by (auto simp: sys_close_def Some af bindr_eq_Inr myproc_def)
    ultimately show ?thesis using fileclose_ok f(2) by fastforce
  qed
qed

lemma fd_ok_typed:
  assumes "fd_ok p Y X ex s" "f < NFILE" "\<And>r. f_ref (h r) = f_ref r" "file_typed (h (ftable s f))"
  shows "fd_ok p Y (X - {f}) ex (updf f h s)"
  using fd_ok_updf [OF assms(1,2), where h = h and d = 0 and X' = "X - {f}"] assms(3,4) by simp

lemma close_two:
  assumes "fd_ok p {} X ((\<lambda>_. 0)(f0 := 1, f1 := 1)) s" "X \<subseteq> {f0, f1}" "fileclose f0 s = Inr s1" "fileclose f1 s1 = Inr t" "f0 < NFILE" "f1 < NFILE" "f0 \<noteq> f1"
  shows "fd_idle p t"
proof -
  let ?ex = "(\<lambda>_. 0 :: int)(f0 := 1, f1 := 1)"
  have e: "?ex(f0 := ?ex f0 - 1) = (\<lambda>_. 0)(f1 := 1)" using assms(7) by (auto simp: fun_eq_iff)
  have x: "X - {f0} - {f1} = {}" using assms(2) by auto
  have "fd_ok p {} (X - {f0}) ((\<lambda>_. 0)(f1 := 1)) s1" using fileclose_ok [OF assms(1,3,5)] by (simp only: e)
  from fileclose_ok [OF this assms(4,6)] show ?thesis by (simp add: x)
qed

lemma pipe_files_ok:
  assumes "fd_ok p {} {f1, f0} ex s" "f0 < NFILE" "f1 < NFILE" "a \<noteq> 0"
  shows "fd_ok p {} {} ex (updf f1 (\<lambda>r. r\<lparr>f_type := FD_PIPE, f_readable := False, f_writable := True, f_pipe := a\<rparr>)
    (updf f0 (\<lambda>r. r\<lparr>f_type := FD_PIPE, f_readable := True, f_writable := False, f_pipe := a\<rparr>) (updpipe a q s)))"
proof -
  have "fkeep s (updpipe a q s)" by simp
  from fd_ok_keep [OF assms(1) this]
  have "fd_ok p {} ({f1, f0} - {f0}) ex (updf f0 (\<lambda>r. r\<lparr>f_type := FD_PIPE, f_readable := True, f_writable := False, f_pipe := a\<rparr>) (updpipe a q s))"
    by (rule fd_ok_typed) (use assms in \<open>auto simp: file_typed_def\<close>)
  then have "fd_ok p {} ({f1, f0} - {f0} - {f1}) ex (updf f1 (\<lambda>r. r\<lparr>f_type := FD_PIPE, f_readable := False, f_writable := True, f_pipe := a\<rparr>)
    (updf f0 (\<lambda>r. r\<lparr>f_type := FD_PIPE, f_readable := True, f_writable := False, f_pipe := a\<rparr>) (updpipe a q s)))"
    by (rule fd_ok_typed) (use assms in \<open>auto simp: file_typed_def\<close>)
  moreover have "{f1, f0} - {f0} - {f1} = {}" by auto
  ultimately show ?thesis by simp
qed

lemma pipealloc_ok:
  assumes "fd_idle p s" "pipealloc s = Inr (r, t)"
  shows "case r of None \<Rightarrow> fd_idle p t
    | Some (f0, f1) \<Rightarrow> f0 < NFILE \<and> f1 < NFILE \<and> f0 \<noteq> f1 \<and> fd_ok p {} {} ((\<lambda>_. 0)(f0 := 1, f1 := 1)) t"
proof -
  obtain r0 s1 where a0: "filealloc s = Inr (r0, s1)" using assms(2) by (auto simp: pipealloc_def bindr_eq_Inr)
  note A0 = filealloc_ok [OF assms(1) a0]
  show ?thesis
  proof (cases r0)
    case None
    then show ?thesis using assms(2) a0 A0 by (simp add: pipealloc_def)
  next
    case r0: (Some f0)
    then have f0: "f0 < NFILE" "fd_ok p {} {f0} ((\<lambda>_. 0)(f0 := 1)) s1" using A0 by simp_all
    obtain r1 s2 where a1: "filealloc s1 = Inr (r1, s2)" using assms(2) a0 r0 by (auto simp: pipealloc_def bindr_eq_Inr)
    note A1 = filealloc_ok [OF f0(2) a1]
    show ?thesis
    proof (cases r1)
      case None
      then have "fd_ok p {} {f0} ((\<lambda>_. 0)(f0 := 1)) s2" "fileclose f0 s2 = Inr t" "r = None"
        using assms(2) a0 a1 r0 A1 by (auto simp: pipealloc_def bindr_eq_Inr)
      then show ?thesis using fileclose_ok f0(1) by fastforce
    next
      case r1: (Some f1)
      let ?ex = "(\<lambda>_. 0)(f0 := 1, f1 := 1)"
      have f1: "f1 < NFILE" "f1 \<noteq> f0" "fd_ok p {} {f1, f0} ?ex s2" using A1 r1 by (auto split: if_splits)
      obtain a s3 where ka: "kalloc s2 = Inr (a, s3)" using assms(2) a0 a1 r0 r1 by (auto simp: pipealloc_def bindr_eq_Inr)
      have s3: "fd_ok p {} {f1, f0} ?ex s3" by (rule fd_ok_keepD(2) [OF mem_keep(1) [OF fkeep_refl] ka f1(3)])
      show ?thesis
      proof (cases "a = 0")
        case True
        then show ?thesis using assms(2) a0 a1 r0 r1 ka close_two [OF s3 _ _ _ f0(1) f1(1)] f1(2) by (auto simp: pipealloc_def bindr_eq_Inr)
      next
        case False
        then show ?thesis using assms(2) a0 a1 r0 r1 ka pipe_files_ok [OF s3 f0(1) f1(1) False] f0(1) f1(1,2) by (auto simp: pipealloc_def Let_def)
      qed
    qed
  qed
qed

lemma close_both_ok:
  assumes "fd_ok p {} {} ((\<lambda>_. 0)(f0 := 1, f1 := 1)) s" "bindr (fileclose f0 s) (\<lambda>t1. bindr (fileclose f1 t1) (\<lambda>t2. Inr (- 1, t2))) = Inr (r, t)"
    "f0 < NFILE" "f1 < NFILE" "f0 \<noteq> f1"
  shows "fd_idle p t"
  using assms(2) close_two [OF assms(1) _ _ _ assms(3-5)] by (auto simp: bindr_eq_Inr)

lemma pipe_copy_ok:
  assumes "fd_idle p s" "d0 < NOFILE" "d1 < NOFILE" "d0 \<noteq> d1" "ofile (procs s p) ! d0 = Some f0" "ofile (procs s p) ! d1 = Some f1" "f0 < NFILE" "f1 < NFILE" "f0 \<noteq> f1"
    "bindr (copyout (pagetable (procs s p)) a (le_bytes 4 d0) s) (\<lambda>(r0, s4).
     bindr (if r0 < 0 then Inr (r0, s4) else copyout (pagetable (procs s4 p)) (a + 4) (le_bytes 4 d1) s4) (\<lambda>(r1, s5).
     if r1 < 0 then bindr (fileclose f0 (set_ofile p d1 None (set_ofile p d0 None s5))) (\<lambda>t1. bindr (fileclose f1 t1) (\<lambda>t2. Inr (- 1, t2))) else Inr (0, s5))) = Inr (r, t)"
  shows "fd_idle p t"
proof -
  have p: "p < NPROC" and l: "length (ofile (procs s p)) = NOFILE" using assms(1) by (auto simp: fd_ok_def fds_wf_def)
  obtain r0 s4 where c0: "copyout (pagetable (procs s p)) a (le_bytes 4 d0) s = Inr (r0, s4)" using assms(10) by (auto simp: bindr_eq_Inr)
  have "keep2 (copyout (pagetable (procs s p)) a (le_bytes 4 d0) s) s" by (rule mem_keep(3) [OF fkeep_refl])
  with c0 have k4: "fkeep s s4" by (simp add: keeps_def)
  obtain r1 s5 where c1: "(if r0 < 0 then Inr (r0, s4) else copyout (pagetable (procs s4 p)) (a + 4) (le_bytes 4 d1) s4) = Inr (r1, s5)"
    using assms(10) c0 by (auto simp: bindr_eq_Inr)
  have k5: "fkeep s s5"
  proof (cases "r0 < 0")
    case False
    then show ?thesis using c1 mem_keep(3) [OF k4] by (auto simp: keeps_def)
  qed (use c1 k4 in auto)
  then have s5: "fd_idle p s5" "ofile (procs s5 p) = ofile (procs s p)" using fd_ok_keep [OF assms(1)] by (auto simp: fkeep_def)
  let ?u = "set_ofile p d1 None (set_ofile p d0 None s5)"
  have "fd_ok p {} {} ((\<lambda>_. 0)(f0 := 1)) (set_ofile p d0 None s5)" using fd_ok_clear [OF s5(1) p assms(2)] s5(2) assms(5) by simp
  from fd_ok_clear [OF this p assms(3), of f1] have "fd_ok p {} {} ((\<lambda>_. 0)(f0 := 1, f1 := 1)) ?u"
    using s5(2) assms(4,6,9) by (simp add: set_ofile_def updp_def)
  from close_both_ok [OF this _ assms(7-9)] show ?thesis using assms(10) c0 c1 s5(1) by (cases "r1 < 0") simp_all
qed

lemma sys_pipe_ok:
  assumes "fd_idle p s" "sys_pipe s = Inr (r, t)"
  shows "fd_idle p t"
proof -
  have c: "cur s = Some p" "p < NPROC" using assms(1) by (auto simp: fd_ok_def)
  obtain fa fs s1 where pa: "argaddr 0 s = Inr fa" "pipealloc s = Inr (fs, s1)" using assms(2) by (auto simp: sys_pipe_def bindr_eq_Inr)
  note P = pipealloc_ok [OF assms(1) pa(2)]
  show ?thesis
  proof (cases fs)
    case None
    then show ?thesis using assms(2) pa c P by (auto simp: sys_pipe_def myproc_def)
  next
    case (Some ff)
    then obtain f0 f1 where fs: "fs = Some (f0, f1)" by (cases ff) auto
    let ?ex = "(\<lambda>_. 0 :: int)(f0 := 1, f1 := 1)"
    have f: "f0 < NFILE" "f1 < NFILE" "f0 \<noteq> f1" and s1: "fd_ok p {} {} ?ex s1" using P fs by auto
    have e: "?ex(f0 := ?ex f0 - 1) = (\<lambda>_. 0)(f1 := 1)" "((\<lambda>_. 0 :: int)(f1 := 1))(f0 := 1) = ?ex" using f(3) by (auto simp: fun_eq_iff)
    obtain r0 s2 where a0: "fdalloc f0 s1 = Inr (r0, s2)" using assms(2) pa c fs by (auto simp: sys_pipe_def myproc_def bindr_eq_Inr Let_def)
    note A0 = fdalloc_ok [OF s1 a0 f(1)]
    show ?thesis
    proof (cases r0)
      case None
      then show ?thesis using assms(2) pa c fs a0 A0 close_both_ok [OF s1 _ f] by (simp add: sys_pipe_def myproc_def Let_def)
    next
      case r0: (Some d0)
      then have d0: "d0 < NOFILE" "ofile (procs s2 p) ! d0 = Some f0" and s2: "fd_ok p {} {} ((\<lambda>_. 0)(f1 := 1)) s2" using A0 e by simp_all
      obtain r1 s3 where a1: "fdalloc f1 s2 = Inr (r1, s3)" using assms(2) pa c fs a0 r0 by (auto simp: sys_pipe_def myproc_def bindr_eq_Inr Let_def)
      note A1 = fdalloc_ok [OF s2 a1 f(2)]
      show ?thesis
      proof (cases r1)
        case None
        have "fd_ok p {} {} ?ex (set_ofile p d0 None s2)" using fd_ok_clear [OF s2 c(2) d0] f(3) by (simp add: e)
        then show ?thesis using assms(2) pa c fs a0 r0 a1 None A1 close_both_ok [OF _ _ f] by (simp add: sys_pipe_def myproc_def Let_def)
      next
        case r1: (Some d1)
        then have d1: "d1 < NOFILE" "d1 \<noteq> d0" "ofile (procs s3 p) ! d1 = Some f1" "ofile (procs s3 p) ! d0 = Some f0" "fd_idle p s3"
          using A1 d0 by auto
        from pipe_copy_ok [OF d1(5) d0(1) d1(1) _ d1(4,3) f] show ?thesis
          using assms(2) pa c fs a0 r0 a1 r1 d1(2) by (auto simp: sys_pipe_def myproc_def Let_def)
      qed
    qed
  qed
qed

lemma open_file_ok:
  assumes "fd_idle p s" "open_file ip om s = Inr (r, t)"
  shows "fd_idle p t"
proof -
  obtain r0 s1 where a0: "filealloc s = Inr (r0, s1)" using assms(2) by (auto simp: open_file_def bindr_eq_Inr Let_def)
  note A0 = filealloc_ok [OF assms(1) a0]
  have fail: "keep2 (bindr (iunlockput (Some ip) u) (end_with (- 1))) u" for u :: "'a flst_scheme" by (auto intro!: keep)
  show ?thesis
  proof (cases r0)
    case None
    then show ?thesis using assms(2) a0 A0 fd_ok_keepD(2) [OF fail] by (auto simp: open_file_def)
  next
    case r0: (Some f)
    then have f: "f < NFILE" "fd_ok p {} {f} ((\<lambda>_. 0)(f := 1)) s1" using A0 by simp_all
    obtain r1 s2 where a1: "fdalloc f s1 = Inr (r1, s2)" using assms(2) a0 r0 by (auto simp: open_file_def bindr_eq_Inr Let_def)
    note A1 = fdalloc_ok [OF f(2) a1 f(1)]
    show ?thesis
    proof (cases r1)
      case None
      then obtain s3 where c: "fileclose f s1 = Inr s3" "bindr (iunlockput (Some ip) s3) (end_with (- 1)) = Inr (r, t)"
        using assms(2) a0 r0 a1 A1 by (auto simp: open_file_def bindr_eq_Inr Let_def)
      have "fd_idle p s3" using fileclose_ok [OF f(2) c(1) f(1)] by simp
      then show ?thesis by (rule fd_ok_keepD(2) [OF fail c(2)])
    next
      case r1: (Some fd)
      then have s2: "fd_ok p {} {f} (\<lambda>_. 0) s2" using A1 by simp
      define s3 where "s3 = (if i_type (itable s2 ip) = T_DEVICE
                then updf f (\<lambda>r. r\<lparr>f_type := FD_DEVICE, f_major := i_major (itable s2 ip)\<rparr>) s2
                else updf f (\<lambda>r. r\<lparr>f_type := FD_INODE, f_off := 0\<rparr>) s2)"
      define s4 where "s4 = updf f (\<lambda>r. r\<lparr>f_ip := Some ip, f_readable := (om AND O_WRONLY = 0),
                 f_writable := (om AND O_WRONLY \<noteq> 0 \<or> om AND O_RDWR \<noteq> 0)\<rparr>) s3"
      have "fd_ok p {} {f} ((\<lambda>_. 0)(f := 0 + 0)) s3" unfolding s3_def
        by (cases "i_type (itable s2 ip) = T_DEVICE") (simp_all, (rule fd_ok_updf [OF s2 f(1), where d = 0 and X' = "{f}", simplified]; use s2 f(1) in \<open>auto simp: fd_ok_def\<close>)+)
      then have "fd_ok p {} {f} (\<lambda>_. 0) s3" by simp
      then have "fd_ok p {} ({f} - {f}) (\<lambda>_. 0) s4" unfolding s4_def
        by (rule fd_ok_typed [OF _ f(1)]) (auto simp: s3_def file_typed_def)
      then have s4: "fd_idle p s4" by simp
      let ?m = "bindr (if om AND O_TRUNC \<noteq> 0 \<and> i_type (itable s4 ip) = T_FILE then itrunc ip s4 else Inr s4) (\<lambda>s5.
         bindr (iunlock (Some ip) s5) (end_with (of_nat fd)))"
      have k: "keep2 ?m s4" by (auto intro!: keep)
      have "?m = Inr (r, t)" using assms(2) unfolding open_file_def Let_def a0 a1 r0 r1 s4_def s3_def
        by (simp only: bindr.simps prod.case option.case a1 r1)
      from fd_ok_keepD(2) [OF k this s4] show ?thesis .
    qed
  qed
qed

lemma sys_open_ok:
  assumes "fd_idle p s" "sys_open s = Inr (r, t)"
  shows "fd_idle p t"
proof -
  obtain om po s1 where a: "argint 1 s = Inr om" "argpath 0 s = Inr (po, s1)" using assms(2) by (auto simp: sys_open_def bindr_eq_Inr Let_def)
  have s1: "fd_idle p s1" by (rule fd_ok_keepD(2) [OF arg_keep(1) [OF fkeep_refl] a(2) assms(1)])
  show ?thesis
  proof (cases po)
    case None
    then show ?thesis using assms(2) a s1 by (simp add: sys_open_def)
  next
    case po: (Some path)
    then obtain s2 ipo s3 where b: "begin_op s1 = Inr s2" "open_inode path (of_int om) s2 = Inr (ipo, s3)"
      using assms(2) a by (auto simp: sys_open_def bindr_eq_Inr Let_def)
    have "fd_idle p s2" by (rule fd_ok_keepD(1) [OF log_keep(1) [OF fkeep_refl] b(1) s1])
    then have s3: "fd_idle p s3" by (rule fd_ok_keepD(2) [OF open_inode_keep [OF fkeep_refl] b(2)])
    show ?thesis
    proof (cases ipo)
      case None
      then show ?thesis using assms(2) a po b s3 by (simp add: sys_open_def)
    next
      case (Some ip)
      have k: "keep2 (bindr (iunlockput (Some ip) s3) (end_with (- 1))) s3" by (auto intro!: keep)
      show ?thesis using assms(2) a po b Some fd_ok_keepD(2) [OF k _ s3] open_file_ok [OF s3] by (simp add: sys_open_def Let_def split: if_splits)
    qed
  qed
qed

section \<open>Processes\<close>

lemma close_files_ok:
  assumes "fd_idle p s" "close_files k fd p s = Inr t" "fd + k \<le> NOFILE"
  shows "fd_idle p t \<and> (\<forall>i. ofile (procs t p) ! i = (if fd \<le> i \<and> i < fd + k then None else ofile (procs s p) ! i))"
  using assms
proof (induction k arbitrary: fd s)
  case (Suc k)
  have c: "p < NPROC" and l: "length (ofile (procs s p)) = NOFILE" and w: "fds_wf {} s" using Suc.prems(1) by (auto simp: fd_ok_def fds_wf_def)
  show ?case
  proof (cases "ofile (procs s p) ! fd")
    case None
    then have i: "fd_idle p t" and o: "\<And>i. ofile (procs t p) ! i = (if fd + 1 \<le> i \<and> i < fd + 1 + k then None else ofile (procs s p) ! i)"
      using Suc.IH [of s "fd + 1"] Suc.prems by simp_all
    show ?thesis using i None by (simp add: o) (metis le_antisym not_less_eq_eq)
  next
    case (Some f)
    then obtain s1 where f: "fileclose f s = Inr s1" and r: "close_files k (fd + 1) p (set_ofile p fd None s1) = Inr t"
      using Suc.prems(2) by (auto simp: bindr_eq_Inr)
    have fd: "fd < NOFILE" using Suc.prems(3) by simp
    then have "Some f \<in> set (ofile (procs s p))" using Some l by (metis nth_mem)
    then have lt: "f < NFILE" using w c by (auto simp: fds_wf_def)
    have s1: "fd_ok p {} {} ((\<lambda>_. 0)(f := - 1)) s1" "ofile (procs s1 p) = ofile (procs s p)" using fileclose_ok [OF Suc.prems(1) f lt] by simp_all
    have "fd_ok p {} {} (((\<lambda>_. 0)(f := - 1))(f := - 1 + 1)) (set_ofile p fd None s1)"
      using fd_ok_clear [OF s1(1) c fd, of f] s1(2) Some by simp
    then have "fd_idle p (set_ofile p fd None s1)" by simp
    from Suc.IH [OF this r] Suc.prems(3) have i: "fd_idle p t" and
      o: "\<And>i. ofile (procs t p) ! i = (if fd + 1 \<le> i \<and> i < fd + 1 + k then None else (ofile (procs s p))[fd := None] ! i)"
      using s1(2) by (simp_all add: set_ofile_def updp_def)
    show ?thesis using i fd l by (simp add: o nth_list_update)
  qed
qed auto

lemma dup_files_ok:
  assumes "fd_ok p {np} {} (\<lambda>_. 0) s" "dup_files k i p np s = Inr t" "i + k \<le> NOFILE" "np < NPROC" "np \<noteq> p" "\<And>j. i \<le> j \<Longrightarrow> j < i + k \<Longrightarrow> ofile (procs s np) ! j = None"
  shows "fd_ok p {np} {} (\<lambda>_. 0) t"
  using assms
proof (induction k arbitrary: i s)
  case (Suc k)
  have c: "p < NPROC" and l: "length (ofile (procs s p)) = NOFILE" and w: "fds_wf {np} s" using Suc.prems(1) by (auto simp: fd_ok_def fds_wf_def)
  show ?case
  proof (cases "ofile (procs s p) ! i")
    case None
    then show ?thesis using Suc.IH [of s "i + 1"] Suc.prems by simp
  next
    case (Some f)
    then obtain g s1 where f: "filedup f s = Inr (g, s1)" and r: "dup_files k (i + 1) p np (set_ofile np i (Some g) s1) = Inr t"
      using Suc.prems(2) by (auto simp: bindr_eq_Inr)
    have i: "i < NOFILE" using Suc.prems(3) by simp
    then have "Some f \<in> set (ofile (procs s p))" using Some l by (metis nth_mem)
    then have lt: "f < NFILE" using w c by (auto simp: fds_wf_def)
    have s1: "g = f" "fd_ok p {np} {} ((\<lambda>_. 0)(f := 1)) s1" "procs s1 = procs s" using filedup_ok [OF Suc.prems(1) f lt] by simp_all
    have "fd_ok p {np} {} (((\<lambda>_. 0)(f := 1))(f := 1 - 1)) (set_ofile np i (Some f) s1)"
      using fd_ok_fill [OF s1(2) Suc.prems(4) i _ lt] Suc.prems(6) [of i] s1(3) by simp
    then have n: "fd_ok p {np} {} (\<lambda>_. 0) (set_ofile np i (Some g) s1)" using s1(1) by simp
    show ?thesis by (rule Suc.IH [OF n r]) (use Suc.prems s1(3) in \<open>simp_all add: set_ofile_def updp_def\<close>)
  qed
qed simp

lemma fd_ok_weaken: "fd_ok p {} X ex s \<Longrightarrow> fd_ok p Y X ex s"
  by (auto simp: fd_ok_def fds_wf_def)

lemma fd_ok_strengthen: "fd_ok p {np} X ex s \<Longrightarrow> \<not> idle (procs s np) \<Longrightarrow> fd_ok p {} X ex s"
  by (auto simp: fd_ok_def fds_wf_def)

text \<open>The end of \<open>fork\<close> makes the child runnable.\<close>

lemma fork_end_ok:
  assumes "fd_ok p {np} {} (\<lambda>_. 0) s" "bindr (acquire_lk (ProcLock np) s) (\<lambda>s12.
               let (now, s13) = r_time (updp np (\<lambda>q. q\<lparr>pstate := RUNNABLE\<rparr>) s12);
                   s14 = updp np (\<lambda>q. q\<lparr>start_time := now, wait_time := now\<rparr>) s13
               in bindr (printf (CHR 0x0A # ''FORK: PID %d FORKED AT %lu'' @ [CHR 0x0A])
                    [AInt (pid (procs s14 np)), ALong (start_time (procs s14 np))] s14) (\<lambda>s15.
                  bindr (release_lk (ProcLock np) s15) (\<lambda>s16. Inr (n, s16)))) = Inr (r, t)"
  shows "fd_idle p t"
proof -
  obtain s1 where a: "acquire_lk (ProcLock np) s = Inr s1" using assms(2) by (auto simp: bindr_eq_Inr)
  then have s1: "fd_ok p {np} {} (\<lambda>_. 0) s1" using assms(1) by (simp add: fd_acq)
  obtain now s3 where r: "r_time (updp np (\<lambda>q. q\<lparr>pstate := RUNNABLE\<rparr>) s1) = (now, s3)" by fastforce
  define s4 where "s4 = updp np (\<lambda>q. q\<lparr>start_time := now, wait_time := now\<rparr>) s3"
  have k: "fkeep s1 s4" using r by (auto intro!: keep simp: s4_def r_time_def idle_def)
  have "\<not> idle (procs s4 np)" using r by (auto simp: s4_def r_time_def updp_def idle_def)
  then have s4: "fd_idle p s4" using fd_ok_strengthen [OF fd_ok_keep [OF s1 k]] by simp
  have "keep2 (bindr (printf (CHR 0x0A # ''FORK: PID %d FORKED AT %lu'' @ [CHR 0x0A]) [AInt (pid (procs s4 np)), ALong (start_time (procs s4 np))] s4) (\<lambda>s15.
    bindr (release_lk (ProcLock np) s15) (\<lambda>s16. Inr (n, s16)))) s4" by (auto intro!: keep)
  from fd_ok_keepD(2) [OF this _ s4] show ?thesis using assms(2) a r by (simp add: s4_def Let_def)
qed

text \<open>The part of \<open>fork\<close> after the descriptors, up to that.\<close>

lemma fork_middle_ok:
  assumes "fd_ok p {np} {} (\<lambda>_. 0) s" "bindr (idup d s) (\<lambda>(ip, s7).
            let s8 = updp np (\<lambda>q. q\<lparr>cwd := Some ip, pname := name_copy (pname q) (takeWhile (\<lambda>b. b \<noteq> 0) (pname (procs s7 p)))\<rparr>) s7;
                n = pid (procs s8 np)
            in bindr (release_lk (ProcLock np) s8) (\<lambda>s9.
               bindr (acquire_lk WaitLock s9) (\<lambda>s10.
               bindr (release_lk WaitLock (updp np (\<lambda>q. q\<lparr>parent := Some p\<rparr>) s10)) (g n)))) = Inr (r, t)"
    "\<And>n u. fd_ok p {np} {} (\<lambda>_. 0) u \<Longrightarrow> g n u = Inr (r, t) \<Longrightarrow> fd_idle p t"
  shows "fd_idle p t"
proof -
  obtain ip s7 where a: "idup d s = Inr (ip, s7)" using assms(2) by (auto simp: bindr_eq_Inr)
  have k7: "fkeep s s7" by (rule keep2D [OF iget_keep(2) [OF fkeep_refl] a])
  let ?s8 = "updp np (\<lambda>q. q\<lparr>cwd := Some ip, pname := name_copy (pname q) (takeWhile (\<lambda>b. b \<noteq> 0) (pname (procs s7 p)))\<rparr>) s7"
  have k8: "fkeep s ?s8" by (auto intro!: keep k7 simp: idle_def)
  obtain s9 s10 s11 where b: "release_lk (ProcLock np) ?s8 = Inr s9" "acquire_lk WaitLock s9 = Inr s10"
      "release_lk WaitLock (updp np (\<lambda>q. q\<lparr>parent := Some p\<rparr>) s10) = Inr s11" "g (pid (procs ?s8 np)) s11 = Inr (r, t)"
    using assms(2) a by (auto simp: bindr_eq_Inr Let_def)
  have "fkeep s s9" using lk_keep(2) [OF k8] b(1) by (simp add: keeps_def)
  from lk_keep(1) [OF this] b(2) have "fkeep s s10" by (simp add: keeps_def)
  then have "fkeep s (updp np (\<lambda>q. q\<lparr>parent := Some p\<rparr>) s10)" by (auto intro!: keep)
  from lk_keep(2) [OF this] b(3) have "fkeep s s11" by (simp add: keeps_def)
  from assms(3) [OF fd_ok_keep [OF assms(1) this] b(4)] show ?thesis .
qed

lemma fork_ok:
  assumes "fd_idle p s" "fork s = Inr (r, t)"
  shows "fd_idle p t"
proof -
  have c: "cur s = Some p" "p < NPROC" "\<not> idle (procs s p)" using assms(1) by (auto simp: fd_ok_def)
  obtain po s1 where a: "allocproc s = Inr (po, s1)" using assms(2) c by (auto simp: fork_def myproc_def bindr_eq_Inr)
  note A = allocproc_ok [OF fkeep_refl a]
  show ?thesis
  proof (cases po)
    case None
    then show ?thesis using assms a c A fd_ok_keep by (auto simp: fork_def myproc_def)
  next
    case (Some np)
    then have np: "np < NPROC" "idle (procs s np)" "fkeep s s1" using A by auto
    obtain rc s2 where u: "uvmcopy (pagetable (procs s1 p)) (pagetable (procs s1 np)) (sz (procs s1 p)) s1 = Inr (rc, s2)"
      using assms(2) a c Some by (auto simp: fork_def myproc_def bindr_eq_Inr)
    have k2: "fkeep s s2" using uvmcopy_keep [OF np(3)] u by (simp add: keeps_def)
    show ?thesis
    proof (cases "rc < 0")
      case True
      have "keep2 (bindr (freeproc np s2) (\<lambda>s3. bindr (release_lk (ProcLock np) s3) (\<lambda>s4. Inr (- 1, s4)))) s"
        by (auto intro!: keep k2 np)
      from fd_ok_keepD(2) [OF this _ assms(1)] show ?thesis using assms(2) a c Some u True by (simp add: fork_def myproc_def)
    next
      case False
      let ?s3 = "updp np (\<lambda>q. q\<lparr>sz := sz (procs s2 p)\<rparr>) s2"
      define s5 where "s5 = tf_set np tf_a0 0 (?s3\<lparr>pmem := poke (trapframe (procs ?s3 np)) (peek (pmem ?s3) (trapframe (procs ?s3 p)) 288) (pmem ?s3)\<rparr>)"
      have k5: "fkeep s s5" by (auto intro!: keep k2 simp: s5_def tf_set_def idle_def)
      obtain s6 d where d: "dup_files NOFILE 0 p np s5 = Inr s6" "cwd (procs s6 p) = Some d"
        using assms(2) a c Some u False by (auto simp: fork_def myproc_def bindr_eq_Inr Let_def s5_def split: option.splits)
      have "set (ofile (procs s np)) \<subseteq> {None}" "length (ofile (procs s np)) = NOFILE" using assms(1) np by (auto simp: fd_ok_def fds_wf_def)
      then have n: "ofile (procs s5 np) ! j = None" if "j < NOFILE" for j
        using k5 that by (auto simp: fkeep_def) (metis nth_mem singletonD subsetD)
      have s6: "fd_ok p {np} {} (\<lambda>_. 0) s6"
        by (rule dup_files_ok [OF fd_ok_weaken [OF fd_ok_keep [OF assms(1) k5]] d(1)]) (use np c n in auto)
      show ?thesis
        by (rule fork_middle_ok [OF s6 _ fork_end_ok]) (use assms(2) a c Some u False d in \<open>simp_all add: fork_def myproc_def Let_def s5_def\<close>)
    qed
  qed
qed

section \<open>Every descriptor is well typed\<close>

definition fd_inv :: "'a flst_scheme \<Rightarrow> bool" where
  "fd_inv s \<longleftrightarrow> fds_wf {} s \<and> (\<forall>f<NFILE. f_ref (ftable s f) = frefs s f) \<and> (\<forall>f<NFILE. 0 < f_ref (ftable s f) \<longrightarrow> file_typed (ftable s f))"

definition running :: "nat \<Rightarrow> 'a flst_scheme \<Rightarrow> bool" where
  "running p s \<longleftrightarrow> cur s = Some p \<and> p < NPROC \<and> pstate (procs s p) = RUNNING"

lemma fd_inv_ok: "fd_inv s \<Longrightarrow> running p s \<Longrightarrow> fd_idle p s" "fd_idle p s \<Longrightarrow> fd_inv s"
  by (auto simp: fd_inv_def fd_ok_def running_def idle_def)

lemma fd_inv_cur: "fd_inv (s\<lparr>cur := c\<rparr>) = fd_inv s"
  by (simp add: fd_inv_def fds_wf_def frefs_def)

lemma fd_inv_keep: "fd_inv s \<Longrightarrow> fkeep s t \<Longrightarrow> fd_inv t"
  using frefs_cong [of t s] by (auto simp: fd_inv_def fds_wf_def fkeep_core) (auto simp: fkeep_def)

lemma zombie_inv:
  assumes "fd_inv s" "\<And>i. i < NOFILE \<Longrightarrow> ofile (procs s p) ! i = None" "\<And>r. ofile (h r) = ofile r"
  shows "fd_inv (updp p h s)"
proof -
  have o: "ofile (procs (updp p h s) q) = ofile (procs s q)" for q using assms(3) by (simp add: updp_def)
  have "frefs (updp p h s) f = frefs s f" for f by (rule frefs_cong) (rule o)
  moreover have "length (ofile (procs s p)) = NOFILE \<Longrightarrow> set (ofile (procs s p)) \<subseteq> {None}" using assms(2) by (auto simp: in_set_conv_nth)
  moreover have "q \<noteq> p \<Longrightarrow> idle (procs (updp p h s) q) = idle (procs s q)" for q by (simp add: updp_def)
  moreover have "ftable (updp p h s) = ftable s" by (simp add: updp_def)
  ultimately show ?thesis using assms(1) unfolding fd_inv_def fds_wf_def o by (metis empty_iff)
qed

lemma exit_ok:
  assumes "fd_idle p s" "exit n s = Inr t"
  shows "fd_inv t"
proof -
  have c: "cur s = Some p" "p < NPROC" using assms(1) by (auto simp: fd_ok_def)
  define pre where "pre = (if start_time (procs s p) \<noteq> 0 then
           let (now, s1) = r_time s;
               s2 = updp p (\<lambda>r. r\<lparr>end_time := now, turnaround_time := now - start_time r\<rparr>) s1
           in printf (CHR 0x0A # ''EXIT: PID %d BECAME ZOMBIE AT %lu'' @ [CHR 0x0A])
                [AInt (pid (procs s2 p)), ALong (end_time (procs s2 p))] s2
         else Inr s)"
  have "keep1 pre s" by (auto intro!: keep simp: pre_def r_time_def Let_def idle_def)
  then have P: "fd_idle p u" if "pre = Inr u" for u using fd_ok_keepD(1) [OF _ that assms(1)] by simp
  have e: "exit n s = bindr pre (\<lambda>s3.
       bindr (close_files NOFILE 0 p s3) (\<lambda>s4.
       bindr (put_inode (cwd (procs s4 p)) s4) (\<lambda>s5.
       bindr (acquire_lk WaitLock (updp p (\<lambda>r. r\<lparr>cwd := None\<rparr>) s5)) (\<lambda>s6.
       bindr (reparent p s6) (\<lambda>s7.
       bindr (case parent (procs s7 p) of None \<Rightarrow> Inr s7 | Some q \<Rightarrow> wakeup (ChanProc q) s7) (\<lambda>s8.
       bindr (acquire_lk (ProcLock p) s8) (\<lambda>s9.
       bindr (release_lk WaitLock (updp p (\<lambda>r. r\<lparr>xstate := n, pstate := ZOMBIE\<rparr>) s9)) sched)))))))" if "initproc s \<noteq> Some p"
    using that c unfolding exit_def pre_def myproc_def by simp
  have ni: "initproc s \<noteq> Some p" using assms(2) c by (auto simp: exit_def myproc_def)
  obtain s3 s4 where a: "pre = Inr s3" "close_files NOFILE 0 p s3 = Inr s4" using assms(2) e [OF ni] by (auto simp: bindr_eq_Inr)
  note C = close_files_ok [OF P [OF a(1)] a(2)]
  obtain s9 s10 where b: "bindr (put_inode (cwd (procs s4 p)) s4) (\<lambda>s5.
       bindr (acquire_lk WaitLock (updp p (\<lambda>r. r\<lparr>cwd := None\<rparr>) s5)) (\<lambda>s6.
       bindr (reparent p s6) (\<lambda>s7.
       bindr (case parent (procs s7 p) of None \<Rightarrow> Inr s7 | Some q \<Rightarrow> wakeup (ChanProc q) s7) (acquire_lk (ProcLock p))))) = Inr s9"
    "release_lk WaitLock (updp p (\<lambda>r. r\<lparr>xstate := n, pstate := ZOMBIE\<rparr>) s9) = Inr s10" "sched s10 = Inr t"
    using assms(2) e [OF ni] a by (auto simp: bindr_eq_Inr)
  have k9: "fkeep s4 s9" by (rule keep1D [OF _ b(1)]) (auto intro!: keep split: option.splits)
  have "fd_idle p s4" using C by simp
  then have "fd_inv s9" using fd_inv_keep [OF fd_inv_ok(2) k9] by blast
  moreover have "ofile (procs s9 p) ! i = None" if "i < NOFILE" for i using C k9 that by (simp add: fkeep_def)
  ultimately have "fd_inv (updp p (\<lambda>r. r\<lparr>xstate := n, pstate := ZOMBIE\<rparr>) s9)" by (rule zombie_inv) auto
  then have "fd_inv s10" using fd_inv_keep keep1D [OF lk_keep(2) [OF fkeep_refl] b(2)] by blast
  then show ?thesis using fd_inv_keep keep1D [OF proc_keep(2) [OF fkeep_refl] b(3)] by blast
qed

text \<open>The system calls that work on descriptors or on files, by the running process.\<close>

definition fd_calls :: "('a flst_scheme \<Rightarrow> kerr + (u64 \<times> 'a flst_scheme)) list" where
  "fd_calls = [sys_dup, sys_read, sys_write, sys_close, sys_fstat, sys_link, sys_unlink, sys_open, sys_mkdir, sys_mknod, sys_chdir, sys_pipe, sys_fork, sys_wait]"

text \<open>A step is such a call, run to its end; an exit; or anything that leaves the files, the descriptors and the idle slots
  alone, after which another process may be running.\<close>

inductive fd_step :: "'a flst_scheme \<Rightarrow> 'a flst_scheme \<Rightarrow> bool" where
  call: "running p s \<Longrightarrow> c \<in> set fd_calls \<Longrightarrow> c s = Inr (r, t) \<Longrightarrow> fd_step s t"
| leave: "running p s \<Longrightarrow> exit n s = Inr t \<Longrightarrow> fd_step s t"
| other: "fkeep s t \<Longrightarrow> fd_step s (t\<lparr>cur := c\<rparr>)"

inductive_cases fd_stepE: "fd_step s t"

lemma fd_call_ok:
  assumes "fd_idle p s" "c \<in> set fd_calls" "c s = Inr (r, t)"
  shows "fd_idle p t"
proof -
  have k: "fd_idle p t" if "keep2 (c s) s" by (rule fd_ok_keepD(2) [OF that assms(3,1)])
  have w: "keep2 (sys_wait s) s" by (auto intro!: keep simp: sys_wait_def)
  have f: "fd_idle p t" if "sys_fork s = Inr (r, t)" using that fork_ok [OF assms(1)] by (auto simp: sys_fork_def bindr_eq_Inr)
  from assms(2) show ?thesis unfolding fd_calls_def
    using assms(3) k w f sys_dup_ok [OF assms(1)] sys_close_ok [OF assms(1)] sys_pipe_ok [OF assms(1)] sys_open_ok [OF assms(1)]
      sys_rw_keep [OF fkeep_refl, of s] sys_link_keep [OF fkeep_refl, of s] sys_unlink_keep [OF fkeep_refl, of s] sys_dir_keep [OF fkeep_refl, of s]
    by (simp only: list.set insert_iff empty_iff) (elim disjE; simp)
qed

lemma fd_step_inv: "fd_step s t \<Longrightarrow> fd_inv s \<Longrightarrow> fd_inv t"
proof (erule fd_stepE)
  fix p c r
  assume "fd_inv s" "running p s" "c \<in> set fd_calls" "c s = Inr (r, t)"
  then show "fd_inv t" by (metis fd_inv_ok fd_call_ok)
next
  fix p n
  assume "fd_inv s" "running p s" "exit n s = Inr t"
  then show "fd_inv t" by (metis fd_inv_ok(1) exit_ok)
next
  fix u c
  assume "fd_inv s" "t = u\<lparr>cur := c\<rparr>" "fkeep s u"
  then show "fd_inv t" by (metis fd_inv_cur fd_inv_keep)
qed

text \<open>C3. Type safety of file descriptors. In every state that a run of system calls, exits and other kernel activity reaches
  from a consistent table of files, the reference count of every file is the number of descriptors of all processes that name it,
  and every descriptor of every process names a file in the table that is in use and has a type, with the pipe or the
  inode that goes with it; only processes that are alive have descriptors.\<close>

theorem fd_safe:
  assumes "fd_step\<^sup>*\<^sup>* s t" "fd_inv s"
  shows "fd_inv t \<and> (\<forall>p<NPROC. \<forall>f. Some f \<in> set (ofile (procs t p)) \<longrightarrow>
    \<not> idle (procs t p) \<and> f < NFILE \<and> 0 < f_ref (ftable t f) \<and> file_typed (ftable t f))"
proof -
  have t: "fd_inv t" using assms by (induction rule: rtranclp_induct) (auto intro: fd_step_inv)
  have "\<not> idle (procs t p) \<and> f < NFILE \<and> 0 < f_ref (ftable t f) \<and> file_typed (ftable t f)"
    if "p < NPROC" "Some f \<in> set (ofile (procs t p))" for p f
  proof -
    have "f < NFILE" "\<not> idle (procs t p)" using t that by (auto simp: fd_inv_def fds_wf_def)
    moreover have "0 < f_ref (ftable t f)" using t frefs_pos [OF that] \<open>f < NFILE\<close> by (simp add: fd_inv_def)
    ultimately show ?thesis using t by (simp add: fd_inv_def)
  qed
  then show ?thesis using t by blast
qed

text \<open>One process with one open file, which it duplicates; then it closes the first descriptor.\<close>

definition demo_fd :: flst where
  "demo_fd = demo_flst\<lparr>pmem := \<lambda>_. 0,
     ftable := (ftable demo_flst)(0 := \<lparr>f_type = FD_DEVICE, f_ref = 1, f_readable = True, f_writable = True, f_pipe = 0, f_ip = Some 0, f_off = 0, f_major = 1\<rparr>),
     procs := \<lambda>p. (procs demo_flst p)\<lparr>pstate := if p = 0 then RUNNING else UNUSED, ofile := if p = 0 then Some 0 # replicate 15 None else replicate 16 None\<rparr>\<rparr>"

lemma demo_fd_simps:
  "held demo_fd = {}" "cur demo_fd = Some 0" "pmem demo_fd = (\<lambda>_. 0)" "ofile (procs demo_fd p) = (if p = 0 then Some 0 # replicate 15 None else replicate 16 None)"
  "idle (procs demo_fd p) = (p \<noteq> 0)" "pstate (procs demo_fd 0) = RUNNING" "ftable demo_fd 0 = \<lparr>f_type = FD_DEVICE, f_ref = 1, f_readable = True, f_writable = True, f_pipe = 0, f_ip = Some 0, f_off = 0, f_major = 1\<rparr>"
  "f \<noteq> 0 \<Longrightarrow> f_ref (ftable demo_fd f) = 0"
  by (auto simp: demo_fd_def demo_flst_simps idle_def) (simp add: demo_flst_def ist.defs flst.defs)

lemma demo_fd_inv: "fd_inv demo_fd"
proof -
  have c: "count_list (replicate n (None :: nat option)) (Some f) = 0" for n f by (induction n) simp_all
  have "frefs demo_fd f = (if f = 0 then 1 else 0)" for f
    by (auto simp: frefs_def demo_fd_simps c NPROC_def if_distrib [of "\<lambda>l. count_list l _"] sum.delta cong: if_cong)
  moreover have "f_ref (ftable demo_fd f) = (if f = 0 then 1 else 0)" "0 < f_ref (ftable demo_fd f) \<Longrightarrow> file_typed (ftable demo_fd f)" for f
    by (cases "f = 0"; simp add: demo_fd_simps file_typed_def)+
  ultimately show ?thesis by (auto simp: fd_inv_def fds_wf_def demo_fd_simps NFILE_def NOFILE_def)
qed

theorem fd_safe_witness:
  "\<exists>t u. fd_step demo_fd t \<and> fd_step t u \<and> f_ref (ftable t 0) = 2 \<and> f_ref (ftable u 0) = 1 \<and> take 2 (ofile (procs u 0)) = [None, Some 0] \<and> fd_inv u"
proof -
  have z: "argint 0 s = Inr 0" if "cur s = Some 0" "pmem s = (\<lambda>_. 0)" for s :: flst
    using that by (simp add: argint_def argraw_def myproc_def tf_get_def load64_def upt_rec)
  have fd: "scan (\<lambda>fd. ofile (procs demo_fd 0) ! fd = None) 0 NOFILE = Some 1"
    by (rule scan_SomeI) (auto simp: NOFILE_def demo_fd_simps)
  let ?t = "updf 0 (\<lambda>r. r\<lparr>f_ref := f_ref r + 1\<rparr>) (set_ofile 0 1 (Some 0) demo_fd)"
  let ?u = "updf 0 (\<lambda>r. r\<lparr>f_ref := f_ref r - 1\<rparr>) (set_ofile 0 0 None ?t)"
  have t: "sys_dup demo_fd = Inr (1, ?t)"
    using z [of demo_fd] fd by (simp add: sys_dup_def argfd_def fdalloc_def filedup_def myproc_def demo_fd_simps NOFILE_def acquire_lk_def release_lk_def set_ofile_def updp_def updf_def)
  have "cur ?t = Some 0" "pmem ?t = (\<lambda>_. 0)" "held ?t = {}" "ofile (procs ?t 0) ! 0 = Some 0" "ftable ?t 0 = (ftable demo_fd 0)\<lparr>f_ref := 2\<rparr>"
    by (simp_all add: demo_fd_simps set_ofile_def updp_def updf_def)
  then have u: "sys_close ?t = Inr (0, ?u)" using z [of ?t]
    by (simp add: sys_close_def argfd_def fileclose_def myproc_def NOFILE_def acquire_lk_def release_lk_def demo_fd_simps) (simp add: set_ofile_def updp_def updf_def demo_fd_simps acquire_lk_def release_lk_def)
  have r: "running 0 demo_fd" "running 0 ?t" by (simp_all add: running_def demo_fd_simps NPROC_def set_ofile_def updp_def)
  have st: "fd_step demo_fd ?t" "fd_step ?t ?u"
    by (rule fd_step.call [where c = sys_dup, OF r(1) _ t], simp add: fd_calls_def) (rule fd_step.call [where c = sys_close, OF r(2) _ u], simp add: fd_calls_def)
  then have "fd_step\<^sup>*\<^sup>* demo_fd ?u" by (meson r_into_rtranclp rtranclp_trans)
  from fd_safe [OF this demo_fd_inv] have "fd_inv ?u" by blast
  moreover have "f_ref (ftable ?t 0) = 2" "f_ref (ftable ?u 0) = 1" "take 2 (ofile (procs ?u 0)) = [None, Some 0]"
    by (simp_all add: demo_fd_simps set_ofile_def updp_def updf_def eval_nat_numeral)
  ultimately show ?thesis using st by blast
qed

end
