(* ===== verification/Sh.thy ===== *)
theory Sh
  imports Sysfile
begin

text \<open>
  The shell (\<open>user/sh.c\<close>). A line is the string \<open>b\<close> of its characters, without the terminating NUL, so that \<open>es\<close> is its
  length; the parser works on positions in it, and a token is the pair of positions that the code keeps. A loop of the parser has a
  fuel, \<open>Loop\<close> is the outcome of having used it up, and \<open>Die\<close> is \<open>panic\<close> with what was printed. Theory \<open>Shrun\<close> has
  the execution of commands and \<open>Shparse\<close> what the parser reads.
\<close>

unbundle bit_operations_syntax

section \<open>Commands\<close>

definition MAXARGS :: nat where "MAXARGS = 10"

type_synonym tok = "nat \<times> nat"

datatype cmd = EXEC "tok list" | REDIR cmd tok u32 nat | PIPE cmd cmd | LIST cmd cmd | BACK cmd

datatype sherr = Die string | Loop

section \<open>Tokens\<close>

definition NUL :: char where "NUL = CHR 0x00"

definition whitespace :: string where "whitespace = [CHR 0x20, CHR 0x09, CHR 0x0D, CHR 0x0A, CHR 0x0B]"

definition symbols :: string where "symbols = ''<|>&;()''"

definition at :: "string \<Rightarrow> nat \<Rightarrow> char" where
  "at b s = (if s < length b then b ! s else NUL)"

text \<open>The loops that advance \<open>s\<close> as long as \<open>s < es\<close> and the character satisfies \<open>P\<close>.\<close>

definition advance :: "(char \<Rightarrow> bool) \<Rightarrow> string \<Rightarrow> nat \<Rightarrow> nat" where
  "advance P b s = s + length (takeWhile P (drop s b))"

definition is_ws :: "char \<Rightarrow> bool" where "is_ws c \<longleftrightarrow> c \<in> set whitespace"

definition is_sym :: "char \<Rightarrow> bool" where "is_sym c \<longleftrightarrow> c \<in> set symbols"

text \<open>The kind of the token, its two positions, and the new value of \<open>*ps\<close>.\<close>

definition gettoken :: "string \<Rightarrow> nat \<Rightarrow> char \<times> tok \<times> nat" where
  "gettoken b s0 =
     (let s = advance is_ws b s0; c = at b s;
          (ret, e) = (if c = NUL then (c, s)
                      else if c \<in> set ''|();&<'' then (c, s + 1)
                      else if c = CHR ''>'' then
                        if at b (s + 1) = CHR ''>'' then (CHR ''+'', s + 2) else (c, s + 1)
                      else (CHR ''a'', advance (\<lambda>x. \<not> is_ws x \<and> \<not> is_sym x) b s))
      in (ret, (s, e), advance is_ws b e))"

definition peek_tok :: "string \<Rightarrow> nat \<Rightarrow> string \<Rightarrow> bool \<times> nat" where
  "peek_tok b s0 toks = (let s = advance is_ws b s0 in (at b s \<noteq> NUL \<and> at b s \<in> set toks, s))"

section \<open>The parser\<close>

definition panic :: "string \<Rightarrow> sherr + 'a" where
  "panic msg = Inl (Die (msg @ [CHR 0x0A]))"

primrec parseredirs_loop :: "nat \<Rightarrow> string \<Rightarrow> cmd \<Rightarrow> nat \<Rightarrow> sherr + (cmd \<times> nat)" where
  "parseredirs_loop 0 b c s = Inl Loop"
| "parseredirs_loop (Suc k) b c s =
     (let (more, s1) = peek_tok b s ''<>'' in
      if \<not> more then Inr (c, s1)
      else let (t, _, s2) = gettoken b s1; (t2, f, s3) = gettoken b s2 in
        if t2 \<noteq> CHR ''a'' then panic ''missing file for redirection''
        else if t = CHR ''<'' then parseredirs_loop k b (REDIR c f O_RDONLY 0) s3
        else if t = CHR ''>'' then parseredirs_loop k b (REDIR c f (O_WRONLY OR O_CREATE OR O_TRUNC) 1) s3
        else if t = CHR ''+'' then parseredirs_loop k b (REDIR c f (O_WRONLY OR O_CREATE) 1) s3
        else parseredirs_loop k b c s3)"

definition parseredirs :: "string \<Rightarrow> cmd \<Rightarrow> nat \<Rightarrow> sherr + (cmd \<times> nat)" where
  "parseredirs b c s = parseredirs_loop (length b + 1) b c s"

text \<open>Storing an argument in the node of \<open>execcmd\<close>, which the redirections made since are wrapped around.\<close>

fun add_arg :: "tok \<Rightarrow> cmd \<Rightarrow> cmd" where
  "add_arg t (EXEC ts) = EXEC (ts @ [t])"
| "add_arg t (REDIR c f m d) = REDIR (add_arg t c) f m d"
| "add_arg t c = c"

primrec parseargs :: "nat \<Rightarrow> string \<Rightarrow> nat \<Rightarrow> cmd \<Rightarrow> nat \<Rightarrow> sherr + (cmd \<times> nat)" where
  "parseargs 0 b argc c s = Inl Loop"
| "parseargs (Suc k) b argc c s =
     (let (stop, s1) = peek_tok b s ''|)&;'' in
      if stop then Inr (c, s1)
      else let (t, a, s2) = gettoken b s1 in
        if t = NUL then Inr (c, s2)
        else if t \<noteq> CHR ''a'' then panic ''syntax''
        else if argc + 1 \<ge> MAXARGS then panic ''too many args''
        else bindr (parseredirs b (add_arg a c) s2) (\<lambda>(c1, s3). parseargs k b (argc + 1) c1 s3))"

primrec parseback :: "nat \<Rightarrow> string \<Rightarrow> cmd \<Rightarrow> nat \<Rightarrow> sherr + (cmd \<times> nat)" where
  "parseback 0 b c s = Inl Loop"
| "parseback (Suc k) b c s =
     (let (more, s1) = peek_tok b s ''&'' in
      if more then let (_, _, s2) = gettoken b s1 in parseback k b (BACK c) s2
      else Inr (c, s1))"

fun parseline :: "nat \<Rightarrow> string \<Rightarrow> nat \<Rightarrow> sherr + (cmd \<times> nat)"
and parsepipe :: "nat \<Rightarrow> string \<Rightarrow> nat \<Rightarrow> sherr + (cmd \<times> nat)"
and parseblock :: "nat \<Rightarrow> string \<Rightarrow> nat \<Rightarrow> sherr + (cmd \<times> nat)"
and parseexec :: "nat \<Rightarrow> string \<Rightarrow> nat \<Rightarrow> sherr + (cmd \<times> nat)" where
  "parseline 0 b s = Inl Loop"
| "parseline (Suc n) b s =
     bindr (parsepipe n b s) (\<lambda>(c, s1).
     bindr (parseback (length b + 1) b c s1) (\<lambda>(c2, s2).
     let (more, s3) = peek_tok b s2 '';'' in
     if more then
       let (_, _, s4) = gettoken b s3 in
       bindr (parseline n b s4) (\<lambda>(r, s5). Inr (LIST c2 r, s5))
     else Inr (c2, s3)))"
| "parsepipe 0 b s = Inl Loop"
| "parsepipe (Suc n) b s =
     bindr (parseexec n b s) (\<lambda>(c, s1).
     let (more, s2) = peek_tok b s1 ''|'' in
     if more then
       let (_, _, s3) = gettoken b s2 in
       bindr (parsepipe n b s3) (\<lambda>(r, s4). Inr (PIPE c r, s4))
     else Inr (c, s2))"
| "parseblock 0 b s = Inl Loop"
| "parseblock (Suc n) b s =
     (let (open1, s1) = peek_tok b s ''('' in
      if \<not> open1 then panic ''parseblock''
      else let (_, _, s2) = gettoken b s1 in
        bindr (parseline n b s2) (\<lambda>(c, s3).
        let (close1, s4) = peek_tok b s3 '')'' in
        if \<not> close1 then panic ''syntax - missing )''
        else let (_, _, s5) = gettoken b s4 in parseredirs b c s5))"
| "parseexec 0 b s = Inl Loop"
| "parseexec (Suc n) b s =
     (let (block, s1) = peek_tok b s ''('' in
      if block then parseblock n b s1
      else bindr (parseredirs b (EXEC []) s1) (\<lambda>(c, s2). parseargs (length b + 1) b 0 c s2))"

text \<open>The writes of NUL at the ends of the tokens.\<close>

primrec nulterminate :: "cmd \<Rightarrow> string \<Rightarrow> string" where
  "nulterminate (EXEC ts) buf = fold (\<lambda>(q, e) bs. bs[e := NUL]) ts buf"
| "nulterminate (REDIR c f m d) buf = (nulterminate c buf)[snd f := NUL]"
| "nulterminate (PIPE l r) buf = nulterminate r (nulterminate l buf)"
| "nulterminate (LIST l r) buf = nulterminate r (nulterminate l buf)"
| "nulterminate (BACK c) buf = nulterminate c buf"

definition parsecmd :: "string \<Rightarrow> sherr + (cmd \<times> string)" where
  "parsecmd buf =
     (let b = takeWhile (\<lambda>c. c \<noteq> NUL) buf in
      bindr (parseline (4 * length b + 4) b 0) (\<lambda>(c, s).
      let (_, s1) = peek_tok b s '''' in
      if s1 \<noteq> length b then Inl (Die (''leftovers: '' @ drop s1 b @ [CHR 0x0A] @ ''syntax'' @ [CHR 0x0A]))
      else Inr (c, nulterminate c (b @ [NUL]))))"

section \<open>The parser always ends\<close>

lemma advance_bounds: "s \<le> length b \<Longrightarrow> s \<le> advance P b s \<and> advance P b s \<le> length b"
proof -
  assume "s \<le> length b"
  moreover have "length (takeWhile P (drop s b)) \<le> length b - s" using length_takeWhile_le [of P "drop s b"] by simp
  ultimately show ?thesis by (simp add: advance_def)
qed

lemma drop_advance: "drop (advance P b s) b = dropWhile P (drop s b)"
  unfolding advance_def by (metis add.commute drop_drop dropWhile_eq_drop)

lemma at_drop: "at b s = (case drop s b of [] \<Rightarrow> NUL | c # _ \<Rightarrow> c)"
  by (auto simp: at_def split: list.splits) (metis hd_drop_conv_nth list.sel(1))

lemma at_bound: "at b s \<noteq> NUL \<Longrightarrow> s < length b"
  by (simp add: at_def split: if_splits)

lemma peek_bounds:
  assumes "peek_tok b s toks = (m, s1)" "s \<le> length b"
  shows "s \<le> s1" "s1 \<le> length b" "m \<Longrightarrow> s1 < length b" "m \<Longrightarrow> at b s1 \<in> set toks" "m \<Longrightarrow> \<not> is_ws (at b s1)"
proof -
  have e: "s1 = advance is_ws b s" "m \<longleftrightarrow> at b s1 \<noteq> NUL \<and> at b s1 \<in> set toks" using assms(1) by (auto simp: peek_tok_def Let_def)
  show "s \<le> s1" "s1 \<le> length b" using advance_bounds [OF assms(2)] e by simp_all
  show "m \<Longrightarrow> s1 < length b" "m \<Longrightarrow> at b s1 \<in> set toks" using e at_bound by auto
  assume "m"
  then have "s1 < length b" using e at_bound by auto
  then have "dropWhile is_ws (drop s b) = at b s1 # drop (Suc s1) b" using drop_advance [of is_ws b s] e(1) by (simp add: at_def Cons_nth_drop_Suc)
  then show "\<not> is_ws (at b s1)" by (simp add: dropWhile_eq_Cons_conv)
qed

lemma gettoken_bounds:
  assumes "gettoken b s = (t, (q, e), s')" "s \<le> length b"
  shows "s \<le> q" "q \<le> e" "e \<le> s'" "s' \<le> length b" "t \<noteq> NUL \<Longrightarrow> q < e"
proof -
  let ?P = "\<lambda>x. \<not> is_ws x \<and> \<not> is_sym x"
  have q: "q = advance is_ws b s" "s' = advance is_ws b e" and
    te: "(t, e) = (if at b q = NUL then (at b q, q) else if at b q \<in> set ''|();&<'' then (at b q, q + 1)
       else if at b q = CHR ''>'' then if at b (q + 1) = CHR ''>'' then (CHR ''+'', q + 2) else (at b q, q + 1)
       else (CHR ''a'', advance ?P b q))"
    using assms(1) by (auto simp: gettoken_def Let_def split: prod.splits)
  have q1: "s \<le> q" "q \<le> length b" using advance_bounds [OF assms(2)] q(1) by simp_all
  have A: "q \<le> advance ?P b q" "advance ?P b q \<le> length b" using advance_bounds [OF q1(2)] by simp_all
  have w: "q < advance ?P b q" if "at b q \<noteq> NUL" "at b q \<notin> set ''|();&<''" "at b q \<noteq> CHR ''>''"
  proof -
    have lt: "q < length b" by (rule at_bound [OF that(1)])
    then have d: "drop q b = at b q # drop (Suc q) b" by (simp add: at_def Cons_nth_drop_Suc)
    then have "\<not> is_ws (at b q)" using drop_advance [of is_ws b s] q(1) by (metis dropWhile_eq_Cons_conv)
    moreover have "\<not> is_sym (at b q)" using that by (auto simp: is_sym_def symbols_def)
    ultimately show ?thesis by (simp add: advance_def d)
  qed
  have "q \<le> e \<and> e \<le> length b \<and> (t \<noteq> NUL \<longrightarrow> q < e)"
    using te A w q1(2) at_bound [of b q] at_bound [of b "q + 1"] by (auto simp: NUL_def split: if_splits)
  then show "s \<le> q" "q \<le> e" "e \<le> s'" "s' \<le> length b" "t \<noteq> NUL \<Longrightarrow> q < e"
    using q1 advance_bounds [of e b is_ws] q(2) by auto
qed

lemma advance_none: "\<not> P (at b s) \<Longrightarrow> advance P b s = s"
  by (cases "drop s b") (auto simp: advance_def at_drop)

lemma gettoken_symbol:
  assumes "at b s \<in> set ''|();&<''"
  shows "gettoken b s = (at b s, (s, s + 1), advance is_ws b (s + 1))"
proof -
  have "\<not> is_ws (at b s)" "at b s \<noteq> NUL" using assms by (auto simp: is_ws_def whitespace_def NUL_def)
  then show ?thesis using assms by (simp add: gettoken_def advance_none Let_def)
qed

lemma eat:
  assumes "peek_tok b s toks = (True, s1)" "s \<le> length b" "set toks \<subseteq> set ''|();&<''"
  obtains s2 where "gettoken b s1 = (at b s1, (s1, s1 + 1), s2)" "s < s2" "s2 \<le> length b"
proof -
  note P = peek_bounds [OF assms(1,2)]
  have "at b s1 \<in> set ''|();&<''" using P(4) assms(3) by blast
  from gettoken_symbol [OF this] have g: "gettoken b s1 = (at b s1, (s1, s1 + 1), advance is_ws b (s1 + 1))" .
  from that [OF g] show thesis using P(1,3) advance_bounds [of "s1 + 1" b is_ws] by simp
qed

text \<open>The outcome of a routine of the parser that starts at \<open>s\<close>.\<close>

definition ends :: "string \<Rightarrow> nat \<Rightarrow> sherr + (cmd \<times> nat) \<Rightarrow> bool" where
  "ends b s m \<longleftrightarrow> (case m of Inl e \<Rightarrow> e \<noteq> Loop | Inr (c, s') \<Rightarrow> s \<le> s' \<and> s' \<le> length b)"

lemma ends_simps [simp]: "ends b s (Inr (c, s')) = (s \<le> s' \<and> s' \<le> length b)" "ends b s (panic msg)"
  by (simp_all add: ends_def panic_def)

lemma ends_bind: "ends b s m \<Longrightarrow> (\<And>c s'. s \<le> s' \<Longrightarrow> s' \<le> length b \<Longrightarrow> ends b s (f (c, s'))) \<Longrightarrow> ends b s (bindr m f)"
  by (cases m) (auto simp: ends_def)

lemma ends_mono: "ends b s' m \<Longrightarrow> s \<le> s' \<Longrightarrow> ends b s m"
  by (auto simp: ends_def split: sum.splits)

lemma parseredirs_loop_ends: "s \<le> length b \<Longrightarrow> length b - s < k \<Longrightarrow> ends b s (parseredirs_loop k b c s)"
proof (induction k arbitrary: c s)
  case (Suc k)
  obtain more s1 where p: "peek_tok b s ''<>'' = (more, s1)" by fastforce
  note P = peek_bounds [OF p Suc.prems(1)]
  obtain t u s2 where t: "gettoken b s1 = (t, u, s2)" by (metis prod_cases3)
  obtain t2 q e s3 where t2: "gettoken b s2 = (t2, (q, e), s3)" by (metis prod_cases3 prod.collapse)
  obtain q1 e1 where u: "u = (q1, e1)" by fastforce
  note G = gettoken_bounds [OF t [unfolded u] P(2)] and G2 = gettoken_bounds [OF t2]
  show ?case
  proof (cases "more \<and> t2 = CHR ''a''")
    case True
    then have "q < e" using G2(5) G(4) by (simp add: NUL_def)
    then have s3: "s < s3" "s3 \<le> length b" using P(1) G G2 by linarith+
    then have "ends b s (parseredirs_loop k b c' s3)" for c' using Suc.IH [of s3 c'] Suc.prems ends_mono [of b s3 _ s] by auto
    then show ?thesis using True p t t2 by simp
  next
    case False
    then show ?thesis using p t t2 P by auto
  qed
qed simp

lemma parseredirs_ends [simp]: "s \<le> length b \<Longrightarrow> ends b s (parseredirs b c s)"
  by (simp add: parseredirs_def parseredirs_loop_ends del: parseredirs_loop.simps)

lemma parseargs_ends: "s \<le> length b \<Longrightarrow> length b - s < k \<Longrightarrow> ends b s (parseargs k b n c s)"
proof (induction k arbitrary: c s n)
  case (Suc k)
  obtain stop s1 where p: "peek_tok b s ''|)&;'' = (stop, s1)" by fastforce
  note P = peek_bounds [OF p Suc.prems(1)]
  obtain t q e s2 where t: "gettoken b s1 = (t, (q, e), s2)" by (metis prod_cases3 prod.collapse)
  note G = gettoken_bounds [OF t P(2)]
  show ?case
  proof (cases "\<not> stop \<and> t = CHR ''a''")
    case True
    then have s2: "s < s2" "s2 \<le> length b" using P(1) G by (auto simp: NUL_def)
    have "ends b s2 (bindr (parseredirs b (add_arg (q, e) c) s2) (\<lambda>(c1, s3). parseargs k b (n + 1) c1 s3))"
    proof (rule ends_bind)
      fix c1 s3
      assume "s2 \<le> s3" "s3 \<le> length b"
      then show "ends b s2 (case (c1, s3) of (c1, s3) \<Rightarrow> parseargs k b (n + 1) c1 s3)"
        using Suc.IH [of s3 "n + 1" c1] Suc.prems s2(1) ends_mono [of b s3 _ s2] by auto
    qed (simp add: s2)
    then show ?thesis using True p t s2 ends_mono [of b s2 _ s] by auto
  next
    case False
    then show ?thesis using p t P G by auto
  qed
qed simp

lemma parseback_ends: "s \<le> length b \<Longrightarrow> length b - s < k \<Longrightarrow> ends b s (parseback k b c s)"
proof (induction k arbitrary: c s)
  case (Suc k)
  obtain more s1 where p: "peek_tok b s ''&'' = (more, s1)" by fastforce
  note P = peek_bounds [OF p Suc.prems(1)]
  show ?case
  proof (cases more)
    case True
    obtain s2 where "gettoken b s1 = (at b s1, (s1, s1 + 1), s2)" "s < s2" "s2 \<le> length b"
      using eat [of b s "''&''" s1] p True Suc.prems(1) by auto
    then show ?thesis using Suc.IH [of s2 "BACK c"] Suc.prems True p ends_mono [of b s2 _ s] by auto
  qed (use p P in auto)
qed simp

lemma parsepipe_ends:
  assumes "ends b s (parseexec n b s)" "\<And>s3. s < s3 \<Longrightarrow> s3 \<le> length b \<Longrightarrow> ends b s (parsepipe n b s3)"
  shows "ends b s (parsepipe (Suc n) b s)"
  unfolding parsepipe.simps
proof (rule ends_bind [OF assms(1)])
  fix c s1
  assume s1: "s \<le> s1" "s1 \<le> length b"
  obtain more s2 where p: "peek_tok b s1 ''|'' = (more, s2)" by fastforce
  show "ends b s (case (c, s1) of (c, s1) \<Rightarrow> let (more, s2) = peek_tok b s1 ''|'' in
     if more then let (_, _, s3) = gettoken b s2 in bindr (parsepipe n b s3) (\<lambda>(r, s4). Inr (PIPE c r, s4)) else Inr (c, s2))"
  proof (cases more)
    case True
    obtain s3 where g: "gettoken b s2 = (at b s2, (s2, s2 + 1), s3)" "s1 < s3" "s3 \<le> length b"
      using eat [of b s1 "''|''" s2] p True s1(2) by auto
    have "ends b s (bindr (parsepipe n b s3) (\<lambda>(r, s4). Inr (PIPE c r, s4)))" using assms(2) [of s3] g s1 by (intro ends_bind) auto
    then show ?thesis using p True g by simp
  qed (use p peek_bounds [OF p s1(2)] s1 in auto)
qed

lemma parseline_ends:
  assumes "ends b s (parsepipe n b s)" "\<And>s3. s < s3 \<Longrightarrow> s3 \<le> length b \<Longrightarrow> ends b s (parseline n b s3)"
  shows "ends b s (parseline (Suc n) b s)"
  unfolding parseline.simps
proof (rule ends_bind [OF assms(1)])
  fix c s1
  assume s1: "s \<le> s1" "s1 \<le> length b"
  have B: "ends b s (parseback (length b + 1) b c s1)" by (rule ends_mono [OF parseback_ends]) (use s1 in auto)
  show "ends b s (case (c, s1) of (c, s1) \<Rightarrow> bindr (parseback (length b + 1) b c s1) (\<lambda>(c2, s2).
     let (more, s3) = peek_tok b s2 '';'' in
     if more then let (_, _, s4) = gettoken b s3 in bindr (parseline n b s4) (\<lambda>(r, s5). Inr (LIST c2 r, s5)) else Inr (c2, s3)))"
    unfolding prod.case
  proof (rule ends_bind [OF B])
    fix c2 s2
    assume s2: "s \<le> s2" "s2 \<le> length b"
    obtain more s3 where p: "peek_tok b s2 '';'' = (more, s3)" by fastforce
    show "ends b s (case (c2, s2) of (c2, s2) \<Rightarrow> let (more, s3) = peek_tok b s2 '';'' in
     if more then let (_, _, s4) = gettoken b s3 in bindr (parseline n b s4) (\<lambda>(r, s5). Inr (LIST c2 r, s5)) else Inr (c2, s3))"
    proof (cases more)
      case True
      obtain s4 where g: "gettoken b s3 = (at b s3, (s3, s3 + 1), s4)" "s2 < s4" "s4 \<le> length b"
        using eat [of b s2 "'';''" s3] p True s2(2) by auto
      have "ends b s (bindr (parseline n b s4) (\<lambda>(r, s5). Inr (LIST c2 r, s5)))" using assms(2) [of s4] g s2 by (intro ends_bind) auto
      then show ?thesis using p True g by simp
    qed (use p peek_bounds [OF p s2(2)] s2 in auto)
  qed
qed

lemma parseblock_ends:
  assumes "s \<le> length b" "\<And>s3. s < s3 \<Longrightarrow> s3 \<le> length b \<Longrightarrow> ends b s (parseline n b s3)"
  shows "ends b s (parseblock (Suc n) b s)"
proof -
  obtain op s1 where p: "peek_tok b s ''('' = (op, s1)" by fastforce
  show ?thesis
  proof (cases op)
    case True
    obtain s2 where g: "gettoken b s1 = (at b s1, (s1, s1 + 1), s2)" "s < s2" "s2 \<le> length b"
      using eat [of b s "''(''" s1] p True assms(1) by auto
    have "ends b s (bindr (parseline n b s2) (\<lambda>(c, s3). let (close1, s4) = peek_tok b s3 '')'' in
        if \<not> close1 then panic ''syntax - missing )'' else let (_, _, s5) = gettoken b s4 in parseredirs b c s5))"
    proof (rule ends_bind [OF assms(2) [OF g(2,3)]])
      fix c s3
      assume s3: "s \<le> s3" "s3 \<le> length b"
      obtain cl s4 where q: "peek_tok b s3 '')'' = (cl, s4)" by fastforce
      show "ends b s (case (c, s3) of (c, s3) \<Rightarrow> let (close1, s4) = peek_tok b s3 '')'' in
        if \<not> close1 then panic ''syntax - missing )'' else let (_, _, s5) = gettoken b s4 in parseredirs b c s5)"
      proof (cases cl)
        case True
        obtain s5 where h: "gettoken b s4 = (at b s4, (s4, s4 + 1), s5)" "s3 < s5" "s5 \<le> length b"
          using eat [of b s3 "'')''" s4] q True s3(2) by auto
        then show ?thesis using q True s3(1) ends_mono [OF parseredirs_ends [OF h(3)], of s c] by simp
      qed (use q in simp)
    qed
    then show ?thesis using p True g by simp
  qed (use p in simp)
qed

lemma parseexec_ends:
  assumes "s \<le> length b" "\<And>s1. s \<le> s1 \<Longrightarrow> s1 \<le> length b \<Longrightarrow> ends b s (parseblock n b s1)"
  shows "ends b s (parseexec (Suc n) b s)"
proof -
  obtain bl s1 where p: "peek_tok b s ''('' = (bl, s1)" by fastforce
  note P = peek_bounds [OF p assms(1)]
  have a: "ends b s1 (parseargs (length b + 1) b 0 c s2)" if "s1 \<le> s2" "s2 \<le> length b" for c s2
    by (rule ends_mono [OF parseargs_ends]) (use that in auto)
  have "ends b s1 (bindr (parseredirs b (EXEC []) s1) (\<lambda>(c, s2). parseargs (length b + 1) b 0 c s2))"
    by (rule ends_bind) (use P(2) a in \<open>auto simp del: parseargs.simps\<close>)
  then show ?thesis using p P assms(2) ends_mono by (auto simp del: parseargs.simps)
qed

text \<open>A fuel of \<open>4 * n + 4\<close> is enough for \<open>n\<close> characters: a turn through the four routines takes a parenthesis.\<close>

lemma parser_ends:
  "(\<forall>s\<le>length b. 4 * (length b - s) + 4 \<le> n \<longrightarrow> ends b s (parseline n b s)) \<and>
   (\<forall>s\<le>length b. 4 * (length b - s) + 3 \<le> n \<longrightarrow> ends b s (parsepipe n b s)) \<and>
   (\<forall>s\<le>length b. 4 * (length b - s) + 2 \<le> n \<longrightarrow> ends b s (parseexec n b s)) \<and>
   (\<forall>s\<le>length b. 4 * (length b - s) + 1 \<le> n \<longrightarrow> ends b s (parseblock n b s))"
proof (induction n)
  case (Suc n)
  have L: "ends b s (parseline n b s')" if "s \<le> s'" "s' \<le> length b" "4 * (length b - s') + 4 \<le> n" for s s'
    using Suc.IH that ends_mono by blast
  have Pi: "ends b s (parsepipe n b s')" if "s \<le> s'" "s' \<le> length b" "4 * (length b - s') + 3 \<le> n" for s s'
    using Suc.IH that ends_mono by blast
  have E: "ends b s (parseexec n b s')" if "s \<le> s'" "s' \<le> length b" "4 * (length b - s') + 2 \<le> n" for s s'
    using Suc.IH that ends_mono by blast
  have B: "ends b s (parseblock n b s')" if "s \<le> s'" "s' \<le> length b" "4 * (length b - s') + 1 \<le> n" for s s'
    using Suc.IH that ends_mono by blast
  show ?case
  proof (intro conjI allI impI)
    fix s
    assume s: "s \<le> length b" "4 * (length b - s) + 4 \<le> Suc n"
    show "ends b s (parseline (Suc n) b s)" by (rule parseline_ends) (use Pi L s in auto)
  next
    fix s
    assume s: "s \<le> length b" "4 * (length b - s) + 3 \<le> Suc n"
    show "ends b s (parsepipe (Suc n) b s)" by (rule parsepipe_ends) (use E Pi s in auto)
  next
    fix s
    assume s: "s \<le> length b" "4 * (length b - s) + 2 \<le> Suc n"
    show "ends b s (parseexec (Suc n) b s)" by (rule parseexec_ends) (use B s in auto)
  next
    fix s
    assume s: "s \<le> length b" "4 * (length b - s) + 1 \<le> Suc n"
    show "ends b s (parseblock (Suc n) b s)" by (rule parseblock_ends) (use L s in auto)
  qed
qed simp

text \<open>C13. The parser of the shell ends on every line: \<open>parsecmd\<close> returns a command or reports an error, within a number of
  nested calls that is linear in the length of the line, and an error is one of the messages of the code.\<close>

theorem parsecmd_ends: "(\<exists>c buf'. parsecmd buf = Inr (c, buf')) \<or> (\<exists>msg. parsecmd buf = Inl (Die msg))"
proof -
  let ?b = "takeWhile (\<lambda>c. c \<noteq> NUL) buf"
  have "ends ?b 0 (parseline (4 * length ?b + 4) ?b 0)" using parser_ends [of ?b "4 * length ?b + 4"] by simp
  then show ?thesis
  proof (cases "parseline (4 * length ?b + 4) ?b 0")
    case (Inl e)
    with \<open>ends _ _ _\<close> have "e \<noteq> Loop" by (simp add: ends_def)
    then show ?thesis using Inl by (cases e) (simp_all add: parsecmd_def Let_def)
  next
    case (Inr r)
    then show ?thesis by (cases r) (simp add: parsecmd_def Let_def split: prod.splits)
  qed
qed

end
