(* ===== verification/Shrun.thy ===== *)
theory Shrun
  imports Sh "HOL-Library.AList" "HOL-Library.Sublist"
begin

text \<open>
  Running a command (\<open>runcmd\<close> and \<open>main\<close> of \<open>user/sh.c\<close>). What a process of the shell will do is a tree of the system calls it
  makes, in their order, with what it does depending on their results; \<open>runcmd\<close> is the function from commands to these trees. The
  processes run concurrently: \<open>move\<close> is one system call of one process, a call of \<open>wait\<close> is only possible when a child has ended, and
  a list of moves is one interleaving. A process has a table of descriptors, of which \<open>close\<close>, \<open>dup\<close>, \<open>open\<close> and \<open>pipe\<close> use the
  lowest free ones, as \<open>fdalloc\<close> of the kernel does (lemma \<open>fdalloc_install\<close>). A process is named by its place in
  the tree of forks, and a pipe by the process that made it and the number of its forks before. Which files can be opened, which
  programs executed and which forks and pipes succeed are parameters, which may say different things for each process.
\<close>

section \<open>Descriptors\<close>

definition install :: "'x \<Rightarrow> 'x option list \<Rightarrow> (nat \<times> 'x option list) option" where
  "install x t = (case scan (\<lambda>i. t ! i = None) 0 (length t) of None \<Rightarrow> None | Some i \<Rightarrow> Some (i, t[i := Some x]))"

lemma fdalloc_install:
  assumes "cur s = Some p" "length (ofile (procs s p)) = NOFILE"
  shows "fdalloc f s = (case install f (ofile (procs s p)) of None \<Rightarrow> Inr (None, s)
    | Some (fd, t) \<Rightarrow> Inr (Some fd, updp p (\<lambda>r. r\<lparr>ofile := t\<rparr>) s))"
  using assms by (simp add: fdalloc_def install_def myproc_def set_ofile_def updp_def split: option.splits)

text \<open>The name of a process: the process \<open>p @ [k]\<close> is made by the fork number \<open>k\<close> of \<open>p\<close>.\<close>

type_synonym pname = "nat list"

datatype fobj = Inherited nat | Opened string u32 | PipeRead pname nat | PipeWrite pname nat

type_synonym fdt = "fobj option list"

definition fd_close :: "nat \<Rightarrow> fdt \<Rightarrow> fdt" where
  "fd_close fd t = t[fd := None]"

definition fd_dup :: "nat \<Rightarrow> fdt \<Rightarrow> fdt" where
  "fd_dup fd t =
     (if fd < length t then
        case t ! fd of None \<Rightarrow> t | Some x \<Rightarrow> (case install x t of None \<Rightarrow> t | Some (i, t1) \<Rightarrow> t1)
      else t)"

definition fd_pipe :: "pname \<Rightarrow> nat \<Rightarrow> fdt \<Rightarrow> (nat \<times> nat \<times> fdt) option" where
  "fd_pipe p k t =
     (case install (PipeRead p k) t of None \<Rightarrow> None
      | Some (p0, t1) \<Rightarrow> (case install (PipeWrite p k) t1 of None \<Rightarrow> None | Some (p1, t2) \<Rightarrow> Some (p0, p1, t2)))"

section \<open>The system calls of a process\<close>

text \<open>\<open>SExec\<close> goes on when it fails, \<open>SPrint\<close> writes to the error output, \<open>SFork\<close> has what the child, the parent and a parent
  whose call failed go on with; \<open>SHang\<close> is a process that makes no more calls.\<close>

datatype prog =
    SExec "string list" prog
  | SExit int
  | SPrint string prog
  | SClose nat prog
  | SOpen string u32 "nat option \<Rightarrow> prog"
  | SDup nat prog
  | SPipe "(nat \<times> nat) option \<Rightarrow> prog"
  | SFork prog prog prog
  | SWait prog
  | SChdir string "bool \<Rightarrow> prog"
  | SHang

definition sh_panic :: "string \<Rightarrow> prog" where
  "sh_panic msg = SPrint (msg @ [CHR 0x0A]) (SExit 1)"

definition fork1 :: "prog \<Rightarrow> prog \<Rightarrow> prog" where
  "fork1 child rest = SFork child rest (sh_panic ''fork'')"

definition cstring :: "string \<Rightarrow> nat \<Rightarrow> string" where
  "cstring buf q = takeWhile (\<lambda>c. c \<noteq> NUL) (drop q buf)"

primrec runcmd :: "cmd \<Rightarrow> string \<Rightarrow> prog" where
  "runcmd (EXEC ts) buf =
     (let argv = map (\<lambda>a. cstring buf (fst a)) ts in
      case argv of [] \<Rightarrow> SExit 1
      | a # _ \<Rightarrow> SExec argv (SPrint (''exec '' @ a @ '' failed'' @ [CHR 0x0A]) (SExit 0)))"
| "runcmd (REDIR c f m d) buf =
     (let name = cstring buf (fst f) in
      SClose d (SOpen name m (\<lambda>fd.
        if fd = None then SPrint (''open '' @ name @ '' failed'' @ [CHR 0x0A]) (SExit 1) else runcmd c buf)))"
| "runcmd (LIST l r) buf = fork1 (runcmd l buf) (SWait (runcmd r buf))"
| "runcmd (PIPE l r) buf =
     SPipe (\<lambda>p. case p of None \<Rightarrow> sh_panic ''pipe''
       | Some (p0, p1) \<Rightarrow>
         fork1 (SClose 1 (SDup p1 (SClose p0 (SClose p1 (runcmd l buf)))))
         (fork1 (SClose 0 (SDup p0 (SClose p0 (SClose p1 (runcmd r buf)))))
         (SClose p0 (SClose p1 (SWait (SWait (SExit 0)))))))"
| "runcmd (BACK c) buf = fork1 (runcmd c buf) (SExit 0)"

section \<open>The loop of the shell\<close>

text \<open>\<open>gets\<close> on a buffer of 100 characters: the line with its end, and the rest of the input.\<close>

fun getcmd :: "nat \<Rightarrow> string \<Rightarrow> string \<times> string" where
  "getcmd 0 inp = ([], inp)"
| "getcmd (Suc n) [] = ([], [])"
| "getcmd (Suc n) (c # inp) =
     (if c = CHR 0x0A \<or> c = CHR 0x0D then ([c], inp) else let (l, rest) = getcmd n inp in (c # l, rest))"

text \<open>A line: \<open>cd\<close> is done by the shell itself, everything else by a child, which the shell waits for.\<close>

definition sh_line :: "string \<Rightarrow> prog \<Rightarrow> prog" where
  "sh_line line rest =
     (if take 3 line = ''cd '' then
        let dir = drop 3 (butlast (takeWhile (\<lambda>c. c \<noteq> NUL) line)) in
        SChdir dir (\<lambda>ok. if ok then rest else SPrint (''cannot cd '' @ dir @ [CHR 0x0A]) rest)
      else fork1
        (case parsecmd line of
           Inl (Die msg) \<Rightarrow> SPrint msg (SExit 1)
         | Inl Loop \<Rightarrow> SHang
         | Inr (c, buf) \<Rightarrow> runcmd c buf)
        (SWait rest))"

lemma getcmd_split: "getcmd n inp = (l, rest) \<Longrightarrow> inp = l @ rest"
  by (induction n inp arbitrary: l rest rule: getcmd.induct) (auto simp: Let_def split: if_splits prod.splits)

function sh_loop :: "string \<Rightarrow> prog" where
  "sh_loop inp =
     SPrint ''$ '' (case getcmd 99 inp of (line, rest) \<Rightarrow>
       if line = [] \<or> hd line = NUL then SExit 0 else sh_line line (sh_loop rest))"
  by pat_completeness auto
termination
  by (relation "measure length") (auto dest!: sym [of _ "getcmd _ _"] getcmd_split)

declare sh_loop.simps [simp del]

text \<open>\<open>open\<close> of the console until the first three descriptors are in use; the descriptor grows with every turn, so that there are at
  most four.\<close>

primrec open_fds :: "nat \<Rightarrow> prog \<Rightarrow> prog" where
  "open_fds 0 rest = rest"
| "open_fds (Suc n) rest =
     SOpen ''console'' O_RDWR (\<lambda>r. case r of None \<Rightarrow> rest | Some fd \<Rightarrow> if fd \<ge> 3 then SClose fd rest else open_fds n rest)"

definition sh_main :: "string \<Rightarrow> prog" where
  "sh_main inp = open_fds 4 (sh_loop inp)"

section \<open>Processes\<close>

datatype event = Ran pname "string list" fdt | Wrote pname string | Exited pname int | Chdir pname string

record shenv =
  can_open :: "pname \<Rightarrow> string \<Rightarrow> u32 \<Rightarrow> bool"
  can_exec :: "pname \<Rightarrow> string \<Rightarrow> bool"
  can_fork :: "pname \<Rightarrow> nat \<Rightarrow> bool"
  can_pipe :: "pname \<Rightarrow> nat \<Rightarrow> bool"
  can_chdir :: "pname \<Rightarrow> string \<Rightarrow> bool"

text \<open>A process of the shell, with what it will do, its descriptors, the number of its forks and the children it has not
  waited for; a process that has become a program; a process that has ended.\<close>

datatype task = Live prog fdt nat "pname list" | Program "string list" fdt | Gone int

record shsys =
  tasks :: "(pname \<times> task) list"
  trace :: "event list"

definition task :: "shsys \<Rightarrow> pname \<Rightarrow> task option" where
  "task s p = map_of (tasks s) p"

definition put_task :: "pname \<Rightarrow> task \<Rightarrow> shsys \<Rightarrow> shsys" where
  "put_task p x s = s\<lparr>tasks := AList.update p x (tasks s)\<rparr>"

definition emit :: "event list \<Rightarrow> shsys \<Rightarrow> shsys" where
  "emit es s = s\<lparr>trace := trace s @ es\<rparr>"

text \<open>The next system call of a process, but for a \<open>wait\<close> that waits: what becomes of the process, the child it makes, and
  what can be seen of the call.\<close>

fun act :: "shenv \<Rightarrow> pname \<Rightarrow> prog \<Rightarrow> fdt \<Rightarrow> nat \<Rightarrow> pname list \<Rightarrow> (task \<times> task option \<times> event list) option" where
  "act E p (SExec argv q) t k C =
     (if can_exec E p (hd argv) then Some (Program argv t, None, [Ran p argv t]) else Some (Live q t k C, None, []))"
| "act E p (SExit n) t k C = Some (Gone n, None, [Exited p n])"
| "act E p (SPrint m q) t k C = Some (Live q t k C, None, [Wrote p m])"
| "act E p (SClose fd q) t k C = Some (Live q (fd_close fd t) k C, None, [])"
| "act E p (SOpen name m f) t k C =
     (case (if can_open E p name m then install (Opened name m) t else None) of
        None \<Rightarrow> Some (Live (f None) t k C, None, []) | Some (fd, t1) \<Rightarrow> Some (Live (f (Some fd)) t1 k C, None, []))"
| "act E p (SDup fd q) t k C = Some (Live q (fd_dup fd t) k C, None, [])"
| "act E p (SPipe f) t k C =
     (case (if can_pipe E p k then fd_pipe p k t else None) of
        None \<Rightarrow> Some (Live (f None) t k C, None, []) | Some (p0, p1, t1) \<Rightarrow> Some (Live (f (Some (p0, p1))) t1 k C, None, []))"
| "act E p (SFork c q e) t k C =
     (if can_fork E p k then Some (Live q t (k + 1) ((p @ [k]) # C), Some (Live c t 0 []), []) else Some (Live e t k C, None, []))"
| "act E p (SWait q) t k C = (if C = [] then Some (Live q t k [], None, []) else None)"
| "act E p (SChdir d f) t k C =
     (if can_chdir E p d then Some (Live (f True) t k C, None, [Chdir p d]) else Some (Live (f False) t k C, None, []))"
| "act E p SHang t k C = None"

text \<open>A move: a process makes a system call, \<open>wait\<close> returns for a child that has ended, or a program ends.\<close>

datatype shmove = Act pname | Reap pname pname | Finish pname int

definition gone :: "shsys \<Rightarrow> pname \<Rightarrow> bool" where
  "gone s p \<longleftrightarrow> (case task s p of Some (Gone n) \<Rightarrow> True | _ \<Rightarrow> False)"

fun move :: "shenv \<Rightarrow> shmove \<Rightarrow> shsys \<Rightarrow> shsys option" where
  "move E (Act p) s =
     (case task s p of
        Some (Live q t k C) \<Rightarrow>
          (case act E p q t k C of None \<Rightarrow> None
           | Some (x, c, es) \<Rightarrow> Some (emit es (put_task p x (case c of None \<Rightarrow> s | Some y \<Rightarrow> put_task (p @ [k]) y s))))
      | _ \<Rightarrow> None)"
| "move E (Reap p a) s =
     (case task s p of
        Some (Live (SWait q) t k C) \<Rightarrow> if a \<in> set C \<and> gone s a then Some (put_task p (Live q t k (removeAll a C)) s) else None
      | _ \<Rightarrow> None)"
| "move E (Finish p n) s =
     (case task s p of Some (Program argv t) \<Rightarrow> Some (emit [Exited p n] (put_task p (Gone n) s)) | _ \<Rightarrow> None)"

primrec run :: "shenv \<Rightarrow> shmove list \<Rightarrow> shsys \<Rightarrow> shsys option" where
  "run E [] s = Some s"
| "run E (m # ms) s = Option.bind (move E m s) (run E ms)"

definition start :: "prog \<Rightarrow> fdt \<Rightarrow> shsys" where
  "start q t = \<lparr>tasks = [([], Live q t 0 [])], trace = []\<rparr>"

section \<open>What a command stands for\<close>

text \<open>The programs that a command runs when process \<open>p\<close> has made \<open>k\<close> forks, each with its process, its input and its output.\<close>

primrec wires :: "cmd \<Rightarrow> shenv \<Rightarrow> string \<Rightarrow> fobj \<Rightarrow> fobj \<Rightarrow> pname \<Rightarrow> nat \<Rightarrow> (pname \<times> string list \<times> fobj \<times> fobj) list" where
  "wires (EXEC ts) E buf i out p k =
     (let argv = map (\<lambda>a. cstring buf (fst a)) ts in if ts \<noteq> [] \<and> can_exec E p (hd argv) then [(p, argv, i, out)] else [])"
| "wires (REDIR c f m d) E buf i out p k =
     (let x = Opened (cstring buf (fst f)) m in
      if can_open E p (cstring buf (fst f)) m then if d = 0 then wires c E buf x out p k else wires c E buf i x p k else [])"
| "wires (LIST l r) E buf i out p k = wires l E buf i out (p @ [k]) 0 @ wires r E buf i out p (k + 1)"
| "wires (PIPE l r) E buf i out p k =
     wires l E buf i (PipeWrite p k) (p @ [k]) 0 @ wires r E buf (PipeRead p k) out (p @ [k + 1]) 0"
| "wires (BACK c) E buf i out p k = wires c E buf i out (p @ [k]) 0"

text \<open>Who is waited for: \<open>(p, j, a)\<close> says that process \<open>p\<close> makes no fork after its first \<open>j\<close>, executes no program and does not
  end while process \<open>a\<close> is alive.\<close>

primrec waits :: "cmd \<Rightarrow> pname \<Rightarrow> nat \<Rightarrow> (pname \<times> nat \<times> pname) set" where
  "waits (EXEC ts) p k = {}"
| "waits (REDIR c f m d) p k = waits c p k"
| "waits (LIST l r) p k = insert (p, k + 1, p @ [k]) (waits l (p @ [k]) 0 \<union> waits r p (k + 1))"
| "waits (PIPE l r) p k =
     {(p, k + 2, p @ [k]), (p, k + 2, p @ [k + 1])} \<union> waits l (p @ [k]) 0 \<union> waits r (p @ [k + 1]) 0"
| "waits (BACK c) p k = waits c (p @ [k]) 0"

definition alive :: "shsys \<Rightarrow> pname \<Rightarrow> bool" where
  "alive s p \<longleftrightarrow> task s p \<noteq> None \<and> \<not> gone s p"

definition past :: "shsys \<Rightarrow> pname \<Rightarrow> nat \<Rightarrow> bool" where
  "past s p j \<longleftrightarrow> (case task s p of None \<Rightarrow> False | Some (Live q t k C) \<Rightarrow> j < k | _ \<Rightarrow> True)"

text \<open>No process of the shell is left: each has become a program or has ended.\<close>

definition settled :: "shsys \<Rightarrow> bool" where
  "settled s \<longleftrightarrow> (\<forall>(p, x) \<in> set (tasks s). case x of Live q t k C \<Rightarrow> False | _ \<Rightarrow> True)"

text \<open>The table of a process with input, output and error output, and nothing else open.\<close>

definition std :: "fobj \<Rightarrow> fobj \<Rightarrow> fobj \<Rightarrow> fdt" where
  "std i out e = [Some i, Some out, Some e] @ replicate 13 None"

fun programs :: "event list \<Rightarrow> (pname \<times> string list \<times> fdt) list" where
  "programs [] = []"
| "programs (Ran p argv t # es) = (p, argv, t) # programs es"
| "programs (_ # es) = programs es"

primrec redir_fds :: "cmd \<Rightarrow> bool" where
  "redir_fds (EXEC ts) = True"
| "redir_fds (REDIR c f m d) = ((d = 0 \<or> d = 1) \<and> redir_fds c)"
| "redir_fds (PIPE l r) = (redir_fds l \<and> redir_fds r)"
| "redir_fds (LIST l r) = (redir_fds l \<and> redir_fds r)"
| "redir_fds (BACK c) = redir_fds c"

lemma programs_append [simp]: "programs (xs @ ys) = programs xs @ programs ys"
  by (induction xs rule: programs.induct) auto

lemma std_nth [simp]: "length (std i out e) = 16"
  by (simp add: std_def)

lemma install_redir:
  "install x (fd_close 0 (std i out e)) = Some (0, std x out e)" "install x (fd_close 1 (std i out e)) = Some (1, std i x e)"
proof -
  have "scan (\<lambda>j. (std i out e)[0 := None] ! j = None) 0 16 = Some 0" by (rule scan_SomeI) (auto simp: std_def)
  then show "install x (fd_close 0 (std i out e)) = Some (0, std x out e)" by (simp add: install_def fd_close_def) (simp add: std_def)
  have "scan (\<lambda>j. (std i out e)[1 := None] ! j = None) 0 16 = Some 1" by (rule scan_SomeI) (auto simp: std_def)
  then show "install x (fd_close 1 (std i out e)) = Some (1, std i x e)" by (simp add: install_def fd_close_def) (simp add: std_def)
qed

lemma pipe_fds:
  obtains t where "fd_pipe p k (std i out e) = Some (3, 4, t)" "fd_close 4 (fd_close 3 (fd_dup 4 (fd_close 1 t))) = std i (PipeWrite p k) e"
    "fd_close 4 (fd_close 3 (fd_dup 3 (fd_close 0 t))) = std (PipeRead p k) out e" "fd_close 4 (fd_close 3 t) = std i out e"
proof -
  let ?t1 = "(std i out e)[3 := Some (PipeRead p k)]" and ?t = "(std i out e)[3 := Some (PipeRead p k), 4 := Some (PipeWrite p k)]"
  have a: "scan (\<lambda>j. std i out e ! j = None) 0 16 = Some 3" "scan (\<lambda>j. ?t1 ! j = None) 0 16 = Some 4"
    by (rule scan_SomeI; auto simp: std_def nth_Cons' nth_append)+
  have b: "scan (\<lambda>j. ?t[1 := None] ! j = None) 0 16 = Some 1" "scan (\<lambda>j. ?t[0 := None] ! j = None) 0 16 = Some 0"
    by (rule scan_SomeI; auto simp: std_def nth_Cons' nth_append)+
  show ?thesis
  proof (rule that [of ?t])
    show "fd_pipe p k (std i out e) = Some (3, 4, ?t)" using a by (simp add: fd_pipe_def install_def)
    show "fd_close 4 (fd_close 3 (fd_dup 4 (fd_close 1 ?t))) = std i (PipeWrite p k) e"
      using b(1) by (simp add: fd_close_def fd_dup_def install_def) (simp add: std_def eval_nat_numeral)
    show "fd_close 4 (fd_close 3 (fd_dup 3 (fd_close 0 ?t))) = std (PipeRead p k) out e"
      using b(2) by (simp add: fd_close_def fd_dup_def install_def) (simp add: std_def eval_nat_numeral)
    show "fd_close 4 (fd_close 3 ?t) = std i out e" by (simp add: fd_close_def std_def eval_nat_numeral)
  qed
qed

text \<open>The loop at the start leaves a shell that has the three descriptors with exactly these.\<close>

lemma open_fds_std:
  assumes "can_open E p ''console'' O_RDWR"
  shows "\<exists>t. act E p (open_fds (Suc n) rest) (std i out e) k C = Some (Live (SClose 3 rest) t k C, None, []) \<and> fd_close 3 t = std i out e"
proof -
  have "scan (\<lambda>j. std i out e ! j = None) 0 16 = Some 3" by (rule scan_SomeI) (auto simp: std_def nth_Cons' nth_append)
  then show ?thesis using assms by (simp add: install_def fd_close_def) (simp add: std_def eval_nat_numeral)
qed

section \<open>Every interleaving\<close>

lemma task_simps [simp]: "task (put_task p x s) = (task s)(p \<mapsto> x)" "task (emit es s) = task s" "trace (put_task p x s) = trace s"
  "trace (emit es s) = trace s @ es" "gone (emit es s) = gone s"
  by (auto simp: task_def put_task_def emit_def update_conv fun_eq_iff gone_def)

text \<open>A move in terms of the processes: the process that moves, and perhaps a new one.\<close>

lemma move_cases:
  assumes "move E m s = Some s'"
  obtains (acts) p q t k C x es where "task s p = Some (Live q t k C)" "act E p q t k C = Some (x, None, es)" "task s' = (task s)(p \<mapsto> x)" "trace s' = trace s @ es"
  | (forks) p q t k C x y es where "task s p = Some (Live q t k C)" "act E p q t k C = Some (x, Some y, es)" "task s' = (task s)(p @ [k] \<mapsto> y, p \<mapsto> x)" "trace s' = trace s @ es"
  | (reaps) p q t k C a where "task s p = Some (Live (SWait q) t k C)" "a \<in> set C" "gone s a" "task s' = (task s)(p \<mapsto> Live q t k (removeAll a C))" "trace s' = trace s"
  | (ends) p argv t n where "task s p = Some (Program argv t)" "task s' = (task s)(p \<mapsto> Gone n)" "trace s' = trace s @ [Exited p n]"
proof (cases m)
  case (Act p)
  then show ?thesis using assms acts forks by (auto split: option.splits task.splits prod.splits)
next
  case (Reap p a)
  then show ?thesis using assms reaps by (auto split: option.splits task.splits prog.splits if_splits)
next
  case (Finish p n)
  then show ?thesis using assms ends by (auto split: option.splits task.splits)
qed

text \<open>The programs that a process will run, or its children, when nothing hinders it.\<close>

primrec owes :: "prog \<Rightarrow> shenv \<Rightarrow> fdt \<Rightarrow> pname \<Rightarrow> nat \<Rightarrow> (pname \<times> string list \<times> fdt) set" where
  "owes (SExec argv q) E t p k = (if can_exec E p (hd argv) then {(p, argv, t)} else owes q E t p k)"
| "owes (SExit n) E t p k = {}"
| "owes (SPrint m q) E t p k = owes q E t p k"
| "owes (SClose fd q) E t p k = owes q E (fd_close fd t) p k"
| "owes (SOpen name m f) E t p k =
     (case (if can_open E p name m then install (Opened name m) t else None) of
        None \<Rightarrow> owes (f None) E t p k | Some (fd, t1) \<Rightarrow> owes (f (Some fd)) E t1 p k)"
| "owes (SDup fd q) E t p k = owes q E (fd_dup fd t) p k"
| "owes (SPipe f) E t p k =
     (case (if can_pipe E p k then fd_pipe p k t else None) of
        None \<Rightarrow> owes (f None) E t p k | Some (p0, p1, t1) \<Rightarrow> owes (f (Some (p0, p1))) E t1 p k)"
| "owes (SFork c q e) E t p k =
     (if can_fork E p k then owes c E t (p @ [k]) 0 \<union> owes q E t p (k + 1) else owes e E t p k)"
| "owes (SWait q) E t p k = owes q E t p k"
| "owes (SChdir d f) E t p k = owes (f (can_chdir E p d)) E t p k"
| "owes SHang E t p k = {}"

fun task_owes :: "shenv \<Rightarrow> pname \<Rightarrow> task \<Rightarrow> (pname \<times> string list \<times> fdt) set" where
  "task_owes E p (Live q t k C) = owes q E t p k"
| "task_owes E p x = {}"

lemma act_owes:
  assumes "act E p q t k C = Some (x, c, es)"
  shows "owes q E t p k = set (programs es) \<union> task_owes E p x \<union> (case c of None \<Rightarrow> {} | Some y \<Rightarrow> task_owes E (p @ [k]) y)"
  using assms by (cases q) (auto split: if_splits option.splits prod.splits)

text \<open>A child has a parent, and a process of the shell has made the children that its number of forks says.\<close>

definition tree_ok :: "shsys \<Rightarrow> bool" where
  "tree_ok s \<longleftrightarrow> (\<forall>p j. task s (p @ [j]) \<noteq> None \<longrightarrow> task s p \<noteq> None) \<and>
     (\<forall>p q t k C j. task s p = Some (Live q t k C) \<and> k \<le> j \<longrightarrow> task s (p @ [j]) = None)"

lemma tree_fresh: "tree_ok s \<Longrightarrow> task s p = Some (Live q t k C) \<Longrightarrow> k \<le> j \<Longrightarrow> task s (p @ [j]) = None"
  unfolding tree_ok_def by blast

lemma act_forks: "act E p q t k C = Some (x, c, es) \<Longrightarrow> (\<exists>q' t'. x = Live q' t' k C) \<and> c = None \<or> c = None \<and> (\<forall>q t k C. x \<noteq> Live q t k C) \<or>
    (\<exists>q' c' t'. x = Live q' t' (k + 1) ((p @ [k]) # C) \<and> c = Some (Live c' t' 0 []))"
  by (cases q) (auto split: if_splits option.splits prod.splits)

lemma move_tree:
  assumes "move E m s = Some s'" "tree_ok s"
  shows "tree_ok s'"
  using assms(1)
proof (cases rule: move_cases)
  case (acts p q t k C x es)
  from act_forks [OF acts(2)] show ?thesis using assms(2) acts unfolding tree_ok_def by (auto simp: fun_upd_apply)
next
  case (forks p q t k C x y es)
  from act_forks [OF forks(2)] obtain q' c' t' where x: "x = Live q' t' (k + 1) ((p @ [k]) # C)" "y = Live c' t' 0 []" by auto
  have "task s (p @ [k]) = None" by (rule tree_fresh [OF assms(2) forks(1)]) simp
  then have n: "task s ((p @ [k]) @ [j]) = None" for j using assms(2) unfolding tree_ok_def by blast
  show ?thesis unfolding tree_ok_def
  proof (intro conjI allI impI)
    fix r j assume "task s' (r @ [j]) \<noteq> None"
    moreover have "task s (r @ [j]) \<noteq> None \<Longrightarrow> task s r \<noteq> None" using assms(2) unfolding tree_ok_def by blast
    ultimately show "task s' r \<noteq> None" using forks(1) by (auto simp: forks(3) fun_upd_apply split: if_splits)
  next
    fix r q1 t1 k1 C1 j assume r: "task s' r = Some (Live q1 t1 k1 C1) \<and> k1 \<le> j"
    consider "r = p" | "r = p @ [k]" | "r \<noteq> p" "r \<noteq> p @ [k]" by blast
    then show "task s' (r @ [j]) = None"
    proof cases
      case 1
      then show ?thesis using r tree_fresh [OF assms(2) forks(1), of j] by (simp add: forks(3) x)
    next
      case 2
      then show ?thesis using n by (simp add: forks(3))
    next
      case 3
      then have "task s (r @ [j]) = None" using r tree_fresh [OF assms(2), of r] by (auto simp: forks(3))
      then show ?thesis using 3 forks(1) by (auto simp: forks(3) fun_upd_apply)
    qed
  qed
next
  case (reaps p q t k C a)
  then show ?thesis using assms(2) unfolding tree_ok_def by (auto simp: fun_upd_apply)
next
  case (ends p argv t n)
  then show ?thesis using assms(2) unfolding tree_ok_def by (auto simp: fun_upd_apply)
qed

text \<open>What has run and what is still to run does not change.\<close>

definition to_run :: "shenv \<Rightarrow> shsys \<Rightarrow> (pname \<times> string list \<times> fdt) set" where
  "to_run E s = {z. \<exists>p x. task s p = Some x \<and> z \<in> task_owes E p x}"

definition others_run :: "shenv \<Rightarrow> shsys \<Rightarrow> pname \<Rightarrow> (pname \<times> string list \<times> fdt) set" where
  "others_run E s p = {z. \<exists>r x. r \<noteq> p \<and> task s r = Some x \<and> z \<in> task_owes E r x}"

lemma to_run_split: "task s p = Some x \<Longrightarrow> to_run E s = task_owes E p x \<union> others_run E s p"
  unfolding to_run_def others_run_def by (auto, metis option.inject)

lemma others_run_upd:
  assumes "task s' = (task s)(p \<mapsto> x)"
  shows "others_run E s' p = others_run E s p"
  unfolding others_run_def assms by (intro Collect_cong ex_cong1) auto

lemma move_to_run:
  assumes "move E m s = Some s'" "tree_ok s"
  shows "set (programs (trace s')) \<union> to_run E s' = set (programs (trace s)) \<union> to_run E s"
  using assms(1)
proof (cases rule: move_cases)
  case (acts p q t k C x es)
  have "to_run E s' = task_owes E p x \<union> others_run E s p" using to_run_split [of s' p x] others_run_upd [OF acts(3)] acts(3) by simp
  then show ?thesis using to_run_split [OF acts(1), of E] act_owes [OF acts(2)] acts(4) by auto
next
  case (forks p q t k C x y es)
  have f: "task s (p @ [k]) = None" by (rule tree_fresh [OF assms(2) forks(1)]) simp
  have "others_run E s' p = task_owes E (p @ [k]) y \<union> others_run E s p"
  proof (intro set_eqI iffI)
    fix z assume "z \<in> others_run E s' p"
    then obtain r u where r: "r \<noteq> p" "task s' r = Some u" "z \<in> task_owes E r u" by (auto simp: others_run_def)
    then show "z \<in> task_owes E (p @ [k]) y \<union> others_run E s p"
      by (cases "r = p @ [k]") (auto simp: forks(3) others_run_def)
  next
    fix z assume "z \<in> task_owes E (p @ [k]) y \<union> others_run E s p"
    then consider "z \<in> task_owes E (p @ [k]) y" | r u where "r \<noteq> p" "task s r = Some u" "z \<in> task_owes E r u" by (auto simp: others_run_def)
    then show "z \<in> others_run E s' p"
    proof cases
      case 1
      then show ?thesis unfolding others_run_def by (auto simp: forks(3) intro!: exI [of _ "p @ [k]"])
    next
      case 2
      then show ?thesis using f unfolding others_run_def by (auto simp: forks(3) intro!: exI [of _ r])
    qed
  qed
  then have "to_run E s' = task_owes E p x \<union> task_owes E (p @ [k]) y \<union> others_run E s p" using to_run_split [of s' p x E] forks(3) by auto
  then show ?thesis using to_run_split [OF forks(1), of E] act_owes [OF forks(2)] forks(4) by auto
next
  case (reaps p q t k C a)
  have "to_run E s' = task_owes E p (Live q t k (removeAll a C)) \<union> others_run E s p"
    using to_run_split [of s' p] others_run_upd [OF reaps(4)] reaps(4) by simp
  then show ?thesis using to_run_split [OF reaps(1), of E] reaps(5) by simp
next
  case (ends p argv t n)
  have "to_run E s' = task_owes E p (Gone n) \<union> others_run E s p" using to_run_split [of s' p] others_run_upd [OF ends(2)] ends(2) by simp
  then show ?thesis using to_run_split [OF ends(1), of E] ends(3) by simp
qed

text \<open>No process becomes a program twice.\<close>

primrec is_live :: "task \<Rightarrow> bool" where
  "is_live (Live q t k C) = True"
| "is_live (Program argv t) = False"
| "is_live (Gone n) = False"

definition left_shell :: "shsys \<Rightarrow> pname \<Rightarrow> bool" where
  "left_shell s p \<longleftrightarrow> (case task s p of None \<Rightarrow> False | Some x \<Rightarrow> \<not> is_live x)"

lemma move_left_shell:
  assumes "move E m s = Some s'" "tree_ok s" "left_shell s r"
  shows "left_shell s' r"
  using assms(1)
proof (cases rule: move_cases)
  case (acts p q t k C x es)
  then show ?thesis using assms(3) by (auto simp: left_shell_def)
next
  case (forks p q t k C x y es)
  have f: "task s (p @ [k]) = None" by (rule tree_fresh [OF assms(2) forks(1)]) simp
  then show ?thesis using assms(3) forks by (auto simp: left_shell_def)
next
  case (reaps p q t k C a)
  then show ?thesis using assms(3) by (auto simp: left_shell_def)
next
  case (ends p argv t n)
  then show ?thesis using assms(3) by (auto simp: left_shell_def)
qed

definition ran_once :: "shsys \<Rightarrow> bool" where
  "ran_once s \<longleftrightarrow> distinct (map fst (programs (trace s))) \<and> (\<forall>p \<in> fst ` set (programs (trace s)). left_shell s p)"

lemma act_ran: "act E p q t k C = Some (x, c, es) \<Longrightarrow> programs es = [] \<or> (\<exists>argv. programs es = [(p, argv, t)] \<and> x = Program argv t \<and> c = None)"
  by (cases q) (auto split: if_splits option.splits prod.splits)

lemma move_ran_once:
  assumes "move E m s = Some s'" "tree_ok s" "ran_once s"
  shows "ran_once s'"
proof -
  have l: "\<forall>z \<in> set (programs (trace s)). left_shell s' (fst z)"
    using move_left_shell [OF assms(1,2)] assms(3) by (simp add: ran_once_def)
  have new: "programs (trace s') = programs (trace s) \<or> (\<exists>p argv t. programs (trace s') = programs (trace s) @ [(p, argv, t)] \<and> \<not> left_shell s p \<and> left_shell s' p)"
    using assms(1)
  proof (cases rule: move_cases)
    case (acts p q t k C x es)
    then show ?thesis using act_ran [OF acts(2)] by (auto simp: left_shell_def)
  next
    case (forks p q t k C x y es)
    then show ?thesis using act_ran [OF forks(2)] by auto
  qed simp_all
  then show ?thesis using assms(3) l unfolding ran_once_def by fastforce
qed

section \<open>Waiting\<close>

text \<open>Along what a process will do: it has its standard descriptors and no others whenever it waits.\<close>

primrec tidy :: "prog \<Rightarrow> shenv \<Rightarrow> fobj \<Rightarrow> fdt \<Rightarrow> pname \<Rightarrow> nat \<Rightarrow> bool" where
  "tidy (SExec argv q) E e t p k = tidy q E e t p k"
| "tidy (SExit n) E e t p k = True"
| "tidy (SPrint m q) E e t p k = tidy q E e t p k"
| "tidy (SClose fd q) E e t p k = tidy q E e (fd_close fd t) p k"
| "tidy (SOpen name m f) E e t p k =
     (case (if can_open E p name m then install (Opened name m) t else None) of
        None \<Rightarrow> tidy (f None) E e t p k | Some (fd, t1) \<Rightarrow> tidy (f (Some fd)) E e t1 p k)"
| "tidy (SDup fd q) E e t p k = tidy q E e (fd_dup fd t) p k"
| "tidy (SPipe f) E e t p k =
     (case (if can_pipe E p k then fd_pipe p k t else None) of
        None \<Rightarrow> tidy (f None) E e t p k | Some (p0, p1, t1) \<Rightarrow> tidy (f (Some (p0, p1))) E e t1 p k)"
| "tidy (SFork c q x) E e t p k =
     (if can_fork E p k then tidy c E e t (p @ [k]) 0 \<and> tidy q E e t p (k + 1) else tidy x E e t p k)"
| "tidy (SWait q) E e t p k = ((\<exists>i out. t = std i out e) \<and> tidy q E e t p k)"
| "tidy (SChdir d f) E e t p k = tidy (f (can_chdir E p d)) E e t p k"
| "tidy SHang E e t p k = True"

text \<open>Along what a process with children \<open>C\<close> that it has not waited for will do: before a fork, a program and its end it has
  waited for those that \<open>W\<close> tells.\<close>

definition free_to_fork :: "(pname \<times> nat \<times> pname) set \<Rightarrow> pname \<Rightarrow> nat \<Rightarrow> pname list \<Rightarrow> bool" where
  "free_to_fork W p k C \<longleftrightarrow> (\<forall>j a. (p, j, a) \<in> W \<and> j \<le> k \<longrightarrow> a \<notin> set C)"

definition free_to_go :: "(pname \<times> nat \<times> pname) set \<Rightarrow> pname \<Rightarrow> pname list \<Rightarrow> bool" where
  "free_to_go W p C \<longleftrightarrow> (\<forall>j a. (p, j, a) \<in> W \<longrightarrow> a \<notin> set C)"

primrec waited :: "prog \<Rightarrow> shenv \<Rightarrow> (pname \<times> nat \<times> pname) set \<Rightarrow> fdt \<Rightarrow> pname \<Rightarrow> nat \<Rightarrow> pname list \<Rightarrow> bool" where
  "waited (SExec argv q) E W t p k C = (if can_exec E p (hd argv) then free_to_go W p C else waited q E W t p k C)"
| "waited (SExit n) E W t p k C = free_to_go W p C"
| "waited (SPrint m q) E W t p k C = waited q E W t p k C"
| "waited (SClose fd q) E W t p k C = waited q E W (fd_close fd t) p k C"
| "waited (SOpen name m f) E W t p k C =
     (case (if can_open E p name m then install (Opened name m) t else None) of
        None \<Rightarrow> waited (f None) E W t p k C | Some (fd, t1) \<Rightarrow> waited (f (Some fd)) E W t1 p k C)"
| "waited (SDup fd q) E W t p k C = waited q E W (fd_dup fd t) p k C"
| "waited (SPipe f) E W t p k C =
     (case (if can_pipe E p k then fd_pipe p k t else None) of
        None \<Rightarrow> waited (f None) E W t p k C | Some (p0, p1, t1) \<Rightarrow> waited (f (Some (p0, p1))) E W t1 p k C)"
| "waited (SFork c q x) E W t p k C =
     (if can_fork E p k then free_to_fork W p k C \<and> waited c E W t (p @ [k]) 0 [] \<and> waited q E W t p (k + 1) ((p @ [k]) # C)
      else waited x E W t p k C)"
| "waited (SWait q) E W t p k C = (if C = [] then waited q E W t p k [] else (\<forall>a \<in> set C. waited q E W t p k (removeAll a C)))"
| "waited (SChdir d f) E W t p k C = waited (f (can_chdir E p d)) E W t p k C"
| "waited SHang E W t p k C = True"

fun task_good :: "shenv \<Rightarrow> fobj \<Rightarrow> (pname \<times> nat \<times> pname) set \<Rightarrow> pname \<Rightarrow> task \<Rightarrow> bool" where
  "task_good E e W p (Live q t k C) = (tidy q E e t p k \<and> waited q E W t p k C)"
| "task_good E e W p x = True"

lemma act_good:
  assumes "act E p q t k C = Some (x, c, es)" "tidy q E e t p k" "waited q E W t p k C"
  shows "task_good E e W p x" "case c of None \<Rightarrow> True | Some y \<Rightarrow> task_good E e W (p @ [k]) y"
  using assms by (cases q; auto split: if_splits option.splits prod.splits)+

lemma move_good:
  assumes "move E m s = Some s'" "\<And>p x. task s p = Some x \<Longrightarrow> task_good E e W p x" "task s' p = Some x"
  shows "task_good E e W p x"
  using assms(1)
proof (cases rule: move_cases)
  case (acts r q t k C y es)
  then have g: "tidy q E e t r k" "waited q E W t r k C" using assms(2) [OF acts(1)] by simp_all
  then show ?thesis using act_good(1) [OF acts(2) g] assms(2,3) acts(3) by (auto split: if_splits)
next
  case (forks r q t k C y z es)
  then have g: "tidy q E e t r k" "waited q E W t r k C" using assms(2) [OF forks(1)] by simp_all
  then show ?thesis using act_good [OF forks(2) g] assms(2,3) forks(3) by (auto split: if_splits)
next
  case (reaps r q t k C a)
  then show ?thesis using assms(2) [OF reaps(1)] assms(2,3) by (auto split: if_splits)
next
  case (ends r argv t n)
  then show ?thesis using assms(2,3) by (auto split: if_splits)
qed

text \<open>The children of a process of the shell: it has not waited for them, or they have ended.\<close>

definition kids_ok :: "shsys \<Rightarrow> bool" where
  "kids_ok s \<longleftrightarrow> (\<forall>p q t k C j. task s p = Some (Live q t k C) \<and> j < k \<longrightarrow> p @ [j] \<in> set C \<or> gone s (p @ [j]))"

lemma kidsD: "kids_ok s \<Longrightarrow> task s p = Some (Live q t k C) \<Longrightarrow> j < k \<Longrightarrow> p @ [j] \<in> set C \<or> gone s (p @ [j])"
  unfolding kids_ok_def by blast

lemma gone_task: "gone s p \<longleftrightarrow> (\<exists>n. task s p = Some (Gone n))"
  by (auto simp: gone_def split: option.splits task.splits)

lemma move_gone:
  assumes "move E m s = Some s'" "tree_ok s" "gone s a"
  shows "gone s' a"
  using assms(1)
proof (cases rule: move_cases)
  case (forks p q t k C x y es)
  have "task s (p @ [k]) = None" by (rule tree_fresh [OF assms(2) forks(1)]) simp
  then show ?thesis using assms(3) forks by (auto simp: gone_task)
qed (use assms(3) in \<open>auto simp: gone_task\<close>)

lemma move_kids:
  assumes "move E m s = Some s'" "tree_ok s" "kids_ok s"
  shows "kids_ok s'"
  unfolding kids_ok_def
proof (intro allI impI)
  fix r q1 t1 k1 C1 j assume r: "task s' r = Some (Live q1 t1 k1 C1) \<and> j < k1"
  note g = move_gone [OF assms(1,2)] and o = kidsD [OF assms(3)]
  show "r @ [j] \<in> set C1 \<or> gone s' (r @ [j])"
    using assms(1)
  proof (cases rule: move_cases)
    case (acts p q t k C x es)
    then show ?thesis using act_forks [OF acts(2)] r o [of p q t k C j] o [of r q1 t1 k1 C1 j] g by (cases "r = p") auto
  next
    case (forks p q t k C x y es)
    then show ?thesis using act_forks [OF forks(2)] r o [of p q t k C j] o [of r q1 t1 k1 C1 j] g
      by (cases "r = p"; cases "r = p @ [k]") (auto simp: less_Suc_eq)
  next
    case (reaps p q t k C a)
    then show ?thesis using r o [of p "SWait q" t k C j] o [of r q1 t1 k1 C1 j] g by (cases "r = p") auto
  next
    case (ends p argv t n)
    then show ?thesis using r o [of r q1 t1 k1 C1 j] g by (cases "r = p") auto
  qed
qed

definition pass_ok :: "(pname \<times> nat \<times> pname) set \<Rightarrow> shsys \<Rightarrow> bool" where
  "pass_ok W s \<longleftrightarrow> (\<forall>(p, j, a) \<in> W. past s p j \<longrightarrow> \<not> alive s a)"

lemma act_go:
  assumes "act E p q t k C = Some (x, c, es)" "waited q E W t p k C"
  shows "\<not> is_live x \<Longrightarrow> free_to_go W p C" "c \<noteq> None \<Longrightarrow> free_to_fork W p k C"
  using assms by (cases q; auto split: if_splits option.splits prod.splits)+

lemma past_simps: "task s p = None \<Longrightarrow> \<not> past s p j" "task s p = Some (Live q t k C) \<Longrightarrow> past s p j \<longleftrightarrow> j < k"
  "task s p = Some x \<Longrightarrow> \<not> is_live x \<Longrightarrow> past s p j"
  by (auto simp: past_def split: task.splits)

text \<open>A process that is not alive is not made or revived when its parent is past it.\<close>

lemma move_not_alive:
  assumes "move E m s = Some s'" "\<not> alive s (p @ [i])" "past s p j" "i < j"
  shows "\<not> alive s' (p @ [i])"
  using assms(1)
proof (cases rule: move_cases)
  case (acts r q t k C x es)
  then show ?thesis using assms(2) by (auto simp: alive_def gone_task)
next
  case (forks r q t k C x y es)
  have "r @ [k] \<noteq> p @ [i]" using assms(3,4) forks(1) past_simps(2) by fastforce
  then show ?thesis using forks assms(2) by (auto simp: alive_def gone_task)
next
  case (reaps r q t k C a)
  then show ?thesis using assms(2) by (auto simp: alive_def gone_task)
next
  case (ends r argv t n)
  then show ?thesis using assms(2) by (auto simp: alive_def gone_task)
qed

lemma move_becomes_past:
  assumes "move E m s = Some s'" "tree_ok s" "kids_ok s" "\<And>p x. task s p = Some x \<Longrightarrow> task_good E e W p x"
    "(p, j, p @ [i]) \<in> W" "i < j" "\<not> past s p j" "past s' p j"
  shows "\<not> alive s' (p @ [i])"
proof -
  have gn: "\<not> alive s' (p @ [i])" if "gone s (p @ [i])" using move_gone [OF assms(1,2) that] by (simp add: alive_def)
  show ?thesis using assms(1)
  proof (cases rule: move_cases)
    case (acts r q t k C x es)
    have rp: "r = p" using assms(7,8) acts(3) by (auto simp: past_def split: if_splits)
    have w: "waited q E W t p k C" using assms(4) [OF acts(1)] rp by simp
    have "\<not> is_live x"
    proof
      assume "is_live x"
      then obtain q' t' where "x = Live q' t' k C" using act_forks [OF acts(2)] by (cases x) auto
      then show False using assms(7,8) past_simps(2) [OF acts(1), of j] past_simps(2) [of s' p q' t' k C j] acts(3) rp by simp
    qed
    then have "p @ [i] \<notin> set C" using act_go(1) [OF acts(2) [unfolded rp] w] assms(5) by (auto simp: free_to_go_def)
    then show ?thesis using gn kidsD [OF assms(3) acts(1), of i] tree_fresh [OF assms(2) acts(1), of i] rp acts(3)
      by (cases "i < k") (auto simp: alive_def)
  next
    case (forks r q t k C x y es)
    from act_forks [OF forks(2)] obtain q' c' t' where x: "x = Live q' t' (k + 1) ((r @ [k]) # C)" "y = Live c' t' 0 []" by auto
    have rp: "r = p" using assms(7,8) forks(3) past_simps(2) [of s' "r @ [k]"] x(2) by (cases "p = r @ [k]") (auto simp: past_def split: if_splits)
    have w: "waited q E W t p k C" using assms(4) [OF forks(1)] rp by simp
    have "j \<le> k" using assms(8) past_simps(2) [of s' p] forks(3) x(1) rp by auto
    moreover have "p @ [i] \<notin> set C" using act_go(2) [OF forks(2) [unfolded rp] w] assms(5) \<open>j \<le> k\<close> by (auto simp: free_to_fork_def)
    ultimately show ?thesis using gn kidsD [OF assms(3) forks(1), of i] assms(6) rp by auto
  next
    case (reaps r q t k C a)
    then show ?thesis using assms(7,8) by (auto simp: past_def split: if_splits)
  next
    case (ends r argv t n)
    then show ?thesis using assms(7,8) by (auto simp: past_def split: if_splits)
  qed
qed

text \<open>What holds in every state of every interleaving.\<close>

definition shell_inv :: "shenv \<Rightarrow> fobj \<Rightarrow> (pname \<times> nat \<times> pname) set \<Rightarrow> (pname \<times> string list \<times> fdt) set \<Rightarrow> shsys \<Rightarrow> bool" where
  "shell_inv E e W Q s \<longleftrightarrow> tree_ok s \<and> kids_ok s \<and> ran_once s \<and> (\<forall>p x. task s p = Some x \<longrightarrow> task_good E e W p x) \<and> pass_ok W s \<and>
     set (programs (trace s)) \<union> to_run E s = Q"

lemma move_inv:
  assumes "move E m s = Some s'" "shell_inv E e W Q s" "\<And>p j a. (p, j, a) \<in> W \<Longrightarrow> \<exists>i<j. a = p @ [i]"
  shows "shell_inv E e W Q s'"
proof -
  have i: "tree_ok s" "kids_ok s" "ran_once s" "\<And>p x. task s p = Some x \<Longrightarrow> task_good E e W p x" "pass_ok W s"
    "set (programs (trace s)) \<union> to_run E s = Q" using assms(2) by (simp_all add: shell_inv_def)
  have "\<not> alive s' a" if w: "(p, j, a) \<in> W" "past s' p j" for p j a
  proof -
    obtain n where n: "n < j" "a = p @ [n]" using assms(3) [OF w(1)] by blast
    show ?thesis
    proof (cases "past s p j")
      case True
      then have "\<not> alive s a" using i(5) w(1) by (auto simp: pass_ok_def)
      then show ?thesis using move_not_alive [OF assms(1) _ True n(1)] n(2) by simp
    next
      case False
      then show ?thesis using move_becomes_past [OF assms(1) i(1,2,4)] w n by blast
    qed
  qed
  then have "pass_ok W s'" by (auto simp: pass_ok_def)
  moreover have "task_good E e W p x" if "task s' p = Some x" for p x using move_good [OF assms(1) i(4) that] .
  ultimately show ?thesis unfolding shell_inv_def
    using move_tree [OF assms(1) i(1)] move_kids [OF assms(1) i(1,2)] move_ran_once [OF assms(1) i(1,3)] move_to_run [OF assms(1) i(1)] i(6) by blast
qed

lemma run_inv:
  assumes "run E ms s = Some s'" "shell_inv E e W Q s" "\<And>p j a. (p, j, a) \<in> W \<Longrightarrow> \<exists>i<j. a = p @ [i]"
  shows "shell_inv E e W Q s'"
  using assms(1,2)
proof (induction ms arbitrary: s)
  case (Cons m ms)
  then obtain s1 where "move E m s = Some s1" "run E ms s1 = Some s'" by (auto split: Option.bind_splits)
  then show ?case using Cons.IH move_inv [OF _ Cons.prems(2) assms(3)] by blast
qed simp

lemma start_inv:
  assumes "tidy q E e t [] 0" "waited q E W t [] 0 []"
  shows "shell_inv E e W (owes q E t [] 0) (start q t)"
proof -
  have t: "task (start q t) = [[] \<mapsto> Live q t 0 []]" by (auto simp: start_def task_def)
  have "trace (start q t) = []" by (simp add: start_def)
  then show ?thesis using assms unfolding shell_inv_def tree_ok_def kids_ok_def ran_once_def pass_ok_def to_run_def t
    by (auto simp: past_def t split: if_splits option.splits)
qed

lemma settled_to_run:
  assumes "settled s"
  shows "to_run E s = {}"
proof -
  have "task_owes E p x = {}" if "task s p = Some x" for p x
  proof -
    have "(p, x) \<in> set (tasks s)" using that by (simp add: task_def map_of_SomeD)
    then show ?thesis using assms unfolding settled_def by (cases x) (simp_all, force)
  qed
  then show ?thesis by (auto simp: to_run_def)
qed

section \<open>Commands\<close>

lemma owes_runcmd:
  assumes "\<And>p k. can_fork E p k" "\<And>p k. can_pipe E p k" "redir_fds c"
  shows "owes (runcmd c buf) E (std i out e) p k = (\<lambda>(p, argv, x, y). (p, argv, std x y e)) ` set (wires c E buf i out p k)"
  using assms(3)
proof (induction c arbitrary: i out p k)
  case (EXEC ts)
  then show ?case by (cases ts) (simp_all add: Let_def)
next
  case (REDIR c f m d)
  then have "d = 0 \<or> d = 1" by simp
  then show ?case using REDIR install_redir [of _ i out e] by (elim disjE) (simp_all add: Let_def)
next
  case (PIPE l r)
  obtain t where t: "fd_pipe p k (std i out e) = Some (3, 4, t)" "fd_close 4 (fd_close 3 (fd_dup 4 (fd_close 1 t))) = std i (PipeWrite p k) e"
    "fd_close 4 (fd_close 3 (fd_dup 3 (fd_close 0 t))) = std (PipeRead p k) out e" "fd_close 4 (fd_close 3 t) = std i out e" by (rule pipe_fds)
  then show ?case using PIPE by (simp add: fork1_def assms(1,2) image_Un)
next
  case (LIST l r)
  then show ?case by (simp add: fork1_def assms(1) image_Un)
next
  case (BACK c)
  then show ?case by (simp add: fork1_def assms(1))
qed

lemma tidy_runcmd:
  assumes "\<And>p k. can_fork E p k" "\<And>p k. can_pipe E p k" "redir_fds c"
  shows "tidy (runcmd c buf) E e (std i out e) p k"
  using assms(3)
proof (induction c arbitrary: i out p k)
  case (EXEC ts)
  then show ?case by (cases ts) (simp_all add: Let_def)
next
  case (REDIR c f m d i out p k)
  then have "d = 0 \<or> d = 1" by simp
  then show ?case using REDIR install_redir [of _ i out e] by (elim disjE) (simp_all add: Let_def)
next
  case (PIPE l r i out p k)
  obtain t where t: "fd_pipe p k (std i out e) = Some (3, 4, t)" "fd_close 4 (fd_close 3 (fd_dup 4 (fd_close 1 t))) = std i (PipeWrite p k) e"
    "fd_close 4 (fd_close 3 (fd_dup 3 (fd_close 0 t))) = std (PipeRead p k) out e" "fd_close 4 (fd_close 3 t) = std i out e" by (rule pipe_fds)
  then show ?case using PIPE by (auto simp: fork1_def assms(1,2))
next
  case (LIST l r)
  then show ?case by (auto simp: fork1_def assms(1))
next
  case (BACK c)
  then show ?case by (simp add: fork1_def assms(1))
qed

text \<open>The processes that \<open>waits\<close> speaks of are below the process and come after its first \<open>k\<close> forks.\<close>

definition under :: "pname \<Rightarrow> nat \<Rightarrow> pname \<Rightarrow> bool" where
  "under p k a \<longleftrightarrow> (\<exists>i\<ge>k. prefix (p @ [i]) a)"

lemma under_simps: "under p k (p @ [i]) \<longleftrightarrow> k \<le> i" "\<not> under p k p" "under (p @ [i]) n a \<Longrightarrow> prefix (p @ [i]) a" "prefix (p @ [i]) a \<Longrightarrow> under p k a \<longleftrightarrow> k \<le> i"
proof -
  show "under (p @ [i]) n a \<Longrightarrow> prefix (p @ [i]) a" unfolding under_def by (meson append_prefixD)
  show u: "prefix (p @ [i]) a \<Longrightarrow> under p k a \<longleftrightarrow> k \<le> i" for a
    unfolding under_def prefix_def by auto
  show "under p k (p @ [i]) \<longleftrightarrow> k \<le> i" by (rule u) simp
  show "\<not> under p k p" unfolding under_def by (auto dest: prefix_length_le)
qed

lemma under_up: "under (p @ [i]) n a \<Longrightarrow> k \<le> i \<Longrightarrow> under p k a" "under p (k + 1) a \<Longrightarrow> under p k a"
proof -
  show "under (p @ [i]) n a \<Longrightarrow> k \<le> i \<Longrightarrow> under p k a" using under_simps(3,4) by blast
  show "under p (k + 1) a \<Longrightarrow> under p k a" unfolding under_def by (meson add_leD1)
qed

lemma waits_shape: "(r, j, a) \<in> waits c p k \<Longrightarrow> under p k a \<and> (\<exists>i<j. a = r @ [i])"
proof (induction c arbitrary: p k)
  case (LIST l r1)
  from LIST.prems consider "r = p" "j = k + 1" "a = p @ [k]" | "(r, j, a) \<in> waits l (p @ [k]) 0" | "(r, j, a) \<in> waits r1 p (k + 1)" by auto
  then show ?case
  proof cases
    case 1
    then show ?thesis using under_simps(1) [of p k k] by simp
  next
    case 2
    then show ?thesis using LIST.IH(1) [OF 2] under_up(1) [of p k 0 a k] by simp
  next
    case 3
    then show ?thesis using LIST.IH(2) [OF 3] under_up(2) [of p k a] by simp
  qed
next
  case (PIPE l r1)
  from PIPE.prems consider "r = p" "j = k + 2" "a = p @ [k] \<or> a = p @ [k + 1]" | "(r, j, a) \<in> waits l (p @ [k]) 0" | "(r, j, a) \<in> waits r1 (p @ [k + 1]) 0" by auto
  then show ?case
  proof cases
    case 1
    then show ?thesis using under_simps(1) [of p k k] under_simps(1) [of p k "k + 1"] by auto
  next
    case 2
    then show ?thesis using PIPE.IH(1) [OF 2] under_up(1) [of p k 0 a k] by simp
  next
    case 3
    then show ?thesis using PIPE.IH(2) [OF 3] under_up(1) [of p "k + 1" 0 a k] by simp
  qed
next
  case (BACK c)
  then have w: "(r, j, a) \<in> waits c (p @ [k]) 0" by simp
  show ?case using BACK.IH [OF w] under_up(1) [of p k 0 a k] by simp
qed auto

text \<open>The obligations that concern the processes below a process are those of the part of the command that it runs.\<close>

lemma waited_runcmd:
  assumes "\<And>p k. can_fork E p k" "\<And>r j a. (r, j, a) \<in> W \<Longrightarrow> under p k a \<Longrightarrow> (r, j, a) \<in> waits c p k"
  shows "waited (runcmd c buf) E W t p k []"
  using assms(2)
proof (induction c arbitrary: t p k)
  case (EXEC ts t p k)
  then show ?case by (cases ts) (simp_all add: Let_def free_to_go_def)
next
  case (REDIR c f m d t p k)
  then show ?case by (simp add: Let_def free_to_go_def split: option.splits)
next
  case (LIST l r1 t p k)
  have "(r, j, a) \<in> waits l (p @ [k]) 0" if "(r, j, a) \<in> W" "under (p @ [k]) 0 a" for r j a
    using LIST.prems [OF that(1) under_up(1) [OF that(2) order_refl]] waits_shape [of r j a r1 p "k + 1"]
      under_simps(4) [OF under_simps(3) [OF that(2)], of "k + 1"] that(2) under_simps(2) by auto
  moreover have "(r, j, a) \<in> waits r1 p (k + 1)" if "(r, j, a) \<in> W" "under p (k + 1) a" for r j a
    using LIST.prems [OF that(1) under_up(2) [OF that(2)]] waits_shape [of r j a l "p @ [k]" 0]
      under_simps(4) [OF under_simps(3), of p k 0 a "k + 1"] that(2) under_simps(1) [of p "k + 1" k] by auto
  ultimately show ?case using LIST.IH by (simp add: fork1_def assms(1) free_to_fork_def)
next
  case (PIPE l r1 t p k)
  have l: "(r, j, a) \<in> waits l (p @ [k]) 0" if "(r, j, a) \<in> W" "under (p @ [k]) 0 a" for r j a
    using PIPE.prems [OF that(1) under_up(1) [OF that(2) order_refl]] waits_shape [of r j a r1 "p @ [k + 1]" 0]
      under_simps(3) [of p "k + 1" 0 a] under_simps(3) [OF that(2)] that(2) under_simps(2) by (auto simp: prefix_def)
  have r: "(r, j, a) \<in> waits r1 (p @ [k + 1]) 0" if "(r, j, a) \<in> W" "under (p @ [k + 1]) 0 a" for r j a
    using PIPE.prems [OF that(1) under_up(1) [OF that(2)]] waits_shape [of r j a l "p @ [k]" 0]
      under_simps(3) [of p k 0 a] under_simps(3) [OF that(2)] that(2) under_simps(2) by (auto simp: prefix_def)
  have "\<not> j \<le> k + 1" if "(p, j, p @ [k]) \<in> W" for j
    using PIPE.prems [OF that] under_simps(1,2) waits_shape [of p j "p @ [k]" l "p @ [k]" 0] waits_shape [of p j "p @ [k]" r1 "p @ [k + 1]" 0]
      under_simps(3) [of p "k + 1" 0 "p @ [k]"] by (auto simp: prefix_def)
  then show ?case using PIPE.IH(1) [OF l] PIPE.IH(2) [OF r]
    by (auto simp: fork1_def assms(1) free_to_fork_def free_to_go_def sh_panic_def split: option.splits)
next
  case (BACK c t p k)
  have "(r, j, a) \<in> waits c (p @ [k]) 0" if "(r, j, a) \<in> W" "under (p @ [k]) 0 a" for r j a
    using BACK.prems [OF that(1) under_up(1) [OF that(2) order_refl]] by simp
  moreover have "(p, j, p @ [k]) \<notin> W" for j
    using BACK.prems [of p j "p @ [k]"] under_simps(1,2) waits_shape [of p j "p @ [k]" c "p @ [k]" 0] by auto
  then have "\<forall>j a. (p, j, a) \<in> W \<longrightarrow> a \<noteq> p @ [k]" by blast
  ultimately show ?case using BACK.IH by (simp add: fork1_def assms(1) free_to_fork_def free_to_go_def)
qed

end
