(* ===== verification/Shparse.thy ===== *)
theory Shparse
  imports Shrun
begin

text \<open>
  The parser of the shell against the syntax that it stands for. \<open>acmd\<close> is a command with its words, \<open>tokens\<close> writes it as a list
  of tokens with parentheses where the grammar needs them, and the parser reads every command back. The words of the result
  are read as C strings in the line after \<open>nulterminate\<close> has cut it up.
\<close>

section \<open>Syntax\<close>

datatype rkind = RIn | ROut | RApp

datatype acmd = AExec "string list" | ARedir acmd rkind string | APipe acmd acmd | AList acmd acmd | ABack acmd

datatype token = W string | S char | R rkind

definition wordch :: "char \<Rightarrow> bool" where
  "wordch c \<longleftrightarrow> \<not> is_ws c \<and> \<not> is_sym c \<and> c \<noteq> NUL"

definition word_ok :: "string \<Rightarrow> bool" where
  "word_ok w \<longleftrightarrow> w \<noteq> [] \<and> (\<forall>c \<in> set w. wordch c)"

primrec rstr :: "rkind \<Rightarrow> string" where
  "rstr RIn = ''<''"
| "rstr ROut = ''>''"
| "rstr RApp = ''>>''"

primrec tstr :: "token \<Rightarrow> string" where
  "tstr (W w) = w"
| "tstr (S c) = [c]"
| "tstr (R k) = rstr k"

primrec token_ok :: "token \<Rightarrow> bool" where
  "token_ok (W w) = word_ok w"
| "token_ok (S c) = (c \<in> set ''|();&'')"
| "token_ok (R k) = True"

definition unlex :: "token list \<Rightarrow> string" where
  "unlex ts = concat (map (\<lambda>t. tstr t @ '' '') ts)"

primrec level :: "acmd \<Rightarrow> nat" where
  "level (AExec ws) = 3"
| "level (ARedir c k f) = 3"
| "level (APipe l r) = 2"
| "level (ABack c) = 1"
| "level (AList l r) = 0"

definition wrap :: "nat \<Rightarrow> acmd \<Rightarrow> token list \<Rightarrow> token list" where
  "wrap n c ts = (if n \<le> level c then ts else S CHR ''('' # ts @ [S CHR '')''])"

primrec tokens :: "acmd \<Rightarrow> token list" where
  "tokens (AExec ws) = map W ws"
| "tokens (ARedir c k f) = wrap 3 c (tokens c) @ [R k, W f]"
| "tokens (APipe l r) = wrap 3 l (tokens l) @ S CHR ''|'' # wrap 2 r (tokens r)"
| "tokens (AList l r) = wrap 1 l (tokens l) @ S CHR '';'' # wrap 0 r (tokens r)"
| "tokens (ABack c) = wrap 1 c (tokens c) @ [S CHR ''&'']"

primrec acmd_ok :: "acmd \<Rightarrow> bool" where
  "acmd_ok (AExec ws) = (length ws < MAXARGS \<and> (\<forall>w \<in> set ws. word_ok w))"
| "acmd_ok (ARedir c k f) = (acmd_ok c \<and> word_ok f)"
| "acmd_ok (APipe l r) = (acmd_ok l \<and> acmd_ok r)"
| "acmd_ok (AList l r) = (acmd_ok l \<and> acmd_ok r)"
| "acmd_ok (ABack c) = acmd_ok c"

definition rkind_of :: "u32 \<Rightarrow> nat \<Rightarrow> rkind" where
  "rkind_of m d = (if d = 0 then RIn else if m = (O_WRONLY OR O_CREATE OR O_TRUNC) then ROut else RApp)"

text \<open>The command of a tree of the parser, for a way to read a token.\<close>

primrec reads :: "(tok \<Rightarrow> string) \<Rightarrow> cmd \<Rightarrow> acmd" where
  "reads g (EXEC ts) = AExec (map g ts)"
| "reads g (REDIR c f m d) = ARedir (reads g c) (rkind_of m d) (g f)"
| "reads g (PIPE l r) = APipe (reads g l) (reads g r)"
| "reads g (LIST l r) = AList (reads g l) (reads g r)"
| "reads g (BACK c) = ABack (reads g c)"

definition lexeme :: "string \<Rightarrow> tok \<Rightarrow> string" where
  "lexeme b t = take (snd t - fst t) (drop (fst t) b)"

section \<open>Tokens of a line\<close>

definition here :: "string \<Rightarrow> nat \<Rightarrow> token list \<Rightarrow> bool" where
  "here b s ts \<longleftrightarrow> s \<le> length b \<and> drop s b = unlex ts \<and> (\<forall>t \<in> set ts. token_ok t)"

lemma unlex_simps [simp]: "unlex [] = []" "unlex (t # ts) = tstr t @ CHR '' '' # unlex ts" "unlex (xs @ ys) = unlex xs @ unlex ys"
  by (simp_all add: unlex_def)

lemma tstr_ok: "token_ok t \<Longrightarrow> tstr t \<noteq> [] \<and> \<not> is_ws (hd (tstr t)) \<and> hd (tstr t) \<noteq> NUL"
proof (cases t)
  case (W w)
  assume "token_ok t"
  then show ?thesis using W by (cases w) (auto simp: word_ok_def wordch_def)
next
  case (S c)
  assume "token_ok t"
  then show ?thesis using S by (auto simp: is_ws_def whitespace_def NUL_def)
next
  case (R k)
  then show ?thesis by (cases k) (auto simp: is_ws_def whitespace_def NUL_def)
qed

lemma here_hd: "here b s (t # ts) \<Longrightarrow> at b s = hd (tstr t)"
  using tstr_ok [of t] by (cases "tstr t") (auto simp: here_def at_drop)

lemma here_nil: "here b s [] \<longleftrightarrow> s = length b"
  by (auto simp: here_def)

lemma here_drop: "here b s (t # ts) \<Longrightarrow> drop (s + length (tstr t)) b = CHR '' '' # unlex ts"
proof -
  assume "here b s (t # ts)"
  then have d: "drop s b = tstr t @ CHR '' '' # unlex ts" by (simp add: here_def)
  have "drop (s + length (tstr t)) b = drop (length (tstr t)) (drop s b)" by (simp add: add.commute)
  then show ?thesis by (simp add: d)
qed

lemma here_next: "here b s (t # ts) \<Longrightarrow> here b (s + length (tstr t) + 1) ts"
proof -
  assume h: "here b s (t # ts)"
  have "drop (s + length (tstr t) + 1) b = drop 1 (drop (s + length (tstr t)) b)" by simp
  then have d: "drop (s + length (tstr t) + 1) b = unlex ts" by (simp add: here_drop [OF h])
  have "s + length (tstr t) < length b" using here_drop [OF h] by (metis drop_all leI list.discI)
  then show ?thesis using h d by (simp add: here_def)
qed

lemma here_skip: "here b s ts \<Longrightarrow> advance is_ws b s = s"
proof (cases ts)
  case Nil
  then show "here b s ts \<Longrightarrow> ?thesis" by (simp add: here_nil advance_def)
next
  case (Cons t us)
  assume h: "here b s ts"
  then have "at b s = hd (tstr t)" "token_ok t" using here_hd Cons by (auto simp: here_def)
  then show ?thesis using tstr_ok [of t] by (intro advance_none) simp
qed

lemma peek_here: "here b s ts \<Longrightarrow> peek_tok b s toks = ((case ts of [] \<Rightarrow> False | t # _ \<Rightarrow> hd (tstr t) \<in> set toks), s)"
proof (cases ts)
  case Nil
  assume "here b s ts"
  then show ?thesis using Nil here_skip [of b s ts] by (simp add: peek_tok_def here_nil at_def)
next
  case (Cons t us)
  assume h: "here b s ts"
  then have "at b s = hd (tstr t)" "token_ok t" using here_hd Cons by (auto simp: here_def)
  then show ?thesis using tstr_ok [of t] here_skip [OF h] Cons by (simp add: peek_tok_def)
qed

primrec tcode :: "token \<Rightarrow> char" where
  "tcode (W w) = CHR ''a''"
| "tcode (S c) = c"
| "tcode (R k) = (case k of RIn \<Rightarrow> CHR ''<'' | ROut \<Rightarrow> CHR ''>'' | RApp \<Rightarrow> CHR ''+'')"

lemma skip_space: "here b s (t # ts) \<Longrightarrow> advance is_ws b (s + length (tstr t)) = s + length (tstr t) + 1"
proof -
  assume h: "here b s (t # ts)"
  note d = here_drop [OF h]
  have "advance is_ws b (s + length (tstr t) + 1) = s + length (tstr t) + 1" by (rule here_skip [OF here_next [OF h]])
  then have "takeWhile is_ws (drop (s + length (tstr t) + 1) b) = []" by (simp add: advance_def)
  moreover have "drop (s + length (tstr t) + 1) b = unlex ts" using here_next [OF h] by (simp add: here_def)
  ultimately show ?thesis by (simp add: advance_def d is_ws_def whitespace_def)
qed

lemma word_end:
  assumes "here b s (W w # ts)"
  shows "advance (\<lambda>x. \<not> is_ws x \<and> \<not> is_sym x) b s = s + length w"
proof -
  have "\<forall>c \<in> set w. \<not> is_ws c \<and> \<not> is_sym c" and d: "drop s b = w @ CHR '' '' # unlex ts"
    using assms by (auto simp: here_def word_ok_def wordch_def)
  then have "takeWhile (\<lambda>x. \<not> is_ws x \<and> \<not> is_sym x) (drop s b) = w" unfolding d by (subst takeWhile_append2) (auto simp: is_ws_def whitespace_def)
  then show ?thesis by (simp add: advance_def)
qed

lemma gettoken_here:
  assumes "here b s (t # ts)"
  shows "gettoken b s = (tcode t, (s, s + length (tstr t)), s + length (tstr t) + 1)"
proof -
  have a: "advance is_ws b s = s" "at b s = hd (tstr t)" "at b s \<noteq> NUL" and ok: "token_ok t"
    using here_skip [OF assms] here_hd [OF assms] tstr_ok [of t] assms by (auto simp: here_def)
  note sk = skip_space [OF assms]
  have n: "at b (s + 1) = CHR '' ''" if "length (tstr t) = 1"
    using here_drop [OF assms] that by (simp add: at_drop)
  show ?thesis
  proof (cases t)
    case (W w)
    then have w: "wordch (at b s)" using ok a(2) by (cases w) (auto simp: word_ok_def)
    then have "at b s \<notin> set ''|();&<''" "at b s \<noteq> CHR ''>''" by (auto simp: wordch_def is_sym_def symbols_def)
    then show ?thesis using a W word_end [of b s w ts] assms sk by (simp add: gettoken_def)
  next
    case (S c)
    then have "at b s \<in> set ''|();&<''" using ok a(2) by auto
    then show ?thesis using a S sk gettoken_symbol [of b s] by simp
  next
    case (R k)
    have "at b (s + 1) = CHR ''>''" if "k = RApp"
    proof -
      have "drop (s + 1) b = drop 1 (drop s b)" by simp
      also have "\<dots> = CHR ''>'' # CHR '' '' # unlex ts" using assms R that by (simp add: here_def)
      finally show ?thesis by (simp only: at_drop list.case)
    qed
    then show ?thesis using a R sk n by (cases k) (auto simp: gettoken_def Let_def NUL_def)
  qed
qed

lemma gettoken_nil: "here b s [] \<Longrightarrow> gettoken b s = (NUL, (s, s), s)"
  by (simp add: here_nil gettoken_def advance_def at_def Let_def)

lemma lexeme_here: "here b s (t # ts) \<Longrightarrow> lexeme b (s, s + length (tstr t)) = tstr t"
  by (simp add: lexeme_def here_def)

section \<open>Redirections and arguments\<close>

text \<open>What may follow a command: the end, or one of the symbols.\<close>

definition follow :: "string \<Rightarrow> token list \<Rightarrow> bool" where
  "follow cs ts \<longleftrightarrow> (case ts of [] \<Rightarrow> True | t # _ \<Rightarrow> (\<exists>c \<in> set cs. t = S c))"

primrec rmode :: "rkind \<Rightarrow> u32" where
  "rmode RIn = O_RDONLY"
| "rmode ROut = (O_WRONLY OR O_CREATE OR O_TRUNC)"
| "rmode RApp = (O_WRONLY OR O_CREATE)"

primrec rfd :: "rkind \<Rightarrow> nat" where
  "rfd RIn = 0"
| "rfd ROut = 1"
| "rfd RApp = 1"

lemma rkind_of_mode [simp]: "rkind_of (rmode k) (rfd k) = k"
  by (cases k) (simp_all add: rkind_of_def O_RDONLY_def O_WRONLY_def O_CREATE_def O_TRUNC_def)

type_synonym redirs = "(rkind \<times> string) list"

definition rtoks :: "redirs \<Rightarrow> token list" where
  "rtoks rs = concat (map (\<lambda>(k, f). [R k, W f]) rs)"

definition redirected :: "redirs \<Rightarrow> acmd \<Rightarrow> acmd" where
  "redirected rs a = fold (\<lambda>(k, f) c. ARedir c k f) rs a"

lemma rtoks_simps [simp]: "rtoks [] = []" "rtoks ((k, f) # rs) = R k # W f # rtoks rs" "rtoks (rs @ qs) = rtoks rs @ rtoks qs"
  by (simp_all add: rtoks_def)

lemma redirected_simps [simp]: "redirected [] a = a" "redirected ((k, f) # rs) a = redirected rs (ARedir a k f)"
  "redirected (rs @ [(k, f)]) a = ARedir (redirected rs a) k f"
  by (simp_all add: redirected_def)

definition no_redir :: "token list \<Rightarrow> bool" where
  "no_redir ts \<longleftrightarrow> (case ts of [] \<Rightarrow> True | t # _ \<Rightarrow> (\<forall>k. t \<noteq> R k))"

lemma no_redir_peek: "here b s ts \<Longrightarrow> no_redir ts \<Longrightarrow> peek_tok b s ''<>'' = (False, s)"
proof -
  assume h: "here b s ts" "no_redir ts"
  have "\<not> (case ts of [] \<Rightarrow> False | t # _ \<Rightarrow> hd (tstr t) \<in> set ''<>'')"
  proof (cases ts)
    case (Cons t us)
    have "token_ok t" using h(1) Cons by (simp add: here_def)
    then show ?thesis using h(2) Cons by (cases t) (auto simp: no_redir_def word_ok_def wordch_def is_sym_def symbols_def neq_Nil_conv)
  qed simp
  then show ?thesis using peek_here [OF h(1)] by simp
qed

lemma parseredirs_loop_here:
  assumes "here b s (rtoks rs @ ts)" "no_redir ts" "length rs < n"
  shows "\<exists>c' s'. parseredirs_loop n b c s = Inr (c', s') \<and> s \<le> s' \<and> here b s' ts \<and> reads (lexeme b) c' = redirected rs (reads (lexeme b) c)"
  using assms
proof (induction rs arbitrary: n c s)
  case Nil
  then show ?case using no_redir_peek [of b s ts] by (cases n) auto
next
  case (Cons kf rs)
  obtain k f where kf: "kf = (k, f)" by fastforce
  obtain m where n: "n = Suc m" using Cons.prems(3) by (cases n) auto
  have h: "here b s (R k # W f # rtoks rs @ ts)" using Cons.prems(1) kf by simp
  let ?s2 = "s + length (rstr k) + 1"
  let ?f = "(?s2, ?s2 + length f)"
  have h2: "here b ?s2 (W f # rtoks rs @ ts)" using here_next [OF h] by simp
  have h3: "here b (?s2 + length f + 1) (rtoks rs @ ts)" using here_next [OF h2] by simp
  have p: "peek_tok b s ''<>'' = (True, s)" using peek_here [OF h] by (cases k) auto
  obtain c' s' where c': "parseredirs_loop m b (REDIR c ?f (rmode k) (rfd k)) (?s2 + length f + 1) = Inr (c', s')" "?s2 + length f + 1 \<le> s'" "here b s' ts"
    "reads (lexeme b) c' = redirected rs (reads (lexeme b) (REDIR c ?f (rmode k) (rfd k)))"
    using Cons.IH [OF h3 Cons.prems(2), of m "REDIR c ?f (rmode k) (rfd k)"] Cons.prems(3) n by auto
  have "parseredirs_loop n b c s = Inr (c', s')"
    using p gettoken_here [OF h] gettoken_here [OF h2] c'(1) n by (cases k) simp_all
  then show ?case using c' lexeme_here [OF h2] kf by auto
qed

lemma rtoks_length: "here b s (rtoks rs @ ts) \<Longrightarrow> length rs < length b + 1"
proof -
  have "length rs \<le> length (unlex (rtoks rs))" by (induction rs) (auto simp: rtoks_def)
  moreover assume "here b s (rtoks rs @ ts)"
  then have "length b - s = length (unlex (rtoks rs)) + length (unlex ts)" by (metis here_def length_append length_drop unlex_simps(3))
  ultimately show ?thesis by linarith
qed

lemma parseredirs_here:
  assumes "here b s (rtoks rs @ ts)" "no_redir ts"
  obtains c' s' where "parseredirs b c s = Inr (c', s')" "s \<le> s'" "here b s' ts" "reads (lexeme b) c' = redirected rs (reads (lexeme b) c)"
  using parseredirs_loop_here [OF assms rtoks_length [OF assms(1)], of c] that unfolding parseredirs_def by blast

lemma parseredirs_none: "here b s ts \<Longrightarrow> no_redir ts \<Longrightarrow> parseredirs b c s = Inr (c, s)"
  by (simp add: parseredirs_def no_redir_peek)

lemma follow_no_redir: "follow cs ts \<Longrightarrow> no_redir ts"
  by (auto simp: follow_def no_redir_def split: list.splits)

lemma follow_mono: "follow cs ts \<Longrightarrow> set cs \<subseteq> set ds \<Longrightarrow> follow ds ts"
  by (auto simp: follow_def split: list.splits)

lemma parseargs_stop: "here b s ts \<Longrightarrow> follow ''|)&;'' ts \<Longrightarrow> 0 < k \<Longrightarrow> parseargs k b n c s = Inr (c, s)"
proof (cases ts)
  case Nil
  assume "here b s ts" "0 < k"
  then show ?thesis using Nil peek_here [of b s "[]"] gettoken_nil [of b s] by (cases k) auto
next
  case (Cons t us)
  assume h: "here b s ts" "follow ''|)&;'' ts" "0 < k"
  then have "peek_tok b s ''|)&;'' = (True, s)" using peek_here [of b s ts] Cons by (auto simp: follow_def)
  then show ?thesis using h(3) by (cases k) auto
qed

lemma word_peek:
  assumes "here b s (W w # ts)" "set toks \<subseteq> set symbols"
  shows "peek_tok b s toks = (False, s)"
proof -
  have "wordch (hd w)" using assms(1) by (auto simp: here_def word_ok_def)
  then have "hd w \<notin> set toks" using assms(2) by (auto simp: wordch_def is_sym_def)
  then show ?thesis using peek_here [OF assms(1)] by simp
qed

lemma parseargs_here:
  assumes "here b s (map W ws @ rtoks rs @ ts)" "follow ''|)&;'' ts" "ws \<noteq> []" "n + length ws < MAXARGS" "length ws < k"
  shows "\<exists>c' s'. parseargs k b n (EXEC as) s = Inr (c', s') \<and> s \<le> s' \<and> here b s' ts \<and> reads (lexeme b) c' = redirected rs (AExec (map (lexeme b) as @ ws))"
  using assms
proof (induction ws arbitrary: n k as s)
  case (Cons w ws)
  obtain m where k: "k = Suc m" using Cons.prems(5) by (cases k) auto
  have h: "here b s (W w # map W ws @ rtoks rs @ ts)" using Cons.prems(1) by simp
  have p: "peek_tok b s ''|)&;'' = (False, s)" by (rule word_peek [OF h]) (auto simp: symbols_def)
  let ?s2 = "s + length w + 1" and ?c = "EXEC (as @ [(s, s + length w)])"
  have h2: "here b ?s2 (map W ws @ rtoks rs @ ts)" using here_next [OF h] by simp
  have r: "reads (lexeme b) ?c = AExec (map (lexeme b) as @ [w])" using lexeme_here [OF h] by simp
  have e: "parseargs k b n (EXEC as) s = bindr (parseredirs b ?c ?s2) (\<lambda>(c1, s3). parseargs m b (n + 1) c1 s3)"
    using p gettoken_here [OF h] Cons.prems(4) k by (simp add: NUL_def)
  show ?case
  proof (cases "ws = []")
    case True
    obtain c' s' where c': "parseredirs b ?c ?s2 = Inr (c', s')" "?s2 \<le> s'" "here b s' ts" "reads (lexeme b) c' = redirected rs (reads (lexeme b) ?c)"
      by (rule parseredirs_here [of b ?s2 rs ts ?c]) (use h2 True follow_no_redir [OF Cons.prems(2)] in auto)
    have "parseargs m b (n + 1) c' s' = Inr (c', s')" by (rule parseargs_stop [OF c'(3) Cons.prems(2)]) (use Cons.prems(5) k True in simp)
    then show ?thesis using e c' r True by auto
  next
    case False
    then have "no_redir (map W ws @ rtoks rs @ ts)" by (cases ws) (auto simp: no_redir_def)
    then have "parseredirs b ?c ?s2 = Inr (?c, ?s2)" by (rule parseredirs_none [OF h2])
    moreover obtain c' s' where c': "parseargs m b (n + 1) ?c ?s2 = Inr (c', s')" "?s2 \<le> s'" "here b s' ts"
      "reads (lexeme b) c' = redirected rs (AExec (map (lexeme b) (as @ [(s, s + length w)]) @ ws))"
      using Cons.IH [OF h2 Cons.prems(2) False, of "n + 1" m "as @ [(s, s + length w)]"] Cons.prems(4,5) k by auto
    ultimately show ?thesis using e lexeme_here [OF h] by auto
  qed
qed simp

section \<open>The routines of the grammar\<close>

text \<open>\<open>parse\<close> reads the tokens of \<open>a\<close>, followed by one of \<open>cs\<close>, when it has the fuel for the rest of the line.\<close>

definition parses :: "(nat \<Rightarrow> string \<Rightarrow> nat \<Rightarrow> sherr + (cmd \<times> nat)) \<Rightarrow> nat \<Rightarrow> string \<Rightarrow> token list \<Rightarrow> acmd \<Rightarrow> bool" where
  "parses parse d cs as a \<longleftrightarrow> (\<forall>b s ts n. here b s (as @ ts) \<longrightarrow> follow cs ts \<longrightarrow> 4 * (length b - s) + d \<le> n \<longrightarrow>
     (\<exists>c s'. parse n b s = Inr (c, s') \<and> s \<le> s' \<and> here b s' ts \<and> reads (lexeme b) c = a))"

lemma parsesD:
  assumes "parses parse d cs as a" "here b s (as @ ts)" "follow cs ts" "4 * (length b - s) + d \<le> n"
  obtains c s' where "parse n b s = Inr (c, s')" "s \<le> s'" "here b s' ts" "reads (lexeme b) c = a"
  using assms unfolding parses_def by blast

lemma words_length: "here b s (map W ws @ ts) \<Longrightarrow> length ws < length b + 1"
proof -
  have "length ws \<le> length (unlex (map W ws))" by (induction ws) auto
  moreover assume "here b s (map W ws @ ts)"
  then have "length b - s = length (unlex (map W ws)) + length (unlex ts)" by (metis here_def length_append length_drop unlex_simps(3))
  ultimately show ?thesis by linarith
qed

lemma exec_words:
  assumes "length ws < MAXARGS"
  shows "parses parseexec 2 ''|)&;'' (map W ws @ rtoks rs) (redirected rs (AExec ws))"
  unfolding parses_def
proof (intro allI impI)
  fix b s ts n
  assume h: "here b s ((map W ws @ rtoks rs) @ ts)" and f: "follow ''|)&;'' ts" and n: "4 * (length b - s) + 2 \<le> n"
  obtain m where m: "n = Suc m" using n by (cases n) auto
  have h1: "here b s (map W ws @ rtoks rs @ ts)" using h by simp
  have p: "peek_tok b s ''('' = (False, s)"
  proof (cases ws)
    case Nil
    have "\<not> (case rtoks rs @ ts of [] \<Rightarrow> False | t # _ \<Rightarrow> hd (tstr t) \<in> set ''('')"
    proof (cases rs)
      case Nil
      then show ?thesis using f by (auto simp: follow_def split: list.splits)
    next
      case (Cons kf qs)
      obtain k x where "kf = (k, x)" by fastforce
      then show ?thesis using Cons by (cases k) simp_all
    qed
    then show ?thesis using peek_here [OF h1, of "''(''"] Nil by simp
  next
    case (Cons w us)
    then show ?thesis using h1 word_peek [of b s w] by (simp add: symbols_def)
  qed
  show "\<exists>c s'. parseexec n b s = Inr (c, s') \<and> s \<le> s' \<and> here b s' ts \<and> reads (lexeme b) c = redirected rs (AExec ws)"
  proof (cases "ws = []")
    case True
    obtain c' s' where c': "parseredirs b (EXEC []) s = Inr (c', s')" "s \<le> s'" "here b s' ts" "reads (lexeme b) c' = redirected rs (reads (lexeme b) (EXEC []))"
      by (rule parseredirs_here [of b s rs ts "EXEC []"]) (use h1 True follow_no_redir [OF f] in auto)
    have "parseargs (length b + 1) b 0 c' s' = Inr (c', s')" by (rule parseargs_stop [OF c'(3) f]) simp
    then show ?thesis using p m c' True by (auto simp del: parseargs.simps)
  next
    case False
    then have "no_redir (map W ws @ rtoks rs @ ts)" by (cases ws) (auto simp: no_redir_def)
    then have "parseredirs b (EXEC []) s = Inr (EXEC [], s)" by (rule parseredirs_none [OF h1])
    moreover have "\<exists>c' s'. parseargs (length b + 1) b 0 (EXEC []) s = Inr (c', s') \<and> s \<le> s' \<and> here b s' ts \<and> reads (lexeme b) c' = redirected rs (AExec (map (lexeme b) [] @ ws))"
      by (rule parseargs_here [OF h1 f False]) (use assms words_length [of b s ws "rtoks rs @ ts"] h1 in auto)
    ultimately show ?thesis using p m by (auto simp del: parseargs.simps)
  qed
qed

lemma here_symbol:
  assumes "here b s (S c # ts)"
  shows "gettoken b s = (c, (s, s + 1), s + 2)" "here b (s + 2) ts" "s + 2 \<le> length b"
  using gettoken_here [OF assms] here_next [OF assms] by (simp_all add: here_def)

lemma here_peek: "here b s (S c # ts) \<Longrightarrow> peek_tok b s toks = (c \<in> set toks, s)"
  using peek_here [of b s "S c # ts"] by simp

lemma follow_peek: "here b s ts \<Longrightarrow> follow cs ts \<Longrightarrow> set cs \<inter> set toks = {} \<Longrightarrow> peek_tok b s toks = (False, s)"
  using peek_here [of b s ts toks] by (auto simp: follow_def split: list.splits)

lemma exec_block:
  assumes "parses parseline 4 '')'' as a"
  shows "parses parseexec 2 ''|)&;'' (S CHR ''('' # as @ S CHR '')'' # rtoks rs) (redirected rs a)"
  unfolding parses_def
proof (intro allI impI)
  fix b s ts n
  assume h: "here b s ((S CHR ''('' # as @ S CHR '')'' # rtoks rs) @ ts)" and f: "follow ''|)&;'' ts" and n: "4 * (length b - s) + 2 \<le> n"
  have h1: "here b s (S CHR ''('' # as @ S CHR '')'' # rtoks rs @ ts)" using h by simp
  note H = here_symbol [OF h1] and p = here_peek [OF h1, of "''(''"]
  obtain m where m: "n = Suc (Suc m)" using n H(3) by (metis add_2_eq_Suc' add_leD2 le_Suc_ex add.commute)
  have fo: "follow '')'' (S CHR '')'' # rtoks rs @ ts)" by (simp add: follow_def)
  have "4 * (length b - (s + 2)) + 4 \<le> m" using n m H(3) by simp
  from parsesD [OF assms H(2) fo this] obtain c s3 where c: "parseline m b (s + 2) = Inr (c, s3)" "s + 2 \<le> s3"
    "here b s3 (S CHR '')'' # rtoks rs @ ts)" "reads (lexeme b) c = a" by blast
  note H3 = here_symbol [OF c(3)] and p3 = here_peek [OF c(3), of "'')''"]
  obtain c' s' where c': "parseredirs b c (s3 + 2) = Inr (c', s')" "s3 + 2 \<le> s'" "here b s' ts" "reads (lexeme b) c' = redirected rs (reads (lexeme b) c)"
    by (rule parseredirs_here [OF H3(2) follow_no_redir [OF f]])
  have "parseexec n b s = Inr (c', s')" using m p H(1) c(1) p3 H3(1) c'(1) by simp
  then show "\<exists>c s'. parseexec n b s = Inr (c, s') \<and> s \<le> s' \<and> here b s' ts \<and> reads (lexeme b) c = redirected rs a" using c' c(2,4) by auto
qed

lemma pipe_exec:
  assumes "parses parseexec 2 ''|)&;'' as a"
  shows "parses parsepipe 3 '')&;'' as a"
  unfolding parses_def
proof (intro allI impI)
  fix b s ts n
  assume h: "here b s (as @ ts)" and f: "follow '')&;'' ts" and n: "4 * (length b - s) + 3 \<le> n"
  obtain m where m: "n = Suc m" "4 * (length b - s) + 2 \<le> m" using n by (cases n) auto
  from parsesD [OF assms h follow_mono [OF f] m(2)] obtain c s1 where c: "parseexec m b s = Inr (c, s1)" "s \<le> s1" "here b s1 ts" "reads (lexeme b) c = a" by auto
  have "peek_tok b s1 ''|'' = (False, s1)" by (rule follow_peek [OF c(3) f]) simp
  then show "\<exists>c s'. parsepipe n b s = Inr (c, s') \<and> s \<le> s' \<and> here b s' ts \<and> reads (lexeme b) c = a" using c m(1) by simp
qed

lemma pipe_pipe:
  assumes "parses parseexec 2 ''|)&;'' as l" "parses parsepipe 3 '')&;'' cs r"
  shows "parses parsepipe 3 '')&;'' (as @ S CHR ''|'' # cs) (APipe l r)"
  unfolding parses_def
proof (intro allI impI)
  fix b s ts n
  assume h: "here b s ((as @ S CHR ''|'' # cs) @ ts)" and f: "follow '')&;'' ts" and n: "4 * (length b - s) + 3 \<le> n"
  obtain m where m: "n = Suc m" "4 * (length b - s) + 2 \<le> m" using n by (cases n) auto
  have h1: "here b s (as @ S CHR ''|'' # cs @ ts)" using h by simp
  have fo: "follow ''|)&;'' (S CHR ''|'' # cs @ ts)" by (simp add: follow_def)
  from parsesD [OF assms(1) h1 fo m(2)] obtain c s1 where c: "parseexec m b s = Inr (c, s1)" "s \<le> s1" "here b s1 (S CHR ''|'' # cs @ ts)" "reads (lexeme b) c = l" by auto
  note H = here_symbol [OF c(3)] and p = here_peek [OF c(3), of "''|''"]
  have "4 * (length b - (s1 + 2)) + 3 \<le> m" using m H(3) c(2) by simp
  from parsesD [OF assms(2) H(2) f this] obtain d s2 where d: "parsepipe m b (s1 + 2) = Inr (d, s2)" "s1 + 2 \<le> s2" "here b s2 ts" "reads (lexeme b) d = r" by blast
  then show "\<exists>c s'. parsepipe n b s = Inr (c, s') \<and> s \<le> s' \<and> here b s' ts \<and> reads (lexeme b) c = APipe l r" using c m(1) p H(1) by auto
qed

text \<open>A command of the list before its \<open>;\<close>: \<open>parsepipe\<close> reads the command under the \<open>&\<close>s, and \<open>parseback\<close> reaches the
  state in which these have been read.\<close>

definition parses_back :: "token list \<Rightarrow> acmd \<Rightarrow> bool" where
  "parses_back as a \<longleftrightarrow> (\<forall>b s ts n. here b s (as @ ts) \<longrightarrow> follow '')&;'' ts \<longrightarrow> 4 * (length b - s) + 3 \<le> n \<longrightarrow>
     (\<exists>c0 s0 c s' j. parsepipe n b s = Inr (c0, s0) \<and> (\<forall>k. parseback (j + k) b c0 s0 = parseback k b c s') \<and> j \<le> s' - s \<and>
        s \<le> s' \<and> here b s' ts \<and> reads (lexeme b) c = a))"

lemma parses_backD:
  assumes "parses_back as a" "here b s (as @ ts)" "follow '')&;'' ts" "4 * (length b - s) + 3 \<le> n"
  obtains c0 s0 c s' j where "parsepipe n b s = Inr (c0, s0)" "\<forall>k. parseback (j + k) b c0 s0 = parseback k b c s'" "j \<le> s' - s"
    "s \<le> s'" "here b s' ts" "reads (lexeme b) c = a"
  using assms unfolding parses_back_def by blast

lemma back_pipe: "parses parsepipe 3 '')&;'' as a \<Longrightarrow> parses_back as a"
  unfolding parses_back_def
proof (intro allI impI)
  fix b s ts n
  assume "parses parsepipe 3 '')&;'' as a" "here b s (as @ ts)" "follow '')&;'' ts" "4 * (length b - s) + 3 \<le> n"
  from parsesD [OF this] obtain c s' where "parsepipe n b s = Inr (c, s')" "s \<le> s'" "here b s' ts" "reads (lexeme b) c = a" by blast
  then show "\<exists>c0 s0 c s' j. parsepipe n b s = Inr (c0, s0) \<and> (\<forall>k. parseback (j + k) b c0 s0 = parseback k b c s') \<and> j \<le> s' - s \<and>
        s \<le> s' \<and> here b s' ts \<and> reads (lexeme b) c = a"
    by (intro exI [of _ c] exI [of _ s'] exI [of _ 0]) (simp del: parseback.simps)
qed

lemma back_back: "parses_back as a \<Longrightarrow> parses_back (as @ [S CHR ''&'']) (ABack a)"
  unfolding parses_back_def [of "as @ _"]
proof (intro allI impI)
  fix b s ts n
  assume a: "parses_back as a" and h: "here b s ((as @ [S CHR ''&'']) @ ts)" and f: "follow '')&;'' ts" and n: "4 * (length b - s) + 3 \<le> n"
  have h1: "here b s (as @ S CHR ''&'' # ts)" using h by simp
  have fo: "follow '')&;'' (S CHR ''&'' # ts)" by (simp add: follow_def)
  obtain c0 s0 c s' j where c: "parsepipe n b s = Inr (c0, s0)" "\<forall>k. parseback (j + k) b c0 s0 = parseback k b c s'" "j \<le> s' - s"
    "s \<le> s'" "here b s' (S CHR ''&'' # ts)" "reads (lexeme b) c = a" by (rule parses_backD [OF a h1 fo n]) (rule that)
  note H = here_symbol [OF c(5)] and p = here_peek [OF c(5), of "''&''"]
  have "parseback (Suc j + k) b c0 s0 = parseback k b (BACK c) (s' + 2)" for k
    using spec [OF c(2), of "Suc k"] p H(1) by simp
  then show "\<exists>c0 s0 c s' j. parsepipe n b s = Inr (c0, s0) \<and> (\<forall>k. parseback (j + k) b c0 s0 = parseback k b c s') \<and> j \<le> s' - s \<and>
        s \<le> s' \<and> here b s' ts \<and> reads (lexeme b) c = ABack a"
    using c(1,3,4,6) H(2) by (intro exI [of _ c0] exI [of _ s0] exI [of _ "BACK c"] exI [of _ "s' + 2"] exI [of _ "Suc j"]) auto
qed

lemma back_stop:
  assumes "\<forall>k. parseback (j + k) b c0 s0 = parseback k b c s'" "j \<le> s' - s" "here b s' ts" "follow cs ts" "CHR ''&'' \<notin> set cs"
  shows "parseback (length b + 1) b c0 s0 = Inr (c, s')"
proof -
  have "s' \<le> length b" using assms(3) by (simp add: here_def)
  then have "j \<le> length b" using assms(2) by simp
  then obtain k where k: "length b + 1 = j + Suc k" by (metis Suc_eq_plus1 add_Suc_right le_Suc_ex)
  have "peek_tok b s' ''&'' = (False, s')" by (rule follow_peek [OF assms(3,4)]) (use assms(5) in simp)
  then show ?thesis using spec [OF assms(1), of "Suc k"] unfolding k by simp
qed

lemma line_back:
  assumes "parses_back as a"
  shows "parses parseline 4 '')'' as a"
  unfolding parses_def
proof (intro allI impI)
  fix b s ts n
  assume h: "here b s (as @ ts)" and f: "follow '')'' ts" and n: "4 * (length b - s) + 4 \<le> n"
  obtain m where m: "n = Suc m" "4 * (length b - s) + 3 \<le> m" using n by (cases n) auto
  have f2: "follow '')&;'' ts" by (rule follow_mono [OF f]) simp
  obtain c0 s0 c s' j where c: "parsepipe m b s = Inr (c0, s0)" "\<forall>k. parseback (j + k) b c0 s0 = parseback k b c s'" "j \<le> s' - s"
    "s \<le> s'" "here b s' ts" "reads (lexeme b) c = a" by (rule parses_backD [OF assms h f2 m(2)]) (rule that)
  have "parseback (length b + 1) b c0 s0 = Inr (c, s')" by (rule back_stop [OF c(2,3,5) f]) simp
  moreover have "peek_tok b s' '';'' = (False, s')" by (rule follow_peek [OF c(5) f]) simp
  ultimately show "\<exists>c s'. parseline n b s = Inr (c, s') \<and> s \<le> s' \<and> here b s' ts \<and> reads (lexeme b) c = a"
    using c(1,4-6) m(1) by (simp del: parseback.simps)
qed

lemma line_list:
  assumes "parses_back as l" "parses parseline 4 '')'' cs r"
  shows "parses parseline 4 '')'' (as @ S CHR '';'' # cs) (AList l r)"
  unfolding parses_def
proof (intro allI impI)
  fix b s ts n
  assume h: "here b s ((as @ S CHR '';'' # cs) @ ts)" and f: "follow '')'' ts" and n: "4 * (length b - s) + 4 \<le> n"
  obtain m where m: "n = Suc m" "4 * (length b - s) + 3 \<le> m" using n by (cases n) auto
  have h1: "here b s (as @ S CHR '';'' # cs @ ts)" using h by simp
  have fo: "follow '')&;'' (S CHR '';'' # cs @ ts)" "follow '';'' (S CHR '';'' # cs @ ts)" by (simp_all add: follow_def)
  obtain c0 s0 c s' j where c: "parsepipe m b s = Inr (c0, s0)" "\<forall>k. parseback (j + k) b c0 s0 = parseback k b c s'" "j \<le> s' - s"
    "s \<le> s'" "here b s' (S CHR '';'' # cs @ ts)" "reads (lexeme b) c = l" by (rule parses_backD [OF assms(1) h1 fo(1) m(2)]) (rule that)
  have pb: "parseback (length b + 1) b c0 s0 = Inr (c, s')" by (rule back_stop [OF c(2,3,5) fo(2)]) simp
  note H = here_symbol [OF c(5)] and p = here_peek [OF c(5), of "'';''"]
  have "4 * (length b - (s' + 2)) + 4 \<le> m" using m H(3) c(4) by simp
  from parsesD [OF assms(2) H(2) f this] obtain d s2 where d: "parseline m b (s' + 2) = Inr (d, s2)" "s' + 2 \<le> s2" "here b s2 ts" "reads (lexeme b) d = r" by blast
  show "\<exists>c s'. parseline n b s = Inr (c, s') \<and> s \<le> s' \<and> here b s' ts \<and> reads (lexeme b) c = AList l r"
    using c(1,4,6) d m(1) p H(1) pb by (auto simp del: parseback.simps)
qed

section \<open>Every command is read back\<close>

definition reads_back :: "acmd \<Rightarrow> bool" where
  "reads_back a \<longleftrightarrow> parses parseline 4 '')'' (tokens a) a \<and> (1 \<le> level a \<longrightarrow> parses_back (tokens a) a) \<and>
    (2 \<le> level a \<longrightarrow> parses parsepipe 3 '')&;'' (tokens a) a) \<and>
    (3 \<le> level a \<longrightarrow> (\<forall>rs. parses parseexec 2 ''|)&;'' (tokens a @ rtoks rs) (redirected rs a)))"

lemma reads_back_exec:
  assumes "\<And>rs. parses parseexec 2 ''|)&;'' (tokens a @ rtoks rs) (redirected rs a)"
  shows "reads_back a"
proof -
  have p: "parses parsepipe 3 '')&;'' (tokens a) a" using pipe_exec [OF assms [of "[]"]] by simp
  show ?thesis using assms p back_pipe [OF p] line_back [OF back_pipe [OF p]] by (simp add: reads_back_def)
qed

lemma wrap_exec: "reads_back a \<Longrightarrow> parses parseexec 2 ''|)&;'' (wrap 3 a (tokens a) @ rtoks rs) (redirected rs a)"
  using exec_block [of "tokens a" a rs] by (simp add: reads_back_def wrap_def)

lemma wrap_exec0: "reads_back a \<Longrightarrow> parses parseexec 2 ''|)&;'' (wrap 3 a (tokens a)) a"
  using wrap_exec [of a "[]"] by simp

lemma wrap_low: "level a < 3 \<Longrightarrow> n \<le> 3 \<Longrightarrow> level a < n \<Longrightarrow> wrap n a ts = wrap 3 a ts"
  by (simp add: wrap_def)

lemma wrap_pipe: "reads_back a \<Longrightarrow> parses parsepipe 3 '')&;'' (wrap 2 a (tokens a)) a"
proof (cases "2 \<le> level a")
  case True
  assume "reads_back a"
  then show ?thesis using True by (simp add: reads_back_def wrap_def)
next
  case False
  assume "reads_back a"
  from pipe_exec [OF wrap_exec0 [OF this]] show ?thesis using False wrap_low [of a 2 "tokens a"] by simp
qed

lemma wrap_back: "reads_back a \<Longrightarrow> parses_back (wrap 1 a (tokens a)) a"
proof (cases "1 \<le> level a")
  case True
  assume "reads_back a"
  then show ?thesis using True by (simp add: reads_back_def wrap_def)
next
  case False
  assume "reads_back a"
  from back_pipe [OF pipe_exec [OF wrap_exec0 [OF this]]] show ?thesis using False wrap_low [of a 1 "tokens a"] by simp
qed

lemma tokens_parse: "acmd_ok a \<Longrightarrow> reads_back a"
proof (induction a)
  case (AExec ws)
  then show ?case using exec_words [of ws] by (intro reads_back_exec) simp
next
  case (ARedir c k f)
  show ?case
  proof (rule reads_back_exec)
    fix rs
    show "parses parseexec 2 ''|)&;'' (tokens (ARedir c k f) @ rtoks rs) (redirected rs (ARedir c k f))"
      using wrap_exec [of c "(k, f) # rs"] ARedir by simp
  qed
next
  case (APipe l r)
  then have p: "parses parsepipe 3 '')&;'' (tokens (APipe l r)) (APipe l r)" using pipe_pipe [OF wrap_exec0 wrap_pipe] by simp
  then show ?case using back_pipe line_back by (simp add: reads_back_def)
next
  case (AList l r)
  then have "reads_back l" "parses parseline 4 '')'' (wrap 0 r (tokens r)) r" by (simp_all add: reads_back_def wrap_def)
  then show ?case using line_list [OF wrap_back] by (simp add: reads_back_def)
next
  case (ABack c)
  then have "parses_back (tokens (ABack c)) (ABack c)" using back_back [OF wrap_back] by simp
  then show ?case using line_back by (simp add: reads_back_def)
qed

lemma tokens_ok: "acmd_ok a \<Longrightarrow> \<forall>t \<in> set (tokens a). token_ok t"
  by (induction a) (auto simp: wrap_def)

section \<open>The strings after \<open>nulterminate\<close>\<close>

primrec toks :: "cmd \<Rightarrow> tok list" where
  "toks (EXEC ts) = ts"
| "toks (REDIR c f m d) = toks c @ [f]"
| "toks (PIPE l r) = toks l @ toks r"
| "toks (LIST l r) = toks l @ toks r"
| "toks (BACK c) = toks c"

text \<open>A word of the line: it ends at a space, a symbol or the end.\<close>

definition tok_ok :: "string \<Rightarrow> tok \<Rightarrow> bool" where
  "tok_ok b t \<longleftrightarrow> fst t \<le> snd t \<and> snd t \<le> length b \<and> (\<forall>j. fst t \<le> j \<and> j < snd t \<longrightarrow> \<not> is_ws (b ! j) \<and> \<not> is_sym (b ! j)) \<and>
     (snd t < length b \<longrightarrow> is_ws (b ! snd t) \<or> is_sym (b ! snd t))"

lemma nulterminate_fold: "nulterminate c buf = fold (\<lambda>t bs. bs[snd t := NUL]) (toks c) buf"
  by (induction c arbitrary: buf) (simp_all add: case_prod_unfold)

lemma fold_nul: "length (fold (\<lambda>t bs. bs[snd t := NUL]) ts buf) = length buf"
  "j < length buf \<Longrightarrow> fold (\<lambda>t bs. bs[snd t := NUL]) ts buf ! j = (if j \<in> snd ` set ts then NUL else buf ! j)"
  by (induction ts arbitrary: buf) (auto simp: nth_list_update)

lemma takeWhile_prefix: "(\<And>j. j < n \<Longrightarrow> P (xs ! j)) \<Longrightarrow> n < length xs \<Longrightarrow> \<not> P (xs ! n) \<Longrightarrow> takeWhile P xs = take n xs"
  by (metis takeWhile_eq_take_P_nth)

lemma cstring_lexeme:
  assumes "\<forall>t \<in> set (toks c). tok_ok b t" "NUL \<notin> set b" "t \<in> set (toks c)"
  shows "cstring (nulterminate c (b @ [NUL])) (fst t) = lexeme b t"
proof -
  let ?buf = "nulterminate c (b @ [NUL])"
  have t: "fst t \<le> snd t" "snd t \<le> length b" "\<And>j. fst t \<le> j \<Longrightarrow> j < snd t \<Longrightarrow> \<not> is_ws (b ! j) \<and> \<not> is_sym (b ! j)"
    using assms(1,3) by (auto simp: tok_ok_def)
  have l: "length ?buf = length b + 1" by (simp add: nulterminate_fold fold_nul)
  have n: "?buf ! j = (if j \<in> snd ` set (toks c) then NUL else (b @ [NUL]) ! j)" if "j \<le> length b" for j
    using that by (simp add: nulterminate_fold fold_nul)
  have in1: "?buf ! j = b ! j" if j: "fst t \<le> j" "j < snd t" for j
  proof -
    have lt: "j < length b" using j t(2) by simp
    have "j \<notin> snd ` set (toks c)" using assms(1) t(3) [OF j] lt by (auto simp: tok_ok_def)
    then show ?thesis using n [of j] lt by (simp add: nth_append)
  qed
  have "takeWhile (\<lambda>x. x \<noteq> NUL) (drop (fst t) ?buf) = take (snd t - fst t) (drop (fst t) ?buf)"
  proof (rule takeWhile_prefix)
    fix j
    assume "j < snd t - fst t"
    then have j: "fst t + j < snd t" by simp
    then have "b ! (fst t + j) \<noteq> NUL" using t(2) assms(2) by (metis less_le_trans nth_mem)
    then show "drop (fst t) ?buf ! j \<noteq> NUL" using in1 [of "fst t + j"] j t(1,2) l by simp
  next
    show "snd t - fst t < length (drop (fst t) ?buf)" using t l by simp
    have "?buf ! snd t = NUL" using n [OF t(2)] assms(3) by auto
    then show "\<not> drop (fst t) ?buf ! (snd t - fst t) \<noteq> NUL" using t l by simp
  qed
  also have "\<dots> = take (snd t - fst t) (drop (fst t) b)" by (rule nth_equalityI) (use t l in1 in auto)
  finally show ?thesis by (simp add: cstring_def lexeme_def)
qed

lemma reads_cong: "(\<And>t. t \<in> set (toks c) \<Longrightarrow> g t = h t) \<Longrightarrow> reads g c = reads h c"
  by (induction c) auto

section \<open>What the parser builds\<close>

definition good :: "string \<Rightarrow> cmd \<Rightarrow> bool" where
  "good b c \<longleftrightarrow> redir_fds c \<and> (\<forall>t \<in> set (toks c). tok_ok b t)"

definition built :: "string \<Rightarrow> sherr + (cmd \<times> nat) \<Rightarrow> bool" where
  "built b m \<longleftrightarrow> (\<forall>c s. m = Inr (c, s) \<longrightarrow> good b c)"

lemma built_simps [simp]: "built b (Inr (c, s)) = good b c" "built b (panic msg)" "built b (Inl e)"
  by (auto simp: built_def panic_def)

lemma built_bind: "built b m \<Longrightarrow> (\<And>c s. good b c \<Longrightarrow> built b (f (c, s))) \<Longrightarrow> built b (bindr m f)"
  by (cases m) (auto simp: built_def split: prod.splits, blast)

lemma good_simps [simp]: "good b (PIPE l r) = (good b l \<and> good b r)" "good b (LIST l r) = (good b l \<and> good b r)" "good b (BACK c) = good b c"
  "good b (REDIR c f m d) = (good b c \<and> (d = 0 \<or> d = 1) \<and> tok_ok b f)" "good b (EXEC [])"
  by (auto simp: good_def)

lemma good_add_arg: "good b c \<Longrightarrow> tok_ok b t \<Longrightarrow> good b (add_arg t c)"
  by (induction t c rule: add_arg.induct) (auto simp: good_def)

lemma gettoken_word:
  assumes "gettoken b s = (CHR ''a'', t, s')"
  shows "tok_ok b t"
proof -
  let ?P = "\<lambda>x. \<not> is_ws x \<and> \<not> is_sym x"
  let ?q = "advance is_ws b s"
  have c: "at b ?q \<noteq> NUL" "t = (?q, advance ?P b ?q)"
    using assms by (auto simp: gettoken_def Let_def NUL_def split: if_splits prod.splits)
  have q: "?q < length b" by (rule at_bound [OF c(1)])
  note A = advance_bounds [of ?q b ?P]
  have m: "?P (b ! j)" if "?q \<le> j" "j < advance ?P b ?q" for j
  proof -
    have "j - ?q < length (takeWhile ?P (drop ?q b))" using that by (simp add: advance_def [of ?P])
    then have "?P (drop ?q b ! (j - ?q))" by (metis takeWhile_nth nth_mem set_takeWhileD)
    then show ?thesis using that q by simp
  qed
  have "\<not> ?P (b ! advance ?P b ?q)" if "advance ?P b ?q < length b"
  proof -
    have "dropWhile ?P (drop ?q b) = b ! advance ?P b ?q # drop (Suc (advance ?P b ?q)) b"
      using drop_advance [of ?P b ?q] that by (metis Cons_nth_drop_Suc)
    then show ?thesis by (simp add: dropWhile_eq_Cons_conv)
  qed
  then show ?thesis using A q m c(2) by (auto simp: tok_ok_def)
qed

lemma parseredirs_loop_built: "good b c \<Longrightarrow> built b (parseredirs_loop k b c s)"
proof (induction k arbitrary: c s)
  case (Suc k)
  obtain more s1 where p: "peek_tok b s ''<>'' = (more, s1)" by fastforce
  obtain t u s2 where t: "gettoken b s1 = (t, u, s2)" by (metis prod_cases3)
  obtain t2 f s3 where t2: "gettoken b s2 = (t2, f, s3)" by (metis prod_cases3)
  show ?case
  proof (cases "more \<and> t2 = CHR ''a''")
    case True
    then have "tok_ok b f" using gettoken_word t2 by blast
    then show ?thesis using True p t t2 Suc.IH Suc.prems by simp
  qed (use p t t2 Suc.prems in auto)
qed simp

lemma parseredirs_built: "good b c \<Longrightarrow> built b (parseredirs b c s)"
  unfolding parseredirs_def by (rule parseredirs_loop_built)

lemma parseargs_built: "good b c \<Longrightarrow> built b (parseargs k b n c s)"
proof (induction k arbitrary: n c s)
  case (Suc k)
  obtain stop s1 where p: "peek_tok b s ''|)&;'' = (stop, s1)" by fastforce
  obtain t a s2 where t: "gettoken b s1 = (t, a, s2)" by (metis prod_cases3)
  show ?case
  proof (cases "\<not> stop \<and> t = CHR ''a''")
    case True
    then have "good b (add_arg a c)" using gettoken_word t Suc.prems good_add_arg by blast
    then have "built b (bindr (parseredirs b (add_arg a c) s2) (\<lambda>(c1, s3). parseargs k b (n + 1) c1 s3))"
      by (intro built_bind parseredirs_built) (simp_all add: Suc.IH del: parseargs.simps)
    then show ?thesis using True p t by (simp add: NUL_def)
  qed (use p t Suc.prems in auto)
qed simp

lemma parseback_built: "good b c \<Longrightarrow> built b (parseback k b c s)"
  by (induction k arbitrary: c s) (auto simp: Let_def split: prod.splits)

lemma parser_built:
  "built b (parseline n b s) \<and> built b (parsepipe n b s) \<and> built b (parseblock n b s) \<and> built b (parseexec n b s)"
proof (induction n arbitrary: s)
  case (Suc n)
  note I = Suc.IH
  have "built b (parseline (Suc n) b s)"
    unfolding parseline.simps using I by (intro built_bind) (auto simp: Let_def simp del: parseback.simps intro!: built_bind parseback_built split: prod.splits)
  moreover have "built b (parsepipe (Suc n) b s)"
    unfolding parsepipe.simps using I by (intro built_bind) (auto simp: Let_def intro!: built_bind split: prod.splits)
  moreover have "built b (parseblock (Suc n) b s)"
    using I by (auto simp: Let_def intro!: built_bind parseredirs_built split: prod.splits)
  moreover have "built b (parseexec (Suc n) b s)"
    using I by (auto simp: Let_def simp del: parseargs.simps intro!: built_bind parseredirs_built parseargs_built split: prod.splits)
  ultimately show ?case by blast
qed simp

lemma parsecmd_good:
  assumes "parsecmd line = Inr (c, buf)"
  shows "good (takeWhile (\<lambda>x. x \<noteq> NUL) line) c" "buf = nulterminate c (takeWhile (\<lambda>x. x \<noteq> NUL) line @ [NUL])"
proof -
  let ?b = "takeWhile (\<lambda>x. x \<noteq> NUL) line"
  obtain s where p: "parseline (4 * length ?b + 4) ?b 0 = Inr (c, s)" and n: "buf = nulterminate c (?b @ [NUL])"
    using assms by (auto simp: parsecmd_def Let_def bindr_eq_Inr case_prod_beta split: if_splits)
  show "good ?b c" using parser_built [of ?b "4 * length ?b + 4" 0] p by (simp add: built_def)
  show "buf = nulterminate c (?b @ [NUL])" by (rule n)
qed

lemma unlex_no_nul: "\<forall>t \<in> set ts. token_ok t \<Longrightarrow> NUL \<notin> set (unlex ts)"
proof (induction ts)
  case (Cons t ts)
  have "NUL \<notin> set (tstr t)"
  proof (cases t)
    case (R k)
    then show ?thesis by (cases k) (simp_all add: NUL_def)
  qed (use Cons.prems in \<open>auto simp: word_ok_def wordch_def NUL_def\<close>)
  then show ?case using Cons by (simp add: NUL_def)
qed simp

section \<open>The shell\<close>

text \<open>C7. Round trip of the parser. A command, written with spaces between its tokens and with parentheses where the
  grammar needs them, is parsed to a tree whose words, read as C strings in the line after it was cut up by
  \<open>nulterminate\<close>, are those of the command: the words are not mixed up by sharing the buffer.\<close>

theorem parse_print:
  assumes "acmd_ok a"
  shows "\<exists>c buf. parsecmd (unlex (tokens a)) = Inr (c, buf) \<and> reads (\<lambda>t. cstring buf (fst t)) c = a"
proof -
  let ?b = "unlex (tokens a)"
  have nn: "NUL \<notin> set ?b" by (rule unlex_no_nul [OF tokens_ok [OF assms]])
  then have tw: "takeWhile (\<lambda>x. x \<noteq> NUL) ?b = ?b" by (simp add: takeWhile_eq_all_conv) blast
  have "here ?b 0 (tokens a @ [])" using tokens_ok [OF assms] by (simp add: here_def)
  moreover have "parses parseline 4 '')'' (tokens a) a" using tokens_parse [OF assms] by (simp add: reads_back_def)
  ultimately obtain c s' where c: "parseline (4 * length ?b + 4) ?b 0 = Inr (c, s')" "here ?b s' []" "reads (lexeme ?b) c = a"
    using parsesD [of parseline 4 "'')''" "tokens a" a ?b 0 "[]" "4 * length ?b + 4"] by (auto simp: follow_def)
  then have p: "parsecmd ?b = Inr (c, nulterminate c (?b @ [NUL]))" using peek_here [OF c(2)] by (simp add: parsecmd_def Let_def tw here_nil)
  have "\<forall>t \<in> set (toks c). tok_ok ?b t" using parsecmd_good(1) [OF p] by (simp add: tw good_def)
  then have "reads (\<lambda>t. cstring (nulterminate c (?b @ [NUL])) (fst t)) c = reads (lexeme ?b) c"
    using cstring_lexeme [OF _ nn] by (intro reads_cong) blast
  then show ?thesis using p c(3) by auto
qed

theorem parse_print_witness:
  "acmd_ok (AList (ABack (APipe (ARedir (AExec [''cat'']) RIn ''in'') (ARedir (APipe (AExec [''grep'', ''x'']) (AExec [''wc''])) RApp ''out''))) (AExec [''ls''])) \<and>
   (\<exists>c buf. parsecmd (unlex (tokens (AList (ABack (APipe (ARedir (AExec [''cat'']) RIn ''in'') (ARedir (APipe (AExec [''grep'', ''x'']) (AExec [''wc''])) RApp ''out''))) (AExec [''ls''])))) = Inr (c, buf) \<and>
     reads (\<lambda>t. cstring buf (fst t)) c = AList (ABack (APipe (ARedir (AExec [''cat'']) RIn ''in'') (ARedir (APipe (AExec [''grep'', ''x'']) (AExec [''wc''])) RApp ''out''))) (AExec [''ls'']))"
  (is "acmd_ok ?a \<and> _")
proof -
  have "acmd_ok ?a" by (simp add: MAXARGS_def word_ok_def wordch_def is_ws_def is_sym_def whitespace_def symbols_def NUL_def)
  then show ?thesis using parse_print by blast
qed

text \<open>C5. Wiring and waiting. Take any line that the shell accepts and any interleaving of the processes that \<open>runcmd\<close> makes
  for it, in which no fork and no pipe fails. The programs executed so far are programs of the command, each at most once, in the
  process and with the input and output that the command stands for (its redirections, the two ends of the pipe between
  neighbours), with the error output of the shell and with no other descriptor open; when no process of the shell is left, they are
  all the programs of the command. The shell goes on with the right side of a list only when the process of the left side has
  ended, and a process that runs a pipeline ends only when both sides have ended. Whenever a process waits it has no
  descriptors but its three, so that no end of a pipe is left open by it.\<close>

theorem runcmd_wiring:
  assumes "parsecmd line = Inr (c, buf)" "\<forall>p k. can_fork E p k \<and> can_pipe E p k"
    "run E ms (start (runcmd c buf) (std i out e)) = Some s"
  defines "V \<equiv> (\<lambda>(p, argv, x, y). (p, argv, std x y e)) ` set (wires c E buf i out [] 0)"
  shows "set (programs (trace s)) \<subseteq> V \<and> distinct (map fst (programs (trace s))) \<and> (settled s \<longrightarrow> set (programs (trace s)) = V) \<and>
    (\<forall>(p, j, a) \<in> waits c [] 0. past s p j \<longrightarrow> \<not> alive s a) \<and>
    (\<forall>p q t k C. task s p = Some (Live (SWait q) t k C) \<longrightarrow> (\<exists>x y. t = std x y e))"
proof -
  have f: "\<And>p k. can_fork E p k" "\<And>p k. can_pipe E p k" and r: "redir_fds c"
    using assms(2) parsecmd_good(1) [OF assms(1)] by (simp_all add: good_def)
  have "waited (runcmd c buf) E (waits c [] 0) (std i out e) [] 0 []" by (rule waited_runcmd [OF f(1)])
  from start_inv [OF tidy_runcmd [OF f r] this] have "shell_inv E e (waits c [] 0) V (start (runcmd c buf) (std i out e))"
    unfolding V_def owes_runcmd [OF f r] .
  from run_inv [OF assms(3) this] waits_shape have inv: "shell_inv E e (waits c [] 0) V s" by blast
  have "\<exists>x y. t = std x y e" if "task s p = Some (Live (SWait q) t k C)" for p q t k C
    using inv that unfolding shell_inv_def by fastforce
  then show ?thesis using inv settled_to_run [of s E] by (auto simp: shell_inv_def ran_once_def pass_ok_def)
qed

definition demo_env :: shenv where
  "demo_env = \<lparr>can_open = \<lambda>_ _ _. True, can_exec = \<lambda>_ _. True, can_fork = \<lambda>_ _. True, can_pipe = \<lambda>_ _. True, can_chdir = \<lambda>_ _. True\<rparr>"

text \<open>The right side of the pipe is started before the left side, and the shell waits for the pipeline before \<open>ls\<close>.\<close>

definition demo_moves :: "shmove list" where
  "demo_moves = [Act [], Act [0], Act [0], Act [0]] @ replicate 7 (Act [0, 1]) @ replicate 5 (Act [0, 0]) @ [Act [0], Act [0], Finish [0, 0] 0,
     Finish [0, 1] 0, Reap [0] [0, 1], Reap [0] [0, 0], Act [0], Reap [] [0], Act []]"

theorem runcmd_wiring_witness:
  "\<exists>c buf s. parsecmd ''cat f|wc>out;ls'' = Inr (c, buf) \<and>
     run demo_env demo_moves (start (runcmd c buf) (std (Inherited 0) (Inherited 1) (Inherited 2))) = Some s \<and>
     set (programs (trace s)) =
       {([0, 0], [''cat'', ''f''], std (Inherited 0) (PipeWrite [0] 0) (Inherited 2)),
        ([0, 1], [''wc''], std (PipeRead [0] 0) (Opened ''out'' (O_WRONLY OR O_CREATE OR O_TRUNC)) (Inherited 2)),
        ([], [''ls''], std (Inherited 0) (Inherited 1) (Inherited 2))}"
proof -
  let ?c = "LIST (PIPE (EXEC [(0, 3), (4, 5)]) (REDIR (EXEC [(6, 8)]) (9, 12) (O_WRONLY OR O_CREATE OR O_TRUNC) 1)) (EXEC [(13, 15)])"
  let ?buf = "''cat'' @ [NUL] @ ''f'' @ [NUL] @ ''wc'' @ [NUL] @ ''out'' @ [NUL] @ ''ls'' @ [NUL]"
  let ?s0 = "start (runcmd ?c ?buf) (std (Inherited 0) (Inherited 1) (Inherited 2))"
  have p: "parsecmd ''cat f|wc>out;ls'' = Inr (?c, ?buf)" by code_simp
  have f: "\<forall>p k. can_fork demo_env p k \<and> can_pipe demo_env p k" by (simp add: demo_env_def)
  have "case run demo_env demo_moves ?s0 of None \<Rightarrow> False | Some s \<Rightarrow> settled s" by code_simp
  then obtain s where s: "run demo_env demo_moves ?s0 = Some s" "settled s" by (auto split: option.splits)
  from runcmd_wiring [OF p f s(1)] s(2) have "set (programs (trace s)) =
      (\<lambda>(p, argv, x, y). (p, argv, std x y (Inherited 2))) ` set (wires ?c demo_env ?buf (Inherited 0) (Inherited 1) [] 0)" by blast
  also have "\<dots> = {([0, 0], [''cat'', ''f''], std (Inherited 0) (PipeWrite [0] 0) (Inherited 2)),
        ([0, 1], [''wc''], std (PipeRead [0] 0) (Opened ''out'' (O_WRONLY OR O_CREATE OR O_TRUNC)) (Inherited 2)),
        ([], [''ls''], std (Inherited 0) (Inherited 1) (Inherited 2))}"
    by (simp add: cstring_def NUL_def demo_env_def)
  finally show ?thesis using p s(1) by blast
qed

end
