(* ===== verification/Logspace.thy ===== *)
theory Logspace
  imports Log
begin

text \<open>
  The space in the log: operations that start, log blocks and end in any order. An operation has a budget
  of \<open>MAXOPBLOCKS\<close> blocks (\<open>kernel/param.h\<close>); \<open>begin_op\<close> is meant to let an operation in only if the log has
  room for the budgets of all.
\<close>

text \<open>The second component of a state has what is left of the budget of each operation that is in
  progress. Whatever else happens does not touch the log.\<close>

inductive log_step :: "lst \<times> nat list \<Rightarrow> lst \<times> nat list \<Rightarrow> bool" where
  begins: "begin_op_locked s = Inr (Done (), s') \<Longrightarrow> log_step (s, bs) (s', nat MAXOPBLOCKS # bs)"
| waits: "begin_op_locked s = Inr (Sleeps c, s') \<Longrightarrow> log_step (s, bs) (s', bs)"
| logs: "i < length bs \<Longrightarrow> 0 < bs ! i \<Longrightarrow> log_write b s = Inr s' \<Longrightarrow> log_step (s, bs) (s', bs[i := bs ! i - 1])"
| ends: "end_op_begin s = Inr (False, s') \<Longrightarrow> log_step (s, xs @ b # ys) (s', xs @ ys)"
| commits: "end_op_begin s = Inr (True, s1) \<Longrightarrow> commit s1 = Inr s2 \<Longrightarrow> the_log s2 = (the_log s1)\<lparr>lh_n := 0\<rparr> \<Longrightarrow>
    end_op_finish s2 = Inr s' \<Longrightarrow> log_step (s, [b]) (s', [])"
| other: "the_log s' = the_log s \<Longrightarrow> log_step (s, bs) (s', bs)"

inductive_cases log_stepE: "log_step x y"

definition space_inv :: "lst \<times> nat list \<Rightarrow> bool" where
  "space_inv x \<longleftrightarrow> (let l = the_log (fst x); bs = snd x in
     outstanding l = int (length bs) \<and> 0 \<le> lh_n l \<and> lh_n l + int (sum_list bs) \<le> int LOGSIZE \<and> (\<forall>b\<in>set bs. int b \<le> MAXOPBLOCKS))"

lemma lk_log:
  "acquire_lk k s = Inr s' \<Longrightarrow> the_log s' = the_log s" "release_lk k s = Inr s' \<Longrightarrow> the_log s' = the_log s"
  by (auto simp: acquire_lk_def release_lk_def split: if_splits)

lemma begin_op_log:
  "begin_op_locked s = Inr (Done (), s') \<Longrightarrow> \<not> committing (the_log s) \<and>
     lh_n (the_log s) + (outstanding (the_log s) + 1) * MAXOPBLOCKS \<le> int LOGSIZE \<and>
     the_log s' = (the_log s)\<lparr>outstanding := outstanding (the_log s) + 1\<rparr>"
  "begin_op_locked s = Inr (Sleeps c, s') \<Longrightarrow> the_log s' = the_log s"
  by (auto simp: begin_op_locked_def bindr_eq_Inr sleep_enter_def sched_def myproc_def acquire_lk_def release_lk_def updp_def
      split: if_splits option.splits)


lemma wakeup_log:
  assumes "wakeup c s = Inr s'"
  shows "the_log s' = the_log s"
proof -
  have "wakeup_loop k i c s = Inr s' \<Longrightarrow> the_log s' = the_log s" for k i s
  proof (induction k arbitrary: i s)
    case (Suc k)
    then show ?case
      by (auto simp: bindr_eq_Inr Let_def acquire_lk_def release_lk_def updp_def r_time_def split_def split: if_splits)
  qed simp
  then show ?thesis using assms by (simp add: wakeup_def)
qed

lemma log_write_log:
  assumes "log_write b s = Inr s'"
  shows "lh_n (the_log s) < int LOGSIZE \<and> 1 \<le> outstanding (the_log s) \<and>
    (lh_n (the_log s') = lh_n (the_log s) \<or> lh_n (the_log s') = lh_n (the_log s) + 1) \<and>
    outstanding (the_log s') = outstanding (the_log s)"
  using assms
  by (auto simp: log_write_def bindr_eq_Inr Let_def acquire_lk_def release_lk_def bpin_def updl_def updb_def split: if_splits option.splits)


lemma end_op_log:
  "end_op_begin s = Inr (c, s') \<Longrightarrow> \<not> committing (the_log s) \<and> c = (outstanding (the_log s) = 1) \<and> lh_n (the_log s') = lh_n (the_log s) \<and>
     outstanding (the_log s') = outstanding (the_log s) - 1"
  "end_op_finish s = Inr s' \<Longrightarrow> lh_n (the_log s') = lh_n (the_log s) \<and> outstanding (the_log s') = outstanding (the_log s)"
  by (auto simp: end_op_begin_def end_op_finish_def bindr_eq_Inr Let_def dest!: lk_log wakeup_log split: if_splits)

lemma space_inv_step:
  assumes "log_step x y" "space_inv x"
  shows "space_inv y"
  using assms
proof cases
  case (begins s s' bs)
  have "int (sum_list bs) \<le> MAXOPBLOCKS * int (length bs)"
    using assms(2) begins(1) sum_list_mono [of bs "\<lambda>b. b" "\<lambda>b. nat MAXOPBLOCKS"]
    by (auto simp: space_inv_def Let_def sum_list_triv MAXOPBLOCKS_def mult.commute)
  then show ?thesis
    using begins begin_op_log(1) [OF begins(3)] assms(2)
    by (auto simp: space_inv_def Let_def MAXOPBLOCKS_def algebra_simps)
next
  case (waits s c s' bs)
  then show ?thesis using begin_op_log(2) [OF waits(3)] assms(2) by (simp add: space_inv_def Let_def)
next
  case (logs i bs b s s')
  have "sum_list (bs[i := bs ! i - 1]) + 1 = sum_list bs"
    using logs(3,4) elem_le_sum_list [of i bs] by (simp add: sum_list_update)
  moreover have "int c \<le> MAXOPBLOCKS" if "c \<in> set (bs[i := bs ! i - 1])" for c
  proof -
    have "\<forall>c\<in>set bs. int c \<le> MAXOPBLOCKS" using assms(2) logs(1) by (simp add: space_inv_def Let_def)
    moreover from this have "int (bs ! i) \<le> MAXOPBLOCKS" using logs(3) by auto
    moreover have "c = bs ! i - 1 \<or> c \<in> set bs" using that set_update_subset_insert by fastforce
    ultimately show ?thesis by auto
  qed
  ultimately show ?thesis
    using logs log_write_log [OF logs(5)] assms(2) by (auto simp: space_inv_def Let_def)
next
  case (ends s s' xs b ys)
  then show ?thesis using end_op_log(1) [OF ends(3)] assms(2) by (auto simp: space_inv_def Let_def)
next
  case (commits s s1 s2 s' b)
  then show ?thesis using end_op_log(1) [OF commits(3)] end_op_log(2) [OF commits(6)] assms(2) by (auto simp: space_inv_def Let_def)
next
  case (other s' s bs)
  then show ?thesis using assms(2) by (simp add: space_inv_def Let_def)
qed

lemma log_write_ok:
  assumes "LogLock \<notin> held s" "BcacheLock \<notin> held s" "lh_n (the_log s) < int LOGSIZE" "lh_n (the_log s) < log_size (the_log s) - 1"
    "1 \<le> outstanding (the_log s)"
  shows "\<exists>s'. log_write b s = Inr s'"
proof -
  let ?i = "case scan (\<lambda>i. lh_block (the_log s) ! i = b_blockno (bufs s b)) 0 (nat (lh_n (the_log s))) of Some i \<Rightarrow> i | None \<Rightarrow> nat (lh_n (the_log s))"
  show ?thesis
    using assms by (cases "?i = nat (lh_n (the_log s))") (auto simp: log_write_def acquire_lk_def release_lk_def Let_def bpin_eq)
qed

text \<open>C9. If the log area were larger than \<open>LOGSIZE\<close> blocks by one, an operation that stays within its budget could
  always log a block: however operations start, log blocks, end and commit, \<open>begin_op\<close> admits no more than
  the log can hold.\<close>

theorem log_space_reserved:
  assumes "log_step\<^sup>*\<^sup>* (s0, []) (s, bs)" "lh_n (the_log s0) = 0" "outstanding (the_log s0) = 0" "i < length bs" "0 < bs ! i"
    "LogLock \<notin> held s" "BcacheLock \<notin> held s" "log_size (the_log s) > int LOGSIZE"
  shows "\<exists>s'. log_write b s = Inr s'"
proof -
  have "space_inv (s0, [])" using assms(2,3) by (simp add: space_inv_def Let_def)
  with assms(1) have inv: "space_inv (s, bs)" by (induction rule: rtranclp_induct) (auto intro: space_inv_step)
  have "bs ! i \<le> sum_list bs" using assms(4) by (rule elem_le_sum_list)
  then have "lh_n (the_log s) < int LOGSIZE" "1 \<le> outstanding (the_log s)" using inv assms(4,5) by (auto simp: space_inv_def Let_def)
  then show ?thesis using assms(6-8) by (intro log_write_ok) auto
qed


text \<open>A log with \<open>k\<close> entries, for the blocks from 100 on, of a file system with \<open>z\<close> blocks of log.\<close>

definition demo_full :: "int \<Rightarrow> nat \<Rightarrow> nat \<Rightarrow> log" where
  "demo_full z out k = \<lparr>log_start = 2, log_size = z, outstanding = int out, committing = False, log_dev = 1, lh_n = int k,
     lh_block = map (\<lambda>i. of_nat (100 + i)) [0..<k] @ replicate (LOGSIZE - k) 0\<rparr>"

definition demo_at :: "log \<Rightarrow> lockid set \<Rightarrow> lst" where
  "demo_at l h = demo_lst\<lparr>held := h, bufs := (\<lambda>i. \<lparr>b_valid = True, b_disk = False, b_dev = 1, b_blockno = of_nat (100 + i), b_refcnt = 0,
     b_prev = 0, b_next = 0\<rparr>), the_log := l\<rparr>"

lemma demo_at_simps [simp]: "the_log (demo_at l h) = l" "held (demo_at l h) = h" "b_blockno (bufs (demo_at l h) i) = of_nat (100 + i)"
  by (simp_all add: demo_at_def)

lemma demo_begins:
  assumes "int k + (int out + 1) * 10 \<le> 30"
  shows "log_step\<^sup>*\<^sup>* (demo_at (demo_full z out k) {}, bs) (demo_at (demo_full z (out + 1) k) {}, 10 # bs)"
proof -
  let ?s = "demo_at (demo_full z out k) {LogLock}"
  have "begin_op_locked ?s = Inr (Done (), (updl (\<lambda>l. l\<lparr>outstanding := outstanding l + 1\<rparr>) ?s)\<lparr>held := {}\<rparr>)"
    using assms by (simp add: begin_op_locked_def demo_full_def MAXOPBLOCKS_def LOGSIZE_def release_lk_def)
  from log_step.begins [OF this, of bs] have "log_step (?s, bs) ((updl (\<lambda>l. l\<lparr>outstanding := outstanding l + 1\<rparr>) ?s)\<lparr>held := {}\<rparr>, 10 # bs)"
    by (simp add: MAXOPBLOCKS_def)
  moreover have "log_step (demo_at (demo_full z out k) {}, bs) (?s, bs)" by (rule log_step.other) simp
  moreover have "log_step ((updl (\<lambda>l. l\<lparr>outstanding := outstanding l + 1\<rparr>) ?s)\<lparr>held := {}\<rparr>, 10 # bs)
      (demo_at (demo_full z (out + 1) k) {}, 10 # bs)"
    by (rule log_step.other) (simp add: demo_full_def)
  ultimately show ?thesis by (meson converse_rtranclp_into_rtranclp r_into_rtranclp)
qed

lemma demo_log_write:
  assumes "k < 30" "int k < z - 1" "1 \<le> out"
  shows "\<exists>s'. log_write k (demo_at (demo_full z out k) {}) = Inr s' \<and> the_log s' = demo_full z out (k + 1)"
proof -
  let ?s = "demo_at (demo_full z out k) {}" and ?B = "lh_block (demo_full z out k)"
  have ne: "(of_nat (100 + i) :: u32) \<noteq> of_nat (100 + k)" if "i < k" for i
  proof -
    have "unat (of_nat (100 + i) :: u32) = 100 + i" "unat (of_nat (100 + k) :: u32) = 100 + k"
      using that assms(1) by (simp_all add: unat_of_nat take_bit_nat_eq_self del: of_nat_add)
    then show ?thesis using that by (metis add_left_cancel less_irrefl)
  qed
  have "?B ! i = of_nat (100 + i)" if "i < k" for i using that by (simp add: demo_full_def nth_append)
  then have "scan (\<lambda>i. ?B ! i = of_nat (100 + k)) 0 k = None" using ne by (simp add: scan_None)
  moreover have "?B[k := of_nat (100 + k)] = map (\<lambda>i. of_nat (100 + i)) [0..<k + 1] @ replicate (LOGSIZE - (k + 1)) 0"
  proof -
    have "replicate (LOGSIZE - k) (0 :: u32) = 0 # replicate (LOGSIZE - (k + 1)) 0"
      using assms(1) by (simp add: LOGSIZE_def flip: replicate_Suc)
    then show ?thesis by (simp add: demo_full_def list_update_append)
  qed
  ultimately show ?thesis
    using assms by (simp add: log_write_def acquire_lk_def release_lk_def Let_def bpin_eq demo_full_def LOGSIZE_def updb_def updl_def)
qed


lemma pos_budget: "0 < sum_list bs \<Longrightarrow> \<exists>i<length bs. 0 < (bs ! i :: nat)"
  by (metis gr0I in_set_conv_nth sum_list_eq_0_iff less_irrefl)

lemma demo_logs:
  assumes "log_step\<^sup>*\<^sup>* x (demo_at (demo_full z out 0) {}, bs)" "k < 30" "int k \<le> z - 1" "1 \<le> out" "sum_list bs = 30"
  shows "\<exists>cs. log_step\<^sup>*\<^sup>* x (demo_at (demo_full z out k) {}, cs) \<and> sum_list cs = 30 - k"
  using assms(2,3)
proof (induction k)
  case 0
  then show ?case using assms by auto
next
  case (Suc k)
  then obtain cs where cs: "log_step\<^sup>*\<^sup>* x (demo_at (demo_full z out k) {}, cs)" "sum_list cs = 30 - k" by auto
  then obtain i where i: "i < length cs" "0 < cs ! i" using pos_budget [of cs] Suc.prems by auto
  obtain s' where s': "log_write k (demo_at (demo_full z out k) {}) = Inr s'" "the_log s' = demo_full z out (k + 1)"
    using demo_log_write [of k z out] Suc.prems assms(4) by auto
  have 1: "log_step (demo_at (demo_full z out k) {}, cs) (s', cs[i := cs ! i - 1])" using i s' by (intro log_step.logs)
  have 2: "log_step (s', cs[i := cs ! i - 1]) (demo_at (demo_full z out (Suc k)) {}, cs[i := cs ! i - 1])"
    using s'(2) by (intro log_step.other) simp
  have "sum_list (cs[i := cs ! i - 1]) = 30 - Suc k" using i cs(2) elem_le_sum_list [OF i(1)] by (simp add: sum_list_update)
  then show ?case using rtranclp.rtrancl_into_rtrancl [OF rtranclp.rtrancl_into_rtrancl [OF cs(1) 1] 2] by blast
qed

theorem log_space_reserved_witness:
  "\<exists>s bs s'. log_step\<^sup>*\<^sup>* (demo_at (demo_full 31 0 0) {}, []) (s, bs) \<and> 0 < length bs \<and> log_write 0 s = Inr s'"
proof -
  have r: "log_step\<^sup>*\<^sup>* (demo_at (demo_full 31 0 0) {}, []) (demo_at (demo_full 31 1 0) {}, [10])"
    using demo_begins [of 0 0 31 "[]"] by simp
  have "\<exists>s'. log_write 0 (demo_at (demo_full 31 1 0) {}) = Inr s'"
    by (rule log_space_reserved [OF r, of 0]) (simp_all add: demo_full_def LOGSIZE_def)
  then show ?thesis using r by fastforce
qed

text \<open>C35. With the 30 blocks of log that \<open>mkfs\<close> makes (\<open>nlog = LOGSIZE\<close> in \<open>mkfs/mkfs.c\<close>, of which one is the header),
  \<open>begin_op\<close> admits three operations, and one of them panics when it logs a block within its budget.\<close>

theorem log_space_overbooked:
  "\<exists>s bs i. log_step\<^sup>*\<^sup>* (demo_at (demo_full 30 0 0) {}, []) (s, bs) \<and> i < length bs \<and> 0 < bs ! i \<and>
     log_write 29 s = Inl (Panic ''too big a transaction'')"
proof -
  have "log_step\<^sup>*\<^sup>* (demo_at (demo_full 30 0 0) {}, []) (demo_at (demo_full 30 1 0) {}, [10])"
    using demo_begins [of 0 0 30 "[]"] by simp
  also have "log_step\<^sup>*\<^sup>* (demo_at (demo_full 30 1 0) {}, [10]) (demo_at (demo_full 30 2 0) {}, [10, 10])"
    using demo_begins [of 0 1 30 "[10]"] by (simp add: numeral_2_eq_2)
  also have "log_step\<^sup>*\<^sup>* (demo_at (demo_full 30 2 0) {}, [10, 10]) (demo_at (demo_full 30 3 0) {}, [10, 10, 10])"
    using demo_begins [of 0 2 30 "[10, 10]"] by simp
  finally obtain cs where "log_step\<^sup>*\<^sup>* (demo_at (demo_full 30 0 0) {}, []) (demo_at (demo_full 30 3 29) {}, cs)" "sum_list cs = 1"
    using demo_logs [of _ 30 3 "[10, 10, 10]" 29] by auto
  moreover have "log_write 29 (demo_at (demo_full 30 3 29) {}) = Inl (Panic ''too big a transaction'')"
    by (simp add: log_write_def acquire_lk_def demo_full_def LOGSIZE_def)
  ultimately show ?thesis using pos_budget [of cs] by fastforce
qed

end
