(* ===== verification/Sleepwake.thy ===== *)
theory Sleepwake
  imports Sleeplock
begin

text \<open>
  Processes that use sleep locks at the same time. \<open>acquiresleep\<close> and \<open>releasesleep\<close> (\<open>kernel/sleeplock.c\<close>), with the \<open>sleep\<close> and
  the \<open>wakeup\<close> that they call (\<open>kernel/proc.c\<close>), are taken apart into statements; a step of the system is one statement of
  one process, so that everything may happen between two statements that the spin locks allow. \<open>owner\<close> is the process that
  has a spin lock: taking a lock is possible when nobody has it, and this is the only thing that one process does to hold up another.
  The section after the definitions shows that a process whose statements are not interleaved with others does what the
  definitions of \<open>Sleeplock\<close> say.
\<close>

section \<open>Statements\<close>

text \<open>Where a process is: in \<open>acquiresleep\<close> (the names with \<open>S\<close> are statements of \<open>sleep\<close>, \<open>SOff\<close> is a process that is
  switched out), in \<open>releasesleep\<close> (those with \<open>W\<close> are statements of \<open>wakeup\<close>, for the process of the table that it
  looks at), or elsewhere.\<close>

datatype apc = AAcquire | AWhile | SLock | SRelease | SState | SSched | SOff | SChan | SUnlock | SAcquire | ASet | ARelease

datatype rpc = RAcquire | RClear | WFor nat | WTest nat | WUnlock nat | RRelease

datatype spc = Elsewhere | Acq apc slock | Rel rpc slock

record slsys =
  mem :: sst
  owner :: "lockid \<Rightarrow> nat option"
  pc :: "nat \<Rightarrow> spc"

definition goto :: "nat \<Rightarrow> spc \<Rightarrow> slsys \<Rightarrow> slsys" where
  "goto i x s = s\<lparr>pc := (pc s)(i := x)\<rparr>"

definition lock :: "nat \<Rightarrow> lockid \<Rightarrow> slsys \<Rightarrow> slsys option" where
  "lock i x s = (if owner s x = None then Some (s\<lparr>owner := (owner s)(x := Some i)\<rparr>) else None)"

definition unlock :: "lockid \<Rightarrow> slsys \<Rightarrow> slsys" where
  "unlock x s = s\<lparr>owner := (owner s)(x := None)\<rparr>"

definition change :: "(sst \<Rightarrow> sst) \<Rightarrow> slsys \<Rightarrow> slsys" where
  "change f s = s\<lparr>mem := f (mem s)\<rparr>"

text \<open>\<open>sleep(lk, &lk->lk)\<close> of process \<open>i\<close>: \<open>sched\<close> hands the process's lock to the scheduler, which releases it, and which
  takes it again when it runs the process.\<close>

fun sleep_stmt :: "nat \<Rightarrow> slock \<Rightarrow> apc \<Rightarrow> slsys \<Rightarrow> slsys option" where
  "sleep_stmt i l SLock s = map_option (goto i (Acq SRelease l)) (lock i (ProcLock i) s)"
| "sleep_stmt i l SRelease s = Some (goto i (Acq SState l) (unlock (SleepLk l) s))"
| "sleep_stmt i l SState s =
     Some (goto i (Acq SSched l) (change (updp i (\<lambda>r. r\<lparr>pchan := Some (ChanSleeplock l), pstate := SLEEPING\<rparr>)) s))"
| "sleep_stmt i l SSched s = Some (goto i (Acq SOff l) (unlock (ProcLock i) s))"
| "sleep_stmt i l SOff s =
     (if pstate (procs (mem s) i) = RUNNABLE
      then map_option (\<lambda>s1. goto i (Acq SChan l) (change (updp i (\<lambda>r. r\<lparr>pstate := RUNNING\<rparr>)) s1)) (lock i (ProcLock i) s) else None)"
| "sleep_stmt i l SChan s = Some (goto i (Acq SUnlock l) (change (updp i (\<lambda>r. r\<lparr>pchan := None\<rparr>)) s))"
| "sleep_stmt i l SUnlock s = Some (goto i (Acq SAcquire l) (unlock (ProcLock i) s))"
| "sleep_stmt i l SAcquire s = map_option (goto i (Acq AWhile l)) (lock i (SleepLk l) s)"
| "sleep_stmt i l _ s = None"

fun acquiresleep_stmt :: "nat \<Rightarrow> slock \<Rightarrow> apc \<Rightarrow> slsys \<Rightarrow> slsys option" where
  "acquiresleep_stmt i l AAcquire s = map_option (goto i (Acq AWhile l)) (lock i (SleepLk l) s)"
| "acquiresleep_stmt i l AWhile s = Some (goto i (Acq (if sl_locked (slocks (mem s) l) then SLock else ASet) l) s)"
| "acquiresleep_stmt i l ASet s =
     Some (goto i (Acq ARelease l) (change (\<lambda>m. upd_sl l \<lparr>sl_locked = True, sl_pid = pid (procs m i)\<rparr> m) s))"
| "acquiresleep_stmt i l ARelease s = Some (goto i Elsewhere (unlock (SleepLk l) s))"
| "acquiresleep_stmt i l a s = sleep_stmt i l a s"

definition wake_one :: "chan \<Rightarrow> nat \<Rightarrow> sst \<Rightarrow> sst" where
  "wake_one c k m =
     (if pstate (procs m k) = SLEEPING \<and> pchan (procs m k) = Some c
      then let m1 = updp k (\<lambda>r. r\<lparr>pstate := RUNNABLE\<rparr>) m; (now, m2) = r_time m1 in updp k (\<lambda>r. r\<lparr>wait_time := now\<rparr>) m2
      else m)"

fun wakeup_stmt :: "nat \<Rightarrow> slock \<Rightarrow> rpc \<Rightarrow> slsys \<Rightarrow> slsys option" where
  "wakeup_stmt i l (WFor k) s =
     (if k \<ge> NPROC then Some (goto i (Rel RRelease l) s)
      else if k = i then Some (goto i (Rel (WFor (k + 1)) l) s)
      else map_option (goto i (Rel (WTest k) l)) (lock i (ProcLock k) s))"
| "wakeup_stmt i l (WTest k) s = Some (goto i (Rel (WUnlock k) l) (change (wake_one (ChanSleeplock l) k) s))"
| "wakeup_stmt i l (WUnlock k) s = Some (goto i (Rel (WFor (k + 1)) l) (unlock (ProcLock k) s))"
| "wakeup_stmt i l _ s = None"

fun releasesleep_stmt :: "nat \<Rightarrow> slock \<Rightarrow> rpc \<Rightarrow> slsys \<Rightarrow> slsys option" where
  "releasesleep_stmt i l RAcquire s = map_option (goto i (Rel RClear l)) (lock i (SleepLk l) s)"
| "releasesleep_stmt i l RClear s =
     Some (goto i (Rel (WFor 0) l) (change (upd_sl l \<lparr>sl_locked = False, sl_pid = 0\<rparr>) s))"
| "releasesleep_stmt i l RRelease s = Some (goto i Elsewhere (unlock (SleepLk l) s))"
| "releasesleep_stmt i l r s = wakeup_stmt i l r s"

definition stmt :: "nat \<Rightarrow> slsys \<Rightarrow> slsys option" where
  "stmt i s = (case pc s i of Elsewhere \<Rightarrow> None | Acq a l \<Rightarrow> acquiresleep_stmt i l a s | Rel r l \<Rightarrow> releasesleep_stmt i l r s)"

text \<open>A process that sleeps on a sleep lock.\<close>

definition waits_on :: "'a sst_scheme \<Rightarrow> nat \<Rightarrow> slock \<Rightarrow> bool" where
  "waits_on m i l \<longleftrightarrow> pstate (procs m i) = SLEEPING \<and> pchan (procs m i) = Some (ChanSleeplock l)"

text \<open>A running process calls one of the two routines, or executes the next statement of the one it is in; a process is
  killed, which makes it runnable if it sleeps; and a process that is not in one of the routines may do anything else, of
  which only its entry of the table matters here.\<close>

inductive sl_step :: "slsys \<Rightarrow> slsys \<Rightarrow> bool" where
  call_acquire: "i < NPROC \<Longrightarrow> pc s i = Elsewhere \<Longrightarrow> pstate (procs (mem s) i) = RUNNING \<Longrightarrow> sl_step s (goto i (Acq AAcquire l) s)"
| call_release: "i < NPROC \<Longrightarrow> pc s i = Elsewhere \<Longrightarrow> pstate (procs (mem s) i) = RUNNING \<Longrightarrow> sl_step s (goto i (Rel RAcquire l) s)"
| runs: "i < NPROC \<Longrightarrow> stmt i s = Some s' \<Longrightarrow> sl_step s s'"
| killed: "owner s (ProcLock k) = None \<Longrightarrow> pstate (procs (mem s) k) = SLEEPING \<Longrightarrow>
    sl_step s (change (updp k (\<lambda>r. r\<lparr>killed_f := 1, pstate := RUNNABLE\<rparr>)) s)"
| elsewhere: "pc s i = Elsewhere \<Longrightarrow> owner s (ProcLock i) = None \<Longrightarrow> (\<And>l. \<not> waits_on (updp i f (mem s)) i l) \<Longrightarrow>
    sl_step s (change (updp i f) s)"

section \<open>A process on its own\<close>

primrec stmts :: "nat \<Rightarrow> nat \<Rightarrow> slsys \<Rightarrow> slsys option" where
  "stmts 0 i s = Some s"
| "stmts (Suc n) i s = Option.bind (stmt i s) (stmts n i)"

lemma stmts_add: "stmts (m + n) i s = Option.bind (stmts m i s) (stmts n i)"
  by (induction m arbitrary: s) (simp_all split: Option.bind_split)

lemmas sys_defs = goto_def lock_def unlock_def change_def

lemma slsys_same: "owner s = f \<Longrightarrow> s\<lparr>owner := f\<rparr> = (s :: slsys)"
  by simp

text \<open>\<open>acquiresleep\<close> of a free lock is the definition of \<open>Sleeplock\<close>; of a lock that is taken, it goes to sleep as that says.\<close>

lemma acquire_alone:
  assumes "pc s i = Acq AAcquire l" "owner s = (\<lambda>_. None)" "cur (mem s) = Some i" "SleepLk l \<notin> held (mem s)" "\<not> sl_locked (slocks (mem s) l)"
  shows "\<exists>m. acquiresleep_try l (mem s) = Inr (Done (), m) \<and> stmts 4 i s = Some (s\<lparr>mem := m, pc := (pc s)(i := Elsewhere)\<rparr>)"
proof -
  have "(\<lambda>_. None)(SleepLk l := None) = (\<lambda>_. None)" by auto
  then show ?thesis using acquiresleep_try_ok [OF assms(4,3,5)] assms(1,2,5)
    by (simp add: eval_nat_numeral stmt_def sys_defs)
qed

lemma acquire_sleeps_alone:
  assumes "pc s i = Acq AAcquire l" "owner s = (\<lambda>_. None)" "cur (mem s) = Some i" "held (mem s) = {}" "sl_locked (slocks (mem s) l)"
  shows "\<exists>m. acquiresleep_try l (mem s) = Inr (Sleeps (ChanSleeplock l), m\<lparr>held := {ProcLock i}\<rparr>) \<and> held m = {} \<and>
    stmts 6 i s = Some (s\<lparr>mem := m, pc := (pc s)(i := Acq SOff l)\<rparr>)"
proof -
  let ?m = "updp i (\<lambda>r. r\<lparr>pchan := Some (ChanSleeplock l), pstate := SLEEPING\<rparr>) (mem s)"
  have e: "((\<lambda>_. None)(SleepLk l := Some i, ProcLock i := Some i))(SleepLk l := None, ProcLock i := None) = (\<lambda>_. None)" by auto
  have "updp i f (mem s\<lparr>held := h\<rparr>) = (updp i f (mem s))\<lparr>held := h\<rparr>" for f h by (simp add: updp_def)
  then show ?thesis using acquiresleep_try_sleeps [OF assms(4,3,5)] assms(1,2,4,5) e
    by (intro exI [of _ ?m]) (simp add: eval_nat_numeral stmt_def sys_defs updp_def)
qed

text \<open>One turn of the loop of \<open>wakeup\<close>.\<close>

lemma wake_one_woken:
  assumes "cur m \<noteq> Some k"
  shows "wake_one c k (woken c k m) = woken c (Suc k) m"
proof (cases "sleeper c m k")
  case True
  then have "updp k (\<lambda>r. r\<lparr>wait_time := clk m (clk_reads (woken c k m))\<rparr>)
      ((updp k (\<lambda>r. r\<lparr>pstate := RUNNABLE\<rparr>) (woken c k m))\<lparr>clk_reads := clk_reads (woken c k m) + 1\<rparr>) = woken c (Suc k) m"
    using woken_procs_Suc [of c m k] by (simp add: woken_def updp_def card_less_Suc woken_procs_def)
  with True show ?thesis by (simp add: wake_one_def woken_def woken_procs_def sleeper_def r_time_def Let_def updp_def)
next
  case False
  then have "woken c (Suc k) m = woken c k m" by (simp add: woken_def card_less_Suc woken_procs_Suc)
  then show ?thesis using False assms by (auto simp: wake_one_def woken_def woken_procs_def sleeper_def)
qed

lemma wakeup_alone_turn:
  assumes "pc s i = Rel (WFor k) l" "k < NPROC" "\<forall>j. owner s (ProcLock j) = None" "cur m = Some i" "mem s = woken (ChanSleeplock l) k m"
  shows "\<exists>n. stmts n i s = Some (s\<lparr>mem := woken (ChanSleeplock l) (Suc k) m, pc := (pc s)(i := Rel (WFor (Suc k)) l)\<rparr>)"
proof (cases "k = i")
  case True
  then have "\<not> sleeper (ChanSleeplock l) m k" using assms(4) by (simp add: sleeper_def)
  then have "woken (ChanSleeplock l) (Suc k) m = woken (ChanSleeplock l) k m" by (simp add: woken_def card_less_Suc woken_procs_Suc)
  then show ?thesis using assms True by (intro exI [of _ 1]) (simp add: stmt_def sys_defs)
next
  case False
  then have "wake_one (ChanSleeplock l) k (woken (ChanSleeplock l) k m) = woken (ChanSleeplock l) (Suc k) m"
    using assms(4) by (intro wake_one_woken) simp
  moreover have "(owner s)(ProcLock k := None) = owner s" using assms(3) by auto
  ultimately show ?thesis using assms False by (intro exI [of _ 3]) (simp add: stmt_def sys_defs eval_nat_numeral)
qed

lemma wakeup_alone_loop:
  assumes "pc s i = Rel (WFor k) l" "k \<le> NPROC" "\<forall>j. owner s (ProcLock j) = None" "cur m = Some i" "mem s = woken (ChanSleeplock l) k m"
  shows "\<exists>n. stmts n i s = Some (s\<lparr>mem := woken (ChanSleeplock l) NPROC m, pc := (pc s)(i := Rel (WFor NPROC) l)\<rparr>)"
  using assms
proof (induction "NPROC - k" arbitrary: k s)
  case 0
  then have "k = NPROC" by simp
  then show ?case using "0.prems" by (intro exI [of _ 0]) (simp add: fun_upd_idem)
next
  case (Suc d)
  let ?s = "s\<lparr>mem := woken (ChanSleeplock l) (Suc k) m, pc := (pc s)(i := Rel (WFor (Suc k)) l)\<rparr>"
  have k: "k < NPROC" and d: "d = NPROC - Suc k" "Suc k \<le> NPROC" using Suc.hyps(2) by simp_all
  obtain n where n: "stmts n i s = Some ?s" using wakeup_alone_turn [of s i k l m] Suc.prems k by auto
  obtain n' where "stmts n' i ?s = Some (?s\<lparr>mem := woken (ChanSleeplock l) NPROC m, pc := (pc ?s)(i := Rel (WFor NPROC) l)\<rparr>)"
    using Suc.hyps(1) [of "Suc k" ?s] d Suc.prems by auto
  then show ?case using n by (intro exI [of _ "n + n'"]) (simp add: stmts_add)
qed

text \<open>\<open>releasesleep\<close>.\<close>

lemma release_alone:
  assumes "pc s i = Rel RAcquire l" "owner s = (\<lambda>_. None)" "cur (mem s) = Some i" "held (mem s) = {}"
  shows "\<exists>m n. releasesleep l (mem s) = Inr m \<and> stmts n i s = Some (s\<lparr>mem := m, pc := (pc s)(i := Elsewhere)\<rparr>)"
proof -
  let ?m = "upd_sl l \<lparr>sl_locked = False, sl_pid = 0\<rparr> (mem s)"
  let ?s = "s\<lparr>mem := ?m, owner := (\<lambda>_. None)(SleepLk l := Some i), pc := (pc s)(i := Rel (WFor 0) l)\<rparr>"
  let ?t = "?s\<lparr>mem := woken (ChanSleeplock l) NPROC ?m, pc := (pc ?s)(i := Rel (WFor NPROC) l)\<rparr>"
  have "stmts 2 i s = Some ?s" using assms by (simp add: eval_nat_numeral stmt_def sys_defs)
  moreover have "?m = woken (ChanSleeplock l) 0 ?m" by (simp add: woken_def woken_procs_def [abs_def])
  then obtain n where "stmts n i ?s = Some ?t" using wakeup_alone_loop [of ?s i 0 l ?m] assms(3) by auto
  moreover have "(\<lambda>_. None)(SleepLk l := None) = (\<lambda>_. None)" by auto
  then have "stmts 2 i ?t = Some (?t\<lparr>owner := \<lambda>_. None, pc := (pc s)(i := Elsewhere)\<rparr>)" by (simp add: eval_nat_numeral stmt_def sys_defs)
  ultimately have "stmts (2 + (n + 2)) i s = Some (?t\<lparr>owner := \<lambda>_. None, pc := (pc s)(i := Elsewhere)\<rparr>)" by (simp only: stmts_add Option.bind.simps)
  moreover have "releasesleep l (mem s) = Inr (woken (ChanSleeplock l) NPROC ?m)"
    using assms(4) by (intro releasesleep_ok) (simp_all add: no_proc_locks_def)
  ultimately show ?thesis using assms(2) by (intro exI [of _ "woken (ChanSleeplock l) NPROC ?m"] exI [of _ "2 + (n + 2)"]) simp
qed

section \<open>No wakeup is lost\<close>

text \<open>The spin locks that a process has at each statement.\<close>

fun holding :: "nat \<Rightarrow> spc \<Rightarrow> lockid set" where
  "holding i Elsewhere = {}"
| "holding i (Acq a l) =
     (if a \<in> {AAcquire, SOff, SAcquire} then {} else if a = SRelease then {SleepLk l, ProcLock i}
      else if a \<in> {SState, SSched, SChan, SUnlock} then {ProcLock i} else {SleepLk l})"
| "holding i (Rel r l) = (case r of RAcquire \<Rightarrow> {} | WTest k \<Rightarrow> {SleepLk l, ProcLock k} | WUnlock k \<Rightarrow> {SleepLk l, ProcLock k} | _ \<Rightarrow> {SleepLk l})"

text \<open>A process in \<open>releasesleep\<close> that has freed the lock and has not come to process \<open>i\<close> yet.\<close>

fun will_wake :: "spc \<Rightarrow> slock \<Rightarrow> nat \<Rightarrow> bool" where
  "will_wake (Rel (WFor k) l') l i = (l' = l \<and> k \<le> i)"
| "will_wake (Rel (WTest k) l') l i = (l' = l \<and> k \<le> i)"
| "will_wake (Rel (WUnlock k) l') l i = (l' = l \<and> k < i)"
| "will_wake _ l i = False"

definition cared_for :: "slsys \<Rightarrow> nat \<Rightarrow> slock \<Rightarrow> bool" where
  "cared_for s i l \<longleftrightarrow> sl_locked (slocks (mem s) l) \<or> (\<exists>j<NPROC. will_wake (pc s j) l i)"

text \<open>A process that has found the lock taken still finds it so until it has its own lock and gives up the lock of
  the sleep lock; from then on, until it is woken, the lock is taken or somebody is about to wake it.\<close>

definition sl_inv :: "slsys \<Rightarrow> bool" where
  "sl_inv s \<longleftrightarrow> (\<forall>x i. owner s x = Some i \<longleftrightarrow> x \<in> holding i (pc s i)) \<and> (\<forall>i. NPROC \<le> i \<longrightarrow> pc s i = Elsewhere) \<and>
     (\<forall>i l. waits_on (mem s) i l \<longrightarrow> pc s i = Acq SSched l \<or> pc s i = Acq SOff l) \<and>
     (\<forall>i l. pc s i = Acq SLock l \<or> pc s i = Acq SRelease l \<longrightarrow> sl_locked (slocks (mem s) l)) \<and>
     (\<forall>i l. pc s i = Acq SState l \<or> waits_on (mem s) i l \<longrightarrow> cared_for s i l)"

lemma sl_invD:
  assumes "sl_inv s"
  shows "owner s x = Some i \<longleftrightarrow> x \<in> holding i (pc s i)" "NPROC \<le> i \<Longrightarrow> pc s i = Elsewhere"
    "waits_on (mem s) i l \<Longrightarrow> pc s i = Acq SSched l \<or> pc s i = Acq SOff l"
    "pc s i = Acq SLock l \<Longrightarrow> sl_locked (slocks (mem s) l)" "pc s i = Acq SRelease l \<Longrightarrow> sl_locked (slocks (mem s) l)"
    "pc s i = Acq SState l \<Longrightarrow> cared_for s i l" "waits_on (mem s) i l \<Longrightarrow> cared_for s i l"
  using assms unfolding sl_inv_def by blast+

text \<open>The locks: a statement of \<open>i\<close> takes and gives up what \<open>holding\<close> says.\<close>

definition locks_ok :: "slsys \<Rightarrow> bool" where
  "locks_ok s \<longleftrightarrow> (\<forall>x i. owner s x = Some i \<longleftrightarrow> x \<in> holding i (pc s i))"

lemma locks_move:
  assumes "locks_ok s" "owner s' = (\<lambda>x. if x \<in> holding i y - holding i (pc s i) then Some i
      else if x \<in> holding i (pc s i) - holding i y then None else owner s x)"
    "\<forall>x \<in> holding i y - holding i (pc s i). owner s x = None" "pc s' = (pc s)(i := y)"
  shows "locks_ok s'"
  unfolding locks_ok_def
proof (intro allI)
  fix x j
  show "owner s' x = Some j \<longleftrightarrow> x \<in> holding j (pc s' j)"
    using assms(1) [unfolded locks_ok_def, rule_format, of x j] assms(1) [unfolded locks_ok_def, rule_format, of x i] assms(3)
    by (cases "j = i") (auto simp: assms(2,4))
qed


lemma stmt_pc: "stmt i s = Some s' \<Longrightarrow> pc s' = (pc s)(i := pc s' i)"
proof (cases "pc s i")
  case (Acq a l)
  assume "stmt i s = Some s'"
  then show ?thesis using Acq by (cases a) (auto simp: stmt_def sys_defs split: if_splits)
next
  case (Rel r l)
  assume "stmt i s = Some s'"
  then show ?thesis using Rel by (cases r) (auto simp: stmt_def sys_defs split: if_splits)
qed (simp add: stmt_def)

lemma stmt_locks:
  assumes "stmt i s = Some s'" "locks_ok s"
  shows "locks_ok s'"
proof (rule locks_move [OF assms(2) _ _ stmt_pc [OF assms(1)]])
  show "owner s' = (\<lambda>x. if x \<in> holding i (pc s' i) - holding i (pc s i) then Some i
      else if x \<in> holding i (pc s i) - holding i (pc s' i) then None else owner s x)"
  proof (cases "pc s i")
    case (Acq a l)
    then show ?thesis using assms(1) by (cases a) (auto simp: stmt_def sys_defs fun_eq_iff split: if_splits)
  next
    case (Rel r l)
    then show ?thesis using assms(1) by (cases r) (auto simp: stmt_def sys_defs fun_eq_iff split: if_splits)
  qed (use assms(1) in \<open>simp add: stmt_def\<close>)
  show "\<forall>x \<in> holding i (pc s' i) - holding i (pc s i). owner s x = None"
  proof (cases "pc s i")
    case (Acq a l)
    then show ?thesis using assms(1) by (cases a) (auto simp: stmt_def sys_defs split: if_splits)
  next
    case (Rel r l)
    then show ?thesis using assms(1) by (cases r) (auto simp: stmt_def sys_defs split: if_splits)
  qed (use assms(1) in \<open>simp add: stmt_def\<close>)
qed


lemma wake_one_simps:
  "waits_on (wake_one c k m) j l \<Longrightarrow> waits_on m j l" "\<not> waits_on (wake_one (ChanSleeplock l) k m) k l" "slocks (wake_one c k m) = slocks m"
  by (auto simp: wake_one_def waits_on_def r_time_def updp_def Let_def split: if_splits)

lemma stmt_waits:
  assumes "stmt i s = Some s'" "\<And>j l. waits_on (mem s) j l \<Longrightarrow> pc s j = Acq SSched l \<or> pc s j = Acq SOff l"
    "waits_on (mem s') j l"
  shows "pc s' j = Acq SSched l \<or> pc s' j = Acq SOff l"
proof (cases "pc s i")
  case (Acq a l')
  then show ?thesis using assms(1,3) assms(2) [of j l] by (cases a; cases "j = i") (auto simp: stmt_def sys_defs waits_on_def updp_def upd_sl_def split: if_splits)
next
  case (Rel r l')
  have "waits_on (upd_sl k v m) j l = waits_on m j l" for k v and m :: sst by (simp add: waits_on_def)
  then have "waits_on (mem s) j l" using Rel assms(1,3) by (cases r) (auto simp: stmt_def sys_defs split: if_splits dest: wake_one_simps(1))
  from assms(2) [OF this] Rel show ?thesis using stmt_pc [OF assms(1)] by (metis fun_upd_other spc.distinct(5))
qed (use assms(1) in \<open>simp add: stmt_def\<close>)

text \<open>What happens to a lock: it is freed by a process that has its spin lock.\<close>

lemma stmt_locked:
  assumes "stmt i s = Some s'" "sl_locked (slocks (mem s) l)"
  shows "sl_locked (slocks (mem s') l) \<or> pc s i = Rel RClear l \<and> pc s' i = Rel (WFor 0) l"
proof (cases "pc s i")
  case (Acq a l')
  then show ?thesis using assms by (cases a) (auto simp: stmt_def sys_defs updp_def upd_sl_def split: if_splits)
next
  case (Rel r l')
  then show ?thesis using assms by (cases r) (auto simp: stmt_def sys_defs upd_sl_def wake_one_simps split: if_splits)
qed (use assms(1) in \<open>simp add: stmt_def\<close>)

lemma stmt_found_locked:
  assumes "stmt i s = Some s'" "sl_inv s" "pc s' j = Acq SLock l \<or> pc s' j = Acq SRelease l"
  shows "sl_locked (slocks (mem s') l)"
proof -
  have "pc s j = Acq SLock l \<or> pc s j = Acq SRelease l \<or> j = i \<and> pc s i = Acq AWhile l \<and> sl_locked (slocks (mem s) l)"
  proof (cases "j = i")
    case True
    show ?thesis
    proof (cases "pc s i")
      case (Acq a l')
      then show ?thesis using assms(1,3) True by (cases a) (auto simp: stmt_def sys_defs split: if_splits)
    next
      case (Rel r l')
      then show ?thesis using assms(1,3) True by (cases r) (auto simp: stmt_def sys_defs split: if_splits)
    qed (use assms(1) in \<open>simp add: stmt_def\<close>)
  next
    case False
    then show ?thesis using assms(3) stmt_pc [OF assms(1)] by (metis fun_upd_other)
  qed
  then have l: "sl_locked (slocks (mem s) l)" "SleepLk l \<in> holding j (pc s j)" "pc s j \<noteq> Rel RClear l" using sl_invD(4,5) [OF assms(2), of j l] by auto
  have "pc s i \<noteq> Rel RClear l"
  proof
    assume "pc s i = Rel RClear l"
    then have "owner s (SleepLk l) = Some i" using sl_invD(1) [OF assms(2)] by simp
    moreover have "owner s (SleepLk l) = Some j" using sl_invD(1) [OF assms(2)] l(2) by simp
    ultimately show False using l(3) \<open>pc s i = Rel RClear l\<close> by simp
  qed
  then show ?thesis using stmt_locked [OF assms(1) l(1)] by blast
qed


text \<open>A process that is about to sleep or sleeps on a lock.\<close>

definition in_need :: "slsys \<Rightarrow> nat \<Rightarrow> slock \<Rightarrow> bool" where
  "in_need s j l \<longleftrightarrow> pc s j = Acq SState l \<or> waits_on (mem s) j l"

lemma in_need_pc:
  assumes "sl_inv s" "in_need s j l"
  shows "pc s j \<in> {Acq SState l, Acq SSched l, Acq SOff l}" "j < NPROC" "cared_for s j l"
  using assms sl_invD [OF assms(1)] by (auto simp: in_need_def not_less [symmetric]) (metis not_less spc.distinct(1))+

lemma stmt_in_need:
  assumes "stmt i s = Some s'" "sl_inv s" "in_need s' j l"
  shows "in_need s j l \<or> j = i \<and> pc s i = Acq SRelease l"
proof (cases "pc s i")
  case (Acq a l')
  then show ?thesis using assms(1,3) unfolding in_need_def
    by (cases a; cases "j = i") (auto simp: stmt_def sys_defs waits_on_def updp_def upd_sl_def split: if_splits)
next
  case (Rel r l')
  have "waits_on (upd_sl k v m) j l = waits_on m j l" for k v and m :: sst by (simp add: waits_on_def)
  then show ?thesis using Rel assms(1,3) unfolding in_need_def
    by (cases r; cases "j = i") (auto simp: stmt_def sys_defs split: if_splits dest: wake_one_simps(1))
qed (use assms(1) in \<open>simp add: stmt_def\<close>)

lemma stmt_will_wake:
  assumes "stmt i s = Some s'" "sl_inv s" "in_need s j l" "in_need s' j l" "will_wake (pc s i) l j"
  shows "will_wake (pc s' i) l j"
proof -
  note n = in_need_pc [OF assms(2,3)]
  obtain r where r: "pc s i = Rel r l" using assms(5) by (cases "(pc s i, l, j)" rule: will_wake.cases) auto
  then have ij: "i \<noteq> j" using n(1) by auto
  then have pj: "pc s' j = pc s j" using stmt_pc [OF assms(1)] by (metis fun_upd_other)
  show ?thesis
  proof (cases r)
    case (WFor k)
    then show ?thesis using assms(1,5) r n(2) ij by (auto simp: stmt_def sys_defs split: if_splits)
  next
    case (WTest k)
    have "k \<noteq> j"
    proof
      assume k: "k = j"
      then have "\<not> waits_on (mem s') j l" using assms(1) r WTest wake_one_simps(2) by (auto simp: stmt_def sys_defs)
      then have "pc s j = Acq SState l" using assms(4) pj by (simp add: in_need_def)
      then have "owner s (ProcLock j) = Some j" using sl_invD(1) [OF assms(2)] by simp
      moreover have "owner s (ProcLock j) = Some i" using sl_invD(1) [OF assms(2)] r WTest k by simp
      ultimately show False using ij by simp
    qed
    then show ?thesis using assms(1,5) r WTest by (auto simp: stmt_def sys_defs)
  next
    case (WUnlock k)
    then show ?thesis using assms(1,5) r by (auto simp: stmt_def sys_defs)
  qed (use assms(5) r in auto)
qed

lemma stmt_cared_for:
  assumes "stmt i s = Some s'" "sl_inv s" "in_need s' j l" "i < NPROC"
  shows "cared_for s' j l"
proof (cases "sl_locked (slocks (mem s) l)")
  case True
  then show ?thesis using stmt_locked [OF assms(1) True] assms(4) by (auto simp: cared_for_def intro!: exI [of _ i])
next
  case False
  then have need: "in_need s j l" using stmt_in_need [OF assms(1-3)] sl_invD(5) [OF assms(2)] by blast
  then obtain k where k: "k < NPROC" "will_wake (pc s k) l j" using in_need_pc(3) [OF assms(2)] False by (auto simp: cared_for_def)
  have "will_wake (pc s' k) l j"
  proof (cases "k = i")
    case True
    then show ?thesis using stmt_will_wake [OF assms(1,2) need assms(3)] k(2) by simp
  next
    case False
    then show ?thesis using k(2) stmt_pc [OF assms(1)] by (metis fun_upd_other)
  qed
  then show ?thesis using k(1) by (auto simp: cared_for_def)
qed

lemma stmt_inv:
  assumes "stmt i s = Some s'" "sl_inv s" "i < NPROC"
  shows "sl_inv s'"
proof -
  have "locks_ok s" using assms(2) by (simp add: sl_inv_def locks_ok_def)
  from stmt_locks [OF assms(1) this] have 1: "\<forall>x i. owner s' x = Some i \<longleftrightarrow> x \<in> holding i (pc s' i)" by (simp add: locks_ok_def)
  have 2: "\<forall>j. NPROC \<le> j \<longrightarrow> pc s' j = Elsewhere" using sl_invD(2) [OF assms(2)] stmt_pc [OF assms(1)] assms(3) by (metis fun_upd_other not_less)
  have 3: "\<forall>j l. waits_on (mem s') j l \<longrightarrow> pc s' j = Acq SSched l \<or> pc s' j = Acq SOff l"
    using stmt_waits [OF assms(1)] sl_invD(3) [OF assms(2)] by blast
  have 4: "\<forall>j l. pc s' j = Acq SLock l \<or> pc s' j = Acq SRelease l \<longrightarrow> sl_locked (slocks (mem s') l)"
    using stmt_found_locked [OF assms(1,2)] by blast
  have 5: "\<forall>j l. pc s' j = Acq SState l \<or> waits_on (mem s') j l \<longrightarrow> cared_for s' j l"
    using stmt_cared_for [OF assms(1,2) _ assms(3)] unfolding in_need_def by blast
  show ?thesis unfolding sl_inv_def using 1 2 3 4 5 by blast
qed


lemma change_inv:
  assumes "sl_inv s" "slocks (f (mem s)) = slocks (mem s)" "\<And>j l. waits_on (f (mem s)) j l \<Longrightarrow> waits_on (mem s) j l"
  shows "sl_inv (change f s)"
  using assms by (auto simp: sl_inv_def change_def cared_for_def)

lemma call_inv:
  assumes "sl_inv s" "pc s i = Elsewhere" "i < NPROC" "x = Acq AAcquire l \<or> x = Rel RAcquire l"
  shows "sl_inv (goto i x s)"
proof -
  have h: "holding i x = {}" using assms(4) by auto
  have c: "cared_for (goto i x s) j k" if "cared_for s j k" for j k
    using that assms(2) by (auto simp: cared_for_def goto_def intro: exI [of _ _])
  have "pc s j = Acq SState k \<or> waits_on (mem s) j k" if "pc (goto i x s) j = Acq SState k \<or> waits_on (mem s) j k" for j k
    using that assms(4) by (auto simp: goto_def split: if_splits)
  moreover have "j \<noteq> i" if "waits_on (mem s) j k" for j k using sl_invD(3) [OF assms(1) that] assms(2) by auto
  ultimately show ?thesis using assms h c sl_invD [OF assms(1)]
    unfolding sl_inv_def by (auto simp: goto_def)
qed

lemma sl_step_inv:
  assumes "sl_step s s'" "sl_inv s"
  shows "sl_inv s'"
  using assms(1)
proof cases
  case (call_acquire i l)
  then show ?thesis using call_inv [OF assms(2)] by blast
next
  case (call_release i l)
  then show ?thesis using call_inv [OF assms(2)] by blast
next
  case (runs i)
  then show ?thesis using stmt_inv [OF _ assms(2)] by blast
next
  case (killed k)
  show ?thesis unfolding killed(1) by (rule change_inv [OF assms(2)]) (auto simp: waits_on_def updp_def split: if_splits)
next
  case (elsewhere i f)
  have "waits_on (mem s) j l" if "waits_on (updp i f (mem s)) j l" for j l
    using that elsewhere(4) [of l] by (cases "j = i") (auto simp: waits_on_def updp_def)
  then show ?thesis unfolding elsewhere(1) by (intro change_inv [OF assms(2)]) (simp_all add: updp_def)
qed

definition sl_start :: "sst \<Rightarrow> slsys" where
  "sl_start m = \<lparr>mem = m, owner = \<lambda>_. None, pc = \<lambda>_. Elsewhere\<rparr>"

text \<open>C11. However processes interleave the statements of \<open>acquiresleep\<close>, \<open>releasesleep\<close>, \<open>sleep\<close> and \<open>wakeup\<close>, no wakeup is lost:
  while a process sleeps on a sleep lock, the lock is taken, or a process that has freed it is in the loop of \<open>wakeup\<close> and
  has not come to the sleeper yet.\<close>

theorem sleeplock_no_lost_wakeup:
  assumes "sl_step\<^sup>*\<^sup>* (sl_start m) s" "\<forall>i l. \<not> waits_on m i l" "waits_on (mem s) i l"
  shows "sl_locked (slocks (mem s) l) \<or> (\<exists>j<NPROC. will_wake (pc s j) l i)"
proof -
  have "sl_inv (sl_start m)" using assms(2) by (simp add: sl_inv_def sl_start_def)
  with assms(1) have "sl_inv s" by (induction rule: rtranclp_induct) (auto intro: sl_step_inv)
  from sl_invD(7) [OF this assms(3)] show ?thesis by (simp add: cared_for_def)
qed

lemma stmts_steps: "stmts n i s = Some s' \<Longrightarrow> i < NPROC \<Longrightarrow> sl_step\<^sup>*\<^sup>* s s'"
proof (induction n arbitrary: s)
  case (Suc n)
  then obtain t where "stmt i s = Some t" "stmts n i t = Some s'" by (auto split: Option.bind_splits)
  then show ?case using Suc.IH Suc.prems(2) runs by (meson converse_rtranclp_into_rtranclp)
qed simp

text \<open>Process 1 takes a lock, process 2 goes to sleep on it, and process 1 has freed it and is about to look for sleepers.\<close>

theorem sleeplock_no_lost_wakeup_witness:
  "\<exists>s. sl_step\<^sup>*\<^sup>* (sl_start demo_sst) s \<and> waits_on (mem s) 2 (BufLock 0) \<and> \<not> sl_locked (slocks (mem s) (BufLock 0)) \<and>
     (\<exists>j<NPROC. will_wake (pc s j) (BufLock 0) 2)"
proof -
  let ?l = "BufLock 0" and ?N = "\<lambda>_. None" and ?E = "\<lambda>_ :: nat. Elsewhere"
  let ?s0 = "sl_start demo_sst"
  let ?m1 = "upd_sl ?l \<lparr>sl_locked = True, sl_pid = 1\<rparr> demo_sst"
  let ?m2 = "updp 2 (\<lambda>r. r\<lparr>pchan := Some (ChanSleeplock ?l), pstate := SLEEPING\<rparr>) ?m1"
  let ?s1 = "\<lparr>mem = ?m1, owner = ?N, pc = ?E\<rparr>" let ?s2 = "\<lparr>mem = ?m2, owner = ?N, pc = ?E(2 := Acq SOff ?l)\<rparr>"
  let ?s3 = "\<lparr>mem = upd_sl ?l \<lparr>sl_locked = False, sl_pid = 0\<rparr> ?m2, owner = ?N(SleepLk ?l := Some 1), pc = ?E(2 := Acq SOff ?l, 1 := Rel (WFor 0) ?l)\<rparr>"
  have n: "1 < NPROC" "2 < NPROC" by (simp_all add: NPROC_def)
  have o: "?N(SleepLk ?l := None) = ?N" "?N(SleepLk ?l := None, ProcLock 2 := None) = ?N" "?N(ProcLock 2 := None, SleepLk ?l := None) = ?N" by auto
  have "sl_step ?s0 (goto 1 (Acq AAcquire ?l) ?s0)"
    using n by (intro sl_step.call_acquire [of 1 ?s0 ?l]) (simp_all add: sl_start_def demo_sst_simps)
  moreover have "stmts 4 1 (goto 1 (Acq AAcquire ?l) ?s0) = Some ?s1"
    by (simp add: eval_nat_numeral stmt_def sys_defs sl_start_def demo_sst_simps o fun_upd_idem)
  ultimately have 1: "sl_step\<^sup>*\<^sup>* ?s0 ?s1" using stmts_steps n(1) by (meson converse_rtranclp_into_rtranclp)
  have "sl_step ?s1 (goto 2 (Acq AAcquire ?l) ?s1)"
    using n by (intro sl_step.call_acquire [of 2 ?s1 ?l]) (simp_all add: demo_sst_simps)
  moreover have "stmts 6 2 (goto 2 (Acq AAcquire ?l) ?s1) = Some ?s2"
    by (simp add: eval_nat_numeral stmt_def sys_defs demo_sst_simps)
  ultimately have 2: "sl_step\<^sup>*\<^sup>* ?s1 ?s2" using stmts_steps n(2) by (meson converse_rtranclp_into_rtranclp)
  have "sl_step ?s2 (goto 1 (Rel RAcquire ?l) ?s2)"
    using n by (intro sl_step.call_release [of 1 ?s2 ?l]) (simp_all add: demo_sst_simps updp_def)
  moreover have "stmts 2 1 (goto 1 (Rel RAcquire ?l) ?s2) = Some ?s3" by (simp add: eval_nat_numeral stmt_def sys_defs)
  ultimately have 3: "sl_step\<^sup>*\<^sup>* ?s2 ?s3" using stmts_steps n(1) by (meson converse_rtranclp_into_rtranclp)
  have r: "sl_step\<^sup>*\<^sup>* ?s0 ?s3" using 1 2 3 by (meson rtranclp_trans)
  have w: "waits_on (mem ?s3) 2 ?l" "\<not> sl_locked (slocks (mem ?s3) ?l)" by (simp_all add: waits_on_def updp_def)
  have "\<forall>i l. \<not> waits_on demo_sst i l" by (simp add: waits_on_def demo_sst_simps demo_proc_def)
  from sleeplock_no_lost_wakeup [OF r this w(1)] w r show ?thesis by blast
qed

end
