(* ===== verification/Grep.thy ===== *)
theory Grep
  imports Xv6_Prelude
begin

text \<open>
  The program \<open>grep\<close> (\<open>user/grep.c\<close>): its matcher for patterns with the operators \<open>^ . * $\<close> and the loop that
  cuts the input into lines. A C string is the list of its characters before the terminating NUL, and a
  pointer into it is the rest of the list.
\<close>

definition NUL :: char where "NUL = CHR 0x00"

definition NL :: char where "NL = CHR 0x0A"

function matchhere :: "string \<Rightarrow> string \<Rightarrow> bool"
  and matchstar :: "char \<Rightarrow> string \<Rightarrow> string \<Rightarrow> bool"
where
  "matchhere re text =
     (case re of [] \<Rightarrow> True
      | c # re1 \<Rightarrow>
          if re1 \<noteq> [] \<and> hd re1 = CHR ''*'' then matchstar c (tl re1) text
          else if c = CHR ''$'' \<and> re1 = [] then text = []
          else (case text of [] \<Rightarrow> False
                | t # ts \<Rightarrow> if c = CHR ''.'' \<or> c = t then matchhere re1 ts else False))"
| "matchstar c re text =
     (if matchhere re text then True
      else (case text of [] \<Rightarrow> False
            | t # ts \<Rightarrow> if t = c \<or> c = CHR ''.'' then matchstar c re ts else False))"
  by pat_completeness auto
termination
  by (relation "measure (\<lambda>x. case x of Inl (re, t) \<Rightarrow> 2 * (length re + length t) | Inr (c, re, t) \<Rightarrow> 2 * (length re + length t) + 1)")
    (auto simp: neq_Nil_conv)

declare matchhere.simps [simp del] matchstar.simps [simp del]

fun match_from :: "string \<Rightarrow> string \<Rightarrow> bool" where
  "match_from re text = (if matchhere re text then True else (case text of [] \<Rightarrow> False | t # ts \<Rightarrow> match_from re ts))"

declare match_from.simps [simp del]

definition match :: "string \<Rightarrow> string \<Rightarrow> bool" where
  "match re text = (if re \<noteq> [] \<and> hd re = CHR ''^'' then matchhere (tl re) text else match_from re text)"

text \<open>The inner loop: the lines of the buffer. It returns what is printed and the characters after the
  last newline; \<open>strchr\<close> does not look beyond a NUL.\<close>

function grep_lines :: "string \<Rightarrow> string \<Rightarrow> string \<times> string" where
  "grep_lines pattern p =
     (let l = takeWhile (\<lambda>c. c \<noteq> NL \<and> c \<noteq> NUL) p; r = dropWhile (\<lambda>c. c \<noteq> NL \<and> c \<noteq> NUL) p in
      if r \<noteq> [] \<and> hd r = NL
      then let (out, rest) = grep_lines pattern (tl r) in ((if match pattern l then l @ [NL] else []) @ out, rest)
      else ([], p))"
  by pat_completeness auto
termination
proof (relation "measure (\<lambda>(pattern, p). length p)")
  fix p l r :: string
  assume "r = dropWhile (\<lambda>c. c \<noteq> NL \<and> c \<noteq> NUL) p" "r \<noteq> [] \<and> hd r = NL"
  moreover have "length (dropWhile (\<lambda>c. c \<noteq> NL \<and> c \<noteq> NUL) p) \<le> length p" by (rule length_dropWhile_le)
  ultimately have "length r \<le> length p" "r \<noteq> []" by auto
  then show "((pattern, tl r), pattern, p) \<in> measure (\<lambda>(pattern, p). length p)" for pattern :: string
    by (cases r) auto
qed simp

declare grep_lines.simps [simp del]

definition GREP_BUF :: nat where "GREP_BUF = 1024"

text \<open>\<open>read\<close> returns at least one and at most as many characters as are asked for, as long as there is input;
  \<open>ks\<close> says how many, call by call.\<close>

definition read_some :: "(nat \<Rightarrow> nat) \<Rightarrow> nat \<Rightarrow> nat \<Rightarrow> string \<Rightarrow> string" where
  "read_some ks k n inp = take (min n (Suc (ks k))) inp"

function grep :: "string \<Rightarrow> (nat \<Rightarrow> nat) \<Rightarrow> nat \<Rightarrow> string \<Rightarrow> string \<Rightarrow> string" where
  "grep pattern ks k buf inp =
     (let got = read_some ks k (GREP_BUF - length buf - 1) inp in
      if got = [] then []
      else let (out, rest) = grep_lines pattern (buf @ got) in out @ grep pattern ks (k + 1) rest (drop (length got) inp))"
  by pat_completeness auto
termination
  by (relation "measure (\<lambda>(pattern, ks, k, buf, inp). length inp)") (auto simp: read_some_def)

declare grep.simps [simp del]

text \<open>\<open>main\<close>: \<open>file\<close> gives the contents of the files that can be opened. The result is what is printed on
  standard output and the exit status.\<close>

fun grep_files :: "(nat \<Rightarrow> nat) \<Rightarrow> (string \<Rightarrow> string option) \<Rightarrow> string \<Rightarrow> string list \<Rightarrow> string \<times> int" where
  "grep_files ks file pattern [] = ([], 0)"
| "grep_files ks file pattern (f # fs) =
     (case file f of None \<Rightarrow> (''grep: cannot open '' @ f @ [NL], 1)
      | Some inp \<Rightarrow> let (out, e) = grep_files ks file pattern fs in (grep pattern ks 0 [] inp @ out, e))"

definition grep_main :: "(nat \<Rightarrow> nat) \<Rightarrow> (string \<Rightarrow> string option) \<Rightarrow> string \<Rightarrow> string list \<Rightarrow> string \<times> int" where
  "grep_main ks file stdin argv =
     (if length argv \<le> 1 then ([], 1)
      else if length argv \<le> 2 then (grep (argv ! 1) ks 0 [] stdin, 0)
      else grep_files ks file (argv ! 1) (drop 2 argv))"

section \<open>The language of a pattern\<close>

datatype item = One char | Star char

fun parse :: "string \<Rightarrow> item list" where
  "parse (c # d # r) = (if d = CHR ''*'' then Star c # parse r else One c # parse (d # r))"
| "parse [c] = (if c = CHR ''$'' then [] else [One c])"
| "parse [] = []"

fun at_end :: "string \<Rightarrow> bool" where
  "at_end (c # d # r) = (if d = CHR ''*'' then at_end r else at_end (d # r))"
| "at_end [c] = (c = CHR ''$'')"
| "at_end [] = False"

definition fits :: "char \<Rightarrow> char \<Rightarrow> bool" where
  "fits c t \<longleftrightarrow> c = CHR ''.'' \<or> c = t"

inductive inlang :: "item list \<Rightarrow> string \<Rightarrow> bool" where
  empty: "inlang [] []"
| one: "fits c t \<Longrightarrow> inlang r w \<Longrightarrow> inlang (One c # r) (t # w)"
| star: "(\<forall>t\<in>set u. fits c t) \<Longrightarrow> inlang r w \<Longrightarrow> inlang (Star c # r) (u @ w)"

inductive_cases inlang_cases: "inlang [] w" "inlang (One c # r) w" "inlang (Star c # r) w"

text \<open>A text matches if some part of it is in the language, from the start of the text if the pattern
  begins with \<open>^\<close> and up to its end if the pattern ends with \<open>$\<close>.\<close>

definition matches_here :: "string \<Rightarrow> string \<Rightarrow> bool" where
  "matches_here re text \<longleftrightarrow> (\<exists>v w. text = v @ w \<and> inlang (parse re) v \<and> (at_end re \<longrightarrow> w = []))"

definition matches :: "string \<Rightarrow> string \<Rightarrow> bool" where
  "matches re text \<longleftrightarrow>
     (if re \<noteq> [] \<and> hd re = CHR ''^'' then matches_here (tl re) text else (\<exists>u v. text = u @ v \<and> matches_here re v))"

lemma matches_here_Nil [simp]: "matches_here [] text"
  by (auto simp: matches_here_def intro: inlang.empty)

lemma matches_here_star:
  "matches_here (c # CHR ''*'' # r) text \<longleftrightarrow> (\<exists>u v. text = u @ v \<and> (\<forall>t\<in>set u. fits c t) \<and> matches_here r v)"
proof
  assume "matches_here (c # CHR ''*'' # r) text"
  then obtain v w where t: "text = v @ w" "inlang (Star c # parse r) v" "at_end r \<longrightarrow> w = []" by (auto simp: matches_here_def)
  from t(2) obtain u x where "v = u @ x" "\<forall>t\<in>set u. fits c t" "inlang (parse r) x" by (auto elim: inlang_cases)
  with t show "\<exists>u v. text = u @ v \<and> (\<forall>t\<in>set u. fits c t) \<and> matches_here r v" by (auto simp: matches_here_def)
next
  assume "\<exists>u v. text = u @ v \<and> (\<forall>t\<in>set u. fits c t) \<and> matches_here r v"
  then obtain u x w where t: "text = u @ x @ w" "\<forall>t\<in>set u. fits c t" "inlang (parse r) x" "at_end r \<longrightarrow> w = []"
    by (auto simp: matches_here_def)
  then have "inlang (Star c # parse r) (u @ x)" by (auto intro: inlang.star)
  then show "matches_here (c # CHR ''*'' # r) text"
    unfolding matches_here_def using t by (intro exI [of _ "u @ x"] exI [of _ w]) simp
qed

lemma matches_here_one:
  assumes "r = [] \<Longrightarrow> c \<noteq> CHR ''$''" "r \<noteq> [] \<Longrightarrow> hd r \<noteq> CHR ''*''"
  shows "matches_here (c # r) text \<longleftrightarrow> (\<exists>t ts. text = t # ts \<and> fits c t \<and> matches_here r ts)"
proof -
  have e: "parse (c # r) = One c # parse r" "at_end (c # r) = at_end r" using assms by (cases r; simp)+
  show ?thesis
  proof
    assume "matches_here (c # r) text"
    then obtain v w where t: "text = v @ w" "inlang (One c # parse r) v" "at_end r \<longrightarrow> w = []" by (auto simp: matches_here_def e)
    from t(2) obtain t x where "v = t # x" "fits c t" "inlang (parse r) x" by (auto elim: inlang_cases)
    then show "\<exists>t ts. text = t # ts \<and> fits c t \<and> matches_here r ts" using t by (auto simp: matches_here_def)
  next
    assume "\<exists>t ts. text = t # ts \<and> fits c t \<and> matches_here r ts"
    then obtain t v w where t: "text = t # v @ w" "fits c t" "inlang (parse r) v" "at_end r \<longrightarrow> w = []" by (auto simp: matches_here_def)
    then show "matches_here (c # r) text"
      unfolding matches_here_def e by (intro exI [of _ "t # v"] exI [of _ w]) (simp add: inlang.one)
  qed
qed

lemma matches_here_end: "matches_here [CHR ''$''] text \<longleftrightarrow> text = []"
  by (auto simp: matches_here_def intro: inlang.empty elim: inlang_cases)

lemma matches_here_star_step:
  "matches_here (c # CHR ''*'' # r) text \<longleftrightarrow>
   matches_here r text \<or> (\<exists>t ts. text = t # ts \<and> fits c t \<and> matches_here (c # CHR ''*'' # r) ts)"
  (is "?L \<longleftrightarrow> ?R")
proof
  assume ?L
  then obtain u v where u: "text = u @ v" "\<forall>t\<in>set u. fits c t" "matches_here r v" by (auto simp: matches_here_star)
  then show ?R by (cases u) (auto simp: matches_here_star)
next
  assume ?R
  then show ?L
  proof
    assume "matches_here r text"
    then show ?L unfolding matches_here_star by (intro exI [of _ "[]"] exI [of _ "text"]) simp
  next
    assume "\<exists>t ts. text = t # ts \<and> fits c t \<and> matches_here (c # CHR ''*'' # r) ts"
    then obtain t u v where "text = t # u @ v" "fits c t" "\<forall>t\<in>set u. fits c t" "matches_here r v" by (auto simp: matches_here_star)
    then show ?L unfolding matches_here_star by (intro exI [of _ "t # u"] exI [of _ v]) simp
  qed
qed

lemma matchhere_iff:
  "matchhere re text \<longleftrightarrow> matches_here re text"
  "matchstar c re text \<longleftrightarrow> matches_here (c # CHR ''*'' # re) text"
proof (induction re "text" and c re "text" rule: matchhere_matchstar.induct)
  case (1 re "text")
  note IH = 1
  show ?case
  proof (cases re)
    case Nil
    then show ?thesis by (simp add: matchhere.simps)
  next
    case (Cons c r)
    show ?thesis
    proof (cases "r \<noteq> [] \<and> hd r = CHR ''*''")
      case True
      then have "r = CHR ''*'' # tl r" by (cases r) auto
      then show ?thesis using IH(1) [OF Cons True] True Cons by (subst matchhere.simps) simp
    next
      case False
      show ?thesis
      proof (cases "c = CHR ''$'' \<and> r = []")
        case True
        then show ?thesis using Cons by (subst matchhere.simps) (simp add: matches_here_end)
      next
        case ne: False
        have "matches_here re text \<longleftrightarrow> (\<exists>t ts. text = t # ts \<and> fits c t \<and> matches_here r ts)"
          unfolding Cons using False ne by (intro matches_here_one) auto
        then show ?thesis using IH(2) [OF Cons False ne] Cons False ne by (subst matchhere.simps) (auto simp: fits_def split: list.splits)
      qed
    qed
  qed
next
  case (2 c re "text")
  then show ?case
    by (subst matchstar.simps, subst matches_here_star_step) (auto simp: fits_def split: list.splits)
qed

lemma match_from_iff: "match_from re text \<longleftrightarrow> (\<exists>u v. text = u @ v \<and> matches_here re v)"
proof (induction "text")
  case (Cons t ts)
  then show ?case by (subst match_from.simps) (auto simp: matchhere_iff Cons_eq_append_conv)
qed (simp add: match_from.simps matchhere_iff)

text \<open>C15. The matcher decides the language of the pattern: \<open>match\<close> returns true exactly if some part of the text is
  in the language that the pattern describes, anchored at the start by \<open>^\<close> and at the end by \<open>$\<close>. It returns on
  every pattern and every text.\<close>

theorem match_language: "match re text \<longleftrightarrow> matches re text"
  by (simp add: match_def matches_def matchhere_iff match_from_iff)

section \<open>Lines\<close>


text \<open>The complete lines of a text, without their newlines, and what follows the last newline.\<close>

fun cut :: "string \<Rightarrow> string list \<times> string" where
  "cut [] = ([], [])"
| "cut (c # cs) =
     (if c = NL then ([] # fst (cut cs), snd (cut cs))
      else case fst (cut cs) of [] \<Rightarrow> ([], c # snd (cut cs)) | l # ls \<Rightarrow> ((c # l) # ls, snd (cut cs)))"

lemma cut_line: "NL \<notin> set l \<Longrightarrow> cut (l @ NL # r) = (l # fst (cut r), snd (cut r))"
  by (induction l) auto

lemma cut_fragment: "NL \<notin> set f \<Longrightarrow> cut f = ([], f)"
  by (induction f) auto

lemma cut_append: "cut (xs @ ys) = (fst (cut xs) @ fst (cut (snd (cut xs) @ ys)), snd (cut (snd (cut xs) @ ys)))"
proof (induction xs)
  case (Cons c cs)
  show ?case
  proof (cases "fst (cut cs)")
    case Nil
    then show ?thesis using Cons by (cases "c = NL") (auto split: list.splits)
  next
    case (Cons l ls)
    then show ?thesis using \<open>cut (cs @ ys) = _\<close> by auto
  qed
qed simp

lemma cut_rest: "NL \<notin> set (snd (cut xs))" "set (snd (cut xs)) \<subseteq> set xs"
  by (induction xs) (auto split: list.splits)

lemma cut_long: "fst (cut (b @ xs)) = l # ls \<Longrightarrow> NL \<notin> set b \<Longrightarrow> length b \<le> length l"
proof (induction b arbitrary: l)
  case (Cons c b)
  then show ?case by (auto split: list.splits)
qed simp

definition show_lines :: "string \<Rightarrow> string list \<Rightarrow> string" where
  "show_lines pattern ls = concat (map (\<lambda>l. l @ [NL]) (filter (match pattern) ls))"

lemma show_lines_append: "show_lines pattern (xs @ ys) = show_lines pattern xs @ show_lines pattern ys"
  by (simp add: show_lines_def)

lemma grep_lines_cut: "NUL \<notin> set p \<Longrightarrow> grep_lines pattern p = (show_lines pattern (fst (cut p)), snd (cut p))"
proof (induction pattern p rule: grep_lines.induct)
  case (1 pattern p)
  let ?P = "\<lambda>c. c \<noteq> NL \<and> c \<noteq> NUL"
  let ?l = "takeWhile ?P p" and ?r = "dropWhile ?P p"
  have l: "NL \<notin> set ?l" by (auto dest: set_takeWhileD)
  show ?case
  proof (cases "?r")
    case Nil
    then have "NL \<notin> set p" by (auto simp: dropWhile_eq_Nil_conv)
    then show ?thesis using Nil by (subst grep_lines.simps) (simp add: Let_def cut_fragment show_lines_def)
  next
    case (Cons c r)
    then have "c \<in> set p" using set_dropWhileD [of c ?P p] by simp
    moreover have "\<not> ?P c" using hd_dropWhile [of ?P p] Cons by simp
    ultimately have c: "c = NL" using 1(2) by auto
    have p: "p = ?l @ NL # r" using takeWhile_dropWhile_id [of ?P p] Cons c by simp
    then have "NUL \<notin> set r" using 1(2) by (metis Un_iff list.set_intros(2) set_append)
    then have "grep_lines pattern r = (show_lines pattern (fst (cut r)), snd (cut r))"
      using 1(1) [OF refl refl] Cons c by simp
    moreover have "cut p = (?l # fst (cut r), snd (cut r))" using cut_line [OF l, of r] p by simp
    ultimately show ?thesis using Cons c by (subst grep_lines.simps) (simp add: Let_def show_lines_def)
  qed
qed

lemma grep_ok:
  assumes "NL \<notin> set buf" "NUL \<notin> set buf \<union> set inp" "\<forall>l\<in>set (fst (cut (buf @ inp))). length l \<le> GREP_BUF - 2"
  shows "grep pattern ks k buf inp = show_lines pattern (fst (cut (buf @ inp)))"
  using assms
proof (induction pattern ks k buf inp rule: grep.induct)
  case (1 pattern ks k buf inp)
  let ?got = "read_some ks k (GREP_BUF - length buf - 1) inp"
  show ?case
  proof (cases "?got = []")
    case True
    have "fst (cut (buf @ inp)) = []"
    proof (cases "fst (cut (buf @ inp))")
      case (Cons l ls)
      then have "length l \<le> GREP_BUF - 2" using 1(4) by simp
      then have "length buf < GREP_BUF - 1" using cut_long [OF Cons 1(2)] by (simp add: GREP_BUF_def)
      then have "inp = []" using True by (auto simp: read_some_def)
      then show ?thesis using cut_fragment [OF 1(2)] by simp
    qed
    then show ?thesis using True by (subst grep.simps) (simp add: show_lines_def)
  next
    case False
    have i: "inp = ?got @ drop (length ?got) inp" by (simp add: read_some_def min_def)
    then have s: "set ?got \<subseteq> set inp" "set (drop (length ?got) inp) \<subseteq> set inp" by (metis set_append Un_upper1, metis set_append Un_upper2)
    have n: "NUL \<notin> set (buf @ ?got)" using 1(3) s by auto
    let ?b = "snd (cut (buf @ ?got))" and ?i = "drop (length ?got) inp"
    note gl = grep_lines_cut [OF n, of pattern]
    have c: "fst (cut (buf @ inp)) = fst (cut (buf @ ?got)) @ fst (cut (?b @ ?i))"
      using cut_append [of "buf @ ?got" ?i] i by (metis append.assoc fst_conv)
    have "grep pattern ks (k + 1) ?b ?i = show_lines pattern (fst (cut (?b @ ?i)))"
    proof (rule 1(1) [OF refl False gl [symmetric] refl])
      show "NL \<notin> set ?b" by (rule cut_rest)
      show "NUL \<notin> set ?b \<union> set ?i" using cut_rest(2) [of "buf @ ?got"] n s 1(3) by auto
      show "\<forall>l\<in>set (fst (cut (?b @ ?i))). length l \<le> GREP_BUF - 2" using 1(4) c by auto
    qed
    then show ?thesis using False gl by (subst grep.simps) (simp add: Let_def c show_lines_append)
  qed
qed

text \<open>C36. On input without NULs whose lines are at most 1022 characters long, \<open>grep\<close> prints exactly the lines that
  match, in order, however the system call \<open>read\<close> cuts the input into pieces; a last line without a newline
  is not printed.\<close>

theorem grep_prints_matching_lines:
  assumes "NUL \<notin> set inp" "\<forall>l\<in>set (fst (cut inp)). length l \<le> 1022"
  shows "grep pattern ks 0 [] inp = concat (map (\<lambda>l. l @ [NL]) (filter (match pattern) (fst (cut inp))))"
  using grep_ok [of "[]" inp pattern ks 0] assms by (simp add: GREP_BUF_def show_lines_def)

theorem grep_prints_matching_lines_witness:
  "grep ''b*c$'' (\<lambda>k. k) 0 [] (''bc'' @ [NL] @ ''x'' @ [NL] @ ''c'') = ''bc'' @ [NL]"
proof -
  let ?i = "''bc'' @ [NL] @ ''x'' @ [NL] @ ''c''" and ?p = "''b*c$''"
  have c: "fst (cut ?i) = [''bc'', ''x'']" by (simp add: NL_def)
  have m: "match ?p ''bc'' = True" "match ?p ''x'' = False" by code_simp+
  have "grep ?p (\<lambda>k. k) 0 [] ?i = concat (map (\<lambda>l. l @ [NL]) (filter (match ?p) (fst (cut ?i))))"
    by (rule grep_prints_matching_lines) (simp_all only: c, simp_all add: NL_def NUL_def)
  then show ?thesis unfolding c by (simp only: filter.simps m if_True if_False list.map concat.simps append_Nil2 append_assoc)
qed

end
