(* ===== verification/Minimax.thy ===== *)
theory Minimax
  imports Xv6_Prelude
begin

text \<open>
  Game trees, their minimax value, and the search with a window of values that the two games (\<open>user/xo.c\<close>,
  \<open>user/c4.c\<close>) have: the best value starts at a bound \<open>W\<close> beyond all values, and a loop over the moves stops
  when the window is empty.
\<close>

datatype gtree = Leaf int | Node bool "gtree list"

fun tval :: "int \<Rightarrow> gtree \<Rightarrow> int" where
  "tval W (Leaf v) = v"
| "tval W (Node True ts) = fold max (map (tval W) ts) (- W)"
| "tval W (Node False ts) = fold min (map (tval W) ts) W"

text \<open>The window search; the loops return the best value and the position of the move that has it.\<close>

fun tab :: "int \<Rightarrow> int \<Rightarrow> int \<Rightarrow> gtree \<Rightarrow> int"
  and tab_max :: "int \<Rightarrow> int \<Rightarrow> int \<Rightarrow> int \<Rightarrow> nat \<Rightarrow> nat option \<Rightarrow> gtree list \<Rightarrow> int \<times> nat option"
  and tab_min :: "int \<Rightarrow> int \<Rightarrow> int \<Rightarrow> int \<Rightarrow> nat \<Rightarrow> nat option \<Rightarrow> gtree list \<Rightarrow> int \<times> nat option"
where
  "tab W a b (Leaf v) = v"
| "tab W a b (Node mx ts) = fst (if mx then tab_max W a b (- W) 0 None ts else tab_min W a b W 0 None ts)"
| "tab_max W a b best i loc [] = (best, loc)"
| "tab_max W a b best i loc (t # ts) =
     (let v = tab W a b t; best1 = max best v; loc1 = (if v > best then Some i else loc); a1 = max a best1 in
      if b \<le> a1 then (best1, loc1) else tab_max W a1 b best1 (i + 1) loc1 ts)"
| "tab_min W a b best i loc [] = (best, loc)"
| "tab_min W a b best i loc (t # ts) =
     (let v = tab W a b t; best1 = min best v; loc1 = (if v < best then Some i else loc); b1 = min b best1 in
      if b1 \<le> a then (best1, loc1) else tab_min W a b1 best1 (i + 1) loc1 ts)"

text \<open>The values are within the bound and no node is without moves.\<close>

fun tree_ok :: "int \<Rightarrow> gtree \<Rightarrow> bool" where
  "tree_ok W (Leaf v) \<longleftrightarrow> - W < v \<and> v < W"
| "tree_ok W (Node mx ts) \<longleftrightarrow> ts \<noteq> [] \<and> list_all (tree_ok W) ts"

text \<open>What a search in the window from \<open>a\<close> to \<open>b\<close> says about the value \<open>v\<close>.\<close>

definition bounded :: "int \<Rightarrow> int \<Rightarrow> int \<Rightarrow> int \<Rightarrow> bool" where
  "bounded a b r v \<longleftrightarrow> (r \<le> a \<longrightarrow> v \<le> r) \<and> (a < r \<and> r < b \<longrightarrow> v = r) \<and> (b \<le> r \<longrightarrow> r \<le> v)"

lemma fold_max_ge: "x \<le> fold max xs (x :: int)" "y \<in> set xs \<Longrightarrow> y \<le> fold max xs x"
proof (induction xs arbitrary: x)
  case (Cons z xs)
  { case 1 show ?case using Cons(1) [of "max z x"] by simp }
  { case 2 then show ?case using Cons(1) [of "max z x"] Cons(2) [of "max z x"] by auto }
qed simp_all

lemma fold_min_le: "fold min xs (x :: int) \<le> x" "y \<in> set xs \<Longrightarrow> fold min xs x \<le> y"
proof (induction xs arbitrary: x)
  case (Cons z xs)
  { case 1 show ?case using Cons(1) [of "min z x"] by simp }
  { case 2 then show ?case using Cons(1) [of "min z x"] Cons(2) [of "min z x"] by auto }
qed simp_all

lemma tree_bound: "tree_ok W t \<Longrightarrow> 0 < W"
proof (induction t)
  case (Node mx ts)
  then show ?case by (cases ts) auto
qed simp

text \<open>The results of searches are within the bound.\<close>

lemma tab_range:
  "tree_ok W t \<Longrightarrow> - W < tab W a b t \<and> tab W a b t < W"
  "list_all (tree_ok W) ts \<Longrightarrow> best < W \<Longrightarrow> (ts \<noteq> [] \<or> - W < best) \<Longrightarrow>
     - W < fst (tab_max W a b best i loc ts) \<and> fst (tab_max W a b best i loc ts) < W \<and> best \<le> fst (tab_max W a b best i loc ts)"
  "list_all (tree_ok W) ts \<Longrightarrow> - W < best \<Longrightarrow> (ts \<noteq> [] \<or> best < W) \<Longrightarrow>
     - W < fst (tab_min W a b best i loc ts) \<and> fst (tab_min W a b best i loc ts) < W \<and> fst (tab_min W a b best i loc ts) \<le> best"
proof (induction W a b t and W a b best i loc ts and W a b best i loc ts rule: tab_tab_max_tab_min.induct)
  case (2 W a b mx ts)
  then have "0 < W" by (cases ts) (auto dest: tree_bound)
  then show ?case using 2 by (cases mx) auto
next
  case (4 W a b best i loc t ts)
  then show ?case by (auto simp: Let_def)
next
  case (6 W a b best i loc t ts)
  then show ?case by (auto simp: Let_def)
qed auto


text \<open>One step of the loop over the moves of the player who maximises. Before the step \<open>bv\<close> is the largest
  value so far and \<open>best\<close> the largest result, in a window that began at \<open>a0\<close>.\<close>

definition loop_inv :: "int \<Rightarrow> int \<Rightarrow> int \<Rightarrow> int \<Rightarrow> int \<Rightarrow> bool" where
  "loop_inv a0 a b best bv \<longleftrightarrow> a0 \<le> a \<and> a < b \<and> best < b \<and> (a0 < a \<longrightarrow> best = a) \<and>
     (best \<le> a0 \<longrightarrow> bv \<le> best) \<and> (a0 < best \<longrightarrow> bv = best)"

lemma loop_inv_step:
  assumes "loop_inv a0 a b best bv" "bounded a b r v" "\<not> b \<le> max a (max best r)"
  shows "loop_inv a0 (max a (max best r)) b (max best r) (max bv v)"
  using assms unfolding loop_inv_def bounded_def by (auto simp: max_def split: if_splits)

lemma loop_inv_cut:
  assumes "loop_inv a0 a b best bv" "bounded a b r v" "b \<le> max a (max best r)"
  shows "b \<le> r \<and> max best r = r \<and> r \<le> v"
  using assms unfolding loop_inv_def bounded_def by (auto simp: max_def split: if_splits)

lemma tab_max_bounded:
  assumes "\<And>t a b. t \<in> set ts \<Longrightarrow> a < b \<Longrightarrow> - W < b \<Longrightarrow> a < W \<Longrightarrow> bounded a b (tab W a b t) (tval W t)"
    "\<And>t. t \<in> set ts \<Longrightarrow> tree_ok W t" "loop_inv a0 a b best bv" "- W < b" "a < W" "best < W"
  shows "bounded a0 b (fst (tab_max W a b best i loc ts)) (fold max (map (tval W) ts) bv)"
  using assms
proof (induction ts arbitrary: a best bv i loc)
  case Nil
  then show ?case by (auto simp: bounded_def loop_inv_def)
next
  case (Cons t ts)
  let ?r = "tab W a b t" and ?v = "tval W t"
  have ab: "a < b" using Cons.prems(3) by (simp add: loop_inv_def)
  have k: "bounded a b ?r ?v" using Cons.prems(1) ab Cons.prems(4,5) by simp
  have rng: "?r < W" using tab_range(1) [OF Cons.prems(2)] by simp
  show ?case
  proof (cases "b \<le> max a (max best ?r)")
    case True
    note c = loop_inv_cut [OF Cons.prems(3) k True]
    have "?v \<le> fold max (map (tval W) ts) (max ?v bv)" using fold_max_ge(1) [of "max ?v bv"] by (meson max.bounded_iff)
    then show ?thesis using c True ab Cons.prems(3) by (auto simp: Let_def bounded_def loop_inv_def)
  next
    case False
    have "bounded a0 b (fst (tab_max W (max a (max best ?r)) b (max best ?r) (i + 1) (if ?r > best then Some i else loc) ts))
        (fold max (map (tval W) ts) (max bv ?v))"
      using Cons.prems rng by (intro Cons.IH loop_inv_step [OF Cons.prems(3) k False]) auto
    then show ?thesis using False by (simp add: Let_def max.commute [of bv])
  qed
qed


text \<open>The player who minimises is the other one with the signs changed.\<close>

fun neg :: "gtree \<Rightarrow> gtree" where
  "neg (Leaf v) = Leaf (- v)"
| "neg (Node mx ts) = Node (\<not> mx) (map neg ts)"

lemma neg_neg [simp]: "neg (neg t) = t"
  by (induction t) (auto simp: map_idI)

lemma tree_ok_neg [simp]: "tree_ok W (neg t) = tree_ok W t"
  by (induction t) (auto simp: list_all_iff)

lemma fold_min_neg: "fold min (map uminus xs) (- x) = - fold max xs (x :: int)"
  by (induction xs arbitrary: x) (auto simp: minus_max_eq_min [symmetric])

lemma fold_max_neg: "fold max (map uminus xs) (- x) = - fold min xs (x :: int)"
  by (induction xs arbitrary: x) (auto simp: minus_min_eq_max [symmetric])

lemma tval_neg: "tval W (neg t) = - tval W t"
proof (induction t)
  case (Node mx ts)
  then have m: "map (tval W \<circ> neg) ts = map (uminus \<circ> tval W) ts" by simp
  show ?case using fold_min_neg [of "map (tval W) ts" "- W"] fold_max_neg [of "map (tval W) ts" W] by (cases mx) (simp_all add: m)
qed simp

lemma tab_neg:
  "tab W (- b) (- a) (neg t) = - tab W a b t"
  "tab_min W (- b) (- a) (- best) i loc (map neg ts) = apfst uminus (tab_max W a b best i loc ts)"
  "tab_max W (- b) (- a) (- best) i loc (map neg ts) = apfst uminus (tab_min W a b best i loc ts)"
proof (induction W a b t and W a b best i loc ts and W a b best i loc ts rule: tab_tab_max_tab_min.induct)
  case (2 W a b mx ts)
  show ?case by (cases mx) (use 2 in simp_all)
next
  case (4 W a b best i loc t ts)
  let ?v = "tab W a b t"
  have m: "min (- best) (- ?v) = - max best ?v" "min (- a) (- max best ?v) = - max a (max best ?v)"
    by (simp_all only: minus_max_eq_min)
  show ?case
    using 4(1) 4(2) [OF refl refl refl refl] by (cases "b \<le> max a (max best ?v)") (simp_all only: list.map tab_min.simps tab_max.simps Let_def 4(1) m,
      simp_all)
next
  case (6 W a b best i loc t ts)
  let ?v = "tab W a b t"
  have m: "max (- best) (- ?v) = - min best ?v" "max (- b) (- min best ?v) = - min b (min best ?v)"
    by (simp_all only: minus_min_eq_max)
  show ?case
    using 6(1) 6(2) [OF refl refl refl refl] by (cases "min b (min best ?v) \<le> a") (simp_all only: list.map tab_min.simps tab_max.simps Let_def 6(1) m,
      simp_all)
qed simp_all

lemma bounded_neg: "bounded (- b) (- a) (- r) (- v) = bounded a b r v"
  by (auto simp: bounded_def)

lemma tab_bounded:
  assumes "tree_ok W t" "a < b" "- W < b" "a < W"
  shows "bounded a b (tab W a b t) (tval W t)"
  using assms
proof (induction t arbitrary: a b)
  case (Leaf v)
  then show ?case by (auto simp: bounded_def)
next
  case (Node mx ts)
  have IH: "bounded a b (tab W a b t) (tval W t)" if "t \<in> set ts" "a < b" "- W < b" "a < W" for t a b
    using Node.IH [OF that(1)] that(2-4) Node.prems(1) that(1) by (auto simp: list_all_iff)
  have ok: "t \<in> set ts \<Longrightarrow> tree_ok W t" for t using Node.prems(1) by (auto simp: list_all_iff)
  have "0 < W" using Node.prems(1) by (rule tree_bound)
  show ?case
  proof (cases mx)
    case True
    have "bounded a b (fst (tab_max W a b (- W) 0 None ts)) (fold max (map (tval W) ts) (- W))"
      by (rule tab_max_bounded [OF IH ok]) (use Node.prems \<open>0 < W\<close> in \<open>auto simp: loop_inv_def\<close>)
    then show ?thesis using True by simp
  next
    case False
    have IH': "bounded a b (tab W a b t) (tval W t)" if t: "t \<in> set (map neg ts)" and ab: "a < b" "- W < b" "a < W" for t a b
    proof -
      obtain u where u: "u \<in> set ts" "t = neg u" using t by auto
      have "bounded (- b) (- a) (tab W (- b) (- a) u) (tval W u)" using u ab by (intro IH) auto
      moreover have "tab W a b t = - tab W (- b) (- a) u" "tval W t = - tval W u"
        using tab_neg(1) [of W "- a" "- b" u] tval_neg u(2) by simp_all
      ultimately show ?thesis using bounded_neg [of a b] bounded_neg [of "- a" "- b"] by simp
    qed
    have "bounded (- b) (- a) (fst (tab_max W (- b) (- a) (- W) 0 None (map neg ts))) (fold max (map (tval W) (map neg ts)) (- W))"
      by (rule tab_max_bounded [OF IH']) (use Node.prems ok \<open>0 < W\<close> in \<open>auto simp: loop_inv_def\<close>)
    moreover have "fst (tab_max W (- b) (- a) (- W) 0 None (map neg ts)) = - fst (tab_min W a b W 0 None ts)"
      using tab_neg(3) [of W b a W 0 None ts] by simp
    moreover have "fold max (map (tval W) (map neg ts)) (- W) = - tval W (Node False ts)"
      using tval_neg [of W "Node False ts"] by simp
    ultimately show ?thesis using False bounded_neg by simp
  qed
qed


text \<open>The move that the loop remembers has the value that it returns.\<close>

lemma tab_max_move:
  assumes "\<And>t. t \<in> set ts \<Longrightarrow> tree_ok W t" "loop_inv a0 a b best bv" "- W < b" "a < W" "best < W"
    "tab_max W a b best i loc ts = (r, l)" "a0 < r" "r < b"
  shows "best = r \<and> l = loc \<or> (\<exists>j<length ts. l = Some (i + j) \<and> tval W (ts ! j) = r)"
  using assms
proof (induction ts arbitrary: a best bv i loc)
  case (Cons t ts)
  let ?r = "tab W a b t" and ?v = "tval W t"
  have ab: "a < b" using Cons.prems(2) by (simp add: loop_inv_def)
  have k: "bounded a b ?r ?v" using Cons.prems by (intro tab_bounded [OF _ ab]) auto
  have rng: "?r < W" using tab_range(1) [OF Cons.prems(1)] by simp
  show ?case
  proof (cases "b \<le> max a (max best ?r)")
    case True
    then have "r = max best ?r" using Cons.prems(6) by (simp add: Let_def split: if_splits)
    then show ?thesis using loop_inv_cut [OF Cons.prems(2) k True] Cons.prems(8) by simp
  next
    case False
    let ?l = "if ?r > best then Some i else loc"
    have e: "tab_max W (max a (max best ?r)) b (max best ?r) (i + 1) ?l ts = (r, l)" using Cons.prems(6) False by (simp add: Let_def)
    have "max best ?r = r \<and> l = ?l \<or> (\<exists>j<length ts. l = Some (i + 1 + j) \<and> tval W (ts ! j) = r)"
      using Cons.prems rng e by (intro Cons.IH [OF _ loop_inv_step [OF Cons.prems(2) k False]]) auto
    then show ?thesis
    proof
      assume r: "max best ?r = r \<and> l = ?l"
      show ?thesis
      proof (cases "?r > best")
        case True
        then have "?r = r" "a < r" using r Cons.prems(2,7) by (auto simp: loop_inv_def)
        then have "?v = r" using k Cons.prems(8) by (simp add: bounded_def)
        then show ?thesis using r True by (intro disjI2 exI [of _ 0]) simp
      qed (use r in auto)
    next
      assume "\<exists>j<length ts. l = Some (i + 1 + j) \<and> tval W (ts ! j) = r"
      then obtain j where "j < length ts" "l = Some (i + 1 + j)" "tval W (ts ! j) = r" by blast
      then show ?thesis by (intro disjI2 exI [of _ "Suc j"]) simp
    qed
  qed
qed (auto)

text \<open>With a window that contains all values the search finds the minimax value and a move that has it.\<close>

lemma search_root:
  assumes "tree_ok W (Node True ts)" "a \<le> - W" "W \<le> b" "tab_max W a b (- W) 0 None ts = (r, l)"
  shows "r = tval W (Node True ts) \<and> (\<exists>j<length ts. l = Some j \<and> tval W (ts ! j) = r)"
proof -
  have W: "0 < W" using assms(1) by (rule tree_bound)
  have rt: "tab W a b (Node True ts) = r" using assms(4) by simp
  have rng: "- W < r" "r < W" using tab_range(1) [OF assms(1), of a b] rt by simp_all
  have "bounded a b r (tval W (Node True ts))" using tab_bounded [OF assms(1), of a b] assms(2,3) W rt by simp
  then have "r = tval W (Node True ts)" using rng assms(2,3) by (simp add: bounded_def)
  moreover have "\<exists>j<length ts. l = Some (0 + j) \<and> tval W (ts ! j) = r"
  proof -
    have "loop_inv a a b (- W) (- W)" using W assms(2,3) by (auto simp: loop_inv_def)
    from tab_max_move [OF _ this _ _ _ assms(4)] show ?thesis
      using assms(1-3) W rng by (auto simp: list_all_iff)
  qed
  ultimately show ?thesis by simp
qed

end
