(* ===== verification/Uprintf.thy ===== *)
theory Uprintf
  imports Kprintf
begin

text \<open>
  Formatted output of user programs (\<open>user/printf.c\<close>). The arguments are typed values as in the kernel's
  \<open>printf\<close>; the result is what is written to the descriptor, character by character.
\<close>

definition udigits :: string where
  "udigits = ''0123456789ABCDEF''"

function udigit_loop :: "nat \<Rightarrow> nat \<Rightarrow> string" where
  "udigit_loop base x = udigits ! (x mod base) #
     (if base \<ge> 2 \<and> x div base \<noteq> 0 then udigit_loop base (x div base) else [])"
  by pat_completeness auto
termination
  by (relation "measure (\<lambda>(base, x). x)") (auto intro: div_less_dividend simp: div_greater_zero_iff)

declare udigit_loop.simps [simp del]

definition uprintint :: "u32 \<Rightarrow> nat \<Rightarrow> bool \<Rightarrow> kerr + string" where
  "uprintint xx base sg =
     (let neg = (sg \<and> xx <s 0);
          x = (if neg then - xx else xx);
          ds = udigit_loop base (unat x);
          buf = (if neg then ds @ ''-'' else ds)
      in if length buf > 16 then Inl Fault else Inr (rev buf))"

definition uprintptr :: "u64 \<Rightarrow> string" where
  "uprintptr x = ''0x'' @ map (\<lambda>i. udigits ! unat (drop_bit 60 (push_bit (4 * i) x))) [0..<16]"

text \<open>\<open>va_arg(ap, int)\<close>, and \<open>va_arg(ap, uint64)\<close> that \<open>printint\<close> takes as an \<open>int\<close>.\<close>

definition uva_int :: "parg list \<Rightarrow> kerr + (u32 \<times> parg list)" where
  "uva_int args = (case args of AInt v # as \<Rightarrow> Inr (v, as) | _ \<Rightarrow> Inl Fault)"

definition uva_long :: "parg list \<Rightarrow> kerr + (u32 \<times> parg list)" where
  "uva_long args = bindr (va_long args) (\<lambda>(v, as). Inr (ucast v, as))"

function uvprintf :: "string \<Rightarrow> parg list \<Rightarrow> kerr + string" where
  "uvprintf [] args = Inr []"
| "uvprintf (cx # cs) args =
     (if cx \<noteq> CHR ''%'' then emit (Inr [cx]) (uvprintf cs args)
      else
        let c0 = ch_at cs 0; c1 = ch_at cs 1; c2 = (if c1 \<noteq> CHR 0x00 then ch_at cs 2 else CHR 0x00)
        in if c0 = CHR 0x00 then Inr []
           else if c0 = CHR ''d'' then
             bindr (uva_int args) (\<lambda>(v, as). emit (uprintint v 10 True) (uvprintf (drop 1 cs) as))
           else if c0 = CHR ''l'' \<and> c1 = CHR ''d'' then
             bindr (uva_long args) (\<lambda>(v, as). emit (uprintint v 10 True) (uvprintf (drop 2 cs) as))
           else if c0 = CHR ''l'' \<and> c1 = CHR ''l'' \<and> c2 = CHR ''d'' then
             bindr (uva_long args) (\<lambda>(v, as). emit (uprintint v 10 True) (uvprintf (drop 3 cs) as))
           else if c0 = CHR ''u'' then
             bindr (uva_int args) (\<lambda>(v, as). emit (uprintint v 10 False) (uvprintf (drop 1 cs) as))
           else if c0 = CHR ''l'' \<and> c1 = CHR ''u'' then
             bindr (uva_long args) (\<lambda>(v, as). emit (uprintint v 10 False) (uvprintf (drop 2 cs) as))
           else if c0 = CHR ''l'' \<and> c1 = CHR ''l'' \<and> c2 = CHR ''u'' then
             bindr (uva_long args) (\<lambda>(v, as). emit (uprintint v 10 False) (uvprintf (drop 3 cs) as))
           else if c0 = CHR ''x'' then
             bindr (uva_int args) (\<lambda>(v, as). emit (uprintint v 16 False) (uvprintf (drop 1 cs) as))
           else if c0 = CHR ''l'' \<and> c1 = CHR ''x'' then
             bindr (uva_long args) (\<lambda>(v, as). emit (uprintint v 16 False) (uvprintf (drop 2 cs) as))
           else if c0 = CHR ''l'' \<and> c1 = CHR ''l'' \<and> c2 = CHR ''x'' then
             bindr (uva_long args) (\<lambda>(v, as). emit (uprintint v 16 False) (uvprintf (drop 3 cs) as))
           else if c0 = CHR ''p'' then
             bindr (va_long args) (\<lambda>(v, as). emit (Inr (uprintptr v)) (uvprintf (drop 1 cs) as))
           else if c0 = CHR ''s'' then
             bindr (va_str args) (\<lambda>(v, as).
               emit (Inr (case v of None \<Rightarrow> ''(null)'' | Some t \<Rightarrow> t)) (uvprintf (drop 1 cs) as))
           else if c0 = CHR ''%'' then emit (Inr ''%'') (uvprintf (drop 1 cs) args)
           else emit (Inr [CHR ''%'', c0]) (uvprintf (drop 1 cs) args))"
  by pat_completeness auto
termination
  by (relation "measure (\<lambda>(cs, _). length cs)") auto

declare uvprintf.simps [simp del]

definition fprintf :: "int \<Rightarrow> string \<Rightarrow> parg list \<Rightarrow> kerr + (int \<times> string)" where
  "fprintf fd fmt args = bindr (uvprintf fmt args) (\<lambda>s. Inr (fd, s))"

definition uprintf :: "string \<Rightarrow> parg list \<Rightarrow> kerr + (int \<times> string)" where
  "uprintf fmt args = fprintf 1 fmt args"

section \<open>What is printed\<close>

lemma length_udigit_loop: "length (udigit_loop base x) = length (digit_loop base x)"
proof (induction base x rule: udigit_loop.induct)
  case (1 base x)
  then show ?case by (simp add: udigit_loop.simps [of base x] digit_loop.simps [of base x])
qed

lemma uprintint_fits: "2 \<le> base \<Longrightarrow> base \<le> 16 \<Longrightarrow> 10 \<le> base \<Longrightarrow> \<exists>s. uprintint xx base sg = Inr s"
proof -
  assume b: "2 \<le> base" "base \<le> 16" "10 \<le> base"
  have "unat (x :: u32) < base ^ 10" for x
  proof -
    have "unat x < 2 ^ 32" using unsigned_less [of x] by simp
    also have "(2 :: nat) ^ 32 < 10 ^ 10" by simp
    also have "(10 :: nat) ^ 10 \<le> base ^ 10" using b(3) by (rule power_mono) simp
    finally show ?thesis .
  qed
  then have "length (udigit_loop base (unat (x :: u32))) \<le> 10" for x
    using length_digit_loop [OF b(1), of 10] by (simp add: length_udigit_loop)
  from this [of xx] this [of "- xx"] show ?thesis by (auto simp: uprintint_def Let_def)
qed

text \<open>A 64-bit value is printed modulo \<open>2 ^ 32\<close>, also by the formats for long values.\<close>

lemma uvprintf_lu_truncates: "uvprintf ''%lu'' [ALong (2 ^ 32 + 7)] = Inr ''7''"
  by (simp add: uvprintf.simps uva_long_def va_long_def emit_def ch_at_def uprintint_def udigit_loop.simps udigits_def Let_def)

end
