(* ===== verification/Xo.thy ===== *)
theory Xo
  imports Minimax Uprintf
begin

text \<open>
  Tic-tac-toe (\<open>user/xo.c\<close>). The board is the list of its nine characters, row by row; an empty cell has its
  digit. \<open>minimax\<close> writes on the board and takes the move back, as the code does.
\<close>

type_synonym board = string

definition init_board :: board where "init_board = ''123456789''"

text \<open>\<open>out(s, len)\<close>; the character after a string literal is a NUL.\<close>

definition out :: "string \<Rightarrow> nat \<Rightarrow> string" where
  "out s len = take len (s @ [CHR 0x00])"

definition nl :: string where "nl = [CHR 0x0A]"

definition draw_line :: "board \<Rightarrow> nat \<Rightarrow> string" where
  "draw_line b i = [b ! (3 * i)] @ '' | '' @ [b ! (3 * i + 1)] @ '' | '' @ [b ! (3 * i + 2)] @ nl @
     (if i < 2 then out (''--+---+--'' @ nl) 10 else [])"

definition draw_board :: "board \<Rightarrow> string" where
  "draw_board b = out (nl @ ''=== TIC TAC TOE ==='' @ nl @ nl) 21 @ concat (map (draw_line b) [0, 1, 2]) @ out nl 1"

definition rows :: "nat list list" where "rows = [[0, 1, 2], [3, 4, 5], [6, 7, 8]]"

definition cols :: "nat list list" where "cols = [[0, 3, 6], [1, 4, 7], [2, 5, 8]]"

definition diags :: "nat list list" where "diags = [[0, 4, 8], [2, 4, 6]]"

definition same3 :: "board \<Rightarrow> nat list \<Rightarrow> bool" where
  "same3 b l \<longleftrightarrow> b ! (l ! 0) = b ! (l ! 1) \<and> b ! (l ! 1) = b ! (l ! 2)"

definition win :: "board \<Rightarrow> bool" where
  "win b \<longleftrightarrow> list_ex (same3 b) (rows @ cols @ diags)"

definition is_digit19 :: "char \<Rightarrow> bool" where
  "is_digit19 c \<longleftrightarrow> (of_char c :: nat) \<ge> 49 \<and> (of_char c :: nat) \<le> 57"

definition draw :: "board \<Rightarrow> bool" where
  "draw b \<longleftrightarrow> list_all (\<lambda>c. \<not> is_digit19 c) b"

definition taken :: "char \<Rightarrow> bool" where
  "taken c \<longleftrightarrow> c = CHR ''X'' \<or> c = CHR ''O''"

definition make_move :: "int \<Rightarrow> char \<Rightarrow> board \<Rightarrow> board option" where
  "make_move pos cur b =
     (if pos < 1 \<or> pos > 9 then None
      else let i = nat (pos - 1) in if taken (b ! i) then None else Some (b[i := cur]))"

definition is_digit :: "char \<Rightarrow> bool" where
  "is_digit c \<longleftrightarrow> (of_char c :: nat) \<ge> 48 \<and> (of_char c :: nat) \<le> 57"

definition simple_atoi :: "string \<Rightarrow> int" where
  "simple_atoi s = sint (foldl (\<lambda>n c. n * 10 + of_nat (of_char c - 48)) (0 :: u32) (takeWhile is_digit (dropWhile (\<lambda>c. \<not> is_digit c) s)))"

definition prompt_player :: "char \<Rightarrow> string" where
  "prompt_player cur = out ''Player '' 7 @ [cur] @ out '', choose (1-9): '' 17"

fun line_score :: "board \<Rightarrow> nat list list \<Rightarrow> int option" where
  "line_score b [] = None"
| "line_score b (l # ls) =
     (if same3 b l \<and> b ! (l ! 0) = CHR ''O'' then Some 10
      else if same3 b l \<and> b ! (l ! 0) = CHR ''X'' then Some (- 10) else line_score b ls)"

definition evaluate_board :: "board \<Rightarrow> int" where
  "evaluate_board b = (case line_score b (rows @ cols @ diags) of Some s \<Rightarrow> s | None \<Rightarrow> 0)"

text \<open>The variables of a call: the window, the best value and move, the board, and \<open>*bestMove\<close>.\<close>

type_synonym mmst = "int \<times> int \<times> int \<times> int \<times> board \<times> int"

text \<open>The inner loop, over the cells of a row, and the loop over the rows; \<open>rec\<close> is the recursive call.\<close>

fun mm_row :: "(int \<Rightarrow> int \<Rightarrow> board \<Rightarrow> int \<Rightarrow> kerr + (int \<times> board \<times> int)) \<Rightarrow> bool \<Rightarrow> nat list \<Rightarrow> mmst \<Rightarrow> kerr + mmst" where
  "mm_row rec isMax [] st = Inr st"
| "mm_row rec isMax (c # cs) (alpha, beta, best, loc, b, bm) =
     (if taken (b ! c) then mm_row rec isMax cs (alpha, beta, best, loc, b, bm)
      else bindr (rec alpha beta (b[c := if isMax then CHR ''O'' else CHR ''X'']) bm) (\<lambda>(val, b1, bm1).
        let b2 = b1[c := b ! c];
            better = (if isMax then val > best else val < best);
            loc1 = (if better then int c + 1 else loc); best1 = (if better then val else best);
            alpha1 = (if isMax \<and> best1 > alpha then best1 else alpha);
            beta1 = (if \<not> isMax \<and> best1 < beta then best1 else beta)
        in if beta1 \<le> alpha1 then Inr (alpha1, beta1, best1, loc1, b2, bm1)
           else mm_row rec isMax cs (alpha1, beta1, best1, loc1, b2, bm1)))"

fun mm_rows :: "(int \<Rightarrow> int \<Rightarrow> board \<Rightarrow> int \<Rightarrow> kerr + (int \<times> board \<times> int)) \<Rightarrow> bool \<Rightarrow> nat list list \<Rightarrow> mmst \<Rightarrow> kerr + mmst" where
  "mm_rows rec isMax [] st = Inr st"
| "mm_rows rec isMax (r # rs) st =
     bindr (mm_row rec isMax r st) (\<lambda>(alpha, beta, best, loc, b, bm).
     if beta \<le> alpha then Inr (alpha, beta, best, loc, b, bm) else mm_rows rec isMax rs (alpha, beta, best, loc, b, bm))"

primrec minimax :: "nat \<Rightarrow> int \<Rightarrow> bool \<Rightarrow> int \<Rightarrow> int \<Rightarrow> board \<Rightarrow> int \<Rightarrow> kerr + (int \<times> board \<times> int)" where
  "minimax 0 depth isMax alpha beta b bm = Inl Diverge"
| "minimax (Suc k) depth isMax alpha beta b bm =
     (let score = evaluate_board b in
      if score = 10 then Inr (score - depth, b, bm)
      else if score = - 10 then Inr (score + depth, b, bm)
      else if draw b then Inr (0, b, bm)
      else bindr (mm_rows (minimax k (depth + 1) (\<not> isMax)) isMax rows
             (alpha, beta, if isMax then - 10000 else 10000, - 1, b, bm))
           (\<lambda>(alpha1, beta1, best, loc, b1, bm1). Inr (best, b1, if depth = 0 then loc else bm1)))"

text \<open>A turn: the computer's move, or the line that the player types (\<open>None\<close> if \<open>read\<close> fails). A turn ends the
  game, or goes on with the other player or, after a bad move, with the same.\<close>

datatype turn = Over | Quit | Next char board

definition strip_nl :: "string \<Rightarrow> string" where
  "strip_nl s = takeWhile (\<lambda>c. c \<noteq> CHR 0x00) (if s \<noteq> [] \<and> last s = CHR 0x0A then butlast s else s)"

definition play :: "int \<Rightarrow> char \<Rightarrow> board \<Rightarrow> kerr + (turn \<times> string)" where
  "play pos cur b =
     (case make_move pos cur b of
        None \<Rightarrow> bindr (uvprintf (''Invalid move at %d. Try again.'' @ nl) [AInt (word_of_int pos)]) (\<lambda>msg. Inr (Next cur b, msg))
      | Some b1 \<Rightarrow>
          if win b1 then Inr (Over, draw_board b1 @ out ''Player '' 7 @ [cur] @ out ('' wins!'' @ nl) 7)
          else if draw b1 then Inr (Over, draw_board b1 @ out (''It'' @ [CHR 0x27] @ ''s a draw!'' @ nl) 13)
          else Inr (Next (if cur = CHR ''X'' then CHR ''O'' else CHR ''X'') b1, []))"

definition xo_turn :: "bool \<Rightarrow> string option \<Rightarrow> char \<Rightarrow> board \<Rightarrow> kerr + (turn \<times> string)" where
  "xo_turn ai line cur b =
     (if ai \<and> cur = CHR ''O''
      then bindr (minimax 10 0 True (- 1000000) 1000000 b 0) (\<lambda>(v, b1, pos).
           bindr (play pos cur b1) (\<lambda>(t, o1). Inr (t, draw_board b @ o1)))
      else case line of None \<Rightarrow> Inr (Next cur b, draw_board b @ prompt_player cur)
        | Some l \<Rightarrow>
            let s = strip_nl l in
            if s = ''exit'' then Inr (Quit, draw_board b @ prompt_player cur @ ''exiting...'' @ nl)
            else bindr (play (simple_atoi s) cur b) (\<lambda>(t, o1). Inr (t, draw_board b @ prompt_player cur @ o1)))"

section \<open>The search\<close>

definition cells :: "nat list" where "cells = [0, 1, 2, 3, 4, 5, 6, 7, 8]"

definition piece :: "bool \<Rightarrow> char" where "piece isMax = (if isMax then CHR ''O'' else CHR ''X'')"

definition free_cells :: "board \<Rightarrow> nat list" where "free_cells b = filter (\<lambda>c. \<not> taken (b ! c)) cells"

text \<open>The game from a position on, without windows and without taking moves back.\<close>

primrec xo_tree :: "nat \<Rightarrow> int \<Rightarrow> bool \<Rightarrow> board \<Rightarrow> gtree" where
  "xo_tree 0 depth isMax b = Leaf 0"
| "xo_tree (Suc k) depth isMax b =
     (if evaluate_board b = 10 then Leaf (10 - depth)
      else if evaluate_board b = - 10 then Leaf (- 10 + depth)
      else if draw b then Leaf 0
      else Node isMax (map (\<lambda>c. xo_tree k (depth + 1) (\<not> isMax) (b[c := piece isMax])) (free_cells b)))"

text \<open>The two loops are one loop over the cells.\<close>

lemma mm_row_append:
  assumes "fst st < fst (snd st)"
  shows "mm_row rec isMax (xs @ ys) st =
    bindr (mm_row rec isMax xs st) (\<lambda>(alpha, beta, best, loc, b, bm).
      if beta \<le> alpha then Inr (alpha, beta, best, loc, b, bm) else mm_row rec isMax ys (alpha, beta, best, loc, b, bm))"
  using assms
proof (induction xs arbitrary: st)
  case Nil
  then show ?case by (cases st) simp
next
  case (Cons c cs)
  obtain alpha beta best loc b bm where st: "st = (alpha, beta, best, loc, b, bm)" by (cases st) auto
  show ?case
  proof (cases "taken (b ! c)")
    case True
    then show ?thesis using Cons by (simp add: st)
  next
    case False
    show ?thesis using False Cons.IH
      by (auto simp: st bindr_assoc Let_def not_le split: prod.split intro!: bindr_cong)
  qed
qed


lemma mm_rows_flat:
  assumes "alpha < beta"
  shows "mm_rows rec isMax rows (alpha, beta, best, loc, b, bm) = mm_row rec isMax cells (alpha, beta, best, loc, b, bm)"
proof -
  have c: "cells = [0, 1, 2] @ [3, 4, 5] @ [6, 7, 8]" by (simp add: cells_def)
  show ?thesis
    unfolding c rows_def mm_rows.simps
    by (subst mm_row_append) (auto simp: assms mm_row_append not_le simp del: mm_row.simps append.simps intro!: bindr_cong split: prod.split)
qed

definition loc_int :: "nat list \<Rightarrow> nat option \<Rightarrow> int" where
  "loc_int es l = (case l of None \<Rightarrow> - 1 | Some j \<Rightarrow> int (es ! j) + 1)"

definition tab_loop :: "bool \<Rightarrow> int \<Rightarrow> int \<Rightarrow> int \<Rightarrow> int \<Rightarrow> nat \<Rightarrow> nat option \<Rightarrow> gtree list \<Rightarrow> int \<times> nat option" where
  "tab_loop isMax W a b best i l ts = (if isMax then tab_max W a b best i l ts else tab_min W a b best i l ts)"

lemma mm_row_max:
  assumes "\<not> taken (bd ! c)" "rec alpha beta (bd[c := piece True]) bm = Inr (v, bd[c := piece True], bm)"
  shows "mm_row rec True (c # cs) (alpha, beta, best, loc, bd, bm) =
    (let best1 = max best v; a1 = max alpha best1; loc1 = (if v > best then int c + 1 else loc) in
     if beta \<le> a1 then Inr (a1, beta, best1, loc1, bd, bm) else mm_row rec True cs (a1, beta, best1, loc1, bd, bm))"
proof -
  have "(if v > best then v else best) = max best v" "(if max best v > alpha then max best v else alpha) = max alpha (max best v)" by auto
  then show ?thesis using assms by (simp add: piece_def Let_def cong: if_cong)
qed

lemma mm_row_min:
  assumes "\<not> taken (bd ! c)" "rec alpha beta (bd[c := piece False]) bm = Inr (v, bd[c := piece False], bm)"
  shows "mm_row rec False (c # cs) (alpha, beta, best, loc, bd, bm) =
    (let best1 = min best v; b1 = min beta best1; loc1 = (if v < best then int c + 1 else loc) in
     if b1 \<le> alpha then Inr (alpha, b1, best1, loc1, bd, bm) else mm_row rec False cs (alpha, b1, best1, loc1, bd, bm))"
proof -
  have "(if v < best then v else best) = min best v" "(if min best v < beta then min best v else beta) = min beta (min best v)" by auto
  then show ?thesis using assms by (simp add: piece_def Let_def cong: if_cong)
qed

lemma mm_row_tab:
  assumes rec: "\<And>c a b'. c \<in> set cs \<Longrightarrow> \<not> taken (bd ! c) \<Longrightarrow> a < b' \<Longrightarrow>
      rec a b' (bd[c := piece isMax]) bm = Inr (tab W a b' (T c), bd[c := piece isMax], bm)"
    and ab: "alpha < beta" and es: "es = pre @ filter (\<lambda>c. \<not> taken (bd ! c)) cs"
  shows "\<exists>a b. mm_row rec isMax cs (alpha, beta, best, loc_int es lo, bd, bm) =
    Inr (a, b, fst (tab_loop isMax W alpha beta best (length pre) lo (map T (filter (\<lambda>c. \<not> taken (bd ! c)) cs))),
      loc_int es (snd (tab_loop isMax W alpha beta best (length pre) lo (map T (filter (\<lambda>c. \<not> taken (bd ! c)) cs)))), bd, bm)"
  using assms
proof (induction cs arbitrary: alpha beta best lo pre)
  case (Cons c cs)
  show ?case
  proof (cases "taken (bd ! c)")
    case True
    then show ?thesis using Cons.IH [of alpha beta pre best lo] Cons.prems by simp
  next
    case False
    let ?v = "tab W alpha beta (T c)"
    have r: "rec alpha beta (bd[c := piece isMax]) bm = Inr (?v, bd[c := piece isMax], bm)"
      using Cons.prems(1) [of c] False Cons.prems(2) by simp
    have l: "loc_int es (Some (length pre)) = int c + 1" using Cons.prems(3) False by (simp add: loc_int_def)
    note IH = Cons.IH [of _ _ "pre @ [c]"]
    show ?thesis
    proof (cases isMax)
      case True
      let ?best = "max best ?v" and ?a = "max alpha (max best ?v)" and ?lo = "if ?v > best then Some (length pre) else lo"
      have lo: "(if ?v > best then int c + 1 else loc_int es lo) = loc_int es ?lo" using l by simp
      have t: "isMax = True" using True by simp
      note step = mm_row_max [where rec = rec and alpha = alpha and beta = beta and bm = bm and best = best and loc = "loc_int es lo" and cs = cs, OF False r [unfolded t], unfolded Let_def lo]
      show ?thesis
      proof (cases "beta \<le> ?a")
        case cut: True
        then show ?thesis unfolding t step using False by (simp add: tab_loop_def Let_def)
      next
        case ncut: False
        then have "\<exists>a b'. mm_row rec True cs (?a, beta, ?best, loc_int es ?lo, bd, bm) =
          Inr (a, b', fst (tab_loop True W ?a beta ?best (length (pre @ [c])) ?lo (map T (filter (\<lambda>c. \<not> taken (bd ! c)) cs))),
            loc_int es (snd (tab_loop True W ?a beta ?best (length (pre @ [c])) ?lo (map T (filter (\<lambda>c. \<not> taken (bd ! c)) cs)))), bd, bm)"
          using Cons.prems False t by (intro IH [unfolded t]) auto
        then show ?thesis unfolding t step using False ncut by (simp add: tab_loop_def Let_def)
      qed
    next
      case mn: False
      let ?best = "min best ?v" and ?b = "min beta (min best ?v)" and ?lo = "if ?v < best then Some (length pre) else lo"
      have lo: "(if ?v < best then int c + 1 else loc_int es lo) = loc_int es ?lo" using l by simp
      have f: "isMax = False" using mn by simp
      note step = mm_row_min [where rec = rec and alpha = alpha and beta = beta and bm = bm and best = best and loc = "loc_int es lo" and cs = cs, OF False r [unfolded f], unfolded Let_def lo]
      show ?thesis
      proof (cases "?b \<le> alpha")
        case cut: True
        then show ?thesis unfolding f step using False by (simp add: tab_loop_def Let_def)
      next
        case ncut: False
        then have "\<exists>a b'. mm_row rec False cs (alpha, ?b, ?best, loc_int es ?lo, bd, bm) =
          Inr (a, b', fst (tab_loop False W alpha ?b ?best (length (pre @ [c])) ?lo (map T (filter (\<lambda>c. \<not> taken (bd ! c)) cs))),
            loc_int es (snd (tab_loop False W alpha ?b ?best (length (pre @ [c])) ?lo (map T (filter (\<lambda>c. \<not> taken (bd ! c)) cs)))), bd, bm)"
          using Cons.prems False f by (intro IH [unfolded f]) auto
        then show ?thesis unfolding f step using False ncut by (simp add: tab_loop_def Let_def)
      qed
    qed
  qed
qed (simp add: tab_loop_def)


definition terminal :: "board \<Rightarrow> bool" where
  "terminal b \<longleftrightarrow> evaluate_board b = 10 \<or> evaluate_board b = - 10 \<or> draw b"

lemma free_cells_set: "c \<in> set (free_cells b) \<longleftrightarrow> c < 9 \<and> \<not> taken (b ! c)"
proof -
  have "c \<in> set cells \<longleftrightarrow> c < 9" by (auto simp: cells_def less_Suc_eq numeral_eq_Suc)
  then show ?thesis by (auto simp: free_cells_def)
qed

lemma free_cells_move:
  assumes "c \<in> set (free_cells b)" "length b = 9"
  shows "length (free_cells (b[c := piece mx])) < length (free_cells b)"
proof -
  have c: "c < 9" "\<not> taken (b ! c)" using assms(1) by (simp_all add: free_cells_set)
  have "\<not> taken ((b[c := piece mx]) ! d) \<longleftrightarrow> \<not> taken (b ! d) \<and> d \<noteq> c" for d
    using c assms(2) by (cases "d = c") (auto simp: taken_def piece_def)
  then have "free_cells (b[c := piece mx]) = filter (\<lambda>d. d \<noteq> c) (free_cells b)"
    by (simp add: free_cells_def conj_commute)
  then show ?thesis using assms(1) by (simp add: length_filter_less)
qed

lemma not_draw_free:
  assumes "\<not> draw b" "length b = 9"
  shows "free_cells b \<noteq> []"
proof -
  obtain d where d: "d < length b" "is_digit19 (b ! d)" using assms(1) by (auto simp: draw_def list_all_length)
  then have "\<not> taken (b ! d)" by (auto simp: is_digit19_def taken_def)
  then have "d \<in> set (free_cells b)" using d assms(2) by (simp add: free_cells_set)
  then show ?thesis by auto
qed

definition chosen :: "nat \<Rightarrow> int \<Rightarrow> bool \<Rightarrow> int \<Rightarrow> int \<Rightarrow> board \<Rightarrow> nat option" where
  "chosen k depth mx alpha beta b = snd (tab_loop mx 10000 alpha beta (if mx then - 10000 else 10000) 0 None
     (map (\<lambda>c. xo_tree k (depth + 1) (\<not> mx) (b[c := piece mx])) (free_cells b)))"

lemma minimax_tab:
  assumes "length b = 9" "length (free_cells b) < k" "0 \<le> depth" "alpha < beta"
  shows "minimax k depth mx alpha beta b bm = Inr (tab 10000 alpha beta (xo_tree k depth mx b), b,
    if terminal b \<or> depth \<noteq> 0 then bm else loc_int (free_cells b) (chosen (k - 1) depth mx alpha beta b))"
  using assms
proof (induction k arbitrary: depth mx alpha beta b bm)
  case (Suc k)
  show ?case
  proof (cases "terminal b")
    case True
    then show ?thesis by (auto simp: terminal_def Let_def)
  next
    case False
    let ?T = "\<lambda>c. xo_tree k (depth + 1) (\<not> mx) (b[c := piece mx])"
    let ?w = "if mx then - 10000 else 10000 :: int"
    let ?r = "tab_loop mx 10000 alpha beta ?w 0 None (map ?T (free_cells b))"
    have "minimax k (depth + 1) (\<not> mx) a b' (b[c := piece mx]) bm = Inr (tab 10000 a b' (?T c), b[c := piece mx], bm)"
      if "c \<in> set cells" "\<not> taken (b ! c)" "a < b'" for c a b'
    proof -
      have "c \<in> set (free_cells b)" using that by (simp add: free_cells_def)
      from free_cells_move [OF this Suc.prems(1), of mx] show ?thesis
        using Suc.IH [of "b[c := piece mx]" "depth + 1" a b' "\<not> mx" bm] Suc.prems that by simp
    qed
    from mm_row_tab [where rec = "minimax k (depth + 1) (\<not> mx)" and T = ?T and es = "free_cells b" and pre = "[]" and
        lo = None and best = ?w and W = 10000 and cs = cells, OF this Suc.prems(4)]
    obtain a b' where "mm_row (minimax k (depth + 1) (\<not> mx)) mx cells (alpha, beta, ?w, - 1, b, bm) =
        Inr (a, b', fst ?r, loc_int (free_cells b) (snd ?r), b, bm)"
      by (auto simp: free_cells_def loc_int_def)
    then have "minimax (Suc k) depth mx alpha beta b bm = Inr (fst ?r, b, if depth = 0 then loc_int (free_cells b) (snd ?r) else bm)"
      using False mm_rows_flat [OF Suc.prems(4)] by (simp add: terminal_def Let_def)
    then show ?thesis using False by (simp add: terminal_def chosen_def tab_loop_def)
  qed
qed simp

lemma xo_tree_ok:
  assumes "length b = 9" "0 \<le> depth" "depth + int k < 1000"
  shows "tree_ok 10000 (xo_tree k depth mx b)"
  using assms
proof (induction k arbitrary: depth mx b)
  case (Suc k)
  then show ?case using not_draw_free [of b] by (auto simp: list_all_iff)
qed simp

text \<open>C20. The computer plays perfectly: on a board where the game is not over, \<open>minimax\<close> returns, restores the
  board, and chooses a legal move whose minimax value is the value of the position, no matter which branches
  the window cuts off.\<close>

theorem xo_plays_optimally:
  assumes "length b = 9" "\<not> terminal b"
  shows "\<exists>v pos. minimax 10 0 True (- 1000000) 1000000 b bm = Inr (v, b, pos) \<and> v = tval 10000 (xo_tree 10 0 True b) \<and>
    make_move pos (CHR ''O'') b = Some (b[nat (pos - 1) := CHR ''O'']) \<and>
    tval 10000 (xo_tree 9 1 False (b[nat (pos - 1) := CHR ''O''])) = v"
proof -
  let ?ts = "map (\<lambda>c. xo_tree 9 1 False (b[c := piece True])) (free_cells b)"
  have t: "xo_tree 10 0 True b = Node True ?ts" using assms(2) by (simp add: terminal_def numeral_eq_Suc)
  have "length (free_cells b) \<le> 9" using length_filter_le [of _ cells] by (simp add: free_cells_def cells_def)
  then have m: "minimax 10 0 True (- 1000000) 1000000 b bm =
      Inr (tab 10000 (- 1000000) 1000000 (Node True ?ts), b, loc_int (free_cells b) (chosen 9 0 True (- 1000000) 1000000 b))"
    using minimax_tab [of b 10 0 "- 1000000" 1000000 True bm] assms t by simp
  obtain r l where rl: "tab_max 10000 (- 1000000) 1000000 (- 10000) 0 None ?ts = (r, l)" by fastforce
  have "tree_ok 10000 (Node True ?ts)" using xo_tree_ok [OF assms(1), of 0 10 True] t by simp
  from search_root [OF this _ _ rl] obtain j where j: "r = tval 10000 (Node True ?ts)" "j < length ?ts" "l = Some j" "tval 10000 (?ts ! j) = r"
    by auto
  have c: "chosen 9 0 True (- 1000000) 1000000 b = Some j" using rl j(3) by (simp add: chosen_def tab_loop_def)
  let ?c = "free_cells b ! j"
  have "?c \<in> set (free_cells b)" using j(2) by simp
  then have fc: "?c < 9" "\<not> taken (b ! ?c)" by (simp_all add: free_cells_set)
  then have "make_move (int ?c + 1) (CHR ''O'') b = Some (b[?c := CHR ''O''])" by (simp add: make_move_def)
  moreover have "tval 10000 (xo_tree 9 1 False (b[?c := CHR ''O''])) = r" using j(2,4) by (simp add: piece_def)
  ultimately show ?thesis using m rl j(1) t c by (auto simp: loc_int_def)
qed

theorem xo_plays_optimally_witness:
  "\<exists>v pos. minimax 10 0 True (- 1000000) 1000000 ''XOX4O6789'' 0 = Inr (v, ''XOX4O6789'', pos) \<and>
     v = tval 10000 (xo_tree 10 0 True ''XOX4O6789'')"
proof -
  have "\<not> terminal ''XOX4O6789''"
    by (simp add: terminal_def evaluate_board_def rows_def cols_def diags_def same3_def draw_def is_digit19_def)
  from xo_plays_optimally [OF _ this] show ?thesis by fastforce
qed

end
