(* ===== verification/Ulib.thy ===== *)
theory Ulib
  imports Uprintf
begin

text \<open>
  The library of the user programs (\<open>user/ulib.c\<close>). Routines that write through pointers work on a
  byte-addressed memory as those of the kernel do; routines that only read a string take the list of its characters
  without the final NUL. The vector of arguments that the option parser rewrites in place is an array of optional
  strings, with the null pointer as \<open>None\<close>.
\<close>

section \<open>Strings in memory\<close>

partial_function (option) strcpy_loop :: "u64 \<Rightarrow> u64 \<Rightarrow> mem \<Rightarrow> mem option" where
  "strcpy_loop s t m = (let m1 = m(s := m t) in if m1 s \<noteq> 0 then strcpy_loop (s + 1) (t + 1) m1 else Some m1)"

definition strcpy :: "u64 \<Rightarrow> u64 \<Rightarrow> mem \<Rightarrow> (u64 \<times> mem) option" where
  "strcpy s t m = map_option (\<lambda>m1. (s, m1)) (strcpy_loop s t m)"

definition ustrlen :: "u64 \<Rightarrow> mem \<Rightarrow> u32 option" where
  "ustrlen s m = map_option of_nat (strlen_loop s 0 m)"

text \<open>The index \<open>i\<close> is compared with the unsigned \<open>n\<close>.\<close>

definition umemset :: "u64 \<Rightarrow> u32 \<Rightarrow> u32 \<Rightarrow> mem \<Rightarrow> mem" where
  "umemset d c n m = memset_loop (unat n) d (ucast c) m"

definition umemmove :: "u64 \<Rightarrow> u64 \<Rightarrow> u32 \<Rightarrow> mem \<Rightarrow> mem" where
  "umemmove d s n m =
     (let k = (if 0 <s n then unat n else 0) in
      if s > d then copy_forw k d s m else copy_back k (d + scast n) (s + scast n) m)"

primrec umemcmp_loop :: "nat \<Rightarrow> u64 \<Rightarrow> u64 \<Rightarrow> mem \<Rightarrow> int" where
  "umemcmp_loop 0 p q m = 0"
| "umemcmp_loop (Suc n) p q m =
     (if m p \<noteq> m q then uint (m p) - uint (m q) else umemcmp_loop n (p + 1) (q + 1) m)"

definition umemcmp :: "u64 \<Rightarrow> u64 \<Rightarrow> u32 \<Rightarrow> mem \<Rightarrow> int" where
  "umemcmp p q n m = umemcmp_loop (unat n) p q m"

definition umemcpy :: "u64 \<Rightarrow> u64 \<Rightarrow> u32 \<Rightarrow> mem \<Rightarrow> mem" where
  "umemcpy d s n m = umemmove d s n m"

partial_function (option) strend :: "u64 \<Rightarrow> mem \<Rightarrow> u64 option" where
  "strend p m = (if m p \<noteq> 0 then strend (p + 1) m else Some p)"

partial_function (option) strcat_loop :: "u64 \<Rightarrow> u64 \<Rightarrow> mem \<Rightarrow> mem option" where
  "strcat_loop p src m = (if m src \<noteq> 0 then strcat_loop (p + 1) (src + 1) (m(p := m src)) else Some (m(p := 0)))"

definition strcat :: "u64 \<Rightarrow> u64 \<Rightarrow> mem \<Rightarrow> (u64 \<times> mem) option" where
  "strcat dst src m = Option.bind (strend dst m) (\<lambda>p. map_option (\<lambda>m1. (dst, m1)) (strcat_loop p src m))"

text \<open>\<open>gets\<close> reads bytes from a list; its end is the end of the input.\<close>

fun gets_loop :: "nat \<Rightarrow> u64 \<Rightarrow> u8 list \<Rightarrow> mem \<Rightarrow> u64 \<times> u8 list \<times> mem" where
  "gets_loop 0 p inp m = (p, inp, m)"
| "gets_loop (Suc n) p [] m = (p, [], m)"
| "gets_loop (Suc n) p (c # inp) m =
     (if c = 10 \<or> c = 13 then (p + 1, inp, m(p := c)) else gets_loop n (p + 1) inp (m(p := c)))"

definition gets :: "u64 \<Rightarrow> int \<Rightarrow> u8 list \<Rightarrow> mem \<Rightarrow> u8 list \<times> mem" where
  "gets buf mx inp m = (case gets_loop (nat (mx - 1)) buf inp m of (p, inp1, m1) \<Rightarrow> (inp1, m1(p := 0)))"

definition joinpath :: "u64 \<Rightarrow> u64 \<Rightarrow> u64 \<Rightarrow> u32 \<Rightarrow> mem \<Rightarrow> (u64 \<times> mem) option" where
  "joinpath dir filename out_buffer bufsize m =
     Option.bind (ustrlen dir m) (\<lambda>dn. Option.bind (ustrlen filename m) (\<lambda>nn.
     let need = dn + 1 + nn + 1 in
     if bufsize <s need then Some (0, m)
     else Option.bind (strcpy out_buffer dir m) (\<lambda>(_, m1).
       let m2 = (if m1 (dir + scast (dn - 1)) \<noteq> 47
                 then m1(out_buffer + scast dn := 47, out_buffer + scast (dn + 1) := 0) else m1)
       in Option.bind (strcat out_buffer filename m2) (\<lambda>(_, m3). Some (out_buffer, m3)))))"

section \<open>Strings that are only read\<close>

definition uch :: "char \<Rightarrow> int" where "uch c = of_char c"

fun strcmp :: "string \<Rightarrow> string \<Rightarrow> int" where
  "strcmp (a # p) q = (if a = ch_at q 0 then strcmp p (drop 1 q) else uch a - uch (ch_at q 0))"
| "strcmp [] q = uch (CHR 0x00) - uch (ch_at q 0)"

fun ustrncmp_loop :: "nat \<Rightarrow> string \<Rightarrow> string \<Rightarrow> int" where
  "ustrncmp_loop 0 p q = 0"
| "ustrncmp_loop (Suc n) p q =
     (if ch_at p 0 \<noteq> ch_at q 0 then uch (ch_at p 0) - uch (ch_at q 0)
      else if ch_at p 0 = CHR 0x00 then 0 else ustrncmp_loop n (drop 1 p) (drop 1 q))"

definition ustrncmp :: "string \<Rightarrow> string \<Rightarrow> int \<Rightarrow> int" where
  "ustrncmp p q len = (if len \<le> 0 then 0 else ustrncmp_loop (nat len) p q)"

text \<open>The rest of the string from the first \<open>c\<close> on, \<open>None\<close> for the null pointer.\<close>

fun strchr :: "string \<Rightarrow> char \<Rightarrow> string option" where
  "strchr [] c = None"
| "strchr (x # s) c = (if x = c then Some (x # s) else strchr s c)"

definition is_dec :: "char \<Rightarrow> bool" where
  "is_dec c \<longleftrightarrow> (of_char c :: nat) \<ge> 48 \<and> (of_char c :: nat) \<le> 57"

definition dec_digit :: "char \<Rightarrow> u32" where
  "dec_digit c = of_nat (of_char c - 48)"

text \<open>The arithmetic of \<open>int\<close> wraps at 32 bits.\<close>

fun atoi :: "string \<Rightarrow> u32" where
  "atoi s =
     (case s of CHR ''-'' # s1 \<Rightarrow> - atoi s1
      | _ \<Rightarrow> foldl (\<lambda>n c. n * 10 + dec_digit c) 0 (takeWhile is_dec s))"

declare atoi.simps [simp del]

definition is_valid_int :: "string \<Rightarrow> bool" where
  "is_valid_int s = list_all is_dec (if ch_at s 0 = CHR ''-'' \<or> ch_at s 0 = CHR ''+'' then drop 1 s else s)"

fun getFilename_loop :: "string \<Rightarrow> string \<Rightarrow> string" where
  "getFilename_loop d [] = d"
| "getFilename_loop d (c # p) = getFilename_loop (if c = CHR ''/'' then p else d) p"

definition getFilename :: "string \<Rightarrow> string" where
  "getFilename path = getFilename_loop path path"

fun parse_nonneg_loop :: "u32 \<Rightarrow> string \<Rightarrow> u32" where
  "parse_nonneg_loop v [] = v"
| "parse_nonneg_loop v (c # p) = (if \<not> is_dec c then - 1 else parse_nonneg_loop (v * 10 + dec_digit c) p)"

definition parse_nonneg_int :: "string option \<Rightarrow> u32" where
  "parse_nonneg_int s = (case s of None \<Rightarrow> - 1 | Some [] \<Rightarrow> - 1 | Some t \<Rightarrow> parse_nonneg_loop 0 t)"

definition contains_char :: "string option \<Rightarrow> char \<Rightarrow> bool" where
  "contains_char s c = (case s of None \<Rightarrow> False | Some t \<Rightarrow> list_ex (\<lambda>x. x = c) t)"

section \<open>Options\<close>

record opt =
  opt_ch :: char
  has_arg :: bool
  seen :: bool
  opt_arg :: "string option"

fun find_opt :: "opt list \<Rightarrow> char \<Rightarrow> nat option" where
  "find_opt [] ch = None"
| "find_opt (p # opts) ch = (if opt_ch p = ch then Some 0 else map_option Suc (find_opt opts ch))"

type_synonym argvec = "string option list"

definition argv_at :: "argvec \<Rightarrow> nat \<Rightarrow> kerr + string" where
  "argv_at argv i = (if i < length argv then case argv ! i of Some a \<Rightarrow> Inr a | None \<Rightarrow> Inl Fault else Inl Fault)"

text \<open>The characters of a cluster of options; \<open>nxt\<close> reads the next argument, if there is one. The result tells
  whether the cluster is fine and whether it took the next argument.\<close>

fun cluster :: "(kerr + string) option \<Rightarrow> string \<Rightarrow> opt list \<Rightarrow> kerr + (bool \<times> bool \<times> opt list)" where
  "cluster nxt [] opts = Inr (True, False, opts)"
| "cluster nxt (ch # cs) opts =
     (case find_opt opts ch of
        None \<Rightarrow> Inr (False, False, opts)
      | Some idx \<Rightarrow>
          if has_arg (opts ! idx) then
            if cs \<noteq> [] then Inr (True, False, opts[idx := (opts ! idx)\<lparr>seen := True, opt_arg := Some cs\<rparr>])
            else (case nxt of
                None \<Rightarrow> Inr (False, False, opts)
              | Some r \<Rightarrow> bindr r (\<lambda>a. if ch_at a 0 = CHR ''-'' then Inr (False, False, opts)
                  else Inr (True, True, opts[idx := (opts ! idx)\<lparr>seen := True, opt_arg := Some a\<rparr>])))
          else cluster nxt cs (opts[idx := (opts ! idx)\<lparr>seen := True\<rparr>]))"

text \<open>\<open>argv[write_i++] = argv[j]\<close> for the arguments after a double dash.\<close>

fun copy_rest :: "nat \<Rightarrow> nat \<Rightarrow> nat \<Rightarrow> argvec \<Rightarrow> nat \<times> argvec" where
  "copy_rest 0 j w argv = (w, argv)"
| "copy_rest (Suc n) j w argv = copy_rest n (j + 1) (w + 1) (argv[w := argv ! j])"

definition is_file_arg :: "string \<Rightarrow> bool" where
  "is_file_arg a \<longleftrightarrow> ch_at a 0 \<noteq> CHR ''-'' \<or> ch_at a 1 = CHR 0x00"

definition is_dashes :: "string \<Rightarrow> bool" where
  "is_dashes a \<longleftrightarrow> ch_at a 1 = CHR ''-'' \<and> ch_at a 2 = CHR 0x00"

text \<open>The loop over the arguments; the first component is false where the code returns \<open>-1\<close>.\<close>

function parse_loop :: "nat \<Rightarrow> nat \<Rightarrow> nat \<Rightarrow> argvec \<Rightarrow> opt list \<Rightarrow> kerr + (bool \<times> nat \<times> argvec \<times> opt list)" where
  "parse_loop argc i w argv opts =
     (if \<not> i < argc then Inr (True, w, argv, opts)
      else bindr (argv_at argv i) (\<lambda>a.
        if ch_at a 0 = CHR 0x00 then parse_loop argc (i + 1) w argv opts
        else if is_file_arg a then parse_loop argc (i + 1) (w + 1) (argv[w := Some a]) opts
        else if is_dashes a then
          (case copy_rest (argc - (i + 1)) (i + 1) w argv of (w1, argv1) \<Rightarrow> Inr (True, w1, argv1, opts))
        else bindr (cluster (if i + 1 < argc then Some (argv_at argv (i + 1)) else None) (drop 1 a) opts)
          (\<lambda>(ok, took, opts1).
            if \<not> ok then Inr (False, w, argv, opts1)
            else parse_loop argc (if took then i + 2 else i + 1) w argv opts1)))"
  by pat_completeness auto
termination by (relation "measure (\<lambda>(argc, i, _). argc - i)") auto

declare parse_loop.simps [simp del]

definition clear_opt :: "opt \<Rightarrow> opt" where
  "clear_opt p = p\<lparr>seen := False, opt_arg := None\<rparr>"

definition null_from :: "nat \<Rightarrow> nat \<Rightarrow> argvec \<Rightarrow> argvec" where
  "null_from w argc argv = fold (\<lambda>j v. v[j := None]) [w..<argc] (argv[w := None])"

definition parse_flags :: "nat \<Rightarrow> argvec \<Rightarrow> opt list \<Rightarrow> kerr + (int \<times> argvec \<times> opt list)" where
  "parse_flags argc argv opts =
     bindr (parse_loop argc 1 1 argv (map clear_opt opts)) (\<lambda>(ok, w, argv1, opts1).
       if \<not> ok then Inr (- 1, argv1, opts1) else Inr (int w, null_from w argc argv1, opts1))"

text \<open>\<open>strip_flags\<close>: the scan of a cluster tells whether the next argument goes with it; \<open>None\<close> if there is
  none.\<close>

fun strip_cluster :: "string option \<Rightarrow> bool \<Rightarrow> string \<Rightarrow> bool option" where
  "strip_cluster ws left [] = Some False"
| "strip_cluster ws left (ch # cs) =
     (if contains_char ws ch then if cs \<noteq> [] then Some False else if \<not> left then None else Some True
      else strip_cluster ws left cs)"

function strip_loop :: "string option \<Rightarrow> nat \<Rightarrow> nat \<Rightarrow> nat \<Rightarrow> argvec \<Rightarrow> bool \<times> nat \<times> argvec" where
  "strip_loop ws argc i w argv =
     (if \<not> i < argc then (True, w, argv)
      else case argv ! i of None \<Rightarrow> strip_loop ws argc (i + 1) w argv
      | Some a \<Rightarrow>
          if ch_at a 0 = CHR 0x00 then strip_loop ws argc (i + 1) w argv
          else if is_file_arg a then strip_loop ws argc (i + 1) (w + 1) (argv[w := Some a])
          else if is_dashes a then
            (case copy_rest (argc - (i + 1)) (i + 1) w argv of (w1, argv1) \<Rightarrow> (True, w1, argv1))
          else case strip_cluster ws (i + 1 < argc) (drop 1 a) of
              None \<Rightarrow> (False, w, argv)
            | Some took \<Rightarrow> strip_loop ws argc (if took then i + 2 else i + 1) w argv)"
  by pat_completeness auto
termination by (relation "measure (\<lambda>(ws, argc, i, _). argc - i)") auto

declare strip_loop.simps [simp del]

definition strip_flags :: "nat \<Rightarrow> argvec \<Rightarrow> string option \<Rightarrow> int \<times> argvec" where
  "strip_flags argc argv ws =
     (case strip_loop ws argc 1 1 argv of (ok, w, argv1) \<Rightarrow> if ok then (int w, argv1[w := None]) else (- 1, argv1))"


section \<open>Closed forms\<close>

text \<open>A string with a final NUL at an address, and bytes stored from an address on.\<close>

fun cstr :: "mem \<Rightarrow> u64 \<Rightarrow> u8 list \<Rightarrow> bool" where
  "cstr m a [] \<longleftrightarrow> m a = 0"
| "cstr m a (c # cs) \<longleftrightarrow> m a = c \<and> c \<noteq> 0 \<and> cstr m (a + 1) cs"

fun store :: "mem \<Rightarrow> u64 \<Rightarrow> u8 list \<Rightarrow> mem" where
  "store m a [] = m"
| "store m a (c # cs) = store (m(a := c)) (a + 1) cs"

text \<open>No byte of the \<open>k\<close> bytes at \<open>a\<close> is one of the \<open>n\<close> bytes at \<open>d\<close>.\<close>

definition apart :: "u64 \<Rightarrow> nat \<Rightarrow> u64 \<Rightarrow> nat \<Rightarrow> bool" where
  "apart a k d n \<longleftrightarrow> (\<forall>i<k. \<not> within d n (a + of_nat i))"

lemma apart_Suc: "apart a (Suc k) d n \<longleftrightarrow> \<not> within d n a \<and> apart (a + 1) k d n"
  by (simp add: apart_def All_less_Suc2 add.assoc add.commute [of 1])

lemma apart_mono:
  assumes "apart a k d n" "k' \<le> k" "unat (e - d) + n' \<le> n" "n < 2 ^ 64"
  shows "apart a k' e n'"
  unfolding apart_def
proof (intro allI impI notI)
  fix i assume i: "i < k'" "within e n' (a + of_nat i)"
  have "unat (a + of_nat i - d) = unat ((a + of_nat i - e) + (e - d))" by (simp add: algebra_simps)
  also have "\<dots> = unat (a + of_nat i - e) + unat (e - d)"
    using i(2) assms(3,4) by (intro unat_add_lem [THEN iffD1]) (simp add: within_def)
  finally have "within d n (a + of_nat i)" using i(2) assms(3) by (simp add: within_def)
  then show False using assms(1,2) i(1) by (simp add: apart_def)
qed

lemma store_frame:
  assumes "length cs < 2 ^ 64" "\<not> within a (length cs) x"
  shows "store m a cs x = m x"
  using assms
proof (induction cs arbitrary: m a)
  case (Cons c cs)
  then have "x \<noteq> a" "\<not> within (a + 1) (length cs) x" using within_Suc [of "length cs" a x] by auto
  with Cons show ?case by simp
qed simp

lemma cstr_cong: "(\<And>i. i \<le> length cs \<Longrightarrow> m' (a + of_nat i) = m (a + of_nat i)) \<Longrightarrow> cstr m' a cs = cstr m a cs"
proof (induction cs arbitrary: a)
  case (Cons c cs)
  have "m' a = m a" using Cons.prems [of 0] by simp
  moreover have "m' (a + 1 + of_nat i) = m (a + 1 + of_nat i)" if "i \<le> length cs" for i
    using Cons.prems [of "Suc i"] that by (simp add: algebra_simps)
  ultimately show ?case using Cons.IH by simp
qed (use cstr.simps(1) in fastforce)

lemma cstr_apart:
  assumes "apart a (Suc (length cs)) d n" "\<And>x. \<not> within d n x \<Longrightarrow> m' x = m x"
  shows "cstr m' a cs = cstr m a cs"
  using assms by (intro cstr_cong) (simp add: apart_def)

lemma store_nth:
  assumes "length cs < 2 ^ 63" "i < length cs"
  shows "store m a cs (a + of_nat i) = cs ! i"
  using assms
proof (induction cs arbitrary: m a i)
  case (Cons c cs)
  have "\<not> within (a + 1) (length cs) a"
    using Cons.prems(1) by (simp add: within_def unsigned_minus_1_eq_mask mask_eq_exp_minus_1)
  then have "store (m(a := c)) (a + 1) cs a = c" using store_frame [of cs "a + 1" a "m(a := c)"] Cons.prems(1) by simp
  then show ?case using Cons.IH [of "i - 1" "m(a := c)" "a + 1"] Cons.prems by (cases i) (simp_all add: algebra_simps del: fun_upd_apply)
qed simp

lemma cstr_nth: "cstr m a cs \<longleftrightarrow> (\<forall>i<length cs. m (a + of_nat i) = cs ! i \<and> cs ! i \<noteq> 0) \<and> m (a + of_nat (length cs)) = 0"
  by (induction cs arbitrary: a) (simp_all add: All_less_Suc2 algebra_simps)

lemma cstr_nonzero: "cstr m a cs \<Longrightarrow> 0 \<notin> set cs"
  by (induction cs arbitrary: a) auto

lemma cstr_store:
  assumes "length cs < 2 ^ 62" "0 \<notin> set cs"
  shows "cstr (store m a (cs @ [0])) a cs"
  unfolding cstr_nth using store_nth [of "cs @ [0]" _ m a] assms by (auto simp: nth_append) (metis nth_mem)

lemma store_append: "store m a (xs @ ys) = store (store m a xs) (a + of_nat (length xs)) ys"
  by (induction xs arbitrary: m a) (simp_all add: algebra_simps)

lemma store_overwrite: "ys \<noteq> [] \<Longrightarrow> store (m(a := c)) a ys = store m a ys"
  by (cases ys) simp_all

lemma apart_one: "apart a k d (Suc n) \<Longrightarrow> i < k \<Longrightarrow> n < 2 ^ 63 \<Longrightarrow> a + of_nat i \<noteq> d"
  by (auto simp: apart_def within_def)

lemma apart_tail:
  assumes "apart t (Suc k) s (Suc n)" "n < 2 ^ 63"
  shows "apart (t + 1) k (s + 1) n"
proof -
  have "apart (t + 1) k s (Suc n)" using assms(1) by (simp add: apart_Suc)
  then show ?thesis by (rule apart_mono) (use assms(2) in simp_all)
qed

lemma cstr_upd_apart:
  assumes "apart a (Suc (length cs)) d (Suc n)" "n < 2 ^ 63"
  shows "cstr (m(d := c)) a cs = cstr m a cs"
  using apart_one [OF assms(1) _ assms(2)] by (intro cstr_cong) auto

lemma strcpy_loop_spec:
  assumes "cstr m t cs" "apart t (Suc (length cs)) s (Suc (length cs))" "length cs < 2 ^ 62"
  shows "strcpy_loop s t m = Some (store m s (cs @ [0]))"
  using assms
proof (induction cs arbitrary: s t m)
  case Nil
  then show ?case by (subst strcpy_loop.simps) simp
next
  case (Cons c cs)
  have a: "apart (t + 1) (Suc (length cs)) (s + 1) (Suc (length cs))" using apart_tail Cons.prems(2,3) by simp
  have "apart (t + 1) (Suc (length cs)) s (Suc (Suc (length cs)))" using Cons.prems(2) by (simp add: apart_Suc)
  then have "cstr (m(s := c)) (t + 1) cs" using cstr_upd_apart [of "t + 1" cs s] Cons.prems by simp
  with Cons.IH [OF this a] Cons.prems show ?case by (subst strcpy_loop.simps) (simp add: Let_def fun_upd_same del: fun_upd_apply)
qed

lemma strcat_loop_spec:
  assumes "cstr m t cs" "apart t (Suc (length cs)) s (Suc (length cs))" "length cs < 2 ^ 62"
  shows "strcat_loop s t m = Some (store m s (cs @ [0]))"
  using assms
proof (induction cs arbitrary: s t m)
  case Nil
  then show ?case by (subst strcat_loop.simps) simp
next
  case (Cons c cs)
  have a: "apart (t + 1) (Suc (length cs)) (s + 1) (Suc (length cs))" using apart_tail Cons.prems(2,3) by simp
  have "apart (t + 1) (Suc (length cs)) s (Suc (Suc (length cs)))" using Cons.prems(2) by (simp add: apart_Suc)
  then have "cstr (m(s := c)) (t + 1) cs" using cstr_upd_apart [of "t + 1" cs s] Cons.prems by simp
  with Cons.IH [OF this a] Cons.prems show ?case by (subst strcat_loop.simps) (simp add: Let_def fun_upd_same del: fun_upd_apply)
qed

lemma strend_spec: "cstr m a cs \<Longrightarrow> strend a m = Some (a + of_nat (length cs))"
proof (induction cs arbitrary: a)
  case (Cons c cs)
  then show ?case by (subst strend.simps) (simp add: algebra_simps)
qed (subst strend.simps, simp)

lemma strcat_spec:
  assumes "0 \<notin> set es" "length es < 2 ^ 62" "cstr m t cs" "length cs < 2 ^ 62"
    "apart t (Suc (length cs)) a (Suc (length es + length cs))"
  shows "strcat a t (store m a (es @ [0])) = Some (a, store m a (es @ cs @ [0]))"
proof -
  let ?x = "a + of_nat (length es)" and ?m = "store m a (es @ [0])"
  have len: "unat (of_nat (length es) :: u64) = length es" using assms(2) by (intro unat_of_nat_u64) simp
  have ap: "apart t (Suc (length cs)) ?x (Suc (length cs))" using assms(2,4) by (intro apart_mono [OF assms(5)]) (simp_all add: len)
  have "cstr ?m t cs"
  proof (subst cstr_apart [where m = m and d = a and n = "Suc (length es + length cs)"])
    show "?m x = m x" if "\<not> within a (Suc (length es + length cs)) x" for x
      using that assms(2) by (intro store_frame) (auto simp: within_def)
  qed (use assms in simp_all)
  from strcat_loop_spec [OF this ap assms(4)] have "strcat_loop ?x t ?m = Some (store ?m ?x (cs @ [0]))" .
  moreover have "store ?m ?x (cs @ [0]) = store m a (es @ cs @ [0])" by (simp add: store_append [of m a es] store_overwrite)
  moreover have "strend a ?m = Some ?x" using strend_spec cstr_store assms(1,2) by blast
  ultimately show ?thesis by (simp add: strcat_def)
qed

lemma ustrlen_spec: "cstr m a cs \<Longrightarrow> ustrlen a m = Some (of_nat (length cs))"
proof -
  have "cstr m (a + of_nat n) cs \<Longrightarrow> strlen_loop a n m = Some (n + length cs)" for n
    by (induction cs arbitrary: n) (subst strlen_loop.simps, simp add: algebra_simps)+
  from this [of 0] show "cstr m a cs \<Longrightarrow> ustrlen a m = Some (of_nat (length cs))" by (simp add: ustrlen_def)
qed

lemma scast_of_nat_small: "n < 2 ^ 31 \<Longrightarrow> scast (of_nat n :: u32) = (of_nat n :: u64)"
  by (simp add: signed_of_nat signed_take_bit_int_eq_self)

lemma sless_of_nat_u32: "a < 2 ^ 31 \<Longrightarrow> b < 2 ^ 31 \<Longrightarrow> (of_nat a :: u32) <s of_nat b \<longleftrightarrow> a < b"
  by (simp add: word_sless_alt signed_of_nat signed_take_bit_int_eq_self)

lemma joinpath_spec:
  fixes d f :: "u8 list"
  defines "e \<equiv> (if last d = 47 then d else d @ [47])"
  assumes d: "cstr m dir d" "d \<noteq> []" "apart dir (Suc (length d)) buf B"
    and f: "cstr m filename f" "apart filename (Suc (length f)) buf B"
    and len: "length d + length f + 2 < 2 ^ 31" "B < 2 ^ 31" and fits: "length d + length f + 2 \<le> B"
  shows "joinpath dir filename buf (of_nat B) m = Some (buf, store m buf (e @ f @ [0]))"
proof -
  let ?dn = "of_nat (length d) :: u32" and ?m1 = "store m buf (d @ [0])"
  have need: "?dn + 1 + of_nat (length f) + 1 = of_nat (length d + length f + 2)" by simp
  have nofit: "\<not> (of_nat B :: u32) <s ?dn + 1 + of_nat (length f) + 1"
    unfolding need using sless_of_nat_u32 [OF len(2,1)] fits by (simp only: not_less)
  have "apart dir (Suc (length d)) buf (Suc (length d))" by (rule apart_mono [OF d(3)]) (use len fits in simp_all)
  then have cp: "strcpy buf dir m = Some (buf, ?m1)" using strcpy_loop_spec [OF d(1)] len by (simp add: strcpy_def)
  have idx: "scast (?dn - 1) = (of_nat (length d - 1) :: u64)" "scast ?dn = (of_nat (length d) :: u64)" "scast (?dn + 1) = (of_nat (length d + 1) :: u64)"
    using scast_of_nat_small [of "length d - 1"] scast_of_nat_small [of "length d"] scast_of_nat_small [of "length d + 1"] len d(2)
    by (simp_all add: of_nat_diff Suc_leI add.commute)
  have "\<not> within buf (length d + 1) (dir + of_nat (length d - 1))"
    using d(3) [unfolded apart_def, rule_format, of "length d - 1"] fits unfolding within_def by linarith
  then have "?m1 (dir + of_nat (length d - 1)) = m (dir + of_nat (length d - 1))" using len by (intro store_frame) simp_all
  also have "\<dots> = last d" using d(1,2) by (simp add: cstr_nth last_conv_nth)
  finally have lst: "?m1 (dir + scast (?dn - 1)) = last d" by (simp add: idx)
  have m2: "(if ?m1 (dir + scast (?dn - 1)) \<noteq> 47 then ?m1(buf + scast ?dn := 47, buf + scast (?dn + 1) := 0) else ?m1) = store m buf (e @ [0])"
    unfolding lst unfolding idx by (simp add: e_def store_append [of m buf d] algebra_simps)
  have le: "length e \<le> length d + 1" and ne: "0 \<notin> set e" using cstr_nonzero [OF d(1)] by (auto simp: e_def)
  have "strcat buf filename (store m buf (e @ [0])) = Some (buf, store m buf (e @ f @ [0]))"
    using le len fits by (intro strcat_spec ne f(1) apart_mono [OF f(2)]) simp_all
  then show ?thesis using nofit cp m2 by (simp add: joinpath_def ustrlen_spec [OF d(1)] ustrlen_spec [OF f(1)] Let_def del: fun_upd_apply)
qed

text \<open>C26. \<open>joinpath\<close> never writes beyond the buffer: where the directory, a slash if it has none at its end, the
  name and the final NUL may not fit it returns a null pointer and writes nothing, otherwise the buffer holds
  the joined path and no other byte has changed.\<close>

theorem joinpath_safe:
  assumes "cstr m dir d" "d \<noteq> []" "apart dir (Suc (length d)) buf B" "cstr m filename f" "apart filename (Suc (length f)) buf B"
    "length d + length f + 2 < 2 ^ 31" "B < 2 ^ 31"
  shows "\<exists>r m'. joinpath dir filename buf (of_nat B) m = Some (r, m') \<and> (\<forall>x. within buf B x \<or> m' x = m x) \<and>
    (if length d + length f + 2 \<le> B then r = buf \<and> cstr m' buf ((if last d = 47 then d else d @ [47]) @ f) else r = 0 \<and> m' = m)"
proof (cases "length d + length f + 2 \<le> B")
  case True
  let ?e = "(if last d = 47 then d else d @ [47]) @ f"
  have j: "joinpath dir filename buf (of_nat B) m = Some (buf, store m buf (?e @ [0]))"
    using joinpath_spec [OF assms(1-7) True] by simp
  have "length ?e < B" "0 \<notin> set ?e" using True cstr_nonzero [OF assms(1)] cstr_nonzero [OF assms(4)] by auto
  then have "cstr (store m buf (?e @ [0])) buf ?e" "\<And>x. \<not> within buf B x \<Longrightarrow> store m buf (?e @ [0]) x = m x"
    using cstr_store [of ?e m buf] store_frame [of "?e @ [0]" buf _ m] assms(7) by (auto simp: within_def)
  then have "(\<forall>x. within buf B x \<or> store m buf (?e @ [0]) x = m x) \<and> cstr (store m buf (?e @ [0])) buf ?e" by blast
  then show ?thesis using j True by (intro exI [of _ buf] exI [of _ "store m buf (?e @ [0])"]) simp
next
  case False
  have "(of_nat (length d) :: u32) + 1 + of_nat (length f) + 1 = of_nat (length d + length f + 2)" by simp
  then have "(of_nat B :: u32) <s of_nat (length d) + 1 + of_nat (length f) + 1"
    using sless_of_nat_u32 [of B "length d + length f + 2"] assms(6,7) False by simp
  then have "joinpath dir filename buf (of_nat B) m = Some (0, m)"
    by (simp add: joinpath_def ustrlen_spec [OF assms(1)] ustrlen_spec [OF assms(4)] Let_def)
  then show ?thesis using False by simp
qed

definition demo_paths :: mem where
  "demo_paths x = (if x = 100 then 97 else if x = 200 then 98 else 0)"

theorem joinpath_safe_witness:
  "\<exists>m'. joinpath 100 200 300 16 demo_paths = Some (300, m') \<and> cstr m' 300 [97, 47, 98]"
proof -
  have a: "apart 100 (Suc (length [97 :: u8])) 300 16" "apart 200 (Suc (length [98 :: u8])) 300 16"
    by (simp_all add: apart_def within_def All_less_Suc)
  have c: "cstr demo_paths 100 [97]" "cstr demo_paths 200 [98]" by (simp_all add: demo_paths_def)
  from joinpath_safe [OF c(1) _ a(1) c(2) a(2)] show ?thesis by fastforce
qed

section \<open>The option parsers as functions on lists\<close>

definition peek :: "string list \<Rightarrow> (kerr + string) option" where
  "peek as = (case as of [] \<Rightarrow> None | b # _ \<Rightarrow> Some (Inr b))"

text \<open>What \<open>parse_flags\<close> computes: the options and the arguments that are left.\<close>

fun flag_args :: "opt list \<Rightarrow> string list \<Rightarrow> (opt list \<times> string list) option" where
  "flag_args opts [] = Some (opts, [])"
| "flag_args opts (a # as) =
     (if ch_at a 0 = CHR 0x00 then flag_args opts as
      else if is_file_arg a then map_option (apsnd (Cons a)) (flag_args opts as)
      else if is_dashes a then Some (opts, as)
      else case cluster (peek as) (drop 1 a) opts of
          Inl e \<Rightarrow> None
        | Inr (ok, took, opts1) \<Rightarrow> if ok then flag_args opts1 (if took then drop 1 as else as) else None)"

lemma cluster_total:
  assumes "\<And>r. nxt = Some r \<Longrightarrow> \<exists>a. r = Inr a"
  shows "\<exists>ok took opts'. cluster nxt cs opts = Inr (ok, took, opts') \<and> (took \<longrightarrow> nxt \<noteq> None)"
  using assms
proof (induction nxt cs opts rule: cluster.induct)
  case (2 nxt ch cs opts)
  then show ?case by (auto split: option.split) blast+
qed (intro exI conjI, rule cluster.simps, simp)

lemma update_front:
  "(map Some fs @ gap @ map Some (a # as) @ z)[length fs := Some a] = map Some (fs @ [a]) @ tl (gap @ [Some a]) @ map Some as @ z"
  by (cases gap) (simp_all add: list_update_append)

lemma copy_rest_spec:
  "copy_rest (length rest) (length fs + length gap) (length fs) (map Some fs @ gap @ map Some rest @ z) =
     (length fs + length rest, map Some (fs @ rest) @ drop (length rest) (gap @ map Some rest) @ z)"
proof (induction rest arbitrary: fs gap)
  case (Cons a as)
  let ?argv = "map Some fs @ gap @ map Some (a # as) @ z"
  have at: "?argv ! (length fs + length gap) = Some a" by (simp add: nth_append)
  have l: "length fs + length gap + 1 = length (fs @ [a]) + length (tl (gap @ [Some a]))" "length fs + 1 = length (fs @ [a])" by simp_all
  have "copy_rest (length (a # as)) (length fs + length gap) (length fs) ?argv =
      copy_rest (length as) (length (fs @ [a]) + length (tl (gap @ [Some a]))) (length (fs @ [a]))
        (map Some (fs @ [a]) @ tl (gap @ [Some a]) @ map Some as @ z)"
    unfolding list.size(4) add_Suc_right add_0_right copy_rest.simps at update_front l ..
  also have "\<dots> = (length (fs @ [a]) + length as, map Some ((fs @ [a]) @ as) @ drop (length as) (tl (gap @ [Some a]) @ map Some as) @ z)"
    by (rule Cons.IH)
  also have "drop (length as) (tl (gap @ [Some a]) @ map Some as) = drop (length (a # as)) (gap @ map Some (a # as))"
    by (cases gap) simp_all
  finally show ?case by simp
qed simp

text \<open>A step of the loop. The vector has the arguments that are kept, the gap between the two indices, and the
  arguments to come.\<close>

lemma parse_loop_step:
  fixes fs gap a as z
  defines "argv \<equiv> map Some fs @ gap @ map Some (a # as) @ z"
  assumes argc: "argc = length fs + length gap + length (a # as)"
  shows "parse_loop argc (length fs + length gap) (length fs) argv opts =
    (if ch_at a 0 = CHR 0x00
     then parse_loop argc (length fs + length (gap @ [Some a])) (length fs) (map Some fs @ (gap @ [Some a]) @ map Some as @ z) opts
     else if is_file_arg a
     then parse_loop argc (length (fs @ [a]) + length (tl (gap @ [Some a]))) (length (fs @ [a]))
       (map Some (fs @ [a]) @ tl (gap @ [Some a]) @ map Some as @ z) opts
     else if is_dashes a
     then Inr (True, length fs + length as, map Some (fs @ as) @ drop (length as) (gap @ Some a # map Some as) @ z, opts)
     else bindr (cluster (peek as) (drop 1 a) opts) (\<lambda>(ok, took, opts1).
       if \<not> ok then Inr (False, length fs, argv, opts1)
       else if took then parse_loop argc (length fs + length gap + 2) (length fs) argv opts1
       else parse_loop argc (length fs + length (gap @ [Some a])) (length fs) (map Some fs @ (gap @ [Some a]) @ map Some as @ z) opts1))"
proof -
  have at: "argv_at argv (length fs + length gap) = Inr a" by (simp add: argv_def argv_at_def nth_append)
  have nx: "(if length fs + length gap + 1 < argc then Some (argv_at argv (length fs + length gap + 1)) else None) = peek as"
    by (cases as) (simp_all add: argv_def argv_at_def peek_def nth_append argc)
  have same: "argv = map Some fs @ (gap @ [Some a]) @ map Some as @ z" by (simp add: argv_def)
  have up: "argv[length fs := Some a] = map Some (fs @ [a]) @ tl (gap @ [Some a]) @ map Some as @ z"
    unfolding argv_def by (rule update_front)
  have l: "length fs + length gap + 1 = length fs + length (gap @ [Some a])" by simp
  have l2: "length fs + length (gap @ [Some a]) = length (fs @ [a]) + length (tl (gap @ [Some a]))" "length fs + 1 = length (fs @ [a])" by simp_all
  have cp: "copy_rest (argc - (length fs + length gap + 1)) (length fs + length gap + 1) (length fs) argv =
      (length fs + length as, map Some (fs @ as) @ drop (length as) (gap @ Some a # map Some as) @ z)"
    using copy_rest_spec [of as fs "gap @ [Some a]" z] by (simp add: same argc)
  have lt: "length fs + length gap < argc" by (simp add: argc)
  show ?thesis
    unfolding parse_loop.simps [of argc "length fs + length gap" "length fs" argv opts] at nx cp up same [symmetric] l2 [symmetric] l [symmetric] bindr.simps
    by (auto simp: lt split: sum.split intro!: bindr_cong)
qed


lemma peek_total: "\<exists>ok took opts'. cluster (peek as) cs opts = Inr (ok, took, opts') \<and> (took \<longrightarrow> as \<noteq> [])"
  using cluster_total [of "peek as" cs opts] by (auto simp: peek_def split: list.splits)

definition kept :: "string list \<Rightarrow> string list \<Rightarrow> nat \<Rightarrow> argvec \<Rightarrow> argvec \<Rightarrow> bool" where
  "kept fs gs argc z argv \<longleftrightarrow> (\<exists>gap. length fs + length gs + length gap = argc \<and> argv = map Some (fs @ gs) @ gap @ z)"

lemma kept_Cons: "kept (fs @ [a]) gs argc z argv = kept fs (a # gs) argc z argv"
  by (auto simp: kept_def)

lemma kept_rest: "argc = length fs + length gap + length rest \<Longrightarrow> kept fs rest argc z (map Some (fs @ rest) @ drop (length rest) (gap @ map Some rest) @ z)"
  by (auto simp: kept_def)

lemma parse_loop_spec:
  assumes "argc = length fs + length gap + length rest"
  shows "case flag_args opts rest of
     Some (opts', gs) \<Rightarrow> \<exists>argv'. kept fs gs argc z argv' \<and>
       parse_loop argc (length fs + length gap) (length fs) (map Some fs @ gap @ map Some rest @ z) opts =
         Inr (True, length fs + length gs, argv', opts')
   | None \<Rightarrow> \<exists>w argv' opts'. parse_loop argc (length fs + length gap) (length fs) (map Some fs @ gap @ map Some rest @ z) opts =
         Inr (False, w, argv', opts')"
  using assms
proof (induction opts rest arbitrary: fs gap rule: flag_args.induct)
  case (1 opts)
  then show ?case by (subst parse_loop.simps) (auto simp: kept_def)
next
  case (2 opts a as)
  note step = parse_loop_step [OF "2.prems", of z opts]
  consider "ch_at a 0 = CHR 0x00" | "ch_at a 0 \<noteq> CHR 0x00" "is_file_arg a" | "ch_at a 0 \<noteq> CHR 0x00" "\<not> is_file_arg a" "is_dashes a"
    | "ch_at a 0 \<noteq> CHR 0x00" "\<not> is_file_arg a" "\<not> is_dashes a" by blast
  then show ?case
  proof cases
    case c: 1
    show ?thesis unfolding step using "2.IH"(1) [OF c, of fs "gap @ [Some a]"] "2.prems" c by simp
  next
    case c: 2
    show ?thesis unfolding step using "2.IH"(2) [OF c, of "fs @ [a]" "tl (gap @ [Some a])"] "2.prems" c
      by (auto simp: kept_Cons split: option.splits simp del: map_append append_assoc)
  next
    case c: 3
    show ?thesis unfolding step using kept_rest [of argc fs "gap @ [Some a]" as z] "2.prems" c by auto
  next
    case c: 4
    obtain ok took opts1 where cl: "cluster (peek as) (drop 1 a) opts = Inr (ok, took, opts1)" "took \<Longrightarrow> as \<noteq> []"
      using peek_total by blast
    note IH = "2.IH"(3) [OF c cl(1) refl refl]
    show ?thesis
    proof (cases "ok \<and> took")
      case True
      then obtain b bs where as: "as = b # bs" using cl(2) by (cases as) auto
      show ?thesis unfolding step using IH [of fs "gap @ [Some a, Some b]"] "2.prems" c cl(1) True as by (auto split: option.splits)
    next
      case False
      then show ?thesis unfolding step using IH [of fs "gap @ [Some a]"] "2.prems" c cl(1) by (auto split: option.splits)
    qed
  qed
qed


text \<open>Nulling the rest of the vector.\<close>

lemma null_from_nth:
  assumes "argc < length v" "w \<le> argc"
  shows "null_from w argc v = take w v @ replicate (max 1 (argc - w)) None @ drop (w + max 1 (argc - w)) v"
proof -
  have f: "fold (\<lambda>j v. v[j := None]) [a..<b] v = take a v @ replicate (b - a) None @ drop b v" if "a \<le> b" "b \<le> length v" for a b and v :: argvec
    using that
  proof (induction "b - a" arbitrary: a v)
    case (Suc n)
    then have "fold (\<lambda>j v. v[j := None]) [a..<b] v = fold (\<lambda>j v. v[j := None]) [Suc a..<b] (v[a := None])" by (simp add: upt_conv_Cons)
    also have "\<dots> = take (Suc a) (v[a := None]) @ replicate (b - Suc a) None @ drop b (v[a := None])" using Suc by (intro Suc.hyps(1)) auto
    also have "take (Suc a) (v[a := None]) = take a v @ [None]" using Suc by (simp add: take_Suc_conv_app_nth)
    also have "drop b (v[a := None]) = drop b v" using Suc by simp
    finally show ?case using Suc by (simp add: Suc_diff_Suc [symmetric])
  qed simp
  show ?thesis
  proof (cases "w = argc")
    case True
    then show ?thesis using assms by (simp add: null_from_def upd_conv_take_nth_drop)
  next
    case False
    then show ?thesis using assms f [of w argc "v[w := None]"] by (simp add: null_from_def max_def)
  qed
qed

lemma strip_loop_step:
  fixes fs gap a as z
  defines "argv \<equiv> map Some fs @ gap @ map Some (a # as) @ z"
  assumes argc: "argc = length fs + length gap + length (a # as)"
  shows "strip_loop ws argc (length fs + length gap) (length fs) argv =
    (if ch_at a 0 = CHR 0x00
     then strip_loop ws argc (length fs + length (gap @ [Some a])) (length fs) (map Some fs @ (gap @ [Some a]) @ map Some as @ z)
     else if is_file_arg a
     then strip_loop ws argc (length (fs @ [a]) + length (tl (gap @ [Some a]))) (length (fs @ [a]))
       (map Some (fs @ [a]) @ tl (gap @ [Some a]) @ map Some as @ z)
     else if is_dashes a
     then (True, length fs + length as, map Some (fs @ as) @ drop (length as) (gap @ Some a # map Some as) @ z)
     else case strip_cluster ws (as \<noteq> []) (drop 1 a) of
         None \<Rightarrow> (False, length fs, argv)
       | Some took \<Rightarrow>
           if took then strip_loop ws argc (length fs + length gap + 2) (length fs) argv
           else strip_loop ws argc (length fs + length (gap @ [Some a])) (length fs) (map Some fs @ (gap @ [Some a]) @ map Some as @ z))"
proof -
  have at: "argv ! (length fs + length gap) = Some a" by (simp add: argv_def nth_append)
  have nx: "(length fs + length gap + 1 < argc) = (as \<noteq> [])" by (simp add: argc)
  have same: "argv = map Some fs @ (gap @ [Some a]) @ map Some as @ z" by (simp add: argv_def)
  have up: "argv[length fs := Some a] = map Some (fs @ [a]) @ tl (gap @ [Some a]) @ map Some as @ z"
    unfolding argv_def by (rule update_front)
  have l: "length fs + length gap + 1 = length fs + length (gap @ [Some a])" by simp
  have l2: "length fs + length (gap @ [Some a]) = length (fs @ [a]) + length (tl (gap @ [Some a]))" "length fs + 1 = length (fs @ [a])" by simp_all
  have cp: "copy_rest (argc - (length fs + length gap + 1)) (length fs + length gap + 1) (length fs) argv =
      (length fs + length as, map Some (fs @ as) @ drop (length as) (gap @ Some a # map Some as) @ z)"
    using copy_rest_spec [of as fs "gap @ [Some a]" z] by (simp add: same argc)
  have lt: "length fs + length gap < argc" by (simp add: argc)
  show ?thesis
    unfolding strip_loop.simps [of ws argc "length fs + length gap" "length fs" argv] at nx cp up same [symmetric] l2 [symmetric] l [symmetric] option.case
    by (auto simp: lt split: option.split)
qed

text \<open>A list of letters that says which of the options take an argument.\<close>

definition letters_ok :: "string option \<Rightarrow> opt list \<Rightarrow> bool" where
  "letters_ok ws opts \<longleftrightarrow> (\<forall>ch idx. find_opt opts ch = Some idx \<longrightarrow> has_arg (opts ! idx) = contains_char ws ch)"

lemma find_opt_update:
  assumes "opt_ch p = opt_ch (opts ! i)" 
  shows "find_opt (opts[i := p]) ch = find_opt opts ch"
  using assms
proof (induction opts arbitrary: i)
  case (Cons q opts)
  then show ?case by (cases i) simp_all
qed simp

lemma find_opt_bound: "find_opt opts ch = Some i \<Longrightarrow> i < length opts"
  by (induction opts arbitrary: i) (auto split: if_splits)

lemma letters_ok_update:
  assumes "opt_ch p = opt_ch (opts ! i)" "has_arg p = has_arg (opts ! i)" "letters_ok ws opts"
  shows "letters_ok ws (opts[i := p])"
proof -
  have "has_arg (opts[i := p] ! j) = has_arg (opts ! j)" for j
    using assms(2) by (cases "i < length opts"; cases "i = j") (simp_all add: list_update_beyond)
  then show ?thesis using assms by (simp add: letters_ok_def find_opt_update)
qed

lemma strip_cluster_spec:
  assumes "cluster (peek as) cs opts = Inr (True, took, opts')" "letters_ok ws opts"
  shows "strip_cluster ws (as \<noteq> []) cs = Some took \<and> letters_ok ws opts'"
  using assms
proof (induction cs arbitrary: opts)
  case (Cons ch cs)
  obtain idx where idx: "find_opt opts ch = Some idx" using Cons.prems(1) by (auto split: option.splits)
  then have h: "has_arg (opts ! idx) = contains_char ws ch" using Cons.prems(2) by (simp add: letters_ok_def)
  show ?case
  proof (cases "contains_char ws ch")
    case True
    then show ?thesis using Cons.prems idx h
      by (auto simp: peek_def intro!: letters_ok_update split: if_splits list.splits option.splits)
  next
    case False
    then show ?thesis using Cons idx h letters_ok_update [of _ opts idx ws] by simp
  qed
qed simp

lemma strip_loop_spec:
  assumes "argc = length fs + length gap + length rest" "flag_args opts rest = Some (opts', gs)" "letters_ok ws opts"
  shows "\<exists>argv'. kept fs gs argc z argv' \<and>
    strip_loop ws argc (length fs + length gap) (length fs) (map Some fs @ gap @ map Some rest @ z) = (True, length fs + length gs, argv')"
  using assms
proof (induction opts rest arbitrary: fs gap gs rule: flag_args.induct)
  case (1 opts)
  then show ?case by (subst strip_loop.simps) (auto simp: kept_def)
next
  case (2 opts a as)
  note step = strip_loop_step [OF "2.prems"(1), of ws z]
  consider "ch_at a 0 = CHR 0x00" | "ch_at a 0 \<noteq> CHR 0x00" "is_file_arg a" | "ch_at a 0 \<noteq> CHR 0x00" "\<not> is_file_arg a" "is_dashes a"
    | "ch_at a 0 \<noteq> CHR 0x00" "\<not> is_file_arg a" "\<not> is_dashes a" by blast
  then show ?case
  proof cases
    case c: 1
    show ?thesis unfolding step using "2.IH"(1) [OF c, of fs "gap @ [Some a]" gs] "2.prems" c by simp
  next
    case c: 2
    then obtain gs1 where gs: "gs = a # gs1" "flag_args opts as = Some (opts', gs1)" using "2.prems"(2) by auto
    show ?thesis unfolding step using "2.IH"(2) [OF c, of "fs @ [a]" "tl (gap @ [Some a])" gs1] "2.prems" c gs
      by (auto simp: kept_Cons simp del: map_append append_assoc)
  next
    case c: 3
    show ?thesis unfolding step using kept_rest [of argc fs "gap @ [Some a]" as z] "2.prems" c by auto
  next
    case c: 4
    obtain ok took opts1 where cl: "cluster (peek as) (drop 1 a) opts = Inr (ok, took, opts1)" "took \<Longrightarrow> as \<noteq> []"
      using peek_total by blast
    then have ok: "ok" using "2.prems"(2) c by (auto split: if_splits)
    then have sc: "strip_cluster ws (as \<noteq> []) (drop 1 a) = Some took" "letters_ok ws opts1"
      using strip_cluster_spec cl(1) "2.prems"(3) by auto
    note IH = "2.IH"(3) [OF c cl(1) refl refl ok]
    show ?thesis
    proof (cases took)
      case True
      then obtain b bs where as: "as = b # bs" using cl(2) by (cases as) auto
      show ?thesis unfolding step using IH [of fs "gap @ [Some a, Some b]" gs] "2.prems" c cl(1) True as sc ok by simp
    next
      case False
      then show ?thesis unfolding step using IH [of fs "gap @ [Some a]" gs] "2.prems" c cl(1) sc ok by simp
    qed
  qed
qed


lemma parse_loop_start:
  assumes "argv = map Some (p # args) @ [None]"
  shows "case flag_args opts args of
     Some (opts', files) \<Rightarrow> \<exists>argv'. kept [p] files (length (p # args)) [None] argv' \<and>
       parse_loop (length (p # args)) 1 1 argv opts = Inr (True, 1 + length files, argv', opts')
   | None \<Rightarrow> \<exists>w argv' opts'. parse_loop (length (p # args)) 1 1 argv opts = Inr (False, w, argv', opts')"
  using parse_loop_spec [of "length (p # args)" "[p]" "[]" args "[None]" opts] by (cases "flag_args opts args") (auto simp: assms)

lemma letters_ok_distinct:
  assumes "distinct (map opt_ch opts)"
  shows "letters_ok (Some (map opt_ch (filter has_arg opts))) opts"
proof -
  have f: "find_opt opts ch = Some i \<Longrightarrow> i < length opts \<and> opt_ch (opts ! i) = ch" for ch i
    by (induction opts arbitrary: i) (auto split: if_splits)
  have "has_arg (opts ! i) \<longleftrightarrow> opt_ch (opts ! i) \<in> opt_ch ` {p \<in> set opts. has_arg p}" if "i < length opts" for i
  proof
    assume "opt_ch (opts ! i) \<in> opt_ch ` {p \<in> set opts. has_arg p}"
    then obtain q where "q \<in> set opts" "has_arg q" "opt_ch q = opt_ch (opts ! i)" by auto
    then show "has_arg (opts ! i)" using assms that by (auto simp: distinct_map dest: inj_onD)
  qed (use that in auto)
  then show ?thesis by (auto simp: letters_ok_def contains_char_def list_ex_iff dest!: f) 
qed

lemma clear_opt_simps [simp]: "opt_ch (clear_opt p) = opt_ch p" "has_arg (clear_opt p) = has_arg p"
  by (simp_all add: clear_opt_def)

lemma letters_clear: "map opt_ch (filter has_arg (map clear_opt opts)) = map opt_ch (filter has_arg opts)"
  by (simp add: filter_map comp_def)

text \<open>C29. The two option parsers of the library agree: where \<open>parse_flags\<close> accepts the arguments, it leaves the
  program's name and the file arguments at the front of the vector, and null pointers behind them, and
  \<open>strip_flags\<close>, told which letters take an argument, keeps the same arguments.\<close>

theorem flag_parsers_agree:
  assumes "distinct (map opt_ch opts)" "parse_flags (length (p # args)) (map Some (p # args) @ [None]) opts = Inr (n, v, opts')" "n \<noteq> - 1"
  shows "\<exists>files v'. flag_args (map clear_opt opts) args = Some (opts', files) \<and> n = 1 + int (length files) \<and>
    v = map Some (p # files) @ replicate (length args - length files + 1) None \<and>
    strip_flags (length (p # args)) (map Some (p # args) @ [None]) (Some (map opt_ch (filter has_arg opts))) = (n, v') \<and>
    take (nat n) v' = take (nat n) v"
proof -
  let ?argv = "map Some (p # args) @ [None]" and ?ws = "Some (map opt_ch (filter has_arg opts))"
  let ?argc = "length (p # args)"
  have fl: "flag_args (map clear_opt opts) args \<noteq> None"
    using parse_loop_start [of ?argv p args "map clear_opt opts"] assms(2,3) by (cases "flag_args (map clear_opt opts) args") (auto simp: parse_flags_def)
  then obtain opts1 files where f: "flag_args (map clear_opt opts) args = Some (opts1, files)" by auto
  then obtain v1 where v1: "kept [p] files ?argc [None] v1" "parse_loop ?argc 1 1 ?argv (map clear_opt opts) = Inr (True, 1 + length files, v1, opts1)"
    using parse_loop_start [of ?argv p args "map clear_opt opts"] by auto
  have r: "n = 1 + int (length files)" "v = null_from (1 + length files) ?argc v1" "opts1 = opts'"
    using assms(2) v1(2) by (auto simp: parse_flags_def)
  obtain gap where gap: "1 + length files + length gap = ?argc" "v1 = map Some (p # files) @ gap @ [None]" using v1(1) by (auto simp: kept_def)
  have v: "v = map Some (p # files) @ replicate (length args - length files + 1) None"
    unfolding r(2) using gap by (subst null_from_nth) (auto simp: max_def Suc_diff_le replicate_append_same [symmetric])
  have "letters_ok ?ws (map clear_opt opts)"
    using letters_ok_distinct [of "map clear_opt opts"] assms(1) by (simp add: letters_clear comp_def)
  from strip_loop_spec [OF _ f this, of ?argc "[p]" "[]" "[None]"]
  obtain v2 where v2: "kept [p] files ?argc [None] v2" "strip_loop ?ws ?argc 1 1 ?argv = (True, 1 + length files, v2)" by auto
  then have s: "strip_flags ?argc ?argv ?ws = (n, v2[1 + length files := None])" by (simp add: strip_flags_def r)
  obtain gap2 where "v2 = map Some (p # files) @ gap2 @ [None]" using v2(1) by (auto simp: kept_def)
  then have "take (nat n) (v2[1 + length files := None]) = take (nat n) v" using v r(1) by (simp add: nat_add_distrib)
  then show ?thesis using f r v s by blast
qed

definition demo_opts :: "opt list" where
  "demo_opts = [\<lparr>opt_ch = CHR ''n'', has_arg = True, seen = False, opt_arg = None\<rparr>,
                \<lparr>opt_ch = CHR ''f'', has_arg = False, seen = False, opt_arg = None\<rparr>]"

theorem flag_parsers_agree_witness:
  "\<exists>v'. strip_flags 5 (map Some [''tail'', ''a'', ''-fn'', ''5'', ''b''] @ [None]) (Some ''n'') = (3, v') \<and>
    take 3 v' = map Some [''tail'', ''a'', ''b'']"
proof -
  have f: "flag_args (map clear_opt demo_opts) [''a'', ''-fn'', ''5'', ''b''] =
      Some ([\<lparr>opt_ch = CHR ''n'', has_arg = True, seen = True, opt_arg = Some ''5''\<rparr>,
             \<lparr>opt_ch = CHR ''f'', has_arg = False, seen = True, opt_arg = None\<rparr>], [''a'', ''b''])"
    by code_simp
  obtain n v opts' where p: "parse_flags (length (''tail'' # [''a'', ''-fn'', ''5'', ''b''])) (map Some (''tail'' # [''a'', ''-fn'', ''5'', ''b'']) @ [None]) demo_opts = Inr (n, v, opts')" "n \<noteq> - 1"
    using parse_loop_start [of _ "''tail''" "[''a'', ''-fn'', ''5'', ''b'']" "map clear_opt demo_opts", OF refl] f by (auto simp: parse_flags_def)
  have "distinct (map opt_ch demo_opts)" by (simp add: demo_opts_def)
  from flag_parsers_agree [OF this p, unfolded f] show ?thesis by (auto simp: demo_opts_def eval_nat_numeral)
qed

end
