(* ===== verification/Spec2Isabelle.thy ===== *)
theory Spec2Isabelle
  imports Fsio Trap Fdtab Shparse Logspace Sleepwake Grep Datetime Xo Ulib
begin

text \<open>
  A verification development of the xv6-riscv fork under \<open>src/\<close>: the kernel (\<open>src/kernel\<close>) and some of the user
  programs (\<open>src/user\<close>).

  \<^bold>\<open>The program.\<close> The kernel runs processes in page-table address spaces on several harts. Spin locks turn
  interrupts off; the page allocator hands out pages for page tables, user memory and kernel stacks; the process
  table is the state of \<open>fork\<close>, \<open>wait\<close>, \<open>sleep\<close>, \<open>wakeup\<close> and \<open>kill\<close>, and the scheduler chooses by one of three
  policies. The drivers (UART, console, virtio disk) are on one side interrupt handlers and on the other routines
  that sleep. The file system stands on the disk in layers: the buffer cache, the write-ahead log, and above them
  inodes, directories and files.

  \<^bold>\<open>Conventions.\<close> A routine takes the state last and returns \<open>kerr + result \<times> state\<close>: \<open>Inl\<close> is a panic, an access
  outside an array or through a null pointer (\<open>Fault\<close>), running out of fuel (\<open>Diverge\<close>), or waiting for something that
  nobody else provides in the routine's own run (\<open>Block\<close>). \<open>bindr\<close> sequences. The state is a chain of extensible
  records, one per component, each extending that of the components below: \<open>kst\<close> (the spin locks that the running
  thread holds, \<open>Klock\<close>), \<open>kmem\<close> (physical memory and free list), \<open>kout\<close> (console output), \<open>pst\<close> (process table), \<open>ust\<close>
  (UART), \<open>cst\<close> (console), \<open>sst\<close> (sleep locks), \<open>vst\<close> (buffers and disk), \<open>lst\<close> (log), \<open>ist\<close> (superblock and inodes),
  \<open>flst\<close> (open files and pipes), \<open>xst\<close> (what the remaining system calls use), \<open>tst\<close> (control registers). A routine that may sleep
  is cut at the sleep: \<open>f_try\<close> runs to its end (\<open>Done\<close>) or to the sleep (\<open>Sleeps\<close>), \<open>f_resume\<close> goes on after the
  wakeup, so that properties about wakeups can interleave other routines. From the inodes up a routine is in one piece, and one
  that would sleep ends in \<open>Block\<close>; pipes are cut at the sleep again. Machine integers are words of the width in
  the source; user-visible \<open>int\<close> results that cannot overflow are \<open>int\<close>.

  \<^bold>\<open>The theories.\<close>

  \<^item> \<open>Xv6_Prelude\<close>: results, words, little-endian numbers in byte lists, searches in arrays, named collections.
  \<^item> \<open>Spinlock\<close> (\<open>kernel/spinlock.c\<close>): locks, \<open>push_off\<close>/\<open>pop_off\<close> on a machine of several harts, steps of harts as an
    inductive relation; mutual exclusion and interrupts off while a lock is held. \<open>Klock\<close> is the view of one thread.
  \<^item> \<open>Kstring\<close> (\<open>kernel/string.c\<close>): closed forms of the byte routines, \<open>memmove\<close> under overlap, \<open>safestrcpy\<close>.
  \<^item> \<open>Physmem\<close>, \<open>Kalloc\<close> (\<open>kernel/kalloc.c\<close>): the free list threaded through memory refines a list of pages;
    \<open>kinit\<close> frees every page.
  \<^item> \<open>Pagetable\<close>, \<open>Vm\<close> (\<open>kernel/vm.c\<close>): \<open>walk\<close> and \<open>mappages\<close> against a map from pages to entries; copying between
    address spaces and the kernel.
  \<^item> \<open>Kprintf\<close> (\<open>kernel/printf.c\<close>): formatted output; digits of a number and the bound of the digit buffer.
  \<^item> \<open>Proc\<close>, \<open>Sched\<close> (\<open>kernel/proc.c\<close>): process table and scheduler; distinct process numbers, wakeup, kill, and what
    each policy chooses.
  \<^item> \<open>Ring\<close>: ring buffers with free-running counters as an implementation of the locale \<open>fifo\<close>; \<open>Uart\<close>
    (\<open>kernel/uart.c\<close>) and \<open>Console\<close> (\<open>kernel/console.c\<close>) use them.
  \<^item> \<open>Sleeplock\<close> (\<open>kernel/sleeplock.c\<close>); in \<open>Sleepwake\<close> its routines, with \<open>sleep\<close> and \<open>wakeup\<close>, are taken apart into
    statements that processes interleave as the spin locks allow, and no wakeup is lost.
  \<^item> \<open>Virtio\<close> (\<open>kernel/virtio_disk.c\<close>): descriptors, rings and a device that serves the requests that are set up as the
    specification requires, or reports an error; a transfer moves the block. The layers above assume a device without errors.
  \<^item> \<open>Bio\<close> (\<open>kernel/bio.c\<close>): the list of buffers refines an abstract cache; laws for the block operations as the
    locale \<open>block_cache\<close>, which the log uses.
  \<^item> \<open>Log\<close>, \<open>Logspace\<close> (\<open>kernel/log.c\<close>): commit and recovery; a crash at any write of a commit leaves, after recovery,
    all blocks of the transaction or none. The space that \<open>begin_op\<close> reserves.
  \<^item> \<open>Fs\<close> (\<open>kernel/fs.c\<close>): blocks, inodes, directories and path names. \<open>Txn\<close> is what an operation of the file system may rely on
    inside a transaction: blocks as a map, of which \<open>log_write\<close> changes one, and the room that is left. \<open>Balloc\<close>: the
    allocation of a block is the first clear bit. \<open>Fsdata\<close>, \<open>Fsio\<close>: the block map of a file, \<open>readi\<close> and \<open>writei\<close>
    as reading and overwriting a list of bytes, and the round trip of an inode to its block.
  \<^item> \<open>Pipe\<close> (\<open>kernel/pipe.c\<close>): the ring as a \<open>fifo\<close>, and runs of writers and readers that may sleep in between or meet addresses they may
    not write.
  \<^item> \<open>File\<close> (\<open>kernel/file.c\<close>), \<open>Sysfile\<close> (\<open>kernel/sysfile.c\<close>, arguments of \<open>kernel/syscall.c\<close>), \<open>Exec\<close> (\<open>kernel/exec.c\<close>),
    \<open>Lifecycle\<close> (\<open>fork\<close>, \<open>exit\<close>, \<open>userinit\<close> and \<open>kernel/sysproc.c\<close>), \<open>Trap\<close> (\<open>kernel/trap.c\<close>, \<open>kernel/syscall.c\<close>): the rest of
    the kernel down to the return to user mode.
  \<^item> \<open>Frames\<close>, \<open>Fdtab\<close>: every routine below the file layer leaves the table of files and the descriptors alone, and from this the
    type safety of descriptors over all system calls that touch them, \<open>fork\<close> and \<open>exit\<close>.
  \<^item> \<open>Datetime\<close> (\<open>kernel/datetime.c\<close>): the civil date of a number of seconds, against the Gregorian calendar.
  \<^item> \<open>Ulib\<close>, \<open>Uprintf\<close> (\<open>user/ulib.c\<close>, \<open>user/printf.c\<close>): strings in memory, \<open>joinpath\<close>, option parsing, output.
  \<^item> \<open>Grep\<close> (\<open>user/grep.c\<close>): the matcher against a declarative language, and the loop over the input.
  \<^item> \<open>Sh\<close>, \<open>Shrun\<close>, \<open>Shparse\<close> (\<open>user/sh.c\<close>): the parser on positions in the line ends on every line and reads back every command;
    \<open>runcmd\<close> is a tree of system calls, the processes interleave them, and in every interleaving each program has the input
    and output that the command stands for and the shell waits for whom it should.
  \<^item> \<open>Minimax\<close>, \<open>Xo\<close> (\<open>user/xo.c\<close>): search with a window equals the minimax value; the game of tic-tac-toe.

  \<^bold>\<open>Fuel.\<close> Loops whose end is not a matter of structure have fuel, and running out of it is the error \<open>Diverge\<close>, so a
  theorem that a routine returns says that the fuel is enough. The fuel is the number of pages in a range
  (\<open>freerange\<close>, \<open>mappages\<close>), the number of buffers in the cache's list (\<open>bfind\<close>), the number of bytes in a ring
  (\<open>uartstart\<close>), one more than the number of free cells (\<open>minimax\<close>), four times the length of a line and four
  (\<open>parseline\<close>).

  \<^bold>\<open>Not modelled.\<close> The boot code (\<open>start.c\<close>, \<open>main.c\<close>, \<open>entry.S\<close>), the set-up of the interrupt controller and the
  context switch and trap vectors in assembly only access hardware registers. Test programs
  (\<open>usertests.c\<close>, \<open>grind.c\<close>, \<open>forktest.c\<close>, \<open>stressfs.c\<close>, \<open>schedtest.c\<close> and the like) exercise the system and
  have no behaviour of their own to promise. The other user programs are a few calls around the library, and \<open>mkfs\<close> runs on the
  host. The manifest lists each of these parts with its reason.
\<close>

end
